(* ===== verification/Prelude.thy ===== *)
theory Prelude
  imports Main "HOL-Library.Word" "HOL-Library.Log_Nat" "HOL-Library.Multiset"
begin

text \<open>
  Shared vocabulary of the development: machine integer types, the error values that stand
  for the C++ exceptions, the error monad used where the code throws, and the generic lemmas
  on lists and words that the component theories use.
\<close>

unbundle bit_operations_syntax

section \<open>Machine integers\<close>

type_synonym u8 = "8 word"
type_synonym u16 = "16 word"
type_synonym u32 = "32 word"
type_synonym u64 = "64 word"

text \<open>\<open>c10_arith\<close> collects the arithmetic facts that are used by name in several theories.\<close>

named_theorems c10_arith
named_theorems bit_facts

section \<open>Errors\<close>

text \<open>
  The exceptions the modelled code throws. Every constructor carries the message prefix that
  identifies the check that failed.
\<close>

datatype c10_error =
    CheckError string      \<comment> \<open>\<open>TORCH_CHECK\<close>, \<open>TORCH_CHECK_WITH\<close>, \<open>C10_THROW_ERROR(Error)\<close>\<close>
  | IndexError string      \<comment> \<open>\<open>TORCH_CHECK_INDEX\<close>\<close>
  | ValueError string      \<comment> \<open>\<open>TORCH_CHECK_VALUE\<close>\<close>
  | InternalAssert string  \<comment> \<open>\<open>TORCH_INTERNAL_ASSERT\<close>\<close>
  | OutOfMemory string     \<comment> \<open>\<open>OutOfMemoryError\<close> of the allocators\<close>
  | DistStoreError string  \<comment> \<open>\<open>c10::DistStoreError\<close>\<close>
  | DistNetworkError string    \<comment> \<open>\<open>c10::DistNetworkError\<close>\<close>
  | DistQueueEmptyError string \<comment> \<open>\<open>c10::DistQueueEmptyError\<close>\<close>
  | NotImplementedError string \<comment> \<open>\<open>c10::NotImplementedError\<close>\<close>
  | StdInvalidArgument string  \<comment> \<open>\<open>std::invalid_argument\<close>\<close>
  | StdOutOfRange string       \<comment> \<open>\<open>std::out_of_range\<close>\<close>
  | StdBadVariantAccess        \<comment> \<open>\<open>std::bad_variant_access\<close>\<close>

type_synonym 'a result = "c10_error + 'a"

definition bindE :: "'a result \<Rightarrow> ('a \<Rightarrow> 'b result) \<Rightarrow> 'b result" where
  "bindE m f = (case m of Inl e \<Rightarrow> Inl e | Inr x \<Rightarrow> f x)"

definition check :: "bool \<Rightarrow> c10_error \<Rightarrow> unit result" where
  "check b e = (if b then Inr () else Inl e)"

lemma bindE_simps [simp]:
  "bindE (Inl e) f = Inl e"
  "bindE (Inr x) f = f x"
  by (simp_all add: bindE_def)

lemma bindE_assoc: "bindE (bindE m f) g = bindE m (\<lambda>x. bindE (f x) g)"
  by (cases m) simp_all

lemma bindE_Inr_iff: "bindE m f = Inr y \<longleftrightarrow> (\<exists>x. m = Inr x \<and> f x = Inr y)"
  by (cases m) simp_all

lemma bindE_Inl_iff: "bindE m f = Inl e \<longleftrightarrow> m = Inl e \<or> (\<exists>x. m = Inr x \<and> f x = Inl e)"
  by (cases m) simp_all

lemma check_simps [simp]:
  "check True e = Inr ()"
  "check False e = Inl e"
  by (simp_all add: check_def)

lemma check_Inr_iff [simp]: "check b e = Inr u \<longleftrightarrow> b"
  by (simp add: check_def)

lemma check_Inl_iff [simp]: "check b e = Inl e' \<longleftrightarrow> \<not> b \<and> e' = e"
  by (auto simp: check_def)

lemma bindE_check: "bindE (check b e) f = (if b then f () else Inl e)"
  by simp

fun mapE :: "('a \<Rightarrow> 'b result) \<Rightarrow> 'a list \<Rightarrow> 'b list result" where
  "mapE f [] = Inr []"
| "mapE f (x # xs) = bindE (f x) (\<lambda>y. bindE (mapE f xs) (\<lambda>ys. Inr (y # ys)))"

fun foldE :: "('s \<Rightarrow> 'a \<Rightarrow> 's result) \<Rightarrow> 's \<Rightarrow> 'a list \<Rightarrow> 's result" where
  "foldE f s [] = Inr s"
| "foldE f s (x # xs) = bindE (f s x) (\<lambda>s'. foldE f s' xs)"

lemma mapE_Inr_length: "mapE f xs = Inr ys \<Longrightarrow> length ys = length xs"
  by (induction xs arbitrary: ys) (auto simp: bindE_Inr_iff)

lemma mapE_Inr_nth:
  "mapE f xs = Inr ys \<Longrightarrow> i < length xs \<Longrightarrow> f (xs ! i) = Inr (ys ! i)"
  by (induction xs arbitrary: ys i) (auto simp: bindE_Inr_iff nth_Cons split: nat.splits)

lemma foldE_append: "foldE f s (xs @ ys) = bindE (foldE f s xs) (\<lambda>s'. foldE f s' ys)"
  by (induction xs arbitrary: s) (auto simp: bindE_assoc)

lemma foldE_invariant:
  assumes "foldE f s xs = Inr t" and "P s"
    and step: "\<And>s x s'. P s \<Longrightarrow> x \<in> set xs \<Longrightarrow> f s x = Inr s' \<Longrightarrow> P s'"
  shows "P t"
  using assms
proof (induction xs arbitrary: s)
  case Nil
  then show ?case by simp
next
  case (Cons x xs)
  from Cons.prems(1) obtain s' where s': "f s x = Inr s'" "foldE f s' xs = Inr t"
    by (auto simp: bindE_Inr_iff)
  have "P s'" by (rule Cons.prems(3) [OF Cons.prems(2) _ s'(1)]) simp
  then show ?case by (rule Cons.IH [OF s'(2)]) (rule Cons.prems(3), auto)
qed

section \<open>Lists\<close>

lemma sorted_wrt_irrefl_distinct:
  "sorted_wrt R xs \<Longrightarrow> (\<And>x. \<not> R x x) \<Longrightarrow> distinct xs"
  by (induction xs) auto

lemma sorted_wrt_concat_blocks:
  assumes "sorted_wrt (<) (js :: nat list)" "\<And>j. j \<in> set js \<Longrightarrow> sorted_wrt R (f j)"
    "\<And>i j x y. i \<in> set js \<Longrightarrow> j \<in> set js \<Longrightarrow> i < j \<Longrightarrow> x \<in> set (f i) \<Longrightarrow> y \<in> set (f j) \<Longrightarrow> R x y"
  shows "sorted_wrt R (concat (map f js))"
  using assms
proof (induction js)
  case (Cons j js)
  have IH: "sorted_wrt R (concat (map f js))"
  proof (rule Cons.IH)
    show "sorted_wrt (<) js" using Cons.prems(1) by simp
    show "sorted_wrt R (f i)" if "i \<in> set js" for i using Cons.prems(2) that by simp
    show "R x y" if "i \<in> set js" "k \<in> set js" "i < k" "x \<in> set (f i)" "y \<in> set (f k)" for i k x y
      by (rule Cons.prems(3) [of i k]) (use that in auto)
  qed
  have "R x y" if "x \<in> set (f j)" "y \<in> set (f i)" "i \<in> set js" for x y i
    by (rule Cons.prems(3) [of j i]) (use that Cons.prems(1) in auto)
  then show ?case using IH Cons.prems(2) [of j] by (auto simp: sorted_wrt_append)
qed simp

lemma filter_upt_Cons:
  assumes "filter P [a..<n] = j # js"
  shows "a \<le> j" "j < n" "P j" "\<And>i. a \<le> i \<Longrightarrow> i < j \<Longrightarrow> \<not> P i" "js = filter P [Suc j..<n]"
proof -
  have "j \<in> set (filter P [a..<n])" using assms by simp
  then show j: "a \<le> j" "j < n" "P j" by auto
  have split: "[a..<n] = [a..<j] @ j # [Suc j..<n]"
    using j upt_add_eq_append [of a j "n - j"] upt_conv_Cons [of j n] by simp
  have srt: "sorted (j # js)" using assms by (metis sorted_wrt_filter sorted_upt)
  show none: "\<not> P i" if "a \<le> i" "i < j" for i
  proof
    assume "P i"
    then have "i \<in> set (filter P [a..<n])" using that j by simp
    then have "i \<in> set (j # js)" using assms by simp
    then show False using srt that by auto
  qed
  have "filter P [a..<j] = []" using none by (simp add: filter_empty_conv)
  then show "js = filter P [Suc j..<n]" using assms split j(3) by simp
qed

lemma filter_upt_Nil: "filter P [a..<n] = [] \<longleftrightarrow> (\<forall>i. a \<le> i \<and> i < n \<longrightarrow> \<not> P i)"
  by (auto simp: filter_empty_conv)

lemma length_concat_le:
  "(\<And>x. x \<in> set xs \<Longrightarrow> length (f x) \<le> c) \<Longrightarrow> length (concat (map f xs)) \<le> length xs * c"
  by (induction xs) fastforce+

section \<open>Words\<close>

lemma bit_unat_iff: "bit w i \<longleftrightarrow> odd (unat w div 2 ^ i)"
  for w :: "'a::len word"
proof -
  have "bit (unat w) i \<longleftrightarrow> bit w i" by (simp add: bit_simps)
  then show ?thesis by (simp add: bit_iff_odd [where a = "unat w"])
qed

lemma bit_u64_lt: "bit w i \<Longrightarrow> i < 64"
  for w :: u64
  using bit_imp_le_length [of w i] by simp

lemma unat_2pow_u64: "n < 64 \<Longrightarrow> unat (2 ^ n :: u64) = 2 ^ n"
proof -
  assume "n < 64"
  then have "(2::nat) ^ n < 2 ^ 64" by (simp only: power_strict_increasing_iff)
  moreover have "unat (of_nat (2 ^ n) :: u64) = 2 ^ n mod 2 ^ 64"
    by (simp add: unsigned_of_nat take_bit_eq_mod del: of_nat_power of_nat_numeral)
  ultimately show ?thesis by simp
qed

lemma and_not_mask: "(x::u64) AND NOT (mask k) = x - take_bit k x"
proof -
  have "NOT x AND (x AND mask k) = 0" by (rule bit_word_eqI) (auto simp: bit_simps)
  then have "x - (x AND mask k) = x AND NOT (x AND mask k)" by (rule disjunctive_diff_eq_and_not)
  moreover have "x AND NOT (x AND mask k) = x AND NOT (mask k)" by (rule bit_word_eqI) (auto simp: bit_simps)
  ultimately show ?thesis by (simp add: take_bit_eq_mask)
qed
lemma unat_take_bit_u64: "unat (take_bit k (x::u64)) = unat x mod 2 ^ k"
proof -
  have "unat (take_bit k x) = take_bit k (unat x)" by (simp only: unsigned_take_bit_eq)
  then show ?thesis by (simp only: take_bit_eq_mod)
qed
lemma unat_and_not_mask: "unat ((x::u64) AND NOT (mask k)) = unat x - unat x mod 2 ^ k"
proof -
  have "take_bit k x \<le> x" by (simp only: word_le_nat_alt unat_take_bit_u64) simp
  then show ?thesis by (simp only: and_not_mask unat_sub unat_take_bit_u64)
qed

lemma bit_2pow_range:
  assumes "2 ^ h \<le> n" "n < 2 ^ Suc h"
  shows "bit (n::nat) h" and "h < j \<Longrightarrow> \<not> bit n j"
proof -
  have "n div 2 ^ h = 1"
    using assms by (intro div_nat_eqI) auto
  then show "bit n h" by (simp add: bit_iff_odd)
next
  assume "h < j"
  then have "(2::nat) ^ Suc h \<le> 2 ^ j" by (intro power_increasing) auto
  then have "n < 2 ^ j" using assms(2) by linarith
  then show "\<not> bit n j" by (simp add: bit_iff_odd)
qed

end
