(* ===== verification/BitMath.thy ===== *)
theory BitMath
  imports Prelude
begin

text \<open>
  The bit tricks of \<open>c10/util/llvmMathExtras.h\<close> on 64-bit unsigned words: zero counting by
  bisection, masks, powers of two, alignment. The dispatch key sets and the allocators are
  built on them. Shift amounts and bit counts are \<open>nat\<close>; values are \<^typ>\<open>u64\<close> and wrap.
\<close>

section \<open>Definitions\<close>

text \<open>\<open>TrailingZerosCounter::count\<close>: the bisection loop and its entry.\<close>

fun tzc_loop :: "u64 \<Rightarrow> nat \<Rightarrow> u64 \<Rightarrow> nat \<Rightarrow> nat" where
  "tzc_loop val shift msk zerobits =
     (if shift = 0 then zerobits
      else let (val', zb') = (if val AND msk = 0 then (drop_bit shift val, zerobits OR shift)
                              else (val, zerobits));
               shift' = shift div 2
           in tzc_loop val' shift' (drop_bit shift' msk) zb')"

definition countTrailingZeros :: "u64 \<Rightarrow> nat" where
  "countTrailingZeros val =
     (if val = 0 then 64
      else if val AND 1 \<noteq> 0 then 0
      else tzc_loop val 32 (drop_bit 32 (- 1)) 0)"

text \<open>\<open>LeadingZerosCounter::count\<close>.\<close>

fun lzc_loop :: "u64 \<Rightarrow> nat \<Rightarrow> nat \<Rightarrow> nat" where
  "lzc_loop val shift zerobits =
     (if shift = 0 then zerobits
      else let tmp = drop_bit shift val
           in if tmp \<noteq> 0 then lzc_loop tmp (shift div 2) zerobits
              else lzc_loop val (shift div 2) (zerobits OR shift))"

definition countLeadingZeros :: "u64 \<Rightarrow> nat" where
  "countLeadingZeros val = (if val = 0 then 64 else lzc_loop val 32 0)"

text \<open>\<open>findFirstSet\<close> and \<open>findLastSet\<close> with the default \<open>ZB_Max\<close>: \<open>None\<close> is
  \<open>numeric_limits<T>::max()\<close>, which no bit index equals.\<close>

definition findFirstSet :: "u64 \<Rightarrow> nat option" where
  "findFirstSet val = (if val = 0 then None else Some (countTrailingZeros val))"

definition findLastSet :: "u64 \<Rightarrow> nat option" where
  "findLastSet val = (if val = 0 then None else Some (countLeadingZeros val XOR 63))"

definition maskTrailingOnes :: "nat \<Rightarrow> u64" where
  "maskTrailingOnes n = (if n = 0 then 0 else drop_bit (64 - n) (- 1))"

definition maskLeadingOnes :: "nat \<Rightarrow> u64" where
  "maskLeadingOnes n = NOT (maskTrailingOnes (64 - n))"

definition maskTrailingZeros :: "nat \<Rightarrow> u64" where
  "maskTrailingZeros n = maskLeadingOnes (64 - n)"

definition maskLeadingZeros :: "nat \<Rightarrow> u64" where
  "maskLeadingZeros n = maskTrailingOnes (64 - n)"

definition isPowerOf2_64 :: "u64 \<Rightarrow> bool" where
  "isPowerOf2_64 v \<longleftrightarrow> v \<noteq> 0 \<and> v AND (v - 1) = 0"

definition NextPowerOf2 :: "u64 \<Rightarrow> u64" where
  "NextPowerOf2 a0 =
     (let a1 = a0 OR drop_bit 1 a0;
          a2 = a1 OR drop_bit 2 a1;
          a3 = a2 OR drop_bit 4 a2;
          a4 = a3 OR drop_bit 8 a3;
          a5 = a4 OR drop_bit 16 a4;
          a6 = a5 OR drop_bit 32 a5
      in a6 + 1)"

definition PowerOf2Floor :: "u64 \<Rightarrow> u64" where
  "PowerOf2Floor a = (if a = 0 then 0 else push_bit (63 - countLeadingZeros a) 1)"

definition PowerOf2Ceil :: "u64 \<Rightarrow> u64" where
  "PowerOf2Ceil a = (if a = 0 then 0 else NextPowerOf2 (a - 1))"

definition alignTo :: "u64 \<Rightarrow> u64 \<Rightarrow> u64 \<Rightarrow> u64" where
  "alignTo v align skew =
     (let skew' = skew mod align in (v + align - 1 - skew') div align * align + skew')"

function GreatestCommonDivisor64 :: "u64 \<Rightarrow> u64 \<Rightarrow> u64" where
  "GreatestCommonDivisor64 a b =
     (if b = 0 then a else GreatestCommonDivisor64 b (a mod b))"
  by pat_completeness auto
termination
  by (relation "measure (\<lambda>(a, b). unat b)") (auto simp: unat_mod unat_gt_0 word_gt_0)

declare tzc_loop.simps [simp del] lzc_loop.simps [simp del] GreatestCommonDivisor64.simps [simp del]

section \<open>Zero counting\<close>

lemma or_2pow_eq_add:
  assumes "2 ^ Suc j dvd (z::nat)"
  shows "z OR 2 ^ j = z + 2 ^ j"
proof -
  obtain c where c: "z = 2 ^ Suc j * c" using assms by (elim dvdE)
  have "\<not> bit z j" by (simp add: c bit_iff_odd)
  then have "z + 2 ^ j = z OR 2 ^ j"
    by (intro disjunctive_add) (auto simp: bit_simps)
  then show ?thesis by simp
qed

lemma unat_drop_bit: "unat (drop_bit n w) = unat w div 2 ^ n"
  for w :: "'a::len word"
  by (metis drop_bit_eq_div unat_drop_bit_eq)

lemma lzc_loop_spec:
  assumes "2 ^ h \<le> unat val" "unat val < 2 ^ Suc h" "h < 2 ^ Suc k" "2 ^ Suc k dvd zb"
  shows "lzc_loop val (2 ^ k) zb = zb + (2 ^ Suc k - 1 - h)"
  using assms
proof (induction k arbitrary: val zb h)
  case 0
  then have "h = 0 \<or> h = 1" by auto
  moreover have "drop_bit 1 val = 0 \<longleftrightarrow> unat val div 2 = 0"
    by (metis unat_drop_bit power_one_right unat_eq_0)
  ultimately show ?case using 0 or_2pow_eq_add [of 0 zb]
    by (auto simp: lzc_loop.simps [of _ "Suc 0"] lzc_loop.simps [of _ 0] Let_def)
next
  case (Suc k)
  let ?s = "2 ^ Suc k :: nat"
  let ?tmp = "drop_bit ?s val"
  have tmp: "unat ?tmp = unat val div 2 ^ ?s" by (rule unat_drop_bit)
  have half: "?s div 2 = 2 ^ k" by simp
  show ?case
  proof (cases "h < ?s")
    case True
    then have "(2::nat) ^ Suc h \<le> 2 ^ ?s" by (intro power_increasing) auto
    then have "unat val < 2 ^ ?s" using Suc.prems(2) by linarith
    then have "?tmp = 0" using tmp unat_eq_0 [of ?tmp] by simp
    then have "lzc_loop val ?s zb = lzc_loop val (2 ^ k) (zb OR ?s)"
      by (simp add: lzc_loop.simps [of val ?s] half Let_def del: power_Suc)
    also have "zb OR ?s = zb + ?s" using Suc.prems(4) by (rule or_2pow_eq_add)
    also have "lzc_loop val (2 ^ k) (zb + ?s) = zb + ?s + (2 ^ Suc k - 1 - h)"
      using Suc.prems True by (intro Suc.IH) (auto intro: dvd_add dvd_trans [OF _ Suc.prems(4)] le_imp_power_dvd)
    finally show ?thesis using True by simp
  next
    case False
    then obtain g where g: "h = ?s + g" by (metis le_Suc_ex not_less)
    have lo: "2 ^ g \<le> unat ?tmp" using Suc.prems(1) g tmp
      by (simp add: power_add less_eq_div_iff_mult_less_eq mult.commute)
    have hi: "unat ?tmp < 2 ^ Suc g" using Suc.prems(2) g tmp
      by (simp add: power_add less_mult_imp_div_less mult.commute mult.assoc mult.left_commute)
    from lo have "?tmp \<noteq> 0" by (metis unat_eq_0 le_zero_eq power_not_zero zero_neq_numeral)
    then have "lzc_loop val ?s zb = lzc_loop ?tmp (2 ^ k) zb"
      by (simp add: lzc_loop.simps [of val ?s] half Let_def del: power_Suc)
    also have "\<dots> = zb + (2 ^ Suc k - 1 - g)"
      using Suc.prems g lo hi by (intro Suc.IH) (auto intro: dvd_trans [OF _ Suc.prems(4)] le_imp_power_dvd)
    finally show ?thesis using g by simp
  qed
qed

lemma u64_highest_bit_ex:
  fixes w :: u64
  assumes "w \<noteq> 0"
  obtains h where "h < 64" "2 ^ h \<le> unat w" "unat w < 2 ^ Suc h"
proof -
  have pos: "0 < unat w" using assms by (simp add: unat_gt_0)
  obtain h where h: "2 ^ h \<le> unat w" "unat w < 2 ^ Suc h"
    using ex_power_ivl1 [of 2 "unat w"] pos by auto
  have "unat w < 2 ^ 64" using unsigned_less [of w] by simp
  then have "(2::nat) ^ h < 2 ^ 64" using h(1) by linarith
  then have "h < 64" by (simp only: power_strict_increasing_iff) 
  with h show thesis using that by blast
qed

text \<open>The leading zero counter computes the position of the highest set bit.\<close>

lemma countLeadingZeros_eq:
  assumes "2 ^ h \<le> unat w" "unat w < 2 ^ Suc h" "h < 64"
  shows "countLeadingZeros w = 63 - h"
proof -
  have "w \<noteq> 0" using assms(1) by auto
  moreover have "lzc_loop w (2 ^ 5) 0 = 0 + (2 ^ Suc 5 - 1 - h)"
    by (rule lzc_loop_spec) (use assms in auto)
  ultimately show ?thesis by (simp add: countLeadingZeros_def)
qed

lemma drop_mask_u64:
  "n + m \<le> 64 \<Longrightarrow> drop_bit m (mask (n + m) :: u64) = mask n"
  by (rule bit_eqI) (auto simp: bit_simps)

lemma and_mask_eq_0_iff:
  fixes w :: u64
  shows "w AND mask n = 0 \<longleftrightarrow> (\<forall>i<n. \<not> bit w i)"
  by (auto simp: bit_eq_iff bit_simps dest: bit_u64_lt)

lemma tzc_loop_spec:
  assumes "bit val t" "\<And>i. i < t \<Longrightarrow> \<not> bit val i" "t < 2 ^ Suc k" "2 ^ Suc k dvd zb" "k \<le> 5"
  shows "tzc_loop val (2 ^ k) (mask (2 ^ k)) zb = zb + t"
  using assms
proof (induction k arbitrary: val zb t)
  case 0
  then have "t = 0 \<or> t = 1" by auto
  moreover have "val AND 1 = 0 \<longleftrightarrow> t \<noteq> 0"
    using 0(1,2) and_mask_eq_0_iff [of val 1] by (auto intro: gr0I)
  ultimately show ?case using 0 or_2pow_eq_add [of 0 zb]
    by (auto simp: tzc_loop.simps [of _ "Suc 0"] tzc_loop.simps [of _ 0] Let_def)
next
  case (Suc k)
  let ?s = "2 ^ Suc k :: nat"
  have half: "?s div 2 = 2 ^ k" by simp
  have "2 ^ k + 2 ^ k \<le> (64::nat)"
    using Suc.prems(5) power_increasing [of "Suc k" 6 "2::nat"] by simp
  then have msk: "drop_bit (2 ^ k) (mask ?s :: u64) = mask (2 ^ k)"
    using drop_mask_u64 [of "2 ^ k" "2 ^ k"] by (simp add: mult_2)
  have zero: "val AND mask ?s = 0 \<longleftrightarrow> ?s \<le> t"
    using Suc.prems(1,2) by (auto simp: and_mask_eq_0_iff) (meson not_le)
  show ?case
  proof (cases "?s \<le> t")
    case True
    then have "tzc_loop val ?s (mask ?s) zb
        = tzc_loop (drop_bit ?s val) (2 ^ k) (mask (2 ^ k)) (zb OR ?s)"
      by (simp add: tzc_loop.simps [of val ?s] zero half msk Let_def del: power_Suc)
    also have "zb OR ?s = zb + ?s" using Suc.prems(4) by (rule or_2pow_eq_add)
    also have "tzc_loop (drop_bit ?s val) (2 ^ k) (mask (2 ^ k)) (zb + ?s) = zb + ?s + (t - ?s)"
    proof (rule Suc.IH)
      show "2 ^ Suc k dvd zb + ?s"
        by (intro dvd_add dvd_trans [OF _ Suc.prems(4)] le_imp_power_dvd) auto
    qed (use Suc.prems True in \<open>auto simp: bit_simps\<close>)
    finally show ?thesis using True by simp
  next
    case False
    then have "tzc_loop val ?s (mask ?s) zb = tzc_loop val (2 ^ k) (mask (2 ^ k)) zb"
      by (simp add: tzc_loop.simps [of val ?s] zero half msk Let_def del: power_Suc)
    also have "\<dots> = zb + t"
    proof (rule Suc.IH)
      show "2 ^ Suc k dvd zb"
        by (intro dvd_trans [OF _ Suc.prems(4)] le_imp_power_dvd) auto
    qed (use Suc.prems False in auto)
    finally show ?thesis .
  qed
qed

lemma countTrailingZeros_eq:
  assumes "bit w t" "\<And>i. i < t \<Longrightarrow> \<not> bit w i"
  shows "countTrailingZeros w = t"
proof -
  have t64: "t < 64" using assms(1) bit_imp_le_length [of w t] by simp
  have w0: "w \<noteq> 0" using assms(1) by auto
  have one: "w AND 1 = 0 \<longleftrightarrow> t \<noteq> 0"
    using assms and_mask_eq_0_iff [of w 1] by (auto simp: mask_Suc_0 intro: gr0I)
  have m: "drop_bit 32 (- 1 :: u64) = mask 32"
    using drop_mask_u64 [of 32 32] by (simp add: mask_eq_exp_minus_1)
  have "tzc_loop w (2 ^ 5) (mask (2 ^ 5)) 0 = 0 + t"
    by (rule tzc_loop_spec) (use assms t64 in auto)
  then show ?thesis using one w0 m by (auto simp: countTrailingZeros_def)
qed

lemma u64_lowest_bit_ex:
  fixes w :: u64
  assumes "w \<noteq> 0"
  obtains t where "t < 64" "bit w t" "\<And>i. i < t \<Longrightarrow> \<not> bit w i"
proof -
  obtain j where j: "bit w j" using assms bit_eqI [of w 0] by auto
  have "bit w (LEAST i. bit w i)" using j by (rule LeastI)
  moreover have "\<And>i. i < (LEAST i. bit w i) \<Longrightarrow> \<not> bit w i" by (rule not_less_Least)
  moreover have "(LEAST i. bit w i) < 64" using calculation(1) bit_imp_le_length by fastforce
  ultimately show thesis using that by blast
qed

lemma findFirstSet_None: "findFirstSet w = None \<longleftrightarrow> w = 0"
  by (simp add: findFirstSet_def)

lemma findFirstSet_Some_iff:
  "findFirstSet w = Some t \<longleftrightarrow> bit w t \<and> (\<forall>i<t. \<not> bit w i)"
proof (cases "w = 0")
  case True
  then show ?thesis by (simp add: findFirstSet_def)
next
  case False
  then obtain s where s: "bit w s" "\<And>i. i < s \<Longrightarrow> \<not> bit w i"
    using u64_lowest_bit_ex by blast
  have "countTrailingZeros w = s" by (rule countTrailingZeros_eq) (use s in auto)
  with False s show ?thesis
    by (auto simp: findFirstSet_def) (metis linorder_neqE_nat)
qed

lemma bit_maskTrailingZeros: "n \<le> 64 \<Longrightarrow> bit (maskTrailingZeros n) i \<longleftrightarrow> n \<le> i \<and> i < 64"
  by (auto simp: bit_simps maskTrailingZeros_def maskLeadingOnes_def maskTrailingOnes_def)

lemma findFirstSet_masked:
  assumes "findFirstSet (maskTrailingZeros n AND d) = Some i" "n \<le> 64"
  shows "n \<le> i" and "i < 64" and "bit d i" and "\<And>j. n \<le> j \<Longrightarrow> j < i \<Longrightarrow> \<not> bit d j"
  using assms by (auto simp: findFirstSet_Some_iff bit_simps bit_maskTrailingZeros)

section \<open>Powers of two and alignment\<close>

lemma bit_highest:
  fixes w :: "'a::len word"
  assumes "2 ^ h \<le> unat w" "unat w < 2 ^ Suc h"
  shows "bit w h" and "bit w j \<Longrightarrow> j \<le> h"
proof -
  have iff: "bit (unat w) i \<longleftrightarrow> bit w i" for i by (simp add: bit_simps)
  show "bit w h" using bit_2pow_range(1) [OF assms] iff by simp
  show "bit w j \<Longrightarrow> j \<le> h" using bit_2pow_range(2) [OF assms, of j] iff by (meson not_le)
qed

lemma smear_step:
  fixes a x :: u64
  assumes "\<And>i. bit x i \<longleftrightarrow> (\<exists>j. i \<le> j \<and> j < i + n \<and> bit a j)"
  shows "bit (x OR drop_bit n x) i \<longleftrightarrow> (\<exists>j. i \<le> j \<and> j < i + 2 * n \<and> bit a j)"
proof -
  have "bit (x OR drop_bit n x) i \<longleftrightarrow>
      (\<exists>j. i \<le> j \<and> j < i + n \<and> bit a j) \<or> (\<exists>j. i + n \<le> j \<and> j < i + n + n \<and> bit a j)"
    by (auto simp: bit_simps assms add.commute)
  also have "\<dots> \<longleftrightarrow> (\<exists>j. i \<le> j \<and> j < i + 2 * n \<and> bit a j)"
  proof -
    have "i \<le> j \<and> j < i + 2 * n \<longleftrightarrow> i \<le> j \<and> j < i + n \<or> i + n \<le> j \<and> j < i + n + n" for j
      by auto
    then show ?thesis by blast
  qed
  finally show ?thesis .
qed

lemma NextPowerOf2_mask:
  assumes "2 ^ h \<le> unat a" "unat a < 2 ^ Suc h" "h < 64"
  shows "NextPowerOf2 a = mask (Suc h) + 1"
proof -
  define a1 where "a1 = a OR drop_bit 1 a"
  define a2 where "a2 = a1 OR drop_bit 2 a1"
  define a3 where "a3 = a2 OR drop_bit 4 a2"
  define a4 where "a4 = a3 OR drop_bit 8 a3"
  define a5 where "a5 = a4 OR drop_bit 16 a4"
  define a6 where "a6 = a5 OR drop_bit 32 a5"
  note defs = a1_def a2_def a3_def a4_def a5_def a6_def
  have "bit a i \<longleftrightarrow> (\<exists>j. i \<le> j \<and> j < i + 1 \<and> bit a j)" for i
    by (metis add.commute le_antisym less_add_one less_Suc_eq_le order_refl plus_1_eq_Suc)
  then have 1: "bit a1 i \<longleftrightarrow> (\<exists>j. i \<le> j \<and> j < i + 2 * 1 \<and> bit a j)" for i
    unfolding a1_def by (rule smear_step)
  have 2: "bit a2 i \<longleftrightarrow> (\<exists>j. i \<le> j \<and> j < i + 2 * 2 \<and> bit a j)" for i
    unfolding a2_def using 1 by (intro smear_step) simp
  have 3: "bit a3 i \<longleftrightarrow> (\<exists>j. i \<le> j \<and> j < i + 2 * 4 \<and> bit a j)" for i
    unfolding a3_def using 2 by (intro smear_step) simp
  have 4: "bit a4 i \<longleftrightarrow> (\<exists>j. i \<le> j \<and> j < i + 2 * 8 \<and> bit a j)" for i
    unfolding a4_def using 3 by (intro smear_step) simp
  have 5: "bit a5 i \<longleftrightarrow> (\<exists>j. i \<le> j \<and> j < i + 2 * 16 \<and> bit a j)" for i
    unfolding a5_def using 4 by (intro smear_step) simp
  have 6: "bit a6 i \<longleftrightarrow> (\<exists>j. i \<le> j \<and> j < i + 2 * 32 \<and> bit a j)" for i
    unfolding a6_def using 5 by (intro smear_step) simp
  have "bit a6 i \<longleftrightarrow> i \<le> h" if "i < 64" for i
  proof
    assume "bit a6 i"
    then show "i \<le> h" using 6 bit_highest(2) [OF assms(1,2)] by (meson le_trans)
  next
    assume "i \<le> h"
    then show "bit a6 i" using 6 [of i] bit_highest(1) [OF assms(1,2)] assms(3) by auto
  qed
  then have "a6 = mask (Suc h)" by (intro bit_eqI) (auto simp: bit_simps)
  then show ?thesis by (simp add: NextPowerOf2_def Let_def defs)
qed

lemma unat_mask_Suc: "h < 63 \<Longrightarrow> unat (mask (Suc h) + 1 :: u64) = 2 ^ Suc h"
proof -
  assume "h < 63"
  then have "unat (2 ^ Suc h :: u64) = 2 ^ Suc h"
    by (intro unat_2pow_u64) simp
  then show ?thesis by (simp add: mask_eq_exp_minus_1)
qed

text \<open>\<open>PowerOf2Ceil\<close> returns the least power of two that is not below its argument,
  for every argument up to \<open>2^63\<close>.\<close>

lemma PowerOf2Ceil_unat:
  assumes "a \<noteq> 0" "unat a \<le> 2 ^ 63"
  obtains k where "unat (PowerOf2Ceil a) = 2 ^ k" "unat a \<le> 2 ^ k" "k = 0 \<or> 2 ^ (k - 1) < unat a"
proof (cases "a = 1")
  case True
  have "unat (PowerOf2Ceil a) = 2 ^ 0" by (simp add: True PowerOf2Ceil_def NextPowerOf2_def)
  then show thesis using True that [of 0] by simp
next
  case False
  have u: "unat (a - 1) = unat a - 1" using assms(1) by (simp add: unat_minus_one)
  have "a - 1 \<noteq> 0" using False by auto
  then obtain h where h: "h < 64" "2 ^ h \<le> unat (a - 1)" "unat (a - 1) < 2 ^ Suc h"
    by (rule u64_highest_bit_ex)
  have "(2::nat) ^ h < 2 ^ 63" using h(2) u assms unat_gt_0 [of a] by linarith
  then have h63: "h < 63" by (simp only: power_strict_increasing_iff)
  have "unat (PowerOf2Ceil a) = 2 ^ Suc h"
    using assms(1) NextPowerOf2_mask [OF h(2,3,1)] unat_mask_Suc [OF h63]
    by (simp add: PowerOf2Ceil_def)
  moreover have "0 < unat a" using assms(1) by (simp add: unat_gt_0)
  ultimately show thesis using that [of "Suc h"] h(2,3) u by simp
qed

lemma PowerOf2Floor_unat:
  assumes "2 ^ h \<le> unat a" "unat a < 2 ^ Suc h" "h < 64"
  shows "unat (PowerOf2Floor a) = 2 ^ h"
proof -
  have "a \<noteq> 0" using assms(1) by auto
  then have "PowerOf2Floor a = 2 ^ h"
    using countLeadingZeros_eq [OF assms] assms(3) by (simp add: PowerOf2Floor_def push_bit_eq_mult)
  then show ?thesis using assms(3) by (simp add: unat_2pow_u64)
qed

lemma alignTo_unat:
  assumes "align \<noteq> 0" "unat v + unat align < 2 ^ 64"
  shows "unat (alignTo v align 0) = (unat v + unat align - 1) div unat align * unat align"
proof -
  have a: "0 < unat align" using assms(1) by (simp add: unat_gt_0)
  have s: "unat (v + align) = unat v + unat align"
    using assms(2) by (simp add: unat_word_ariths)
  have ne: "v + align \<noteq> 0" using s a by (metis add_is_0 not_gr0 unat_0)
  have s1: "unat (v + align - 1) = unat v + unat align - 1"
    using s ne by (simp add: unat_minus_one)
  let ?q = "(unat v + unat align - 1) div unat align"
  have "?q * unat align \<le> unat v + unat align - 1" by simp
  then have "?q * unat align < 2 ^ 64" using assms(2) by linarith
  then show ?thesis
    using s1 assms(1) by (simp add: alignTo_def Let_def unat_word_ariths unat_div mod_mult_left_eq)
qed

lemma GreatestCommonDivisor64_unat:
  "unat (GreatestCommonDivisor64 a b) = gcd (unat a) (unat b)"
proof (induction a b rule: GreatestCommonDivisor64.induct)
  case (1 a b)
  then show ?case
    by (subst GreatestCommonDivisor64.simps) (simp add: unat_mod gcd.commute flip: gcd_red_nat)
qed

end
