(* ===== verification/DispatchKeys.thy ===== *)
theory DispatchKeys
  imports BitMath
begin

text \<open>
  Dispatch keys (\<open>c10/core/DispatchKey.h\<close>, \<open>c10/core/DispatchKey.cpp\<close>). The two enums
  \<open>BackendComponent : uint8_t\<close> and \<open>DispatchKey : uint16_t\<close> are represented by their
  underlying values, because the code converts between keys and numbers with
  \<open>static_cast\<close> and relies on the numbering throughout; the enumerators are abbreviations
  for their values. The numbering leaves every key below 157, so the casts to \<open>uint8_t\<close> in
  the code never lose a bit.
\<close>

type_synonym BackendComponent = nat
type_synonym DispatchKey = nat

section \<open>The enumerators\<close>

abbreviation (input) BackendComponent_InvalidBit :: BackendComponent where "BackendComponent_InvalidBit \<equiv> 0"
abbreviation (input) BackendComponent_CPUBit :: BackendComponent where "BackendComponent_CPUBit \<equiv> 1"
abbreviation (input) BackendComponent_CUDABit :: BackendComponent where "BackendComponent_CUDABit \<equiv> 2"
abbreviation (input) BackendComponent_HIPBit :: BackendComponent where "BackendComponent_HIPBit \<equiv> 3"
abbreviation (input) BackendComponent_XLABit :: BackendComponent where "BackendComponent_XLABit \<equiv> 4"
abbreviation (input) BackendComponent_MPSBit :: BackendComponent where "BackendComponent_MPSBit \<equiv> 5"
abbreviation (input) BackendComponent_IPUBit :: BackendComponent where "BackendComponent_IPUBit \<equiv> 6"
abbreviation (input) BackendComponent_XPUBit :: BackendComponent where "BackendComponent_XPUBit \<equiv> 7"
abbreviation (input) BackendComponent_HPUBit :: BackendComponent where "BackendComponent_HPUBit \<equiv> 8"
abbreviation (input) BackendComponent_VEBit :: BackendComponent where "BackendComponent_VEBit \<equiv> 9"
abbreviation (input) BackendComponent_LazyBit :: BackendComponent where "BackendComponent_LazyBit \<equiv> 10"
abbreviation (input) BackendComponent_MTIABit :: BackendComponent where "BackendComponent_MTIABit \<equiv> 11"
abbreviation (input) BackendComponent_MAIABit :: BackendComponent where "BackendComponent_MAIABit \<equiv> 12"
abbreviation (input) BackendComponent_PrivateUse1Bit :: BackendComponent where "BackendComponent_PrivateUse1Bit \<equiv> 13"
abbreviation (input) BackendComponent_PrivateUse2Bit :: BackendComponent where "BackendComponent_PrivateUse2Bit \<equiv> 14"
abbreviation (input) BackendComponent_PrivateUse3Bit :: BackendComponent where "BackendComponent_PrivateUse3Bit \<equiv> 15"
abbreviation (input) BackendComponent_MetaBit :: BackendComponent where "BackendComponent_MetaBit \<equiv> 16"
abbreviation (input) EndOfBackendKeys :: BackendComponent where "EndOfBackendKeys \<equiv> 16"

abbreviation (input) DispatchKey_Undefined :: DispatchKey where "DispatchKey_Undefined \<equiv> 0"
abbreviation (input) DispatchKey_Dense :: DispatchKey where "DispatchKey_Dense \<equiv> 1"
abbreviation (input) DispatchKey_FPGA :: DispatchKey where "DispatchKey_FPGA \<equiv> 2"
abbreviation (input) DispatchKey_Vulkan :: DispatchKey where "DispatchKey_Vulkan \<equiv> 3"
abbreviation (input) DispatchKey_Metal :: DispatchKey where "DispatchKey_Metal \<equiv> 4"
abbreviation (input) DispatchKey_Quantized :: DispatchKey where "DispatchKey_Quantized \<equiv> 5"
abbreviation (input) DispatchKey_CustomRNGKeyId :: DispatchKey where "DispatchKey_CustomRNGKeyId \<equiv> 6"
abbreviation (input) DispatchKey_MkldnnCPU :: DispatchKey where "DispatchKey_MkldnnCPU \<equiv> 7"
abbreviation (input) DispatchKey_Sparse :: DispatchKey where "DispatchKey_Sparse \<equiv> 8"
abbreviation (input) DispatchKey_SparseCsr :: DispatchKey where "DispatchKey_SparseCsr \<equiv> 9"
abbreviation (input) DispatchKey_NestedTensor :: DispatchKey where "DispatchKey_NestedTensor \<equiv> 10"
abbreviation (input) DispatchKey_BackendSelect :: DispatchKey where "DispatchKey_BackendSelect \<equiv> 11"
abbreviation (input) DispatchKey_Fake :: DispatchKey where "DispatchKey_Fake \<equiv> 12"
abbreviation (input) DispatchKey_Python :: DispatchKey where "DispatchKey_Python \<equiv> 13"
abbreviation (input) DispatchKey_FuncTorchDynamicLayerBackMode :: DispatchKey where "DispatchKey_FuncTorchDynamicLayerBackMode \<equiv> 14"
abbreviation (input) DispatchKey_Functionalize :: DispatchKey where "DispatchKey_Functionalize \<equiv> 15"
abbreviation (input) DispatchKey_Named :: DispatchKey where "DispatchKey_Named \<equiv> 16"
abbreviation (input) DispatchKey_Conjugate :: DispatchKey where "DispatchKey_Conjugate \<equiv> 17"
abbreviation (input) DispatchKey_Negative :: DispatchKey where "DispatchKey_Negative \<equiv> 18"
abbreviation (input) DispatchKey_ZeroTensor :: DispatchKey where "DispatchKey_ZeroTensor \<equiv> 19"
abbreviation (input) DispatchKey_ADInplaceOrView :: DispatchKey where "DispatchKey_ADInplaceOrView \<equiv> 20"
abbreviation (input) DispatchKey_AutogradOther :: DispatchKey where "DispatchKey_AutogradOther \<equiv> 21"
abbreviation (input) DispatchKey_AutogradFunctionality :: DispatchKey where "DispatchKey_AutogradFunctionality \<equiv> 22"
abbreviation (input) DispatchKey_AutogradNestedTensor :: DispatchKey where "DispatchKey_AutogradNestedTensor \<equiv> 23"
abbreviation (input) DispatchKey_Tracer :: DispatchKey where "DispatchKey_Tracer \<equiv> 24"
abbreviation (input) DispatchKey_AutocastCPU :: DispatchKey where "DispatchKey_AutocastCPU \<equiv> 25"
abbreviation (input) DispatchKey_AutocastMTIA :: DispatchKey where "DispatchKey_AutocastMTIA \<equiv> 26"
abbreviation (input) DispatchKey_AutocastMAIA :: DispatchKey where "DispatchKey_AutocastMAIA \<equiv> 27"
abbreviation (input) DispatchKey_AutocastXPU :: DispatchKey where "DispatchKey_AutocastXPU \<equiv> 28"
abbreviation (input) DispatchKey_AutocastIPU :: DispatchKey where "DispatchKey_AutocastIPU \<equiv> 29"
abbreviation (input) DispatchKey_AutocastHPU :: DispatchKey where "DispatchKey_AutocastHPU \<equiv> 30"
abbreviation (input) DispatchKey_AutocastXLA :: DispatchKey where "DispatchKey_AutocastXLA \<equiv> 31"
abbreviation (input) DispatchKey_AutocastMPS :: DispatchKey where "DispatchKey_AutocastMPS \<equiv> 32"
abbreviation (input) DispatchKey_AutocastCUDA :: DispatchKey where "DispatchKey_AutocastCUDA \<equiv> 33"
abbreviation (input) DispatchKey_AutocastPrivateUse1 :: DispatchKey where "DispatchKey_AutocastPrivateUse1 \<equiv> 34"
abbreviation (input) DispatchKey_FuncTorchBatched :: DispatchKey where "DispatchKey_FuncTorchBatched \<equiv> 35"
abbreviation (input) DispatchKey_BatchedNestedTensor :: DispatchKey where "DispatchKey_BatchedNestedTensor \<equiv> 36"
abbreviation (input) DispatchKey_FuncTorchVmapMode :: DispatchKey where "DispatchKey_FuncTorchVmapMode \<equiv> 37"
abbreviation (input) DispatchKey_Batched :: DispatchKey where "DispatchKey_Batched \<equiv> 38"
abbreviation (input) DispatchKey_VmapMode :: DispatchKey where "DispatchKey_VmapMode \<equiv> 39"
abbreviation (input) DispatchKey_FuncTorchGradWrapper :: DispatchKey where "DispatchKey_FuncTorchGradWrapper \<equiv> 40"
abbreviation (input) DispatchKey_DeferredInit :: DispatchKey where "DispatchKey_DeferredInit \<equiv> 41"
abbreviation (input) DispatchKey_PythonTLSSnapshot :: DispatchKey where "DispatchKey_PythonTLSSnapshot \<equiv> 42"
abbreviation (input) DispatchKey_FuncTorchDynamicLayerFrontMode :: DispatchKey where "DispatchKey_FuncTorchDynamicLayerFrontMode \<equiv> 43"
abbreviation (input) DispatchKey_TESTING_ONLY_GenericWrapper :: DispatchKey where "DispatchKey_TESTING_ONLY_GenericWrapper \<equiv> 44"
abbreviation (input) DispatchKey_TESTING_ONLY_GenericMode :: DispatchKey where "DispatchKey_TESTING_ONLY_GenericMode \<equiv> 45"
abbreviation (input) DispatchKey_PreDispatch :: DispatchKey where "DispatchKey_PreDispatch \<equiv> 46"
abbreviation (input) DispatchKey_PythonDispatcher :: DispatchKey where "DispatchKey_PythonDispatcher \<equiv> 47"
abbreviation (input) DispatchKey_EndOfFunctionalityKeys :: DispatchKey where "DispatchKey_EndOfFunctionalityKeys \<equiv> 48"
abbreviation (input) StartOfDenseBackends :: DispatchKey where "StartOfDenseBackends \<equiv> 49"
abbreviation (input) EndOfDenseBackends :: DispatchKey where "EndOfDenseBackends \<equiv> 65"
abbreviation (input) StartOfQuantizedBackends :: DispatchKey where "StartOfQuantizedBackends \<equiv> 66"
abbreviation (input) EndOfQuantizedBackends :: DispatchKey where "EndOfQuantizedBackends \<equiv> 82"
abbreviation (input) StartOfSparseBackends :: DispatchKey where "StartOfSparseBackends \<equiv> 83"
abbreviation (input) EndOfSparseBackends :: DispatchKey where "EndOfSparseBackends \<equiv> 99"
abbreviation (input) StartOfSparseCsrBackends :: DispatchKey where "StartOfSparseCsrBackends \<equiv> 100"
abbreviation (input) EndOfSparseCsrBackends :: DispatchKey where "EndOfSparseCsrBackends \<equiv> 116"
abbreviation (input) StartOfNestedTensorBackends :: DispatchKey where "StartOfNestedTensorBackends \<equiv> 117"
abbreviation (input) EndOfNestedTensorBackends :: DispatchKey where "EndOfNestedTensorBackends \<equiv> 133"
abbreviation (input) StartOfAutogradFunctionalityBackends :: DispatchKey where "StartOfAutogradFunctionalityBackends \<equiv> 134"
abbreviation (input) EndOfAutogradFunctionalityBackends :: DispatchKey where "EndOfAutogradFunctionalityBackends \<equiv> 150"
abbreviation (input) EndOfRuntimeBackendKeys :: DispatchKey where "EndOfRuntimeBackendKeys \<equiv> 150"
abbreviation (input) DispatchKey_Autograd :: DispatchKey where "DispatchKey_Autograd \<equiv> 151"
abbreviation (input) DispatchKey_CompositeImplicitAutograd :: DispatchKey where "DispatchKey_CompositeImplicitAutograd \<equiv> 152"
abbreviation (input) DispatchKey_FuncTorchBatchedDecomposition :: DispatchKey where "DispatchKey_FuncTorchBatchedDecomposition \<equiv> 153"
abbreviation (input) DispatchKey_CompositeImplicitAutogradNestedTensor :: DispatchKey where "DispatchKey_CompositeImplicitAutogradNestedTensor \<equiv> 154"
abbreviation (input) DispatchKey_CompositeExplicitAutograd :: DispatchKey where "DispatchKey_CompositeExplicitAutograd \<equiv> 155"
abbreviation (input) DispatchKey_CompositeExplicitAutogradNonFunctional :: DispatchKey where "DispatchKey_CompositeExplicitAutogradNonFunctional \<equiv> 156"
abbreviation (input) StartOfAliasKeys :: DispatchKey where "StartOfAliasKeys \<equiv> 151"
abbreviation (input) EndOfAliasKeys :: DispatchKey where "EndOfAliasKeys \<equiv> 156"
abbreviation (input) DispatchKey_CPU :: DispatchKey where "DispatchKey_CPU \<equiv> 50"
abbreviation (input) DispatchKey_CUDA :: DispatchKey where "DispatchKey_CUDA \<equiv> 51"
abbreviation (input) DispatchKey_HIP :: DispatchKey where "DispatchKey_HIP \<equiv> 52"
abbreviation (input) DispatchKey_XLA :: DispatchKey where "DispatchKey_XLA \<equiv> 53"
abbreviation (input) DispatchKey_MPS :: DispatchKey where "DispatchKey_MPS \<equiv> 54"
abbreviation (input) DispatchKey_IPU :: DispatchKey where "DispatchKey_IPU \<equiv> 55"
abbreviation (input) DispatchKey_XPU :: DispatchKey where "DispatchKey_XPU \<equiv> 56"
abbreviation (input) DispatchKey_HPU :: DispatchKey where "DispatchKey_HPU \<equiv> 57"
abbreviation (input) DispatchKey_VE :: DispatchKey where "DispatchKey_VE \<equiv> 58"
abbreviation (input) DispatchKey_Lazy :: DispatchKey where "DispatchKey_Lazy \<equiv> 59"
abbreviation (input) DispatchKey_MTIA :: DispatchKey where "DispatchKey_MTIA \<equiv> 60"
abbreviation (input) DispatchKey_MAIA :: DispatchKey where "DispatchKey_MAIA \<equiv> 61"
abbreviation (input) DispatchKey_PrivateUse1 :: DispatchKey where "DispatchKey_PrivateUse1 \<equiv> 62"
abbreviation (input) DispatchKey_PrivateUse2 :: DispatchKey where "DispatchKey_PrivateUse2 \<equiv> 63"
abbreviation (input) DispatchKey_PrivateUse3 :: DispatchKey where "DispatchKey_PrivateUse3 \<equiv> 64"
abbreviation (input) DispatchKey_Meta :: DispatchKey where "DispatchKey_Meta \<equiv> 65"
abbreviation (input) DispatchKey_AutogradCPU :: DispatchKey where "DispatchKey_AutogradCPU \<equiv> 135"
abbreviation (input) DispatchKey_AutogradCUDA :: DispatchKey where "DispatchKey_AutogradCUDA \<equiv> 136"
abbreviation (input) DispatchKey_AutogradHIP :: DispatchKey where "DispatchKey_AutogradHIP \<equiv> 137"
abbreviation (input) DispatchKey_AutogradXLA :: DispatchKey where "DispatchKey_AutogradXLA \<equiv> 138"
abbreviation (input) DispatchKey_AutogradMPS :: DispatchKey where "DispatchKey_AutogradMPS \<equiv> 139"
abbreviation (input) DispatchKey_AutogradIPU :: DispatchKey where "DispatchKey_AutogradIPU \<equiv> 140"
abbreviation (input) DispatchKey_AutogradXPU :: DispatchKey where "DispatchKey_AutogradXPU \<equiv> 141"
abbreviation (input) DispatchKey_AutogradHPU :: DispatchKey where "DispatchKey_AutogradHPU \<equiv> 142"
abbreviation (input) DispatchKey_AutogradVE :: DispatchKey where "DispatchKey_AutogradVE \<equiv> 143"
abbreviation (input) DispatchKey_AutogradLazy :: DispatchKey where "DispatchKey_AutogradLazy \<equiv> 144"
abbreviation (input) DispatchKey_AutogradMTIA :: DispatchKey where "DispatchKey_AutogradMTIA \<equiv> 145"
abbreviation (input) DispatchKey_AutogradMAIA :: DispatchKey where "DispatchKey_AutogradMAIA \<equiv> 146"
abbreviation (input) DispatchKey_AutogradPrivateUse1 :: DispatchKey where "DispatchKey_AutogradPrivateUse1 \<equiv> 147"
abbreviation (input) DispatchKey_AutogradPrivateUse2 :: DispatchKey where "DispatchKey_AutogradPrivateUse2 \<equiv> 148"
abbreviation (input) DispatchKey_AutogradPrivateUse3 :: DispatchKey where "DispatchKey_AutogradPrivateUse3 \<equiv> 149"
abbreviation (input) DispatchKey_AutogradMeta :: DispatchKey where "DispatchKey_AutogradMeta \<equiv> 150"
abbreviation (input) DispatchKey_QuantizedPrivateUse1 :: DispatchKey where "DispatchKey_QuantizedPrivateUse1 \<equiv> 79"
abbreviation (input) DispatchKey_NestedTensorCPU :: DispatchKey where "DispatchKey_NestedTensorCPU \<equiv> 118"
abbreviation (input) DispatchKey_NestedTensorCUDA :: DispatchKey where "DispatchKey_NestedTensorCUDA \<equiv> 119"
abbreviation (input) DispatchKey_NestedTensorXPU :: DispatchKey where "DispatchKey_NestedTensorXPU \<equiv> 124"
abbreviation (input) DispatchKey_NestedTensorHPU :: DispatchKey where "DispatchKey_NestedTensorHPU \<equiv> 125"
abbreviation (input) DispatchKey_NestedTensorMeta :: DispatchKey where "DispatchKey_NestedTensorMeta \<equiv> 133"
abbreviation (input) DispatchKey_NestedTensorPrivateUse1 :: DispatchKey where "DispatchKey_NestedTensorPrivateUse1 \<equiv> 130"
abbreviation (input) DispatchKey_QuantizedCPU :: DispatchKey where "DispatchKey_QuantizedCPU \<equiv> 67"
abbreviation (input) DispatchKey_QuantizedCUDA :: DispatchKey where "DispatchKey_QuantizedCUDA \<equiv> 68"
abbreviation (input) DispatchKey_QuantizedXPU :: DispatchKey where "DispatchKey_QuantizedXPU \<equiv> 73"
abbreviation (input) DispatchKey_SparseCPU :: DispatchKey where "DispatchKey_SparseCPU \<equiv> 84"
abbreviation (input) DispatchKey_SparseCUDA :: DispatchKey where "DispatchKey_SparseCUDA \<equiv> 85"
abbreviation (input) DispatchKey_SparseMPS :: DispatchKey where "DispatchKey_SparseMPS \<equiv> 88"
abbreviation (input) DispatchKey_SparseCsrMPS :: DispatchKey where "DispatchKey_SparseCsrMPS \<equiv> 105"
abbreviation (input) DispatchKey_SparseHIP :: DispatchKey where "DispatchKey_SparseHIP \<equiv> 86"
abbreviation (input) DispatchKey_SparseXPU :: DispatchKey where "DispatchKey_SparseXPU \<equiv> 90"
abbreviation (input) DispatchKey_SparseVE :: DispatchKey where "DispatchKey_SparseVE \<equiv> 92"
abbreviation (input) DispatchKey_SparseMeta :: DispatchKey where "DispatchKey_SparseMeta \<equiv> 99"
abbreviation (input) DispatchKey_SparsePrivateUse1 :: DispatchKey where "DispatchKey_SparsePrivateUse1 \<equiv> 96"
abbreviation (input) DispatchKey_SparseCsrCPU :: DispatchKey where "DispatchKey_SparseCsrCPU \<equiv> 101"
abbreviation (input) DispatchKey_SparseCsrCUDA :: DispatchKey where "DispatchKey_SparseCsrCUDA \<equiv> 102"
abbreviation (input) DispatchKey_SparseCsrHIP :: DispatchKey where "DispatchKey_SparseCsrHIP \<equiv> 103"
abbreviation (input) DispatchKey_SparseCsrXPU :: DispatchKey where "DispatchKey_SparseCsrXPU \<equiv> 107"
abbreviation (input) DispatchKey_SparseCsrVE :: DispatchKey where "DispatchKey_SparseCsrVE \<equiv> 109"
abbreviation (input) DispatchKey_SparseCsrMeta :: DispatchKey where "DispatchKey_SparseCsrMeta \<equiv> 116"
abbreviation (input) DispatchKey_SparseCsrPrivateUse1 :: DispatchKey where "DispatchKey_SparseCsrPrivateUse1 \<equiv> 113"


text \<open>The names of the enumerators of \<open>BackendComponent\<close> (\<open>C10_FORALL_BACKEND_COMPONENTS\<close>), of the
  functionality part of \<open>DispatchKey\<close> in declaration order, and of the per-backend
  functionalities (\<open>C10_FORALL_FUNCTIONALITY_KEYS\<close>) with their prefixes.\<close>

definition backend_component_names :: "string list" where
  "backend_component_names =
     [''CPU'',
      ''CUDA'',
      ''HIP'',
      ''XLA'',
      ''MPS'',
      ''IPU'',
      ''XPU'',
      ''HPU'',
      ''VE'',
      ''Lazy'',
      ''MTIA'',
      ''MAIA'',
      ''PrivateUse1'',
      ''PrivateUse2'',
      ''PrivateUse3'',
      ''Meta'']"

definition functionality_key_names :: "string list" where
  "functionality_key_names =
     [''Undefined'',
      ''Dense'',
      ''FPGA'',
      ''Vulkan'',
      ''Metal'',
      ''Quantized'',
      ''CustomRNGKeyId'',
      ''MkldnnCPU'',
      ''Sparse'',
      ''SparseCsr'',
      ''NestedTensor'',
      ''BackendSelect'',
      ''Fake'',
      ''Python'',
      ''FuncTorchDynamicLayerBackMode'',
      ''Functionalize'',
      ''Named'',
      ''Conjugate'',
      ''Negative'',
      ''ZeroTensor'',
      ''ADInplaceOrView'',
      ''AutogradOther'',
      ''AutogradFunctionality'',
      ''AutogradNestedTensor'',
      ''Tracer'',
      ''AutocastCPU'',
      ''AutocastMTIA'',
      ''AutocastMAIA'',
      ''AutocastXPU'',
      ''AutocastIPU'',
      ''AutocastHPU'',
      ''AutocastXLA'',
      ''AutocastMPS'',
      ''AutocastCUDA'',
      ''AutocastPrivateUse1'',
      ''FuncTorchBatched'',
      ''BatchedNestedTensor'',
      ''FuncTorchVmapMode'',
      ''Batched'',
      ''VmapMode'',
      ''FuncTorchGradWrapper'',
      ''DeferredInit'',
      ''PythonTLSSnapshot'',
      ''FuncTorchDynamicLayerFrontMode'',
      ''TESTING_ONLY_GenericWrapper'',
      ''TESTING_ONLY_GenericMode'',
      ''PreDispatch'',
      ''PythonDispatcher'']"

definition functionality_keys :: "(DispatchKey \<times> string) list" where
  "functionality_keys =
     [(DispatchKey_Dense, ''''), (DispatchKey_Quantized, ''Quantized''),
      (DispatchKey_Sparse, ''Sparse''), (DispatchKey_SparseCsr, ''SparseCsr''),
      (DispatchKey_NestedTensor, ''NestedTensor''),
      (DispatchKey_AutogradFunctionality, ''Autograd'')]"

section \<open>Classification of keys\<close>

definition isAliasDispatchKey :: "DispatchKey \<Rightarrow> bool" where
  "isAliasDispatchKey k \<longleftrightarrow> StartOfAliasKeys \<le> k \<and> k \<le> EndOfAliasKeys"

definition isPerBackendFunctionalityKey :: "DispatchKey \<Rightarrow> bool" where
  "isPerBackendFunctionalityKey k \<longleftrightarrow>
     k = DispatchKey_Dense \<or> k = DispatchKey_Quantized \<or> k = DispatchKey_Sparse \<or>
     k = DispatchKey_SparseCsr \<or> k = DispatchKey_AutogradFunctionality \<or>
     k = DispatchKey_NestedTensor"

definition num_functionality_keys :: nat where
  "num_functionality_keys = DispatchKey_EndOfFunctionalityKeys"

definition num_backends :: nat where
  "num_backends = EndOfBackendKeys"

definition numPerBackendFunctionalityKeys :: nat where
  "numPerBackendFunctionalityKeys =
     fold (\<lambda>k count. if isPerBackendFunctionalityKey k then count + 1 else count)
       [0..<num_functionality_keys + 1] 0"

definition num_runtime_entries :: nat where
  "num_runtime_entries =
     num_functionality_keys + numPerBackendFunctionalityKeys * (num_backends - 1)"

definition full_backend_mask :: u64 where
  "full_backend_mask = push_bit num_backends 1 - 1"

definition toBackendComponent :: "DispatchKey \<Rightarrow> BackendComponent" where
  "toBackendComponent k =
     (if StartOfDenseBackends \<le> k \<and> k \<le> EndOfDenseBackends then k - StartOfDenseBackends
      else if StartOfQuantizedBackends \<le> k \<and> k \<le> EndOfQuantizedBackends
        then k - StartOfQuantizedBackends
      else if StartOfSparseBackends \<le> k \<and> k \<le> EndOfSparseBackends then k - StartOfSparseBackends
      else if StartOfSparseCsrBackends \<le> k \<and> k \<le> EndOfSparseCsrBackends
        then k - StartOfSparseCsrBackends
      else if StartOfNestedTensorBackends \<le> k \<and> k \<le> EndOfNestedTensorBackends
        then k - StartOfNestedTensorBackends
      else if StartOfAutogradFunctionalityBackends \<le> k \<and> k \<le> EndOfAutogradFunctionalityBackends
        then k - StartOfAutogradFunctionalityBackends
      else BackendComponent_InvalidBit)"

definition toFunctionalityKey :: "DispatchKey \<Rightarrow> DispatchKey" where
  "toFunctionalityKey k =
     (if k \<le> DispatchKey_EndOfFunctionalityKeys then k
      else if k \<le> EndOfDenseBackends then DispatchKey_Dense
      else if k \<le> EndOfQuantizedBackends then DispatchKey_Quantized
      else if k \<le> EndOfSparseBackends then DispatchKey_Sparse
      else if k \<le> EndOfSparseCsrBackends then DispatchKey_SparseCsr
      else if k \<le> EndOfNestedTensorBackends then DispatchKey_NestedTensor
      else if k \<le> EndOfAutogradFunctionalityBackends then DispatchKey_AutogradFunctionality
      else DispatchKey_Undefined)"

definition toRuntimePerBackendFunctionalityKey ::
  "DispatchKey \<Rightarrow> BackendComponent \<Rightarrow> DispatchKey" where
  "toRuntimePerBackendFunctionalityKey functionality_k backend_k =
     (if functionality_k = DispatchKey_Dense then StartOfDenseBackends + backend_k
      else if functionality_k = DispatchKey_Sparse then StartOfSparseBackends + backend_k
      else if functionality_k = DispatchKey_SparseCsr then StartOfSparseCsrBackends + backend_k
      else if functionality_k = DispatchKey_Quantized then StartOfQuantizedBackends + backend_k
      else if functionality_k = DispatchKey_NestedTensor
        then StartOfNestedTensorBackends + backend_k
      else if functionality_k = DispatchKey_AutogradFunctionality
        then StartOfAutogradFunctionalityBackends + backend_k
      else DispatchKey_Undefined)"

section \<open>Printing\<close>

definition backend_toString_switch :: "(BackendComponent \<times> string) list" where
  "backend_toString_switch =
     [(BackendComponent_CPUBit, ''CPUBit''),
      (BackendComponent_CUDABit, ''CUDABit''),
      (BackendComponent_HIPBit, ''HIPBit''),
      (BackendComponent_XLABit, ''XLABit''),
      (BackendComponent_LazyBit, ''LazyBit''),
      (BackendComponent_MetaBit, ''MetaBit''),
      (BackendComponent_XPUBit, ''XPUBit''),
      (BackendComponent_IPUBit, ''IPUBit''),
      (BackendComponent_MPSBit, ''MPSBit''),
      (BackendComponent_HPUBit, ''HPUBit''),
      (BackendComponent_VEBit, ''VEBit''),
      (BackendComponent_MTIABit, ''MTIA''),
      (BackendComponent_MAIABit, ''MAIA''),
      (BackendComponent_PrivateUse1Bit, ''PrivateUse1Bit''),
      (BackendComponent_PrivateUse2Bit, ''PrivateUse2Bit''),
      (BackendComponent_PrivateUse3Bit, ''PrivateUse3Bit''),
      (BackendComponent_InvalidBit, ''InvalidBit'')]"

definition backend_toString :: "BackendComponent \<Rightarrow> string" where
  "backend_toString t =
     (case map_of backend_toString_switch t of Some s \<Rightarrow> s | None \<Rightarrow> ''UNKNOWN_BACKEND_BIT'')"

definition toString_switch :: "(DispatchKey \<times> string) list" where
  "toString_switch =
     [(DispatchKey_Undefined, ''Undefined''),
      (DispatchKey_Dense, ''Dense''),
      (DispatchKey_FPGA, ''FPGA''),
      (DispatchKey_MAIA, ''MAIA''),
      (DispatchKey_Vulkan, ''Vulkan''),
      (DispatchKey_Metal, ''Metal''),
      (DispatchKey_Lazy, ''Lazy''),
      (DispatchKey_MPS, ''MPS''),
      (DispatchKey_HPU, ''HPU''),
      (DispatchKey_MTIA, ''MTIA''),
      (DispatchKey_Quantized, ''Quantized''),
      (DispatchKey_QuantizedPrivateUse1, ''QuantizedPrivateUse1''),
      (DispatchKey_CustomRNGKeyId, ''CustomRNGKeyId''),
      (DispatchKey_MkldnnCPU, ''MkldnnCPU''),
      (DispatchKey_Sparse, ''Sparse''),
      (DispatchKey_SparseCsr, ''SparseCsr''),
      (DispatchKey_NestedTensor, ''NestedTensor''),
      (DispatchKey_BackendSelect, ''BackendSelect''),
      (DispatchKey_Python, ''Python''),
      (DispatchKey_Fake, ''Fake''),
      (DispatchKey_FuncTorchDynamicLayerBackMode, ''FuncTorchDynamicLayerBackMode''),
      (DispatchKey_Functionalize, ''Functionalize''),
      (DispatchKey_Named, ''Named''),
      (DispatchKey_Conjugate, ''Conjugate''),
      (DispatchKey_Negative, ''Negative''),
      (DispatchKey_ZeroTensor, ''ZeroTensor''),
      (DispatchKey_ADInplaceOrView, ''ADInplaceOrView''),
      (DispatchKey_AutogradOther, ''AutogradOther''),
      (DispatchKey_AutogradFunctionality, ''AutogradFunctionality''),
      (DispatchKey_AutogradNestedTensor, ''AutogradNestedTensor''),
      (DispatchKey_Tracer, ''Tracer''),
      (DispatchKey_AutocastCPU, ''AutocastCPU''),
      (DispatchKey_AutocastMTIA, ''AutocastMTIA''),
      (DispatchKey_AutocastMAIA, ''AutocastMAIA''),
      (DispatchKey_AutocastXPU, ''AutocastXPU''),
      (DispatchKey_AutocastIPU, ''AutocastIPU''),
      (DispatchKey_AutocastHPU, ''AutocastHPU''),
      (DispatchKey_AutocastCUDA, ''AutocastCUDA''),
      (DispatchKey_AutocastXLA, ''AutocastXLA''),
      (DispatchKey_AutocastPrivateUse1, ''AutocastPrivateUse1''),
      (DispatchKey_AutocastMPS, ''AutocastMPS''),
      (DispatchKey_FuncTorchBatched, ''FuncTorchBatched''),
      (DispatchKey_BatchedNestedTensor, ''BatchedNestedTensor''),
      (DispatchKey_FuncTorchVmapMode, ''FuncTorchVmapMode''),
      (DispatchKey_Batched, ''Batched''),
      (DispatchKey_VmapMode, ''VmapMode''),
      (DispatchKey_FuncTorchGradWrapper, ''FuncTorchGradWrapper''),
      (DispatchKey_DeferredInit, ''DeferredInit''),
      (DispatchKey_PythonTLSSnapshot, ''PythonTLSSnapshot''),
      (DispatchKey_FuncTorchDynamicLayerFrontMode, ''FuncTorchDynamicLayerFrontMode''),
      (DispatchKey_TESTING_ONLY_GenericWrapper, ''TESTING_ONLY_GenericWrapper''),
      (DispatchKey_TESTING_ONLY_GenericMode, ''TESTING_ONLY_GenericMode''),
      (DispatchKey_PreDispatch, ''PreDispatch''),
      (DispatchKey_PythonDispatcher, ''PythonDispatcher''),
      (DispatchKey_Autograd, ''Autograd''),
      (DispatchKey_CompositeImplicitAutograd, ''CompositeImplicitAutograd''),
      (DispatchKey_CompositeImplicitAutogradNestedTensor, ''CompositeImplicitAutogradNestedTensor''),
      (DispatchKey_CompositeExplicitAutograd, ''CompositeExplicitAutograd''),
      (DispatchKey_CompositeExplicitAutogradNonFunctional, ''CompositeExplicitAutogradNonFunctional''),
      (DispatchKey_FuncTorchBatchedDecomposition, ''FuncTorchBatchedDecomposition'')]"

text \<open>The default case of \<open>toString\<close>: the inner switches generated by \<open>FORALL_BC\<close> and
  \<open>ENTRY\<close>.\<close>

definition toString_entry :: "string \<Rightarrow> BackendComponent \<Rightarrow> string \<Rightarrow> string" where
  "toString_entry prefix bc undef =
     (if 1 \<le> bc \<and> bc \<le> length backend_component_names
      then prefix @ backend_component_names ! (bc - 1) else undef)"

definition toString_default :: "DispatchKey \<Rightarrow> string" where
  "toString_default t =
     (let bc = toBackendComponent t; fk = toFunctionalityKey t
      in case map_of functionality_keys fk of
           Some prefix \<Rightarrow> toString_entry prefix bc (prefix @ ''Undefined'')
         | None \<Rightarrow> toString_entry ''Unknown'' bc ''UnknownUnknown'')"

definition toString :: "DispatchKey \<Rightarrow> string" where
  "toString t =
     (case map_of toString_switch t of Some s \<Rightarrow> s | None \<Rightarrow> toString_default t)"

section \<open>Parsing\<close>

definition parse_key_map :: "(string \<times> DispatchKey) list" where
  "parse_key_map =
     [(''Undefined'', DispatchKey_Undefined),
      (''Dense'', DispatchKey_Dense),
      (''FPGA'', DispatchKey_FPGA),
      (''MAIA'', DispatchKey_MAIA),
      (''Vulkan'', DispatchKey_Vulkan),
      (''Metal'', DispatchKey_Metal),
      (''VE'', DispatchKey_VE),
      (''Meta'', DispatchKey_Meta),
      (''Quantized'', DispatchKey_Quantized),
      (''CustomRNGKeyId'', DispatchKey_CustomRNGKeyId),
      (''MkldnnCPU'', DispatchKey_MkldnnCPU),
      (''Sparse'', DispatchKey_Sparse),
      (''SparseCsr'', DispatchKey_SparseCsr),
      (''BackendSelect'', DispatchKey_BackendSelect),
      (''Python'', DispatchKey_Python),
      (''PythonTLSSnapshot'', DispatchKey_PythonTLSSnapshot),
      (''Fake'', DispatchKey_Fake),
      (''Named'', DispatchKey_Named),
      (''Conjugate'', DispatchKey_Conjugate),
      (''Negative'', DispatchKey_Negative),
      (''ZeroTensor'', DispatchKey_ZeroTensor),
      (''FuncTorchDynamicLayerBackMode'', DispatchKey_FuncTorchDynamicLayerBackMode),
      (''Functionalize'', DispatchKey_Functionalize),
      (''ADInplaceOrView'', DispatchKey_ADInplaceOrView),
      (''AutogradOther'', DispatchKey_AutogradOther),
      (''AutogradFunctionality'', DispatchKey_AutogradFunctionality),
      (''AutogradNestedTensor'', DispatchKey_AutogradNestedTensor),
      (''Tracer'', DispatchKey_Tracer),
      (''AutocastCPU'', DispatchKey_AutocastCPU),
      (''AutocastMTIA'', DispatchKey_AutocastMTIA),
      (''AutocastMAIA'', DispatchKey_AutocastMAIA),
      (''AutocastXPU'', DispatchKey_AutocastXPU),
      (''AutocastIPU'', DispatchKey_AutocastIPU),
      (''AutocastHPU'', DispatchKey_AutocastHPU),
      (''AutocastCUDA'', DispatchKey_AutocastCUDA),
      (''AutocastXLA'', DispatchKey_AutocastXLA),
      (''AutocastPrivateUse1'', DispatchKey_AutocastPrivateUse1),
      (''AutocastMPS'', DispatchKey_AutocastMPS),
      (''FuncTorchBatched'', DispatchKey_FuncTorchBatched),
      (''BatchedNestedTensor'', DispatchKey_BatchedNestedTensor),
      (''FuncTorchVmapMode'', DispatchKey_FuncTorchVmapMode),
      (''Batched'', DispatchKey_Batched),
      (''VmapMode'', DispatchKey_VmapMode),
      (''DeferredInit'', DispatchKey_DeferredInit),
      (''FuncTorchGradWrapper'', DispatchKey_FuncTorchGradWrapper),
      (''FuncTorchDynamicLayerFrontMode'', DispatchKey_FuncTorchDynamicLayerFrontMode),
      (''TESTING_ONLY_GenericWrapper'', DispatchKey_TESTING_ONLY_GenericWrapper),
      (''TESTING_ONLY_GenericMode'', DispatchKey_TESTING_ONLY_GenericMode),
      (''PythonDispatcher'', DispatchKey_PythonDispatcher),
      (''PreDispatch'', DispatchKey_PreDispatch),
      (''CPU'', DispatchKey_CPU),
      (''CUDA'', DispatchKey_CUDA),
      (''HIP'', DispatchKey_HIP),
      (''XLA'', DispatchKey_XLA),
      (''MPS'', DispatchKey_MPS),
      (''XPU'', DispatchKey_XPU),
      (''IPU'', DispatchKey_IPU),
      (''HPU'', DispatchKey_HPU),
      (''Lazy'', DispatchKey_Lazy),
      (''MTIA'', DispatchKey_MTIA),
      (''NestedTensor'', DispatchKey_NestedTensor),
      (''NestedTensorCPU'', DispatchKey_NestedTensorCPU),
      (''NestedTensorCUDA'', DispatchKey_NestedTensorCUDA),
      (''NestedTensorXPU'', DispatchKey_NestedTensorXPU),
      (''NestedTensorHPU'', DispatchKey_NestedTensorHPU),
      (''NestedTensorMeta'', DispatchKey_NestedTensorMeta),
      (''NestedTensorPrivateUse1'', DispatchKey_NestedTensorPrivateUse1),
      (''PrivateUse1'', DispatchKey_PrivateUse1),
      (''PrivateUse2'', DispatchKey_PrivateUse2),
      (''PrivateUse3'', DispatchKey_PrivateUse3),
      (''QuantizedCPU'', DispatchKey_QuantizedCPU),
      (''QuantizedCUDA'', DispatchKey_QuantizedCUDA),
      (''QuantizedXPU'', DispatchKey_QuantizedXPU),
      (''QuantizedPrivateUse1'', DispatchKey_QuantizedPrivateUse1),
      (''SparseCPU'', DispatchKey_SparseCPU),
      (''SparseCUDA'', DispatchKey_SparseCUDA),
      (''SparseMPS'', DispatchKey_SparseMPS),
      (''SparseCsrMPS'', DispatchKey_SparseCsrMPS),
      (''SparseHIP'', DispatchKey_SparseHIP),
      (''SparseXPU'', DispatchKey_SparseXPU),
      (''SparseVE'', DispatchKey_SparseVE),
      (''SparseMeta'', DispatchKey_SparseMeta),
      (''SparsePrivateUse1'', DispatchKey_SparsePrivateUse1),
      (''SparseCsrCPU'', DispatchKey_SparseCsrCPU),
      (''SparseCsrCUDA'', DispatchKey_SparseCsrCUDA),
      (''SparseCsrHIP'', DispatchKey_SparseCsrHIP),
      (''SparseCsrXPU'', DispatchKey_SparseCsrXPU),
      (''SparseCsrVE'', DispatchKey_SparseCsrVE),
      (''SparseCsrMeta'', DispatchKey_SparseCsrMeta),
      (''SparseCsrPrivateUse1'', DispatchKey_SparseCsrPrivateUse1),
      (''AutogradCPU'', DispatchKey_AutogradCPU),
      (''AutogradCUDA'', DispatchKey_AutogradCUDA),
      (''AutogradXLA'', DispatchKey_AutogradXLA),
      (''AutogradLazy'', DispatchKey_AutogradLazy),
      (''AutogradMeta'', DispatchKey_AutogradMeta),
      (''AutogradIPU'', DispatchKey_AutogradIPU),
      (''AutogradXPU'', DispatchKey_AutogradXPU),
      (''AutogradMPS'', DispatchKey_AutogradMPS),
      (''AutogradHPU'', DispatchKey_AutogradHPU),
      (''AutogradPrivateUse1'', DispatchKey_AutogradPrivateUse1),
      (''AutogradPrivateUse2'', DispatchKey_AutogradPrivateUse2),
      (''AutogradPrivateUse3'', DispatchKey_AutogradPrivateUse3),
      (''Autograd'', DispatchKey_Autograd),
      (''CompositeImplicitAutograd'', DispatchKey_CompositeImplicitAutograd),
      (''CompositeImplicitAutogradNestedTensor'', DispatchKey_CompositeImplicitAutogradNestedTensor),
      (''CompositeExplicitAutograd'', DispatchKey_CompositeExplicitAutograd),
      (''CompositeExplicitAutogradNonFunctional'', DispatchKey_CompositeExplicitAutogradNonFunctional),
      (''FuncTorchBatchedDecomposition'', DispatchKey_FuncTorchBatchedDecomposition)]"

definition toupper :: "char \<Rightarrow> char" where
  "toupper c = (let n = of_char c :: nat in if 97 \<le> n \<and> n \<le> 122 then char_of (n - 32) else c)"

definition tolower :: "char \<Rightarrow> char" where
  "tolower c = (let n = of_char c :: nat in if 65 \<le> n \<and> n \<le> 90 then char_of (n + 32) else c)"

text \<open>\<open>std::regex_replace\<close> with a pattern that has no regex metacharacters: every
  non-overlapping occurrence of the pattern, from the left.\<close>

function replace_all :: "string \<Rightarrow> string \<Rightarrow> string \<Rightarrow> string" where
  "replace_all pat rep s =
     (if pat = [] then rep @ concat (map (\<lambda>c. c # rep) s)
      else if take (length pat) s = pat then
        (if s = [] then [] else rep @ replace_all pat rep (drop (length pat) s))
      else case s of [] \<Rightarrow> [] | c # cs \<Rightarrow> c # replace_all pat rep cs)"
  by pat_completeness auto
termination
  by (relation "measure (\<lambda>(pat, rep, s). length s)") auto

declare replace_all.simps [simp del]

text \<open>\<open>parseDispatchKey\<close>; \<open>pu1\<close> is the value of \<open>get_privateuse1_backend()\<close>.\<close>

definition parseDispatchKey :: "string \<Rightarrow> string \<Rightarrow> DispatchKey result" where
  "parseDispatchKey pu1 k =
     (let it = map_of parse_key_map k;
          it' = (if it = None \<and> pu1 \<noteq> ''PrivateUse1''
                 then map_of parse_key_map (replace_all (map toupper pu1) ''PrivateUse1'' k)
                 else it)
      in case it' of
           None \<Rightarrow> Inl (CheckError ''could not parse dispatch key'')
         | Some d \<Rightarrow> Inr d)"

section \<open>Facts about the numbering\<close>

lemmas key_defs =
  isAliasDispatchKey_def isPerBackendFunctionalityKey_def toBackendComponent_def
  toFunctionalityKey_def toRuntimePerBackendFunctionalityKey_def

lemma num_backends_eq [simp]: "num_backends = 16"
  by (simp add: num_backends_def)

lemma num_functionality_keys_eq [simp]: "num_functionality_keys = 48"
  by (simp add: num_functionality_keys_def)

lemma num_runtime_entries_eq [simp]: "num_runtime_entries = 138"
  by code_simp

lemma full_backend_mask_eq: "full_backend_mask = mask 16"
  by (simp add: full_backend_mask_def mask_eq_exp_minus_1 push_bit_eq_mult)

lemma bit_full_backend_mask [simp]: "bit full_backend_mask i \<longleftrightarrow> i < 16"
  by (auto simp: full_backend_mask_eq bit_simps)

lemma perBackend_less: "isPerBackendFunctionalityKey f \<Longrightarrow> 0 < f \<and> f < 48"
  by (auto simp: isPerBackendFunctionalityKey_def)

text \<open>Splitting a per-backend runtime key into its two components and joining them again.\<close>

lemma toBackendComponent_runtime [simp]:
  "isPerBackendFunctionalityKey f \<Longrightarrow> b \<le> 16 \<Longrightarrow>
   toBackendComponent (toRuntimePerBackendFunctionalityKey f b) = b"
  by (auto simp: key_defs)

lemma toFunctionalityKey_runtime [simp]:
  "isPerBackendFunctionalityKey f \<Longrightarrow> b \<le> 16 \<Longrightarrow>
   toFunctionalityKey (toRuntimePerBackendFunctionalityKey f b) = f"
  by (auto simp: key_defs)

lemma runtime_key_join:
  "DispatchKey_EndOfFunctionalityKeys < k \<Longrightarrow> k \<le> EndOfRuntimeBackendKeys \<Longrightarrow>
   isPerBackendFunctionalityKey (toFunctionalityKey k) \<and> toBackendComponent k \<le> 16 \<and>
   toRuntimePerBackendFunctionalityKey (toFunctionalityKey k) (toBackendComponent k) = k"
  by (auto simp: key_defs)

lemma toRuntime_range:
  "isPerBackendFunctionalityKey f \<Longrightarrow> b \<le> 16 \<Longrightarrow>
   DispatchKey_EndOfFunctionalityKeys < toRuntimePerBackendFunctionalityKey f b \<and>
   toRuntimePerBackendFunctionalityKey f b \<le> EndOfRuntimeBackendKeys"
  by (auto simp: key_defs)

lemma toFunctionalityKey_less: "toFunctionalityKey k \<le> 48"
  by (simp add: toFunctionalityKey_def)

end
