(* ===== verification/DispatchKeySets.thy ===== *)
theory DispatchKeySets
  imports DispatchKeys
begin

text \<open>
  Dispatch key sets (\<open>c10/core/DispatchKeySet.h\<close>, \<open>c10/core/DispatchKeySet.cpp\<close>): the 64-bit
  set representation with 16 backend bits below 47 functionality bits, its operations, the
  computation of the highest priority key and of the dispatch table index, the iterator, and
  the resolution of alias keys. A \<open>DispatchKeySet\<close> object is its only field \<open>repr_\<close>. The
  configuration modelled is the default one (\<open>C10_MOBILE_TRIM_DISPATCH_KEYS\<close> undefined).
\<close>

type_synonym DispatchKeySet = u64

section \<open>Constructors\<close>

definition DispatchKeySet_full :: DispatchKeySet where
  "DispatchKeySet_full = push_bit (num_backends + num_functionality_keys - 1) 1 - 1"

definition DispatchKeySet_backend :: "BackendComponent \<Rightarrow> DispatchKeySet" where
  "DispatchKeySet_backend k =
     (if k = BackendComponent_InvalidBit then 0 else push_bit (k - 1) 1)"

definition DispatchKeySet_of :: "DispatchKey \<Rightarrow> DispatchKeySet" where
  "DispatchKeySet_of k =
     (if k = DispatchKey_Undefined then 0
      else if k \<le> DispatchKey_EndOfFunctionalityKeys then push_bit (num_backends + k - 1) 1
      else if k \<le> EndOfRuntimeBackendKeys then
        (let functionality_k = toFunctionalityKey k;
             functionality_val = push_bit (num_backends + functionality_k - 1) 1;
             backend_k = toBackendComponent k;
             backend_val = (if backend_k = BackendComponent_InvalidBit then 0
                            else push_bit (backend_k - 1) 1)
         in functionality_val + backend_val)
      else 0)"

definition keys_to_repr :: "DispatchKey list \<Rightarrow> u64" where
  "keys_to_repr ks = fold (\<lambda>k repr. repr OR DispatchKeySet_of k) ks 0"

definition backend_bits_to_repr :: "BackendComponent list \<Rightarrow> u64" where
  "backend_bits_to_repr ks = fold (\<lambda>k repr. repr OR DispatchKeySet_backend k) ks 0"

section \<open>Set operations\<close>

definition has_all :: "DispatchKeySet \<Rightarrow> DispatchKeySet \<Rightarrow> bool" where
  "has_all s ks \<longleftrightarrow> s AND ks = ks"

definition has :: "DispatchKeySet \<Rightarrow> DispatchKey \<Rightarrow> bool" where
  "has s t = has_all s (DispatchKeySet_of t)"

definition has_backend :: "DispatchKeySet \<Rightarrow> BackendComponent \<Rightarrow> bool" where
  "has_backend s t = has_all s (DispatchKeySet_backend t)"

definition has_any :: "DispatchKeySet \<Rightarrow> DispatchKeySet \<Rightarrow> bool" where
  "has_any s ks \<longleftrightarrow> s AND ks \<noteq> 0"

definition keyset_union :: "DispatchKeySet \<Rightarrow> DispatchKeySet \<Rightarrow> DispatchKeySet" where
  "keyset_union s other = s OR other"

definition keyset_inter :: "DispatchKeySet \<Rightarrow> DispatchKeySet \<Rightarrow> DispatchKeySet" where
  "keyset_inter s other = s AND other"

definition keyset_diff :: "DispatchKeySet \<Rightarrow> DispatchKeySet \<Rightarrow> DispatchKeySet" where
  "keyset_diff s other = s AND (full_backend_mask OR NOT other)"

definition add :: "DispatchKeySet \<Rightarrow> DispatchKey \<Rightarrow> DispatchKeySet" where
  "add s t = keyset_union s (DispatchKeySet_of t)"

definition remove :: "DispatchKeySet \<Rightarrow> DispatchKey \<Rightarrow> DispatchKeySet" where
  "remove s t = s AND NOT (DispatchKeySet_of t AND NOT full_backend_mask)"

definition remove_backend :: "DispatchKeySet \<Rightarrow> BackendComponent \<Rightarrow> DispatchKeySet" where
  "remove_backend s b = s AND NOT (DispatchKeySet_backend b)"

definition DispatchKeySet_full_after :: "DispatchKey \<Rightarrow> DispatchKeySet" where
  "DispatchKeySet_full_after t =
     add (push_bit (num_backends + toFunctionalityKey t - 1) 1 - 1) DispatchKey_PythonDispatcher"

section \<open>Highest priority key\<close>

definition indexOfHighestBit :: "DispatchKeySet \<Rightarrow> nat" where
  "indexOfHighestBit s = 64 - countLeadingZeros s"

definition highestFunctionalityKey :: "DispatchKeySet \<Rightarrow> DispatchKey" where
  "highestFunctionalityKey s =
     (let functionality_idx = indexOfHighestBit s
      in if functionality_idx < num_backends then DispatchKey_Undefined
         else functionality_idx - num_backends)"

definition highestBackendKey :: "DispatchKeySet \<Rightarrow> BackendComponent" where
  "highestBackendKey s =
     (let backend_idx = indexOfHighestBit (s AND full_backend_mask)
      in if backend_idx = 0 then BackendComponent_InvalidBit else backend_idx)"

definition highestPriorityTypeId :: "DispatchKeySet \<Rightarrow> DispatchKey" where
  "highestPriorityTypeId s =
     (let functionality_k = highestFunctionalityKey s
      in if isPerBackendFunctionalityKey functionality_k
         then toRuntimePerBackendFunctionalityKey functionality_k (highestBackendKey s)
         else functionality_k)"

section \<open>Dispatch table index\<close>

record FunctionalityOffsetAndMask =
  offset :: nat
  omask :: u64

text \<open>The loop of \<open>initializeFunctionalityOffsetsAndMasks\<close>: entry \<open>i\<close> from entry \<open>i - 1\<close>.\<close>

definition next_offset_and_mask ::
  "FunctionalityOffsetAndMask \<Rightarrow> DispatchKey \<Rightarrow> FunctionalityOffsetAndMask" where
  "next_offset_and_mask prev k =
     \<lparr> offset = offset prev + (if omask prev = 0 then 1 else num_backends),
       omask = (if isPerBackendFunctionalityKey k then full_backend_mask else 0) \<rparr>"

definition initializeFunctionalityOffsetsAndMasks :: "FunctionalityOffsetAndMask list result" where
  "initializeFunctionalityOffsetsAndMasks =
     (let arr = fold (\<lambda>i arr. arr @ [next_offset_and_mask (arr ! (i - 1)) i])
                  [1..<num_functionality_keys] [\<lparr> offset = 0, omask = 0 \<rparr>]
      in if offset (arr ! (num_functionality_keys - 1)) = num_runtime_entries - 1
         then Inr arr
         else Inl (InternalAssert ''num_runtime_entries''))"

text \<open>\<open>getDispatchTableIndexForDispatchKeySet\<close>; the array access is out of bounds when the bit
  of \<open>EndOfFunctionalityKeys\<close> is set, which no constructor of runtime sets does.\<close>

definition getDispatchTableIndexForDispatchKeySet ::
  "FunctionalityOffsetAndMask list \<Rightarrow> DispatchKeySet \<Rightarrow> nat option" where
  "getDispatchTableIndexForDispatchKeySet arr s =
     (let functionality_idx = indexOfHighestBit (drop_bit num_backends s)
      in if functionality_idx < length arr then
           (let om = arr ! functionality_idx;
                backend_idx = indexOfHighestBit (drop_bit 1 (s AND omask om))
            in Some (offset om + backend_idx))
         else None)"

definition getBackendIndex :: "DispatchKeySet \<Rightarrow> nat" where
  "getBackendIndex s = indexOfHighestBit (drop_bit 1 (s AND full_backend_mask))"

section \<open>The iterator\<close>

record iterator =
  data_ptr :: u64
  next_functionality :: nat
  next_backend :: nat
  current_dispatchkey_idx :: nat
  current_backendcomponent_idx :: nat

definition end_iter_mask_val :: nat where
  "end_iter_mask_val = num_backends + num_functionality_keys"

definition end_iter_key_val :: nat where
  "end_iter_key_val = num_functionality_keys"

function operator_inc :: "iterator \<Rightarrow> iterator result" where
  "operator_inc it =
     (if \<not> next_functionality it \<le> end_iter_mask_val
      then Inl (InternalAssert ''next_functionality_ <= end_iter_mask_val'')
      else if \<not> next_backend it \<le> num_backends
      then Inl (InternalAssert ''next_backend_ <= num_backends'')
      else
       (let masked_functionality_bits = maskTrailingZeros (next_functionality it) AND data_ptr it;
            masked_backend_bits =
              maskTrailingZeros (next_backend it) AND full_backend_mask AND data_ptr it
        in case findFirstSet masked_functionality_bits of
             None \<Rightarrow> Inr (it\<lparr> next_functionality := end_iter_mask_val,
                             current_dispatchkey_idx := end_iter_key_val,
                             next_backend := 0,
                             current_backendcomponent_idx := end_iter_key_val \<rparr>)
           | Some first_functionality_idx \<Rightarrow>
             if next_functionality it = end_iter_mask_val
             then Inr (it\<lparr> next_functionality := end_iter_mask_val,
                           current_dispatchkey_idx := end_iter_key_val,
                           next_backend := 0,
                           current_backendcomponent_idx := end_iter_key_val \<rparr>)
             else
              (let new_next_functionality = first_functionality_idx + 1;
                   next_dispatchkey_idx = new_next_functionality - num_backends
               in if isPerBackendFunctionalityKey next_dispatchkey_idx then
                    (case findFirstSet masked_backend_bits of
                       None \<Rightarrow> operator_inc (it\<lparr> next_functionality := new_next_functionality \<rparr>)
                     | Some first_backendcomponent_idx \<Rightarrow>
                        (let it1 = it\<lparr> current_dispatchkey_idx := next_dispatchkey_idx,
                                       current_backendcomponent_idx := first_backendcomponent_idx + 1 \<rparr>;
                             next_backendcomponent_bits =
                               maskTrailingZeros (first_backendcomponent_idx + 1) AND
                               full_backend_mask AND data_ptr it
                         in case findFirstSet next_backendcomponent_bits of
                              None \<Rightarrow> Inr (it1\<lparr> next_functionality := new_next_functionality,
                                               next_backend := 0 \<rparr>)
                            | Some _ \<Rightarrow> Inr (it1\<lparr> next_backend := first_backendcomponent_idx + 1 \<rparr>)))
                  else if next_backend it \<noteq> 0 then Inl (InternalAssert ''next_backend_ == 0'')
                  else Inr (it\<lparr> current_dispatchkey_idx := next_dispatchkey_idx,
                                next_functionality := new_next_functionality \<rparr>))))"
  by pat_completeness auto
termination
proof (relation "measure (\<lambda>it. 64 - next_functionality it)", goal_cases)
  case 1
  then show ?case by simp
next
  case (2 it x xa i xb xc)
  then have "next_functionality it \<le> i" "i < 64"
    using findFirstSet_masked [of "next_functionality it" "data_ptr it" i]
    by (auto simp: end_iter_mask_val_def)
  with 2 show ?case by simp
qed

declare operator_inc.simps [simp del]

definition iterator_init :: "u64 \<Rightarrow> nat \<Rightarrow> iterator result" where
  "iterator_init d nf =
     (if num_backends \<le> nf
      then operator_inc \<lparr> data_ptr = d, next_functionality = nf, next_backend = 0,
                          current_dispatchkey_idx = end_iter_key_val,
                          current_backendcomponent_idx = end_iter_key_val \<rparr>
      else Inl (InternalAssert ''next_functionality_ >= num_backends''))"

definition iterator_begin :: "DispatchKeySet \<Rightarrow> iterator result" where
  "iterator_begin s = iterator_init s num_backends"

definition iterator_end :: "DispatchKeySet \<Rightarrow> iterator result" where
  "iterator_end s = iterator_init s end_iter_mask_val"

definition iterator_eq :: "iterator \<Rightarrow> iterator \<Rightarrow> bool" where
  "iterator_eq a b \<longleftrightarrow>
     next_functionality a = next_functionality b \<and>
     current_dispatchkey_idx a = current_dispatchkey_idx b \<and>
     next_backend a = next_backend b \<and>
     current_backendcomponent_idx a = current_backendcomponent_idx b"

definition iterator_deref :: "iterator \<Rightarrow> DispatchKey result" where
  "iterator_deref it =
     (let functionality_key = current_dispatchkey_idx it
      in if isPerBackendFunctionalityKey functionality_key then
           (let next_key = toRuntimePerBackendFunctionalityKey functionality_key
                             (current_backendcomponent_idx it)
            in if toBackendComponent next_key = current_backendcomponent_idx it
               then Inr next_key
               else Inl (InternalAssert ''Tried to map functionality key''))
         else Inr functionality_key)"

text \<open>The range-based \<open>for\<close> over a key set, as \<open>operator<<\<close> uses it: the keys visited. The fuel
  bounds the number of increments.\<close>

fun iterator_collect :: "nat \<Rightarrow> iterator \<Rightarrow> iterator \<Rightarrow> (DispatchKey list result) option" where
  "iterator_collect 0 it fin = None"
| "iterator_collect (Suc n) it fin =
     (if iterator_eq it fin then Some (Inr [])
      else case iterator_deref it of
             Inl e \<Rightarrow> Some (Inl e)
           | Inr k \<Rightarrow>
             (case operator_inc it of
                Inl e \<Rightarrow> Some (Inl e)
              | Inr it' \<Rightarrow> map_option (\<lambda>r. bindE r (\<lambda>ks. Inr (k # ks))) (iterator_collect n it' fin)))"

definition keyset_fuel :: nat where
  "keyset_fuel = 48 * 16 + 1"

definition keyset_for :: "DispatchKeySet \<Rightarrow> (DispatchKey list result) option" where
  "keyset_for s =
     (case (iterator_begin s, iterator_end s) of
        (Inr b, Inr e) \<Rightarrow> iterator_collect keyset_fuel b e
      | (Inl e, _) \<Rightarrow> Some (Inl e)
      | (_, Inl e) \<Rightarrow> Some (Inl e))"

text \<open>\<open>operator<<\<close> on key sets.\<close>

fun join_keys :: "DispatchKey list \<Rightarrow> string" where
  "join_keys [] = []"
| "join_keys [k] = toString k"
| "join_keys (k # ks) = toString k @ '', '' @ join_keys ks"

definition keyset_toString :: "DispatchKeySet \<Rightarrow> (string result) option" where
  "keyset_toString s =
     (if s = 0 then Some (Inr ''DispatchKeySet()'')
      else map_option (\<lambda>r. bindE r (\<lambda>ks. Inr (''DispatchKeySet('' @ join_keys ks @ '')'')))
             (keyset_for s))"

section \<open>Alias keys\<close>

definition autograd_dispatch_keyset :: DispatchKeySet where
  "autograd_dispatch_keyset =
     keys_to_repr [DispatchKey_AutogradFunctionality, DispatchKey_AutogradOther,
                   DispatchKey_AutogradNestedTensor]"

definition autogradother_backends :: DispatchKeySet where
  "autogradother_backends =
     keyset_union
       (keys_to_repr [DispatchKey_FPGA, DispatchKey_Vulkan, DispatchKey_Metal,
                      DispatchKey_CustomRNGKeyId, DispatchKey_MkldnnCPU, DispatchKey_Sparse,
                      DispatchKey_SparseCsr, DispatchKey_Quantized])
       full_backend_mask"

definition backend_dispatch_keyset :: DispatchKeySet where
  "backend_dispatch_keyset =
     keyset_union autogradother_backends (DispatchKeySet_of DispatchKey_Dense)"

definition non_functional_backend_dispatch_keyset :: DispatchKeySet where
  "non_functional_backend_dispatch_keyset =
     remove_backend
       (remove_backend (remove backend_dispatch_keyset DispatchKey_Sparse) BackendComponent_XLABit)
       BackendComponent_LazyBit"

definition isBackendDispatchKey :: "DispatchKey \<Rightarrow> bool" where
  "isBackendDispatchKey t \<longleftrightarrow>
     t \<noteq> DispatchKey_Undefined \<and> \<not> isAliasDispatchKey t \<and> t \<noteq> DispatchKey_NestedTensor \<and>
     has backend_dispatch_keyset t"

definition math_dispatch_keyset :: DispatchKeySet where
  "math_dispatch_keyset =
     keyset_union (keyset_union backend_dispatch_keyset autograd_dispatch_keyset)
       (DispatchKeySet_of DispatchKey_NestedTensor)"

definition nested_dispatch_keyset :: DispatchKeySet where
  "nested_dispatch_keyset =
     keyset_union (keys_to_repr [DispatchKey_AutogradNestedTensor, DispatchKey_NestedTensor])
       full_backend_mask"

definition functorch_batched_dispatch_keyset :: DispatchKeySet where
  "functorch_batched_dispatch_keyset = DispatchKeySet_of DispatchKey_FuncTorchBatched"

definition getRuntimeDispatchKeySet :: "DispatchKey \<Rightarrow> DispatchKeySet result" where
  "getRuntimeDispatchKeySet t =
     (if t = DispatchKey_Undefined then Inl (InternalAssert ''t != DispatchKey::Undefined'')
      else if t = DispatchKey_Autograd
        then Inr (keyset_union autograd_dispatch_keyset full_backend_mask)
      else if t = DispatchKey_CompositeImplicitAutograd then Inr math_dispatch_keyset
      else if t = DispatchKey_CompositeImplicitAutogradNestedTensor then Inr nested_dispatch_keyset
      else if t = DispatchKey_CompositeExplicitAutograd then Inr backend_dispatch_keyset
      else if t = DispatchKey_CompositeExplicitAutogradNonFunctional
        then Inr non_functional_backend_dispatch_keyset
      else if t = DispatchKey_FuncTorchBatchedDecomposition
        then Inr functorch_batched_dispatch_keyset
      else Inr (DispatchKeySet_of t))"

definition runtimeDispatchKeySetHas :: "DispatchKey \<Rightarrow> DispatchKey \<Rightarrow> bool result" where
  "runtimeDispatchKeySetHas t k =
     (if t = DispatchKey_Undefined then Inl (InternalAssert ''t != DispatchKey::Undefined'')
      else if t = DispatchKey_Autograd
        then Inr (has autograd_dispatch_keyset (toFunctionalityKey k))
      else if t = DispatchKey_CompositeImplicitAutograd then Inr (has math_dispatch_keyset k)
      else if t = DispatchKey_CompositeImplicitAutogradNestedTensor
        then Inr (has nested_dispatch_keyset k)
      else if t = DispatchKey_CompositeExplicitAutograd
        then Inr (k \<noteq> DispatchKey_NestedTensor \<and> has backend_dispatch_keyset k)
      else if t = DispatchKey_CompositeExplicitAutogradNonFunctional
        then Inr (k \<noteq> DispatchKey_NestedTensor \<and> has non_functional_backend_dispatch_keyset k)
      else if t = DispatchKey_FuncTorchBatchedDecomposition
        then Inr (has (keys_to_repr [DispatchKey_FuncTorchBatched]) k)
      else Inr (t = k))"

definition isIncludedInAlias :: "DispatchKey \<Rightarrow> DispatchKey \<Rightarrow> bool result" where
  "isIncludedInAlias k alias =
     (if k \<noteq> DispatchKey_Undefined then runtimeDispatchKeySetHas alias k else Inr False)"

definition getBackendKeySetFromAutograd :: "DispatchKey \<Rightarrow> DispatchKeySet" where
  "getBackendKeySetFromAutograd t =
     (if t = DispatchKey_AutogradCPU then DispatchKeySet_of DispatchKey_CPU
      else if t = DispatchKey_AutogradCUDA then DispatchKeySet_of DispatchKey_CUDA
      else if t = DispatchKey_AutogradXLA then DispatchKeySet_of DispatchKey_XLA
      else if t = DispatchKey_AutogradLazy then DispatchKeySet_of DispatchKey_Lazy
      else if t = DispatchKey_AutogradMeta then DispatchKeySet_of DispatchKey_Meta
      else if t = DispatchKey_AutogradMPS then DispatchKeySet_of DispatchKey_MPS
      else if t = DispatchKey_AutogradHPU then DispatchKeySet_of DispatchKey_HPU
      else if t = DispatchKey_AutogradIPU then DispatchKeySet_of DispatchKey_IPU
      else if t = DispatchKey_AutogradXPU then DispatchKeySet_of DispatchKey_XPU
      else if t = DispatchKey_AutogradMAIA then DispatchKeySet_of DispatchKey_MAIA
      else if t = DispatchKey_AutogradPrivateUse1 then DispatchKeySet_of DispatchKey_PrivateUse1
      else if t = DispatchKey_AutogradPrivateUse2 then DispatchKeySet_of DispatchKey_PrivateUse2
      else if t = DispatchKey_AutogradPrivateUse3 then DispatchKeySet_of DispatchKey_PrivateUse3
      else if t = DispatchKey_AutogradNestedTensor
        then keyset_union (DispatchKeySet_of DispatchKey_NestedTensor) full_backend_mask
      else if t = DispatchKey_AutogradOther then autogradother_backends
      else 0)"

text \<open>\<open>getAutogradRelatedKeySetFromBackend\<close> and \<open>getAutogradKeyFromBackend\<close>.\<close>

definition getAutogradRelatedKeySetFromBackend :: "BackendComponent \<Rightarrow> DispatchKeySet" where
  "getAutogradRelatedKeySetFromBackend t =
     keyset_union (DispatchKeySet_of DispatchKey_ADInplaceOrView)
      (DispatchKeySet_of
       (if t = BackendComponent_CPUBit then DispatchKey_AutogradCPU
        else if t = BackendComponent_IPUBit then DispatchKey_AutogradIPU
        else if t = BackendComponent_MTIABit then DispatchKey_AutogradMTIA
        else if t = BackendComponent_MAIABit then DispatchKey_AutogradMAIA
        else if t = BackendComponent_XPUBit then DispatchKey_AutogradXPU
        else if t = BackendComponent_CUDABit then DispatchKey_AutogradCUDA
        else if t = BackendComponent_XLABit then DispatchKey_AutogradXLA
        else if t = BackendComponent_LazyBit then DispatchKey_AutogradLazy
        else if t = BackendComponent_MetaBit then DispatchKey_AutogradMeta
        else if t = BackendComponent_MPSBit then DispatchKey_AutogradMPS
        else if t = BackendComponent_HPUBit then DispatchKey_AutogradHPU
        else if t = BackendComponent_PrivateUse1Bit then DispatchKey_AutogradPrivateUse1
        else if t = BackendComponent_PrivateUse2Bit then DispatchKey_AutogradPrivateUse2
        else if t = BackendComponent_PrivateUse3Bit then DispatchKey_AutogradPrivateUse3
        else DispatchKey_AutogradOther))"

definition getAutogradKeyFromBackend :: "BackendComponent \<Rightarrow> DispatchKey" where
  "getAutogradKeyFromBackend k = highestPriorityTypeId (getAutogradRelatedKeySetFromBackend k)"

definition getAutocastRelatedKeySetFromBackend :: "BackendComponent \<Rightarrow> DispatchKeySet" where
  "getAutocastRelatedKeySetFromBackend t =
     (if t = BackendComponent_CPUBit then DispatchKeySet_of DispatchKey_AutocastCPU
      else if t = BackendComponent_MTIABit then DispatchKeySet_of DispatchKey_AutocastMTIA
      else if t = BackendComponent_MAIABit then DispatchKeySet_of DispatchKey_AutocastMAIA
      else if t = BackendComponent_XPUBit then DispatchKeySet_of DispatchKey_AutocastXPU
      else if t = BackendComponent_IPUBit then DispatchKeySet_of DispatchKey_AutocastIPU
      else if t = BackendComponent_HPUBit then DispatchKeySet_of DispatchKey_AutocastHPU
      else if t = BackendComponent_CUDABit then DispatchKeySet_of DispatchKey_AutocastCUDA
      else if t = BackendComponent_XLABit then DispatchKeySet_of DispatchKey_AutocastXLA
      else if t = BackendComponent_PrivateUse1Bit
        then DispatchKeySet_of DispatchKey_AutocastPrivateUse1
      else if t = BackendComponent_MPSBit then DispatchKeySet_of DispatchKey_AutocastMPS
      else 0)"

definition backend_functionality_keys :: DispatchKeySet where
  "backend_functionality_keys =
     keyset_union
       (keys_to_repr [DispatchKey_Dense, DispatchKey_Quantized, DispatchKey_Sparse,
                      DispatchKey_SparseCsr])
       full_backend_mask"

definition highestPriorityBackendTypeId :: "DispatchKeySet \<Rightarrow> DispatchKey" where
  "highestPriorityBackendTypeId ks =
     highestPriorityTypeId (keyset_inter ks backend_functionality_keys)"

section \<open>Bits of the constructed sets\<close>

lemma bit_DispatchKeySet_backend:
  "bit (DispatchKeySet_backend b) i \<longleftrightarrow> 0 < b \<and> b \<le> 64 \<and> i = b - 1"
  by (auto simp: DispatchKeySet_backend_def bit_simps)

text \<open>The functionality bit of functionality \<open>f\<close> is \<open>15 + f\<close>, the backend bit of backend
  \<open>b\<close> is \<open>b - 1\<close>.\<close>

lemma bit_DispatchKeySet_of:
  "bit (DispatchKeySet_of k) i \<longleftrightarrow>
     0 < k \<and> k \<le> EndOfRuntimeBackendKeys \<and>
     (i = 15 + toFunctionalityKey k \<or> 0 < toBackendComponent k \<and> i = toBackendComponent k - 1)"
proof (cases "k \<le> 48")
  case True
  then have "toFunctionalityKey k = k" "toBackendComponent k = 0"
    by (simp_all add: key_defs)
  with True show ?thesis
    by (auto simp: DispatchKeySet_of_def bit_simps)
next
  case k48: False
  show ?thesis
  proof (cases "k \<le> EndOfRuntimeBackendKeys")
    case True
    let ?f = "toFunctionalityKey k" and ?b = "toBackendComponent k"
    have fb: "isPerBackendFunctionalityKey ?f" "?b \<le> 16"
      using runtime_key_join [of k] k48 True by auto
    have f: "0 < ?f" "?f < 48" using perBackend_less [OF fb(1)] by auto
    let ?fv = "push_bit (15 + ?f) 1 :: u64"
    let ?bv = "if ?b = 0 then 0 else push_bit (?b - 1) 1 :: u64"
    have "?fv + ?bv = ?fv OR ?bv"
      by (rule disjunctive_add) (use fb(2) f in \<open>auto simp: bit_simps\<close>)
    then have "DispatchKeySet_of k = ?fv OR ?bv"
      using k48 True f by (simp add: DispatchKeySet_of_def Let_def)
    then show ?thesis using k48 True f fb(2) by (auto simp: bit_simps)
  next
    case False
    then show ?thesis using k48 by (simp add: DispatchKeySet_of_def)
  qed
qed

lemma has_all_iff: "has_all s ks \<longleftrightarrow> (\<forall>i. bit ks i \<longrightarrow> bit s i)"
  by (auto simp: has_all_def bit_eq_iff [where a = "s AND ks"] bit_simps dest: bit_u64_lt)

lemma has_iff_bits:
  "has s k \<longleftrightarrow> (0 < k \<and> k \<le> EndOfRuntimeBackendKeys \<longrightarrow>
     bit s (15 + toFunctionalityKey k) \<and>
     (0 < toBackendComponent k \<longrightarrow> bit s (toBackendComponent k - 1)))"
  by (auto simp: has_def has_all_iff bit_DispatchKeySet_of)

text \<open>The functionalities and the backends of a set, and the runtime keys it stands for.\<close>

definition keyset_functionalities :: "DispatchKeySet \<Rightarrow> DispatchKey set" where
  "keyset_functionalities s = {f. 0 < f \<and> f < 48 \<and> bit s (15 + f)}"

definition keyset_backends :: "DispatchKeySet \<Rightarrow> BackendComponent set" where
  "keyset_backends s = {b. 0 < b \<and> b \<le> 16 \<and> bit s (b - 1)}"

definition isRuntimeKey :: "DispatchKey \<Rightarrow> bool" where
  "isRuntimeKey k \<longleftrightarrow>
     (0 < k \<and> k < DispatchKey_EndOfFunctionalityKeys \<and> \<not> isPerBackendFunctionalityKey k) \<or>
     (DispatchKey_EndOfFunctionalityKeys < k \<and> k \<le> EndOfRuntimeBackendKeys \<and>
      toBackendComponent k \<noteq> BackendComponent_InvalidBit)"

definition keyset_runtime_keys :: "DispatchKeySet \<Rightarrow> DispatchKey set" where
  "keyset_runtime_keys s = {k. isRuntimeKey k \<and> has s k}"

lemma isRuntimeKey_less: "isRuntimeKey k \<Longrightarrow> 0 < k \<and> k \<le> EndOfRuntimeBackendKeys"
  by (auto simp: isRuntimeKey_def)

lemma isRuntimeKey_functionality:
  "isRuntimeKey k \<Longrightarrow> 0 < toFunctionalityKey k \<and> toFunctionalityKey k < 48"
  using runtime_key_join [of k] perBackend_less [of "toFunctionalityKey k"]
  by (auto simp: isRuntimeKey_def toFunctionalityKey_def [of k])

lemma has_runtime_iff:
  assumes "isRuntimeKey k"
  shows "has s k \<longleftrightarrow> toFunctionalityKey k \<in> keyset_functionalities s \<and>
    (toBackendComponent k = 0 \<or> toBackendComponent k \<in> keyset_backends s)"
proof -
  have b: "toBackendComponent k \<le> 16" by (auto simp: toBackendComponent_def)
  show ?thesis
    using isRuntimeKey_less [OF assms] isRuntimeKey_functionality [OF assms] b
    by (auto simp: has_iff_bits keyset_functionalities_def keyset_backends_def)
qed

lemma functionality_bit_ne_backend_bit: "0 < f \<Longrightarrow> b \<le> 16 \<Longrightarrow> 15 + f \<noteq> b - (1::nat)"
  by linarith

lemma bit_add: "bit (add s t) i \<longleftrightarrow> bit s i \<or> bit (DispatchKeySet_of t) i"
  by (simp add: add_def keyset_union_def bit_simps)

lemma bit_remove: "bit (remove s t) i \<longleftrightarrow> bit s i \<and> (i < 16 \<or> \<not> bit (DispatchKeySet_of t) i)"
  by (auto simp: remove_def bit_simps dest: bit_u64_lt)

lemma bit_keyset_diff: "bit (keyset_diff s t) i \<longleftrightarrow> bit s i \<and> (i < 16 \<or> \<not> bit t i)"
  by (auto simp: keyset_diff_def bit_simps dest: bit_u64_lt)

text \<open>C4: adding a key adds its functionality and its backend;
  removing a key removes only the functionality, for every backend, and leaves the backend bits
  as they are (Note [Removing keys from DispatchKeySet Only Affects Functionality Keys]).\<close>

theorem keyset_add_remove:
  assumes "isRuntimeKey t"
  shows "keyset_functionalities (add s t) = insert (toFunctionalityKey t) (keyset_functionalities s)
    \<and> keyset_backends (add s t) =
        (if toBackendComponent t = 0 then keyset_backends s
         else insert (toBackendComponent t) (keyset_backends s))
    \<and> keyset_functionalities (remove s t) = keyset_functionalities s - {toFunctionalityKey t}
    \<and> keyset_backends (remove s t) = keyset_backends s
    \<and> has (add s t) t \<and> \<not> has (remove s t) t
    \<and> keyset_runtime_keys (remove s t) =
        {k \<in> keyset_runtime_keys s. toFunctionalityKey k \<noteq> toFunctionalityKey t}"
proof -
  note f = isRuntimeKey_functionality [OF assms] and r = isRuntimeKey_less [OF assms]
  have b: "toBackendComponent t \<le> 16" by (auto simp: toBackendComponent_def)
  have fa: "keyset_functionalities (add s t) =
      insert (toFunctionalityKey t) (keyset_functionalities s)"
    using f r b by (auto simp: keyset_functionalities_def bit_add bit_DispatchKeySet_of)
  have ba: "keyset_backends (add s t) =
      (if toBackendComponent t = 0 then keyset_backends s
       else insert (toBackendComponent t) (keyset_backends s))"
    using f r b by (auto simp: keyset_backends_def bit_add bit_DispatchKeySet_of)
  have fr: "keyset_functionalities (remove s t) = keyset_functionalities s - {toFunctionalityKey t}"
    using f r b by (auto simp: keyset_functionalities_def bit_remove bit_DispatchKeySet_of)
  have br: "keyset_backends (remove s t) = keyset_backends s"
    by (auto simp: keyset_backends_def bit_remove)
  have "has (add s t) t" "\<not> has (remove s t) t"
    using has_runtime_iff [OF assms] fa ba fr br by auto
  moreover have "keyset_runtime_keys (remove s t) =
      {k \<in> keyset_runtime_keys s. toFunctionalityKey k \<noteq> toFunctionalityKey t}"
    by (auto simp: keyset_runtime_keys_def has_runtime_iff fr br)
  ultimately show ?thesis using fa ba fr br by blast
qed

theorem keyset_add_remove_witness:
  "has (add 0 DispatchKey_CPU) DispatchKey_CPU \<and> \<not> has (remove 0 DispatchKey_CPU) DispatchKey_CPU"
proof -
  have "isRuntimeKey DispatchKey_CPU" by (simp add: isRuntimeKey_def toBackendComponent_def)
  then show ?thesis using keyset_add_remove [of DispatchKey_CPU 0] by blast
qed

section \<open>Highest priority\<close>

lemma indexOfHighestBit_0 [simp]: "indexOfHighestBit 0 = 0"
  by (simp add: indexOfHighestBit_def countLeadingZeros_def)

lemma indexOfHighestBit_eq:
  assumes "bit s h" "\<And>j. h < j \<Longrightarrow> \<not> bit s j"
  shows "indexOfHighestBit s = Suc h"
proof -
  have "s \<noteq> 0" using assms(1) by auto
  then obtain h' where h': "h' < 64" "2 ^ h' \<le> unat s" "unat s < 2 ^ Suc h'"
    by (rule u64_highest_bit_ex)
  have "h' = h" using bit_highest [OF h'(2,3)] assms by (metis linorder_neqE_nat not_le)
  then show ?thesis using countLeadingZeros_eq [OF h'(2,3,1)] h'(1)
    by (simp add: indexOfHighestBit_def)
qed

lemma indexOfHighestBit_cases:
  obtains "s = 0" "indexOfHighestBit s = 0"
  | h where "bit s h" "\<And>j. h < j \<Longrightarrow> \<not> bit s j" "indexOfHighestBit s = Suc h" "h < 64"
proof (cases "s = 0")
  case True
  then show thesis using that(1) by simp
next
  case False
  then obtain h where h: "h < 64" "2 ^ h \<le> unat s" "unat s < 2 ^ Suc h"
    by (rule u64_highest_bit_ex)
  then have "bit s h" "\<And>j. h < j \<Longrightarrow> \<not> bit s j"
    using bit_highest [OF h(2,3)] by (auto simp: not_le [symmetric])
  then show thesis using that(2) indexOfHighestBit_eq h(1) by blast
qed

lemma functionality_bit:
  "16 \<le> j \<Longrightarrow> bit s j \<Longrightarrow> \<not> bit s 63 \<Longrightarrow> j - 15 \<in> keyset_functionalities s"
proof -
  assume a: "16 \<le> j" "bit s j" "\<not> bit s 63"
  have "j \<noteq> 63" "j < 64" using a bit_u64_lt by auto
  then have "j - 15 < 48" using a by linarith
  then show ?thesis using a by (simp add: keyset_functionalities_def)
qed

lemma highestFunctionalityKey_empty:
  assumes "keyset_functionalities s = {}" "\<not> bit s 63"
  shows "highestFunctionalityKey s = 0"
proof (cases rule: indexOfHighestBit_cases [of s])
  case 1
  then show ?thesis by (simp add: highestFunctionalityKey_def)
next
  case (2 h)
  have "h < 16" using functionality_bit [of h s] 2(1) assms by (metis empty_iff not_le)
  then show ?thesis using 2 by (simp add: highestFunctionalityKey_def Let_def)
qed

lemma highestFunctionalityKey_eq:
  assumes "f \<in> keyset_functionalities s" "\<And>g. g \<in> keyset_functionalities s \<Longrightarrow> g \<le> f" "\<not> bit s 63"
  shows "highestFunctionalityKey s = f"
proof -
  have f: "0 < f" "f < 48" "bit s (15 + f)" using assms(1) by (auto simp: keyset_functionalities_def)
  have "\<not> bit s j" if "15 + f < j" for j
  proof
    assume "bit s j"
    then have "j - 15 \<in> keyset_functionalities s"
      using functionality_bit [of j s] that f(1) assms(3) by auto
    then show False using assms(2) that by fastforce
  qed
  then have "indexOfHighestBit s = Suc (15 + f)" using f(3) by (intro indexOfHighestBit_eq) auto
  then show ?thesis using f(1) by (simp add: highestFunctionalityKey_def Let_def)
qed

lemma bit_backends: "bit (s AND full_backend_mask) i \<longleftrightarrow> Suc i \<in> keyset_backends s"
  by (auto simp: bit_simps keyset_backends_def)

lemma highestBackendKey_empty:
  assumes "keyset_backends s = {}"
  shows "highestBackendKey s = 0"
proof -
  have "s AND full_backend_mask = 0" using assms bit_backends [of s] by (intro bit_eqI) simp
  then show ?thesis by (simp add: highestBackendKey_def)
qed

lemma highestBackendKey_eq:
  assumes "b \<in> keyset_backends s" "\<And>c. c \<in> keyset_backends s \<Longrightarrow> c \<le> b"
  shows "highestBackendKey s = b"
proof -
  have b: "0 < b" using assms(1) by (simp add: keyset_backends_def)
  have "indexOfHighestBit (s AND full_backend_mask) = Suc (b - 1)"
  proof (rule indexOfHighestBit_eq)
    show "bit (s AND full_backend_mask) (b - 1)" using assms(1) b by (simp add: bit_backends)
    show "\<not> bit (s AND full_backend_mask) j" if "b - 1 < j" for j
      unfolding bit_backends using assms(2) [of "Suc j"] that by auto
  qed
  then show ?thesis using b by (simp add: highestBackendKey_def)
qed

lemma finite_keyset_parts: "finite (keyset_functionalities s)" "finite (keyset_backends s)"
  by (auto simp: keyset_functionalities_def keyset_backends_def)

lemma highestFunctionalityKey_Max:
  "keyset_functionalities s \<noteq> {} \<Longrightarrow> \<not> bit s 63 \<Longrightarrow>
   highestFunctionalityKey s = Max (keyset_functionalities s)"
  by (rule highestFunctionalityKey_eq) (auto simp: finite_keyset_parts)

lemma highestBackendKey_Max:
  "keyset_backends s \<noteq> {} \<Longrightarrow> highestBackendKey s = Max (keyset_backends s)"
  by (rule highestBackendKey_eq) (auto simp: finite_keyset_parts)

lemma highestBackendKey_le: "highestBackendKey s \<le> 16"
proof (cases "keyset_backends s = {}")
  case True
  then show ?thesis by (simp add: highestBackendKey_empty)
next
  case False
  then have "Max (keyset_backends s) \<in> keyset_backends s"
    using Max_in finite_keyset_parts(2) by blast
  then show ?thesis using highestBackendKey_Max [OF False] by (auto simp: keyset_backends_def)
qed



end
