(* ===== verification/DispatchTable.thy ===== *)
theory DispatchTable
  imports DispatchKeySets
begin

text \<open>
  The operator dispatch table: the slots computed by
  \<open>initializeFunctionalityOffsetsAndMasks\<close> and the hot path
  \<open>getDispatchTableIndexForDispatchKeySet\<close> against the highest priority key.
\<close>

section \<open>Dispatch table slots\<close>

definition table_offset :: "DispatchKey \<Rightarrow> nat" where
  "table_offset f = f + 15 * length (filter isPerBackendFunctionalityKey [0..<f])"

definition table_slot :: "DispatchKey \<Rightarrow> nat" where
  "table_slot k = table_offset (toFunctionalityKey k) + (toBackendComponent k - 1)"

lemma offsets_and_masks_eq:
  "initializeFunctionalityOffsetsAndMasks =
     Inr (map (\<lambda>f. \<lparr> offset = table_offset f,
                      omask = (if isPerBackendFunctionalityKey f then full_backend_mask else 0) \<rparr>)
            [0..<48])"
  by code_simp

lemma highestFunctionalityKey_drop:
  assumes "\<not> bit s 63"
  shows "indexOfHighestBit (drop_bit 16 s) = highestFunctionalityKey s"
proof (cases "keyset_functionalities s = {}")
  case True
  then have "drop_bit 16 s = 0"
    using functionality_bit [of "16 + n" s for n] assms by (intro bit_eqI) (simp add: bit_simps, blast)
  then show ?thesis using highestFunctionalityKey_empty [OF True assms] by simp
next
  case False
  let ?f = "Max (keyset_functionalities s)"
  have fF: "?f \<in> keyset_functionalities s" using False by (simp add: finite_keyset_parts)
  then have f: "0 < ?f" "bit s (15 + ?f)" by (auto simp: keyset_functionalities_def)
  have "indexOfHighestBit (drop_bit 16 s) = Suc (?f - 1)"
  proof (rule indexOfHighestBit_eq)
    show "bit (drop_bit 16 s) (?f - 1)" using f by (simp add: bit_simps)
    show "\<not> bit (drop_bit 16 s) j" if "?f - 1 < j" for j
    proof
      assume "bit (drop_bit 16 s) j"
      then have "16 + j - 15 \<in> keyset_functionalities s"
        using assms by (intro functionality_bit) (auto simp: bit_simps)
      then have "16 + j - 15 \<le> ?f" by (simp add: finite_keyset_parts)
      then show False using that by simp
    qed
  qed
  then show ?thesis using highestFunctionalityKey_Max [OF False assms] f(1) by simp
qed

lemma highestBackendKey_drop:
  "indexOfHighestBit (drop_bit 1 (s AND full_backend_mask)) = highestBackendKey s - 1"
proof -
  have b: "bit (drop_bit 1 (s AND full_backend_mask)) i \<longleftrightarrow> Suc (Suc i) \<in> keyset_backends s" for i
    using bit_backends [of s "Suc i"] by (simp add: bit_simps)
  show ?thesis
  proof (cases "highestBackendKey s \<le> 1")
    case True
    have "\<not> Suc (Suc i) \<in> keyset_backends s" for i
    proof
      assume a: "Suc (Suc i) \<in> keyset_backends s"
      then have "Suc (Suc i) \<le> Max (keyset_backends s)" by (simp add: finite_keyset_parts)
      then show False using highestBackendKey_Max [of s] a True by auto
    qed
    then have "drop_bit 1 (s AND full_backend_mask) = 0" using b by (intro bit_eqI) simp
    then show ?thesis using True by simp
  next
    case False
    let ?b = "highestBackendKey s"
    have ne: "keyset_backends s \<noteq> {}" using False highestBackendKey_empty [of s] by auto
    then have bm: "?b = Max (keyset_backends s)" by (rule highestBackendKey_Max)
    then have bin: "?b \<in> keyset_backends s" using ne by (simp add: finite_keyset_parts)
    have "indexOfHighestBit (drop_bit 1 (s AND full_backend_mask)) = Suc (?b - 2)"
    proof (rule indexOfHighestBit_eq)
      have "Suc (Suc (?b - 2)) = ?b" using False by linarith
      then show "bit (drop_bit 1 (s AND full_backend_mask)) (?b - 2)" unfolding b using bin by simp
      show "\<not> bit (drop_bit 1 (s AND full_backend_mask)) j" if "?b - 2 < j" for j
      proof
        assume "bit (drop_bit 1 (s AND full_backend_mask)) j"
        then have "Suc (Suc j) \<le> Max (keyset_backends s)" unfolding b by (simp add: finite_keyset_parts)
        then show False using bm that by linarith
      qed
    qed
    then show ?thesis using False by simp
  qed
qed

lemma highestFunctionalityKey_less: "\<not> bit s 63 \<Longrightarrow> highestFunctionalityKey s < 48"
proof (cases "keyset_functionalities s = {}")
  case False
  assume n: "\<not> bit s 63"
  have "Max (keyset_functionalities s) \<in> keyset_functionalities s"
    using False by (simp add: finite_keyset_parts)
  then show ?thesis using highestFunctionalityKey_Max [OF False n]
    by (auto simp: keyset_functionalities_def)
qed (simp add: highestFunctionalityKey_empty)

lemma getDispatchTableIndex_formula:
  assumes "initializeFunctionalityOffsetsAndMasks = Inr arr" "\<not> bit s 63"
  shows "getDispatchTableIndexForDispatchKeySet arr s =
    Some (table_offset (highestFunctionalityKey s) +
      (if isPerBackendFunctionalityKey (highestFunctionalityKey s) then highestBackendKey s - 1 else 0))"
proof -
  have arr: "arr = map (\<lambda>f. \<lparr> offset = table_offset f,
      omask = (if isPerBackendFunctionalityKey f then full_backend_mask else 0) \<rparr>) [0..<48]"
    using assms(1) by (simp add: offsets_and_masks_eq)
  have less: "highestFunctionalityKey s < length arr"
    using highestFunctionalityKey_less [OF assms(2)] by (simp add: arr)
  then show ?thesis
    using highestFunctionalityKey_drop [OF assms(2)] highestBackendKey_drop [of s]
    by (simp add: getDispatchTableIndexForDispatchKeySet_def Let_def arr del: upt_rec_numeral)
qed

lemma highestPriority_parts:
  assumes "\<not> bit s 63"
  shows "toFunctionalityKey (highestPriorityTypeId s) = highestFunctionalityKey s \<and>
    toBackendComponent (highestPriorityTypeId s) =
     (if isPerBackendFunctionalityKey (highestFunctionalityKey s) then highestBackendKey s else 0)"
  using highestFunctionalityKey_less [OF assms] highestBackendKey_le [of s]
  by (auto simp: highestPriorityTypeId_def Let_def)
    (simp_all add: toFunctionalityKey_def toBackendComponent_def)

lemma DispatchKeySet_of_parts:
  assumes "k \<le> EndOfRuntimeBackendKeys" "k \<noteq> 48"
  shows "\<not> bit (DispatchKeySet_of k) 63 \<and>
    highestFunctionalityKey (DispatchKeySet_of k) = toFunctionalityKey k \<and>
    highestBackendKey (DispatchKeySet_of k) = toBackendComponent k"
proof -
  have b16: "toBackendComponent k \<le> 16" by (auto simp: toBackendComponent_def)
  have f48: "toFunctionalityKey k < 48"
    using assms runtime_key_join [of k] perBackend_less by (cases "k < 48") (auto simp: toFunctionalityKey_def [of k])
  have n63: "\<not> bit (DispatchKeySet_of k) 63"
    using b16 f48 by (auto simp: bit_DispatchKeySet_of)
  have f0: "k \<noteq> 0 \<Longrightarrow> 0 < toFunctionalityKey k"
    using assms runtime_key_join [of k] perBackend_less by (cases "k < 48") (auto simp: toFunctionalityKey_def [of k])
  have b0: "0 < toBackendComponent k \<Longrightarrow> 0 < k"
    by (cases "k = 0") (auto simp: toBackendComponent_def)
  have F: "keyset_functionalities (DispatchKeySet_of k) = (if k = 0 then {} else {toFunctionalityKey k})"
    using assms b16 f48 f0 by (auto simp: keyset_functionalities_def bit_DispatchKeySet_of)
  have B: "keyset_backends (DispatchKeySet_of k) =
      (if toBackendComponent k = 0 then {} else {toBackendComponent k})"
    using assms b16 f0 b0
    by (auto simp: keyset_backends_def bit_DispatchKeySet_of)
  have "highestFunctionalityKey (DispatchKeySet_of k) = toFunctionalityKey k"
    using highestFunctionalityKey_Max [OF _ n63] highestFunctionalityKey_empty [OF _ n63] F
    by (cases "k = 0") (auto simp: toFunctionalityKey_def)
  moreover have "highestBackendKey (DispatchKeySet_of k) = toBackendComponent k"
    using highestBackendKey_Max [of "DispatchKeySet_of k"] highestBackendKey_empty B
    by (cases "toBackendComponent k = 0") auto
  ultimately show ?thesis using n63 by blast
qed

lemma highestPriority_range:
  "\<not> bit s 63 \<Longrightarrow> highestPriorityTypeId s \<le> EndOfRuntimeBackendKeys \<and> highestPriorityTypeId s \<noteq> 48"
  using highestFunctionalityKey_less [of s] toRuntime_range [of "highestFunctionalityKey s" "highestBackendKey s"]
    highestBackendKey_le [of s]
  by (auto simp: highestPriorityTypeId_def Let_def)

text \<open>C2: the hot path \<open>getDispatchTableIndexForDispatchKeySet\<close>
  computes, with two bit scans and a table lookup, exactly the table slot of the highest priority
  key of the set, and the array access is always in bounds.\<close>

theorem table_index_of_highest:
  assumes "initializeFunctionalityOffsetsAndMasks = Inr arr" "\<not> bit s 63"
  shows "getDispatchTableIndexForDispatchKeySet arr s =
           getDispatchTableIndexForDispatchKeySet arr (DispatchKeySet_of (highestPriorityTypeId s))
    \<and> getDispatchTableIndexForDispatchKeySet arr s = Some (table_slot (highestPriorityTypeId s))"
proof -
  let ?h = "highestPriorityTypeId s"
  note parts = DispatchKeySet_of_parts [of ?h] highestPriority_range [OF assms(2)]
  show ?thesis
    using getDispatchTableIndex_formula [OF assms]
      getDispatchTableIndex_formula [OF assms(1), of "DispatchKeySet_of ?h"] parts
      highestPriority_parts [OF assms(2)]
    by (auto simp: table_slot_def)
qed

theorem table_index_of_highest_witness:
  "\<exists>arr. initializeFunctionalityOffsetsAndMasks = Inr arr \<and>
     getDispatchTableIndexForDispatchKeySet arr (DispatchKeySet_of DispatchKey_CPU) =
     Some (table_slot (highestPriorityTypeId (DispatchKeySet_of DispatchKey_CPU)))"
proof -
  have "\<not> bit (DispatchKeySet_of DispatchKey_CPU) 63"
    by (simp add: bit_DispatchKeySet_of key_defs)
  then show ?thesis
    using table_index_of_highest [OF offsets_and_masks_eq] offsets_and_masks_eq by blast
qed

lemma table_offset_simps:
  "table_offset 0 = 0"
  "table_offset (Suc 0) = 1"
  "table_offset 2 = 17"
  "table_offset 3 = 18"
  "table_offset 4 = 19"
  "table_offset 5 = 20"
  "table_offset 6 = 36"
  "table_offset 7 = 37"
  "table_offset 8 = 38"
  "table_offset 9 = 54"
  "table_offset 10 = 70"
  "table_offset 11 = 86"
  "table_offset 12 = 87"
  "table_offset 13 = 88"
  "table_offset 14 = 89"
  "table_offset 15 = 90"
  "table_offset 16 = 91"
  "table_offset 17 = 92"
  "table_offset 18 = 93"
  "table_offset 19 = 94"
  "table_offset 20 = 95"
  "table_offset 21 = 96"
  "table_offset 22 = 97"
  "table_offset 23 = 113"
  "table_offset 24 = 114"
  "table_offset 25 = 115"
  "table_offset 26 = 116"
  "table_offset 27 = 117"
  "table_offset 28 = 118"
  "table_offset 29 = 119"
  "table_offset 30 = 120"
  "table_offset 31 = 121"
  "table_offset 32 = 122"
  "table_offset 33 = 123"
  "table_offset 34 = 124"
  "table_offset 35 = 125"
  "table_offset 36 = 126"
  "table_offset 37 = 127"
  "table_offset 38 = 128"
  "table_offset 39 = 129"
  "table_offset 40 = 130"
  "table_offset 41 = 131"
  "table_offset 42 = 132"
  "table_offset 43 = 133"
  "table_offset 44 = 134"
  "table_offset 45 = 135"
  "table_offset 46 = 136"
  "table_offset 47 = 137"
  by (simp_all add: table_offset_def upt_rec isPerBackendFunctionalityKey_def)

definition runtime_key_list :: "DispatchKey list" where
  "runtime_key_list =
     [50, 51, 52, 53, 54, 55, 56, 57, 58, 59, 60, 61, 62, 63, 64, 65, 2, 3, 4, 67, 68, 69, 70, 71, 72, 73, 74, 75, 76, 77, 78, 79, 80, 81, 82, 6, 7, 84, 85, 86, 87, 88, 89, 90, 91, 92, 93, 94, 95, 96, 97, 98, 99, 101, 102, 103, 104, 105, 106, 107, 108, 109, 110, 111, 112, 113, 114, 115, 116, 118, 119, 120, 121, 122, 123, 124, 125, 126, 127, 128, 129, 130, 131, 132, 133, 11, 12, 13, 14, 15, 16, 17, 18, 19, 20, 21, 135, 136, 137, 138, 139, 140, 141, 142, 143, 144, 145, 146, 147, 148, 149, 150, 23, 24, 25, 26, 27, 28, 29, 30, 31, 32, 33, 34, 35, 36, 37, 38, 39, 40, 41, 42, 43, 44, 45, 46, 47]"

lemma runtime_key_list_slots: "map table_slot runtime_key_list = [1..<138]"
  by (simp add: runtime_key_list_def table_slot_def toFunctionalityKey_def toBackendComponent_def
      table_offset_simps upt_rec)

lemma runtime_key_list_runtime: "\<forall>k \<in> set runtime_key_list. isRuntimeKey k"
  by (simp add: runtime_key_list_def isRuntimeKey_def isPerBackendFunctionalityKey_def
      toBackendComponent_def)

lemma length_runtime_keys: "length (filter isRuntimeKey [0..<151]) = 137"
  by (simp add: isRuntimeKey_def isPerBackendFunctionalityKey_def toBackendComponent_def upt_rec)

lemma set_runtime_key_list: "set runtime_key_list = {k. isRuntimeKey k}"
proof (rule card_subset_eq)
  have runtime: "{k. isRuntimeKey k} = set (filter isRuntimeKey [0..<151])"
    using isRuntimeKey_less by fastforce
  have "distinct runtime_key_list"
    using runtime_key_list_slots distinct_upt by (metis distinct_map)
  moreover have "length runtime_key_list = 137"
    using arg_cong [OF runtime_key_list_slots, of length] by (simp del: upt_rec_numeral)
  ultimately have "card (set runtime_key_list) = 137" by (simp add: distinct_card)
  moreover have "card {k. isRuntimeKey k} = 137"
    using distinct_card [of "filter isRuntimeKey [0..<151]"] length_runtime_keys
    by (simp add: runtime del: upt_rec_numeral)
  ultimately show "card (set runtime_key_list) = card {k. isRuntimeKey k}" by simp
  show "finite {k. isRuntimeKey k}" unfolding runtime by (rule finite_set)
  show "set runtime_key_list \<subseteq> {k. isRuntimeKey k}" using runtime_key_list_runtime by blast
qed

text \<open>Property: the runtime keys and the slots
  \<open>1 .. num_runtime_entries - 1\<close> of an operator's dispatch table correspond one to one; slot 0
  belongs to \<open>Undefined\<close>.\<close>

theorem table_slots_bijective:
  "bij_betw table_slot {k. isRuntimeKey k} {1..<num_runtime_entries} \<and> table_slot DispatchKey_Undefined = 0"
proof -
  have "inj_on table_slot (set runtime_key_list)"
    using runtime_key_list_slots distinct_upt by (metis distinct_map)
  moreover have "table_slot ` set runtime_key_list = {1..<num_runtime_entries}"
    using arg_cong [OF runtime_key_list_slots, of set] by (simp del: upt_rec_numeral)
  ultimately show ?thesis
    by (simp add: bij_betw_def set_runtime_key_list table_slot_def toFunctionalityKey_def
        toBackendComponent_def table_offset_def)
qed

end
