(* ===== verification/DispatchAlias.thy ===== *)
theory DispatchAlias
  imports DispatchTable
begin

text \<open>
  Alias keys and autograd keys: the membership test \<open>runtimeDispatchKeySetHas\<close> against the set
  \<open>getRuntimeDispatchKeySet\<close>, the backend and autograd key correspondence, and the printing and
  parsing of keys.
\<close>

section \<open>Alias resolution\<close>

lemma bit_keys_to_repr: "bit (keys_to_repr ks) i \<longleftrightarrow> (\<exists>k \<in> set ks. bit (DispatchKeySet_of k) i)"
proof -
  have "bit (fold (\<lambda>k repr. repr OR DispatchKeySet_of k) ks r) i \<longleftrightarrow>
      bit r i \<or> (\<exists>k \<in> set ks. bit (DispatchKeySet_of k) i)" for r
    by (induction ks arbitrary: r) (auto simp: bit_simps)
  then show ?thesis by (simp add: keys_to_repr_def)
qed

lemma bit_functionality_key:
  "0 < f \<Longrightarrow> f \<le> 48 \<Longrightarrow> bit (DispatchKeySet_of f) i \<longleftrightarrow> i = 15 + f"
  by (simp add: bit_DispatchKeySet_of toFunctionalityKey_def toBackendComponent_def)

lemmas alias_keyset_defs =
  autograd_dispatch_keyset_def autogradother_backends_def backend_dispatch_keyset_def
  non_functional_backend_dispatch_keyset_def math_dispatch_keyset_def nested_dispatch_keyset_def
  functorch_batched_dispatch_keyset_def keyset_union_def

lemma bit_alias_keysets:
  "bit autograd_dispatch_keyset i \<longleftrightarrow> i = 37 \<or> i = 36 \<or> i = 38"
  "bit backend_dispatch_keyset i \<longleftrightarrow>
     i < 16 \<or> i = 16 \<or> i = 17 \<or> i = 18 \<or> i = 19 \<or> i = 20 \<or> i = 21 \<or> i = 22 \<or> i = 23 \<or> i = 24"
  "bit functorch_batched_dispatch_keyset i \<longleftrightarrow> i = 50"
  by (auto simp: alias_keyset_defs bit_simps bit_keys_to_repr bit_functionality_key)

lemma runtime_key_eqI:
  assumes "isRuntimeKey k" "isRuntimeKey t" "toFunctionalityKey k = toFunctionalityKey t"
    "toBackendComponent k = toBackendComponent t"
  shows "k = t"
  using assms runtime_key_join [of k] runtime_key_join [of t]
  by (cases "k < 48"; cases "t < 48") (auto simp: isRuntimeKey_def toFunctionalityKey_def)

lemma has_DispatchKeySet_of:
  assumes "isRuntimeKey k" "isRuntimeKey t"
  shows "has (DispatchKeySet_of t) k \<longleftrightarrow> t = k"
proof
  note fk = isRuntimeKey_functionality [OF assms(1)] and ft = isRuntimeKey_functionality [OF assms(2)]
  have b: "toBackendComponent x \<le> 16" for x by (auto simp: toBackendComponent_def)
  assume h: "has (DispatchKeySet_of t) k"
  then have "bit (DispatchKeySet_of t) (15 + toFunctionalityKey k)"
    using isRuntimeKey_less [OF assms(1)] by (simp add: has_iff_bits)
  then have f: "toFunctionalityKey k = toFunctionalityKey t"
    using fk b [of t] by (auto simp: bit_DispatchKeySet_of)
  have "toBackendComponent k = toBackendComponent t"
  proof (cases "toBackendComponent k = 0")
    case True
    then have "\<not> isPerBackendFunctionalityKey (toFunctionalityKey t)"
      using assms(1) f by (auto simp: isRuntimeKey_def toFunctionalityKey_def [of k])
    then have "t < 48" using assms(2) runtime_key_join [of t] by (auto simp: isRuntimeKey_def)
    then show ?thesis using True by (simp add: toBackendComponent_def [of t])
  next
    case False
    then have "bit (DispatchKeySet_of t) (toBackendComponent k - 1)"
      using h isRuntimeKey_less [OF assms(1)] by (simp add: has_iff_bits)
    then show ?thesis using False ft b [of k] by (auto simp: bit_DispatchKeySet_of)
  qed
  then show "t = k" using runtime_key_eqI [OF assms(2,1)] f by simp
next
  assume "t = k"
  then show "has (DispatchKeySet_of t) k"
    using isRuntimeKey_less [OF assms(2)] by (simp add: has_iff_bits bit_DispatchKeySet_of)
qed

lemma runtime_set_membership:
  assumes "isRuntimeKey k" "isRuntimeKey t \<or> isAliasDispatchKey t \<or> t = DispatchKey_Undefined"
  shows "runtimeDispatchKeySetHas t k = bindE (getRuntimeDispatchKeySet t) (\<lambda>ks. Inr (has ks k))"
proof -
  note f = isRuntimeKey_functionality [OF assms(1)] and r = isRuntimeKey_less [OF assms(1)]
  have b: "toBackendComponent k \<le> 16" by (auto simp: toBackendComponent_def)
  have ff: "toFunctionalityKey (toFunctionalityKey k) = toFunctionalityKey k"
      "toBackendComponent (toFunctionalityKey k) = 0"
    using f by (simp_all add: toFunctionalityKey_def [of "toFunctionalityKey k"] toBackendComponent_def)
  have nested: "has backend_dispatch_keyset k \<Longrightarrow> k \<noteq> 10"
    "has non_functional_backend_dispatch_keyset k \<Longrightarrow> k \<noteq> 10"
    using assms(1) by (auto simp: isRuntimeKey_def isPerBackendFunctionalityKey_def)
  have autograd: "has (autograd_dispatch_keyset OR full_backend_mask) k =
      has autograd_dispatch_keyset (toFunctionalityKey k)"
    using f r b ff by (auto simp: has_iff_bits bit_simps)
  have batched: "keys_to_repr [35] = DispatchKeySet_of 35"
    by (simp add: keys_to_repr_def)
  consider "isRuntimeKey t" | "t = 0" | "t = 151" | "t = 152" | "t = 153" | "t = 154" | "t = 155" | "t = 156"
    using assms(2) by (auto simp: isAliasDispatchKey_def numeral_eq_Suc le_Suc_eq)
  then show ?thesis
  proof cases
    case 1
    then have "0 < t" "t \<le> 150" using isRuntimeKey_less by auto
    then show ?thesis using has_DispatchKeySet_of [OF assms(1) 1]
      by (simp add: runtimeDispatchKeySetHas_def getRuntimeDispatchKeySet_def)
  qed (use nested autograd batched in \<open>auto simp: runtimeDispatchKeySetHas_def
      getRuntimeDispatchKeySet_def keyset_union_def functorch_batched_dispatch_keyset_def\<close>)
qed

text \<open>Property: for every alias key and every runtime key \<open>t\<close>, the fast
  membership test \<open>runtimeDispatchKeySetHas(t, k)\<close> agrees with membership in the key set
  \<open>getRuntimeDispatchKeySet(t)\<close> on all runtime keys \<open>k\<close>; both refuse \<open>Undefined\<close>.\<close>

theorem alias_membership:
  assumes "isRuntimeKey k" "isRuntimeKey t \<or> isAliasDispatchKey t \<or> t = DispatchKey_Undefined"
  shows "runtimeDispatchKeySetHas t k = bindE (getRuntimeDispatchKeySet t) (\<lambda>ks. Inr (has ks k))"
  using assms by (rule runtime_set_membership)

theorem alias_membership_witness:
  "runtimeDispatchKeySetHas DispatchKey_Autograd DispatchKey_AutogradCPU =
     bindE (getRuntimeDispatchKeySet DispatchKey_Autograd) (\<lambda>ks. Inr (has ks DispatchKey_AutogradCPU))"
proof -
  have "isRuntimeKey DispatchKey_AutogradCPU" by (simp add: isRuntimeKey_def toBackendComponent_def)
  moreover have "isAliasDispatchKey DispatchKey_Autograd" by (simp add: isAliasDispatchKey_def)
  ultimately show ?thesis by (intro alias_membership) auto
qed

section \<open>Autograd keys and backends\<close>

lemma highestPriority_with_ADInplaceOrView:
  assumes "isRuntimeKey ak" "20 < toFunctionalityKey ak"
  shows "highestPriorityTypeId (keyset_union (DispatchKeySet_of DispatchKey_ADInplaceOrView)
    (DispatchKeySet_of ak)) = ak"
proof -
  let ?s = "keyset_union (DispatchKeySet_of 20) (DispatchKeySet_of ak)"
  let ?f = "toFunctionalityKey ak" and ?b = "toBackendComponent ak"
  note f = isRuntimeKey_functionality [OF assms(1)] and r = isRuntimeKey_less [OF assms(1)]
  have b16: "?b \<le> 16" by (auto simp: toBackendComponent_def)
  have bits: "bit ?s i \<longleftrightarrow> i = 35 \<or> i = 15 + ?f \<or> 0 < ?b \<and> i = ?b - 1" for i
    using r by (auto simp: keyset_union_def bit_simps bit_functionality_key bit_DispatchKeySet_of [of ak])
  have n63: "\<not> bit ?s 63" using f b16 by (auto simp: bits)
  have hf: "highestFunctionalityKey ?s = ?f"
    by (rule highestFunctionalityKey_eq)
      (use f b16 assms(2) n63 in \<open>auto simp: keyset_functionalities_def bits\<close>)
  have B: "keyset_backends ?s = (if ?b = 0 then {} else {?b})"
    using f b16 assms(2) by (auto simp: keyset_backends_def bits)
  then have hb: "highestBackendKey ?s = ?b"
    using highestBackendKey_empty [of ?s] highestBackendKey_eq [of ?b ?s] by (cases "?b = 0") auto
  show ?thesis
  proof (cases "48 < ak")
    case True
    then show ?thesis using hf hb runtime_key_join [of ak] r
      by (simp add: highestPriorityTypeId_def)
  next
    case False
    then have "ak < 48" "\<not> isPerBackendFunctionalityKey ak" "?f = ak"
      using assms(1) by (auto simp: isRuntimeKey_def toFunctionalityKey_def)
    then show ?thesis using hf by (simp add: highestPriorityTypeId_def)
  qed
qed

lemma autograd_key_props:
  "k = 21 \<or> k \<in> {135..150} \<Longrightarrow> isRuntimeKey k \<and> 20 < toFunctionalityKey k"
  by (auto simp: isRuntimeKey_def key_defs)

lemma backend_range:
  "(b::nat) \<in> {1..16} \<longleftrightarrow> b \<in> {1, 2, 3, 4, 5, 6, 7, 8, 9, 10, 11, 12, 13, 14, 15, 16}"
  by auto presburger

lemma getAutogradKeyFromBackend_eq:
  "getAutogradKeyFromBackend b =
     (if b \<in> {1..16} - {BackendComponent_HIPBit, BackendComponent_VEBit}
      then toRuntimePerBackendFunctionalityKey DispatchKey_AutogradFunctionality b
      else DispatchKey_AutogradOther)"
proof -
  have "getAutogradRelatedKeySetFromBackend b =
    keyset_union (DispatchKeySet_of 20) (DispatchKeySet_of
      (if b \<in> {1..16} - {3, 9} then 134 + b else 21))"
    using backend_range [of b] by (auto simp: getAutogradRelatedKeySetFromBackend_def)
  then show ?thesis
    using highestPriority_with_ADInplaceOrView [of "if b \<in> {1..16} - {3, 9} then 134 + b else 21"]
      autograd_key_props [of "if b \<in> {1..16} - {3, 9} then 134 + b else 21"]
    by (auto simp: getAutogradKeyFromBackend_def toRuntimePerBackendFunctionalityKey_def)
qed

lemma has_backend_iff: "0 < b \<Longrightarrow> b \<le> 16 \<Longrightarrow> has_backend s b \<longleftrightarrow> bit s (b - 1)"
  by (auto simp: has_backend_def has_all_iff bit_DispatchKeySet_backend)

text \<open>Property: from a backend to its autograd key and back to the
  backend key set: the backend is in the resulting set, and the autograd key computed is a runtime
  key. The exception is MTIA: its autograd key has an empty backend set, although the comment on
  \<open>getBackendKeySetFromAutograd\<close> promises a nonempty one for every autograd key.\<close>

theorem autograd_backend_inverse:
  "(\<forall>b \<in> {1..16}. isRuntimeKey (getAutogradKeyFromBackend b) \<and>
      (has_backend (getBackendKeySetFromAutograd (getAutogradKeyFromBackend b)) b \<longleftrightarrow>
       b \<noteq> BackendComponent_MTIABit))
   \<and> getAutogradKeyFromBackend BackendComponent_MTIABit = DispatchKey_AutogradMTIA
   \<and> getBackendKeySetFromAutograd DispatchKey_AutogradMTIA = 0"
proof -
  have rk: "isRuntimeKey (getAutogradKeyFromBackend b)" if "b \<in> {1..16}" for b
    using that autograd_key_props [of "if b \<in> {3, 9} then 21 else 134 + b"]
    by (auto simp: getAutogradKeyFromBackend_eq toRuntimePerBackendFunctionalityKey_def)
  have bit: "bit (getBackendKeySetFromAutograd (134 + b)) (b - 1) \<longleftrightarrow> b \<noteq> 11"
    if "b \<in> {1..16} - {3, 9}" for b
  proof -
    have "bit (DispatchKeySet_of (49 + b)) (b - 1)"
      using that by (simp add: bit_DispatchKeySet_of toBackendComponent_def)
    then show ?thesis using that
      by (auto simp: getBackendKeySetFromAutograd_def eval_nat_numeral le_Suc_eq)
  qed
  have "bit autogradother_backends (b - 1)" if "b \<in> {3, 9}" for b
    using that by (auto simp: autogradother_backends_def keyset_union_def bit_simps)
  then have "has_backend (getBackendKeySetFromAutograd (getAutogradKeyFromBackend b)) b \<longleftrightarrow> b \<noteq> 11"
    if "b \<in> {1..16}" for b
    using that bit [of b]
    by (auto simp: has_backend_iff getAutogradKeyFromBackend_eq toRuntimePerBackendFunctionalityKey_def
        getBackendKeySetFromAutograd_def [of 21])
  then show ?thesis using rk
    by (auto simp: getAutogradKeyFromBackend_eq toRuntimePerBackendFunctionalityKey_def
        getBackendKeySetFromAutograd_def)
qed

theorem autograd_backend_inverse_witness:
  "isRuntimeKey (getAutogradKeyFromBackend BackendComponent_CPUBit) \<and>
   has_backend (getBackendKeySetFromAutograd (getAutogradKeyFromBackend BackendComponent_CPUBit))
     BackendComponent_CPUBit"
  using autograd_backend_inverse by auto

end
