(* ===== verification/DispatchIteration.thy ===== *)
theory DispatchIteration
  imports DispatchKeySets
begin

text \<open>
  Correctness of \<open>DispatchKeySet::iterator\<close>: the keys visited by a range-based \<open>for\<close> over
  a key set are exactly its runtime keys, in order.
\<close>

section \<open>Iteration over a key set\<close>

text \<open>The keys of functionality \<open>f\<close> above backend \<open>nb\<close>, and all keys from functionality bit
  \<open>nf\<close> on, in the order of the iterator.\<close>

definition functionality_instances :: "DispatchKeySet \<Rightarrow> nat \<Rightarrow> DispatchKey \<Rightarrow> DispatchKey list" where
  "functionality_instances s nb f =
     (if isPerBackendFunctionalityKey f
      then map (toRuntimePerBackendFunctionalityKey f) (filter (\<lambda>b. bit s (b - 1)) [Suc nb..<17])
      else [f])"

definition functionality_bits :: "DispatchKeySet \<Rightarrow> nat \<Rightarrow> nat list" where
  "functionality_bits s nf = filter (bit s) [nf..<63]"

definition remaining_keys :: "DispatchKeySet \<Rightarrow> nat \<Rightarrow> nat \<Rightarrow> DispatchKey list" where
  "remaining_keys s nf nb =
     (case functionality_bits s nf of
        [] \<Rightarrow> []
      | j # js \<Rightarrow> functionality_instances s nb (j - 15) @
                  concat (map (\<lambda>j. functionality_instances s 0 (j - 15)) js))"

definition iter_inv :: "DispatchKeySet \<Rightarrow> iterator \<Rightarrow> bool" where
  "iter_inv s it \<longleftrightarrow>
     data_ptr it = s \<and> 16 \<le> next_functionality it \<and> next_functionality it \<le> 63 \<and>
     next_backend it \<le> 16 \<and>
     (next_backend it = 0 \<or>
      (\<exists>j js. functionality_bits s (next_functionality it) = j # js \<and>
         isPerBackendFunctionalityKey (j - 15) \<and> (\<exists>b. next_backend it \<le> b \<and> b < 16 \<and> bit s b)))"

definition end_state :: "DispatchKeySet \<Rightarrow> iterator" where
  "end_state s = \<lparr> data_ptr = s, next_functionality = 64, next_backend = 0,
     current_dispatchkey_idx = 48, current_backendcomponent_idx = 48 \<rparr>"

lemma findFirst_functionality_None:
  assumes "\<not> bit s 63" "nf \<le> 64"
  shows "findFirstSet (maskTrailingZeros nf AND s) = None \<longleftrightarrow> functionality_bits s nf = []"
proof -
  have lt: "n < 63" if "bit s n" for n
    using bit_u64_lt [OF that] that assms(1) by (cases "n = 63") auto
  have "maskTrailingZeros nf AND s = 0 \<longleftrightarrow> (\<forall>i. \<not> (nf \<le> i \<and> bit s i))"
    using assms(2) by (auto simp: bit_eq_iff bit_simps bit_maskTrailingZeros dest: bit_u64_lt)
  also have "\<dots> \<longleftrightarrow> (\<forall>i. nf \<le> i \<and> i < 63 \<longrightarrow> \<not> bit s i)" using lt by blast
  finally show ?thesis by (simp add: functionality_bits_def filter_upt_Nil findFirstSet_None)
qed

lemma findFirst_functionality_Some:
  assumes "functionality_bits s nf = j # js" "nf \<le> 64"
  shows "findFirstSet (maskTrailingZeros nf AND s) = Some j"
  using filter_upt_Cons [OF assms(1) [unfolded functionality_bits_def]] assms(2)
  by (auto simp: findFirstSet_Some_iff bit_simps bit_maskTrailingZeros)

lemma findFirst_backend_None:
  assumes "nb \<le> 16"
  shows "findFirstSet (maskTrailingZeros nb AND full_backend_mask AND s) = None \<longleftrightarrow>
    filter (\<lambda>b. bit s (b - 1)) [Suc nb..<17] = []"
proof -
  have "maskTrailingZeros nb AND full_backend_mask AND s = 0 \<longleftrightarrow> (\<forall>i. nb \<le> i \<and> i < 16 \<longrightarrow> \<not> bit s i)"
    using assms by (auto simp: bit_eq_iff bit_simps bit_maskTrailingZeros)
  also have "\<dots> \<longleftrightarrow> (\<forall>b. Suc nb \<le> b \<and> b < 17 \<longrightarrow> \<not> bit s (b - 1))"
    (is "?l \<longleftrightarrow> ?r")
  proof
    show ?r if ?l
    proof (intro allI impI)
      fix b
      assume "Suc nb \<le> b \<and> b < 17"
      then have "nb \<le> b - 1 \<and> b - 1 < 16" by linarith
      then show "\<not> bit s (b - 1)" using that by blast
    qed
    show ?l if ?r
    proof (intro allI impI)
      fix i
      assume "nb \<le> i \<and> i < 16"
      then show "\<not> bit s i" using that [rule_format, of "Suc i"] by simp
    qed
  qed
  finally show ?thesis by (simp add: filter_upt_Nil findFirstSet_None)
qed

lemma findFirst_backend_Some:
  assumes "filter (\<lambda>b. bit s (b - 1)) [Suc nb..<17] = b # bs" "nb \<le> 16"
  shows "findFirstSet (maskTrailingZeros nb AND full_backend_mask AND s) = Some (b - 1)"
proof -
  note c = filter_upt_Cons [OF assms(1)]
  have "\<not> bit s i" if "nb \<le> i" "i < b - 1" for i
    using c(4) [of "Suc i"] that by auto
  then show ?thesis using c(1,2,3) assms(2)
    by (auto simp: findFirstSet_Some_iff bit_simps bit_maskTrailingZeros)
qed


lemma functionality_bits_upd:
  assumes "functionality_bits s nf = j # js"
  shows "functionality_bits s (Suc j) = js" and "nf \<le> j" and "j < 63" and "bit s j"
  using filter_upt_Cons [OF assms [unfolded functionality_bits_def]]
  by (auto simp: functionality_bits_def)

lemma remaining_keys_Suc:
  assumes "functionality_bits s nf = j # js"
  shows "remaining_keys s (Suc j) 0 = concat (map (\<lambda>j. functionality_instances s 0 (j - 15)) js)"
  using functionality_bits_upd(1) [OF assms]
  by (cases js) (simp_all add: remaining_keys_def)

text \<open>One increment: at the end of the set the iterator becomes the end iterator, otherwise it
  points to the next key and the remaining keys lose their head.\<close>

lemma operator_inc_end:
  assumes "\<not> bit s 63" "iter_inv s it" "functionality_bits s (next_functionality it) = []"
  shows "operator_inc it = Inr (end_state s)"
proof -
  have "findFirstSet (maskTrailingZeros (next_functionality it) AND s) = None"
    using findFirst_functionality_None assms by (simp add: iter_inv_def)
  then show ?thesis using assms(2)
    by (simp add: operator_inc.simps [of it] iter_inv_def end_state_def end_iter_mask_val_def
        end_iter_key_val_def Let_def)
qed

lemma operator_inc_plain:
  assumes "\<not> bit s 63" "iter_inv s it" "functionality_bits s (next_functionality it) = j # js"
    "\<not> isPerBackendFunctionalityKey (j - 15)"
  shows "\<exists>it'. operator_inc it = Inr it' \<and> iter_inv s it' \<and> \<not> iterator_eq it' (end_state s) \<and>
    iterator_deref it' = Inr (j - 15) \<and>
    remaining_keys s (next_functionality it) (next_backend it) =
      (j - 15) # remaining_keys s (next_functionality it') (next_backend it')"
proof -
  note u = functionality_bits_upd [OF assms(3)]
  have nb: "next_backend it = 0" using assms by (auto simp: iter_inv_def)
  have inv: "data_ptr it = s" "16 \<le> next_functionality it" "next_functionality it \<le> 63"
    using assms(2) by (auto simp: iter_inv_def)
  let ?it = "it\<lparr> current_dispatchkey_idx := j - 15, next_functionality := Suc j \<rparr>"
  have "operator_inc it = Inr ?it"
    using findFirst_functionality_Some [OF assms(3)] inv nb assms(4)
    by (simp add: operator_inc.simps [of it] end_iter_mask_val_def Let_def)
  moreover have "iter_inv s ?it" using inv nb u by (simp add: iter_inv_def)
  moreover have "\<not> iterator_eq ?it (end_state s)" using u by (simp add: iterator_eq_def end_state_def)
  moreover have "iterator_deref ?it = Inr (j - 15)" using assms(4) by (simp add: iterator_deref_def)
  moreover have "remaining_keys s (next_functionality it) (next_backend it) =
      (j - 15) # remaining_keys s (next_functionality ?it) (next_backend ?it)"
    using assms(3,4) nb remaining_keys_Suc [OF assms(3)]
    by (simp add: remaining_keys_def [of s "next_functionality it"] functionality_instances_def)
  ultimately show ?thesis by blast
qed

lemma operator_inc_backend:
  assumes "\<not> bit s 63" "iter_inv s it" "functionality_bits s (next_functionality it) = j # js"
    "isPerBackendFunctionalityKey (j - 15)"
    "filter (\<lambda>b. bit s (b - 1)) [Suc (next_backend it)..<17] = b # bs"
  shows "\<exists>it'. operator_inc it = Inr it' \<and> iter_inv s it' \<and> \<not> iterator_eq it' (end_state s) \<and>
    iterator_deref it' = Inr (toRuntimePerBackendFunctionalityKey (j - 15) b) \<and>
    remaining_keys s (next_functionality it) (next_backend it) =
      toRuntimePerBackendFunctionalityKey (j - 15) b #
      remaining_keys s (next_functionality it') (next_backend it')"
proof -
  note u = functionality_bits_upd [OF assms(3)] and c = filter_upt_Cons [OF assms(5)]
  have inv: "data_ptr it = s" "16 \<le> next_functionality it" "next_functionality it \<le> 63"
      "next_backend it \<le> 16"
    using assms(2) by (auto simp: iter_inv_def)
  have b: "0 < b" "b \<le> 16" using c(1,2) by auto
  have j: "16 \<le> j" using u(2) inv by linarith
  let ?it1 = "it\<lparr> current_dispatchkey_idx := j - 15, current_backendcomponent_idx := b \<rparr>"
  let ?it = "if bs = [] then ?it1\<lparr> next_functionality := Suc j, next_backend := 0 \<rparr>
             else ?it1\<lparr> next_backend := b \<rparr>"
  have nxt: "findFirstSet (maskTrailingZeros b AND full_backend_mask AND s) = None \<longleftrightarrow> bs = []"
    using findFirst_backend_None [OF b(2)] c(5) by simp
  have inc: "operator_inc it = Inr ?it"
    using findFirst_functionality_Some [OF assms(3)] findFirst_backend_Some [OF assms(5)] inv assms(4) b nxt j
    by (auto simp: operator_inc.simps [of it] end_iter_mask_val_def Let_def Suc_diff_le split: option.split)
  have rem: "remaining_keys s (next_functionality it) (next_backend it) =
      toRuntimePerBackendFunctionalityKey (j - 15) b #
      map (toRuntimePerBackendFunctionalityKey (j - 15)) bs @
      concat (map (\<lambda>j. functionality_instances s 0 (j - 15)) js)"
    using assms(3,4,5) by (simp add: remaining_keys_def functionality_instances_def)
  have deref: "iterator_deref ?it = Inr (toRuntimePerBackendFunctionalityKey (j - 15) b)"
    using assms(4) b by (simp add: iterator_deref_def)
  have neq: "\<not> iterator_eq ?it (end_state s)"
    using inv u by (auto simp: iterator_eq_def end_state_def)
  show ?thesis
  proof (cases "bs = []")
    case True
    then have "iter_inv s ?it" using inv u by (simp add: iter_inv_def)
    moreover have "remaining_keys s (next_functionality ?it) (next_backend ?it) =
        concat (map (\<lambda>j. functionality_instances s 0 (j - 15)) js)"
      using True remaining_keys_Suc [OF assms(3)] by simp
    ultimately show ?thesis using inc deref neq rem True by auto
  next
    case False
    then obtain c cs where bs: "bs = c # cs" by (cases bs) auto
    note d = filter_upt_Cons [OF c(5) [symmetric, unfolded bs]]
    have "\<exists>i. b \<le> i \<and> i < 16 \<and> bit s i" using d(1,2,3) by (intro exI [of _ "c - 1"]) auto
    then have "iter_inv s ?it" using inv assms(3,4) b False by (simp add: iter_inv_def)
    moreover have "remaining_keys s (next_functionality ?it) (next_backend ?it) =
        map (toRuntimePerBackendFunctionalityKey (j - 15)) bs @
        concat (map (\<lambda>j. functionality_instances s 0 (j - 15)) js)"
      using False assms(3,4) c(5) by (simp add: remaining_keys_def functionality_instances_def)
    ultimately show ?thesis using inc deref neq rem by metis
  qed
qed


lemma operator_inc_skip:
  assumes "\<not> bit s 63" "iter_inv s it" "functionality_bits s (next_functionality it) = j # js"
    "isPerBackendFunctionalityKey (j - 15)"
    "filter (\<lambda>b. bit s (b - 1)) [Suc (next_backend it)..<17] = []"
  shows "operator_inc it = operator_inc (it\<lparr> next_functionality := Suc j \<rparr>)"
    and "iter_inv s (it\<lparr> next_functionality := Suc j \<rparr>)"
    and "remaining_keys s (next_functionality it) (next_backend it) =
      remaining_keys s (Suc j) (next_backend it)"
proof -
  note u = functionality_bits_upd [OF assms(3)]
  have inv: "data_ptr it = s" "16 \<le> next_functionality it" "next_functionality it \<le> 63"
      "next_backend it \<le> 16"
    using assms(2) by (auto simp: iter_inv_def)
  have nb: "next_backend it = 0"
  proof (rule ccontr)
    assume "next_backend it \<noteq> 0"
    then obtain b where b: "next_backend it \<le> b" "b < 16" "bit s b"
      using assms(2) by (auto simp: iter_inv_def)
    then have "Suc b \<in> set (filter (\<lambda>b. bit s (b - 1)) [Suc (next_backend it)..<17])" by simp
    then show False unfolding assms(5) by simp
  qed
  have none: "findFirstSet (maskTrailingZeros (next_backend it) AND full_backend_mask AND s) = None"
    using findFirst_backend_None [OF inv(4)] assms(5) by simp
  show "operator_inc it = operator_inc (it\<lparr> next_functionality := Suc j \<rparr>)"
    using findFirst_functionality_Some [OF assms(3)] none inv assms(4) u
    by (simp add: operator_inc.simps [of it] end_iter_mask_val_def Let_def)
  show "iter_inv s (it\<lparr> next_functionality := Suc j \<rparr>)" using inv nb u by (simp add: iter_inv_def)
  show "remaining_keys s (next_functionality it) (next_backend it) =
      remaining_keys s (Suc j) (next_backend it)"
    using assms(3,4,5) nb remaining_keys_Suc [OF assms(3)]
    by (simp add: remaining_keys_def [of s "next_functionality it"] functionality_instances_def)
qed

lemma operator_inc_spec:
  assumes "\<not> bit s 63" "iter_inv s it"
  shows "(remaining_keys s (next_functionality it) (next_backend it) = [] \<longrightarrow>
      operator_inc it = Inr (end_state s)) \<and>
    (\<forall>k ks. remaining_keys s (next_functionality it) (next_backend it) = k # ks \<longrightarrow>
      (\<exists>it'. operator_inc it = Inr it' \<and> iter_inv s it' \<and> \<not> iterator_eq it' (end_state s) \<and>
         iterator_deref it' = Inr k \<and>
         remaining_keys s (next_functionality it') (next_backend it') = ks))"
  using assms(2)
proof (induction "functionality_bits s (next_functionality it)" arbitrary: it)
  case Nil
  then show ?case using operator_inc_end [OF assms(1)] by (simp add: remaining_keys_def)
next
  case (Cons j js)
  note eq = Cons.hyps(2) [symmetric]
  show ?case
  proof (cases "isPerBackendFunctionalityKey (j - 15)")
    case False
    then show ?thesis using operator_inc_plain [OF assms(1) Cons.prems eq] by auto
  next
    case True
    show ?thesis
    proof (cases "filter (\<lambda>b. bit s (b - 1)) [Suc (next_backend it)..<17]")
      case Nil
      note sk = operator_inc_skip [OF assms(1) Cons.prems eq True Nil]
      have "js = functionality_bits s (next_functionality (it\<lparr> next_functionality := Suc j \<rparr>))"
        using functionality_bits_upd(1) [OF eq] by simp
      then show ?thesis using Cons.hyps(1) [OF _ sk(2)] sk(1,3) by simp
    next
      case (Cons b bs)
      then show ?thesis using operator_inc_backend [OF assms(1) Cons.prems eq True Cons] by auto
    qed
  qed
qed

lemma iterator_collect_spec:
  assumes "\<not> bit s 63" "iter_inv s it" "\<not> iterator_eq it (end_state s)" "iterator_deref it = Inr k"
    "Suc (length (remaining_keys s (next_functionality it) (next_backend it))) < n"
  shows "iterator_collect n it (end_state s) =
    Some (Inr (k # remaining_keys s (next_functionality it) (next_backend it)))"
  using assms(2-)
proof (induction "remaining_keys s (next_functionality it) (next_backend it)" arbitrary: it k n)
  case Nil
  obtain m where n: "n = Suc (Suc m)" using Nil.prems(4) by (metis Suc_lessE less_imp_Suc_add)
  have "operator_inc it = Inr (end_state s)"
    using operator_inc_spec [OF assms(1) Nil.prems(1)] Nil.hyps by simp
  then show ?case using Nil n by (simp add: iterator_eq_def)
next
  case (Cons k' ks)
  obtain m where n: "n = Suc m" using Cons.prems(4) by (metis Suc_lessE)
  obtain it' where it': "operator_inc it = Inr it'" "iter_inv s it'" "\<not> iterator_eq it' (end_state s)"
      "iterator_deref it' = Inr k'" "remaining_keys s (next_functionality it') (next_backend it') = ks"
    using operator_inc_spec [OF assms(1) Cons.prems(1)] Cons.hyps(2) by metis
  have "Suc (length ks) < m" using Cons.prems(4) n by (simp flip: Cons.hyps(2))
  then have "iterator_collect m it' (end_state s) = Some (Inr (k' # ks))"
    using Cons.hyps(1) [OF it'(5) [symmetric] it'(2,3,4)] it'(5) by simp
  then show ?case using Cons.prems(2,3) it'(1) n by (simp flip: Cons.hyps(2))
qed

lemma length_functionality_instances: "length (functionality_instances s nb f) \<le> 16"
proof -
  have "length (filter (\<lambda>b. bit s (b - 1)) [Suc nb..<17]) \<le> length [Suc nb..<17]"
    by (rule length_filter_le)
  then show ?thesis by (auto simp: functionality_instances_def simp del: upt_Suc)
qed

lemma remaining_keys_begin:
  "remaining_keys s 16 0 = concat (map (\<lambda>j. functionality_instances s 0 (j - 15)) (functionality_bits s 16))"
  by (cases "functionality_bits s 16") (simp_all add: remaining_keys_def)

lemma length_remaining_keys: "length (remaining_keys s 16 0) \<le> 47 * 16"
proof -
  have "length (functionality_bits s 16) \<le> 47"
    using length_filter_le [of "bit s" "[16..<63]"] by (simp add: functionality_bits_def del: upt_rec_numeral)
  moreover have "length (remaining_keys s 16 0) \<le> length (functionality_bits s 16) * 16"
    unfolding remaining_keys_begin by (rule length_concat_le) (rule length_functionality_instances)
  ultimately show ?thesis by linarith
qed

lemma keyset_for_eq:
  assumes "\<not> bit s 63"
  shows "keyset_for s = Some (Inr (remaining_keys s 16 0))"
proof -
  let ?i = "\<lparr> data_ptr = s, next_functionality = 16, next_backend = 0, current_dispatchkey_idx = 48,
     current_backendcomponent_idx = 48 \<rparr>"
  have inv: "iter_inv s ?i" by (simp add: iter_inv_def)
  have b: "iterator_begin s = operator_inc ?i"
    by (simp add: iterator_begin_def iterator_init_def end_iter_key_val_def)
  have "maskTrailingZeros 64 AND s = 0" by (intro bit_eqI) (simp add: bit_simps bit_maskTrailingZeros)
  then have e: "iterator_end s = Inr (end_state s)"
    by (simp add: iterator_end_def iterator_init_def end_iter_key_val_def end_iter_mask_val_def
        operator_inc.simps end_state_def findFirstSet_def)
  show ?thesis
  proof (cases "remaining_keys s 16 0")
    case Nil
    then have "operator_inc ?i = Inr (end_state s)"
      using operator_inc_spec [OF assms inv] by simp
    then show ?thesis using b e Nil by (simp add: keyset_for_def keyset_fuel_def iterator_eq_def
          numeral_eq_Suc)
  next
    case (Cons k ks)
    then obtain it where it: "operator_inc ?i = Inr it" "iter_inv s it" "\<not> iterator_eq it (end_state s)"
        "iterator_deref it = Inr k" "remaining_keys s (next_functionality it) (next_backend it) = ks"
      using operator_inc_spec [OF assms inv] by auto
    have "Suc (length ks) < keyset_fuel"
      using length_remaining_keys [of s] Cons by (simp add: keyset_fuel_def)
    then have "iterator_collect keyset_fuel it (end_state s) = Some (Inr (k # ks))"
      using iterator_collect_spec [OF assms it(2,3,4)] it(5) by simp
    then show ?thesis using b e it(1) Cons by (simp add: keyset_for_def)
  qed
qed


definition key_less :: "DispatchKey \<Rightarrow> DispatchKey \<Rightarrow> bool" where
  "key_less a b \<longleftrightarrow> toFunctionalityKey a < toFunctionalityKey b \<or>
     toFunctionalityKey a = toFunctionalityKey b \<and> toBackendComponent a < toBackendComponent b"

lemma functionality_instances_parts:
  assumes "k \<in> set (functionality_instances s nb f)" "0 < f" "f < 48"
  shows "toFunctionalityKey k = f" and "isRuntimeKey k"
    and "toBackendComponent k = 0 \<or> toBackendComponent k \<in> keyset_backends s"
proof -
  have "toFunctionalityKey k = f \<and> isRuntimeKey k \<and>
      (toBackendComponent k = 0 \<or> toBackendComponent k \<in> keyset_backends s)"
  proof (cases "isPerBackendFunctionalityKey f")
    case True
    then obtain b where b: "k = toRuntimePerBackendFunctionalityKey f b" "0 < b" "b \<le> 16" "bit s (b - 1)"
      using assms(1) by (auto simp: functionality_instances_def)
    then show ?thesis using True toRuntime_range [OF True b(3)]
      by (simp add: isRuntimeKey_def keyset_backends_def)
  next
    case False
    then have "k = f" using assms(1) by (simp add: functionality_instances_def)
    then show ?thesis using False assms
      by (simp add: isRuntimeKey_def toFunctionalityKey_def toBackendComponent_def)
  qed
  then show "toFunctionalityKey k = f" "isRuntimeKey k"
    "toBackendComponent k = 0 \<or> toBackendComponent k \<in> keyset_backends s" by auto
qed

lemma functionality_bits_iff: "j \<in> set (functionality_bits s 16) \<longleftrightarrow> 16 \<le> j \<and> j - 15 \<in> keyset_functionalities s"
proof -
  have "15 + (j - 15) = j" if "16 \<le> j" using that by simp
  then show ?thesis
    by (auto simp: functionality_bits_def keyset_functionalities_def simp del: upt_rec_numeral)
qed

lemma set_remaining_keys: "set (remaining_keys s 16 0) = keyset_runtime_keys s"
proof (rule set_eqI, rule iffI)
  fix k
  assume "k \<in> set (remaining_keys s 16 0)"
  then obtain j where j: "j \<in> set (functionality_bits s 16)" "k \<in> set (functionality_instances s 0 (j - 15))"
    by (auto simp: remaining_keys_begin)
  have f: "j - 15 \<in> keyset_functionalities s" using j(1) by (simp add: functionality_bits_iff)
  then have "0 < j - 15" "j - 15 < 48" by (simp_all add: keyset_functionalities_def)
  note p = functionality_instances_parts [OF j(2) this]
  show "k \<in> keyset_runtime_keys s"
    using p f has_runtime_iff [OF p(2)] by (simp add: keyset_runtime_keys_def)
next
  fix k
  assume "k \<in> keyset_runtime_keys s"
  then have rk: "isRuntimeKey k" and f: "toFunctionalityKey k \<in> keyset_functionalities s"
    and b: "toBackendComponent k = 0 \<or> toBackendComponent k \<in> keyset_backends s"
    using has_runtime_iff by (auto simp: keyset_runtime_keys_def)
  let ?j = "15 + toFunctionalityKey k"
  have "?j \<in> set (functionality_bits s 16)"
    using f isRuntimeKey_functionality [OF rk] by (simp add: functionality_bits_iff)
  moreover have "k \<in> set (functionality_instances s 0 (toFunctionalityKey k))"
  proof (cases "k < 48")
    case True
    then show ?thesis using rk by (simp add: functionality_instances_def isRuntimeKey_def toFunctionalityKey_def)
  next
    case False
    then have "48 < k" "k \<le> 150" "toBackendComponent k \<noteq> 0" using rk by (auto simp: isRuntimeKey_def)
    then have j: "isPerBackendFunctionalityKey (toFunctionalityKey k)"
        "toRuntimePerBackendFunctionalityKey (toFunctionalityKey k) (toBackendComponent k) = k"
        "toBackendComponent k \<in> keyset_backends s"
      using runtime_key_join [of k] b by auto
    have "toBackendComponent k \<in> set (filter (\<lambda>b. bit s (b - 1)) [Suc 0..<17])"
      using j(3) unfolding keyset_backends_def set_filter set_upt by auto
    then have "toRuntimePerBackendFunctionalityKey (toFunctionalityKey k) (toBackendComponent k)
        \<in> set (functionality_instances s 0 (toFunctionalityKey k))"
      using j(1) unfolding functionality_instances_def by (simp only: if_True set_map imageI)
    then show ?thesis by (simp only: j(2))
  qed
  ultimately show "k \<in> set (remaining_keys s 16 0)"
    unfolding remaining_keys_begin set_concat set_map image_image
    by (intro UN_I [of ?j]) simp_all
qed

lemma sorted_functionality_instances:
  assumes "0 < f" "f < 48"
  shows "sorted_wrt key_less (functionality_instances s nb f)"
proof (cases "isPerBackendFunctionalityKey f")
  case True
  have "sorted_wrt (<) (filter (\<lambda>b. bit s (b - 1)) [Suc nb..<17])"
    by (intro sorted_wrt_filter strict_sorted_iff [THEN iffD2]) auto
  then have "sorted_wrt (\<lambda>a b. key_less (toRuntimePerBackendFunctionalityKey f a)
      (toRuntimePerBackendFunctionalityKey f b)) (filter (\<lambda>b. bit s (b - 1)) [Suc nb..<17])"
    by (rule sorted_wrt_mono_rel [rotated]) (use True in \<open>auto simp: key_less_def\<close>)
  then show ?thesis using True by (simp add: functionality_instances_def sorted_wrt_map)
next
  case False
  then show ?thesis by (simp add: functionality_instances_def)
qed

lemma sorted_remaining_keys: "sorted_wrt key_less (remaining_keys s 16 0)"
  unfolding remaining_keys_begin
proof (rule sorted_wrt_concat_blocks)
  show "sorted_wrt (<) (functionality_bits s 16)"
    unfolding functionality_bits_def by (intro sorted_wrt_filter strict_sorted_iff [THEN iffD2]) auto
  fix j
  assume "j \<in> set (functionality_bits s 16)"
  then have j: "0 < j - 15" "j - 15 < 48" by (auto simp: functionality_bits_iff keyset_functionalities_def)
  then show "sorted_wrt key_less (functionality_instances s 0 (j - 15))"
    by (rule sorted_functionality_instances)
  fix i x y
  assume i: "i \<in> set (functionality_bits s 16)" "i < j"
    and xy: "x \<in> set (functionality_instances s 0 (i - 15))" "y \<in> set (functionality_instances s 0 (j - 15))"
  have i': "0 < i - 15" "i - 15 < 48" using i(1) by (auto simp: functionality_bits_iff keyset_functionalities_def)
  show "key_less x y"
    using functionality_instances_parts(1) [OF xy(1) i'] functionality_instances_parts(1) [OF xy(2) j]
      diff_less_mono [of i j 15] i(2) i' by (simp add: key_less_def)
qed

text \<open>C1: the iterator of a key set terminates, triggers none of
  its internal assertions, and visits exactly the runtime keys of the set, each once, in the order
  functionality first and backend second.\<close>

theorem iteration_complete:
  assumes "\<not> bit s 63"
  shows "\<exists>ks. keyset_for s = Some (Inr ks) \<and> set ks = keyset_runtime_keys s \<and>
    sorted_wrt key_less ks \<and> distinct ks"
proof (intro exI conjI)
  show "keyset_for s = Some (Inr (remaining_keys s 16 0))" using assms by (rule keyset_for_eq)
  show "set (remaining_keys s 16 0) = keyset_runtime_keys s" by (rule set_remaining_keys)
  show "sorted_wrt key_less (remaining_keys s 16 0)" by (rule sorted_remaining_keys)
  then show "distinct (remaining_keys s 16 0)"
    by (rule sorted_wrt_irrefl_distinct) (simp add: key_less_def)
qed

theorem iteration_complete_witness:
  "\<exists>ks. keyset_for (DispatchKeySet_of DispatchKey_CPU) = Some (Inr ks) \<and>
     set ks = keyset_runtime_keys (DispatchKeySet_of DispatchKey_CPU)"
proof -
  have "\<not> bit (DispatchKeySet_of DispatchKey_CPU) 63"
    by (simp add: bit_DispatchKeySet_of key_defs)
  then show ?thesis using iteration_complete by blast
qed

end
