(* ===== verification/OperatorEntries.thy ===== *)
theory OperatorEntries
  imports DispatchAlias DispatchIteration
begin

text \<open>
  The dispatch table of an operator: \<open>ATen/core/dispatch/OperatorEntry.cpp\<close> and \<open>DispatchKeyExtractor.cpp\<close>.
  Kernels are registered to runtime keys and to alias keys; the table holds, for every runtime key, the kernel
  that the precedence rules select. The configuration is the default one with a list of kernels per key. Function
  schemas are opaque except for the operator name and for which arguments take part in dispatch; their comparison
  (\<open>findSchemaDifferences\<close>) is the parameter \<open>differs\<close>.
\<close>

section \<open>Kernels\<close>

text \<open>A kernel is identified by a number; 0 is the null function pointer.\<close>

record kernel_function =
  kf_id :: nat
  kf_fallthrough :: bool
  kf_symUnboxed :: bool

definition isValid :: "kernel_function \<Rightarrow> bool" where
  "isValid k \<longleftrightarrow> kf_id k \<noteq> 0"

definition isFallthrough :: "kernel_function \<Rightarrow> bool" where
  "isFallthrough k \<longleftrightarrow> isValid k \<and> kf_fallthrough k"

record op_schema =
  os_name :: string
  os_dispatch :: "bool list"   \<comment> \<open>for every argument: is it of a dispatch type\<close>
  os_rest :: nat

text \<open>\<open>ak_handle\<close> is the list iterator that \<open>registerKernel\<close> returns.\<close>

record annotated_kernel =
  ak_kernel :: kernel_function
  ak_inferred :: "op_schema option"
  ak_debug :: string
  ak_handle :: nat

definition missingKernel :: annotated_kernel where
  "missingKernel = \<lparr> ak_kernel = \<lparr> kf_id = 0, kf_fallthrough = False, kf_symUnboxed = False \<rparr>, ak_inferred = None, ak_debug = [], ak_handle = 0 \<rparr>"

definition ambiguousAutogradOtherKernel :: annotated_kernel where
  "ambiguousAutogradOtherKernel = \<lparr> ak_kernel = \<lparr> kf_id = 1, kf_fallthrough = False, kf_symUnboxed = False \<rparr>, ak_inferred = None,
     ak_debug = ''ambiguous_autogradother'', ak_handle = 0 \<rparr>"

section \<open>The key extractor\<close>

record dispatch_key_extractor =
  dispatch_arg_indices_reverse :: u64
  nonFallthroughKeys :: DispatchKeySet
  nonFallthroughKeysPerBackend :: "DispatchKeySet list"
  requiresBitsetPerBackend :: bool

definition makeUninitialized :: dispatch_key_extractor where
  "makeUninitialized = \<lparr> dispatch_arg_indices_reverse = 0, nonFallthroughKeys = DispatchKeySet_full,
     nonFallthroughKeysPerBackend = replicate num_backends DispatchKeySet_full, requiresBitsetPerBackend = False \<rparr>"

definition makeBitsetForDispatchArgs :: "op_schema \<Rightarrow> u64 result" where
  "makeBitsetForDispatchArgs schema = (let n = length (os_dispatch schema) in
     bindE (check (n \<le> 64) (CheckError ''The function schema has too many arguments'')) (\<lambda>_.
       Inr (foldl (\<lambda>b i. if os_dispatch schema ! i then b OR push_bit (n - 1 - i) 1 else b) 0 [0..<n])))"

definition dke_registerSchema :: "op_schema \<Rightarrow> dispatch_key_extractor \<Rightarrow> dispatch_key_extractor result" where
  "dke_registerSchema schema e =
     bindE (check (dispatch_arg_indices_reverse e = 0) (InternalAssert ''dispatch_arg_indices_reverse_.is_entirely_unset()'')) (\<lambda>_.
     bindE (makeBitsetForDispatchArgs schema) (\<lambda>b. Inr (e\<lparr> dispatch_arg_indices_reverse := b \<rparr>)))"

definition dke_deregisterSchema :: "dispatch_key_extractor \<Rightarrow> dispatch_key_extractor" where
  "dke_deregisterSchema e = e\<lparr> dispatch_arg_indices_reverse := 0 \<rparr>"

definition set_fallthrough :: "bool \<Rightarrow> DispatchKey \<Rightarrow> DispatchKeySet \<Rightarrow> DispatchKeySet" where
  "set_fallthrough ft k s = (if ft then remove s k else add s k)"

definition setOperatorHasFallthroughForKey :: "DispatchKey \<Rightarrow> bool \<Rightarrow> dispatch_key_extractor \<Rightarrow> dispatch_key_extractor result" where
  "setOperatorHasFallthroughForKey k ft e =
     (let e1 = e\<lparr> nonFallthroughKeys := set_fallthrough ft k (nonFallthroughKeys e) \<rparr>; per = nonFallthroughKeysPerBackend e1 in
      if isPerBackendFunctionalityKey (toFunctionalityKey k) then
        bindE (check (0 < toBackendComponent k \<and> toBackendComponent k - 1 < length per) (InternalAssert ''backend_idx'')) (\<lambda>_.
          let backend_idx = toBackendComponent k - 1; per1 = per[backend_idx := set_fallthrough ft k (per ! backend_idx)] in
          Inr (e1\<lparr> nonFallthroughKeysPerBackend := per1, requiresBitsetPerBackend := (\<exists>i \<in> set [0..<length per1 - 1]. per1 ! i \<noteq> per1 ! (i + 1)) \<rparr>))
      else Inr (e1\<lparr> nonFallthroughKeysPerBackend := map (set_fallthrough ft k) per \<rparr>))"

text \<open>The thread-local included and excluded keys are arguments.\<close>

definition computeDispatchKeySet :: "DispatchKeySet \<Rightarrow> DispatchKeySet \<Rightarrow> DispatchKeySet \<Rightarrow> DispatchKeySet \<Rightarrow> DispatchKeySet" where
  "computeDispatchKeySet included excluded ks key_mask = keyset_inter (keyset_diff (keyset_union ks included) excluded) key_mask"

definition multi_dispatch_key_set :: "DispatchKeySet list \<Rightarrow> DispatchKeySet" where
  "multi_dispatch_key_set args = foldl keyset_union 0 args"

definition getDispatchKeySetUnboxed :: "DispatchKeySet \<Rightarrow> DispatchKeySet \<Rightarrow> dispatch_key_extractor \<Rightarrow> DispatchKeySet list \<Rightarrow> DispatchKeySet" where
  "getDispatchKeySetUnboxed included excluded e args =
     (let ks = multi_dispatch_key_set args in
      if requiresBitsetPerBackend e then
        let backend_idx = getBackendIndex (keyset_diff (keyset_union ks included) excluded) in
        computeDispatchKeySet included excluded ks (nonFallthroughKeysPerBackend e ! backend_idx)
      else computeDispatchKeySet included excluded ks (nonFallthroughKeys e))"

section \<open>Operator entries\<close>

record operator_entry =
  oe_name :: string
  oe_schema :: "(op_schema \<times> string) option"
  dispatchTable :: "kernel_function list"
  dispatchKeyExtractor :: dispatch_key_extractor
  kernels :: "(DispatchKey \<times> annotated_kernel list) list"   \<comment> \<open>newest kernel first\<close>
  cpp_signature :: "nat option"
  sym_cpp_signature :: "nat option"

text \<open>\<open>for (k : DispatchKeySet)\<close>; the fuel of the iterator never runs out.\<close>

definition for_keys :: "DispatchKeySet \<Rightarrow> DispatchKey list result" where
  "for_keys s = (case keyset_for s of None \<Rightarrow> Inl (InternalAssert ''iterator'') | Some r \<Rightarrow> r)"

definition allDispatchKeysInFullSet :: "DispatchKey list result" where
  "allDispatchKeysInFullSet = for_keys DispatchKeySet_full"

definition getDispatchTableIndexForDispatchKey :: "DispatchKey \<Rightarrow> nat option" where
  "getDispatchTableIndexForDispatchKey k = (case initializeFunctionalityOffsetsAndMasks of Inl e \<Rightarrow> None
     | Inr arr \<Rightarrow> getDispatchTableIndexForDispatchKeySet arr (DispatchKeySet_of k))"

definition index_to_key_step :: "DispatchKey list \<Rightarrow> DispatchKey \<Rightarrow> DispatchKey list result" where
  "index_to_key_step arr k = (case getDispatchTableIndexForDispatchKey k of None \<Rightarrow> Inl (StdOutOfRange ''array'')
     | Some index \<Rightarrow> if index < length arr
         then bindE (check (arr ! index = DispatchKey_Undefined) (InternalAssert ''arr.at(index) == DispatchKey::Undefined'')) (\<lambda>_. Inr (arr[index := k]))
         else Inl (StdOutOfRange ''array''))"

definition getDispatchTableIndexToKey :: "DispatchKey list result" where
  "getDispatchTableIndexToKey =
     bindE allDispatchKeysInFullSet (\<lambda>ks.
     bindE (foldE index_to_key_step (replicate num_runtime_entries DispatchKey_Undefined) ks) (\<lambda>arr.
     bindE (check (getDispatchTableIndexForDispatchKey DispatchKey_Undefined = Some 0) (InternalAssert ''Undefined index'')) (\<lambda>_.
     bindE (check (arr ! 0 = DispatchKey_Undefined) (InternalAssert ''arr[0]'')) (\<lambda>_.
     bindE (check (\<forall>i \<in> set [1..<length arr]. arr ! i \<noteq> DispatchKey_Undefined) (InternalAssert ''missing dispatch key at index '')) (\<lambda>_. Inr arr)))))"

definition constructor_step :: "annotated_kernel list \<Rightarrow> DispatchKey list \<Rightarrow> operator_entry \<Rightarrow> nat \<Rightarrow> operator_entry result" where
  "constructor_step fallbacks index_to_key e ix = (let bfk = ak_kernel (fallbacks ! ix) in
     if isValid bfk then
       let e1 = e\<lparr> dispatchTable := (dispatchTable e)[ix := bfk] \<rparr> in
       if isFallthrough bfk
       then bindE (setOperatorHasFallthroughForKey (index_to_key ! ix) True (dispatchKeyExtractor e1)) (\<lambda>x. Inr (e1\<lparr> dispatchKeyExtractor := x \<rparr>))
       else Inr e1
     else Inr (e\<lparr> dispatchTable := (dispatchTable e)[ix := ak_kernel missingKernel] \<rparr>))"

definition OperatorEntry :: "annotated_kernel list \<Rightarrow> string \<Rightarrow> operator_entry result" where
  "OperatorEntry fallbacks name =
     bindE getDispatchTableIndexToKey (\<lambda>index_to_key.
     foldE (constructor_step fallbacks index_to_key)
       \<lparr> oe_name = name, oe_schema = None, dispatchTable = replicate num_runtime_entries (ak_kernel missingKernel),
         dispatchKeyExtractor = makeUninitialized, kernels = [], cpp_signature = None, sym_cpp_signature = None \<rparr>
       [0..<length fallbacks])"

section \<open>Queries\<close>

definition hasKernelForAnyDispatchKey :: "operator_entry \<Rightarrow> DispatchKeySet \<Rightarrow> bool result" where
  "hasKernelForAnyDispatchKey e ks =
     bindE (check (map_of (kernels e) DispatchKey_Undefined = None) (InternalAssert ''kernels_.find(DispatchKey::Undefined) == kernels_.end()'')) (\<lambda>_.
       Inr (\<exists>kv \<in> set (kernels e). \<not> isAliasDispatchKey (fst kv) \<and> has ks (fst kv)))"

definition hasKernelForDispatchKey :: "operator_entry \<Rightarrow> DispatchKey \<Rightarrow> bool result" where
  "hasKernelForDispatchKey e k =
     bindE (check (map_of (kernels e) DispatchKey_Undefined = None) (InternalAssert ''kernels_.find(DispatchKey::Undefined) == kernels_.end()'')) (\<lambda>_.
       Inr (case map_of (kernels e) k of None \<Rightarrow> False | Some l \<Rightarrow> l \<noteq> []))"

definition kernelForDispatchKey :: "operator_entry \<Rightarrow> DispatchKey \<Rightarrow> kernel_function result" where
  "kernelForDispatchKey e k = (case map_of (kernels e) k of
       None \<Rightarrow> Inl (CheckError ''no kernel for '')
     | Some [] \<Rightarrow> Inl (CheckError ''no kernel for '')
     | Some (a # _) \<Rightarrow> bindE (check (isValid (ak_kernel a)) (InternalAssert ''jt->kernel.isValid()'')) (\<lambda>_. Inr (ak_kernel a)))"

definition getKernelForDispatchKey :: "operator_entry \<Rightarrow> DispatchKey \<Rightarrow> annotated_kernel option result" where
  "getKernelForDispatchKey e k = (case map_of (kernels e) k of
       None \<Rightarrow> Inr None
     | Some [] \<Rightarrow> Inl (InternalAssert ''!kern_it->second.empty()'')
     | Some (a # _) \<Rightarrow> bindE (check (isValid (ak_kernel a)) (InternalAssert ''kern_it->second.front().kernel.isValid()'')) (\<lambda>_. Inr (Some a)))"

definition hasComputedKernelForDispatchKey :: "operator_entry \<Rightarrow> DispatchKey \<Rightarrow> bool result" where
  "hasComputedKernelForDispatchKey e k =
     bindE (check (\<not> isAliasDispatchKey k) (CheckError ''Alias keys do not have runtime kernel registrations.'')) (\<lambda>_.
       case getDispatchTableIndexForDispatchKey k of None \<Rightarrow> Inl (InternalAssert ''dispatch_ix'')
       | Some ix \<Rightarrow> bindE (check (ix < num_runtime_entries) (InternalAssert ''dispatch_ix'')) (\<lambda>_. Inr (isValid (dispatchTable e ! ix))))"

section \<open>The computed entry\<close>

text \<open>The kernel registered to an alias key, if the key is included in the alias.\<close>

definition alias_registration :: "operator_entry \<Rightarrow> DispatchKey \<Rightarrow> bool \<Rightarrow> DispatchKey \<Rightarrow> annotated_kernel option result" where
  "alias_registration e alias for_undefined k =
     bindE (if for_undefined \<and> k = DispatchKey_Undefined then Inr True else isIncludedInAlias k alias) (\<lambda>included.
       if included then getKernelForDispatchKey e alias else Inr None)"

definition orElse :: "'a option result \<Rightarrow> ('a \<Rightarrow> 'b) \<Rightarrow> 'b result \<Rightarrow> 'b result" where
  "orElse first done rest = bindE first (\<lambda>r. case r of Some a \<Rightarrow> Inr (done a) | None \<Rightarrow> rest)"

text \<open>Step (2.3) for a registered \<open>CompositeImplicitAutograd\<close> kernel.\<close>

definition math_registration :: "operator_entry \<Rightarrow> DispatchKey \<Rightarrow> bool \<Rightarrow> (annotated_kernel \<times> string) option result" where
  "math_registration e k has_backend_kernel =
     bindE (alias_registration e DispatchKey_CompositeImplicitAutograd True k) (\<lambda>r. case r of None \<Rightarrow> Inr None
     | Some math \<Rightarrow>
         bindE (if k = DispatchKey_AutogradOther then hasKernelForAnyDispatchKey e autogradother_backends else Inr False) (\<lambda>ambiguous.
           if ambiguous then Inr (Some (ambiguousAutogradOtherKernel, ''ambiguous autogradother''))
           else if \<not> has_backend_kernel then Inr (Some (math, ''math kernel'')) else Inr None))"

definition backend_fallback :: "annotated_kernel list \<Rightarrow> DispatchKey \<Rightarrow> annotated_kernel \<times> string" where
  "backend_fallback fallbacks k = (case getDispatchTableIndexForDispatchKey k of
       None \<Rightarrow> (missingKernel, ''backend fallback not registered on mobile'')
     | Some ix \<Rightarrow> if isValid (ak_kernel (fallbacks ! ix)) then (fallbacks ! ix, ''backend fallback'') else (missingKernel, ''missing''))"

definition computeDispatchTableEntryWithDebug :: "annotated_kernel list \<Rightarrow> operator_entry \<Rightarrow> DispatchKey \<Rightarrow> (annotated_kernel \<times> string) result" where
  "computeDispatchTableEntryWithDebug fallbacks e k =
     orElse (getKernelForDispatchKey e k) (\<lambda>a. (a, ''kernel'')) (
     orElse (alias_registration e DispatchKey_CompositeExplicitAutogradNonFunctional True k) (\<lambda>a. (a, ''default backend kernel'')) (
     orElse (alias_registration e DispatchKey_CompositeExplicitAutograd True k) (\<lambda>a. (a, ''default backend kernel'')) (
     bindE (hasKernelForAnyDispatchKey e (getBackendKeySetFromAutograd k)) (\<lambda>any.
     bindE (if any then Inr True else hasKernelForDispatchKey e DispatchKey_CompositeExplicitAutograd) (\<lambda>has_backend_kernel.
     orElse (alias_registration e DispatchKey_CompositeImplicitAutogradNestedTensor False k) (\<lambda>a. (a, ''nested kernel'')) (
     orElse (math_registration e k has_backend_kernel) (\<lambda>r. r) (
     orElse (alias_registration e DispatchKey_Autograd False k) (\<lambda>a. (a, ''autograd kernel'')) (
     orElse (alias_registration e DispatchKey_FuncTorchBatchedDecomposition False k) (\<lambda>a. (a, ''batched kernel'')) (
       Inr (backend_fallback fallbacks k))))))))))"

definition computeDispatchTableEntry :: "annotated_kernel list \<Rightarrow> operator_entry \<Rightarrow> DispatchKey \<Rightarrow> kernel_function result" where
  "computeDispatchTableEntry fallbacks e k = bindE (computeDispatchTableEntryWithDebug fallbacks e k) (\<lambda>r. Inr (ak_kernel (fst r)))"

section \<open>Updates of the table\<close>

definition updateDispatchTableEntry :: "annotated_kernel list \<Rightarrow> operator_entry \<Rightarrow> DispatchKey \<Rightarrow> operator_entry result" where
  "updateDispatchTableEntry fallbacks e k = (case getDispatchTableIndexForDispatchKey k of None \<Rightarrow> Inr e
     | Some ix \<Rightarrow> bindE (computeDispatchTableEntry fallbacks e k) (\<lambda>kernel.
         bindE (setOperatorHasFallthroughForKey k (isFallthrough kernel) (dispatchKeyExtractor e)) (\<lambda>x.
           Inr (e\<lparr> dispatchTable := (dispatchTable e)[ix := kernel], dispatchKeyExtractor := x \<rparr>))))"

definition updateDispatchTable :: "annotated_kernel list \<Rightarrow> operator_entry \<Rightarrow> DispatchKey \<Rightarrow> operator_entry result" where
  "updateDispatchTable fallbacks e k =
     (if k = DispatchKey_Undefined then updateDispatchTableEntry fallbacks e k
      else bindE (getRuntimeDispatchKeySet k) (\<lambda>ks. bindE (for_keys ks) (\<lambda>l.
        bindE (foldE (updateDispatchTableEntry fallbacks) e l) (\<lambda>e1.
        bindE (if k \<in> {DispatchKey_CompositeImplicitAutograd, DispatchKey_CompositeExplicitAutograd, DispatchKey_CompositeExplicitAutogradNonFunctional}
               then updateDispatchTableEntry fallbacks e1 DispatchKey_Undefined else Inr e1) (\<lambda>e2.
          if isBackendDispatchKey k then updateDispatchTableEntry fallbacks e2 (getAutogradKeyFromBackend (toBackendComponent k)) else Inr e2)))))"

definition updateDispatchTableFull :: "annotated_kernel list \<Rightarrow> operator_entry \<Rightarrow> operator_entry result" where
  "updateDispatchTableFull fallbacks e =
     bindE (updateDispatchTable fallbacks e DispatchKey_Undefined) (\<lambda>e1.
     bindE allDispatchKeysInFullSet (\<lambda>l. foldE (updateDispatchTable fallbacks) e1 l))"

definition updateFallback :: "annotated_kernel list \<Rightarrow> operator_entry \<Rightarrow> DispatchKey \<Rightarrow> operator_entry result" where
  "updateFallback = updateDispatchTable"

section \<open>Registration\<close>

text \<open>\<open>std::unordered_map::operator[]\<close> followed by an update of the list.\<close>

definition push_kernel :: "DispatchKey \<Rightarrow> annotated_kernel \<Rightarrow> (DispatchKey \<times> annotated_kernel list) list \<Rightarrow> (DispatchKey \<times> annotated_kernel list) list" where
  "push_kernel k a m = (case map_of m k of None \<Rightarrow> (k, [a]) # m | Some _ \<Rightarrow> map (\<lambda>(k', l). if k' = k then (k', a # l) else (k', l)) m)"

definition checkSchema :: "(op_schema \<Rightarrow> bool \<Rightarrow> op_schema \<Rightarrow> bool) \<Rightarrow> op_schema \<Rightarrow> annotated_kernel \<Rightarrow> unit result" where
  "checkSchema differs from_def a = (case ak_inferred a of None \<Rightarrow> Inr ()
     | Some inferred \<Rightarrow> check (\<not> differs from_def (kf_symUnboxed (ak_kernel a)) inferred)
         (CheckError ''Inferred operator schema for a C++ kernel function doesn't match the expected function schema.''))"

definition registerSchema :: "(op_schema \<Rightarrow> bool \<Rightarrow> op_schema \<Rightarrow> bool) \<Rightarrow> op_schema \<Rightarrow> string \<Rightarrow> operator_entry \<Rightarrow> operator_entry result" where
  "registerSchema differs schema debug e =
     bindE (check (oe_schema e = None) (InternalAssert ''!schema_.has_value()'')) (\<lambda>_.
     bindE (mapE (checkSchema differs schema) (concat (map snd (kernels e)))) (\<lambda>_.
     bindE (dke_registerSchema schema (dispatchKeyExtractor e)) (\<lambda>x.
       Inr (e\<lparr> dispatchKeyExtractor := x, oe_schema := Some (schema, debug) \<rparr>))))"

definition deregisterSchema :: "operator_entry \<Rightarrow> operator_entry result" where
  "deregisterSchema e = bindE (check (oe_schema e \<noteq> None) (InternalAssert ''schema_.has_value()'')) (\<lambda>_.
     Inr (e\<lparr> oe_schema := None, dispatchKeyExtractor := dke_deregisterSchema (dispatchKeyExtractor e) \<rparr>))"

definition register_signature :: "nat option \<Rightarrow> bool \<Rightarrow> operator_entry \<Rightarrow> operator_entry result" where
  "register_signature sig is_sym e = (case sig of None \<Rightarrow> Inr e
     | Some s \<Rightarrow> (case (if is_sym then sym_cpp_signature e else cpp_signature e) of
         Some local \<Rightarrow> bindE (check (s = local) (CheckError ''Mismatch in kernel C++ signatures'')) (\<lambda>_. Inr e)
       | None \<Rightarrow> Inr (if is_sym then e\<lparr> sym_cpp_signature := Some s \<rparr> else e\<lparr> cpp_signature := Some s \<rparr>)))"

definition registerKernel :: "(op_schema \<Rightarrow> bool \<Rightarrow> op_schema \<Rightarrow> bool) \<Rightarrow> annotated_kernel list \<Rightarrow> DispatchKey option \<Rightarrow> annotated_kernel \<Rightarrow>
    nat option \<Rightarrow> operator_entry \<Rightarrow> operator_entry result" where
  "registerKernel differs fallbacks dispatch_key a sig e =
     bindE (register_signature sig (kf_symUnboxed (ak_kernel a)) e) (\<lambda>e1.
     bindE (case oe_schema e1 of None \<Rightarrow> Inr () | Some (schema, _) \<Rightarrow> checkSchema differs schema a) (\<lambda>_.
       let k = (case dispatch_key of Some k \<Rightarrow> k | None \<Rightarrow> DispatchKey_CompositeImplicitAutograd);
           e2 = e1\<lparr> kernels := push_kernel k a (kernels e1) \<rparr>
       in case dispatch_key of Some k \<Rightarrow> updateDispatchTable fallbacks e2 k | None \<Rightarrow> updateDispatchTableFull fallbacks e2))"

definition drop_kernel :: "DispatchKey \<Rightarrow> nat \<Rightarrow> (DispatchKey \<times> annotated_kernel list) list \<Rightarrow> (DispatchKey \<times> annotated_kernel list) list" where
  "drop_kernel k handle m = filter (\<lambda>(k', l). \<not> (k' = k \<and> l = []))
     (map (\<lambda>(k', l). if k' = k then (k', filter (\<lambda>a. ak_handle a \<noteq> handle) l) else (k', l)) m)"

definition deregisterKernel :: "annotated_kernel list \<Rightarrow> DispatchKey option \<Rightarrow> nat \<Rightarrow> operator_entry \<Rightarrow> operator_entry result" where
  "deregisterKernel fallbacks dispatch_key handle e =
     (let dk = (case dispatch_key of Some k \<Rightarrow> k | None \<Rightarrow> DispatchKey_CompositeImplicitAutograd) in
      bindE (check (map_of (kernels e) dk \<noteq> None) (InternalAssert ''Tried to deregister a kernel for dispatch key '')) (\<lambda>_.
        updateDispatchTable fallbacks (e\<lparr> kernels := drop_kernel dk handle (kernels e) \<rparr>) dk))"

definition checkInvariant_key :: "annotated_kernel list \<Rightarrow> operator_entry \<Rightarrow> DispatchKey \<Rightarrow> unit result" where
  "checkInvariant_key fallbacks e k = bindE (computeDispatchTableEntry fallbacks e k) (\<lambda>expected.
     case getDispatchTableIndexForDispatchKey k of None \<Rightarrow> Inr ()
     | Some idx \<Rightarrow> check (expected = dispatchTable e ! idx) (InternalAssert ''expected_k._equalsBoxedAndUnboxed(dispatchTable_[idx])''))"

definition checkInvariants :: "annotated_kernel list \<Rightarrow> operator_entry \<Rightarrow> unit result" where
  "checkInvariants fallbacks e =
     bindE (case oe_schema e of None \<Rightarrow> Inr () | Some (schema, _) \<Rightarrow>
       bindE (check (os_name schema = oe_name e) (InternalAssert ''schema_->schema.operator_name() == name_'')) (\<lambda>_.
       bindE (makeBitsetForDispatchArgs schema) (\<lambda>b.
         check (b = dispatch_arg_indices_reverse (dispatchKeyExtractor e)) (InternalAssert ''makeBitsetForDispatchArgs(schema)'')))) (\<lambda>_.
     bindE (check (map_of (kernels e) DispatchKey_Undefined = None) (InternalAssert ''kernels_.find(DispatchKey::Undefined)'')) (\<lambda>_.
     bindE (check (\<forall>kv \<in> set (kernels e). snd kv \<noteq> []) (InternalAssert ''!kv.second.empty()'')) (\<lambda>_.
     bindE allDispatchKeysInFullSet (\<lambda>l. bindE (mapE (checkInvariant_key fallbacks e) l) (\<lambda>_. Inr ())))))"

text \<open>\<open>reportError\<close> first checks the invariants; a Python callback is not modelled.\<close>

definition reportError :: "annotated_kernel list \<Rightarrow> operator_entry \<Rightarrow> DispatchKey \<Rightarrow> c10_error" where
  "reportError fallbacks e k = (case checkInvariants fallbacks e of Inl err \<Rightarrow> err
     | Inr _ \<Rightarrow> if k = DispatchKey_Undefined then NotImplementedError ''There were no tensor arguments to this function'' else NotImplementedError ''Could not run'')"

definition lookup :: "annotated_kernel list \<Rightarrow> operator_entry \<Rightarrow> DispatchKeySet \<Rightarrow> kernel_function result" where
  "lookup fallbacks e ks = (case initializeFunctionalityOffsetsAndMasks of Inl err \<Rightarrow> Inl err
     | Inr arr \<Rightarrow> (case getDispatchTableIndexForDispatchKeySet arr ks of
         None \<Rightarrow> Inl (reportError fallbacks e (highestPriorityTypeId ks))
       | Some idx \<Rightarrow> let kernel = dispatchTable e ! idx in
           if \<not> isValid kernel then Inl (reportError fallbacks e (highestPriorityTypeId ks)) else Inr kernel))"

end
