(* ===== verification/OperatorTables.thy ===== *)
theory OperatorTables
  imports OperatorEntries
begin

text \<open>
  The dispatch table of an operator against the kernel that the precedence rules select: what an update of the
  table recomputes, and when that is everything that has changed.
\<close>

section \<open>Slots and iteration\<close>

definition tableKey :: "DispatchKey \<Rightarrow> bool" where
  "tableKey k \<longleftrightarrow> isRuntimeKey k \<or> k = DispatchKey_Undefined"

lemma table_index:
  assumes "tableKey k"
  shows "getDispatchTableIndexForDispatchKey k = Some (table_slot k)"
proof -
  have k: "k \<le> 150" "k \<noteq> 48" using assms by (auto simp: tableKey_def isRuntimeKey_def)
  note p = DispatchKeySet_of_parts [OF k]
  have "toBackendComponent k = 0" if "\<not> isPerBackendFunctionalityKey (toFunctionalityKey k)"
    using that assms runtime_key_join [of k] by (auto simp: tableKey_def isRuntimeKey_def toBackendComponent_def)
  then show ?thesis
    using getDispatchTableIndex_formula [OF offsets_and_masks_eq, of "DispatchKeySet_of k"] p
    by (simp add: getDispatchTableIndexForDispatchKey_def offsets_and_masks_eq table_slot_def del: upt_rec_numeral)
qed

lemma table_slot_Undefined: "table_slot DispatchKey_Undefined = 0"
  by (simp add: table_slot_def toFunctionalityKey_def toBackendComponent_def table_offset_def)

lemma tableKey_list: "tableKey k \<longleftrightarrow> k \<in> set (DispatchKey_Undefined # runtime_key_list)"
  using set_runtime_key_list by (auto simp: tableKey_def)

lemma table_slots: "map table_slot (DispatchKey_Undefined # runtime_key_list) = [0..<138]"
  using runtime_key_list_slots table_slot_Undefined by (simp add: upt_conv_Cons del: upt_rec_numeral)

lemma table_slot_less: "tableKey k \<Longrightarrow> table_slot k < 138"
proof -
  assume "tableKey k"
  then have "table_slot k \<in> set (map table_slot (DispatchKey_Undefined # runtime_key_list))" unfolding tableKey_list set_map by (rule imageI)
  then show ?thesis unfolding table_slots by (simp del: upt_rec_numeral)
qed

lemma table_slot_inj: "tableKey k \<Longrightarrow> tableKey j \<Longrightarrow> table_slot k = table_slot j \<longleftrightarrow> k = j"
  using table_slots distinct_upt tableKey_list by (metis distinct_map inj_onD)

lemma for_keys_set:
  assumes "\<not> bit s 63"
  obtains l where "for_keys s = Inr l" "set l = keyset_runtime_keys s" "distinct l"
proof
  show "for_keys s = Inr (remaining_keys s 16 0)" using keyset_for_eq [OF assms] by (simp add: for_keys_def)
  show "set (remaining_keys s 16 0) = keyset_runtime_keys s" by (rule set_remaining_keys)
  show "distinct (remaining_keys s 16 0)"
    by (rule sorted_wrt_irrefl_distinct [OF sorted_remaining_keys]) (simp add: key_less_def)
qed

lemma bit_full: "bit DispatchKeySet_full i \<longleftrightarrow> i < 63"
proof -
  have "DispatchKeySet_full = mask 63" by (simp add: DispatchKeySet_full_def num_functionality_keys_def mask_eq_exp_minus_1)
  moreover have "bit (mask 63 :: u64) i \<longleftrightarrow> i < 63" by (simp only: bit_mask_iff) auto
  ultimately show ?thesis by metis
qed

lemma runtime_keys_full: "keyset_runtime_keys DispatchKeySet_full = {k. isRuntimeKey k}" "\<not> bit DispatchKeySet_full 63"
proof -
  show "\<not> bit DispatchKeySet_full 63" by (simp add: bit_full)
  have "has DispatchKeySet_full k" if "isRuntimeKey k" for k
    using isRuntimeKey_functionality [OF that] by (auto simp: has_iff_bits bit_full toBackendComponent_def)
  then show "keyset_runtime_keys DispatchKeySet_full = {k. isRuntimeKey k}" by (auto simp: keyset_runtime_keys_def)
qed

section \<open>The precedence of kernels\<close>

text \<open>The newest kernel of every key.\<close>

definition newest :: "operator_entry \<Rightarrow> DispatchKey \<Rightarrow> annotated_kernel option" where
  "newest e k = (case map_of (kernels e) k of Some (a # _) \<Rightarrow> Some a | _ \<Rightarrow> None)"

definition registered_in :: "(DispatchKey \<Rightarrow> annotated_kernel option) \<Rightarrow> DispatchKeySet \<Rightarrow> bool" where
  "registered_in F ks \<longleftrightarrow> (\<exists>d. F d \<noteq> None \<and> \<not> isAliasDispatchKey d \<and> has ks d)"

definition included :: "DispatchKey \<Rightarrow> DispatchKey \<Rightarrow> bool" where
  "included k alias \<longleftrightarrow> isIncludedInAlias k alias = Inr True"

definition guarded :: "bool \<Rightarrow> 'a option \<Rightarrow> 'a option" where
  "guarded b x = (if b then x else None)"

text \<open>The \<open>CompositeImplicitAutograd\<close> kernel, unless the backend of an autograd key has a kernel of its own.\<close>

definition implicit_of :: "(DispatchKey \<Rightarrow> annotated_kernel option) \<Rightarrow> DispatchKey \<Rightarrow> annotated_kernel option" where
  "implicit_of F k = (case F DispatchKey_CompositeImplicitAutograd of None \<Rightarrow> None
     | Some math \<Rightarrow>
         if k = DispatchKey_AutogradOther \<and> registered_in F autogradother_backends then Some ambiguousAutogradOtherKernel
         else if registered_in F (getBackendKeySetFromAutograd k) \<or> F DispatchKey_CompositeExplicitAutograd \<noteq> None then None
         else Some math)"

definition candidates :: "(DispatchKey \<Rightarrow> annotated_kernel option) \<Rightarrow> annotated_kernel list \<Rightarrow> DispatchKey \<Rightarrow> annotated_kernel option list" where
  "candidates F fallbacks k = (let u = (k = DispatchKey_Undefined); fb = fallbacks ! table_slot k in
     [F k,
      guarded (u \<or> included k DispatchKey_CompositeExplicitAutogradNonFunctional) (F DispatchKey_CompositeExplicitAutogradNonFunctional),
      guarded (u \<or> included k DispatchKey_CompositeExplicitAutograd) (F DispatchKey_CompositeExplicitAutograd),
      guarded (included k DispatchKey_CompositeImplicitAutogradNestedTensor) (F DispatchKey_CompositeImplicitAutogradNestedTensor),
      guarded (u \<or> included k DispatchKey_CompositeImplicitAutograd) (implicit_of F k),
      guarded (included k DispatchKey_Autograd) (F DispatchKey_Autograd),
      guarded (included k DispatchKey_FuncTorchBatchedDecomposition) (F DispatchKey_FuncTorchBatchedDecomposition),
      guarded (isValid (ak_kernel fb)) (Some fb)])"

fun first_of :: "annotated_kernel option list \<Rightarrow> annotated_kernel" where
  "first_of [] = missingKernel"
| "first_of (Some a # _) = a"
| "first_of (None # xs) = first_of xs"

definition entry_of :: "(DispatchKey \<Rightarrow> annotated_kernel option) \<Rightarrow> annotated_kernel list \<Rightarrow> DispatchKey \<Rightarrow> annotated_kernel" where
  "entry_of F fallbacks k = first_of (candidates F fallbacks k)"

definition kernels_ok :: "operator_entry \<Rightarrow> bool" where
  "kernels_ok e \<longleftrightarrow> distinct (map fst (kernels e)) \<and>
     (\<forall>(k, l) \<in> set (kernels e). l \<noteq> [] \<and> (\<forall>a \<in> set l. isValid (ak_kernel a)) \<and> (isRuntimeKey k \<or> isAliasDispatchKey k))"

lemma not_alias: "tableKey k \<Longrightarrow> \<not> isAliasDispatchKey k" "isAliasDispatchKey k \<Longrightarrow> k \<noteq> 0"
  by (auto simp: tableKey_def isAliasDispatchKey_def isRuntimeKey_def)

lemma isIncludedInAlias_Inr: "alias \<noteq> 0 \<Longrightarrow> isIncludedInAlias k alias = Inr (included k alias)"
  by (auto simp: included_def isIncludedInAlias_def runtimeDispatchKeySetHas_def)

lemma included_Undefined [simp]: "\<not> included 0 alias"
  by (simp add: included_def isIncludedInAlias_def)

lemma getKernel_newest:
  assumes "kernels_ok e"
  shows "getKernelForDispatchKey e k = Inr (newest e k)"
proof (cases "map_of (kernels e) k")
  case (Some l)
  then have "(k, l) \<in> set (kernels e)" by (rule map_of_SomeD)
  then have l: "l \<noteq> []" "\<forall>a \<in> set l. isValid (ak_kernel a)" using assms unfolding kernels_ok_def by auto
  then obtain a l' where "l = a # l'" by (cases l) auto
  then show ?thesis using Some l by (simp add: getKernelForDispatchKey_def newest_def)
qed (simp add: getKernelForDispatchKey_def newest_def)

lemma newest_iff:
  assumes "kernels_ok e"
  shows "newest e k \<noteq> None \<longleftrightarrow> k \<in> fst ` set (kernels e)"
proof -
  have "map_of (kernels e) k \<noteq> Some []" using assms map_of_SomeD [of "kernels e" k "[]"] unfolding kernels_ok_def by auto
  moreover have "map_of (kernels e) k = None \<longleftrightarrow> k \<notin> fst ` set (kernels e)" by (rule map_of_eq_None_iff)
  ultimately show ?thesis
    by (cases "map_of (kernels e) k") (auto simp: newest_def split: list.splits)
qed

lemma no_undefined:
  assumes "kernels_ok e"
  shows "map_of (kernels e) 0 = None"
proof -
  have "0 \<notin> fst ` set (kernels e)" using assms unfolding kernels_ok_def by (auto simp: isRuntimeKey_def isAliasDispatchKey_def)
  then show ?thesis by (simp add: map_of_eq_None_iff)
qed

lemma hasAny_registered:
  assumes "kernels_ok e"
  shows "hasKernelForAnyDispatchKey e ks = Inr (registered_in (newest e) ks)"
  using no_undefined [OF assms] newest_iff [OF assms]
  by (auto simp: hasKernelForAnyDispatchKey_def registered_in_def)

lemma hasKernel_newest:
  assumes "kernels_ok e"
  shows "hasKernelForDispatchKey e k = Inr (newest e k \<noteq> None)"
  using no_undefined [OF assms] by (auto simp: hasKernelForDispatchKey_def newest_def split: option.splits list.splits)

lemma alias_registration_eq:
  assumes "kernels_ok e" "alias \<noteq> 0"
  shows "alias_registration e alias u k = Inr (guarded (u \<and> k = 0 \<or> included k alias) (newest e alias))"
  using assms by (auto simp: alias_registration_def isIncludedInAlias_Inr getKernel_newest guarded_def)

lemma orElse_first:
  assumes "\<exists>d. rest = Inr (first_of xs, d)"
  shows "\<exists>d. orElse (Inr x) (\<lambda>a. (a, s)) rest = Inr (first_of (x # xs), d)"
  using assms by (cases x) (simp_all add: orElse_def)

lemma orElse_first_pair:
  assumes "\<exists>d. rest = Inr (first_of xs, d)"
  shows "\<exists>d. orElse (Inr y) (\<lambda>r. r) rest = Inr (first_of (map_option fst y # xs), d)"
  using assms by (cases y) (auto simp: orElse_def)

lemma math_registration_eq:
  assumes ok: "kernels_ok e"
  shows "\<exists>y. math_registration e k (registered_in (newest e) (getBackendKeySetFromAutograd k) \<or> newest e DispatchKey_CompositeExplicitAutograd \<noteq> None) = Inr y \<and>
    map_option fst y = guarded (k = 0 \<or> included k DispatchKey_CompositeImplicitAutograd) (implicit_of (newest e) k)"
  using alias_registration_eq [OF ok, of DispatchKey_CompositeImplicitAutograd True k] hasAny_registered [OF ok, of autogradother_backends]
  by (cases "newest e DispatchKey_CompositeImplicitAutograd") (auto simp: math_registration_def guarded_def implicit_of_def)

lemma backend_fallback_eq:
  assumes "tableKey k"
  shows "\<exists>d. backend_fallback fallbacks k = (first_of [guarded (isValid (ak_kernel (fallbacks ! table_slot k))) (Some (fallbacks ! table_slot k))], d)"
  by (simp add: backend_fallback_def table_index [OF assms] guarded_def)

lemma compute_entry:
  assumes ok: "kernels_ok e" and k: "tableKey k"
  shows "\<exists>debug. computeDispatchTableEntryWithDebug fallbacks e k = Inr (entry_of (newest e) fallbacks k, debug)"
proof -
  let ?any = "registered_in (newest e) (getBackendKeySetFromAutograd k)" and ?E = "newest e DispatchKey_CompositeExplicitAutograd"
  obtain y where y: "math_registration e k (?any \<or> ?E \<noteq> None) = Inr y"
      "map_option fst y = guarded (k = 0 \<or> included k DispatchKey_CompositeImplicitAutograd) (implicit_of (newest e) k)"
    using math_registration_eq [OF ok] by blast
  have hb: "(if ?any then Inr True else Inr (?E \<noteq> None)) = Inr (?any \<or> ?E \<noteq> None)" by simp
  show ?thesis
    unfolding computeDispatchTableEntryWithDebug_def getKernel_newest [OF ok] hasAny_registered [OF ok] hasKernel_newest [OF ok]
      alias_registration_eq [OF ok, of DispatchKey_CompositeExplicitAutogradNonFunctional, simplified]
      alias_registration_eq [OF ok, of DispatchKey_CompositeExplicitAutograd, simplified]
      alias_registration_eq [OF ok, of DispatchKey_CompositeImplicitAutogradNestedTensor, simplified]
      alias_registration_eq [OF ok, of DispatchKey_Autograd, simplified]
      alias_registration_eq [OF ok, of DispatchKey_FuncTorchBatchedDecomposition, simplified] bindE_simps hb y(1)
      entry_of_def candidates_def Let_def y(2) [symmetric] simp_thms
    by (intro orElse_first orElse_first_pair) (use backend_fallback_eq [OF k] in auto)
qed

lemma computeDispatchTableEntry_eq:
  assumes "kernels_ok e" "tableKey k"
  shows "computeDispatchTableEntry fallbacks e k = Inr (ak_kernel (entry_of (newest e) fallbacks k))"
  using compute_entry [OF assms, of fallbacks] by (auto simp: computeDispatchTableEntry_def)

section \<open>The keys without a fallthrough kernel\<close>

text \<open>
  The extractor mirrors which runtime keys have a fallthrough kernel: exactly, per backend; in the set for all
  backends, for a functionality whose backends agree.
\<close>

definition per_backend_ok :: "(DispatchKey \<Rightarrow> bool) \<Rightarrow> DispatchKeySet list \<Rightarrow> bool" where
  "per_backend_ok ft per \<longleftrightarrow> length per = 16 \<and> (\<forall>b < 16. (\<forall>i < 16. bit (per ! b) i) \<and> \<not> bit (per ! b) 63 \<and>
     (\<forall>f. 0 < f \<and> f < 48 \<longrightarrow> bit (per ! b) (15 + f) = (\<not> ft (if isPerBackendFunctionalityKey f then toRuntimePerBackendFunctionalityKey f (b + 1) else f))))"

definition global_ok :: "(DispatchKey \<Rightarrow> bool) \<Rightarrow> DispatchKeySet \<Rightarrow> bool" where
  "global_ok ft s \<longleftrightarrow> (\<forall>i < 16. bit s i) \<and> \<not> bit s 63 \<and>
     (\<forall>f. 0 < f \<and> f < 48 \<longrightarrow> (if isPerBackendFunctionalityKey f
        then \<forall>c. (\<forall>b \<in> {1..16}. ft (toRuntimePerBackendFunctionalityKey f b) = c) \<longrightarrow> bit s (15 + f) = (\<not> c)
        else bit s (15 + f) = (\<not> ft f)))"

definition extractor_ok :: "(DispatchKey \<Rightarrow> bool) \<Rightarrow> dispatch_key_extractor \<Rightarrow> bool" where
  "extractor_ok ft x \<longleftrightarrow> per_backend_ok ft (nonFallthroughKeysPerBackend x) \<and> global_ok ft (nonFallthroughKeys x) \<and>
     (\<not> requiresBitsetPerBackend x \<longrightarrow> (\<forall>i < 15. nonFallthroughKeysPerBackend x ! i = nonFallthroughKeysPerBackend x ! (i + 1)))"

lemma bit_set_fallthrough:
  "bit (set_fallthrough v k s) i \<longleftrightarrow> (if v then bit s i \<and> (i < 16 \<or> \<not> bit (DispatchKeySet_of k) i) else bit s i \<or> bit (DispatchKeySet_of k) i)"
  by (simp add: set_fallthrough_def bit_add bit_remove)

lemma bit_runtime_key:
  assumes "isRuntimeKey k"
  shows "bit (DispatchKeySet_of k) i \<longleftrightarrow> i = 15 + toFunctionalityKey k \<or> 0 < toBackendComponent k \<and> i = toBackendComponent k - 1"
  using isRuntimeKey_less [OF assms] by (auto simp: bit_DispatchKeySet_of)

lemma set_fallthrough_facts:
  assumes k: "isRuntimeKey k" and s: "\<forall>i < 16. bit s i" "\<not> bit s 63"
  shows "\<forall>i < 16. bit (set_fallthrough v k s) i" "\<not> bit (set_fallthrough v k s) 63"
    "\<And>f. 0 < f \<Longrightarrow> f < 48 \<Longrightarrow> bit (set_fallthrough v k s) (15 + f) = (if f = toFunctionalityKey k then \<not> v else bit s (15 + f))"
proof -
  have b: "toBackendComponent k \<le> 16" by (auto simp: toBackendComponent_def)
  note f = isRuntimeKey_functionality [OF k]
  show "\<forall>i < 16. bit (set_fallthrough v k s) i" using s(1) by (simp add: bit_set_fallthrough)
  show "\<not> bit (set_fallthrough v k s) 63" using s(2) f b by (auto simp: bit_set_fallthrough bit_runtime_key [OF k])
  show "bit (set_fallthrough v k s) (15 + g) = (if g = toFunctionalityKey k then \<not> v else bit s (15 + g))" if "0 < g" "g < 48" for g
    using that f b by (auto simp: bit_set_fallthrough bit_runtime_key [OF k])
qed

lemma runtime_parts:
  assumes "isRuntimeKey k"
  shows "isPerBackendFunctionalityKey (toFunctionalityKey k) \<Longrightarrow> toBackendComponent k \<in> {1..16} \<and> toRuntimePerBackendFunctionalityKey (toFunctionalityKey k) (toBackendComponent k) = k"
    "\<not> isPerBackendFunctionalityKey (toFunctionalityKey k) \<Longrightarrow> toFunctionalityKey k = k \<and> toBackendComponent k = 0"
  using assms runtime_key_join [of k] by (auto simp: isRuntimeKey_def toFunctionalityKey_def [of k] toBackendComponent_def [of k] split: if_splits)

lemma joined_key_eq:
  assumes k: "isRuntimeKey k" and f: "isPerBackendFunctionalityKey f" "b \<in> {1..16}"
  shows "toRuntimePerBackendFunctionalityKey f b = k \<longleftrightarrow> f = toFunctionalityKey k \<and> b = toBackendComponent k"
proof
  assume "toRuntimePerBackendFunctionalityKey f b = k"
  then show "f = toFunctionalityKey k \<and> b = toBackendComponent k" using f by auto
next
  assume "f = toFunctionalityKey k \<and> b = toBackendComponent k"
  then show "toRuntimePerBackendFunctionalityKey f b = k" using runtime_parts(1) [OF k] f by simp
qed

lemma joined_other:
  assumes "isRuntimeKey k" "0 < f" "f < 48" "f \<noteq> toFunctionalityKey k"
  shows "b \<in> {1..16} \<Longrightarrow> (if isPerBackendFunctionalityKey f then toRuntimePerBackendFunctionalityKey f b else f) \<noteq> k"
proof (cases "isPerBackendFunctionalityKey f")
  case True
  assume "b \<in> {1..16}"
  then show ?thesis using joined_key_eq [OF assms(1) True] True assms(4) by simp
next
  case False then show ?thesis using assms(3,4) by (auto simp: toFunctionalityKey_def)
qed

lemma global_ok_set:
  assumes k: "isRuntimeKey k" and g: "global_ok ft s"
  shows "global_ok (ft(k := v)) (set_fallthrough v k s)"
proof -
  have s: "\<forall>i < 16. bit s i" "\<not> bit s 63" using g by (simp_all add: global_ok_def)
  note sf = set_fallthrough_facts [OF k s, where v = v]
  have "if isPerBackendFunctionalityKey f
      then \<forall>c. (\<forall>b \<in> {1..16}. (ft(k := v)) (toRuntimePerBackendFunctionalityKey f b) = c) \<longrightarrow> bit (set_fallthrough v k s) (15 + f) = (\<not> c)
      else bit (set_fallthrough v k s) (15 + f) = (\<not> (ft(k := v)) f)" if f: "0 < f" "f < 48" for f
  proof (cases "f = toFunctionalityKey k")
    case True
    then show ?thesis using sf(3) [OF f] runtime_parts [OF k] by auto
  next
    case False
    note oth = joined_other [OF k f False]
    have "(ft(k := v)) (toRuntimePerBackendFunctionalityKey f b) = ft (toRuntimePerBackendFunctionalityKey f b)"
      if "isPerBackendFunctionalityKey f" "b \<in> {1..16}" for b using oth [OF that(2)] that(1) by simp
    moreover have "(ft(k := v)) f = ft f" if "\<not> isPerBackendFunctionalityKey f" using oth [of 1] that by simp
    moreover have "if isPerBackendFunctionalityKey f
        then \<forall>c. (\<forall>b \<in> {1..16}. ft (toRuntimePerBackendFunctionalityKey f b) = c) \<longrightarrow> bit s (15 + f) = (\<not> c)
        else bit s (15 + f) = (\<not> ft f)" using g f unfolding global_ok_def by blast
    ultimately show ?thesis using sf(3) [OF f] False by (cases "isPerBackendFunctionalityKey f") auto
  qed
  then show ?thesis unfolding global_ok_def using sf(1,2) by blast
qed

lemma per_backend_bit:
  assumes "per_backend_ok ft per" "b < 16" "0 < f" "f < 48"
  shows "bit (per ! b) (15 + f) = (\<not> ft (if isPerBackendFunctionalityKey f then toRuntimePerBackendFunctionalityKey f (b + 1) else f))"
    "\<forall>i < 16. bit (per ! b) i" "\<not> bit (per ! b) 63"
  using assms unfolding per_backend_ok_def by blast+

lemma per_backend_ok_set:
  assumes k: "isRuntimeKey k" and p: "per_backend_ok ft per"
  shows "isPerBackendFunctionalityKey (toFunctionalityKey k) \<Longrightarrow>
      per_backend_ok (ft(k := v)) (per[toBackendComponent k - 1 := set_fallthrough v k (per ! (toBackendComponent k - 1))])"
    "\<not> isPerBackendFunctionalityKey (toFunctionalityKey k) \<Longrightarrow> per_backend_ok (ft(k := v)) (map (set_fallthrough v k) per)"
proof -
  let ?key = "\<lambda>f b. if isPerBackendFunctionalityKey f then toRuntimePerBackendFunctionalityKey f (b + 1) else f"
  have len: "length per = 16" using p by (simp add: per_backend_ok_def)
  have upd: "(\<forall>i < 16. bit (set_fallthrough v k (per ! b)) i) \<and> \<not> bit (set_fallthrough v k (per ! b)) 63 \<and>
      (\<forall>f. 0 < f \<and> f < 48 \<longrightarrow> bit (set_fallthrough v k (per ! b)) (15 + f) = (\<not> (ft(k := v)) (?key f b)))"
    if b: "b < 16" and kb: "?key (toFunctionalityKey k) b = k" for b
  proof -
    have s: "\<forall>i < 16. bit (per ! b) i" "\<not> bit (per ! b) 63" using per_backend_bit(2,3) [OF p b, of 1] by simp_all
    note sf = set_fallthrough_facts [OF k s, where v = v]
    have "bit (set_fallthrough v k (per ! b)) (15 + f) = (\<not> (ft(k := v)) (?key f b))" if f: "0 < f" "f < 48" for f
    proof (cases "f = toFunctionalityKey k")
      case True
      have "?key f b = k" unfolding True by (rule kb)
      then show ?thesis using sf(3) [OF f] True by (simp only: fun_upd_same if_True simp_thms)
    next
      case False
      then have "?key f b \<noteq> k" using joined_other [OF k f False, of "b + 1"] b by simp
      then show ?thesis using sf(3) [OF f] False per_backend_bit(1) [OF p b f] by simp
    qed
    then show ?thesis using sf(1,2) by blast
  qed
  show "per_backend_ok (ft(k := v)) (map (set_fallthrough v k) per)" if np: "\<not> isPerBackendFunctionalityKey (toFunctionalityKey k)"
  proof -
    have "?key (toFunctionalityKey k) b = k" for b using runtime_parts(2) [OF k np] np by simp
    then show ?thesis unfolding per_backend_ok_def using upd len by simp
  qed
  show "per_backend_ok (ft(k := v)) (per[toBackendComponent k - 1 := set_fallthrough v k (per ! (toBackendComponent k - 1))])"
    if pb: "isPerBackendFunctionalityKey (toFunctionalityKey k)"
  proof -
    let ?b = "toBackendComponent k - 1"
    have kb: "toBackendComponent k \<in> {1..16}" "?key (toFunctionalityKey k) ?b = k" using runtime_parts(1) [OF k pb] pb by simp_all
    have bb: "?b < 16" using kb(1) by auto
    note hit = upd [OF bb kb(2)]
    have other: "(ft(k := v)) (?key f b) = ft (?key f b)" if "b < 16" "b \<noteq> ?b" "0 < f" "f < 48" for b f
    proof (cases "isPerBackendFunctionalityKey f")
      case True
      then have "toRuntimePerBackendFunctionalityKey f (b + 1) \<noteq> k" using joined_key_eq [OF k True, of "b + 1"] that by auto
      then show ?thesis using True by simp
    next
      case False
      then have "f \<noteq> k" using pb that(4) by (auto simp: toFunctionalityKey_def)
      then show ?thesis using False by simp
    qed
    show ?thesis
      unfolding per_backend_ok_def length_list_update
    proof (intro conjI allI impI)
      fix b f i :: nat assume b: "b < 16"
      show "bit (per[?b := set_fallthrough v k (per ! ?b)] ! b) i" if "i < 16"
        using that hit per_backend_bit(2) [OF p b, of 1] len b by (cases "b = ?b") simp_all
      show "\<not> bit (per[?b := set_fallthrough v k (per ! ?b)] ! b) 63"
        using hit per_backend_bit(3) [OF p b, of 1] len b by (cases "b = ?b") simp_all
      assume f: "0 < f \<and> f < 48"
      show "bit (per[?b := set_fallthrough v k (per ! ?b)] ! b) (15 + f) = (\<not> (ft(k := v)) (?key f b))"
      proof (cases "b = ?b")
        case True then show ?thesis using hit f len bb by (simp only: nth_list_update_eq)
      next
        case False
        have f': "0 < f" "f < 48" using f by simp_all
        have "per[?b := set_fallthrough v k (per ! ?b)] ! b = per ! b" using False by simp
        then show ?thesis using per_backend_bit(1) [OF p b f'] other [OF b False f'] by (simp only:)
      qed
    qed (simp add: len)
  qed
qed

lemma setOperatorHasFallthrough_ok:
  assumes k: "isRuntimeKey k" and x: "extractor_ok ft x"
  obtains y where "setOperatorHasFallthroughForKey k v x = Inr y" "extractor_ok (ft(k := v)) y" "dispatch_arg_indices_reverse y = dispatch_arg_indices_reverse x"
proof (cases "isPerBackendFunctionalityKey (toFunctionalityKey k)")
  case True
  let ?per = "nonFallthroughKeysPerBackend x" and ?b = "toBackendComponent k - 1"
  let ?per1 = "?per[?b := set_fallthrough v k (?per ! ?b)]"
  let ?y = "x\<lparr> nonFallthroughKeys := set_fallthrough v k (nonFallthroughKeys x), nonFallthroughKeysPerBackend := ?per1,
    requiresBitsetPerBackend := (\<exists>i \<in> set [0..<length ?per1 - 1]. ?per1 ! i \<noteq> ?per1 ! (i + 1)) \<rparr>"
  have p: "per_backend_ok ft ?per" "global_ok ft (nonFallthroughKeys x)" "length ?per = 16" using x by (simp_all add: extractor_ok_def per_backend_ok_def)
  have "toBackendComponent k \<in> {1..16}" using runtime_parts(1) [OF k True] by simp
  then have b: "0 < toBackendComponent k" "?b < length ?per" using p(3) by auto
  have "setOperatorHasFallthroughForKey k v x = Inr ?y" using True b by (simp add: setOperatorHasFallthroughForKey_def Let_def del: upt_rec_numeral)
  moreover have "extractor_ok (ft(k := v)) ?y"
    using per_backend_ok_set(1) [OF k p(1) True] global_ok_set [OF k p(2)] p(3) by (simp add: extractor_ok_def del: upt_rec_numeral)
  ultimately show thesis using that by simp
next
  case False
  let ?y = "x\<lparr> nonFallthroughKeys := set_fallthrough v k (nonFallthroughKeys x), nonFallthroughKeysPerBackend := map (set_fallthrough v k) (nonFallthroughKeysPerBackend x) \<rparr>"
  have p: "per_backend_ok ft (nonFallthroughKeysPerBackend x)" "global_ok ft (nonFallthroughKeys x)" "length (nonFallthroughKeysPerBackend x) = 16"
    using x by (simp_all add: extractor_ok_def per_backend_ok_def)
  have "setOperatorHasFallthroughForKey k v x = Inr ?y" using False by (simp add: setOperatorHasFallthroughForKey_def Let_def)
  moreover have "extractor_ok (ft(k := v)) ?y"
    using per_backend_ok_set(2) [OF k p(1) False] global_ok_set [OF k p(2)] p(3) x by (simp add: extractor_ok_def)
  ultimately show thesis using that by simp
qed

lemma extractor_ok_cong:
  assumes "\<And>k. isRuntimeKey k \<Longrightarrow> ft k = ft' k"
  shows "extractor_ok ft x = extractor_ok ft' x"
proof -
  have j: "isRuntimeKey (toRuntimePerBackendFunctionalityKey f b)" if "isPerBackendFunctionalityKey f" "b \<in> {1..16}" for f b
    using that toRuntime_range [of f b] by (simp add: isRuntimeKey_def)
  have n: "isRuntimeKey f" if "\<not> isPerBackendFunctionalityKey f" "0 < f" "f < 48" for f using that by (simp add: isRuntimeKey_def)
  have e: "ft (if isPerBackendFunctionalityKey f then toRuntimePerBackendFunctionalityKey f (b + 1) else f) =
      ft' (if isPerBackendFunctionalityKey f then toRuntimePerBackendFunctionalityKey f (b + 1) else f)" if "0 < f \<and> f < 48" "b < 16" for f b
    using assms j [of f "b + 1"] n [of f] that by simp
  have "per_backend_ok ft p = per_backend_ok ft' p" for p
    unfolding per_backend_ok_def by (intro conj_cong refl iff_allI imp_cong) (simp only: e)
  moreover have "global_ok ft s = global_ok ft' s" for s
  proof -
    have "(\<forall>b \<in> {1..16}. ft (toRuntimePerBackendFunctionalityKey f b) = c) = (\<forall>b \<in> {1..16}. ft' (toRuntimePerBackendFunctionalityKey f b) = c)"
      if "isPerBackendFunctionalityKey f" for f c using assms j [OF that] by auto
    moreover have "ft f = ft' f" if "\<not> isPerBackendFunctionalityKey f" "0 < f \<and> f < 48" for f using assms n that by auto
    ultimately show ?thesis unfolding global_ok_def by (intro conj_cong refl iff_allI imp_cong if_cong) simp_all
  qed
  ultimately show ?thesis by (simp add: extractor_ok_def)
qed

lemma set_fallthrough_Undefined: "set_fallthrough v 0 s = s"
  by (rule bit_eqI) (simp add: bit_set_fallthrough bit_DispatchKeySet_of)

lemma setOperatorHasFallthrough_Undefined: "setOperatorHasFallthroughForKey 0 v x = Inr x"
proof -
  have "map (set_fallthrough v 0) l = l" for l by (simp add: map_idI set_fallthrough_Undefined)
  then show ?thesis by (simp add: setOperatorHasFallthroughForKey_def Let_def set_fallthrough_Undefined toFunctionalityKey_def isPerBackendFunctionalityKey_def)
qed

section \<open>One entry\<close>

definition table_fallthrough :: "operator_entry \<Rightarrow> DispatchKey \<Rightarrow> bool" where
  "table_fallthrough e k = isFallthrough (dispatchTable e ! table_slot k)"

text \<open>What holds of every operator entry, whether or not its table is up to date.\<close>

definition entry_inv :: "operator_entry \<Rightarrow> bool" where
  "entry_inv e \<longleftrightarrow> kernels_ok e \<and> length (dispatchTable e) = 138 \<and> extractor_ok (table_fallthrough e) (dispatchKeyExtractor e)"

text \<open>The parts of an entry that an update of the table leaves alone.\<close>

definition same_registrations :: "operator_entry \<Rightarrow> operator_entry \<Rightarrow> bool" where
  "same_registrations e h \<longleftrightarrow> kernels h = kernels e \<and> oe_name h = oe_name e \<and> oe_schema h = oe_schema e \<and> cpp_signature h = cpp_signature e \<and>
     sym_cpp_signature h = sym_cpp_signature e \<and>
     dispatch_arg_indices_reverse (dispatchKeyExtractor h) = dispatch_arg_indices_reverse (dispatchKeyExtractor e)"

lemma same_registrations_refl [simp]: "same_registrations e e"
  by (simp add: same_registrations_def)

lemma same_registrations_trans: "same_registrations e f \<Longrightarrow> same_registrations f g \<Longrightarrow> same_registrations e g"
  by (simp add: same_registrations_def)

lemma newest_same: "same_registrations e h \<Longrightarrow> newest h = newest e"
  by (auto simp: same_registrations_def newest_def fun_eq_iff)

text \<open>The entries of the keys in \<open>K\<close> are recomputed, the others keep their kernels.\<close>

definition refreshed :: "annotated_kernel list \<Rightarrow> DispatchKey set \<Rightarrow> operator_entry \<Rightarrow> operator_entry \<Rightarrow> bool" where
  "refreshed fallbacks K e h \<longleftrightarrow> same_registrations e h \<and> entry_inv h \<and>
     (\<forall>k. tableKey k \<longrightarrow> dispatchTable h ! table_slot k = (if k \<in> K then ak_kernel (entry_of (newest e) fallbacks k) else dispatchTable e ! table_slot k))"

lemma refreshed_trans:
  assumes "refreshed fallbacks K e f" "refreshed fallbacks L f g"
  shows "refreshed fallbacks (K \<union> L) e g"
proof -
  have "newest f = newest e" using assms(1) newest_same by (auto simp: refreshed_def)
  then show ?thesis using assms same_registrations_trans unfolding refreshed_def by auto
qed

lemma refreshed_refl: "entry_inv e \<Longrightarrow> refreshed fallbacks {} e e"
  by (simp add: refreshed_def)

lemma updateEntry_refreshed:
  assumes inv: "entry_inv e" and k: "tableKey k"
  obtains h where "updateDispatchTableEntry fallbacks e k = Inr h" "refreshed fallbacks {k} e h"
proof -
  let ?kernel = "ak_kernel (entry_of (newest e) fallbacks k)"
  have ok: "kernels_ok e" "length (dispatchTable e) = 138" "extractor_ok (table_fallthrough e) (dispatchKeyExtractor e)"
    using inv by (simp_all add: entry_inv_def)
  have "\<exists>y. setOperatorHasFallthroughForKey k (isFallthrough ?kernel) (dispatchKeyExtractor e) = Inr y \<and>
      extractor_ok (if k = 0 then table_fallthrough e else (table_fallthrough e)(k := isFallthrough ?kernel)) y \<and>
      dispatch_arg_indices_reverse y = dispatch_arg_indices_reverse (dispatchKeyExtractor e)"
  proof (cases "k = 0")
    case True then show ?thesis using ok(3) setOperatorHasFallthrough_Undefined by simp
  next
    case False
    then have "isRuntimeKey k" using k by (simp add: tableKey_def)
    from setOperatorHasFallthrough_ok [OF this ok(3), of "isFallthrough ?kernel"] show ?thesis using False by metis
  qed
  then obtain y where y: "setOperatorHasFallthroughForKey k (isFallthrough ?kernel) (dispatchKeyExtractor e) = Inr y"
      "extractor_ok (if k = 0 then table_fallthrough e else (table_fallthrough e)(k := isFallthrough ?kernel)) y"
      "dispatch_arg_indices_reverse y = dispatch_arg_indices_reverse (dispatchKeyExtractor e)" by blast
  let ?h = "e\<lparr> dispatchTable := (dispatchTable e)[table_slot k := ?kernel], dispatchKeyExtractor := y \<rparr>"
  have h: "updateDispatchTableEntry fallbacks e k = Inr ?h"
    by (simp add: updateDispatchTableEntry_def table_index [OF k] computeDispatchTableEntry_eq [OF ok(1) k] y(1))
  have tab: "dispatchTable ?h ! table_slot j = (if j = k then ?kernel else dispatchTable e ! table_slot j)" if "tableKey j" for j
    using table_slot_inj [OF k that] table_slot_less [OF k] ok(2) by (auto simp: nth_list_update)
  have ft: "table_fallthrough ?h j = (if k = 0 then table_fallthrough e else (table_fallthrough e)(k := isFallthrough ?kernel)) j" if "isRuntimeKey j" for j
    using tab [of j] that isRuntimeKey_less [OF that] by (auto simp: table_fallthrough_def tableKey_def)
  have "extractor_ok (table_fallthrough ?h) y = extractor_ok (if k = 0 then table_fallthrough e else (table_fallthrough e)(k := isFallthrough ?kernel)) y"
    by (rule extractor_ok_cong) (rule ft)
  then have "entry_inv ?h" using ok y(2) by (simp add: entry_inv_def kernels_ok_def)
  then have "refreshed fallbacks {k} e ?h" using tab y(3) by (simp add: refreshed_def same_registrations_def)
  then show thesis using that h by blast
qed

lemma updateEntries_refreshed:
  assumes "entry_inv e" "\<forall>k \<in> set l. tableKey k"
  obtains h where "foldE (updateDispatchTableEntry fallbacks) e l = Inr h" "refreshed fallbacks (set l) e h"
proof -
  have "\<exists>h. foldE (updateDispatchTableEntry fallbacks) e l = Inr h \<and> refreshed fallbacks (set l) e h"
    using assms
  proof (induction l arbitrary: e)
    case Nil then show ?case by (simp add: refreshed_refl)
  next
    case (Cons k l)
    obtain f where f: "updateDispatchTableEntry fallbacks e k = Inr f" "refreshed fallbacks {k} e f"
      using updateEntry_refreshed [OF Cons.prems(1), of k fallbacks] Cons.prems(2) by auto
    have "entry_inv f" using f(2) by (simp add: refreshed_def)
    then obtain h where h: "foldE (updateDispatchTableEntry fallbacks) f l = Inr h" "refreshed fallbacks (set l) f h" using Cons by auto
    show ?case using f h refreshed_trans [OF f(2) h(2)] by simp
  qed
  then show thesis using that by blast
qed

section \<open>What an update recomputes\<close>

definition touched :: "DispatchKey \<Rightarrow> DispatchKey set" where
  "touched d = (if d = DispatchKey_Undefined then {DispatchKey_Undefined}
     else {k. isRuntimeKey k \<and> included k d} \<union>
       (if d \<in> {DispatchKey_CompositeImplicitAutograd, DispatchKey_CompositeExplicitAutograd, DispatchKey_CompositeExplicitAutogradNonFunctional} then {DispatchKey_Undefined} else {}) \<union>
       (if isBackendDispatchKey d then {getAutogradKeyFromBackend (toBackendComponent d)} else {}))"

definition updatable :: "DispatchKey \<Rightarrow> bool" where
  "updatable d \<longleftrightarrow> isRuntimeKey d \<or> isAliasDispatchKey d"

lemma runtime_set:
  assumes "updatable d"
  obtains S where "getRuntimeDispatchKeySet d = Inr S" "\<not> bit S 63" "keyset_runtime_keys S = {k. isRuntimeKey k \<and> included k d}"
proof -
  have d0: "d \<noteq> 0" using assms by (auto simp: updatable_def isRuntimeKey_def isAliasDispatchKey_def)
  have "\<exists>S. getRuntimeDispatchKeySet d = Inr S" using d0 by (simp add: getRuntimeDispatchKeySet_def)
  then obtain S where S: "getRuntimeDispatchKeySet d = Inr S" by blast
  have b63: "\<not> bit S 63"
  proof (cases "isRuntimeKey d")
    case True
    then have "S = DispatchKeySet_of d" using S isRuntimeKey_less [OF True] by (auto simp: getRuntimeDispatchKeySet_def split: if_splits)
    then show ?thesis using isRuntimeKey_functionality [OF True] by (auto simp: bit_runtime_key [OF True] toBackendComponent_def)
  next
    case False
    then have "d \<in> {151, 152, 153, 154, 155, 156}" using assms by (auto simp: updatable_def isAliasDispatchKey_def)
    then show ?thesis using S bit_alias_keysets [of 63]
      by (auto simp: getRuntimeDispatchKeySet_def alias_keyset_defs bit_simps bit_keys_to_repr bit_functionality_key remove_backend_def bit_remove split: if_splits)
  qed
  have "included k d \<longleftrightarrow> has S k" if "isRuntimeKey k" for k
    using runtime_set_membership [OF that, of d] assms S isRuntimeKey_less [OF that]
    by (auto simp: included_def isIncludedInAlias_def updatable_def)
  then have "keyset_runtime_keys S = {k. isRuntimeKey k \<and> included k d}" by (auto simp: keyset_runtime_keys_def)
  then show thesis using that S b63 by blast
qed

lemma autograd_key_runtime: "isBackendDispatchKey d \<Longrightarrow> tableKey (getAutogradKeyFromBackend (toBackendComponent d))"
  using autograd_key_props [of "getAutogradKeyFromBackend (toBackendComponent d)"]
  by (auto simp: tableKey_def getAutogradKeyFromBackend_eq toRuntimePerBackendFunctionalityKey_def)

lemma updateDispatchTable_refreshed:
  assumes inv: "entry_inv e" and d: "updatable d \<or> d = DispatchKey_Undefined"
  obtains h where "updateDispatchTable fallbacks e d = Inr h" "refreshed fallbacks (touched d) e h"
proof (cases "d = DispatchKey_Undefined")
  case True
  have "tableKey 0" by (simp add: tableKey_def)
  then obtain h where "updateDispatchTableEntry fallbacks e 0 = Inr h" "refreshed fallbacks {0} e h"
    by (rule updateEntry_refreshed [OF inv, where fallbacks = fallbacks])
  then show thesis using that [of h] True by (simp add: updateDispatchTable_def touched_def)
next
  case False
  then have "updatable d" using d by simp
  from runtime_set [OF this] obtain S where S: "getRuntimeDispatchKeySet d = Inr S" "\<not> bit S 63"
    "keyset_runtime_keys S = {k. isRuntimeKey k \<and> included k d}" by metis
  from for_keys_set [OF S(2)] obtain l where l: "for_keys S = Inr l" "set l = keyset_runtime_keys S" by metis
  have "\<forall>k \<in> set l. tableKey k" using l(2) by (auto simp: keyset_runtime_keys_def tableKey_def)
  from updateEntries_refreshed [OF inv this] obtain e1 where e1: "foldE (updateDispatchTableEntry fallbacks) e l = Inr e1" "refreshed fallbacks (set l) e e1" by metis
  let ?c = "d \<in> {DispatchKey_CompositeImplicitAutograd, DispatchKey_CompositeExplicitAutograd, DispatchKey_CompositeExplicitAutogradNonFunctional}"
  have i1: "entry_inv e1" using e1(2) by (simp add: refreshed_def)
  have "\<exists>e2. (if ?c then updateDispatchTableEntry fallbacks e1 DispatchKey_Undefined else Inr e1) = Inr e2 \<and> refreshed fallbacks (if ?c then {0} else {}) e1 e2"
  proof (cases ?c)
    case True
    have "tableKey 0" by (simp add: tableKey_def)
    then obtain e2 where "updateDispatchTableEntry fallbacks e1 0 = Inr e2" "refreshed fallbacks {0} e1 e2"
      by (rule updateEntry_refreshed [OF i1, where fallbacks = fallbacks])
    then show ?thesis using True by auto
  next
    case False then show ?thesis using refreshed_refl [OF i1] by auto
  qed
  then obtain e2 where e2: "(if ?c then updateDispatchTableEntry fallbacks e1 DispatchKey_Undefined else Inr e1) = Inr e2"
      "refreshed fallbacks (if ?c then {0} else {}) e1 e2" by blast
  let ?a = "getAutogradKeyFromBackend (toBackendComponent d)"
  have i2: "entry_inv e2" using e2(2) by (simp add: refreshed_def)
  have "\<exists>h. (if isBackendDispatchKey d then updateDispatchTableEntry fallbacks e2 ?a else Inr e2) = Inr h \<and>
      refreshed fallbacks (if isBackendDispatchKey d then {?a} else {}) e2 h"
  proof (cases "isBackendDispatchKey d")
    case True
    from updateEntry_refreshed [OF i2 autograd_key_runtime [OF True], where fallbacks = fallbacks] obtain h where
      "updateDispatchTableEntry fallbacks e2 ?a = Inr h" "refreshed fallbacks {?a} e2 h" by metis
    then show ?thesis using True by auto
  next
    case False then show ?thesis using refreshed_refl [OF i2] by auto
  qed
  then obtain h where h: "(if isBackendDispatchKey d then updateDispatchTableEntry fallbacks e2 ?a else Inr e2) = Inr h"
      "refreshed fallbacks (if isBackendDispatchKey d then {?a} else {}) e2 h" by blast
  have "updateDispatchTable fallbacks e d = Inr h"
    unfolding updateDispatchTable_def S(1) bindE_simps l(1) e1(1) e2(1) h(1) using False by simp
  moreover have "refreshed fallbacks (touched d) e h"
    using refreshed_trans [OF refreshed_trans [OF e1(2) e2(2)] h(2)] False unfolding touched_def l(2) S(3) by simp
  ultimately show thesis using that by blast
qed

end
