(* ===== verification/OperatorUpdates.thy ===== *)
theory OperatorUpdates
  imports OperatorTables
begin

text \<open>
  What a change of one registration or of one backend fallback leaves of the dispatch table: after the incremental
  update every entry is the kernel that the precedence rules select, except where the update forgets an entry
  that depends on the changed key.
\<close>

section \<open>Which entries depend on a key\<close>

text \<open>The registrations whose update forgets an autograd entry that depends on them.\<close>

definition forgets_autograd :: "DispatchKey \<Rightarrow> bool" where
  "forgets_autograd d \<longleftrightarrow> d = DispatchKey_CompositeExplicitAutograd \<or> toFunctionalityKey d = DispatchKey_NestedTensor \<or>
     toFunctionalityKey d \<in> {DispatchKey_Quantized, DispatchKey_Sparse, DispatchKey_SparseCsr} \<and>
       toBackendComponent d \<notin> {BackendComponent_HIPBit, BackendComponent_VEBit}"

lemma included_runtime:
  assumes "isRuntimeKey d"
  shows "included k d \<longleftrightarrow> k = d"
proof -
  have "d \<noteq> 0" "d \<noteq> 151" "d \<noteq> 152" "d \<noteq> 153" "d \<noteq> 154" "d \<noteq> 155" "d \<noteq> 156" using isRuntimeKey_less [OF assms] by auto
  then show ?thesis by (auto simp: included_def isIncludedInAlias_def runtimeDispatchKeySetHas_def)
qed

lemma touched_self: "isRuntimeKey d \<Longrightarrow> d \<in> touched d"
  using included_runtime [of d d] isRuntimeKey_less [of d] by (simp add: touched_def)

lemma touched_backend:
  assumes "isBackendDispatchKey d"
  shows "getAutogradKeyFromBackend (toBackendComponent d) \<in> touched d"
  using assms by (simp add: touched_def isBackendDispatchKey_def)

lemma dense_dependency:
  assumes b: "b \<in> {1..16} - {3, 9}" and d: "isRuntimeKey d" and h: "has (DispatchKeySet_of (49 + b)) d"
  shows "134 + b \<in> touched d"
proof -
  have tb: "toBackendComponent (49 + b) = b" "toFunctionalityKey (49 + b) = 1" using b by (auto simp: toFunctionalityKey_def toBackendComponent_def)
  then have r: "isRuntimeKey (49 + b)" using b by (auto simp: isRuntimeKey_def)
  have eq: "d = 49 + b" using has_DispatchKeySet_of [OF d r] h by simp
  have "toFunctionalityKey d = 1" "toBackendComponent d = b" using tb unfolding eq by simp_all
  moreover from this have "isBackendDispatchKey d" using b eq
    by (auto simp: isBackendDispatchKey_def isAliasDispatchKey_def has_iff_bits bit_alias_keysets)
  ultimately show ?thesis using touched_backend [of d] b by (simp add: getAutogradKeyFromBackend_eq toRuntimePerBackendFunctionalityKey_def)
qed

lemma functionality_of_has:
  assumes "isRuntimeKey d" "has s d"
  shows "bit s (15 + toFunctionalityKey d)"
  using assms isRuntimeKey_functionality [OF assms(1)] isRuntimeKey_less [OF assms(1)] by (simp add: has_iff_bits)

lemma nested_dependency:
  assumes d: "isRuntimeKey d" and h: "has (keyset_union (DispatchKeySet_of DispatchKey_NestedTensor) full_backend_mask) d"
  shows "toFunctionalityKey d = DispatchKey_NestedTensor"
  using functionality_of_has [OF d h] isRuntimeKey_functionality [OF d]
  by (auto simp: keyset_union_def bit_simps bit_DispatchKeySet_of bit_functionality_key toFunctionalityKey_def [of 10] toBackendComponent_def [of 10])

lemma other_dependency:
  assumes d: "isRuntimeKey d" and h: "has autogradother_backends d"
  shows "DispatchKey_AutogradOther \<in> touched d \<or> forgets_autograd d"
proof -
  have f: "toFunctionalityKey d \<in> {2, 3, 4, 5, 6, 7, 8, 9}" using functionality_of_has [OF d h] isRuntimeKey_functionality [OF d]
    by (auto simp: alias_keyset_defs bit_simps bit_keys_to_repr bit_functionality_key)
  have "isBackendDispatchKey d" using h isRuntimeKey_less [OF d] f
    by (auto simp: isBackendDispatchKey_def isAliasDispatchKey_def has_iff_bits backend_dispatch_keyset_def keyset_union_def bit_simps toFunctionalityKey_def [of 10])
  note t = touched_backend [OF this]
  have "toBackendComponent d = 0 \<or> toFunctionalityKey d \<in> {5, 8, 9}"
    using runtime_parts(2) [OF d] f by (auto simp: isPerBackendFunctionalityKey_def)
  then show ?thesis using t by (auto simp: forgets_autograd_def getAutogradKeyFromBackend_eq split: if_splits)
qed

lemma getBackendKeySetFromAutograd_cases:
  "getBackendKeySetFromAutograd k = (if k = DispatchKey_AutogradOther then autogradother_backends
     else if k = DispatchKey_AutogradNestedTensor then keyset_union (DispatchKeySet_of DispatchKey_NestedTensor) full_backend_mask
     else if 135 \<le> k \<and> k \<le> 150 \<and> k \<notin> {137, 143, 145} then DispatchKeySet_of (k - 85) else 0)"
proof (cases "135 \<le> k \<and> k \<le> 150")
  case True
  then have "k \<in> {135, 136, 137, 138, 139, 140, 141, 142, 143, 144, 145, 146, 147, 148, 149, 150}" unfolding insert_iff empty_iff by presburger
  then show ?thesis by (elim insertE emptyE) (simp_all add: getBackendKeySetFromAutograd_def)
qed (auto simp: getBackendKeySetFromAutograd_def)

lemma autograd_dependency:
  assumes d: "isRuntimeKey d" and h: "has (getBackendKeySetFromAutograd k) d"
  shows "k \<in> touched d \<or> forgets_autograd d"
proof -
  have "k \<in> touched d" if k: "135 \<le> k" "k \<le> 150" "k \<notin> {137, 143, 145}" "has (DispatchKeySet_of (k - 85)) d"
  proof -
    have "k - 134 \<in> {1..16} - {3, 9}" "49 + (k - 134) = k - 85" "134 + (k - 134) = k" using k by auto
    then show ?thesis using dense_dependency [OF _ d, of "k - 134"] k(4) by simp
  qed
  moreover have "\<not> has 0 d" using functionality_of_has [OF d, of 0] by auto
  ultimately show ?thesis
    using h nested_dependency [OF d] other_dependency [OF d]
    unfolding getBackendKeySetFromAutograd_cases forgets_autograd_def by (simp split: if_splits)
qed

section \<open>Registrations and the entries of other keys\<close>

text \<open>A registration to \<open>d\<close> matters to the entry of \<open>k\<close> only if the update of \<open>d\<close> recomputes it.\<close>

lemma registered_in_upd:
  assumes "\<not> has s d \<or> isAliasDispatchKey d"
  shows "registered_in (F(d := x)) s = registered_in F s"
  using assms by (auto simp: registered_in_def)

lemma touched_alias:
  assumes "isAliasDispatchKey d" "tableKey k" "k \<notin> touched d"
  shows "\<not> included k d"
    "d \<in> {DispatchKey_CompositeImplicitAutograd, DispatchKey_CompositeExplicitAutograd, DispatchKey_CompositeExplicitAutogradNonFunctional} \<Longrightarrow> k \<noteq> 0"
  using assms not_alias(2) [of d] included_Undefined [of d] by (auto simp: touched_def tableKey_def)

lemma guarded_upd:
  assumes "d = alias \<Longrightarrow> \<not> b"
  shows "guarded b ((F(d := x)) alias) = guarded b (F alias)"
  using assms by (simp add: guarded_def)

lemma implicit_upd:
  assumes d: "updatable d" and k: "tableKey k" "k \<notin> touched d" and ok: "F DispatchKey_CompositeImplicitAutograd = None \<or> \<not> forgets_autograd d"
  shows "guarded (k = 0 \<or> included k DispatchKey_CompositeImplicitAutograd) (implicit_of (F(d := x)) k) =
     guarded (k = 0 \<or> included k DispatchKey_CompositeImplicitAutograd) (implicit_of F k)"
proof (cases "d = DispatchKey_CompositeImplicitAutograd")
  case True
  then have "\<not> (k = 0 \<or> included k DispatchKey_CompositeImplicitAutograd)" using touched_alias [of d k] k by (simp add: isAliasDispatchKey_def)
  then show ?thesis by (simp add: guarded_def)
next
  case False
  show ?thesis
  proof (cases "forgets_autograd d")
    case True
    then show ?thesis using ok False by (simp add: implicit_of_def)
  next
    case ff: False
    have "\<not> has (getBackendKeySetFromAutograd k) d \<or> isAliasDispatchKey d"
      using autograd_dependency [of d k] d k(2) ff by (auto simp: updatable_def)
    note r = registered_in_upd [OF this]
    have "d \<noteq> DispatchKey_CompositeExplicitAutograd" using ff by (simp add: forgets_autograd_def)
    moreover have "registered_in (F(d := x)) autogradother_backends = registered_in F autogradother_backends" if "k = DispatchKey_AutogradOther"
      using r that unfolding getBackendKeySetFromAutograd_cases by simp
    ultimately show ?thesis using False r unfolding implicit_of_def by (auto split: option.splits)
  qed
qed

lemma entry_of_local:
  assumes d: "updatable d" and k: "tableKey k" "k \<notin> touched d" and ok: "F DispatchKey_CompositeImplicitAutograd = None \<or> \<not> forgets_autograd d"
  shows "entry_of (F(d := x)) fallbacks k = entry_of F fallbacks k"
proof -
  have kd: "k \<noteq> d" using touched_self [of d] k not_alias(1) [of k] d by (auto simp: updatable_def)
  have g: "guarded (included k a) ((F(d := x)) a) = guarded (included k a) (F a)" if "isAliasDispatchKey a" for a
    using touched_alias [of d k] k that by (intro guarded_upd) simp
  have u: "guarded (k = 0 \<or> included k a) ((F(d := x)) a) = guarded (k = 0 \<or> included k a) (F a)"
    if "isAliasDispatchKey a" "a \<in> {DispatchKey_CompositeImplicitAutograd, DispatchKey_CompositeExplicitAutograd, DispatchKey_CompositeExplicitAutogradNonFunctional}" for a
    using touched_alias [of d k] k that by (intro guarded_upd) simp
  show ?thesis
    unfolding entry_of_def candidates_def Let_def
    using implicit_upd [where F = F, OF d k ok, where x = x] kd g u by (simp add: isAliasDispatchKey_def del: fun_upd_apply) (simp add: kd)
qed

lemma entry_of_fallback:
  assumes d: "tableKey d" and k: "tableKey k" "k \<noteq> d"
  shows "entry_of F (fallbacks[table_slot d := x]) k = entry_of F fallbacks k"
  using table_slot_inj [of k d] assms by (simp add: entry_of_def candidates_def Let_def)

end
