(* ===== verification/OperatorRegistration.thy ===== *)
theory OperatorRegistration
  imports OperatorUpdates
begin

text \<open>
  Registration and deregistration of kernels and of backend fallbacks, against the kernel that the precedence
  rules select for every key.
\<close>

section \<open>The newest kernels\<close>

lemma map_of_push:
  "map_of (push_kernel k a m) j = (if j = k then Some (a # (case map_of m k of None \<Rightarrow> [] | Some l \<Rightarrow> l)) else map_of m j)"
proof (cases "map_of m k")
  case (Some l)
  have "map_of (map (\<lambda>(k', l). if k' = k then (k', a # l) else (k', l)) m) j = (if j = k then map_option ((#) a) (map_of m j) else map_of m j)" for m j
    by (induction m) auto
  then show ?thesis using Some by (simp add: push_kernel_def)
qed (simp add: push_kernel_def)

lemma update_fst: "map fst (map (\<lambda>(k', l). if k' = k then (k', f l) else (k', l)) m) = map fst m"
  by (induction m) auto

lemma distinct_push:
  assumes "distinct (map fst m)"
  shows "distinct (map fst (push_kernel k a m))"
proof (cases "map_of m k")
  case None
  have "k \<notin> set (map fst m)" using None by (simp add: map_of_eq_None_iff)
  then show ?thesis unfolding push_kernel_def None using assms by simp
next
  case (Some l) then show ?thesis unfolding push_kernel_def Some using assms by (simp only: option.case update_fst)
qed

lemma kernels_ok_map_of:
  "kernels_ok e \<longleftrightarrow> distinct (map fst (kernels e)) \<and>
     (\<forall>k l. map_of (kernels e) k = Some l \<longrightarrow> l \<noteq> [] \<and> (\<forall>a \<in> set l. isValid (ak_kernel a)) \<and> updatable k)"
proof -
  have "(\<forall>(k, l) \<in> set m. P k l) \<longleftrightarrow> (\<forall>k l. map_of m k = Some l \<longrightarrow> P k l)" if "distinct (map fst m)" for m and P :: "DispatchKey \<Rightarrow> annotated_kernel list \<Rightarrow> bool"
    using map_of_eq_Some_iff [OF that] by (simp add: Ball_def split_paired_all)
  then show ?thesis unfolding kernels_ok_def updatable_def by (intro conj_cong refl)
qed

lemma newest_push: "newest (e\<lparr> kernels := push_kernel k a (kernels e) \<rparr>) = (newest e)(k := Some a)"
  by (rule ext) (simp add: newest_def map_of_push)

lemma kernels_ok_push:
  assumes "kernels_ok e" "isValid (ak_kernel a)" "updatable k"
  shows "kernels_ok (e\<lparr> kernels := push_kernel k a (kernels e) \<rparr>)"
  using assms distinct_push [of "kernels e" k a] by (auto simp: kernels_ok_map_of map_of_push split: option.splits)

text \<open>The kernels of a key that are left when the one with the given handle is removed.\<close>

definition remaining :: "operator_entry \<Rightarrow> DispatchKey \<Rightarrow> nat \<Rightarrow> annotated_kernel list" where
  "remaining e k handle = filter (\<lambda>a. ak_handle a \<noteq> handle) (case map_of (kernels e) k of None \<Rightarrow> [] | Some l \<Rightarrow> l)"

definition first_option :: "'a list \<Rightarrow> 'a option" where
  "first_option l = (case l of [] \<Rightarrow> None | a # _ \<Rightarrow> Some a)"

lemma drop_simps:
  "drop_kernel k handle [] = []"
  "drop_kernel k handle ((j, l) # m) = (if j = k then (let l' = filter (\<lambda>a. ak_handle a \<noteq> handle) l in if l' = [] then drop_kernel k handle m else (j, l') # drop_kernel k handle m)
     else (j, l) # drop_kernel k handle m)"
  by (simp_all add: drop_kernel_def Let_def)

lemma drop_absent: "k \<notin> fst ` set m \<Longrightarrow> drop_kernel k handle m = m"
  by (induction m) (auto simp: drop_simps)

lemma drop_fst: "fst ` set (drop_kernel k handle m) \<subseteq> fst ` set m"
  by (auto simp: drop_kernel_def image_iff split: if_splits) force+

lemma distinct_drop: "distinct (map fst m) \<Longrightarrow> distinct (map fst (drop_kernel k handle m))"
proof (induction m)
  case (Cons x m)
  then show ?case using drop_fst [of k handle m] by (cases x) (auto simp: drop_simps Let_def)
qed (simp add: drop_simps)

lemma map_of_drop:
  assumes "distinct (map fst m)"
  shows "map_of (drop_kernel k handle m) j = (if j = k then (case map_of m k of None \<Rightarrow> None
     | Some l \<Rightarrow> let l' = filter (\<lambda>a. ak_handle a \<noteq> handle) l in if l' = [] then None else Some l') else map_of m j)"
  using assms
proof (induction m)
  case (Cons x m)
  obtain i l where x: "x = (i, l)" by (cases x)
  show ?case
  proof (cases "i = k")
    case True
    then have "drop_kernel k handle m = m" "map_of m k = None" using Cons.prems x drop_absent [of k m] by (auto simp: map_of_eq_None_iff)
    then show ?thesis using x True by (simp add: drop_simps Let_def)
  next
    case False then show ?thesis using Cons.IH Cons.prems x by (cases "j = k") (auto simp: drop_simps)
  qed
qed (simp add: drop_simps)

lemma newest_drop:
  assumes "kernels_ok e"
  shows "newest (e\<lparr> kernels := drop_kernel k handle (kernels e) \<rparr>) = (newest e)(k := first_option (remaining e k handle))"
proof (rule ext)
  have d: "distinct (map fst (kernels e))" using assms by (simp add: kernels_ok_def)
  show "newest (e\<lparr> kernels := drop_kernel k handle (kernels e) \<rparr>) j = ((newest e)(k := first_option (remaining e k handle))) j" for j
    by (cases "map_of (kernels e) k") (simp_all add: newest_def map_of_drop [OF d] remaining_def first_option_def Let_def split: list.splits)
qed

lemma kernels_ok_drop:
  assumes "kernels_ok e"
  shows "kernels_ok (e\<lparr> kernels := drop_kernel k handle (kernels e) \<rparr>)"
proof -
  have d: "distinct (map fst (kernels e))" using assms by (simp add: kernels_ok_def)
  show ?thesis using assms distinct_drop [OF d]
    by (auto simp: kernels_ok_map_of map_of_drop [OF d] Let_def split: option.splits if_splits)
qed

section \<open>Up-to-date tables\<close>

text \<open>Every slot holds the kernel that the precedence rules select.\<close>

definition up_to_date :: "annotated_kernel list \<Rightarrow> operator_entry \<Rightarrow> bool" where
  "up_to_date fallbacks e \<longleftrightarrow> (\<forall>k. tableKey k \<longrightarrow> dispatchTable e ! table_slot k = ak_kernel (entry_of (newest e) fallbacks k))"

lemma refreshed_newest: "refreshed fallbacks K e h \<Longrightarrow> newest h = newest e"
  by (auto simp: refreshed_def newest_same)

lemma refreshed_up_to_date:
  assumes "refreshed fallbacks K e h" "\<forall>k. tableKey k \<and> k \<notin> K \<longrightarrow> dispatchTable e ! table_slot k = ak_kernel (entry_of (newest e) fallbacks k)"
  shows "up_to_date fallbacks h"
  using assms refreshed_newest [OF assms(1)] unfolding up_to_date_def refreshed_def by simp

lemma entry_inv_kernels:
  assumes "entry_inv e" "kernels_ok (e\<lparr> kernels := m \<rparr>)"
  shows "entry_inv (e\<lparr> kernels := m \<rparr>)"
proof -
  have "table_fallthrough (e\<lparr> kernels := m \<rparr>) = table_fallthrough e" by (rule ext) (simp add: table_fallthrough_def)
  then show ?thesis using assms by (simp add: entry_inv_def)
qed

text \<open>The update after a change of the registrations of \<open>d\<close> recomputes every entry that depends on them.\<close>

definition update_complete :: "operator_entry \<Rightarrow> DispatchKey \<Rightarrow> bool" where
  "update_complete e d \<longleftrightarrow> newest e DispatchKey_CompositeImplicitAutograd = None \<or> \<not> forgets_autograd d"

text \<open>The incremental update after a change of the registrations of one key.\<close>

lemma update_after_change:
  assumes inv: "entry_inv (e\<lparr> kernels := m \<rparr>)" and d: "updatable d"
    and F: "newest (e\<lparr> kernels := m \<rparr>) = (newest e)(d := x)"
  obtains h where "updateDispatchTable fallbacks (e\<lparr> kernels := m \<rparr>) d = Inr h" "entry_inv h" "newest h = (newest e)(d := x)"
    "same_registrations (e\<lparr> kernels := m \<rparr>) h"
    "up_to_date fallbacks e \<and> update_complete e d \<longrightarrow> up_to_date fallbacks h"
    "\<forall>k. tableKey k \<and> k \<notin> touched d \<longrightarrow> dispatchTable h ! table_slot k = dispatchTable e ! table_slot k"
proof -
  have d': "updatable d \<or> d = DispatchKey_Undefined" using d by simp
  obtain h where h: "updateDispatchTable fallbacks (e\<lparr> kernels := m \<rparr>) d = Inr h" "refreshed fallbacks (touched d) (e\<lparr> kernels := m \<rparr>) h"
    by (rule updateDispatchTable_refreshed [OF inv d', where fallbacks = fallbacks])
  have "up_to_date fallbacks h" if e: "up_to_date fallbacks e \<and> update_complete e d"
  proof (rule refreshed_up_to_date [OF h(2)], intro allI impI)
    fix k assume k: "tableKey k \<and> k \<notin> touched d"
    have "entry_of ((newest e)(d := x)) fallbacks k = entry_of (newest e) fallbacks k"
      using k e by (intro entry_of_local d) (simp_all add: update_complete_def)
    then show "dispatchTable (e\<lparr> kernels := m \<rparr>) ! table_slot k = ak_kernel (entry_of (newest (e\<lparr> kernels := m \<rparr>)) fallbacks k)"
      using e k unfolding F up_to_date_def by simp
  qed
  moreover have "entry_inv h" "same_registrations (e\<lparr> kernels := m \<rparr>) h"
      "\<forall>k. tableKey k \<and> k \<notin> touched d \<longrightarrow> dispatchTable h ! table_slot k = dispatchTable e ! table_slot k" using h(2) by (simp_all add: refreshed_def)
  ultimately show thesis using that h(1) refreshed_newest [OF h(2)] F by simp
qed

lemma update_many:
  assumes "entry_inv e" "\<forall>k \<in> set l. isRuntimeKey k"
  shows "\<exists>h. foldE (updateDispatchTable fallbacks) e l = Inr h \<and> refreshed fallbacks (\<Union>k \<in> set l. touched k) e h"
  using assms
proof (induction l arbitrary: e)
  case Nil then show ?case by (simp add: refreshed_refl)
next
  case (Cons k l)
  have "updatable k \<or> k = DispatchKey_Undefined" using Cons.prems(2) by (simp add: updatable_def)
  then obtain f where f: "updateDispatchTable fallbacks e k = Inr f" "refreshed fallbacks (touched k) e f"
    by (rule updateDispatchTable_refreshed [OF Cons.prems(1), where fallbacks = fallbacks])
  have "entry_inv f" using f(2) by (simp add: refreshed_def)
  then obtain h where "foldE (updateDispatchTable fallbacks) f l = Inr h" "refreshed fallbacks (\<Union>k \<in> set l. touched k) f h"
    using Cons.IH [of f] Cons.prems(2) by auto
  then show ?case using f refreshed_trans [OF f(2)] by (intro exI [of _ h]) simp
qed

lemma updateFull_up_to_date:
  assumes inv: "entry_inv e"
  obtains h where "updateDispatchTableFull fallbacks e = Inr h" "entry_inv h" "same_registrations e h" "newest h = newest e" "up_to_date fallbacks h"
proof -
  have "updatable (0::DispatchKey) \<or> (0::DispatchKey) = DispatchKey_Undefined" by simp
  then obtain f where f: "updateDispatchTable fallbacks e 0 = Inr f" "refreshed fallbacks (touched 0) e f"
    by (rule updateDispatchTable_refreshed [OF inv, where fallbacks = fallbacks])
  obtain l where l: "for_keys DispatchKeySet_full = Inr l" "set l = {k. isRuntimeKey k}"
    using for_keys_set [OF runtime_keys_full(2)] runtime_keys_full(1) by metis
  have "entry_inv f" using f(2) by (simp add: refreshed_def)
  then obtain h where h: "foldE (updateDispatchTable fallbacks) f l = Inr h" "refreshed fallbacks (\<Union>k \<in> set l. touched k) f h"
    using update_many [of f l fallbacks] l(2) by auto
  let ?K = "touched 0 \<union> (\<Union>k \<in> set l. touched k)"
  have r: "refreshed fallbacks ?K e h" by (rule refreshed_trans [OF f(2) h(2)])
  have "k \<in> ?K" if "tableKey k" for k using that touched_self [of k] l(2) by (auto simp: tableKey_def touched_def [of 0])
  then have "up_to_date fallbacks h" by (intro refreshed_up_to_date [OF r]) auto
  then show thesis using that [of h] f(1) l(1) h(1) r refreshed_newest [OF r]
    by (simp add: updateDispatchTableFull_def allDispatchKeysInFullSet_def refreshed_def)
qed

section \<open>Registration of kernels\<close>

text \<open>The C++ signature of a new kernel agrees with the one known for the operator, and its inferred schema with the definition.\<close>

definition signature_ok :: "nat option \<Rightarrow> annotated_kernel \<Rightarrow> operator_entry \<Rightarrow> bool" where
  "signature_ok sig a e \<longleftrightarrow> (let known = (if kf_symUnboxed (ak_kernel a) then sym_cpp_signature e else cpp_signature e) in sig = None \<or> known = None \<or> sig = known)"

definition schema_ok :: "(op_schema \<Rightarrow> bool \<Rightarrow> op_schema \<Rightarrow> bool) \<Rightarrow> annotated_kernel \<Rightarrow> operator_entry \<Rightarrow> bool" where
  "schema_ok differs a e \<longleftrightarrow> (case (oe_schema e, ak_inferred a) of
     (Some (schema, _), Some inferred) \<Rightarrow> \<not> differs schema (kf_symUnboxed (ak_kernel a)) inferred | _ \<Rightarrow> True)"

definition same_schema :: "operator_entry \<Rightarrow> operator_entry \<Rightarrow> bool" where
  "same_schema e h \<longleftrightarrow> oe_schema h = oe_schema e \<and> oe_name h = oe_name e \<and>
     dispatch_arg_indices_reverse (dispatchKeyExtractor h) = dispatch_arg_indices_reverse (dispatchKeyExtractor e)"

definition registered_key :: "DispatchKey option \<Rightarrow> DispatchKey" where
  "registered_key dispatch_key = (case dispatch_key of Some k \<Rightarrow> k | None \<Rightarrow> DispatchKey_CompositeImplicitAutograd)"

lemma register_signature_cases:
  "if signature_ok sig a e
   then \<exists>c s. register_signature sig (kf_symUnboxed (ak_kernel a)) e = Inr (e\<lparr> cpp_signature := c, sym_cpp_signature := s \<rparr>)
   else register_signature sig (kf_symUnboxed (ak_kernel a)) e = Inl (CheckError ''Mismatch in kernel C++ signatures'')"
proof -
  have same: "\<exists>c s. Inr e = Inr (e\<lparr> cpp_signature := c, sym_cpp_signature := s \<rparr>)"
    by (intro exI [of _ "cpp_signature e"] exI [of _ "sym_cpp_signature e"]) simp
  have new: "\<exists>c s. Inr (e\<lparr> sym_cpp_signature := x \<rparr>) = Inr (e\<lparr> cpp_signature := c, sym_cpp_signature := s \<rparr>)"
    "\<exists>c s. Inr (e\<lparr> cpp_signature := x \<rparr>) = Inr (e\<lparr> cpp_signature := c, sym_cpp_signature := s \<rparr>)" for x
    by (intro exI [of _ "cpp_signature e"] exI [of _ x], simp) (intro exI [of _ x] exI [of _ "sym_cpp_signature e"], simp)
  let ?known = "if kf_symUnboxed (ak_kernel a) then sym_cpp_signature e else cpp_signature e"
  show ?thesis
  proof (cases sig)
    case None then show ?thesis using same by (simp add: signature_ok_def register_signature_def Let_def)
  next
    case (Some x)
    show ?thesis
    proof (cases ?known)
      case None then show ?thesis using Some new [of "Some x"] by (simp add: signature_ok_def register_signature_def Let_def)
    next
      case (Some y)
      then show ?thesis using \<open>sig = Some x\<close> same by (cases "x = y") (simp_all add: signature_ok_def register_signature_def Let_def check_def)
    qed
  qed
qed

lemma checkSchema_cases:
  "(case oe_schema e of None \<Rightarrow> Inr () | Some (schema, _) \<Rightarrow> checkSchema differs schema a) =
     (if schema_ok differs a e then Inr () else Inl (CheckError ''Inferred operator schema for a C++ kernel function doesn't match the expected function schema.''))"
  by (auto simp: schema_ok_def checkSchema_def check_def split: option.splits)

lemma entry_inv_signatures:
  "entry_inv (e\<lparr> cpp_signature := c, sym_cpp_signature := s \<rparr>) = entry_inv e"
  "newest (e\<lparr> cpp_signature := c, sym_cpp_signature := s \<rparr>) = newest e"
  "up_to_date fallbacks (e\<lparr> cpp_signature := c, sym_cpp_signature := s \<rparr>) = up_to_date fallbacks e"
proof -
  show n: "newest (e\<lparr> cpp_signature := c, sym_cpp_signature := s \<rparr>) = newest e" by (rule ext) (simp add: newest_def)
  have "table_fallthrough (e\<lparr> cpp_signature := c, sym_cpp_signature := s \<rparr>) = table_fallthrough e" by (rule ext) (simp add: table_fallthrough_def)
  then show "entry_inv (e\<lparr> cpp_signature := c, sym_cpp_signature := s \<rparr>) = entry_inv e" by (simp add: entry_inv_def kernels_ok_def)
  show "up_to_date fallbacks (e\<lparr> cpp_signature := c, sym_cpp_signature := s \<rparr>) = up_to_date fallbacks e" by (simp add: up_to_date_def n)
qed

lemma registerKernel_ok:
  assumes inv: "entry_inv e" and a: "isValid (ak_kernel a)" and k: "updatable (registered_key dispatch_key)"
    and sig: "signature_ok sig a e" and sch: "schema_ok differs a e"
  obtains h where "registerKernel differs fallbacks dispatch_key a sig e = Inr h" "entry_inv h"
    "newest h = (newest e)(registered_key dispatch_key := Some a)" "kernels h = push_kernel (registered_key dispatch_key) a (kernels e)"
    "same_schema e h"
    "dispatch_key = None \<or> up_to_date fallbacks e \<and> update_complete e (registered_key dispatch_key) \<longrightarrow> up_to_date fallbacks h"
    "\<forall>k d. dispatch_key = Some d \<and> tableKey k \<and> k \<notin> touched d \<longrightarrow> dispatchTable h ! table_slot k = dispatchTable e ! table_slot k"
proof -
  obtain c s where cs: "register_signature sig (kf_symUnboxed (ak_kernel a)) e = Inr (e\<lparr> cpp_signature := c, sym_cpp_signature := s \<rparr>)"
    using register_signature_cases [of sig a e] sig by auto
  let ?e = "e\<lparr> cpp_signature := c, sym_cpp_signature := s \<rparr>" and ?k = "registered_key dispatch_key"
  let ?f = "?e\<lparr> kernels := push_kernel ?k a (kernels ?e) \<rparr>"
  have sch': "schema_ok differs a ?e" using sch by (simp add: schema_ok_def)
  have i: "entry_inv ?e" "up_to_date fallbacks ?e = up_to_date fallbacks e" "newest ?e = newest e" using inv entry_inv_signatures by simp_all
  then have kok: "kernels_ok ?e" by (simp add: entry_inv_def)
  have f: "entry_inv ?f" by (rule entry_inv_kernels [OF i(1) kernels_ok_push [OF kok a k]])
  have n: "newest ?f = (newest ?e)(?k := Some a)" by (rule newest_push)
  have run: "registerKernel differs fallbacks dispatch_key a sig e =
      (case dispatch_key of Some k \<Rightarrow> updateDispatchTable fallbacks ?f k | None \<Rightarrow> updateDispatchTableFull fallbacks ?f)"
    unfolding registerKernel_def cs bindE_simps checkSchema_cases if_P [OF sch'] Let_def unfolding registered_key_def by (rule refl)
  show thesis
  proof (cases dispatch_key)
    case None
    obtain h where "updateDispatchTableFull fallbacks ?f = Inr h" "entry_inv h" "same_registrations ?f h" "newest h = newest ?f" "up_to_date fallbacks h"
      by (rule updateFull_up_to_date [OF f, where fallbacks = fallbacks])
    then show thesis using that [of h] run n i(3) None by (simp add: same_registrations_def same_schema_def)
  next
    case (Some d)
    then have d: "?k = d" by (simp add: registered_key_def)
    obtain h where "updateDispatchTable fallbacks ?f ?k = Inr h" "entry_inv h" "newest h = (newest ?e)(?k := Some a)" "same_registrations ?f h"
        "up_to_date fallbacks ?e \<and> update_complete ?e ?k \<longrightarrow> up_to_date fallbacks h"
        "\<forall>k. tableKey k \<and> k \<notin> touched ?k \<longrightarrow> dispatchTable h ! table_slot k = dispatchTable ?e ! table_slot k"
      by (rule update_after_change [OF f k n, where fallbacks = fallbacks])
    then show thesis using that [of h] run i(2,3) Some d by (simp add: same_registrations_def same_schema_def update_complete_def)
  qed
qed

lemma registerKernel_fails:
  "\<not> signature_ok sig a e \<Longrightarrow> registerKernel differs fallbacks dispatch_key a sig e = Inl (CheckError ''Mismatch in kernel C++ signatures'')"
  "signature_ok sig a e \<Longrightarrow> \<not> schema_ok differs a e \<Longrightarrow> registerKernel differs fallbacks dispatch_key a sig e =
     Inl (CheckError ''Inferred operator schema for a C++ kernel function doesn't match the expected function schema.'')"
proof -
  show "registerKernel differs fallbacks dispatch_key a sig e = Inl (CheckError ''Mismatch in kernel C++ signatures'')" if "\<not> signature_ok sig a e"
    using register_signature_cases [of sig a e] that by (simp add: registerKernel_def)
  assume s: "signature_ok sig a e" "\<not> schema_ok differs a e"
  obtain c s where cs: "register_signature sig (kf_symUnboxed (ak_kernel a)) e = Inr (e\<lparr> cpp_signature := c, sym_cpp_signature := s \<rparr>)"
    using register_signature_cases [of sig a e] s by auto
  have "\<not> schema_ok differs a (e\<lparr> cpp_signature := c, sym_cpp_signature := s \<rparr>)" using s by (simp add: schema_ok_def)
  then show "registerKernel differs fallbacks dispatch_key a sig e = Inl (CheckError ''Inferred operator schema for a C++ kernel function doesn't match the expected function schema.'')"
    unfolding registerKernel_def cs bindE_simps checkSchema_cases by simp
qed

lemma deregisterKernel_ok:
  assumes inv: "entry_inv e" and k: "map_of (kernels e) (registered_key dispatch_key) \<noteq> None"
  obtains h where "deregisterKernel fallbacks dispatch_key handle e = Inr h" "entry_inv h"
    "newest h = (newest e)(registered_key dispatch_key := first_option (remaining e (registered_key dispatch_key) handle))"
    "kernels h = drop_kernel (registered_key dispatch_key) handle (kernels e)" "same_schema e h"
    "up_to_date fallbacks e \<and> update_complete e (registered_key dispatch_key) \<longrightarrow> up_to_date fallbacks h"
proof -
  let ?k = "registered_key dispatch_key"
  have kok: "kernels_ok e" using inv by (simp add: entry_inv_def)
  obtain l where "map_of (kernels e) ?k = Some l" using k by auto
  then have u: "updatable ?k" using kok by (auto simp: kernels_ok_map_of)
  let ?f = "e\<lparr> kernels := drop_kernel ?k handle (kernels e) \<rparr>"
  have f: "entry_inv ?f" by (rule entry_inv_kernels [OF inv kernels_ok_drop [OF kok]])
  have n: "newest ?f = (newest e)(?k := first_option (remaining e ?k handle))" by (rule newest_drop [OF kok])
  have run: "deregisterKernel fallbacks dispatch_key handle e = updateDispatchTable fallbacks ?f ?k"
    using k by (simp add: deregisterKernel_def registered_key_def check_def Let_def)
  obtain h where "updateDispatchTable fallbacks ?f ?k = Inr h" "entry_inv h" "newest h = (newest e)(?k := first_option (remaining e ?k handle))"
      "same_registrations ?f h" "up_to_date fallbacks e \<and> update_complete e ?k \<longrightarrow> up_to_date fallbacks h"
    by (rule update_after_change [OF f u n, where fallbacks = fallbacks])
  then show thesis using that [of h] run by (simp add: same_registrations_def same_schema_def)
qed

text \<open>A backend fallback that is set or removed concerns a single slot.\<close>

lemma updateFallback_ok:
  assumes inv: "entry_inv e" and d: "tableKey d"
  obtains h where "updateFallback (fallbacks[table_slot d := x]) e d = Inr h" "entry_inv h" "same_registrations e h" "newest h = newest e"
    "up_to_date fallbacks e \<longrightarrow> up_to_date (fallbacks[table_slot d := x]) h"
proof -
  have d': "updatable d \<or> d = DispatchKey_Undefined" using d by (auto simp: updatable_def tableKey_def)
  have self: "d \<in> touched d" using d touched_self [of d] by (auto simp: tableKey_def touched_def [of 0])
  obtain h where h: "updateDispatchTable (fallbacks[table_slot d := x]) e d = Inr h" "refreshed (fallbacks[table_slot d := x]) (touched d) e h"
    by (rule updateDispatchTable_refreshed [OF inv d', where fallbacks = "fallbacks[table_slot d := x]"])
  have "up_to_date (fallbacks[table_slot d := x]) h" if up: "up_to_date fallbacks e"
  proof (rule refreshed_up_to_date [OF h(2)], intro allI impI)
    fix k assume k: "tableKey k \<and> k \<notin> touched d"
    then have "k \<noteq> d" using self by auto
    then show "dispatchTable e ! table_slot k = ak_kernel (entry_of (newest e) (fallbacks[table_slot d := x]) k)"
      using entry_of_fallback [OF d, of k] k up by (simp add: up_to_date_def)
  qed
  then show thesis using that [of h] h refreshed_newest [OF h(2)] by (simp add: updateFallback_def refreshed_def)
qed

end
