(* ===== verification/OperatorDispatch.thy ===== *)
theory OperatorDispatch
  imports OperatorRegistration
begin

text \<open>
  The life of an operator entry: construction, registrations, deregistrations and changes of the backend fallbacks
  in any order, and calls through the resulting table.
\<close>

section \<open>Construction\<close>

lemma index_fold:
  assumes "\<forall>k \<in> set l. isRuntimeKey k" "distinct l" "length arr = 138" "\<forall>k \<in> set l. arr ! table_slot k = 0"
  shows "\<exists>arr'. foldE index_to_key_step arr l = Inr arr' \<and> length arr' = 138 \<and> (\<forall>k \<in> set l. arr' ! table_slot k = k) \<and>
    (\<forall>i. i \<notin> table_slot ` set l \<longrightarrow> arr' ! i = arr ! i)"
  using assms
proof (induction l arbitrary: arr)
  case (Cons k l)
  have tk: "tableKey k" "\<forall>j \<in> set l. tableKey j" using Cons.prems(1) by (auto simp: tableKey_def)
  have ne: "\<forall>j \<in> set l. table_slot j \<noteq> table_slot k" using table_slot_inj tk Cons.prems(2) by (metis distinct.simps(2))
  let ?arr = "arr[table_slot k := k]"
  have st: "index_to_key_step arr k = Inr ?arr"
    using table_index [OF tk(1)] table_slot_less [OF tk(1)] Cons.prems(3,4) by (simp add: index_to_key_step_def check_def)
  have "\<forall>j \<in> set l. ?arr ! table_slot j = 0" using ne Cons.prems(4) by (metis list.set_intros(2) nth_list_update_neq)
  then obtain arr' where arr': "foldE index_to_key_step ?arr l = Inr arr'" "length arr' = 138" "\<forall>j \<in> set l. arr' ! table_slot j = j"
      "\<forall>i. i \<notin> table_slot ` set l \<longrightarrow> arr' ! i = ?arr ! i"
    using Cons.IH [of ?arr] Cons.prems(1-3) by auto
  have "table_slot k \<notin> table_slot ` set l" using ne by auto
  then have "arr' ! table_slot k = k" using arr'(4) table_slot_less [OF tk(1)] Cons.prems(3) by simp
  then show ?case using st arr' by (intro exI [of _ arr']) simp
qed simp

lemma index_to_key:
  obtains arr where "getDispatchTableIndexToKey = Inr arr" "length arr = 138" "\<forall>k. tableKey k \<longrightarrow> arr ! table_slot k = k"
proof -
  obtain l where l: "for_keys DispatchKeySet_full = Inr l" "set l = {k. isRuntimeKey k}" "distinct l"
    using for_keys_set [OF runtime_keys_full(2)] runtime_keys_full(1) by metis
  let ?z = "replicate num_runtime_entries DispatchKey_Undefined"
  have z: "length ?z = 138" by (simp add: num_runtime_entries_eq)
  have lt: "table_slot k < 138" if "k \<in> set l" for k using that l(2) table_slot_less [of k] by (simp add: tableKey_def)
  obtain arr where arr: "foldE index_to_key_step ?z l = Inr arr" "length arr = 138" "\<forall>k \<in> set l. arr ! table_slot k = k"
      "\<forall>i. i \<notin> table_slot ` set l \<longrightarrow> arr ! i = ?z ! i"
    using index_fold [of l ?z] l z lt by auto
  have "table_slot ` set l = {1..<138}"
    using arg_cong [OF runtime_key_list_slots, of set] by (simp add: l(2) set_runtime_key_list [symmetric] del: upt_rec_numeral)
  note slots = this
  have a0: "arr ! 0 = 0" using arr(4) slots by simp
  have "arr ! i \<noteq> 0" if "i \<in> set [1..<138]" for i
  proof -
    have "i \<in> table_slot ` set l" unfolding slots using that by (simp only: set_upt)
    then obtain k where "k \<in> set l" "i = table_slot k" by blast
    then show ?thesis using arr(3) l(2) isRuntimeKey_less [of k] by simp
  qed
  note a1 = this
  have t0: "tableKey 0" by (simp add: tableKey_def)
  have "getDispatchTableIndexToKey = Inr arr"
    using l(1) arr(1,2) a0 a1 table_index [OF t0] table_slot_Undefined
    by (simp add: getDispatchTableIndexToKey_def allDispatchKeysInFullSet_def check_def del: upt_rec_numeral)
  moreover have "\<forall>k. tableKey k \<longrightarrow> arr ! table_slot k = k" using arr(3) a0 l(2) table_slot_Undefined by (auto simp: tableKey_def)
  ultimately show thesis using that arr(2) by blast
qed

lemma entry_of_empty:
  "entry_of (\<lambda>_. None) fallbacks k = (if isValid (ak_kernel (fallbacks ! table_slot k)) then fallbacks ! table_slot k else missingKernel)"
  by (simp add: entry_of_def candidates_def guarded_def implicit_of_def Let_def)

lemma not_fallthrough_missing: "\<not> isFallthrough (ak_kernel missingKernel)"
  by (simp add: isFallthrough_def isValid_def missingKernel_def)

text \<open>One slot is filled with its backend fallback.\<close>

definition slot_filled :: "annotated_kernel list \<Rightarrow> DispatchKey set \<Rightarrow> operator_entry \<Rightarrow> operator_entry \<Rightarrow> bool" where
  "slot_filled fallbacks K e h \<longleftrightarrow> same_registrations e h \<and> entry_inv h \<and>
     (\<forall>k. tableKey k \<longrightarrow> dispatchTable h ! table_slot k = (if k \<in> K then ak_kernel (entry_of (\<lambda>_. None) fallbacks k) else dispatchTable e ! table_slot k))"

lemma constructor_step_ok:
  assumes inv: "entry_inv e" and k: "tableKey k" and arr: "arr ! table_slot k = k" and old: "dispatchTable e ! table_slot k = ak_kernel missingKernel"
  obtains h where "constructor_step fallbacks arr e (table_slot k) = Inr h" "slot_filled fallbacks {k} e h"
proof -
  let ?n = "ak_kernel (entry_of (\<lambda>_. None) fallbacks k)"
  let ?h = "\<lambda>x. e\<lparr> dispatchTable := (dispatchTable e)[table_slot k := ?n], dispatchKeyExtractor := x \<rparr>"
  have ok: "kernels_ok e" "length (dispatchTable e) = 138" "extractor_ok (table_fallthrough e) (dispatchKeyExtractor e)"
    using inv by (simp_all add: entry_inv_def)
  have ft: "table_fallthrough (?h x) j = (if j = k then isFallthrough ?n else table_fallthrough e j)" if "isRuntimeKey j" for j x
    using table_slot_inj [OF k, of j] table_slot_less [OF k] ok(2) that by (auto simp: table_fallthrough_def tableKey_def nth_list_update)
  have tab: "dispatchTable (?h x) ! table_slot j = (if j \<in> {k} then ak_kernel (entry_of (\<lambda>_. None) fallbacks j) else dispatchTable e ! table_slot j)" if "tableKey j" for j x
    using table_slot_inj [OF k that] table_slot_less [OF k] ok(2) by (auto simp: nth_list_update)
  have goal: "slot_filled fallbacks {k} e (?h x)" if "extractor_ok ft x" "dispatch_arg_indices_reverse x = dispatch_arg_indices_reverse (dispatchKeyExtractor e)" "\<And>j. isRuntimeKey j \<Longrightarrow> ft j = (if j = k then isFallthrough ?n else table_fallthrough e j)" for ft x
  proof -
    have "extractor_ok (table_fallthrough (?h x)) x = extractor_ok ft x" by (rule extractor_ok_cong) (simp only: ft that(3))
    then have "entry_inv (?h x)" using that(1) ok by (simp add: entry_inv_def kernels_ok_def)
    then show ?thesis using tab that(2) by (simp add: slot_filled_def same_registrations_def)
  qed
  have nf: "\<not> table_fallthrough e k" using old not_fallthrough_missing by (simp add: table_fallthrough_def)
  show thesis
  proof (cases "isFallthrough ?n")
    case True
    then have v: "isValid (ak_kernel (fallbacks ! table_slot k))" "?n = ak_kernel (fallbacks ! table_slot k)"
      using not_fallthrough_missing by (auto simp: entry_of_empty split: if_splits)
    show thesis
    proof (cases "k = 0")
      case True
      have "table_fallthrough e j = (if j = k then isFallthrough ?n else table_fallthrough e j)" if "isRuntimeKey j" for j
        using True isRuntimeKey_less [OF that] by auto
      then have "slot_filled fallbacks {k} e (?h (dispatchKeyExtractor e))" by (rule goal [OF ok(3) refl])
      moreover have "constructor_step fallbacks arr e (table_slot k) = Inr (?h (dispatchKeyExtractor e))"
        using True v arr \<open>isFallthrough ?n\<close> setOperatorHasFallthrough_Undefined by (simp add: constructor_step_def Let_def)
      ultimately show thesis using that by blast
    next
      case False
      then have "isRuntimeKey k" using k by (simp add: tableKey_def)
      then obtain y where y: "setOperatorHasFallthroughForKey k True (dispatchKeyExtractor e) = Inr y" "extractor_ok ((table_fallthrough e)(k := True)) y"
          "dispatch_arg_indices_reverse y = dispatch_arg_indices_reverse (dispatchKeyExtractor e)"
        by (rule setOperatorHasFallthrough_ok [OF _ ok(3), where v = True])
      have "slot_filled fallbacks {k} e (?h y)" using True by (intro goal [OF y(2,3)]) simp
      moreover have "constructor_step fallbacks arr e (table_slot k) = Inr (?h y)" using v arr True y(1) by (simp add: constructor_step_def Let_def)
      ultimately show thesis using that by blast
    qed
  next
    case False
    have "slot_filled fallbacks {k} e (?h (dispatchKeyExtractor e))" using nf False by (intro goal [OF ok(3) refl]) simp
    moreover have "constructor_step fallbacks arr e (table_slot k) = Inr (?h (dispatchKeyExtractor e))"
      using False by (auto simp: constructor_step_def Let_def entry_of_empty)
    ultimately show thesis using that by blast
  qed
qed

lemma constructor_fold:
  assumes "entry_inv e" "\<forall>k. tableKey k \<longrightarrow> arr ! table_slot k = k" "distinct l" "\<forall>k \<in> set l. tableKey k"
    "\<forall>k \<in> set l. dispatchTable e ! table_slot k = ak_kernel missingKernel"
  shows "\<exists>h. foldE (constructor_step fallbacks arr) e (map table_slot l) = Inr h \<and> slot_filled fallbacks (set l) e h"
  using assms
proof (induction l arbitrary: e)
  case (Cons k l)
  have k: "tableKey k" using Cons.prems(4) by simp
  obtain f where f: "constructor_step fallbacks arr e (table_slot k) = Inr f" "slot_filled fallbacks {k} e f"
    by (rule constructor_step_ok [OF Cons.prems(1) k, of arr fallbacks]) (use k Cons.prems in auto)
  have "entry_inv f" "\<forall>j \<in> set l. dispatchTable f ! table_slot j = ak_kernel missingKernel" using f(2) Cons.prems(3-5) by (auto simp: slot_filled_def)
  then obtain h where h: "foldE (constructor_step fallbacks arr) f (map table_slot l) = Inr h" "slot_filled fallbacks (set l) f h"
    using Cons.IH [of f] Cons.prems(2-4) by auto
  have "slot_filled fallbacks (set (k # l)) e h"
    using f(2) h(2) same_registrations_trans unfolding slot_filled_def by auto
  then show ?case using f(1) h(1) by (intro exI [of _ h]) simp
qed (simp add: slot_filled_def)

lemma OperatorEntry_up_to_date:
  assumes "length fallbacks = num_runtime_entries"
  obtains e where "OperatorEntry fallbacks name = Inr e" "entry_inv e" "up_to_date fallbacks e" "kernels e = []" "oe_name e = name" "oe_schema e = None"
    "dispatch_arg_indices_reverse (dispatchKeyExtractor e) = 0"
proof -
  obtain arr where arr: "getDispatchTableIndexToKey = Inr arr" "\<forall>k. tableKey k \<longrightarrow> arr ! table_slot k = k" by (rule index_to_key)
  let ?e = "\<lparr> oe_name = name, oe_schema = None, dispatchTable = replicate num_runtime_entries (ak_kernel missingKernel),
         dispatchKeyExtractor = makeUninitialized, kernels = [], cpp_signature = None, sym_cpp_signature = None \<rparr>"
  have m: "dispatchTable ?e ! table_slot k = ak_kernel missingKernel" if "tableKey k" for k using table_slot_less [OF that] by simp
  have "extractor_ok (\<lambda>_. False) makeUninitialized"
    by (auto simp: extractor_ok_def per_backend_ok_def global_ok_def makeUninitialized_def bit_full num_backends_def)
  moreover have "table_fallthrough ?e k = False" if "isRuntimeKey k" for k
    using m [of k] not_fallthrough_missing that by (simp add: table_fallthrough_def tableKey_def)
  ultimately have "extractor_ok (table_fallthrough ?e) makeUninitialized" using extractor_ok_cong [of "table_fallthrough ?e" "\<lambda>_. False"] by blast
  then have inv: "entry_inv ?e" by (simp add: entry_inv_def kernels_ok_def)
  let ?l = "DispatchKey_Undefined # runtime_key_list"
  have d: "distinct ?l" using table_slots distinct_upt by (metis distinct_map)
  obtain h where h: "foldE (constructor_step fallbacks arr) ?e (map table_slot ?l) = Inr h" "slot_filled fallbacks (set ?l) ?e h"
    using constructor_fold [OF inv arr(2) d] m tableKey_list by blast
  have "newest h = (\<lambda>_. None)" using h(2) by (auto simp: slot_filled_def same_registrations_def newest_def fun_eq_iff)
  then have up: "up_to_date fallbacks h" using h(2) tableKey_list by (simp add: up_to_date_def slot_filled_def)
  have "OperatorEntry fallbacks name = Inr h"
    using h(1) assms unfolding OperatorEntry_def arr(1) bindE_simps table_slots num_runtime_entries_eq by simp
  then show thesis using that [of h] h(2) up by (simp add: slot_filled_def same_registrations_def makeUninitialized_def)
qed

section \<open>The states of an operator\<close>

text \<open>
  The backend fallbacks and the entry of an operator, after any sequence of registrations, deregistrations, changes
  of fallbacks and changes of the schema. Keys are runtime or alias keys and kernels are valid, as the callers
  guarantee; the updates are complete.
\<close>

inductive op_state :: "(op_schema \<Rightarrow> bool \<Rightarrow> op_schema \<Rightarrow> bool) \<Rightarrow> annotated_kernel list \<Rightarrow> operator_entry \<Rightarrow> bool" for differs where
  construct: "length fallbacks = num_runtime_entries \<Longrightarrow> OperatorEntry fallbacks name = Inr e \<Longrightarrow> op_state differs fallbacks e"
| register: "op_state differs fallbacks e \<Longrightarrow> isValid (ak_kernel a) \<Longrightarrow> updatable (registered_key dispatch_key) \<Longrightarrow>
    dispatch_key = None \<or> update_complete e (registered_key dispatch_key) \<Longrightarrow>
    registerKernel differs fallbacks dispatch_key a sig e = Inr h \<Longrightarrow> op_state differs fallbacks h"
| deregister: "op_state differs fallbacks e \<Longrightarrow> update_complete e (registered_key dispatch_key) \<Longrightarrow>
    deregisterKernel fallbacks dispatch_key handle e = Inr h \<Longrightarrow> op_state differs fallbacks h"
| fallback: "op_state differs fallbacks e \<Longrightarrow> tableKey d \<Longrightarrow>
    updateFallback (fallbacks[table_slot d := x]) e d = Inr h \<Longrightarrow> op_state differs (fallbacks[table_slot d := x]) h"
| schema: "op_state differs fallbacks e \<Longrightarrow> os_name schema = oe_name e \<Longrightarrow> registerSchema differs schema debug e = Inr h \<Longrightarrow> op_state differs fallbacks h"
| noschema: "op_state differs fallbacks e \<Longrightarrow> deregisterSchema e = Inr h \<Longrightarrow> op_state differs fallbacks h"

definition schema_inv :: "operator_entry \<Rightarrow> bool" where
  "schema_inv e \<longleftrightarrow> (case oe_schema e of None \<Rightarrow> dispatch_arg_indices_reverse (dispatchKeyExtractor e) = 0
     | Some (schema, _) \<Rightarrow> os_name schema = oe_name e \<and> makeBitsetForDispatchArgs schema = Inr (dispatch_arg_indices_reverse (dispatchKeyExtractor e)))"

lemma schema_inv_same: "same_schema e h \<Longrightarrow> schema_inv h = schema_inv e"
  by (auto simp: same_schema_def schema_inv_def split: option.splits)

lemma same_registrations_schema: "same_registrations e h \<Longrightarrow> same_schema e h"
  by (simp add: same_registrations_def same_schema_def)

lemma entry_inv_schema:
  "entry_inv (e\<lparr> oe_schema := s, dispatchKeyExtractor := (dispatchKeyExtractor e)\<lparr> dispatch_arg_indices_reverse := b \<rparr> \<rparr>) = entry_inv e"
  "up_to_date fallbacks (e\<lparr> oe_schema := s, dispatchKeyExtractor := x \<rparr>) = up_to_date fallbacks e"
proof -
  let ?h = "\<lambda>x. e\<lparr> oe_schema := s, dispatchKeyExtractor := x \<rparr>"
  have n: "newest (?h x) = newest e" "table_fallthrough (?h x) = table_fallthrough e" for x by (auto simp: fun_eq_iff newest_def table_fallthrough_def)
  show "entry_inv (?h ((dispatchKeyExtractor e)\<lparr> dispatch_arg_indices_reverse := b \<rparr>)) = entry_inv e"
    by (simp add: entry_inv_def n kernels_ok_def extractor_ok_def)
  show "up_to_date fallbacks (?h x) = up_to_date fallbacks e" by (simp add: up_to_date_def n)
qed

lemma op_state_inv:
  assumes "op_state differs fallbacks e"
  shows "entry_inv e \<and> up_to_date fallbacks e \<and> schema_inv e \<and> length fallbacks = num_runtime_entries"
  using assms
proof induction
  case (construct fallbacks name e)
  obtain f where "OperatorEntry fallbacks name = Inr f" "entry_inv f" "up_to_date fallbacks f" "oe_schema f = None"
    "dispatch_arg_indices_reverse (dispatchKeyExtractor f) = 0" by (rule OperatorEntry_up_to_date [OF construct(1)])
  then show ?case using construct by (simp add: schema_inv_def)
next
  case (register fallbacks e a dispatch_key sig h)
  have i: "entry_inv e" "up_to_date fallbacks e" using register.IH by simp_all
  have s: "signature_ok sig a e" "schema_ok differs a e" using register.hyps(5) registerKernel_fails [of sig a e] by force+
  obtain f where "registerKernel differs fallbacks dispatch_key a sig e = Inr f" "entry_inv f" "same_schema e f"
      "dispatch_key = None \<or> up_to_date fallbacks e \<and> update_complete e (registered_key dispatch_key) \<longrightarrow> up_to_date fallbacks f"
    by (rule registerKernel_ok [OF i(1) register.hyps(2,3) s, where fallbacks = fallbacks])
  then show ?case using register.IH register.hyps(4,5) schema_inv_same [of e f] by auto
next
  case (deregister fallbacks e dispatch_key handle h)
  have i: "entry_inv e" "up_to_date fallbacks e" using deregister.IH by simp_all
  have k: "map_of (kernels e) (registered_key dispatch_key) \<noteq> None"
    using deregister.hyps(3) by (auto simp: deregisterKernel_def registered_key_def Let_def check_def split: if_splits)
  obtain f where "deregisterKernel fallbacks dispatch_key handle e = Inr f" "entry_inv f" "same_schema e f"
      "up_to_date fallbacks e \<and> update_complete e (registered_key dispatch_key) \<longrightarrow> up_to_date fallbacks f"
    by (rule deregisterKernel_ok [OF i(1) k, where handle = handle and fallbacks = fallbacks])
  then show ?case using deregister.IH deregister.hyps(2,3) schema_inv_same [of e f] by auto
next
  case (fallback fallbacks e d x h)
  have i: "entry_inv e" "up_to_date fallbacks e" using fallback.IH by simp_all
  obtain f where "updateFallback (fallbacks[table_slot d := x]) e d = Inr f" "entry_inv f" "same_registrations e f"
      "up_to_date fallbacks e \<longrightarrow> up_to_date (fallbacks[table_slot d := x]) f"
    by (rule updateFallback_ok [OF i(1) fallback.hyps(2), where x = x and fallbacks = fallbacks])
  then show ?case using fallback schema_inv_same [OF same_registrations_schema, of e f] by simp
next
  case (schema fallbacks e schema debug h)
  have sw: "e\<lparr> dispatchKeyExtractor := x, oe_schema := y \<rparr> = e\<lparr> oe_schema := y, dispatchKeyExtractor := x \<rparr>" for x y by simp
  show ?case using schema
    by (auto simp: registerSchema_def dke_registerSchema_def check_def schema_inv_def entry_inv_schema bindE_Inr_iff sw split: if_splits)
next
  case (noschema fallbacks e h)
  then show ?case
    by (auto simp: deregisterSchema_def dke_deregisterSchema_def check_def schema_inv_def entry_inv_schema split: if_splits)
qed

section \<open>Consistency\<close>

lemma mapE_unit: "(\<forall>x \<in> set l. f x = Inr ()) \<Longrightarrow> \<exists>r. mapE f l = Inr r"
  by (induction l) auto

lemma mapE_unit_fails: "x \<in> set l \<Longrightarrow> f x = Inl err \<Longrightarrow> \<exists>err. mapE f l = Inl err"
  by (induction l) (auto simp: bindE_def split: sum.splits)

lemma checkInvariant_key_eq:
  assumes "entry_inv e" "tableKey k"
  shows "checkInvariant_key fallbacks e k = check (ak_kernel (entry_of (newest e) fallbacks k) = dispatchTable e ! table_slot k)
    (InternalAssert ''expected_k._equalsBoxedAndUnboxed(dispatchTable_[idx])'')"
  using assms computeDispatchTableEntry_eq [of e k fallbacks] table_index [OF assms(2)] by (simp add: checkInvariant_key_def entry_inv_def)

lemma kernels_nonempty:
  assumes "kernels_ok e"
  shows "map_of (kernels e) 0 = None" "\<forall>kv \<in> set (kernels e). snd kv \<noteq> []"
  using no_undefined [OF assms] assms by (auto simp: kernels_ok_def)

lemma checkInvariants_iff:
  assumes inv: "entry_inv e" and sch: "schema_inv e"
  shows "checkInvariants fallbacks e = Inr () \<longleftrightarrow> (\<forall>k. isRuntimeKey k \<longrightarrow> dispatchTable e ! table_slot k = ak_kernel (entry_of (newest e) fallbacks k))"
proof -
  obtain l where l: "for_keys DispatchKeySet_full = Inr l" "set l = {k. isRuntimeKey k}"
    using for_keys_set [OF runtime_keys_full(2)] runtime_keys_full(1) by metis
  have kok: "kernels_ok e" using inv by (simp add: entry_inv_def)
  have run: "checkInvariants fallbacks e = bindE (mapE (checkInvariant_key fallbacks e) l) (\<lambda>_. Inr ())"
    using sch kernels_nonempty [OF kok] l(1)
    by (auto simp: checkInvariants_def schema_inv_def check_def allDispatchKeysInFullSet_def split: option.splits)
  have ck: "checkInvariant_key fallbacks e k = check (ak_kernel (entry_of (newest e) fallbacks k) = dispatchTable e ! table_slot k)
    (InternalAssert ''expected_k._equalsBoxedAndUnboxed(dispatchTable_[idx])'')" if "k \<in> set l" for k
    using that l(2) by (intro checkInvariant_key_eq [OF inv]) (simp add: tableKey_def)
  show ?thesis
  proof (cases "\<forall>k \<in> set l. ak_kernel (entry_of (newest e) fallbacks k) = dispatchTable e ! table_slot k")
    case True
    then have "\<forall>k \<in> set l. checkInvariant_key fallbacks e k = Inr ()" using ck by (simp add: check_def)
    from mapE_unit [OF this] show ?thesis using run True l(2) by auto
  next
    case False
    then obtain k where k: "k \<in> set l" "ak_kernel (entry_of (newest e) fallbacks k) \<noteq> dispatchTable e ! table_slot k" by blast
    from mapE_unit_fails [OF k(1), of "checkInvariant_key fallbacks e"] ck [OF k(1)] k(2)
    obtain err where "mapE (checkInvariant_key fallbacks e) l = Inl err" by (auto simp: check_def)
    then show ?thesis using run k l(2) by (metis bindE_simps(1) mem_Collect_eq sum.distinct(1))
  qed
qed

lemma lookup_eq:
  assumes inv: "entry_inv e" and up: "up_to_date fallbacks e" and sch: "schema_inv e" and s: "\<not> bit ks 63" "tableKey (highestPriorityTypeId ks)"
  shows "lookup fallbacks e ks = (let k = highestPriorityTypeId ks; kernel = ak_kernel (entry_of (newest e) fallbacks k) in
    if isValid kernel then Inr kernel
    else Inl (NotImplementedError (if k = DispatchKey_Undefined then ''There were no tensor arguments to this function'' else ''Could not run'')))"
proof -
  let ?k = "highestPriorityTypeId ks"
  have "checkInvariants fallbacks e = Inr ()" using checkInvariants_iff [OF inv sch] up by (simp add: up_to_date_def tableKey_def)
  then have r: "reportError fallbacks e ?k = NotImplementedError (if ?k = 0 then ''There were no tensor arguments to this function'' else ''Could not run'')"
    by (simp add: reportError_def)
  have "table_offset (highestFunctionalityKey ks) + (if isPerBackendFunctionalityKey (highestFunctionalityKey ks) then highestBackendKey ks - 1 else 0) = table_slot ?k"
    using highestPriority_parts [OF s(1)] by (simp add: table_slot_def)
  then have "getDispatchTableIndexForDispatchKeySet (map (\<lambda>f. \<lparr> offset = table_offset f, omask = (if isPerBackendFunctionalityKey f then full_backend_mask else 0) \<rparr>) [0..<48]) ks = Some (table_slot ?k)"
    using getDispatchTableIndex_formula [OF offsets_and_masks_eq s(1)] by simp
  moreover have "dispatchTable e ! table_slot ?k = ak_kernel (entry_of (newest e) fallbacks ?k)" using up s(2) by (simp add: up_to_date_def)
  ultimately show ?thesis unfolding lookup_def offsets_and_masks_eq Let_def sum.case by (simp add: r)
qed

section \<open>Keys without a fallthrough kernel\<close>

text \<open>The keys of a call before the fallthrough keys are removed.\<close>

definition call_keys :: "DispatchKeySet \<Rightarrow> DispatchKeySet \<Rightarrow> DispatchKeySet list \<Rightarrow> DispatchKeySet" where
  "call_keys included_keys excluded_keys args = keyset_diff (keyset_union (multi_dispatch_key_set args) included_keys) excluded_keys"

definition key_mask :: "dispatch_key_extractor \<Rightarrow> DispatchKeySet \<Rightarrow> DispatchKeySet" where
  "key_mask x s = (if requiresBitsetPerBackend x then nonFallthroughKeysPerBackend x ! (highestBackendKey s - 1) else nonFallthroughKeys x)"

lemma getBackendIndex_eq: "getBackendIndex s = highestBackendKey s - 1"
  unfolding getBackendIndex_def by (rule highestBackendKey_drop)

lemma getDispatchKeySetUnboxed_eq:
  "getDispatchKeySetUnboxed inc exc x args = call_keys inc exc args AND key_mask x (call_keys inc exc args)"
  by (simp add: getDispatchKeySetUnboxed_def computeDispatchKeySet_def call_keys_def key_mask_def keyset_inter_def getBackendIndex_eq Let_def)

lemma global_bit:
  assumes "global_ok ft s" "0 < f" "f < 48"
  shows "isPerBackendFunctionalityKey f \<Longrightarrow> \<forall>b \<in> {1..16}. ft (toRuntimePerBackendFunctionalityKey f b) = c \<Longrightarrow> bit s (15 + f) = (\<not> c)"
    "\<not> isPerBackendFunctionalityKey f \<Longrightarrow> bit s (15 + f) = (\<not> ft f)"
proof -
  have "if isPerBackendFunctionalityKey f
        then \<forall>c. (\<forall>b \<in> {1..16}. ft (toRuntimePerBackendFunctionalityKey f b) = c) \<longrightarrow> bit s (15 + f) = (\<not> c)
        else bit s (15 + f) = (\<not> ft f)" using assms unfolding global_ok_def by blast
  then show "isPerBackendFunctionalityKey f \<Longrightarrow> \<forall>b \<in> {1..16}. ft (toRuntimePerBackendFunctionalityKey f b) = c \<Longrightarrow> bit s (15 + f) = (\<not> c)"
    "\<not> isPerBackendFunctionalityKey f \<Longrightarrow> bit s (15 + f) = (\<not> ft f)" by (simp_all only: if_True if_False)
qed

lemma all_backends_equal:
  assumes "\<forall>i < 15. per ! i = per ! (i + 1)" "i < 16"
  shows "per ! i = per ! 0"
  using assms(2)
proof (induction i)
  case (Suc i) then show ?case using assms(1) by auto
qed simp

lemma key_mask_bit:
  assumes x: "extractor_ok ft x" and k: "isRuntimeKey k" and b: "toBackendComponent k \<in> {0, highestBackendKey s}"
  shows "bit (key_mask x s) (15 + toFunctionalityKey k) \<longleftrightarrow> \<not> ft k"
proof -
  let ?f = "toFunctionalityKey k" and ?per = "nonFallthroughKeysPerBackend x"
  have f: "0 < ?f" "?f < 48" using isRuntimeKey_functionality [OF k] by simp_all
  have p: "per_backend_ok ft ?per" and g: "global_ok ft (nonFallthroughKeys x)" using x by (simp_all add: extractor_ok_def)
  show ?thesis
  proof (cases "isPerBackendFunctionalityKey ?f")
    case False
    have kf: "?f = k" using runtime_parts(2) [OF k False] by simp
    have i: "highestBackendKey s - 1 < 16" using highestBackendKey_le [of s] by simp
    have "bit (nonFallthroughKeys x) (15 + ?f) = (\<not> ft k)" using global_bit(2) [OF g f False] unfolding kf .
    moreover have "bit (?per ! (highestBackendKey s - 1)) (15 + ?f) = (\<not> ft k)" using per_backend_bit(1) [OF p i f] False unfolding kf by (simp only: if_False)
    ultimately show ?thesis unfolding key_mask_def by (cases "requiresBitsetPerBackend x") (simp_all only: if_True if_False)
  next
    case True
    have kp: "toBackendComponent k \<in> {1..16}" "toRuntimePerBackendFunctionalityKey ?f (toBackendComponent k) = k" using runtime_parts(1) [OF k True] by simp_all
    have tb: "toBackendComponent k = highestBackendKey s" "toBackendComponent k - 1 < 16" "toBackendComponent k - 1 + 1 = toBackendComponent k" using b kp(1) by auto
    have bitk: "bit (?per ! (toBackendComponent k - 1)) (15 + ?f) = (\<not> ft k)"
      using per_backend_bit(1) [OF p tb(2) f] unfolding if_P [OF True] tb(3) kp(2) .
    show ?thesis
    proof (cases "requiresBitsetPerBackend x")
      case True then show ?thesis using bitk unfolding key_mask_def tb(1) by (simp only: if_True)
    next
      case False
      then have "\<forall>i < 15. ?per ! i = ?per ! (i + 1)" using x by (simp add: extractor_ok_def)
      note eq = all_backends_equal [OF this]
      have "ft (toRuntimePerBackendFunctionalityKey ?f c) = ft k" if c: "c \<in> {1..16}" for c
      proof -
        have c': "c - 1 < 16" "c - 1 + 1 = c" using c by auto
        have "bit (?per ! (c - 1)) (15 + ?f) = (\<not> ft (toRuntimePerBackendFunctionalityKey ?f c))"
          using per_backend_bit(1) [OF p c'(1) f] unfolding if_P [OF True] c'(2) .
        then show ?thesis using bitk eq [OF c'(1)] eq [OF tb(2)] by simp
      qed
      then have "bit (nonFallthroughKeys x) (15 + ?f) = (\<not> ft k)" by (intro global_bit(1) [OF g f True]) simp
      then show ?thesis using False unfolding key_mask_def by (simp only: if_False)
    qed
  qed
qed

lemma key_mask_backends:
  assumes "extractor_ok ft x"
  shows "i < 16 \<Longrightarrow> bit (key_mask x s) i" "\<not> bit (key_mask x s) 63"
proof -
  have p: "per_backend_ok ft (nonFallthroughKeysPerBackend x)" and g: "global_ok ft (nonFallthroughKeys x)" using assms by (simp_all add: extractor_ok_def)
  have i: "highestBackendKey s - 1 < 16" using highestBackendKey_le [of s] by simp
  show "i < 16 \<Longrightarrow> bit (key_mask x s) i" using per_backend_bit(2) [OF p i, of 1] g by (simp add: key_mask_def global_ok_def)
  show "\<not> bit (key_mask x s) 63" using per_backend_bit(3) [OF p i, of 1] g by (simp add: key_mask_def global_ok_def)
qed

lemma has_masked:
  assumes x: "extractor_ok ft x" and k: "isRuntimeKey k" and b: "toBackendComponent k \<in> {0, highestBackendKey s}"
  shows "has (s AND key_mask x s) k \<longleftrightarrow> has s k \<and> \<not> ft k"
proof -
  have "toBackendComponent k - 1 < 16" by (auto simp: toBackendComponent_def)
  then show ?thesis using key_mask_bit [OF x k b] key_mask_backends(1) [OF x, of "toBackendComponent k - 1" s] isRuntimeKey_less [OF k]
    by (auto simp: has_iff_bits bit_simps)
qed

lemma highest_in_set:
  assumes "\<not> bit s 63" "isRuntimeKey (highestPriorityTypeId s)"
  shows "has s (highestPriorityTypeId s)"
proof -
  let ?k = "highestPriorityTypeId s"
  note parts = highestPriority_parts [OF assms(1)] and f = isRuntimeKey_functionality [OF assms(2)]
  have ne: "keyset_functionalities s \<noteq> {}" using highestFunctionalityKey_empty [OF _ assms(1)] parts f by auto
  have "toFunctionalityKey ?k \<in> keyset_functionalities s"
    using highestFunctionalityKey_Max [OF ne assms(1)] parts Max_in [OF finite_keyset_parts(1) ne] by simp
  moreover have "toBackendComponent ?k \<in> keyset_backends s" if nz: "toBackendComponent ?k \<noteq> 0"
  proof -
    have hb: "toBackendComponent ?k = highestBackendKey s" using parts nz by (simp split: if_splits)
    then have "keyset_backends s \<noteq> {}" using nz highestBackendKey_empty [of s] by auto
    then show ?thesis using highestBackendKey_Max Max_in [OF finite_keyset_parts(2)] hb by metis
  qed
  ultimately show ?thesis using has_runtime_iff [OF assms(2)] by auto
qed

lemma highestBackendKey_cong: "keyset_backends s = keyset_backends t \<Longrightarrow> highestBackendKey s = highestBackendKey t"
  using highestBackendKey_Max [of s] highestBackendKey_Max [of t] highestBackendKey_empty [of s] highestBackendKey_empty [of t] by metis

lemma masked_highest:
  assumes x: "extractor_ok ft x" and k: "isRuntimeKey (highestPriorityTypeId (s AND key_mask x s))"
  shows "\<not> ft (highestPriorityTypeId (s AND key_mask x s))"
proof -
  let ?r = "s AND key_mask x s"
  have n: "\<not> bit ?r 63" using key_mask_backends(2) [OF x] by (simp add: bit_simps)
  have "keyset_backends ?r = keyset_backends s" using key_mask_backends(1) [OF x] by (auto simp: keyset_backends_def bit_simps)
  then have "highestBackendKey ?r = highestBackendKey s" by (rule highestBackendKey_cong)
  then have "toBackendComponent (highestPriorityTypeId ?r) \<in> {0, highestBackendKey s}" using highestPriority_parts [OF n] by auto
  then show ?thesis using has_masked [OF x k] highest_in_set [OF n k] by simp
qed

section \<open>Properties\<close>

definition no_fallbacks :: "annotated_kernel list" where
  "no_fallbacks = replicate num_runtime_entries missingKernel"

definition test_kernel :: "nat \<Rightarrow> annotated_kernel" where
  "test_kernel n = \<lparr> ak_kernel = \<lparr> kf_id = Suc (Suc n), kf_fallthrough = False, kf_symUnboxed = False \<rparr>, ak_inferred = None, ak_debug = [], ak_handle = n \<rparr>"

lemma test_kernel_simps:
  "isValid (ak_kernel (test_kernel n))" "signature_ok None (test_kernel n) e" "schema_ok differs (test_kernel n) e"
  by (auto simp: test_kernel_def isValid_def signature_ok_def schema_ok_def Let_def split: option.splits)

lemma register_test_kernel:
  assumes "entry_inv e" "up_to_date fallbacks e" "updatable d"
  obtains h where "registerKernel differs fallbacks (Some d) (test_kernel n) None e = Inr h" "entry_inv h" "newest h = (newest e)(d := Some (test_kernel n))"
    "same_schema e h" "update_complete e d \<longrightarrow> up_to_date fallbacks h"
    "\<forall>k. tableKey k \<and> k \<notin> touched d \<longrightarrow> dispatchTable h ! table_slot k = dispatchTable e ! table_slot k"
proof -
  have k: "registered_key (Some d) = d" by (simp add: registered_key_def)
  have u: "updatable (registered_key (Some d))" using assms(3) k by simp
  obtain h where "registerKernel differs fallbacks (Some d) (test_kernel n) None e = Inr h" "entry_inv h"
    "newest h = (newest e)(registered_key (Some d) := Some (test_kernel n))" "same_schema e h"
    "Some d = None \<or> up_to_date fallbacks e \<and> update_complete e (registered_key (Some d)) \<longrightarrow> up_to_date fallbacks h"
    "\<forall>k d'. Some d = Some d' \<and> tableKey k \<and> k \<notin> touched d' \<longrightarrow> dispatchTable h ! table_slot k = dispatchTable e ! table_slot k"
    by (rule registerKernel_ok [OF assms(1) test_kernel_simps(1) u test_kernel_simps(2,3), where differs = differs and fallbacks = fallbacks])
  then show thesis using that [of h] assms(2) unfolding k by simp
qed

lemma new_operator:
  obtains e where "OperatorEntry no_fallbacks name = Inr e" "entry_inv e" "up_to_date no_fallbacks e" "newest e = (\<lambda>_. None)" "schema_inv e" "op_state differs no_fallbacks e"
proof -
  have n: "length no_fallbacks = num_runtime_entries" by (simp add: no_fallbacks_def)
  obtain e where e: "OperatorEntry no_fallbacks name = Inr e" "entry_inv e" "up_to_date no_fallbacks e" "kernels e = []" "oe_schema e = None"
    "dispatch_arg_indices_reverse (dispatchKeyExtractor e) = 0" by (rule OperatorEntry_up_to_date [OF n])
  then show thesis using that [of e] op_state.construct [OF n e(1)] by (simp add: schema_inv_def newest_def fun_eq_iff)
qed

text \<open>C6: whatever the sequence of registrations, deregistrations, fallback
  changes and schema changes, as long as no update forgets an autograd entry: the table of an operator holds for
  \<open>Undefined\<close> and for every runtime key exactly the kernel that \<open>computeDispatchTableEntry\<close> selects from scratch,
  \<open>checkInvariants\<close> passes, and a call through a key set returns the kernel of its highest priority key, or reports
  that it is not implemented if that key has no valid kernel.\<close>

theorem operator_tables_consistent:
  assumes "op_state differs fallbacks e"
  shows "(\<forall>k. tableKey k \<longrightarrow> computeDispatchTableEntry fallbacks e k = Inr (dispatchTable e ! table_slot k)) \<and>
    checkInvariants fallbacks e = Inr () \<and>
    (\<forall>ks. \<not> bit ks 63 \<and> tableKey (highestPriorityTypeId ks) \<longrightarrow>
       lookup fallbacks e ks = (let k = highestPriorityTypeId ks; kernel = dispatchTable e ! table_slot k in
         if isValid kernel then Inr kernel
         else Inl (NotImplementedError (if k = DispatchKey_Undefined then ''There were no tensor arguments to this function'' else ''Could not run''))))"
proof -
  have i: "entry_inv e" "up_to_date fallbacks e" "schema_inv e" using op_state_inv [OF assms] by simp_all
  have t: "dispatchTable e ! table_slot k = ak_kernel (entry_of (newest e) fallbacks k)" if "tableKey k" for k using i(2) that by (simp add: up_to_date_def)
  have "computeDispatchTableEntry fallbacks e k = Inr (dispatchTable e ! table_slot k)" if "tableKey k" for k
    using computeDispatchTableEntry_eq [of e k fallbacks] i(1) that t by (simp add: entry_inv_def)
  moreover have "checkInvariants fallbacks e = Inr ()" using checkInvariants_iff [OF i(1,3)] t by (simp add: tableKey_def)
  moreover have "lookup fallbacks e ks = (let k = highestPriorityTypeId ks; kernel = dispatchTable e ! table_slot k in
         if isValid kernel then Inr kernel
         else Inl (NotImplementedError (if k = DispatchKey_Undefined then ''There were no tensor arguments to this function'' else ''Could not run'')))"
    if "\<not> bit ks 63 \<and> tableKey (highestPriorityTypeId ks)" for ks
    using lookup_eq [OF i conjunct1 [OF that] conjunct2 [OF that]] t [OF conjunct2 [OF that]] by (simp only: Let_def)
  ultimately show ?thesis by blast
qed

theorem operator_tables_consistent_witness:
  "\<exists>e h. OperatorEntry no_fallbacks ''aten::add'' = Inr e \<and>
     registerKernel (\<lambda>_ _ _. False) no_fallbacks (Some DispatchKey_CPU) (test_kernel 0) None e = Inr h \<and> checkInvariants no_fallbacks h = Inr ()"
proof -
  obtain e where e: "OperatorEntry no_fallbacks ''aten::add'' = Inr e" "entry_inv e" "up_to_date no_fallbacks e" "newest e = (\<lambda>_. None)"
      "op_state (\<lambda>_ _ _. False) no_fallbacks e" by (rule new_operator [where name = "''aten::add''" and differs = "\<lambda>_ _ _. False"])
  have u: "updatable DispatchKey_CPU" by (simp add: updatable_def isRuntimeKey_def toBackendComponent_def)
  obtain h where h: "registerKernel (\<lambda>_ _ _. False) no_fallbacks (Some DispatchKey_CPU) (test_kernel 0) None e = Inr h"
    by (rule register_test_kernel [OF e(2,3) u])
  have "op_state (\<lambda>_ _ _. False) no_fallbacks h"
    using op_state.register [OF e(5) test_kernel_simps(1) _ _ h] u e(4) by (simp add: registered_key_def update_complete_def)
  from operator_tables_consistent [OF this] show ?thesis using e(1) h by blast
qed



section \<open>Updates that forget an autograd entry\<close>

text \<open>A \<open>CompositeImplicitAutograd\<close> kernel and then a kernel for \<open>d\<close> are registered with a new operator; afterwards the entry of \<open>k\<close> is not the computed one.\<close>

definition leaves_stale :: "DispatchKey \<Rightarrow> DispatchKey \<Rightarrow> bool" where
  "leaves_stale d k \<longleftrightarrow> (\<exists>e f h. OperatorEntry no_fallbacks ''op'' = Inr e \<and>
    registerKernel (\<lambda>_ _ _. False) no_fallbacks (Some DispatchKey_CompositeImplicitAutograd) (test_kernel 0) None e = Inr f \<and>
    checkInvariants no_fallbacks f = Inr () \<and>
    registerKernel (\<lambda>_ _ _. False) no_fallbacks (Some d) (test_kernel 1) None f = Inr h \<and>
    computeDispatchTableEntry no_fallbacks h k \<noteq> Inr (dispatchTable h ! table_slot k) \<and> checkInvariants no_fallbacks h \<noteq> Inr ())"

lemma stale_entry:
  assumes d: "updatable d" and k: "isRuntimeKey k" "k \<notin> touched d"
    and new: "ak_kernel (entry_of (\<lambda>j. if j = d then Some (test_kernel 1) else if j = DispatchKey_CompositeImplicitAutograd then Some (test_kernel 0) else None) no_fallbacks k) \<noteq>
      ak_kernel (entry_of (\<lambda>j. if j = DispatchKey_CompositeImplicitAutograd then Some (test_kernel 0) else None) no_fallbacks k)"
  shows "leaves_stale d k"
proof -
  have m: "updatable DispatchKey_CompositeImplicitAutograd" "\<not> forgets_autograd DispatchKey_CompositeImplicitAutograd"
    by (simp_all add: updatable_def isAliasDispatchKey_def forgets_autograd_def toFunctionalityKey_def)
  obtain e where e: "OperatorEntry no_fallbacks ''op'' = Inr e" "entry_inv e" "up_to_date no_fallbacks e" "newest e = (\<lambda>_. None)" "schema_inv e"
    by (rule new_operator [where name = "''op''"])
  obtain f where f: "registerKernel (\<lambda>_ _ _. False) no_fallbacks (Some DispatchKey_CompositeImplicitAutograd) (test_kernel 0) None e = Inr f"
      "entry_inv f" "newest f = (newest e)(DispatchKey_CompositeImplicitAutograd := Some (test_kernel 0))" "same_schema e f"
      "update_complete e DispatchKey_CompositeImplicitAutograd \<longrightarrow> up_to_date no_fallbacks f"
    by (rule register_test_kernel [OF e(2,3) m(1)])
  have up: "up_to_date no_fallbacks f" using f(5) m(2) by (simp add: update_complete_def)
  obtain h where h: "registerKernel (\<lambda>_ _ _. False) no_fallbacks (Some d) (test_kernel 1) None f = Inr h"
      "entry_inv h" "newest h = (newest f)(d := Some (test_kernel 1))" "same_schema f h"
      "\<forall>k. tableKey k \<and> k \<notin> touched d \<longrightarrow> dispatchTable h ! table_slot k = dispatchTable f ! table_slot k"
    by (rule register_test_kernel [OF f(2) up d])
  have tk: "tableKey k" using k by (simp add: tableKey_def)
  have nf: "newest f = (\<lambda>j. if j = DispatchKey_CompositeImplicitAutograd then Some (test_kernel 0) else None)" using f(3) e(4) by auto
  have nh: "newest h = (\<lambda>j. if j = d then Some (test_kernel 1) else if j = DispatchKey_CompositeImplicitAutograd then Some (test_kernel 0) else None)"
    unfolding h(3) nf by auto
  have old: "dispatchTable h ! table_slot k = ak_kernel (entry_of (newest f) no_fallbacks k)" using h(5) up tk k(2) by (simp add: up_to_date_def)
  then have ne: "ak_kernel (entry_of (newest h) no_fallbacks k) \<noteq> dispatchTable h ! table_slot k" using new unfolding nf nh by simp
  have sch: "schema_inv f" "schema_inv h" using schema_inv_same [OF f(4)] schema_inv_same [OF h(4)] e(5) by simp_all
  have "checkInvariants no_fallbacks f = Inr ()" using checkInvariants_iff [OF f(2) sch(1)] up by (simp add: up_to_date_def tableKey_def)
  moreover have "checkInvariants no_fallbacks h \<noteq> Inr ()" using checkInvariants_iff [OF h(2) sch(2)] ne k(1) by auto
  moreover have "computeDispatchTableEntry no_fallbacks h k \<noteq> Inr (dispatchTable h ! table_slot k)"
    using computeDispatchTableEntry_eq [of h k no_fallbacks] h(2) tk ne by (simp add: entry_inv_def)
  ultimately show ?thesis unfolding leaves_stale_def using e(1) f(1) h(1) by (intro exI conjI)
qed

lemma included_math: "k \<in> {DispatchKey_AutogradOther, DispatchKey_AutogradCPU} \<Longrightarrow> included k DispatchKey_CompositeImplicitAutograd"
  by (auto simp: included_def isIncludedInAlias_def runtimeDispatchKeySetHas_def has_iff_bits math_dispatch_keyset_def keyset_union_def
      bit_simps bit_alias_keysets toFunctionalityKey_def toBackendComponent_def)

lemma SparseCPU_facts:
  "isRuntimeKey DispatchKey_SparseCPU" "has autogradother_backends DispatchKey_SparseCPU" "DispatchKey_AutogradOther \<notin> touched DispatchKey_SparseCPU"
proof -
  show r: "isRuntimeKey DispatchKey_SparseCPU" by (simp add: isRuntimeKey_def toBackendComponent_def)
  have f: "toFunctionalityKey 84 = 8" "toBackendComponent 84 = 1" by (simp_all add: toFunctionalityKey_def toBackendComponent_def)
  show "has autogradother_backends DispatchKey_SparseCPU"
    by (auto simp: has_iff_bits f autogradother_backends_def keyset_union_def bit_simps bit_keys_to_repr bit_functionality_key)
  show "DispatchKey_AutogradOther \<notin> touched DispatchKey_SparseCPU"
    using included_runtime [OF r, of 21] by (simp add: touched_def f getAutogradKeyFromBackend_eq toRuntimePerBackendFunctionalityKey_def)
qed

lemma CompositeExplicit_facts: "\<not> included DispatchKey_AutogradCPU DispatchKey_CompositeExplicitAutograd" "DispatchKey_AutogradCPU \<notin> touched DispatchKey_CompositeExplicitAutograd"
proof -
  have f: "toFunctionalityKey 135 = 22" by (simp add: toFunctionalityKey_def)
  show n: "\<not> included DispatchKey_AutogradCPU DispatchKey_CompositeExplicitAutograd"
    by (simp add: included_def isIncludedInAlias_def runtimeDispatchKeySetHas_def has_iff_bits f bit_alias_keysets)
  show "DispatchKey_AutogradCPU \<notin> touched DispatchKey_CompositeExplicitAutograd"
    using n by (simp add: touched_def isBackendDispatchKey_def isAliasDispatchKey_def)
qed

lemma autograd_backends_simps:
  "getBackendKeySetFromAutograd DispatchKey_AutogradOther = autogradother_backends"
  "getBackendKeySetFromAutograd DispatchKey_AutogradCPU = DispatchKeySet_of DispatchKey_CPU"
  by (simp_all add: getBackendKeySetFromAutograd_def)

lemma alias_not_registered: "(\<And>j. F j \<noteq> None \<Longrightarrow> isAliasDispatchKey j) \<Longrightarrow> \<not> registered_in F s"
  by (auto simp: registered_in_def)

text \<open>C12: two orders of registration after which the table contradicts the
  precedence rules. With a \<open>CompositeImplicitAutograd\<close> kernel registered, a kernel for \<open>SparseCPU\<close> should make the
  \<open>AutogradOther\<close> entry the kernel that reports an ambiguity, and a \<open>CompositeExplicitAutograd\<close> kernel should remove the
  \<open>AutogradCPU\<close> entry; the update refreshes neither, and \<open>checkInvariants\<close> fails.\<close>

theorem stale_autograd_entries:
  "leaves_stale DispatchKey_SparseCPU DispatchKey_AutogradOther \<and> leaves_stale DispatchKey_CompositeExplicitAutograd DispatchKey_AutogradCPU"
proof -
  have k: "isRuntimeKey DispatchKey_AutogradOther" "isRuntimeKey DispatchKey_AutogradCPU"
    by (simp_all add: isRuntimeKey_def isPerBackendFunctionalityKey_def toBackendComponent_def)
  have u: "updatable DispatchKey_SparseCPU" "updatable DispatchKey_CompositeExplicitAutograd"
    using SparseCPU_facts(1) by (simp_all add: updatable_def isAliasDispatchKey_def)
  have fb: "\<not> isValid (ak_kernel (no_fallbacks ! table_slot DispatchKey_AutogradCPU))"
    using table_slot_less [of DispatchKey_AutogradCPU] k(2) by (simp add: no_fallbacks_def tableKey_def missingKernel_def isValid_def)
  have no: "\<not> registered_in (\<lambda>j. if j = 155 then Some (test_kernel 1) else if j = 152 then Some (test_kernel 0) else None) s"
    "\<not> registered_in (\<lambda>j. if j = 152 then Some (test_kernel 0) else None) s" for s
    by (rule alias_not_registered; simp add: isAliasDispatchKey_def split: if_splits)+
  have yes: "registered_in (\<lambda>j. if j = 84 then Some (test_kernel 1) else if j = 152 then Some (test_kernel 0) else None) autogradother_backends"
    unfolding registered_in_def by (rule exI [of _ 84]) (simp add: SparseCPU_facts(2) isAliasDispatchKey_def)
  note simps = entry_of_def candidates_def guarded_def implicit_of_def included_math Let_def no yes CompositeExplicit_facts(1) fb
    missingKernel_def ambiguousAutogradOtherKernel_def test_kernel_def
  show ?thesis
    using stale_entry [OF u(1) k(1) SparseCPU_facts(3)] stale_entry [OF u(2) k(2) CompositeExplicit_facts(2)]
    by (simp add: simps)
qed

end
