(* ===== verification/OperatorRegistry.thy ===== *)
theory OperatorRegistry
  imports OperatorDispatch
begin

text \<open>
  The global operator registry, \<open>ATen/core/dispatch/Dispatcher.cpp\<close>: operators by name, their registration counts,
  backend fallbacks, libraries, Python stubs and listeners. Every public operation holds the mutex of the
  dispatcher, so a run of the program is a sequence of them. A registration returns an RAII handle whose destructor
  deregisters it; the handles are values of the type \<open>registration\<close>. An \<open>OperatorHandle\<close> is an iterator into
  a \<open>std::list\<close>: a number that identifies the node; following one to an erased node is an error value. An operation
  that throws returns the state it leaves behind.
\<close>

section \<open>State\<close>

record operator_def =
  od_id :: nat
  od_op :: operator_entry
  def_count :: nat
  def_and_impl_count :: nat

datatype registration =
    RLibrary string
  | RDef nat string
  | RImpl nat string "DispatchKey option" nat
  | RName nat string
  | RFallback DispatchKey
  | RPythonModule string
  | RListener nat

record dispatcher =
  operators :: "operator_def list"
  operatorLookupTable :: "(string \<times> nat) list"
  backendFallbackKernels :: "annotated_kernel list"
  libraries :: "(string \<times> string) list"
  pythonModules :: "(string \<times> string \<times> string) list"
  listeners :: "nat list"
  listener_calls :: "(nat \<times> bool \<times> string) list"   \<comment> \<open>listener, registered or deregistered, operator; newest first\<close>
  guard_alive :: bool
  next_id :: nat   \<comment> \<open>the next unused identity of a list node, kernel or listener\<close>

type_synonym 'a outcome = "dispatcher \<times> 'a result"

definition Dispatcher :: dispatcher where
  "Dispatcher = \<lparr> operators = [], operatorLookupTable = [], backendFallbackKernels = replicate num_runtime_entries missingKernel, libraries = [],
     pythonModules = [], listeners = [], listener_calls = [], guard_alive = True, next_id = 1 \<rparr>"

definition destroyDispatcher :: "dispatcher \<Rightarrow> dispatcher" where
  "destroyDispatcher d = d\<lparr> guard_alive := False \<rparr>"

definition operatorDef :: "dispatcher \<Rightarrow> nat \<Rightarrow> operator_def result" where
  "operatorDef d i = (case find (\<lambda>od. od_id od = i) (operators d) of None \<Rightarrow> Inl (InternalAssert ''dangling operator handle'') | Some od \<Rightarrow> Inr od)"

definition set_def :: "nat \<Rightarrow> operator_def \<Rightarrow> dispatcher \<Rightarrow> dispatcher" where
  "set_def i od d = d\<lparr> operators := map (\<lambda>od'. if od_id od' = i then od else od') (operators d) \<rparr>"

section \<open>Queries\<close>

definition findOp :: "dispatcher \<Rightarrow> string \<Rightarrow> nat option" where
  "findOp d name = map_of (operatorLookupTable d) name"

definition findSchema :: "dispatcher \<Rightarrow> string \<Rightarrow> nat option result" where
  "findSchema d name = (case findOp d name of None \<Rightarrow> Inr None
     | Some i \<Rightarrow> bindE (operatorDef d i) (\<lambda>od. Inr (if oe_schema (od_op od) \<noteq> None then Some i else None)))"

definition findSchemaOrThrow :: "dispatcher \<Rightarrow> string \<Rightarrow> nat result" where
  "findSchemaOrThrow d name = bindE (findSchema d name) (\<lambda>it. case it of
     Some i \<Rightarrow> Inr i
   | None \<Rightarrow> (case findOp d name of
       None \<Rightarrow> Inl (CheckError ''Could not find schema for '')
     | Some _ \<Rightarrow> Inl (CheckError ''Could not find schema for but we found an implementation; did you forget to def() the operator?'')))"

definition getAllOpNames :: "dispatcher \<Rightarrow> string list" where
  "getAllOpNames d = map fst (operatorLookupTable d)"

definition filter_ops :: "(operator_entry \<Rightarrow> bool result) \<Rightarrow> dispatcher \<Rightarrow> (string \<times> nat) list result" where
  "filter_ops P d = bindE (mapE (\<lambda>(name, i). bindE (operatorDef d i) (\<lambda>od. bindE (P (od_op od)) (\<lambda>b. Inr (if b then [(name, i)] else []))))
     (operatorLookupTable d)) (\<lambda>l. Inr (concat l))"

definition getAllOpNamesForDispatchKey :: "dispatcher \<Rightarrow> DispatchKey \<Rightarrow> string list result" where
  "getAllOpNamesForDispatchKey d k = bindE (filter_ops (\<lambda>e. hasKernelForDispatchKey e k) d) (\<lambda>l. Inr (map fst l))"

definition findDanglingImpls :: "dispatcher \<Rightarrow> nat list result" where
  "findDanglingImpls d = bindE (filter_ops (\<lambda>e. Inr (oe_schema e = None)) d) (\<lambda>l. Inr (map snd l))"

definition getRegistrationsForDispatchKey :: "dispatcher \<Rightarrow> DispatchKey option \<Rightarrow> string list result" where
  "getRegistrationsForDispatchKey d k = bindE (filter_ops (\<lambda>e. case k of None \<Rightarrow> Inr True | Some k \<Rightarrow> hasKernelForDispatchKey e k) d) (\<lambda>l. Inr (map fst l))"

definition getPyStub :: "dispatcher \<Rightarrow> string \<Rightarrow> (string \<times> string) option" where
  "getPyStub d name = map_of (pythonModules d) name"

text \<open>\<open>interpreter\<close> is the error that a Python interpreter raises, if there is an interpreter.\<close>

definition throwIfHasPythonModule :: "c10_error option \<Rightarrow> dispatcher \<Rightarrow> string \<Rightarrow> unit result" where
  "throwIfHasPythonModule interpreter d name = (case map_of (pythonModules d) name of None \<Rightarrow> Inr ()
     | Some (pymodule, context) \<Rightarrow> (case interpreter of
         None \<Rightarrow> Inl (CheckError ''while attempting to run this operator with Meta Tensors'')
       | Some err \<Rightarrow> Inl err))"

definition dispatcher_checkInvariants :: "dispatcher \<Rightarrow> unit result" where
  "dispatcher_checkInvariants d = bindE (mapE (\<lambda>od. checkInvariants (backendFallbackKernels d) (od_op od)) (operators d)) (\<lambda>_. Inr ())"

section \<open>Listeners\<close>

definition call_listeners :: "bool \<Rightarrow> string \<Rightarrow> dispatcher \<Rightarrow> dispatcher" where
  "call_listeners registered name d = d\<lparr> listener_calls := rev (map (\<lambda>l. (l, registered, name)) (listeners d)) @ listener_calls d \<rparr>"

definition callOnOperatorRegistered :: "string \<Rightarrow> dispatcher \<Rightarrow> dispatcher" where
  "callOnOperatorRegistered = call_listeners True"

definition callOnOperatorDeregistered :: "string \<Rightarrow> dispatcher \<Rightarrow> dispatcher" where
  "callOnOperatorDeregistered = call_listeners False"

definition addRegistrationListener :: "dispatcher \<Rightarrow> registration outcome" where
  "addRegistrationListener d = (let l = next_id d;
     calls = map (\<lambda>od. (l, True, oe_name (od_op od))) (filter (\<lambda>od. def_count od > 0) (operators d)) in
     (d\<lparr> listener_calls := rev calls @ listener_calls d, listeners := listeners d @ [l], next_id := Suc l \<rparr>, Inr (RListener l)))"

section \<open>Registrations\<close>

definition findOrRegisterName :: "dispatcher \<Rightarrow> string \<Rightarrow> (dispatcher \<times> nat) result" where
  "findOrRegisterName d name = (case findOp d name of Some i \<Rightarrow> Inr (d, i)
     | None \<Rightarrow> bindE (OperatorEntry (backendFallbackKernels d) name) (\<lambda>e. let i = next_id d in
         Inr (d\<lparr> operators := operators d @ [\<lparr> od_id = i, od_op = e, def_count = 0, def_and_impl_count = 0 \<rparr>],
                 operatorLookupTable := (name, i) # operatorLookupTable d, next_id := Suc i \<rparr>, i)))"

definition registerLibrary :: "string \<Rightarrow> string \<Rightarrow> dispatcher \<Rightarrow> registration outcome" where
  "registerLibrary ns debug d = (case map_of (libraries d) ns of
       Some _ \<Rightarrow> (d, Inl (CheckError ''Only a single TORCH_LIBRARY can be used to register the namespace ''))
     | None \<Rightarrow> (d\<lparr> libraries := (ns, debug) # libraries d \<rparr>, Inr (RLibrary ns)))"

definition deregisterLibrary :: "string \<Rightarrow> dispatcher \<Rightarrow> unit outcome" where
  "deregisterLibrary ns d = (d\<lparr> libraries := filter (\<lambda>p. fst p \<noteq> ns) (libraries d) \<rparr>, Inr ())"

text \<open>The first part of a registration: the operator is found or created, and \<open>act\<close> works on it.\<close>

definition with_name :: "string \<Rightarrow> (nat \<Rightarrow> operator_def \<Rightarrow> dispatcher \<Rightarrow> 'a outcome) \<Rightarrow> dispatcher \<Rightarrow> 'a outcome" where
  "with_name name act d = (case findOrRegisterName d name of Inl err \<Rightarrow> (d, Inl err)
     | Inr (d1, i) \<Rightarrow> (case operatorDef d1 i of Inl err \<Rightarrow> (d1, Inl err) | Inr od \<Rightarrow> act i od d1))"

definition def_schema :: "(op_schema \<Rightarrow> bool \<Rightarrow> op_schema \<Rightarrow> bool) \<Rightarrow> op_schema \<Rightarrow> string \<Rightarrow> nat \<Rightarrow> operator_def \<Rightarrow> dispatcher \<Rightarrow> registration outcome" where
  "def_schema differs schema debug i od d =
     (if def_count od \<noteq> 0 then (d, Inl (CheckError ''Tried to register an operator with the same name and overload name multiple times.''))
      else case registerSchema differs schema debug (od_op od) of Inl err \<Rightarrow> (d, Inl err)
        | Inr e \<Rightarrow> (callOnOperatorRegistered (os_name schema)
            (set_def i (od\<lparr> od_op := e, def_count := def_count od + 1, def_and_impl_count := def_and_impl_count od + 1 \<rparr>) d),
            Inr (RDef i (os_name schema))))"

definition registerDef :: "(op_schema \<Rightarrow> bool \<Rightarrow> op_schema \<Rightarrow> bool) \<Rightarrow> op_schema \<Rightarrow> string \<Rightarrow> dispatcher \<Rightarrow> registration outcome" where
  "registerDef differs schema debug = with_name (os_name schema) (def_schema differs schema debug)"

definition cleanup :: "nat \<Rightarrow> string \<Rightarrow> operator_def \<Rightarrow> dispatcher \<Rightarrow> dispatcher" where
  "cleanup i name od d = (if def_and_impl_count od = 0
     then d\<lparr> operators := filter (\<lambda>od'. od_id od' \<noteq> i) (operators d), operatorLookupTable := filter (\<lambda>p. fst p \<noteq> name) (operatorLookupTable d) \<rparr>
     else d)"

definition deregisterDef :: "nat \<Rightarrow> string \<Rightarrow> dispatcher \<Rightarrow> unit outcome" where
  "deregisterDef i name d = (case operatorDef d i of Inl err \<Rightarrow> (d, Inl err)
     | Inr od \<Rightarrow> (case oe_schema (od_op od) of
         None \<Rightarrow> (d, Inl (InternalAssert ''Tried to access the schema for which doesn't have a schema registered yet''))
       | Some (schema, _) \<Rightarrow>
           if os_name schema \<noteq> name then (d, Inl (InternalAssert ''op.schema().operator_name() == op_name''))
           else if def_count od = 0 then (d, Inl (InternalAssert ''op.operatorDef_->def_count > 0''))
           else if def_and_impl_count od = 0 then (d, Inl (InternalAssert ''op.operatorDef_->def_and_impl_count > 0''))
           else let od1 = od\<lparr> def_count := def_count od - 1, def_and_impl_count := def_and_impl_count od - 1 \<rparr>; d1 = set_def i od1 d in
             if def_count od1 = 0 then
               let d2 = callOnOperatorDeregistered name d1 in
               (case deregisterSchema (od_op od1) of Inl err \<Rightarrow> (d2, Inl err)
                | Inr e \<Rightarrow> let od2 = od1\<lparr> od_op := e \<rparr> in (cleanup i name od2 (set_def i od2 d2), Inr ()))
             else (cleanup i name od1 d1, Inr ())))"

text \<open>If the schema check fails, the C++ signature that the kernel has brought stays.\<close>

definition impl_kernel :: "(op_schema \<Rightarrow> bool \<Rightarrow> op_schema \<Rightarrow> bool) \<Rightarrow> string \<Rightarrow> DispatchKey option \<Rightarrow> annotated_kernel \<Rightarrow> nat option \<Rightarrow>
    nat \<Rightarrow> operator_def \<Rightarrow> dispatcher \<Rightarrow> registration outcome" where
  "impl_kernel differs name dispatch_key a sig i od d = (let handle = next_id d; a1 = a\<lparr> ak_handle := handle \<rparr> in
     case registerKernel differs (backendFallbackKernels d) dispatch_key a1 sig (od_op od) of
       Inl err \<Rightarrow> ((case register_signature sig (kf_symUnboxed (ak_kernel a1)) (od_op od) of Inl _ \<Rightarrow> d | Inr e \<Rightarrow> set_def i (od\<lparr> od_op := e \<rparr>) d), Inl err)
     | Inr e \<Rightarrow> ((set_def i (od\<lparr> od_op := e, def_and_impl_count := def_and_impl_count od + 1 \<rparr>) d)\<lparr> next_id := Suc handle \<rparr>, Inr (RImpl i name dispatch_key handle)))"

definition registerImpl :: "(op_schema \<Rightarrow> bool \<Rightarrow> op_schema \<Rightarrow> bool) \<Rightarrow> string \<Rightarrow> DispatchKey option \<Rightarrow> annotated_kernel \<Rightarrow> nat option \<Rightarrow>
    dispatcher \<Rightarrow> registration outcome" where
  "registerImpl differs name dispatch_key a sig = with_name name (impl_kernel differs name dispatch_key a sig)"

text \<open>The last part of a deregistration: one registration less, and the operator is removed with the last one.\<close>

definition drop_reference :: "nat \<Rightarrow> string \<Rightarrow> operator_def \<Rightarrow> dispatcher \<Rightarrow> unit outcome" where
  "drop_reference i name od d =
     (if oe_name (od_op od) \<noteq> name then (d, Inl (InternalAssert ''op.operator_name() == op_name''))
      else if def_and_impl_count od = 0 then (d, Inl (InternalAssert ''op.operatorDef_->def_and_impl_count > 0''))
      else let od1 = od\<lparr> def_and_impl_count := def_and_impl_count od - 1 \<rparr> in (cleanup i name od1 (set_def i od1 d), Inr ()))"

definition deregisterImpl :: "nat \<Rightarrow> string \<Rightarrow> DispatchKey option \<Rightarrow> nat \<Rightarrow> dispatcher \<Rightarrow> unit outcome" where
  "deregisterImpl i name dispatch_key handle d = (case operatorDef d i of Inl err \<Rightarrow> (d, Inl err)
     | Inr od \<Rightarrow> (case deregisterKernel (backendFallbackKernels d) dispatch_key handle (od_op od) of Inl err \<Rightarrow> (d, Inl err)
       | Inr e \<Rightarrow> let od1 = od\<lparr> od_op := e \<rparr> in drop_reference i name od1 (set_def i od1 d)))"

definition registerName :: "string \<Rightarrow> dispatcher \<Rightarrow> registration outcome" where
  "registerName name = with_name name (\<lambda>i od d. (set_def i (od\<lparr> def_and_impl_count := def_and_impl_count od + 1 \<rparr>) d, Inr (RName i name)))"

definition deregisterName :: "nat \<Rightarrow> string \<Rightarrow> dispatcher \<Rightarrow> unit outcome" where
  "deregisterName i name d = (case operatorDef d i of Inl err \<Rightarrow> (d, Inl err) | Inr od \<Rightarrow> drop_reference i name od d)"

section \<open>Backend fallbacks\<close>

fun update_fallbacks :: "annotated_kernel list \<Rightarrow> DispatchKey \<Rightarrow> operator_def list \<Rightarrow> operator_def list \<times> unit result" where
  "update_fallbacks fallbacks k [] = ([], Inr ())"
| "update_fallbacks fallbacks k (od # ods) = (case updateFallback fallbacks (od_op od) k of
       Inl err \<Rightarrow> (od # ods, Inl err)
     | Inr e \<Rightarrow> (case update_fallbacks fallbacks k ods of (ods', r) \<Rightarrow> (od\<lparr> od_op := e \<rparr> # ods', r)))"

definition set_fallback :: "DispatchKey \<Rightarrow> nat \<Rightarrow> annotated_kernel \<Rightarrow> dispatcher \<Rightarrow> unit outcome" where
  "set_fallback k idx a d = (let fallbacks = (backendFallbackKernels d)[idx := a] in
     case update_fallbacks fallbacks k (operators d) of (ods, r) \<Rightarrow> (d\<lparr> backendFallbackKernels := fallbacks, operators := ods \<rparr>, r))"

definition registerFallback :: "DispatchKey \<Rightarrow> kernel_function \<Rightarrow> string \<Rightarrow> dispatcher \<Rightarrow> registration outcome" where
  "registerFallback k kfn debug d = (case getDispatchTableIndexForDispatchKey k of
       None \<Rightarrow> (d, Inl (CheckError ''idx=''))
     | Some idx \<Rightarrow>
         if \<not> idx < length (backendFallbackKernels d) then (d, Inl (CheckError ''idx=''))
         else if k \<noteq> DispatchKey_AutogradPrivateUse1 \<and> isValid (ak_kernel (backendFallbackKernels d ! idx))
           then (d, Inl (CheckError ''Tried to register multiple backend fallbacks for the same dispatch key ''))
         else (case set_fallback k idx \<lparr> ak_kernel = kfn, ak_inferred = None, ak_debug = debug, ak_handle = 0 \<rparr> d of
           (d1, r) \<Rightarrow> (d1, bindE r (\<lambda>_. Inr (RFallback k)))))"

definition deregisterFallback :: "DispatchKey \<Rightarrow> dispatcher \<Rightarrow> unit outcome" where
  "deregisterFallback k d = (case getDispatchTableIndexForDispatchKey k of
       None \<Rightarrow> (d, Inl (StdOutOfRange ''array''))
     | Some idx \<Rightarrow> set_fallback k idx missingKernel d)"

section \<open>Python stubs\<close>

definition registerPythonModule :: "string \<Rightarrow> string \<Rightarrow> string \<Rightarrow> dispatcher \<Rightarrow> registration outcome" where
  "registerPythonModule name pymodule context d =
     (d\<lparr> pythonModules := (name, pymodule, context) # filter (\<lambda>p. fst p \<noteq> name) (pythonModules d) \<rparr>, Inr (RPythonModule name))"

definition deregisterPythonModule :: "string \<Rightarrow> dispatcher \<Rightarrow> unit outcome" where
  "deregisterPythonModule name d = (d\<lparr> pythonModules := filter (\<lambda>p. fst p \<noteq> name) (pythonModules d) \<rparr>, Inr ())"

section \<open>Handles\<close>

definition deregister :: "registration \<Rightarrow> dispatcher \<Rightarrow> unit outcome" where
  "deregister r d = (case r of
       RLibrary ns \<Rightarrow> deregisterLibrary ns d
     | RDef i name \<Rightarrow> deregisterDef i name d
     | RImpl i name dispatch_key handle \<Rightarrow> deregisterImpl i name dispatch_key handle d
     | RName i name \<Rightarrow> deregisterName i name d
     | RFallback k \<Rightarrow> deregisterFallback k d
     | RPythonModule name \<Rightarrow> deregisterPythonModule name d
     | RListener l \<Rightarrow> (d\<lparr> listeners := remove1 l (listeners d) \<rparr>, Inr ()))"

text \<open>The destructor of the handle does nothing once the dispatcher is gone.\<close>

definition destroyHandle :: "registration \<Rightarrow> dispatcher \<Rightarrow> unit outcome" where
  "destroyHandle r d = (if \<not> guard_alive d then (d, Inr ()) else deregister r d)"

section \<open>Calls\<close>

definition dispatcher_call :: "DispatchKeySet \<Rightarrow> DispatchKeySet \<Rightarrow> dispatcher \<Rightarrow> nat \<Rightarrow> DispatchKeySet list \<Rightarrow> kernel_function result" where
  "dispatcher_call inc exc d i args = bindE (operatorDef d i) (\<lambda>od.
     lookup (backendFallbackKernels d) (od_op od) (getDispatchKeySetUnboxed inc exc (dispatchKeyExtractor (od_op od)) args))"

definition dispatcher_redispatch :: "dispatcher \<Rightarrow> nat \<Rightarrow> DispatchKeySet \<Rightarrow> kernel_function result" where
  "dispatcher_redispatch d i ks = bindE (operatorDef d i) (\<lambda>od. lookup (backendFallbackKernels d) (od_op od) ks)"

definition callBoxedForDispatchKey :: "dispatcher \<Rightarrow> nat \<Rightarrow> DispatchKey \<Rightarrow> kernel_function result" where
  "callBoxedForDispatchKey d i k = bindE (operatorDef d i) (\<lambda>od. bindE (hasKernelForDispatchKey (od_op od) k) (\<lambda>b.
     if b then kernelForDispatchKey (od_op od) k
     else case getDispatchTableIndexForDispatchKey k of None \<Rightarrow> Inl (InternalAssert ''idx >= 0'')
       | Some idx \<Rightarrow> Inr (ak_kernel (backendFallbackKernels d ! idx))))"

end
