(* ===== verification/OperatorLifecycle.thy ===== *)
theory OperatorLifecycle
  imports OperatorRegistry
begin

text \<open>
  What the registry keeps through any sequence of registrations, failed registrations and destroyed handles:
  the registration counts, the lookup table, schemas and kernel lists of all operators agree with the handles
  that are still alive.
\<close>

section \<open>Outstanding handles\<close>

fun handle_op :: "registration \<Rightarrow> (nat \<times> string) option" where
  "handle_op (RDef i name) = Some (i, name)"
| "handle_op (RImpl i name dk h) = Some (i, name)"
| "handle_op (RName i name) = Some (i, name)"
| "handle_op r = None"

definition refers :: "nat \<Rightarrow> registration \<Rightarrow> bool" where
  "refers i r \<longleftrightarrow> (\<exists>name. handle_op r = Some (i, name))"

fun is_def_of :: "nat \<Rightarrow> registration \<Rightarrow> bool" where
  "is_def_of i (RDef j name) \<longleftrightarrow> j = i"
| "is_def_of i r \<longleftrightarrow> False"

text \<open>The handles of the kernels registered for a key of an operator, newest first.\<close>

fun impl_of :: "nat \<Rightarrow> DispatchKey \<Rightarrow> registration \<Rightarrow> nat list" where
  "impl_of i k (RImpl j name dk h) = (if j = i \<and> registered_key dk = k then [h] else [])"
| "impl_of i k r = []"

definition impls :: "nat \<Rightarrow> DispatchKey \<Rightarrow> registration list \<Rightarrow> nat list" where
  "impls i k R = concat (map (impl_of i k) R)"

fun impl_handle :: "registration \<Rightarrow> nat list" where
  "impl_handle (RImpl j name dk h) = [h]"
| "impl_handle r = []"

definition handles :: "registration list \<Rightarrow> nat list" where
  "handles R = concat (map impl_handle R)"

definition kernels_at :: "operator_entry \<Rightarrow> DispatchKey \<Rightarrow> annotated_kernel list" where
  "kernels_at e k = (case map_of (kernels e) k of None \<Rightarrow> [] | Some l \<Rightarrow> l)"

definition occurrences :: "('a \<Rightarrow> bool) \<Rightarrow> 'a list \<Rightarrow> nat" where
  "occurrences P l = length (filter P l)"

lemma count_simps [simp]: "occurrences P [] = 0" "occurrences P (x # l) = (if P x then Suc (occurrences P l) else occurrences P l)"
  by (simp_all add: occurrences_def)

lemma count_remove1: "x \<in> set l \<Longrightarrow> occurrences P (remove1 x l) = (if P x then occurrences P l - 1 else occurrences P l)"
proof (induction l)
  case (Cons y l)
  have "0 < occurrences P l" if "P x" "x \<in> set l" using that by (auto simp: occurrences_def filter_empty_conv)
  then show ?case using Cons by auto
qed simp

lemma count_pos: "x \<in> set l \<Longrightarrow> P x \<Longrightarrow> 0 < occurrences P l"
  by (auto simp: occurrences_def filter_empty_conv)

lemma count_zero: "occurrences P l = 0 \<longleftrightarrow> (\<forall>x \<in> set l. \<not> P x)"
  by (simp add: occurrences_def filter_empty_conv)

lemma impls_simps [simp]: "impls i k [] = []" "impls i k (r # R) = impl_of i k r @ impls i k R"
  by (simp_all add: impls_def)

lemma handles_simps [simp]: "handles [] = []" "handles (r # R) = impl_handle r @ handles R"
  by (simp_all add: handles_def)

lemma impl_of_handle: "set (impl_of i k r) \<subseteq> set (impl_handle r)"
  by (cases r) auto

lemma impls_handles: "set (impls i k R) \<subseteq> set (handles R)"
  by (induction R) (use impl_of_handle in fastforce)+

lemma handles_mem: "r \<in> set R \<Longrightarrow> set (impl_handle r) \<subseteq> set (handles R)"
  by (auto simp: handles_def)

lemma impls_remove1_other: "impl_of i k r = [] \<Longrightarrow> impls i k (remove1 r R) = impls i k R"
  by (induction R) auto

lemma impl_of_other: "h \<notin> set (impl_handle r) \<Longrightarrow> h \<notin> set (impl_of i k r)"
  using impl_of_handle by blast

lemma impls_remove1:
  assumes "distinct (handles R)" "RImpl i name dk h \<in> set R"
  shows "impls j k (remove1 (RImpl i name dk h) R) = (if j = i \<and> registered_key dk = k then filter (\<lambda>x. x \<noteq> h) (impls j k R) else impls j k R)"
  using assms
proof (induction R)
  case (Cons r R)
  have f: "filter (\<lambda>x. x \<noteq> h) l = l" if "h \<notin> set l" for l :: "nat list" using that by (induction l) auto
  show ?case
  proof (cases "r = RImpl i name dk h")
    case True
    then have "h \<notin> set (impls j k R)" using Cons.prems(1) impls_handles [of j k R] by auto
    then show ?thesis using True f by auto
  next
    case False
    then have m: "RImpl i name dk h \<in> set R" using Cons.prems(2) by simp
    then have "h \<in> set (handles R)" using handles_mem [OF m] by simp
    then have "h \<notin> set (impl_handle r)" using Cons.prems(1) by auto
    then have "filter (\<lambda>x. x \<noteq> h) (impl_of j k r) = impl_of j k r" by (intro f impl_of_other)
    then show ?thesis using False m Cons by (cases "j = i \<and> registered_key dk = k") auto
  qed
qed simp

lemma handles_remove1: "set (handles (remove1 r R)) \<subseteq> set (handles R)" "distinct (handles R) \<Longrightarrow> distinct (handles (remove1 r R))"
proof -
  show s: "set (handles (remove1 r R)) \<subseteq> set (handles R)" for R by (induction R) auto
  show "distinct (handles R) \<Longrightarrow> distinct (handles (remove1 r R))"
    by (induction R) (use s in fastforce)+
qed

section \<open>The invariant\<close>

definition od_inv :: "registration list \<Rightarrow> operator_def \<Rightarrow> bool" where
  "od_inv R od \<longleftrightarrow> entry_inv (od_op od) \<and> schema_inv (od_op od) \<and>
     def_and_impl_count od = occurrences (refers (od_id od)) R \<and> def_count od = occurrences (is_def_of (od_id od)) R \<and> def_count od \<le> 1 \<and>
     (oe_schema (od_op od) = None \<longleftrightarrow> def_count od = 0) \<and> (\<forall>k. map ak_handle (kernels_at (od_op od) k) = impls (od_id od) k R)"

definition has_op :: "dispatcher \<Rightarrow> nat \<Rightarrow> string \<Rightarrow> bool" where
  "has_op d i name \<longleftrightarrow> (\<exists>od \<in> set (operators d). od_id od = i \<and> oe_name (od_op od) = name)"

definition registry_inv :: "dispatcher \<Rightarrow> registration list \<Rightarrow> bool" where
  "registry_inv d R \<longleftrightarrow> distinct (map od_id (operators d)) \<and>
     (\<forall>name i. map_of (operatorLookupTable d) name = Some i \<longleftrightarrow> has_op d i name) \<and>
     (\<forall>od \<in> set (operators d). od_inv R od \<and> od_id od < next_id d) \<and>
     (\<forall>r \<in> set R. \<forall>i name. handle_op r = Some (i, name) \<longrightarrow> has_op d i name) \<and>
     distinct (handles R) \<and> (\<forall>h \<in> set (handles R). h < next_id d) \<and>
     length (backendFallbackKernels d) = num_runtime_entries \<and> (\<forall>k. RFallback k \<in> set R \<longrightarrow> tableKey k)"

lemmas registry_invD =
  registry_inv_def [THEN iffD1, THEN conjunct1]
  registry_inv_def [THEN iffD1, THEN conjunct2, THEN conjunct1, rule_format]
  registry_inv_def [THEN iffD1, THEN conjunct2, THEN conjunct2, THEN conjunct1, rule_format]
  registry_inv_def [THEN iffD1, THEN conjunct2, THEN conjunct2, THEN conjunct2, THEN conjunct1, rule_format]
  registry_inv_def [THEN iffD1, THEN conjunct2, THEN conjunct2, THEN conjunct2, THEN conjunct2, THEN conjunct1]
  registry_inv_def [THEN iffD1, THEN conjunct2, THEN conjunct2, THEN conjunct2, THEN conjunct2, THEN conjunct2, THEN conjunct1, rule_format]
  registry_inv_def [THEN iffD1, THEN conjunct2, THEN conjunct2, THEN conjunct2, THEN conjunct2, THEN conjunct2, THEN conjunct2, THEN conjunct1]
  registry_inv_def [THEN iffD1, THEN conjunct2, THEN conjunct2, THEN conjunct2, THEN conjunct2, THEN conjunct2, THEN conjunct2, THEN conjunct2, rule_format]

lemma handle_other:
  assumes "\<not> refers j r"
  shows "\<not> is_def_of j r" "impl_of j k r = []"
  using assms by (cases r; auto simp: refers_def)+

lemma refers_op: "handle_op r = Some (i, name) \<Longrightarrow> refers j r \<longleftrightarrow> j = i"
  by (auto simp: refers_def)

lemma impls_none: "\<forall>r \<in> set R. \<not> refers i r \<Longrightarrow> impls i k R = []"
  by (induction R) (auto simp: handle_other)

text \<open>Two lists of handles agree on an operator.\<close>

definition agree :: "nat \<Rightarrow> registration list \<Rightarrow> registration list \<Rightarrow> bool" where
  "agree j R R' \<longleftrightarrow> occurrences (refers j) R' = occurrences (refers j) R \<and> occurrences (is_def_of j) R' = occurrences (is_def_of j) R \<and> (\<forall>k. impls j k R' = impls j k R)"

lemma agree_refl [simp]: "agree j R R"
  by (simp add: agree_def)

lemma agree_Cons: "\<not> refers j r \<Longrightarrow> agree j R (r # R)"
  by (simp add: agree_def handle_other)

lemma agree_remove1: "\<not> refers j r \<Longrightarrow> r \<in> set R \<Longrightarrow> agree j R (remove1 r R)"
  by (simp add: agree_def handle_other count_remove1 impls_remove1_other)

lemma od_inv_agree: "agree (od_id od) R R' \<Longrightarrow> od_inv R' od = od_inv R od"
  by (simp add: agree_def od_inv_def)

lemma operatorDef_eq:
  assumes "distinct (map od_id (operators d))" "od \<in> set (operators d)"
  shows "operatorDef d (od_id od) = Inr od"
proof -
  have "find (\<lambda>od'. od_id od' = od_id od) l = Some od" if "distinct (map od_id l)" "od \<in> set l" for l
    using that by (induction l) auto
  then show ?thesis using assms by (simp add: operatorDef_def)
qed

lemma set_def_simps [simp]:
  "operatorLookupTable (set_def i od d) = operatorLookupTable d" "backendFallbackKernels (set_def i od d) = backendFallbackKernels d"
  "next_id (set_def i od d) = next_id d" "guard_alive (set_def i od d) = guard_alive d" "listeners (set_def i od d) = listeners d"
  by (simp_all add: set_def_def)

lemma set_def_operators:
  assumes "distinct (map od_id (operators d))" "od \<in> set (operators d)" "od_id od' = od_id od"
  shows "set (operators (set_def (od_id od) od' d)) = insert od' (set (operators d) - {od})" "map od_id (operators (set_def (od_id od) od' d)) = map od_id (operators d)"
proof -
  have i: "x = od" if "x \<in> set (operators d)" "od_id x = od_id od" for x using assms(1,2) that by (metis distinct_map inj_onD)
  show "set (operators (set_def (od_id od) od' d)) = insert od' (set (operators d) - {od})"
    using assms(2) i by (auto simp: set_def_def image_iff)
  show "map od_id (operators (set_def (od_id od) od' d)) = map od_id (operators d)" using assms(3) by (simp add: set_def_def)
qed

lemma registry_update:
  assumes inv: "registry_inv d R" and od: "od \<in> set (operators d)" and same: "od_id od' = od_id od" "oe_name (od_op od') = oe_name (od_op od)"
    and new: "od_inv R' od'" and others: "\<forall>j. j \<noteq> od_id od \<longrightarrow> agree j R R'"
    and refs: "\<forall>r \<in> set R'. r \<in> set R \<or> (\<forall>j name. handle_op r = Some (j, name) \<longrightarrow> j = od_id od \<and> name = oe_name (od_op od))"
    and hs: "distinct (handles R')" "\<forall>h \<in> set (handles R'). h < m" "next_id d \<le> m" and fb: "\<forall>k. RFallback k \<in> set R' \<longrightarrow> RFallback k \<in> set R"
  shows "registry_inv ((set_def (od_id od) od' d)\<lparr> next_id := m \<rparr>) R'"
proof -
  let ?d = "(set_def (od_id od) od' d)\<lparr> next_id := m \<rparr>"
  have dist: "distinct (map od_id (operators d))" using registry_invD(1) [OF inv] .
  note ops = set_def_operators [OF dist od same(1)]
  have i: "x = od" if "x \<in> set (operators d)" "od_id x = od_id od" for x using dist od that by (metis distinct_map inj_onD)
  have has: "has_op ?d j name = has_op d j name" for j name
    using ops(1) od same by (auto simp: has_op_def)
  have "od_inv R' x \<and> od_id x < m" if "x \<in> set (operators ?d)" for x
  proof (cases "x = od'")
    case True then show ?thesis using new registry_invD(3) [OF inv od] same(1) hs(3) by simp
  next
    case False
    then have x: "x \<in> set (operators d)" "x \<noteq> od" using that ops(1) by auto
    then have "od_id x \<noteq> od_id od" using i by blast
    then show ?thesis using od_inv_agree [of x R R'] others registry_invD(3) [OF inv x(1)] hs(3) by auto
  qed
  moreover have "has_op d j name" if "r \<in> set R'" "handle_op r = Some (j, name)" for r j name
  proof -
    have "has_op d (od_id od) (oe_name (od_op od))" using od by (auto simp: has_op_def)
    then show ?thesis using refs that registry_invD(4) [OF inv] by blast
  qed
  ultimately show ?thesis
    unfolding registry_inv_def has using ops(2) dist registry_invD(2,7,8) [OF inv] hs(1,2) fb by auto
qed

lemma registry_cleanup:
  assumes inv: "registry_inv d R" and od: "od \<in> set (operators d)"
  shows "registry_inv (cleanup (od_id od) (oe_name (od_op od)) od d) R"
proof (cases "def_and_impl_count od = 0")
  case True
  let ?d = "cleanup (od_id od) (oe_name (od_op od)) od d" and ?n = "oe_name (od_op od)"
  have dist: "distinct (map od_id (operators d))" using registry_invD(1) [OF inv] .
  have ops: "operators ?d = filter (\<lambda>x. od_id x \<noteq> od_id od) (operators d)"
    and tab: "operatorLookupTable ?d = filter (\<lambda>p. fst p \<noteq> ?n) (operatorLookupTable d)" using True by (simp_all add: cleanup_def)
  have "occurrences (refers (od_id od)) R = 0" using registry_invD(3) [OF inv od] True by (simp add: od_inv_def)
  then have none: "\<not> refers (od_id od) r" if "r \<in> set R" for r using that by (simp add: count_zero)
  have f: "map_of (filter (\<lambda>p. fst p \<noteq> n) l) m = (if m = n then None else map_of l m)" for l :: "(string \<times> nat) list" and n m by (induction l) auto
  have i: "x = od" if "x \<in> set (operators d)" "od_id x = od_id od" for x using dist od that by (metis distinct_map inj_onD)
  have has: "has_op ?d j name \<longleftrightarrow> has_op d j name \<and> j \<noteq> od_id od" for j name using ops by (auto simp: has_op_def)
  have names: "j = od_id od \<longleftrightarrow> name = ?n" if "has_op d j name" for j name
  proof
    assume "j = od_id od" then show "name = ?n" using that i by (auto simp: has_op_def)
  next
    have o: "has_op d (od_id od) ?n" using od by (auto simp: has_op_def)
    assume "name = ?n" then show "j = od_id od" using registry_invD(2) [OF inv] that o by (metis option.inject)
  qed
  have "map_of (operatorLookupTable ?d) name = Some j \<longleftrightarrow> has_op ?d j name" for name j
    unfolding tab f has using registry_invD(2) [OF inv] names by auto
  moreover have "has_op ?d j name" if "r \<in> set R" "handle_op r = Some (j, name)" for r j name
    using registry_invD(4) [OF inv that] none [OF that(1)] refers_op [OF that(2)] unfolding has by auto
  moreover have "distinct (map od_id (operators ?d))" using dist unfolding ops by (rule distinct_map_filter)
  moreover have "next_id ?d = next_id d" "backendFallbackKernels ?d = backendFallbackKernels d" using True by (simp_all add: cleanup_def)
  ultimately show ?thesis unfolding registry_inv_def using registry_invD(3,5-8) [OF inv] ops by auto
qed (use inv in \<open>simp add: cleanup_def\<close>)

section \<open>Registrations\<close>

definition all_up_to_date :: "dispatcher \<Rightarrow> bool" where
  "all_up_to_date d \<longleftrightarrow> (\<forall>od \<in> set (operators d). up_to_date (backendFallbackKernels d) (od_op od))"

definition all_referenced :: "dispatcher \<Rightarrow> bool" where
  "all_referenced d \<longleftrightarrow> (\<forall>od \<in> set (operators d). 0 < def_and_impl_count od)"

lemma findOrRegisterName_ok:
  assumes inv: "registry_inv d R"
  obtains d1 od where "findOrRegisterName d name = Inr (d1, od_id od)" "registry_inv d1 R" "od \<in> set (operators d1)" "oe_name (od_op od) = name"
    "backendFallbackKernels d1 = backendFallbackKernels d" "guard_alive d1 = guard_alive d" "all_up_to_date d \<longrightarrow> all_up_to_date d1"
    "\<forall>x \<in> set (operators d1). x = od \<or> x \<in> set (operators d)" "od \<in> set (operators d) \<or> newest (od_op od) = (\<lambda>_. None)"
proof (cases "findOp d name")
  case (Some i)
  then have "has_op d i name" using registry_invD(2) [OF inv] by (simp add: findOp_def)
  then obtain od where "od \<in> set (operators d)" "od_id od = i" "oe_name (od_op od) = name" by (auto simp: has_op_def)
  then show thesis using that [of d od] inv Some by (simp add: findOrRegisterName_def)
next
  case None
  let ?i = "next_id d"
  obtain e where e: "OperatorEntry (backendFallbackKernels d) name = Inr e" "entry_inv e" "up_to_date (backendFallbackKernels d) e" "kernels e = []"
      "oe_name e = name" "oe_schema e = None" "dispatch_arg_indices_reverse (dispatchKeyExtractor e) = 0"
    by (rule OperatorEntry_up_to_date [OF registry_invD(7) [OF inv]])
  let ?od = "\<lparr> od_id = ?i, od_op = e, def_count = 0, def_and_impl_count = 0 \<rparr>"
  let ?d = "d\<lparr> operators := operators d @ [?od], operatorLookupTable := (name, ?i) # operatorLookupTable d, next_id := Suc ?i \<rparr>"
  have less: "od_id x < ?i" if "x \<in> set (operators d)" for x using registry_invD(3) [OF inv that] by simp
  have none: "\<not> refers ?i r" if "r \<in> set R" for r
    using registry_invD(4) [OF inv that] less by (fastforce simp: refers_def has_op_def)
  then have "occurrences (refers ?i) R = 0" "occurrences (is_def_of ?i) R = 0" by (simp_all add: count_zero handle_other)
  then have odi: "od_inv R ?od" using e impls_none [of R ?i] none by (simp add: od_inv_def schema_inv_def kernels_at_def)
  have has: "has_op ?d j m \<longleftrightarrow> has_op d j m \<or> j = ?i \<and> m = name" for j m using e(5) by (auto simp: has_op_def)
  have nohas: "\<not> has_op d j name" for j
  proof -
    have "map_of (operatorLookupTable d) name \<noteq> Some j" using None by (simp add: findOp_def)
    then show ?thesis using registry_invD(2) [OF inv] by blast
  qed
  have "map_of (operatorLookupTable ?d) m = Some j \<longleftrightarrow> has_op ?d j m" for m j
    unfolding has using registry_invD(2) [OF inv] nohas by auto
  moreover have "distinct (map od_id (operators ?d))"
  proof -
    have "?i \<notin> od_id ` set (operators d)" using less by (metis imageE nat_neq_iff)
    then show ?thesis using registry_invD(1) [OF inv] by simp
  qed
  moreover have "od_inv R x \<and> od_id x < next_id ?d" if "x \<in> set (operators ?d)" for x using that registry_invD(3) [OF inv] odi by fastforce
  moreover have "has_op ?d j m" if "r \<in> set R" "handle_op r = Some (j, m)" for r j m using registry_invD(4) [OF inv that] unfolding has by simp
  moreover have "h < next_id ?d" if "h \<in> set (handles R)" for h using registry_invD(6) [OF inv that] by simp
  ultimately have "registry_inv ?d R"
    unfolding registry_inv_def using registry_invD(5,7,8) [OF inv] by simp
  moreover have "newest e = (\<lambda>_. None)" using e(4) by (simp add: newest_def fun_eq_iff)
  ultimately show thesis using that [of ?d ?od] None e by (simp add: findOrRegisterName_def Let_def all_up_to_date_def)
qed

text \<open>The effect of a registration on the registry, and of the part of it that works on one operator.\<close>

definition registers :: "dispatcher \<Rightarrow> registration list \<Rightarrow> bool \<Rightarrow> registration outcome \<Rightarrow> bool" where
  "registers d R compl out \<longleftrightarrow> (case out of (d1, res) \<Rightarrow>
     registry_inv d1 (case res of Inl _ \<Rightarrow> R | Inr r \<Rightarrow> r # R) \<and> guard_alive d1 = guard_alive d \<and>
     (all_up_to_date d \<and> compl \<longrightarrow> all_up_to_date d1) \<and> (all_referenced d \<and> (\<exists>r. res = Inr r) \<longrightarrow> all_referenced d1))"

definition acts_on :: "dispatcher \<Rightarrow> operator_def \<Rightarrow> registration list \<Rightarrow> bool \<Rightarrow> registration outcome \<Rightarrow> bool" where
  "acts_on d od R compl out \<longleftrightarrow> (case out of (d1, res) \<Rightarrow>
     registry_inv d1 (case res of Inl _ \<Rightarrow> R | Inr r \<Rightarrow> r # R) \<and> guard_alive d1 = guard_alive d \<and>
     (all_up_to_date d \<and> compl \<longrightarrow> all_up_to_date d1) \<and>
     ((\<exists>r. res = Inr r) \<longrightarrow> (\<forall>x \<in> set (operators d1). x \<in> set (operators d) - {od} \<or> 0 < def_and_impl_count x)))"

lemma with_name_registers:
  assumes inv: "registry_inv d R"
    and act: "\<And>d1 od. registry_inv d1 R \<Longrightarrow> od \<in> set (operators d1) \<Longrightarrow> oe_name (od_op od) = name \<Longrightarrow>
      od \<in> set (operators d) \<or> newest (od_op od) = (\<lambda>_. None) \<Longrightarrow> acts_on d1 od R compl (act (od_id od) od d1)"
  shows "registers d R compl (with_name name act d)"
proof -
  obtain d1 od where f: "findOrRegisterName d name = Inr (d1, od_id od)" "registry_inv d1 R" "od \<in> set (operators d1)" "oe_name (od_op od) = name"
      "backendFallbackKernels d1 = backendFallbackKernels d" "guard_alive d1 = guard_alive d" "all_up_to_date d \<longrightarrow> all_up_to_date d1"
      "\<forall>x \<in> set (operators d1). x = od \<or> x \<in> set (operators d)" "od \<in> set (operators d) \<or> newest (od_op od) = (\<lambda>_. None)"
    by (rule findOrRegisterName_ok [OF inv])
  have run: "with_name name act d = act (od_id od) od d1"
    using f(1) operatorDef_eq [OF registry_invD(1) [OF f(2)] f(3)] by (simp add: with_name_def)
  obtain d2 res where out: "act (od_id od) od d1 = (d2, res)" by (cases "act (od_id od) od d1")
  have a: "registry_inv d2 (case res of Inl _ \<Rightarrow> R | Inr r \<Rightarrow> r # R)" "guard_alive d2 = guard_alive d1" "all_up_to_date d1 \<and> compl \<longrightarrow> all_up_to_date d2"
    "(\<exists>r. res = Inr r) \<longrightarrow> (\<forall>x \<in> set (operators d2). x \<in> set (operators d1) - {od} \<or> 0 < def_and_impl_count x)"
    using act [OF f(2,3,4,9)] unfolding out acts_on_def by simp_all
  have "all_referenced d2" if "all_referenced d" "\<exists>r. res = Inr r"
    using that a(4) f(8) unfolding all_referenced_def by blast
  then show ?thesis using a(1-3) f(6,7) unfolding run registers_def out by simp
qed

lemma acts_on_error: "registry_inv d R \<Longrightarrow> acts_on d od R compl (d, Inl err)"
  by (simp add: acts_on_def)

text \<open>An operator is replaced.\<close>

lemma acts_on_update:
  assumes inv: "registry_inv d R" and od: "od \<in> set (operators d)" and same: "od_id od' = od_id od" "oe_name (od_op od') = oe_name (od_op od)"
    and r: "handle_op r = Some (od_id od, oe_name (od_op od))" "set (impl_handle r) \<subseteq> {next_id d}" "distinct (impl_handle r)"
    and new: "od_inv (r # R) od'" and m: "next_id d \<le> m" "set (impl_handle r) \<subseteq> {..<m}"
    and up: "compl \<and> up_to_date (backendFallbackKernels d) (od_op od) \<longrightarrow> up_to_date (backendFallbackKernels d) (od_op od')"
  shows "acts_on d od R compl ((set_def (od_id od) od' d)\<lparr> next_id := m \<rparr>, Inr r)"
proof -
  let ?d = "(set_def (od_id od) od' d)\<lparr> next_id := m \<rparr>"
  note ops = set_def_operators [OF registry_invD(1) [OF inv] od same(1)]
  have "next_id d \<notin> set (handles R)" using registry_invD(6) [OF inv] by blast
  then have "distinct (handles (r # R))" using r(2,3) registry_invD(5) [OF inv] by auto
  moreover have "\<forall>h \<in> set (handles (r # R)). h < m" using m registry_invD(6) [OF inv] by fastforce
  moreover have "\<forall>j. j \<noteq> od_id od \<longrightarrow> agree j R (r # R)" using refers_op [OF r(1)] agree_Cons by blast
  moreover have "\<forall>k. RFallback k \<in> set (r # R) \<longrightarrow> RFallback k \<in> set R" using r(1) by auto
  ultimately have "registry_inv ?d (r # R)" using r(1) m(1) by (intro registry_update [OF inv od same new]) auto
  moreover have "0 < def_and_impl_count od'" using new refers_op [OF r(1)] same(1) by (simp add: od_inv_def)
  ultimately show ?thesis using ops(1) up od by (auto simp: acts_on_def all_up_to_date_def)
qed

lemma set_def_next_id: "(set_def i od d)\<lparr> next_id := next_id d \<rparr> = set_def i od d"
  by (simp add: set_def_def)

lemma registry_inv_listeners:
  "registry_inv (call_listeners b name d) R = registry_inv d R" "operators (call_listeners b name d) = operators d"
  "all_up_to_date (call_listeners b name d) = all_up_to_date d" "guard_alive (call_listeners b name d) = guard_alive d"
  by (simp_all add: registry_inv_def has_op_def call_listeners_def all_up_to_date_def)

lemma registerSchema_ok:
  assumes "registerSchema differs schema debug e = Inr f" "entry_inv e" "os_name schema = oe_name e"
  shows "entry_inv f" "schema_inv f" "kernels f = kernels e" "oe_name f = oe_name e" "oe_schema f \<noteq> None" "up_to_date fallbacks f = up_to_date fallbacks e"
proof -
  obtain b where f: "f = e\<lparr> oe_schema := Some (schema, debug), dispatchKeyExtractor := (dispatchKeyExtractor e)\<lparr> dispatch_arg_indices_reverse := b \<rparr> \<rparr>"
      "makeBitsetForDispatchArgs schema = Inr b"
    using assms(1) by (auto simp: registerSchema_def dke_registerSchema_def check_def bindE_Inr_iff split: if_splits)
  show "entry_inv f" "up_to_date fallbacks f = up_to_date fallbacks e" using assms(2) unfolding f(1) entry_inv_schema by simp_all
  show "schema_inv f" "kernels f = kernels e" "oe_name f = oe_name e" "oe_schema f \<noteq> None" using f(2) assms(3) unfolding f(1) by (simp_all add: schema_inv_def)
qed

lemma def_schema_acts:
  assumes inv: "registry_inv d R" and od: "od \<in> set (operators d)" "oe_name (od_op od) = os_name schema"
  shows "acts_on d od R compl (def_schema differs schema debug (od_id od) od d)"
proof (cases "def_count od = 0 \<and> (\<exists>e. registerSchema differs schema debug (od_op od) = Inr e)")
  case False
  then show ?thesis using acts_on_error [OF inv] by (cases "registerSchema differs schema debug (od_op od)") (auto simp: def_schema_def)
next
  case True
  then obtain e where e: "registerSchema differs schema debug (od_op od) = Inr e" "def_count od = 0" by auto
  have i: "od_inv R od" using registry_invD(3) [OF inv od(1)] by simp
  note f = registerSchema_ok [OF e(1) _ od(2) [symmetric]]
  let ?od = "od\<lparr> od_op := e, def_count := def_count od + 1, def_and_impl_count := def_and_impl_count od + 1 \<rparr>" and ?r = "RDef (od_id od) (os_name schema)"
  have "od_inv (?r # R) ?od" using i f e(2) by (simp add: od_inv_def kernels_at_def refers_def)
  then have "acts_on d od R compl ((set_def (od_id od) ?od d)\<lparr> next_id := next_id d \<rparr>, Inr ?r)"
    using f i od by (intro acts_on_update [OF inv od(1)]) (auto simp: od_inv_def)
  then show ?thesis using e unfolding set_def_next_id
    by (simp add: def_schema_def callOnOperatorRegistered_def acts_on_def registry_inv_listeners)
qed

lemma register_name_acts:
  assumes inv: "registry_inv d R" and od: "od \<in> set (operators d)" "oe_name (od_op od) = name"
  shows "acts_on d od R compl (set_def (od_id od) (od\<lparr> def_and_impl_count := def_and_impl_count od + 1 \<rparr>) d, Inr (RName (od_id od) name))"
proof -
  let ?od = "od\<lparr> def_and_impl_count := def_and_impl_count od + 1 \<rparr>" and ?r = "RName (od_id od) name"
  have "od_inv (?r # R) ?od" using registry_invD(3) [OF inv od(1)] by (simp add: od_inv_def refers_def)
  then have "acts_on d od R compl ((set_def (od_id od) ?od d)\<lparr> next_id := next_id d \<rparr>, Inr ?r)"
    using od by (intro acts_on_update [OF inv od(1)]) auto
  then show ?thesis unfolding set_def_next_id .
qed

lemma kernels_at_eq: "kernels e = kernels f \<Longrightarrow> kernels_at e k = kernels_at f k"
  by (simp add: kernels_at_def)

lemma od_inv_impl:
  assumes i: "od_inv R od" and e: "entry_inv e" "same_schema (od_op od) e" "kernels e = push_kernel (registered_key dk) a (kernels (od_op od))"
  shows "od_inv (RImpl (od_id od) name dk (ak_handle a) # R) (od\<lparr> od_op := e, def_and_impl_count := def_and_impl_count od + 1 \<rparr>)"
proof -
  have "kernels_at e k = (if k = registered_key dk then a # kernels_at (od_op od) k else kernels_at (od_op od) k)" for k
    using e(3) by (simp add: kernels_at_def map_of_push)
  then have "map ak_handle (kernels_at e k) = impls (od_id od) k (RImpl (od_id od) name dk (ak_handle a) # R)" for k
    using i by (auto simp: od_inv_def)
  then show ?thesis using i e(1,2) schema_inv_same [OF e(2)] by (simp add: od_inv_def refers_def same_schema_def)
qed

lemma od_inv_signature:
  assumes "od_inv R od" "register_signature sig is_sym (od_op od) = Inr e"
  shows "od_inv R (od\<lparr> od_op := e \<rparr>)" "oe_name e = oe_name (od_op od)" "up_to_date fallbacks e = up_to_date fallbacks (od_op od)"
proof -
  obtain c t where e: "e = (od_op od)\<lparr> cpp_signature := c, sym_cpp_signature := t \<rparr>"
  proof -
    define a where "a = \<lparr> ak_kernel = \<lparr> kf_id = 0, kf_fallthrough = False, kf_symUnboxed = is_sym \<rparr>, ak_inferred = None, ak_debug = [], ak_handle = 0 \<rparr>"
    have "kf_symUnboxed (ak_kernel a) = is_sym" by (simp add: a_def)
    then show thesis using that register_signature_cases [of sig a "od_op od"] assms(2) by (auto split: if_splits)
  qed
  have k: "kernels_at e k = kernels_at (od_op od) k" for k by (rule kernels_at_eq) (simp add: e)
  have "schema_inv e = schema_inv (od_op od)" by (rule schema_inv_same) (simp add: e same_schema_def)
  moreover have "entry_inv e = entry_inv (od_op od)" unfolding e by (rule entry_inv_signatures)
  ultimately show "od_inv R (od\<lparr> od_op := e \<rparr>)" using assms(1) k by (simp add: od_inv_def) (simp add: e)
  show "oe_name e = oe_name (od_op od)" by (simp add: e)
  show "up_to_date fallbacks e = up_to_date fallbacks (od_op od)" unfolding e by (rule entry_inv_signatures)
qed

lemma registry_replace:
  assumes inv: "registry_inv d R" and od: "od \<in> set (operators d)" and same: "od_id od' = od_id od" "oe_name (od_op od') = oe_name (od_op od)" and new: "od_inv R od'"
  shows "registry_inv (set_def (od_id od) od' d) R"
proof -
  have "registry_inv ((set_def (od_id od) od' d)\<lparr> next_id := next_id d \<rparr>) R"
    using registry_invD(5,6) [OF inv] by (intro registry_update [OF inv od same new]) auto
  then show ?thesis unfolding set_def_next_id .
qed

lemma impl_kernel_acts:
  assumes inv: "registry_inv d R" and od: "od \<in> set (operators d)" "oe_name (od_op od) = name"
    and a: "isValid (ak_kernel a)" and k: "updatable (registered_key dk)" and compl: "compl \<longrightarrow> dk = None \<or> update_complete (od_op od) (registered_key dk)"
  shows "acts_on d od R compl (impl_kernel differs name dk a sig (od_id od) od d)"
proof -
  let ?a = "a\<lparr> ak_handle := next_id d \<rparr>" and ?fb = "backendFallbackKernels d"
  have va: "isValid (ak_kernel ?a)" using a by simp
  have i: "od_inv R od" using registry_invD(3) [OF inv od(1)] by simp
  have ei: "entry_inv (od_op od)" using i by (simp add: od_inv_def)
  show ?thesis
  proof (cases "signature_ok sig ?a (od_op od) \<and> schema_ok differs ?a (od_op od)")
    case True
    then have sg: "signature_ok sig ?a (od_op od)" "schema_ok differs ?a (od_op od)" by simp_all
    obtain e where e: "registerKernel differs ?fb dk ?a sig (od_op od) = Inr e" "entry_inv e"
        "kernels e = push_kernel (registered_key dk) ?a (kernels (od_op od))" "same_schema (od_op od) e"
        "dk = None \<or> up_to_date ?fb (od_op od) \<and> update_complete (od_op od) (registered_key dk) \<longrightarrow> up_to_date ?fb e"
      by (rule registerKernel_ok [OF ei va k sg, where fallbacks = ?fb])
    let ?od = "od\<lparr> od_op := e, def_and_impl_count := def_and_impl_count od + 1 \<rparr>" and ?r = "RImpl (od_id od) name dk (next_id d)"
    have "od_inv (?r # R) ?od" using od_inv_impl [OF i e(2,4,3), of name] by simp
    moreover have "oe_name e = name" using e(4) od(2) by (simp add: same_schema_def)
    ultimately have "acts_on d od R compl ((set_def (od_id od) ?od d)\<lparr> next_id := Suc (next_id d) \<rparr>, Inr ?r)"
      using e(5) compl od by (intro acts_on_update [OF inv od(1)]) auto
    then show ?thesis using e(1) by (simp add: impl_kernel_def Let_def)
  next
    case False
    then obtain err where err: "registerKernel differs ?fb dk ?a sig (od_op od) = Inl err" using registerKernel_fails [of sig ?a "od_op od"] by metis
    show ?thesis
    proof (cases "register_signature sig (kf_symUnboxed (ak_kernel ?a)) (od_op od)")
      case (Inl err') then show ?thesis using err acts_on_error [OF inv] by (simp add: impl_kernel_def Let_def)
    next
      case (Inr e)
      note s = od_inv_signature [OF i Inr]
      have "registry_inv (set_def (od_id od) (od\<lparr> od_op := e \<rparr>) d) R" using s by (intro registry_replace [OF inv od(1)]) auto
      moreover have "all_up_to_date d \<longrightarrow> all_up_to_date (set_def (od_id od) (od\<lparr> od_op := e \<rparr>) d)"
        using set_def_operators(1) [OF registry_invD(1) [OF inv] od(1), of "od\<lparr> od_op := e \<rparr>"] s(3) od(1) by (auto simp: all_up_to_date_def)
      ultimately show ?thesis using err Inr by (simp add: impl_kernel_def Let_def acts_on_def)
    qed
  qed
qed

section \<open>Backend fallbacks and other registrations\<close>

lemma update_fallbacks_ok:
  assumes "\<forall>od \<in> set ods. od_inv R od" "tableKey k"
  obtains ods' where "update_fallbacks (fallbacks[table_slot k := a]) k ods = (ods', Inr ())"
    "list_all2 (\<lambda>od od'. \<exists>e. od' = od\<lparr> od_op := e \<rparr> \<and> oe_name e = oe_name (od_op od) \<and> od_inv R od' \<and>
       (up_to_date fallbacks (od_op od) \<longrightarrow> up_to_date (fallbacks[table_slot k := a]) e)) ods ods'"
proof -
  have "\<exists>ods'. update_fallbacks (fallbacks[table_slot k := a]) k ods = (ods', Inr ()) \<and>
    list_all2 (\<lambda>od od'. \<exists>e. od' = od\<lparr> od_op := e \<rparr> \<and> oe_name e = oe_name (od_op od) \<and> od_inv R od' \<and>
       (up_to_date fallbacks (od_op od) \<longrightarrow> up_to_date (fallbacks[table_slot k := a]) e)) ods ods'"
    using assms(1)
  proof (induction ods)
    case (Cons od ods)
    have i: "od_inv R od" using Cons.prems by simp
    then have ei: "entry_inv (od_op od)" by (simp add: od_inv_def)
    obtain e where e: "updateFallback (fallbacks[table_slot k := a]) (od_op od) k = Inr e" "entry_inv e" "same_registrations (od_op od) e"
        "up_to_date fallbacks (od_op od) \<longrightarrow> up_to_date (fallbacks[table_slot k := a]) e"
      by (rule updateFallback_ok [OF ei assms(2), where x = a and fallbacks = fallbacks])
    have ss: "same_schema (od_op od) e" using e(3) by (rule same_registrations_schema)
    have "kernels_at e j = kernels_at (od_op od) j" for j using e(3) by (intro kernels_at_eq) (simp add: same_registrations_def)
    then have "od_inv R (od\<lparr> od_op := e \<rparr>)" using i e(2) ss schema_inv_same [OF ss] by (simp add: od_inv_def same_schema_def)
    then show ?case using Cons e(1,4) ss by (auto simp: same_schema_def)
  qed simp
  then show thesis using that by blast
qed

lemma list_all2_ex:
  assumes "list_all2 P xs ys"
  shows "x \<in> set xs \<Longrightarrow> \<exists>y \<in> set ys. P x y" "y \<in> set ys \<Longrightarrow> \<exists>x \<in> set xs. P x y"
  using assms by (induction rule: list_all2_induct) auto

lemma set_fallback_ok:
  assumes inv: "registry_inv d R" and k: "tableKey k"
  obtains d1 where "set_fallback k (table_slot k) a d = (d1, Inr ())" "registry_inv d1 R" "guard_alive d1 = guard_alive d"
    "all_up_to_date d \<longrightarrow> all_up_to_date d1" "all_referenced d \<longrightarrow> all_referenced d1"
proof -
  let ?fb = "(backendFallbackKernels d)[table_slot k := a]"
  let ?P = "\<lambda>od od'. \<exists>e. od' = od\<lparr> od_op := e \<rparr> \<and> oe_name e = oe_name (od_op od) \<and> od_inv R od' \<and>
       (up_to_date (backendFallbackKernels d) (od_op od) \<longrightarrow> up_to_date ?fb e)"
  have "\<forall>od \<in> set (operators d). od_inv R od" using registry_invD(3) [OF inv] by blast
  then obtain ods where ods: "update_fallbacks ?fb k (operators d) = (ods, Inr ())" "list_all2 ?P (operators d) ods"
    by (rule update_fallbacks_ok [OF _ k])
  let ?d = "d\<lparr> backendFallbackKernels := ?fb, operators := ods \<rparr>"
  note l2r = list_all2_ex(1) [OF ods(2)] and r2l = list_all2_ex(2) [OF ods(2)]
  have "map od_id ods = map od_id (operators d)" using ods(2) by (induction rule: list_all2_induct) auto
  then have "distinct (map od_id (operators ?d))" using registry_invD(1) [OF inv] by simp
  moreover have has: "has_op ?d j m = has_op d j m" for j m
  proof
    assume "has_op ?d j m"
    then obtain x where "x \<in> set ods" "od_id x = j" "oe_name (od_op x) = m" by (auto simp: has_op_def)
    with r2l [OF this(1)] show "has_op d j m" unfolding has_op_def by (elim bexE exE conjE) (intro bexI, auto)
  next
    assume "has_op d j m"
    then obtain x where "x \<in> set (operators d)" "od_id x = j" "oe_name (od_op x) = m" by (auto simp: has_op_def)
    with l2r [OF this(1)] show "has_op ?d j m" unfolding has_op_def by (elim bexE exE conjE) (intro bexI, auto)
  qed
  moreover have "od_inv R od' \<and> od_id od' < next_id d" if "od' \<in> set ods" for od' 
    using r2l [OF that] registry_invD(3) [OF inv] by (elim bexE exE conjE) simp
  ultimately have "registry_inv ?d R" unfolding registry_inv_def using registry_invD(2,4-8) [OF inv] by simp
  moreover have "all_up_to_date ?d" if "all_up_to_date d"
    unfolding all_up_to_date_def
  proof
    fix x assume "x \<in> set (operators ?d)"
    then have "x \<in> set ods" by simp
    from r2l [OF this] that show "up_to_date (backendFallbackKernels ?d) (od_op x)" unfolding all_up_to_date_def by (elim bexE exE conjE) simp_all
  qed
  moreover have "all_referenced ?d" if "all_referenced d"
    unfolding all_referenced_def
  proof
    fix x assume "x \<in> set (operators ?d)"
    then have "x \<in> set ods" by simp
    from r2l [OF this] that show "0 < def_and_impl_count x" unfolding all_referenced_def by (elim bexE exE conjE) simp_all
  qed
  ultimately show thesis using that [of ?d] ods(1) by (simp add: set_fallback_def Let_def)
qed

lemma registry_inv_Cons:
  assumes "registry_inv d R" "handle_op r = None" "impl_handle r = []" "\<forall>k. r = RFallback k \<longrightarrow> tableKey k"
  shows "registry_inv d (r # R)"
proof -
  have a: "agree j R (r # R)" for j using assms(2) by (intro agree_Cons) (simp add: refers_def)
  have "od_inv (r # R) od = od_inv R od" for od using a by (intro od_inv_agree)
  then show ?thesis using assms unfolding registry_inv_def by auto
qed

lemma registry_inv_remove1:
  assumes "registry_inv d R" "handle_op r = None" "r \<in> set R"
  shows "registry_inv d (remove1 r R)"
proof -
  have a: "agree j R (remove1 r R)" for j using assms(2,3) by (intro agree_remove1) (simp_all add: refers_def)
  have "od_inv (remove1 r R) od = od_inv R od" for od using a by (intro od_inv_agree)
  then show ?thesis using assms(1) handles_remove1 [where r = r and R = R] set_remove1_subset [of r R] unfolding registry_inv_def by auto
qed

lemma registerFallback_registers:
  assumes inv: "registry_inv d R" and k: "tableKey k"
  shows "registers d R compl (registerFallback k kfn debug d)"
proof -
  let ?a = "\<lparr> ak_kernel = kfn, ak_inferred = None, ak_debug = debug, ak_handle = 0 \<rparr>"
  obtain d1 where "set_fallback k (table_slot k) ?a d = (d1, Inr ())" "registry_inv d1 R" "guard_alive d1 = guard_alive d"
    "all_up_to_date d \<longrightarrow> all_up_to_date d1" "all_referenced d \<longrightarrow> all_referenced d1" by (rule set_fallback_ok [OF inv k])
  then show ?thesis using inv k table_index [OF k] registry_inv_Cons [of d1 R "RFallback k"]
    by (simp add: registerFallback_def registers_def)
qed

text \<open>Parts of the state that the invariant does not mention.\<close>

lemma registry_inv_other:
  assumes "operators d' = operators d" "operatorLookupTable d' = operatorLookupTable d" "backendFallbackKernels d' = backendFallbackKernels d" "next_id d \<le> next_id d'"
  shows "registry_inv d R \<Longrightarrow> registry_inv d' R" "all_up_to_date d' = all_up_to_date d" "all_referenced d' = all_referenced d"
proof -
  have "has_op d' j m = has_op d j m" for j m using assms by (simp add: has_op_def)
  then show "registry_inv d R \<Longrightarrow> registry_inv d' R" using assms unfolding registry_inv_def by (auto intro: less_le_trans)
  show "all_up_to_date d' = all_up_to_date d" "all_referenced d' = all_referenced d" using assms by (simp_all add: all_up_to_date_def all_referenced_def)
qed

lemma registers_other:
  assumes "registry_inv d R" "operators d' = operators d" "operatorLookupTable d' = operatorLookupTable d" "backendFallbackKernels d' = backendFallbackKernels d"
    "next_id d \<le> next_id d'" "guard_alive d' = guard_alive d" "handle_op r = None" "impl_handle r = []" "\<forall>k. r \<noteq> RFallback k"
  shows "registers d R compl (d', Inr r)"
  using registry_inv_other [OF assms(2-5)] assms(1,6-9) registry_inv_Cons [of d' R r] by (simp add: registers_def)

end
