(* ===== verification/OperatorRuns.thy ===== *)
theory OperatorRuns
  imports OperatorLifecycle
begin

text \<open>
  Destroyed handles, and runs of the program as sequences of registrations, failed registrations and destroyed
  handles in any order.
\<close>

section \<open>Deregistrations\<close>

text \<open>A deregistration that works: no assertion fails, and the handle is gone.\<close>

definition deregisters :: "dispatcher \<Rightarrow> registration list \<Rightarrow> registration \<Rightarrow> bool \<Rightarrow> unit outcome \<Rightarrow> bool" where
  "deregisters d R r compl out \<longleftrightarrow> (case out of (d1, res) \<Rightarrow> res = Inr () \<and> registry_inv d1 (remove1 r R) \<and> guard_alive d1 = guard_alive d \<and>
     (all_up_to_date d \<and> compl \<longrightarrow> all_up_to_date d1) \<and> (all_referenced d \<longrightarrow> all_referenced d1))"

text \<open>One reference less to an operator, which is removed with the last one.\<close>

lemma release_reference:
  assumes inv: "registry_inv d R" and od: "od \<in> set (operators d)" and same: "od_id od1 = od_id od" "oe_name (od_op od1) = oe_name (od_op od)"
    and r: "r \<in> set R" "handle_op r = Some (od_id od, oe_name (od_op od))" and new: "od_inv (remove1 r R) od1"
    and up: "compl \<and> up_to_date (backendFallbackKernels d) (od_op od) \<longrightarrow> up_to_date (backendFallbackKernels d) (od_op od1)"
  shows "deregisters d R r compl (cleanup (od_id od) (oe_name (od_op od)) od1 (set_def (od_id od) od1 d), Inr ())"
proof -
  let ?d = "set_def (od_id od) od1 d" and ?R = "remove1 r R"
  note ops = set_def_operators [OF registry_invD(1) [OF inv] od same(1)]
  have "\<forall>j. j \<noteq> od_id od \<longrightarrow> agree j R ?R" using refers_op [OF r(2)] agree_remove1 [OF _ r(1)] by blast
  moreover have "\<forall>h \<in> set (handles ?R). h < next_id d" using handles_remove1(1) [of r R] registry_invD(6) [OF inv] by auto
  moreover have "\<forall>x \<in> set ?R. x \<in> set R" "\<forall>k. RFallback k \<in> set ?R \<longrightarrow> RFallback k \<in> set R" using set_remove1_subset [of r R] by auto
  ultimately have "registry_inv (?d\<lparr> next_id := next_id d \<rparr>) ?R"
    using handles_remove1(2) [OF registry_invD(5) [OF inv]] by (intro registry_update [OF inv od same new]) auto
  then have inv1: "registry_inv ?d ?R" unfolding set_def_next_id .
  have in1: "od1 \<in> set (operators ?d)" using ops(1) by simp
  have "registry_inv (cleanup (od_id od) (oe_name (od_op od)) od1 ?d) ?R" using registry_cleanup [OF inv1 in1] same by simp
  moreover have "x = od1 \<and> (0 < def_and_impl_count od1) \<or> x \<in> set (operators d)" if "x \<in> set (operators (cleanup (od_id od) (oe_name (od_op od)) od1 ?d))" for x
    using that ops(1) same(1) by (auto simp: cleanup_def split: if_splits)
  moreover have "guard_alive (cleanup (od_id od) (oe_name (od_op od)) od1 ?d) = guard_alive d"
    "backendFallbackKernels (cleanup (od_id od) (oe_name (od_op od)) od1 ?d) = backendFallbackKernels d" by (simp_all add: cleanup_def)
  ultimately show ?thesis using up od by (fastforce simp: deregisters_def all_up_to_date_def all_referenced_def)
qed

lemma handle_operator:
  assumes inv: "registry_inv d R" and r: "r \<in> set R" "handle_op r = Some (i, name)"
  obtains od where "od \<in> set (operators d)" "od_id od = i" "oe_name (od_op od) = name" "operatorDef d i = Inr od" "od_inv R od" "0 < def_and_impl_count od"
proof -
  obtain od where od: "od \<in> set (operators d)" "od_id od = i" "oe_name (od_op od) = name" using registry_invD(4) [OF inv r] by (auto simp: has_op_def)
  have "od_inv R od" using registry_invD(3) [OF inv od(1)] by simp
  moreover have "0 < occurrences (refers i) R" using r refers_op [OF r(2)] by (intro count_pos) auto
  ultimately show thesis using that od operatorDef_eq [OF registry_invD(1) [OF inv] od(1)] by (simp add: od_inv_def)
qed

lemma drop_reference_deregisters:
  assumes inv: "registry_inv d R" and od: "od \<in> set (operators d)" and same: "od_id od1 = od_id od" "oe_name (od_op od1) = oe_name (od_op od)"
    and r: "r \<in> set R" "handle_op r = Some (od_id od, oe_name (od_op od))" and pos: "0 < def_and_impl_count od1"
    and new: "od_inv (remove1 r R) (od1\<lparr> def_and_impl_count := def_and_impl_count od1 - 1 \<rparr>)"
    and up: "compl \<and> up_to_date (backendFallbackKernels d) (od_op od) \<longrightarrow> up_to_date (backendFallbackKernels d) (od_op od1)"
  shows "deregisters d R r compl (drop_reference (od_id od) (oe_name (od_op od)) od1 (set_def (od_id od) od1 d))"
proof -
  let ?od = "od1\<lparr> def_and_impl_count := def_and_impl_count od1 - 1 \<rparr>"
  have "set_def (od_id od) ?od (set_def (od_id od) od1 d) = set_def (od_id od) ?od d"
    using same(1) by (auto simp: set_def_def)
  moreover have "deregisters d R r compl (cleanup (od_id od) (oe_name (od_op od)) ?od (set_def (od_id od) ?od d), Inr ())"
    using same up by (intro release_reference [OF inv od _ _ r new]) simp_all
  ultimately show ?thesis using pos same(2) by (simp add: drop_reference_def Let_def)
qed

lemma set_def_same:
  assumes "distinct (map od_id (operators d))" "od \<in> set (operators d)"
  shows "set_def (od_id od) od d = d"
proof -
  have "x = od" if "x \<in> set (operators d)" "od_id x = od_id od" for x using assms that by (metis distinct_map inj_onD)
  then have "map (\<lambda>x. if od_id x = od_id od then od else x) (operators d) = operators d" by (intro map_idI) auto
  then show ?thesis by (simp add: set_def_def)
qed

lemma deregisterName_deregisters:
  assumes inv: "registry_inv d R" and r: "RName i name \<in> set R"
  shows "deregisters d R (RName i name) compl (deregisterName i name d)"
proof -
  have h: "handle_op (RName i name) = Some (i, name)" by simp
  obtain od where od: "od \<in> set (operators d)" "od_id od = i" "oe_name (od_op od) = name" "operatorDef d i = Inr od" "od_inv R od" "0 < def_and_impl_count od"
    by (rule handle_operator [OF inv r h])
  have "od_inv (remove1 (RName i name) R) (od\<lparr> def_and_impl_count := def_and_impl_count od - 1 \<rparr>)"
    using od(2,5) r by (simp add: od_inv_def count_remove1 impls_remove1_other refers_def)
  then have "deregisters d R (RName i name) compl (drop_reference (od_id od) (oe_name (od_op od)) od (set_def (od_id od) od d))"
    using od by (intro drop_reference_deregisters [OF inv od(1) _ _ r]) simp_all
  then show ?thesis unfolding set_def_same [OF registry_invD(1) [OF inv] od(1)] using od by (simp add: deregisterName_def)
qed

lemma remaining_handles: "map ak_handle (remaining e k h) = filter (\<lambda>x. x \<noteq> h) (map ak_handle (kernels_at e k))"
  by (simp add: remaining_def kernels_at_def filter_map o_def)

lemma deregisterImpl_deregisters:
  assumes inv: "registry_inv d R" and r: "RImpl i name dk h \<in> set R"
    and compl: "compl \<longrightarrow> (\<forall>od \<in> set (operators d). od_id od = i \<longrightarrow> update_complete (od_op od) (registered_key dk))"
  shows "deregisters d R (RImpl i name dk h) compl (deregisterImpl i name dk h d)"
proof -
  let ?r = "RImpl i name dk h" and ?fb = "backendFallbackKernels d" and ?k = "registered_key dk"
  have ho: "handle_op ?r = Some (i, name)" by simp
  obtain od where od: "od \<in> set (operators d)" "od_id od = i" "oe_name (od_op od) = name" "operatorDef d i = Inr od" "od_inv R od" "0 < def_and_impl_count od"
    by (rule handle_operator [OF inv r ho])
  have ei: "entry_inv (od_op od)" using od(5) by (simp add: od_inv_def)
  have "h \<in> set (impls i ?k R)" using r by (force simp: impls_def)
  moreover have "map ak_handle (kernels_at (od_op od) ?k) = impls i ?k R" using od(2,5) by (simp add: od_inv_def)
  ultimately have "kernels_at (od_op od) ?k \<noteq> []" by auto
  then have k: "map_of (kernels (od_op od)) ?k \<noteq> None" by (auto simp: kernels_at_def split: option.splits)
  obtain e where e: "deregisterKernel ?fb dk h (od_op od) = Inr e" "entry_inv e" "kernels e = drop_kernel ?k h (kernels (od_op od))" "same_schema (od_op od) e"
      "up_to_date ?fb (od_op od) \<and> update_complete (od_op od) ?k \<longrightarrow> up_to_date ?fb e"
    by (rule deregisterKernel_ok [OF ei k, where fallbacks = ?fb and handle = h])
  have dist: "distinct (map fst (kernels (od_op od)))" using ei by (simp add: entry_inv_def kernels_ok_def)
  have ka: "kernels_at e j = (if j = ?k then remaining (od_op od) ?k h else kernels_at (od_op od) j)" for j
    using e(3) by (auto simp: kernels_at_def map_of_drop [OF dist] remaining_def Let_def split: option.splits)
  have kr: "map ak_handle (kernels_at e j) = impls i j (remove1 ?r R)" for j
    using od(2,5) by (simp add: ka remaining_handles impls_remove1 [OF registry_invD(5) [OF inv] r] od_inv_def)
  let ?od = "od\<lparr> od_op := e \<rparr>"
  have "od_inv (remove1 ?r R) (?od\<lparr> def_and_impl_count := def_and_impl_count ?od - 1 \<rparr>)"
    using od(2,5) r e(2,4) kr schema_inv_same [OF e(4)] by (simp add: od_inv_def count_remove1 refers_def same_schema_def)
  then have "deregisters d R ?r compl (drop_reference (od_id od) (oe_name (od_op od)) ?od (set_def (od_id od) ?od d))"
    using od e(4,5) compl by (intro drop_reference_deregisters [OF inv od(1) _ _ r]) (auto simp: same_schema_def)
  then show ?thesis using od(2-4) e(1) by (simp add: deregisterImpl_def Let_def)
qed

lemma deregisterDef_deregisters:
  assumes inv: "registry_inv d R" and r: "RDef i name \<in> set R"
  shows "deregisters d R (RDef i name) compl (deregisterDef i name d)"
proof -
  let ?r = "RDef i name"
  have ho: "handle_op ?r = Some (i, name)" by simp
  obtain od where od: "od \<in> set (operators d)" "od_id od = i" "oe_name (od_op od) = name" "operatorDef d i = Inr od" "od_inv R od" "0 < def_and_impl_count od"
    by (rule handle_operator [OF inv r ho])
  have "0 < occurrences (is_def_of i) R" using r by (intro count_pos) auto
  then have dc: "def_count od = 1" "occurrences (is_def_of i) R = 1" using od(2,5) by (auto simp: od_inv_def)
  obtain schema debug where sch: "oe_schema (od_op od) = Some (schema, debug)" using od(5) dc by (auto simp: od_inv_def)
  then have nm: "os_name schema = name" using od(3,5) by (simp add: od_inv_def schema_inv_def)
  let ?e = "(od_op od)\<lparr> oe_schema := None, dispatchKeyExtractor := dke_deregisterSchema (dispatchKeyExtractor (od_op od)) \<rparr>"
  have e: "deregisterSchema (od_op od) = Inr ?e" using sch by (simp add: deregisterSchema_def check_def)
  have ee: "entry_inv ?e = entry_inv (od_op od)" "up_to_date fb ?e = up_to_date fb (od_op od)" for fb
    unfolding dke_deregisterSchema_def entry_inv_schema by simp_all
  have si: "schema_inv ?e" by (simp add: schema_inv_def dke_deregisterSchema_def)
  have ke: "kernels_at ?e k = kernels_at (od_op od) k" for k by (rule kernels_at_eq) simp
  let ?od1 = "od\<lparr> def_count := def_count od - 1, def_and_impl_count := def_and_impl_count od - 1 \<rparr>"
  let ?od2 = "?od1\<lparr> od_op := ?e \<rparr>"
  let ?d1 = "callOnOperatorDeregistered name (set_def i ?od1 d)"
  have od2: "od_inv (remove1 ?r R) ?od2"
    using od(2,5) r dc ee(1) ke si by (simp add: od_inv_def count_remove1 impls_remove1_other refers_def)
  have "deregisters d R ?r compl (cleanup (od_id od) (oe_name (od_op od)) ?od2 (set_def (od_id od) ?od2 d), Inr ())"
    using od ee(2) by (intro release_reference [OF inv od(1) _ _ r _ od2]) simp_all
  moreover have "set_def i ?od2 ?d1 = (set_def i ?od2 d)\<lparr> listener_calls := listener_calls ?d1 \<rparr>"
    using od(2) by (auto simp: set_def_def callOnOperatorDeregistered_def call_listeners_def)
  moreover have "cleanup i name ?od2 ((set_def i ?od2 d)\<lparr> listener_calls := c \<rparr>) = (cleanup i name ?od2 (set_def i ?od2 d))\<lparr> listener_calls := c \<rparr>" for c
    by (simp add: cleanup_def)
  moreover have "deregisters d R ?r compl (d2\<lparr> listener_calls := c \<rparr>, Inr ())" if "deregisters d R ?r compl (d2, Inr ())" for d2 c
    using that registry_inv_other [of "d2\<lparr> listener_calls := c \<rparr>" d2] by (simp add: deregisters_def)
  ultimately show ?thesis using od(2-4,6) sch nm dc(1) e by (simp add: deregisterDef_def Let_def)
qed

section \<open>Runs\<close>

datatype request =
    Library string string
  | Def op_schema string
  | Impl string "DispatchKey option" annotated_kernel "nat option"
  | Name string
  | Fallback DispatchKey kernel_function string
  | PythonModule string string string
  | Listener

fun perform :: "(op_schema \<Rightarrow> bool \<Rightarrow> op_schema \<Rightarrow> bool) \<Rightarrow> request \<Rightarrow> dispatcher \<Rightarrow> registration outcome" where
  "perform differs (Library ns debug) d = registerLibrary ns debug d"
| "perform differs (Def schema debug) d = registerDef differs schema debug d"
| "perform differs (Impl name dk a sig) d = registerImpl differs name dk a sig d"
| "perform differs (Name name) d = registerName name d"
| "perform differs (Fallback k kfn debug) d = registerFallback k kfn debug d"
| "perform differs (PythonModule name pymodule ctx) d = registerPythonModule name pymodule ctx d"
| "perform differs Listener d = addRegistrationListener d"

text \<open>Kernels are valid, and keys are the keys that a table has entries for or alias keys.\<close>

fun valid_request :: "request \<Rightarrow> bool" where
  "valid_request (Impl name dk a sig) \<longleftrightarrow> isValid (ak_kernel a) \<and> updatable (registered_key dk)"
| "valid_request (Fallback k kfn debug) \<longleftrightarrow> tableKey k"
| "valid_request q \<longleftrightarrow> True"

fun complete_request :: "dispatcher \<Rightarrow> request \<Rightarrow> bool" where
  "complete_request d (Impl name dk a sig) \<longleftrightarrow> dk = None \<or>
     (\<forall>od \<in> set (operators d). oe_name (od_op od) = name \<longrightarrow> update_complete (od_op od) (registered_key dk))"
| "complete_request d q \<longleftrightarrow> True"

fun complete_release :: "dispatcher \<Rightarrow> registration \<Rightarrow> bool" where
  "complete_release d (RImpl i name dk h) \<longleftrightarrow> (\<forall>od \<in> set (operators d). od_id od = i \<longrightarrow> update_complete (od_op od) (registered_key dk))"
| "complete_release d r \<longleftrightarrow> True"

lemma perform_registers:
  assumes inv: "registry_inv d R" and q: "valid_request q"
  shows "registers d R (complete_request d q) (perform differs q d)"
proof (cases q)
  case (Library ns debug)
  then show ?thesis
    using inv registers_other [OF inv, of "d\<lparr> libraries := (ns, debug) # libraries d \<rparr>" "RLibrary ns" True]
    by (cases "map_of (libraries d) ns") (simp_all add: registerLibrary_def registers_def)
next
  case (Def schema debug)
  show ?thesis unfolding Def perform.simps registerDef_def by (rule with_name_registers [OF inv]) (rule def_schema_acts)
next
  case (Impl name dk a sig)
  have "acts_on d1 od R (complete_request d q) (impl_kernel differs name dk a sig (od_id od) od d1)"
    if "registry_inv d1 R" "od \<in> set (operators d1)" "oe_name (od_op od) = name" "od \<in> set (operators d) \<or> newest (od_op od) = (\<lambda>_. None)" for d1 od
    using that q Impl by (intro impl_kernel_acts) (auto simp: update_complete_def)
  then show ?thesis unfolding Impl perform.simps registerImpl_def by (intro with_name_registers [OF inv]) blast
next
  case (Name name)
  show ?thesis unfolding Name perform.simps registerName_def by (rule with_name_registers [OF inv]) (rule register_name_acts)
next
  case (Fallback k kfn debug)
  then show ?thesis using registerFallback_registers [OF inv] q by simp
next
  case (PythonModule name pymodule ctx)
  then show ?thesis using registers_other [OF inv] by (simp add: registerPythonModule_def)
next
  case Listener
  then show ?thesis using registers_other [OF inv] by (simp add: addRegistrationListener_def Let_def)
qed

lemma deregisters_other:
  assumes "registry_inv d R" "r \<in> set R" "handle_op r = None" "operators d' = operators d" "operatorLookupTable d' = operatorLookupTable d"
    "backendFallbackKernels d' = backendFallbackKernels d" "next_id d' = next_id d" "guard_alive d' = guard_alive d"
  shows "deregisters d R r compl (d', Inr ())"
  using registry_inv_other [OF assms(4-6)] assms(1,2,3,7,8) registry_inv_remove1 [of d' R r] by (simp add: deregisters_def)

lemma deregister_deregisters:
  assumes inv: "registry_inv d R" and r: "r \<in> set R"
  shows "deregisters d R r (complete_release d r) (deregister r d)"
proof (cases r)
  case (RLibrary ns)
  then show ?thesis using deregisters_other [OF inv r] by (simp add: deregister_def deregisterLibrary_def)
next
  case (RDef i name) then show ?thesis using deregisterDef_deregisters [OF inv] r by (simp add: deregister_def)
next
  case (RImpl i name dk h) then show ?thesis using deregisterImpl_deregisters [OF inv] r by (simp add: deregister_def)
next
  case (RName i name) then show ?thesis using deregisterName_deregisters [OF inv] r by (simp add: deregister_def)
next
  case (RFallback k)
  have k: "tableKey k" using registry_invD(8) [OF inv] r RFallback by simp
  obtain d1 where d1: "set_fallback k (table_slot k) missingKernel d = (d1, Inr ())" "registry_inv d1 R" "guard_alive d1 = guard_alive d"
    "all_up_to_date d \<longrightarrow> all_up_to_date d1" "all_referenced d \<longrightarrow> all_referenced d1" by (rule set_fallback_ok [OF inv k])
  have "registry_inv d1 (remove1 r R)" using registry_inv_remove1 [OF d1(2)] r RFallback by simp
  then show ?thesis using d1 table_index [OF k] RFallback by (simp add: deregister_def deregisterFallback_def deregisters_def)
next
  case (RPythonModule name)
  then show ?thesis using deregisters_other [OF inv r] by (simp add: deregister_def deregisterPythonModule_def)
next
  case (RListener l)
  then show ?thesis using deregisters_other [OF inv r] by (simp add: deregister_def)
qed

text \<open>
  A run: the dispatcher, the handles that are alive, whether all updates were complete, and whether no request has
  failed. Handles are destroyed in any order.
\<close>

inductive run :: "(op_schema \<Rightarrow> bool \<Rightarrow> op_schema \<Rightarrow> bool) \<Rightarrow> dispatcher \<Rightarrow> registration list \<Rightarrow> bool \<Rightarrow> bool \<Rightarrow> bool" for differs where
  start: "run differs Dispatcher [] True True"
| accepted: "run differs d R c f \<Longrightarrow> valid_request q \<Longrightarrow> perform differs q d = (d1, Inr r) \<Longrightarrow> run differs d1 (r # R) (c \<and> complete_request d q) f"
| rejected: "run differs d R c f \<Longrightarrow> valid_request q \<Longrightarrow> perform differs q d = (d1, Inl err) \<Longrightarrow> run differs d1 R (c \<and> complete_request d q) False"
| destroyed: "run differs d R c f \<Longrightarrow> r \<in> set R \<Longrightarrow> destroyHandle r d = (d1, Inr ()) \<Longrightarrow> run differs d1 (remove1 r R) (c \<and> complete_release d r) f"

lemma run_inv:
  assumes "run differs d R c f"
  shows "registry_inv d R \<and> guard_alive d \<and> (c \<longrightarrow> all_up_to_date d) \<and> (f \<longrightarrow> all_referenced d)"
  using assms
proof induction
  case start
  show ?case by (simp add: Dispatcher_def registry_inv_def has_op_def all_up_to_date_def all_referenced_def)
next
  case (accepted d R c f q d1 r)
  have "registers d R (complete_request d q) (d1, Inr r)" using perform_registers [OF _ accepted.hyps(2)] accepted.IH accepted.hyps(3) by metis
  then show ?case using accepted.IH by (simp add: registers_def)
next
  case (rejected d R c f q d1 err)
  have "registers d R (complete_request d q) (d1, Inl err)" using perform_registers [OF _ rejected.hyps(2)] rejected.IH rejected.hyps(3) by metis
  then show ?case using rejected.IH by (simp add: registers_def)
next
  case (destroyed d R c f r d1)
  have "destroyHandle r d = deregister r d" using destroyed.IH by (simp add: destroyHandle_def)
  then have "deregisters d R r (complete_release d r) (d1, Inr ())" using deregister_deregisters [of d R r] destroyed by simp
  then show ?case using destroyed.IH by (simp add: deregisters_def)
qed

section \<open>Properties\<close>

lemma run_destroy:
  assumes "run differs d R c f" "r \<in> set R"
  obtains d1 where "destroyHandle r d = (d1, Inr ())" "run differs d1 (remove1 r R) (c \<and> complete_release d r) f"
proof -
  have i: "registry_inv d R" "guard_alive d" using run_inv [OF assms(1)] by simp_all
  obtain d1 res where o: "deregister r d = (d1, res)" by (cases "deregister r d")
  have "res = Inr ()" using deregister_deregisters [OF i(1) assms(2)] unfolding o deregisters_def by simp
  then have "destroyHandle r d = (d1, Inr ())" using o i(2) by (simp add: destroyHandle_def)
  then show thesis using that run.destroyed [OF assms] by blast
qed

text \<open>
  What the owner of RAII handles relies on: every live handle can be destroyed, and the others stay alive.
\<close>

fun destroyAll :: "('r \<Rightarrow> 'd \<Rightarrow> 'd \<times> unit result) \<Rightarrow> 'r list \<Rightarrow> 'd \<Rightarrow> 'd \<times> unit result" where
  "destroyAll destroy [] d = (d, Inr ())"
| "destroyAll destroy (r # rs) d = (case destroy r d of (d1, Inl err) \<Rightarrow> (d1, Inl err) | (d1, Inr _) \<Rightarrow> destroyAll destroy rs d1)"

locale raii_handles =
  fixes live :: "'d \<Rightarrow> 'r list \<Rightarrow> bool" and destroy :: "'r \<Rightarrow> 'd \<Rightarrow> 'd \<times> unit result"
  assumes destroyed: "live d R \<Longrightarrow> r \<in> set R \<Longrightarrow> \<exists>d1. destroy r d = (d1, Inr ()) \<and> live d1 (remove1 r R)"
begin

lemma any_order: "live d R \<Longrightarrow> mset rs = mset R \<Longrightarrow> \<exists>d1. destroyAll destroy rs d = (d1, Inr ()) \<and> live d1 []"
proof (induction rs arbitrary: d R)
  case Nil then show ?case by simp
next
  case (Cons r rs)
  have "r \<in> set R" using Cons.prems(2) by (metis list.set_intros(1) mset_eq_setD)
  from destroyed [OF Cons.prems(1) this] obtain d1 where d1: "destroy r d = (d1, Inr ())" "live d1 (remove1 r R)" by blast
  have "mset rs = mset (remove1 r R)" using Cons.prems(2) by (metis add_mset_diff_bothsides diff_empty mset.simps(2) mset_remove1)
  from Cons.IH [OF d1(2) this] show ?case using d1(1) by simp
qed

end

interpretation dispatcher_handles: raii_handles "\<lambda>d R. \<exists>c. run differs d R c f" destroyHandle for differs f
proof
  fix d R r assume "\<exists>c. run differs d R c f" "r \<in> set R"
  then obtain c where c: "run differs d R c f" and r: "r \<in> set R" by blast
  obtain d1 where "destroyHandle r d = (d1, Inr ())" "run differs d1 (remove1 r R) (c \<and> complete_release d r) f" by (rule run_destroy [OF c r])
  then show "\<exists>d1. destroyHandle r d = (d1, Inr ()) \<and> (\<exists>c. run differs d1 (remove1 r R) c f)" by blast
qed


lemma one_name_run:
  obtains d where "perform differs (Name name) Dispatcher = (d, Inr (RName 1 name))" "run differs d [RName 1 name] True True"
proof -
  obtain e where e: "OperatorEntry (backendFallbackKernels Dispatcher) name = Inr e"
    by (rule OperatorEntry_up_to_date [of "backendFallbackKernels Dispatcher" name]) (simp_all add: Dispatcher_def)
  have "snd (perform differs (Name name) Dispatcher) = Inr (RName 1 name)"
    using e by (simp add: registerName_def with_name_def findOrRegisterName_def findOp_def operatorDef_def Let_def Dispatcher_def)
  then obtain d where d: "perform differs (Name name) Dispatcher = (d, Inr (RName 1 name))" by (metis prod.collapse)
  from run.accepted [OF run.start _ this] show thesis using that [OF d] by simp
qed


text \<open>C9: the live handles can be destroyed in any order: no assertion fails and
  no handle of an erased operator is followed; if no registration was rejected before, no operator is left in the
  list or in the lookup table afterwards.\<close>

theorem handles_destroyed_in_any_order:
  assumes "run differs d R c f" "mset rs = mset R"
  shows "\<exists>d1. destroyAll destroyHandle rs d = (d1, Inr ()) \<and> (f \<longrightarrow> operators d1 = [] \<and> operatorLookupTable d1 = [])"
proof -
  obtain d1 c1 where d1: "destroyAll destroyHandle rs d = (d1, Inr ())" "run differs d1 [] c1 f"
    using dispatcher_handles.any_order [where differs = differs and f = f and d = d and R = R and rs = rs] assms by blast
  have i: "registry_inv d1 []" "f \<longrightarrow> all_referenced d1" using run_inv [OF d1(2)] by simp_all
  have "operators d1 = []" if f
  proof (rule ccontr)
    assume "operators d1 \<noteq> []"
    then obtain od where od: "od \<in> set (operators d1)" by (cases "operators d1") auto
    then show False using registry_invD(3) [OF i(1) od] i(2) that by (auto simp: od_inv_def all_referenced_def)
  qed
  moreover have "operatorLookupTable d1 = []" if "operators d1 = []"
  proof -
    have "map_of (operatorLookupTable d1) n \<noteq> Some j" for n j using registry_invD(2) [OF i(1)] that by (simp add: has_op_def)
    then have "map_of (operatorLookupTable d1) = (\<lambda>_. None)" by (intro ext) (metis not_Some_eq)
    then show ?thesis by simp
  qed
  ultimately show ?thesis using d1(1) by blast
qed

theorem handles_destroyed_in_any_order_witness:
  "\<exists>d d1. perform (\<lambda>_ _ _. False) (Name ''aten::add'') Dispatcher = (d, Inr (RName 1 ''aten::add'')) \<and>
     destroyAll destroyHandle [RName 1 ''aten::add''] d = (d1, Inr ()) \<and> operators d1 = []"
proof -
  obtain d where "perform (\<lambda>_ _ _. False) (Name ''aten::add'') Dispatcher = (d, Inr (RName 1 ''aten::add''))"
    "run (\<lambda>_ _ _. False) d [RName 1 ''aten::add''] True True" by (rule one_name_run)
  then show ?thesis using handles_destroyed_in_any_order [of "\<lambda>_ _ _. False" d "[RName 1 ''aten::add'']" True True "[RName 1 ''aten::add'']"] by auto
qed

text \<open>C10: if all table updates of a run were complete, the invariants of all operators hold,
  and a call of any operator that dispatches on \<open>Undefined\<close> or a runtime key returns the kernel that
  \<open>computeDispatchTableEntry\<close> selects for that key, which for a runtime key is not a fallthrough kernel, or reports that
  there is none.\<close>

theorem complete_runs_dispatch:
  assumes "run differs d R True f"
  shows "dispatcher_checkInvariants d = Inr () \<and>
    (\<forall>od \<in> set (operators d).
       let k = highestPriorityTypeId (getDispatchKeySetUnboxed inc exc (dispatchKeyExtractor (od_op od)) args); kernel = dispatchTable (od_op od) ! table_slot k in
       tableKey k \<longrightarrow> computeDispatchTableEntry (backendFallbackKernels d) (od_op od) k = Inr kernel \<and>
         (isRuntimeKey k \<longrightarrow> \<not> isFallthrough kernel) \<and>
         dispatcher_call inc exc d (od_id od) args = (if isValid kernel then Inr kernel
           else Inl (NotImplementedError (if k = DispatchKey_Undefined then ''There were no tensor arguments to this function'' else ''Could not run''))))"
proof -
  let ?fb = "backendFallbackKernels d"
  have i: "registry_inv d R" "all_up_to_date d" using run_inv [OF assms] by simp_all
  have op: "entry_inv (od_op od)" "schema_inv (od_op od)" "up_to_date ?fb (od_op od)" if "od \<in> set (operators d)" for od
    using registry_invD(3) [OF i(1) that] i(2) that by (simp_all add: od_inv_def all_up_to_date_def)
  have "checkInvariants ?fb (od_op od) = Inr ()" if "od \<in> set (operators d)" for od
    using checkInvariants_iff [OF op(1,2) [OF that]] op(3) [OF that] by (simp add: up_to_date_def tableKey_def)
  then have "\<exists>u. mapE (\<lambda>od. checkInvariants ?fb (od_op od)) (operators d) = Inr u" by (intro mapE_unit) simp
  then have "dispatcher_checkInvariants d = Inr ()" by (auto simp: dispatcher_checkInvariants_def)
  moreover have "computeDispatchTableEntry ?fb (od_op od) k = Inr kernel \<and> (isRuntimeKey k \<longrightarrow> \<not> isFallthrough kernel) \<and>
         dispatcher_call inc exc d (od_id od) args = (if isValid kernel then Inr kernel
           else Inl (NotImplementedError (if k = DispatchKey_Undefined then ''There were no tensor arguments to this function'' else ''Could not run'')))"
    if od: "od \<in> set (operators d)" and ks: "ks = getDispatchKeySetUnboxed inc exc (dispatchKeyExtractor (od_op od)) args"
      and k: "k = highestPriorityTypeId ks" "tableKey k" and kernel: "kernel = dispatchTable (od_op od) ! table_slot k" for od ks k kernel
  proof -
    note o = op [OF od]
    have x: "extractor_ok (table_fallthrough (od_op od)) (dispatchKeyExtractor (od_op od))" using o(1) by (simp add: entry_inv_def)
    have n: "\<not> bit ks 63" using key_mask_backends(2) [OF x] unfolding ks getDispatchKeySetUnboxed_eq by (simp add: bit_and_iff)
    have t: "kernel = ak_kernel (entry_of (newest (od_op od)) ?fb k)" using o(3) k(2) kernel by (simp add: up_to_date_def)
    have "computeDispatchTableEntry ?fb (od_op od) k = Inr kernel" using computeDispatchTableEntry_eq [of "od_op od" k ?fb] o(1) k(2) t by (simp add: entry_inv_def)
    moreover have "isRuntimeKey k \<longrightarrow> \<not> isFallthrough kernel"
      using masked_highest [OF x] unfolding kernel k(1) ks getDispatchKeySetUnboxed_eq table_fallthrough_def by blast
    moreover have "lookup ?fb (od_op od) ks = (if isValid kernel then Inr kernel
           else Inl (NotImplementedError (if k = DispatchKey_Undefined then ''There were no tensor arguments to this function'' else ''Could not run'')))"
      using lookup_eq [OF o(1,3,2) n] k t by (simp add: Let_def)
    ultimately show ?thesis using operatorDef_eq [OF registry_invD(1) [OF i(1)] od] ks by (simp add: dispatcher_call_def)
  qed
  ultimately show ?thesis unfolding Let_def by blast
qed

theorem complete_runs_dispatch_witness:
  "\<exists>d. perform (\<lambda>_ _ _. False) (Name ''aten::add'') Dispatcher = (d, Inr (RName 1 ''aten::add'')) \<and> dispatcher_checkInvariants d = Inr ()"
proof -
  obtain d where "perform (\<lambda>_ _ _. False) (Name ''aten::add'') Dispatcher = (d, Inr (RName 1 ''aten::add''))"
    "run (\<lambda>_ _ _. False) d [RName 1 ''aten::add''] True True" by (rule one_name_run)
  then show ?thesis using complete_runs_dispatch by blast
qed

text \<open>
  A rejected \<open>def\<close> can leave an operator without any registration behind: the name is entered into the lookup
  table before the schema is checked, and nothing removes it again.
\<close>

theorem rejected_def_leaves_operator:
  "\<exists>d err. registerDef (\<lambda>_ _ _. False) \<lparr> os_name = ''op'', os_dispatch = replicate 65 True, os_rest = 0 \<rparr> [] Dispatcher = (d, Inl err) \<and>
     findOp d ''op'' = Some 1 \<and> map def_and_impl_count (operators d) = [0]"
proof -
  obtain e where e: "OperatorEntry (backendFallbackKernels Dispatcher) ''op'' = Inr e" "kernels e = []" "oe_schema e = None"
      "dispatch_arg_indices_reverse (dispatchKeyExtractor e) = 0"
    by (rule OperatorEntry_up_to_date [of "backendFallbackKernels Dispatcher" "''op''"]) (simp_all add: Dispatcher_def)
  then have "registerSchema (\<lambda>_ _ _. False) \<lparr> os_name = ''op'', os_dispatch = replicate 65 True, os_rest = 0 \<rparr> [] e =
      Inl (CheckError ''The function schema has too many arguments'')"
    by (simp add: registerSchema_def dke_registerSchema_def makeBitsetForDispatchArgs_def check_def Let_def)
  then show ?thesis using e(1)
    by (simp add: registerDef_def with_name_def findOrRegisterName_def findOp_def operatorDef_def def_schema_def Let_def Dispatcher_def)
qed

end
