(* ===== verification/DispatchArguments.thy ===== *)
theory DispatchArguments
  imports OperatorEntries
begin

text \<open>
  Where a call finds its dispatch keys: the arguments of an unboxed call (\<open>MultiDispatchKeySet\<close>) and the stack of a
  boxed call (\<open>getDispatchKeySetBoxed\<close> with the bit set of \<open>c10/util/Bitset.h\<close>), in \<open>DispatchKeyExtractor.h\<close>. A tensor or
  generator is represented by its key set; an undefined generator has none.
\<close>

section \<open>Bit sets\<close>

definition bitset_set :: "u64 \<Rightarrow> nat \<Rightarrow> u64" where
  "bitset_set b index = b OR push_bit index 1"

definition bitset_unset :: "u64 \<Rightarrow> nat \<Rightarrow> u64" where
  "bitset_unset b index = b AND NOT (push_bit index 1)"

definition bitset_get :: "u64 \<Rightarrow> nat \<Rightarrow> bool" where
  "bitset_get b index \<longleftrightarrow> b AND push_bit index 1 \<noteq> 0"

text \<open>One more than the index of the lowest bit that is set, 0 if there is none.\<close>

definition find_first_set :: "u64 \<Rightarrow> nat" where
  "find_first_set b = (case find (\<lambda>i. bit b i) [0..<64] of None \<Rightarrow> 0 | Some i \<Rightarrow> i + 1)"

lemma bit_bitset:
  "bit (bitset_set b i) j \<longleftrightarrow> bit b j \<or> j = i \<and> i < 64"
  "bit (bitset_unset b i) j \<longleftrightarrow> bit b j \<and> j \<noteq> i"
  by (auto simp: bitset_set_def bitset_unset_def bit_simps dest: bit_imp_le_length)

lemma bitset_get_bit: "bitset_get b i \<longleftrightarrow> bit b i"
proof -
  have "bit (b AND push_bit i 1) j \<longleftrightarrow> bit b i \<and> j = i" for j by (auto simp: bit_simps dest: bit_imp_le_length)
  then show ?thesis unfolding bitset_get_def by (metis bit_0_eq bot_apply bot_bool_def bit_eqI)
qed

lemma u64_eq_0: "(b :: u64) = 0 \<longleftrightarrow> (\<forall>i < 64. \<not> bit b i)"
proof
  assume "\<forall>i < 64. \<not> bit b i"
  then show "b = 0" by (intro bit_eqI) (auto dest: bit_imp_le_length)
qed simp

lemma find_first_set_0: "find_first_set b = 0 \<longleftrightarrow> (\<forall>i < 64. \<not> bit b i)"
proof -
  have "find (\<lambda>i. bit b i) [0..<64] = None \<longleftrightarrow> (\<forall>i < 64. \<not> bit b i)" by (auto simp: find_None_iff simp del: upt_rec_numeral)
  then show ?thesis by (cases "find (\<lambda>i. bit b i) [0..<64]") (simp_all add: find_first_set_def del: upt_rec_numeral)
qed

lemma find_first_set_Suc:
  assumes "find_first_set b = Suc i"
  shows "bit b i" "i < 64" "\<forall>j < i. \<not> bit b j"
proof -
  have f: "find (\<lambda>i. bit b i) [0..<64] = Some i" using assms by (auto simp: find_first_set_def simp del: upt_rec_numeral split: option.splits)
  then obtain k where "k < 64" "bit b k" "i = k" "\<forall>j < k. \<not> bit b j" by (auto simp: find_Some_iff simp del: upt_rec_numeral)
  then show "bit b i" "i < 64" "\<forall>j < i. \<not> bit b j" by auto
qed

definition bits_of :: "u64 \<Rightarrow> nat list" where
  "bits_of b = filter (\<lambda>i. bit b i) [0..<64]"

lemma bits_of_unset:
  assumes "find_first_set b = Suc i"
  shows "bits_of b = i # bits_of (bitset_unset b i)"
proof -
  note f = find_first_set_Suc [OF assms]
  have "[0..<64] = [0..<i] @ i # [Suc i..<64]" using f(2) upt_add_eq_append [of 0 i "64 - i"] upt_conv_Cons [of i 64] by simp
  moreover have "filter (\<lambda>j. bit b j) [0..<i] = []" "filter (\<lambda>j. bit (bitset_unset b i) j) [0..<i] = []" using f(3) by (auto simp: filter_empty_conv bit_bitset)
  moreover have "filter (\<lambda>j. bit (bitset_unset b i) j) [Suc i..<64] = filter (\<lambda>j. bit b j) [Suc i..<64]" by (rule filter_cong) (auto simp: bit_bitset)
  ultimately show ?thesis using f(1) by (simp add: bits_of_def bit_bitset del: upt_rec_numeral)
qed

text \<open>\<open>for_each_set_bit\<close>: the loop runs over the set bits, the lowest first.\<close>

function for_each_set_bit :: "('s \<Rightarrow> nat \<Rightarrow> 's) \<Rightarrow> u64 \<Rightarrow> 's \<Rightarrow> 's" where
  "for_each_set_bit f cur s = (let index = find_first_set cur in
     if index = 0 then s else for_each_set_bit f (bitset_unset cur (index - 1)) (f s (index - 1)))"
  by pat_completeness auto
termination
proof (relation "measure (\<lambda>(f, cur, s). length (bits_of cur))")
  fix f :: "'s \<Rightarrow> nat \<Rightarrow> 's" and cur s index assume "index = find_first_set cur" "index \<noteq> 0"
  then have "find_first_set cur = Suc (index - 1)" by simp
  from bits_of_unset [OF this] show "((f, bitset_unset cur (index - 1), f s (index - 1)), (f, cur, s)) \<in> measure (\<lambda>(f, cur, s). length (bits_of cur))" by simp
qed simp

declare for_each_set_bit.simps [simp del]

lemma for_each_set_bit_eq: "for_each_set_bit f b s = foldl f s (bits_of b)"
proof (induction f b s rule: for_each_set_bit.induct)
  case (1 f cur s)
  show ?case
  proof (cases "find_first_set cur")
    case 0
    then have "bits_of cur = []" by (simp add: find_first_set_0 bits_of_def filter_empty_conv del: upt_rec_numeral)
    then show ?thesis using 0 by (simp add: for_each_set_bit.simps)
  next
    case (Suc i)
    then show ?thesis using 1 [OF refl] bits_of_unset [OF Suc] by (simp add: for_each_set_bit.simps [of f cur s])
  qed
qed

section \<open>Unboxed arguments\<close>

datatype cpp_arg =
    A_Tensor DispatchKeySet
  | A_OptTensor "DispatchKeySet option"
  | A_TensorList "DispatchKeySet list"
  | A_OptTensorList "DispatchKeySet option list"
  | A_ITensorListRef "DispatchKeySet list"
  | A_OptTensorArrayRef
  | A_Generator "DispatchKeySet option"
  | A_OptGenerator "DispatchKeySet option option"
  | A_Other

definition option_keys :: "DispatchKeySet \<Rightarrow> DispatchKeySet option \<Rightarrow> DispatchKeySet" where
  "option_keys ts x = (case x of None \<Rightarrow> ts | Some ks \<Rightarrow> keyset_union ts ks)"

fun MultiDispatchKeySet :: "DispatchKeySet \<Rightarrow> cpp_arg \<Rightarrow> DispatchKeySet result" where
  "MultiDispatchKeySet ts (A_Tensor x) = Inr (keyset_union ts x)"
| "MultiDispatchKeySet ts (A_OptTensor x) = Inr (option_keys ts x)"
| "MultiDispatchKeySet ts (A_TensorList xs) = Inr (foldl keyset_union ts xs)"
| "MultiDispatchKeySet ts (A_OptTensorList xs) = Inr (foldl option_keys ts xs)"
| "MultiDispatchKeySet ts (A_ITensorListRef xs) = Inr (foldl keyset_union ts xs)"
| "MultiDispatchKeySet ts A_OptTensorArrayRef = Inl (InternalAssert ''false'')"
| "MultiDispatchKeySet ts (A_Generator gen) = Inr (option_keys ts gen)"
| "MultiDispatchKeySet ts (A_OptGenerator gen) = Inr (case gen of None \<Rightarrow> ts | Some g \<Rightarrow> option_keys ts g)"
| "MultiDispatchKeySet ts A_Other = Inr ts"

definition args_key_set :: "cpp_arg list \<Rightarrow> DispatchKeySet result" where
  "args_key_set args = foldE MultiDispatchKeySet 0 args"

section \<open>The stack of a boxed call\<close>

datatype ivalue =
    IV_None
  | IV_Tensor DispatchKeySet
  | IV_TensorList "DispatchKeySet list"
  | IV_List "ivalue list"
  | IV_Generator "DispatchKeySet option"
  | IV_Other

definition element_keys :: "DispatchKeySet \<Rightarrow> ivalue \<Rightarrow> DispatchKeySet" where
  "element_keys ks elt = (case elt of IV_Tensor t \<Rightarrow> keyset_union ks t | _ \<Rightarrow> ks)"

definition ivalue_keys :: "DispatchKeySet \<Rightarrow> ivalue \<Rightarrow> DispatchKeySet" where
  "ivalue_keys ks v = (case v of IV_Tensor t \<Rightarrow> keyset_union ks t
     | IV_TensorList ts \<Rightarrow> foldl keyset_union ks ts
     | IV_List elts \<Rightarrow> foldl element_keys ks elts
     | _ \<Rightarrow> ks)"

text \<open>\<open>peek(stack, 0, N)\<close>: the \<open>N\<close>-th value from the top; below the bottom it is an error.\<close>

definition peek :: "ivalue list \<Rightarrow> nat \<Rightarrow> ivalue result" where
  "peek stack N = (if N \<le> length stack then Inr (stack ! (length stack - N)) else Inl (StdOutOfRange ''peek''))"

definition stack_key_set :: "u64 \<Rightarrow> ivalue list \<Rightarrow> DispatchKeySet result" where
  "stack_key_set indices stack = for_each_set_bit (\<lambda>r reverse_arg_index. bindE r (\<lambda>ks. bindE (peek stack (reverse_arg_index + 1)) (\<lambda>v. Inr (ivalue_keys ks v)))) indices (Inr 0)"

text \<open>The common end of both functions: fallthrough keys are skipped.\<close>

definition mask_key_set :: "DispatchKeySet \<Rightarrow> DispatchKeySet \<Rightarrow> dispatch_key_extractor \<Rightarrow> DispatchKeySet \<Rightarrow> DispatchKeySet" where
  "mask_key_set inc exc e ks = (if requiresBitsetPerBackend e
     then computeDispatchKeySet inc exc ks (nonFallthroughKeysPerBackend e ! getBackendIndex (keyset_diff (keyset_union ks inc) exc))
     else computeDispatchKeySet inc exc ks (nonFallthroughKeys e))"

definition getDispatchKeySetBoxed :: "DispatchKeySet \<Rightarrow> DispatchKeySet \<Rightarrow> dispatch_key_extractor \<Rightarrow> ivalue list \<Rightarrow> DispatchKeySet result" where
  "getDispatchKeySetBoxed inc exc e stack = bindE (stack_key_set (dispatch_arg_indices_reverse e) stack) (\<lambda>ks. Inr (mask_key_set inc exc e ks))"

definition getDispatchKeySetUnboxed_args :: "DispatchKeySet \<Rightarrow> DispatchKeySet \<Rightarrow> dispatch_key_extractor \<Rightarrow> cpp_arg list \<Rightarrow> DispatchKeySet result" where
  "getDispatchKeySetUnboxed_args inc exc e args = bindE (args_key_set args) (\<lambda>ks. Inr (mask_key_set inc exc e ks))"

section \<open>Boxed and unboxed calls\<close>

lemma bit_keyset_union: "bit (keyset_union s t) i \<longleftrightarrow> bit s i \<or> bit t i"
  by (simp add: keyset_union_def bit_or_iff)

lemma bit_fold_union: "bit (foldl keyset_union ks l) i \<longleftrightarrow> bit ks i \<or> (\<exists>x \<in> set l. bit x i)"
  by (induction l arbitrary: ks) (auto simp: bit_keyset_union)

lemma bit_fold_option: "bit (foldl option_keys ks l) i \<longleftrightarrow> bit ks i \<or> (\<exists>x. Some x \<in> set l \<and> bit x i)"
  by (induction l arbitrary: ks) (auto simp: bit_keyset_union option_keys_def split: option.splits)

lemma bit_fold_element: "bit (foldl element_keys ks l) i \<longleftrightarrow> bit ks i \<or> (\<exists>x. IV_Tensor x \<in> set l \<and> bit x i)"
  by (induction l arbitrary: ks) (auto simp: bit_keyset_union element_keys_def split: ivalue.splits)

text \<open>The tensors and generators that an argument holds.\<close>

fun arg_sets :: "cpp_arg \<Rightarrow> DispatchKeySet set" where
  "arg_sets (A_Tensor x) = {x}"
| "arg_sets (A_OptTensor x) = set_option x"
| "arg_sets (A_TensorList xs) = set xs"
| "arg_sets (A_OptTensorList xs) = {x. Some x \<in> set xs}"
| "arg_sets (A_ITensorListRef xs) = set xs"
| "arg_sets (A_Generator gen) = set_option gen"
| "arg_sets (A_OptGenerator gen) = (case gen of None \<Rightarrow> {} | Some g \<Rightarrow> set_option g)"
| "arg_sets a = {}"

text \<open>The value on the stack for an argument, and whether its type takes part in dispatch.\<close>

fun box :: "cpp_arg \<Rightarrow> ivalue" where
  "box (A_Tensor x) = IV_Tensor x"
| "box (A_OptTensor x) = (case x of None \<Rightarrow> IV_None | Some t \<Rightarrow> IV_Tensor t)"
| "box (A_TensorList xs) = IV_TensorList xs"
| "box (A_OptTensorList xs) = IV_List (map (\<lambda>x. case x of None \<Rightarrow> IV_None | Some t \<Rightarrow> IV_Tensor t) xs)"
| "box (A_ITensorListRef xs) = IV_TensorList xs"
| "box (A_Generator gen) = IV_Generator gen"
| "box (A_OptGenerator gen) = (case gen of None \<Rightarrow> IV_None | Some g \<Rightarrow> IV_Generator g)"
| "box a = IV_Other"

fun isDispatchType :: "cpp_arg \<Rightarrow> bool" where
  "isDispatchType (A_Generator gen) \<longleftrightarrow> False"
| "isDispatchType (A_OptGenerator gen) \<longleftrightarrow> False"
| "isDispatchType A_OptTensorArrayRef \<longleftrightarrow> False"
| "isDispatchType A_Other \<longleftrightarrow> False"
| "isDispatchType a \<longleftrightarrow> True"

lemma MultiDispatchKeySet_bits:
  assumes "a \<noteq> A_OptTensorArrayRef"
  obtains ts' where "MultiDispatchKeySet ts a = Inr ts'" "\<And>i. bit ts' i \<longleftrightarrow> bit ts i \<or> (\<exists>x \<in> arg_sets a. bit x i)"
  using assms
  by (cases a) (auto simp: bit_keyset_union bit_fold_union bit_fold_option option_keys_def split: option.splits)

lemma args_key_set_bits:
  assumes "A_OptTensorArrayRef \<notin> set args"
  obtains ks where "args_key_set args = Inr ks" "\<forall>i. bit ks i \<longleftrightarrow> (\<exists>a \<in> set args. \<exists>x \<in> arg_sets a. bit x i)"
proof -
  have "\<exists>ks. foldE MultiDispatchKeySet ts args = Inr ks \<and> (\<forall>i. bit ks i \<longleftrightarrow> bit ts i \<or> (\<exists>a \<in> set args. \<exists>x \<in> arg_sets a. bit x i))" for ts
    using assms
  proof (induction args arbitrary: ts)
    case (Cons a args)
    obtain t where t: "MultiDispatchKeySet ts a = Inr t" "\<And>i. bit t i \<longleftrightarrow> bit ts i \<or> (\<exists>x \<in> arg_sets a. bit x i)"
      by (rule MultiDispatchKeySet_bits [of a ts]) (use Cons.prems in auto)
    then show ?case using Cons.IH [of t] Cons.prems by auto
  qed simp
  from this [of 0] show thesis using that by (auto simp: args_key_set_def)
qed

lemma boxed_elements: "IV_Tensor x \<in> set (map (\<lambda>x. case x of None \<Rightarrow> IV_None | Some t \<Rightarrow> IV_Tensor t) xs) \<longleftrightarrow> Some x \<in> set xs"
  by (induction xs) (auto split: option.splits)

lemma ivalue_keys_box:
  "bit (ivalue_keys ks (box a)) i \<longleftrightarrow> bit ks i \<or> isDispatchType a \<and> (\<exists>x \<in> arg_sets a. bit x i)"
  by (cases a) (auto simp: ivalue_keys_def bit_keyset_union bit_fold_union bit_fold_element boxed_elements simp del: set_map split: option.splits)

lemma makeBitset_bits:
  assumes "length (os_dispatch schema) \<le> 64"
  obtains b where "makeBitsetForDispatchArgs schema = Inr b"
    "\<forall>j. bit b j \<longleftrightarrow> j < length (os_dispatch schema) \<and> os_dispatch schema ! (length (os_dispatch schema) - 1 - j)"
proof -
  let ?n = "length (os_dispatch schema)" and ?D = "os_dispatch schema"
  let ?f = "\<lambda>(b :: u64) i. if ?D ! i then b OR push_bit (?n - 1 - i) 1 else b"
  have fb: "bit (foldl ?f b l) j \<longleftrightarrow> bit b j \<or> (\<exists>i \<in> set l. ?D ! i \<and> j = ?n - 1 - i)" if "\<forall>i \<in> set l. i < ?n" for b :: u64 and l j
    using that
  proof (induction l arbitrary: b)
    case (Cons x l)
    have "x < ?n" using Cons.prems by simp
    then have "?n - 1 - x < 64" using assms by arith
    then have "bit (?f b x) j \<longleftrightarrow> bit b j \<or> ?D ! x \<and> j = ?n - 1 - x" by (auto simp: bit_simps)
    then show ?case using Cons.IH [of "?f b x"] Cons.prems by auto
  qed simp
  have "bit (foldl ?f 0 [0..<?n]) j \<longleftrightarrow> (\<exists>i < ?n. ?D ! i \<and> j = ?n - 1 - i)" for j
    using fb [where l = "[0..<?n]" and b = 0 and j = j] by (simp only: set_upt bit_0_eq bot_apply bot_bool_def atLeastLessThan_iff Bex_def simp_thms) auto
  moreover have "(\<exists>i < ?n. ?D ! i \<and> j = ?n - 1 - i) \<longleftrightarrow> j < ?n \<and> ?D ! (?n - 1 - j)" for j
    by (auto intro!: exI [of _ "?n - 1 - j"]) 
  ultimately show thesis using that [of "foldl ?f 0 [0..<?n]"] assms by (simp add: makeBitsetForDispatchArgs_def check_def Let_def)
qed

lemma stack_key_set_bits:
  assumes "\<forall>j \<in> set (bits_of indices). j < length stack"
  obtains ks where "stack_key_set indices stack = Inr ks"
    "\<forall>P i. (\<forall>ks. \<forall>j \<in> set (bits_of indices). bit (ivalue_keys ks (stack ! (length stack - (j + 1)))) i \<longleftrightarrow> bit ks i \<or> P j) \<longrightarrow>
      bit ks i \<longleftrightarrow> (\<exists>j \<in> set (bits_of indices). P j)"
proof -
  let ?f = "\<lambda>r j. bindE r (\<lambda>ks. bindE (peek stack (j + 1)) (\<lambda>v. Inr (ivalue_keys ks v)))"
  let ?g = "\<lambda>ks j. ivalue_keys ks (stack ! (length stack - (j + 1)))"
  have f: "foldl ?f (Inr ks) l = Inr (foldl ?g ks l)" if "\<forall>j \<in> set l. j < length stack" for ks l
    using that by (induction l arbitrary: ks) (auto simp: peek_def)
  have g: "bit (foldl ?g ks l) i \<longleftrightarrow> bit ks i \<or> (\<exists>j \<in> set l. P j)" if "\<And>ks j. j \<in> set l \<Longrightarrow> bit (?g ks j) i \<longleftrightarrow> bit ks i \<or> P j" for P i ks l
    using that by (induction l arbitrary: ks) auto
  show thesis
  proof (rule that)
    show "stack_key_set indices stack = Inr (foldl ?g 0 (bits_of indices))" using f [OF assms] by (simp add: stack_key_set_def for_each_set_bit_eq)
    have "bit (foldl ?g 0 (bits_of indices)) i \<longleftrightarrow> (\<exists>j \<in> set (bits_of indices). P j)"
      if "\<forall>ks. \<forall>j \<in> set (bits_of indices). bit (?g ks j) i \<longleftrightarrow> bit ks i \<or> P j" for P i
      using g [where ks = 0 and l = "bits_of indices" and P = P and i = i] that by simp
    then show "\<forall>P i. (\<forall>ks. \<forall>j \<in> set (bits_of indices). bit (?g ks j) i \<longleftrightarrow> bit ks i \<or> P j) \<longrightarrow>
      bit (foldl ?g 0 (bits_of indices)) i = (\<exists>j \<in> set (bits_of indices). P j)" by (intro allI impI)
  qed
qed

text \<open>A generator in a position where the stack is not looked at.\<close>

fun hide_generator :: "cpp_arg \<Rightarrow> cpp_arg" where
  "hide_generator (A_Generator gen) = A_Other"
| "hide_generator (A_OptGenerator gen) = A_Other"
| "hide_generator a = a"

lemma hidden_sets: "a \<noteq> A_OptTensorArrayRef \<Longrightarrow> arg_sets (hide_generator a) = (if isDispatchType a then arg_sets a else {})"
  by (cases a) simp_all

lemma ex_map_nth: "(\<exists>a \<in> set (map h args). Q a) \<longleftrightarrow> (\<exists>m < length args. Q (h (args ! m)))"
  by (metis in_set_conv_nth length_map nth_map)

lemma ex_reverse: "(\<exists>j < n. Q (n - 1 - j)) \<longleftrightarrow> (\<exists>m < n. Q m)" for n :: nat
proof
  assume "\<exists>m < n. Q m"
  then obtain m where "m < n" "Q m" by blast
  then show "\<exists>j < n. Q (n - 1 - j)" by (intro exI [of _ "n - 1 - m"]) simp
qed (metis diff_less_Suc less_imp_Suc_add diff_Suc_1 add_Suc_right)

lemma hidden_args_bits:
  assumes noref: "A_OptTensorArrayRef \<notin> set args"
  obtains us where "args_key_set (map hide_generator args) = Inr us"
    "\<forall>i. bit us i \<longleftrightarrow> (\<exists>m < length args. isDispatchType (args ! m) \<and> (\<exists>x \<in> arg_sets (args ! m). bit x i))"
proof -
  have "a \<noteq> A_OptTensorArrayRef \<Longrightarrow> hide_generator a \<noteq> A_OptTensorArrayRef" for a by (cases a) simp_all
  then have "A_OptTensorArrayRef \<notin> set (map hide_generator args)" using noref by (metis imageE list.set_map)
  then obtain us where us: "args_key_set (map hide_generator args) = Inr us"
    "\<forall>i. bit us i \<longleftrightarrow> (\<exists>a \<in> set (map hide_generator args). \<exists>x \<in> arg_sets a. bit x i)" by (rule args_key_set_bits)
  have hs: "(\<exists>x \<in> arg_sets (hide_generator a). bit x i) \<longleftrightarrow> isDispatchType a \<and> (\<exists>x \<in> arg_sets a. bit x i)" if "a \<in> set args" for a i
  proof -
    have "a \<noteq> A_OptTensorArrayRef" using that noref by auto
    from hidden_sets [OF this] show ?thesis by simp
  qed
  have "bit us i \<longleftrightarrow> (\<exists>a \<in> set args. isDispatchType a \<and> (\<exists>x \<in> arg_sets a. bit x i))" for i
  proof -
    have "bit us i \<longleftrightarrow> (\<exists>a \<in> set args. \<exists>x \<in> arg_sets (hide_generator a). bit x i)" using us(2) by simp
    then show ?thesis using hs by blast
  qed
  then have "\<forall>i. bit us i \<longleftrightarrow> (\<exists>m < length args. isDispatchType (args ! m) \<and> (\<exists>x \<in> arg_sets (args ! m). bit x i))"
    by (metis in_set_conv_nth)
  then show thesis using that us(1) by blast
qed

lemma stack_bits:
  assumes n: "length args \<le> 64" and s: "os_dispatch schema = map isDispatchType args" and b: "makeBitsetForDispatchArgs schema = Inr indices"
  obtains ks where "stack_key_set indices (below @ map box args) = Inr ks"
    "\<forall>i. bit ks i \<longleftrightarrow> (\<exists>m < length args. isDispatchType (args ! m) \<and> (\<exists>x \<in> arg_sets (args ! m). bit x i))"
proof -
  let ?n = "length args" and ?st = "below @ map box args"
  have len: "length (os_dispatch schema) = ?n" "length (os_dispatch schema) \<le> 64" using n s by simp_all
  obtain b' where b': "makeBitsetForDispatchArgs schema = Inr b'"
      "\<forall>j. bit b' j \<longleftrightarrow> j < length (os_dispatch schema) \<and> os_dispatch schema ! (length (os_dispatch schema) - 1 - j)"
    by (rule makeBitset_bits [OF len(2)])
  have bi: "bit indices j \<longleftrightarrow> j < ?n \<and> isDispatchType (args ! (?n - 1 - j))" for j
  proof -
    have "indices = b'" using b b'(1) by simp
    then show ?thesis using spec [OF b'(2), of j] unfolding len(1) s by (cases "j < ?n") simp_all
  qed
  have "set (bits_of indices) = {j. j < 64 \<and> bit indices j}" by (auto simp: bits_of_def simp del: upt_rec_numeral)
  also have "\<dots> = {j. j < ?n \<and> isDispatchType (args ! (?n - 1 - j))}"
  proof (rule Collect_cong)
    show "j < 64 \<and> bit indices j \<longleftrightarrow> j < ?n \<and> isDispatchType (args ! (?n - 1 - j))" for j
      unfolding bi using less_le_trans [OF _ n, of j] by blast
  qed
  finally have B: "set (bits_of indices) = {j. j < ?n \<and> isDispatchType (args ! (?n - 1 - j))}" .
  have st: "?st ! (length ?st - (j + 1)) = box (args ! (?n - 1 - j))" if "j < ?n" for j
  proof -
    have "length ?st - (j + 1) = length below + (?n - 1 - j)" "?n - 1 - j < ?n" using that by auto
    then show ?thesis by (simp only: nth_append_length_plus nth_map)
  qed
  have low: "\<forall>j \<in> set (bits_of indices). j < length ?st" unfolding B by simp
  obtain ks where ks: "stack_key_set indices ?st = Inr ks"
    "\<forall>P i. (\<forall>ks. \<forall>j \<in> set (bits_of indices). bit (ivalue_keys ks (?st ! (length ?st - (j + 1)))) i \<longleftrightarrow> bit ks i \<or> P j) \<longrightarrow>
      bit ks i \<longleftrightarrow> (\<exists>j \<in> set (bits_of indices). P j)"
    by (rule stack_key_set_bits [OF low])
  have "bit ks i \<longleftrightarrow> (\<exists>j \<in> set (bits_of indices). \<exists>x \<in> arg_sets (args ! (?n - 1 - j)). bit x i)" for i
  proof (rule mp [OF spec [OF spec [OF ks(2), of "\<lambda>j. \<exists>x \<in> arg_sets (args ! (?n - 1 - j)). bit x i"], of i]], intro allI ballI)
    fix ks' j assume "j \<in> set (bits_of indices)"
    then have "j < ?n" "isDispatchType (args ! (?n - 1 - j))" unfolding B by simp_all
    then show "bit (ivalue_keys ks' (?st ! (length ?st - (j + 1)))) i \<longleftrightarrow> bit ks' i \<or> (\<exists>x \<in> arg_sets (args ! (?n - 1 - j)). bit x i)"
      unfolding st [OF \<open>j < ?n\<close>] ivalue_keys_box by simp
  qed
  note kb = this
  let ?Q = "\<lambda>i m. isDispatchType (args ! m) \<and> (\<exists>x \<in> arg_sets (args ! m). bit x i)"
  have "bit ks i \<longleftrightarrow> (\<exists>m < ?n. ?Q i m)" for i
  proof -
    have "bit ks i \<longleftrightarrow> (\<exists>j < ?n. ?Q i (?n - 1 - j))" unfolding kb B Bex_def mem_Collect_eq conj_assoc ..
    also have "\<dots> \<longleftrightarrow> (\<exists>m < ?n. ?Q i m)" by (rule ex_reverse [where Q = "?Q i"])
    finally show ?thesis .
  qed
  then have "\<forall>i. bit ks i \<longleftrightarrow> (\<exists>m < ?n. ?Q i m)" ..
  with ks(1) show thesis by (rule that)
qed

lemma stack_of_args:
  assumes "length args \<le> 64" "os_dispatch schema = map isDispatchType args" "A_OptTensorArrayRef \<notin> set args" "makeBitsetForDispatchArgs schema = Inr indices"
  shows "stack_key_set indices (below @ map box args) = args_key_set (map hide_generator args)"
proof -
  obtain us where us: "args_key_set (map hide_generator args) = Inr us"
    "\<forall>i. bit us i \<longleftrightarrow> (\<exists>m < length args. isDispatchType (args ! m) \<and> (\<exists>x \<in> arg_sets (args ! m). bit x i))"
    by (rule hidden_args_bits [OF assms(3)])
  obtain ks where ks: "stack_key_set indices (below @ map box args) = Inr ks"
    "\<forall>i. bit ks i \<longleftrightarrow> (\<exists>m < length args. isDispatchType (args ! m) \<and> (\<exists>x \<in> arg_sets (args ! m). bit x i))"
    by (rule stack_bits [OF assms(1,2,4)])
  have "us = ks" by (rule bit_eqI) (simp only: us(2) ks(2))
  then show ?thesis using ks(1) us(1) by simp
qed

text \<open>C11: a boxed call finds the same keys on the stack as the unboxed call finds in its arguments,
  whatever lies below the arguments on the stack, except that it does not look at generators: it dispatches as if every
  generator argument were an argument without keys.\<close>

theorem boxed_unboxed_agree:
  assumes "length args \<le> 64" "os_dispatch schema = map isDispatchType args" "A_OptTensorArrayRef \<notin> set args"
    "makeBitsetForDispatchArgs schema = Inr (dispatch_arg_indices_reverse e)"
  shows "getDispatchKeySetBoxed inc exc e (below @ map box args) = getDispatchKeySetUnboxed_args inc exc e (map hide_generator args)"
  using stack_of_args [OF assms, of below] by (simp add: getDispatchKeySetBoxed_def getDispatchKeySetUnboxed_args_def)

theorem boxed_unboxed_agree_witness:
  "getDispatchKeySetBoxed 0 0 (makeUninitialized\<lparr> dispatch_arg_indices_reverse := 2 \<rparr>) [IV_Tensor (DispatchKeySet_of DispatchKey_CUDA), IV_Tensor (DispatchKeySet_of DispatchKey_CPU), IV_Other] =
   getDispatchKeySetUnboxed_args 0 0 (makeUninitialized\<lparr> dispatch_arg_indices_reverse := 2 \<rparr>) [A_Tensor (DispatchKeySet_of DispatchKey_CPU), A_Other]"
proof -
  let ?schema = "\<lparr> os_name = [], os_dispatch = [True, False], os_rest = 0 \<rparr>"
  have "makeBitsetForDispatchArgs ?schema = Inr 2" by (simp add: makeBitsetForDispatchArgs_def check_def)
  then show ?thesis
    using boxed_unboxed_agree [of "[A_Tensor (DispatchKeySet_of DispatchKey_CPU), A_Other]" ?schema "makeUninitialized\<lparr> dispatch_arg_indices_reverse := 2 \<rparr>" 0 0
      "[IV_Tensor (DispatchKeySet_of DispatchKey_CUDA)]"] by simp
qed

text \<open>
  An operator whose only argument is a generator: the unboxed call dispatches on the keys of the generator, the
  boxed call on none.
\<close>

theorem generator_ignored_when_boxed:
  "let schema = \<lparr> os_name = ''op'', os_dispatch = [isDispatchType (A_Generator (Some g))], os_rest = 0 \<rparr> in
   \<exists>bits. makeBitsetForDispatchArgs schema = Inr bits \<and>
     stack_key_set bits [box (A_Generator (Some g))] = Inr 0 \<and> args_key_set [A_Generator (Some g)] = Inr g"
proof -
  have "bits_of 0 = []" by (simp add: bits_of_def filter_empty_conv del: upt_rec_numeral)
  then have boxed: "stack_key_set 0 st = Inr 0" for st by (simp add: stack_key_set_def for_each_set_bit_eq)
  have unboxed: "args_key_set [A_Generator (Some g)] = Inr g" by (simp add: args_key_set_def option_keys_def keyset_union_def)
  show ?thesis unfolding Let_def
    by (rule exI [of _ 0]) (simp add: boxed unboxed makeBitsetForDispatchArgs_def check_def)
qed

end
