(* ===== verification/DispatchNames.thy ===== *)
theory DispatchNames
  imports DispatchKeys
begin

text \<open>Printing and parsing of dispatch keys: \<open>toString\<close> and \<open>parseDispatchKey\<close> as inverses.\<close>

lemma parse_key_map_prints: "list_all (\<lambda>(n, k). toString k = n) parse_key_map"
  by code_simp

lemma parse_key_map_distinct: "distinct (map fst parse_key_map)"
  by (simp add: parse_key_map_def)

lemma parse_key_map_covers:
  "\<forall>k \<in> set ([0..<48] @ [50..<66] @ [151..<157]). k \<in> snd ` set parse_key_map"
  by (simp add: parse_key_map_def upt_rec)

lemma parse_key_map_entry: "map_of parse_key_map n = Some k \<Longrightarrow> toString k = n"
  using parse_key_map_prints by (auto simp: list_all_iff dest!: map_of_SomeD)

lemma parse_key_map_toString:
  "k \<in> snd ` set parse_key_map \<Longrightarrow> map_of parse_key_map (toString k) = Some k"
proof -
  assume "k \<in> snd ` set parse_key_map"
  then obtain n where n: "(n, k) \<in> set parse_key_map" by auto
  then have "toString k = n" using parse_key_map_prints by (auto simp: list_all_iff)
  then show ?thesis using n parse_key_map_distinct by simp
qed

text \<open>C5: every functionality key, every dense backend key and
  every alias key is recovered by \<open>parseDispatchKey\<close> from its printed name, whatever name the
  PrivateUse1 backend has; and whenever a string parses, the key found prints as that string, or as
  that string with the PrivateUse1 backend name replaced.\<close>

theorem toString_parse_roundtrip:
  "(k < DispatchKey_EndOfFunctionalityKeys \<or>
    StartOfDenseBackends < k \<and> k \<le> EndOfDenseBackends \<or> isAliasDispatchKey k \<longrightarrow>
      parseDispatchKey pu1 (toString k) = Inr k)
   \<and> (parseDispatchKey pu1 s = Inr d \<longrightarrow>
      toString d = s \<or> toString d = replace_all (map toupper pu1) ''PrivateUse1'' s)"
proof -
  have "k \<in> snd ` set parse_key_map"
    if "k < 48 \<or> 49 < k \<and> k \<le> 65 \<or> isAliasDispatchKey k"
  proof (rule bspec [OF parse_key_map_covers])
    show "k \<in> set ([0..<48] @ [50..<66] @ [151..<157])"
      using that by (auto simp: isAliasDispatchKey_def simp del: upt_rec_numeral)
  qed
  then have "k < 48 \<or> 49 < k \<and> k \<le> 65 \<or> isAliasDispatchKey k \<longrightarrow>
      parseDispatchKey pu1 (toString k) = Inr k"
    using parse_key_map_toString [of k] by (auto simp: parseDispatchKey_def)
  moreover have "parseDispatchKey pu1 s = Inr d \<longrightarrow>
      toString d = s \<or> toString d = replace_all (map toupper pu1) ''PrivateUse1'' s"
    by (auto simp: parseDispatchKey_def Let_def parse_key_map_entry split: option.splits if_splits)
  ultimately show ?thesis by blast
qed

theorem toString_parse_roundtrip_witness:
  "parseDispatchKey ''privateuseone'' (toString DispatchKey_Sparse) = Inr DispatchKey_Sparse"
  using toString_parse_roundtrip [of DispatchKey_Sparse "''privateuseone''" "[]" 0] by simp

end
