(* ===== verification/CppStrings.thy ===== *)
theory CppStrings
  imports Prelude
begin

text \<open>
  The parts of the C++ standard library that the stores and the parsers use: bytes and
  characters, 64-bit signed arithmetic, \<open>std::to_string\<close>, \<open>std::stoi\<close> and \<open>std::stoll\<close>, the
  string operations \<open>starts_with\<close> and \<open>substr\<close>, and the little-endian object representation that
  \<open>reinterpret_cast\<close> exposes on the supported hosts.
\<close>

type_synonym bytes = "u8 list"

section \<open>Bytes and characters\<close>

definition byte_of_char :: "char \<Rightarrow> u8" where
  "byte_of_char c = word_of_nat (of_char c)"

definition char_of_byte :: "u8 \<Rightarrow> char" where
  "char_of_byte b = char_of (unat b)"

definition string_bytes :: "string \<Rightarrow> bytes" where
  "string_bytes s = map byte_of_char s"

definition bytes_string :: "bytes \<Rightarrow> string" where
  "bytes_string b = map char_of_byte b"

lemma of_char_less_256: "(of_char c :: nat) < 256"
  using of_char_mod_256 [of c] by (metis mod_less_divisor zero_less_numeral)

lemma char_of_byte_of_char [simp]: "char_of_byte (byte_of_char c) = c"
proof -
  have "unat (byte_of_char c) = of_char c"
    using of_char_less_256 [of c] by (simp add: byte_of_char_def unat_of_nat)
  then show ?thesis by (simp add: char_of_byte_def)
qed

lemma byte_of_char_of_byte [simp]: "byte_of_char (char_of_byte b) = b"
proof -
  have "unat b < 256" using unsigned_less [of b] by simp
  then show ?thesis by (simp add: byte_of_char_def char_of_byte_def)
qed

lemma bytes_string_bytes [simp]: "bytes_string (string_bytes s) = s"
  by (simp add: bytes_string_def string_bytes_def comp_def)

lemma string_bytes_string [simp]: "string_bytes (bytes_string b) = b"
  by (simp add: bytes_string_def string_bytes_def comp_def)

lemma length_string_bytes [simp]: "length (string_bytes s) = length s"
  by (simp add: string_bytes_def)

lemma length_bytes_string [simp]: "length (bytes_string b) = length b"
  by (simp add: bytes_string_def)

lemma string_bytes_inj [simp]: "string_bytes s = string_bytes t \<longleftrightarrow> s = t"
  by (metis bytes_string_bytes)

lemma bytes_string_Nil [simp]: "bytes_string [] = []"
  by (simp add: bytes_string_def)

section \<open>64-bit signed integers\<close>

text \<open>\<open>int64_t\<close> values are integers; \<open>s64\<close> is the value a sum has in two's complement.\<close>

definition in_s64 :: "int \<Rightarrow> bool" where
  "in_s64 i \<longleftrightarrow> - (2 ^ 63) \<le> i \<and> i < 2 ^ 63"

definition s64 :: "int \<Rightarrow> int" where
  "s64 i = (i + 2 ^ 63) mod 2 ^ 64 - 2 ^ 63"

lemma s64_id [simp]: "in_s64 i \<Longrightarrow> s64 i = i"
  by (simp add: in_s64_def s64_def)

lemma in_s64_s64 [simp]: "in_s64 (s64 i)"
proof -
  define m where "m = (i + 2 ^ 63) mod (2::int) ^ 64"
  have "0 \<le> m" "m < 2 ^ 64" by (simp_all add: m_def)
  then show ?thesis unfolding in_s64_def s64_def m_def [symmetric] by simp
qed

section \<open>Decimal numbers\<close>

definition digit_char :: "nat \<Rightarrow> char" where
  "digit_char d = char_of (48 + d)"

fun nat_to_string :: "nat \<Rightarrow> string" where
  "nat_to_string n = (if n < 10 then [digit_char n] else nat_to_string (n div 10) @ [digit_char (n mod 10)])"

declare nat_to_string.simps [simp del]

definition to_string :: "int \<Rightarrow> string" where
  "to_string i = (if i < 0 then CHR ''-'' # nat_to_string (nat (- i)) else nat_to_string (nat i))"

definition digit_val :: "char \<Rightarrow> nat option" where
  "digit_val c = (let n = of_char c in if 48 \<le> n \<and> n \<le> 57 then Some (n - 48) else None)"

definition is_space :: "char \<Rightarrow> bool" where
  "is_space c = (let n = (of_char c :: nat) in n = 32 \<or> (9 \<le> n \<and> n \<le> 13))"

text \<open>
  \<open>sto lo hi\<close> is the behaviour shared by \<open>std::stoi\<close> and \<open>std::stoll\<close>: leading white space and an
  optional sign are skipped, the longest run of digits is read and the rest is ignored; no digit
  is \<open>std::invalid_argument\<close> and a value that does not fit is \<open>std::out_of_range\<close>.
\<close>

fun take_digits :: "string \<Rightarrow> string" where
  "take_digits [] = []"
| "take_digits (c # cs) = (if digit_val c = None then [] else c # take_digits cs)"

definition digits_value :: "string \<Rightarrow> nat" where
  "digits_value s = foldl (\<lambda>a c. 10 * a + the (digit_val c)) 0 s"

definition split_sign :: "string \<Rightarrow> bool \<times> string" where
  "split_sign s = (case s of [] \<Rightarrow> (False, [])
     | c # cs \<Rightarrow> if c = CHR ''-'' then (True, cs) else if c = CHR ''+'' then (False, cs) else (False, s))"

definition sto :: "int \<Rightarrow> int \<Rightarrow> string \<Rightarrow> int result" where
  "sto lo hi s = (case split_sign (dropWhile is_space s) of (neg, t) \<Rightarrow>
     let ds = take_digits t; v = (if neg then - int (digits_value ds) else int (digits_value ds)) in
     if ds = [] then Inl (StdInvalidArgument ''stoll'')
     else if lo \<le> v \<and> v \<le> hi then Inr v
     else Inl (StdOutOfRange ''stoll''))"

definition stoll :: "string \<Rightarrow> int result" where
  "stoll = sto (- (2 ^ 63)) (2 ^ 63 - 1)"

definition stoi :: "string \<Rightarrow> int result" where
  "stoi = sto (- (2 ^ 31)) (2 ^ 31 - 1)"

lemma digit_val_digit_char [simp]: "d < 10 \<Longrightarrow> digit_val (digit_char d) = Some d"
  by (simp add: digit_val_def digit_char_def)

lemma digit_char_not_special:
  assumes "d < 10"
  shows "\<not> is_space (digit_char d)" "digit_char d \<noteq> CHR ''-''" "digit_char d \<noteq> CHR ''+''"
proof -
  have v: "(of_char (digit_char d) :: nat) = 48 + d" using assms by (simp add: digit_char_def)
  then show "\<not> is_space (digit_char d)" by (simp add: is_space_def)
  show "digit_char d \<noteq> CHR ''-''"
  proof
    assume "digit_char d = CHR ''-''"
    then have "(of_char (digit_char d) :: nat) = of_char CHR ''-''" by simp
    also have "\<dots> = 45" by simp
    finally show False using v by simp
  qed
  show "digit_char d \<noteq> CHR ''+''"
  proof
    assume "digit_char d = CHR ''+''"
    then have "(of_char (digit_char d) :: nat) = of_char CHR ''+''" by simp
    also have "\<dots> = 43" by simp
    finally show False using v by simp
  qed
qed

lemma nat_to_string_ne [simp]: "nat_to_string n \<noteq> []"
  by (subst nat_to_string.simps) simp

lemma nat_to_string_digits: "c \<in> set (nat_to_string n) \<Longrightarrow> \<exists>d < 10. c = digit_char d"
proof (induction n rule: nat_to_string.induct)
  case (1 n)
  show ?case
  proof (cases "n < 10")
    case True
    then show ?thesis using 1 by (subst (asm) (2) nat_to_string.simps) auto
  next
    case False
    then have "c \<in> set (nat_to_string (n div 10)) \<or> c = digit_char (n mod 10)"
      using 1 by (subst (asm) (2) nat_to_string.simps) auto
    then show ?thesis using 1(1) [OF False] by (auto intro: exI [of _ "n mod 10"])
  qed
qed

lemma take_digits_all: "(\<And>c. c \<in> set s \<Longrightarrow> digit_val c \<noteq> None) \<Longrightarrow> take_digits s = s"
  by (induction s) auto

lemma digits_value_snoc: "digits_value (s @ [c]) = 10 * digits_value s + the (digit_val c)"
  by (simp add: digits_value_def)

lemma digits_value_nat_to_string [simp]: "digits_value (nat_to_string n) = n"
proof (induction n rule: nat_to_string.induct)
  case (1 n)
  show ?case
  proof (cases "n < 10")
    case True
    then show ?thesis by (subst nat_to_string.simps) (simp add: digits_value_def)
  next
    case False
    then show ?thesis using 1 [OF False]
      by (subst nat_to_string.simps) (simp add: digits_value_snoc)
  qed
qed

lemma take_digits_nat_to_string [simp]: "take_digits (nat_to_string n) = nat_to_string n"
  by (rule take_digits_all) (use nat_to_string_digits [of _ n] in fastforce)

lemma nat_to_string_head:
  "\<exists>d cs. d < 10 \<and> nat_to_string n = digit_char d # cs"
proof (cases "nat_to_string n")
  case Nil
  then show ?thesis by simp
next
  case (Cons c cs)
  then show ?thesis using nat_to_string_digits [of c n] by auto
qed

lemma sto_to_string: "lo \<le> i \<Longrightarrow> i \<le> hi \<Longrightarrow> sto lo hi (to_string i) = Inr i"
proof -
  assume b: "lo \<le> i" "i \<le> hi"
  have sp: "\<not> is_space CHR ''-''" by (simp add: is_space_def)
  obtain d cs where d: "d < 10" "nat_to_string (nat i) = digit_char d # cs"
    using nat_to_string_head by blast
  have pos: "split_sign (dropWhile is_space (nat_to_string (nat i))) = (False, nat_to_string (nat i))"
    using digit_char_not_special [OF d(1)] d(2) by (simp add: split_sign_def)
  have neg: "split_sign (dropWhile is_space (CHR ''-'' # nat_to_string (nat (- i))))
      = (True, nat_to_string (nat (- i)))"
    using sp by (simp add: split_sign_def)
  show ?thesis using b pos neg by (simp add: sto_def to_string_def Let_def)
qed

lemma stoll_to_string [simp]: "in_s64 i \<Longrightarrow> stoll (to_string i) = Inr i"
  by (simp add: stoll_def sto_to_string in_s64_def)

lemma length_nat_to_string: "n < 10 ^ Suc k \<Longrightarrow> length (nat_to_string n) \<le> Suc k"
proof (induction k arbitrary: n)
  case 0
  then show ?case by (subst nat_to_string.simps) simp
next
  case (Suc k)
  show ?case
  proof (cases "n < 10")
    case True
    then show ?thesis by (subst nat_to_string.simps) simp
  next
    case False
    have "n div 10 < 10 ^ Suc k" using Suc.prems by (simp add: less_mult_imp_div_less)
    then show ?thesis using Suc.IH [of "n div 10"] False by (subst nat_to_string.simps) simp
  qed
qed

lemma length_to_string: "in_s64 i \<Longrightarrow> length (to_string i) < 2 ^ 32"
proof -
  assume "in_s64 i"
  then have "nat \<bar>i\<bar> < 10 ^ Suc 19" by (auto simp: in_s64_def)
  then have "length (nat_to_string (nat \<bar>i\<bar>)) \<le> 20" using length_nat_to_string [of _ 19] by fastforce
  then show ?thesis by (auto simp: to_string_def abs_if split: if_splits)
qed

lemma to_string_ne [simp]: "to_string i \<noteq> []"
  by (simp add: to_string_def)

lemma stoll_Nil: "stoll [] = Inl (StdInvalidArgument ''stoll'')"
  by (simp add: stoll_def sto_def split_sign_def)

lemma stoll_Inr_in_s64: "stoll s = Inr i \<Longrightarrow> in_s64 i"
  by (auto simp: stoll_def sto_def in_s64_def Let_def split: prod.splits if_splits)

section \<open>String operations\<close>

definition starts_with :: "string \<Rightarrow> string \<Rightarrow> bool" where
  "starts_with s p = (take (length p) s = p)"

definition substr :: "string \<Rightarrow> nat \<Rightarrow> string result" where
  "substr s n = (if n \<le> length s then Inr (drop n s) else Inl (StdOutOfRange ''basic_string::substr''))"

lemma starts_with_append [simp]: "starts_with (p @ s) p"
  by (simp add: starts_with_def)

lemma starts_with_iff: "starts_with s p \<longleftrightarrow> (\<exists>r. s = p @ r)"
  unfolding starts_with_def by (metis append_eq_conv_conj append_take_drop_id)

lemma substr_append [simp]: "substr (p @ s) (length p) = Inr s"
  by (simp add: substr_def)

section \<open>Object representation\<close>

text \<open>The bytes of an unsigned integer of \<open>k\<close> bytes, least significant first.\<close>

fun to_le :: "nat \<Rightarrow> nat \<Rightarrow> bytes" where
  "to_le 0 n = []"
| "to_le (Suc k) n = word_of_nat n # to_le k (n div 256)"

fun from_le :: "bytes \<Rightarrow> nat" where
  "from_le [] = 0"
| "from_le (b # bs) = unat b + 256 * from_le bs"

lemma length_to_le [simp]: "length (to_le k n) = k"
  by (induction k arbitrary: n) simp_all

lemma to_le_Nil_iff [simp]: "to_le k n = [] \<longleftrightarrow> k = 0"
  by (metis length_0_conv length_to_le)

lemma from_le_to_le: "from_le (to_le k n) = n mod 256 ^ k"
proof (induction k arbitrary: n)
  case (Suc k)
  have "n mod 256 + 256 * (n div 256 mod 256 ^ k) = n mod (256 * 256 ^ k)"
    by (simp add: mod_mult2_eq)
  then show ?case using Suc [of "n div 256"] by (simp add: unat_of_nat)
qed simp

lemma from_le_to_le_id [simp]: "n < 256 ^ k \<Longrightarrow> from_le (to_le k n) = n"
  by (simp add: from_le_to_le)

end
