(* ===== verification/Stores.thy ===== *)
theory Stores
  imports CppStrings "HOL-Library.AList"
begin

text \<open>
  The interface \<open>c10d::Store\<close>: what an operation returns, the operations that the base class
  implements on top of the virtual ones (\<open>torch/csrc/distributed/c10d/Store.cpp\<close>), the contract
  of a key-value store as a locale, and what the base class operations do on every store that
  satisfies the contract.
\<close>

section \<open>Outcomes\<close>

text \<open>
  An operation is modelled by the section it executes under the lock of the store. It returns a
  value, throws, or \<open>Blocks\<close>: the caller waits for another worker and evaluates the operation
  again later, or its timeout expires.
\<close>

datatype 'a outcome = Returns 'a | Throws c10_error | Blocks

definition bindO :: "'s \<times> 'a outcome \<Rightarrow> ('s \<Rightarrow> 'a \<Rightarrow> 's \<times> 'b outcome) \<Rightarrow> 's \<times> 'b outcome" where
  "bindO m f = (case m of (s, Returns a) \<Rightarrow> f s a | (s, Throws e) \<Rightarrow> (s, Throws e) | (s, Blocks) \<Rightarrow> (s, Blocks))"

lemma bindO_simps [simp]:
  "bindO (s, Returns a) f = f s a"
  "bindO (s, Throws e) f = (s, Throws e)"
  "bindO (s, Blocks) f = (s, Blocks)"
  by (simp_all add: bindO_def)

lemma bindO_Returns_iff:
  "bindO m f = (t, Returns b) \<longleftrightarrow> (\<exists>s a. m = (s, Returns a) \<and> f s a = (t, Returns b))"
  by (cases m; cases "snd m") auto

section \<open>Operations of the base class\<close>

type_synonym 's set_op = "'s \<Rightarrow> string \<Rightarrow> bytes \<Rightarrow> 's \<times> unit outcome"
type_synonym 's cas_op = "'s \<Rightarrow> string \<Rightarrow> bytes \<Rightarrow> bytes \<Rightarrow> 's \<times> bytes outcome"
type_synonym 's get_op = "'s \<Rightarrow> string \<Rightarrow> 's \<times> bytes outcome"
type_synonym 's add_op = "'s \<Rightarrow> string \<Rightarrow> int \<Rightarrow> 's \<times> int outcome"
type_synonym 's keys_op = "'s \<Rightarrow> string list \<Rightarrow> 's \<times> bool outcome"
type_synonym 's wait_op = "'s \<Rightarrow> string list \<Rightarrow> 's \<times> unit outcome"
type_synonym 's delete_op = "'s \<Rightarrow> string \<Rightarrow> 's \<times> bool outcome"

definition store_set_str :: "'s set_op \<Rightarrow> 's \<Rightarrow> string \<Rightarrow> string \<Rightarrow> 's \<times> unit outcome" where
  "store_set_str setf s key v = setf s key (string_bytes v)"

definition store_compareSet_str :: "'s cas_op \<Rightarrow> 's \<Rightarrow> string \<Rightarrow> string \<Rightarrow> string \<Rightarrow> 's \<times> string outcome" where
  "store_compareSet_str cas s key cur new =
     bindO (cas s key (string_bytes cur) (string_bytes new)) (\<lambda>s' v. (s', Returns (bytes_string v)))"

definition store_get_to_str :: "'s get_op \<Rightarrow> 's \<Rightarrow> string \<Rightarrow> 's \<times> string outcome" where
  "store_get_to_str getf s key = bindO (getf s key) (\<lambda>s' v. (s', Returns (bytes_string v)))"

text \<open>
  The fallback of \<open>append\<close> is a compare-and-set loop. One iteration costs one unit of fuel and a
  loop that runs out of fuel is \<open>Blocks\<close>; without concurrent writers one iteration is enough
  (\<open>fallback_append\<close> below).
\<close>

fun append_loop :: "'s cas_op \<Rightarrow> nat \<Rightarrow> 's \<Rightarrow> string \<Rightarrow> bytes \<Rightarrow> bytes \<Rightarrow> bytes \<Rightarrow> 's \<times> unit outcome" where
  "append_loop cas fuel s key v current expected =
     (if current = expected then (s, Returns ())
      else case fuel of 0 \<Rightarrow> (s, Blocks)
        | Suc n \<Rightarrow> bindO (cas s key current (current @ v))
            (\<lambda>s' current'. append_loop cas n s' key v current' (current @ v)))"

declare append_loop.simps [simp del]

definition store_append :: "'s cas_op \<Rightarrow> nat \<Rightarrow> 's \<Rightarrow> string \<Rightarrow> bytes \<Rightarrow> 's \<times> unit outcome" where
  "store_append cas fuel s key v =
     bindO (cas s key [] v) (\<lambda>s' current. append_loop cas fuel s' key v current v)"

fun store_multiGet :: "'s get_op \<Rightarrow> 's \<Rightarrow> string list \<Rightarrow> 's \<times> bytes list outcome" where
  "store_multiGet getf s [] = (s, Returns [])"
| "store_multiGet getf s (k # ks) =
     bindO (getf s k) (\<lambda>s' v. bindO (store_multiGet getf s' ks) (\<lambda>s'' vs. (s'', Returns (v # vs))))"

text \<open>
  \<open>multiSet\<close> indexes \<open>values\<close> by the positions of \<open>keys\<close>; a missing value is an access past the
  end of the vector, which the model reports as an error.
\<close>

fun store_multiSet :: "'s set_op \<Rightarrow> 's \<Rightarrow> string list \<Rightarrow> bytes list \<Rightarrow> 's \<times> unit outcome" where
  "store_multiSet setf s [] vs = (s, Returns ())"
| "store_multiSet setf s (k # ks) [] = (s, Throws (StdOutOfRange ''values''))"
| "store_multiSet setf s (k # ks) (v # vs) = bindO (setf s k v) (\<lambda>s' _. store_multiSet setf s' ks vs)"

definition num_members_key :: "string \<Rightarrow> string" where
  "num_members_key key = key @ ''/num_members''"

definition last_member_key :: "string \<Rightarrow> string" where
  "last_member_key key = key @ ''/last_member''"

definition barrier_enter :: "'s add_op \<Rightarrow> 's set_op \<Rightarrow> 's \<Rightarrow> string \<Rightarrow> int \<Rightarrow> 's \<times> unit outcome" where
  "barrier_enter addf setf s key world_size =
     bindO (addf s (num_members_key key) 1)
       (\<lambda>s' idx. if idx = world_size then setf s' (last_member_key key) [byte_of_char CHR ''1''] else (s', Returns ()))"

definition store_barrier ::
    "'s add_op \<Rightarrow> 's set_op \<Rightarrow> 's wait_op \<Rightarrow> 's \<Rightarrow> string \<Rightarrow> int \<Rightarrow> 's \<times> unit outcome" where
  "store_barrier addf setf waitf s key world_size =
     bindO (barrier_enter addf setf s key world_size) (\<lambda>s' _. waitf s' [last_member_key key])"

lemma barrier_keys_differ [simp]:
  "num_members_key key \<noteq> last_member_key key" "last_member_key key \<noteq> num_members_key key"
  by (simp_all add: num_members_key_def last_member_key_def)

lemma length_delete_distinct:
  assumes "distinct (map fst m)"
  shows "length m - length (AList.delete k m) = (if map_of m k = None then 0 else 1)"
  using assms
proof (induction m)
  case (Cons p m)
  show ?case
  proof (cases "fst p = k")
    case True
    then have "AList.delete k m = m" using Cons.prems by (auto simp: delete_idem)
    then show ?thesis using True by (cases p) simp
  next
    case False
    have "length (AList.delete k m) \<le> length m" by (rule length_delete_le)
    then show ?thesis using False Cons by (cases p) (auto simp: Suc_diff_le)
  qed
qed simp

section \<open>The contract\<close>

text \<open>What \<open>compareSet\<close> promises, as a function of the value before the call.\<close>

definition cas_matches :: "bytes option \<Rightarrow> bytes \<Rightarrow> bool" where
  "cas_matches old expected = (case old of None \<Rightarrow> expected = [] | Some v \<Rightarrow> v = expected)"

definition cas_result :: "bytes option \<Rightarrow> bytes \<Rightarrow> bytes \<Rightarrow> bytes" where
  "cas_result old expected desired =
     (if cas_matches old expected then desired else case old of None \<Rightarrow> expected | Some v \<Rightarrow> v)"

text \<open>
  \<open>store_upd invar lookup queue s s' m\<close>: the operation that led from \<open>s\<close> to \<open>s'\<close> kept the invariant,
  left the keys and values \<open>m\<close>, and touched no queue.
\<close>

definition store_upd ::
    "('s \<Rightarrow> bool) \<Rightarrow> ('s \<Rightarrow> string \<Rightarrow> bytes option) \<Rightarrow> ('s \<Rightarrow> string \<Rightarrow> bytes list) \<Rightarrow>
     's \<Rightarrow> 's \<Rightarrow> (string \<Rightarrow> bytes option) \<Rightarrow> bool" where
  "store_upd invar lookup queue s s' m \<longleftrightarrow> invar s' \<and> lookup s' = m \<and> queue s' = queue s"

locale kv_store =
  fixes invar :: "'s \<Rightarrow> bool"
    and lookup :: "'s \<Rightarrow> string \<Rightarrow> bytes option"
    and queue :: "'s \<Rightarrow> string \<Rightarrow> bytes list"
    and ok_key :: "string \<Rightarrow> bool"
    and ok_val :: "bytes \<Rightarrow> bool"
    and setf :: "'s set_op"
    and casf :: "'s cas_op"
    and getf :: "'s get_op"
    and addf :: "'s add_op"
    and checkf :: "'s keys_op"
    and waitf :: "'s wait_op"
    and deletef :: "'s delete_op"
  assumes set_law: "invar s \<Longrightarrow> ok_key k \<Longrightarrow> ok_val v \<Longrightarrow>
      \<exists>s'. setf s k v = (s', Returns ()) \<and> store_upd invar lookup queue s s' ((lookup s)(k \<mapsto> v))"
    and cas_law: "invar s \<Longrightarrow> ok_key k \<Longrightarrow> ok_val e \<Longrightarrow> ok_val d \<Longrightarrow>
      \<exists>s'. casf s k e d = (s', Returns (cas_result (lookup s k) e d)) \<and>
        store_upd invar lookup queue s s'
          (if cas_matches (lookup s k) e then (lookup s)(k \<mapsto> d) else lookup s)"
    and get_law: "invar s \<Longrightarrow> ok_key k \<Longrightarrow>
      \<exists>s'. getf s k = (s', case lookup s k of None \<Rightarrow> Blocks | Some v \<Rightarrow> Returns v) \<and>
        store_upd invar lookup queue s s' (lookup s)"
    and add_new_law: "invar s \<Longrightarrow> ok_key k \<Longrightarrow> in_s64 i \<Longrightarrow> lookup s k = None \<Longrightarrow>
      \<exists>s'. addf s k i = (s', Returns i) \<and>
        store_upd invar lookup queue s s' ((lookup s)(k \<mapsto> string_bytes (to_string i)))"
    and add_law: "invar s \<Longrightarrow> ok_key k \<Longrightarrow> in_s64 i \<Longrightarrow> lookup s k = Some v \<Longrightarrow> stoll (bytes_string v) = Inr n \<Longrightarrow>
      \<exists>s'. addf s k i = (s', Returns (s64 (i + n))) \<and>
        store_upd invar lookup queue s s' ((lookup s)(k \<mapsto> string_bytes (to_string (s64 (i + n)))))"
    and check_law: "invar s \<Longrightarrow> length ks < 2 ^ 64 \<Longrightarrow> \<forall>k \<in> set ks. ok_key k \<Longrightarrow>
      \<exists>s'. checkf s ks = (s', Returns (\<forall>k \<in> set ks. lookup s k \<noteq> None \<or> queue s k \<noteq> [])) \<and>
        store_upd invar lookup queue s s' (lookup s)"
    and wait_law: "invar s \<Longrightarrow> length ks < 2 ^ 64 \<Longrightarrow> \<forall>k \<in> set ks. ok_key k \<Longrightarrow>
      \<exists>s'. waitf s ks = (s', if \<forall>k \<in> set ks. lookup s k \<noteq> None \<or> queue s k \<noteq> [] then Returns () else Blocks) \<and>
        store_upd invar lookup queue s s' (lookup s)"
    and delete_law: "invar s \<Longrightarrow> ok_key k \<Longrightarrow>
      \<exists>s' b. deletef s k = (s', Returns b) \<and> store_upd invar lookup queue s s' ((lookup s)(k := None))"

text \<open>A store whose \<open>deleteKey\<close> reports whether the key existed.\<close>

locale kv_store_exact = kv_store +
  assumes delete_reports: "invar s \<Longrightarrow> ok_key k \<Longrightarrow> snd (deletef s k) = Returns (lookup s k \<noteq> None)"

context kv_store
begin

lemma fallback_append:
  assumes "invar s" "ok_key k" "ok_val []" "ok_val v"
    "\<And>old. lookup s k = Some old \<Longrightarrow> ok_val old \<and> ok_val (old @ v)"
  shows "\<exists>s'. store_append casf (Suc n) s k v = (s', Returns ()) \<and>
      store_upd invar lookup queue s s' (case lookup s k of
          None \<Rightarrow> (lookup s)(k \<mapsto> v)
        | Some old \<Rightarrow> if old = v \<and> v \<noteq> [] then lookup s else (lookup s)(k \<mapsto> old @ v))"
proof -
  let ?m = "if cas_matches (lookup s k) [] then (lookup s)(k \<mapsto> v) else lookup s"
  obtain s1 where s1: "casf s k [] v = (s1, Returns (cas_result (lookup s k) [] v))"
      "store_upd invar lookup queue s s1 ?m"
    using cas_law [OF assms(1-4)] by blast
  show ?thesis
  proof (cases "cas_matches (lookup s k) [] \<or> lookup s k = Some v")
    case True
    then have "store_append casf (Suc n) s k v = (s1, Returns ())"
      using s1(1) by (auto simp: store_append_def append_loop.simps cas_result_def)
    then show ?thesis using s1(2) True
      by (auto simp: cas_matches_def fun_upd_idem split: option.splits if_splits)
  next
    case False
    then obtain old where old: "lookup s k = Some old" "old \<noteq> []" "old \<noteq> v"
      by (auto simp: cas_matches_def split: option.splits)
    have i1: "invar s1" "lookup s1 = lookup s" "queue s1 = queue s"
      using s1(2) old by (simp_all add: store_upd_def cas_matches_def)
    obtain s2 where s2: "casf s1 k old (old @ v) = (s2, Returns (old @ v))"
        "store_upd invar lookup queue s1 s2 ((lookup s)(k \<mapsto> old @ v))"
      using cas_law [OF i1(1) assms(2), of old "old @ v"] assms(5) [OF old(1)] old i1
      by (auto simp: cas_matches_def cas_result_def)
    have "store_append casf (Suc n) s k v = (s2, Returns ())"
      using s1(1) s2(1) old
      by (simp add: store_append_def cas_result_def cas_matches_def append_loop.simps)
    then show ?thesis using s2(2) old i1 by (auto simp: store_upd_def)
  qed
qed

lemma fallback_multiSet:
  assumes "invar s" "length vs = length ks" "\<forall>k \<in> set ks. ok_key k" "\<forall>v \<in> set vs. ok_val v"
  shows "\<exists>s'. store_multiSet setf s ks vs = (s', Returns ()) \<and>
      store_upd invar lookup queue s s' (lookup s ++ map_of (rev (zip ks vs)))"
  using assms(2) assms(1,3,4)
proof (induction vs ks arbitrary: s rule: list_induct2)
  case Nil
  then show ?case by (simp add: store_upd_def)
next
  case (Cons v vs k ks)
  obtain s1 where s1: "setf s k v = (s1, Returns ())"
      "store_upd invar lookup queue s s1 ((lookup s)(k \<mapsto> v))"
    using set_law [of s k v] Cons.prems by auto
  have "invar s1" using s1(2) by (simp add: store_upd_def)
  then obtain s2 where "store_multiSet setf s1 ks vs = (s2, Returns ())"
      "store_upd invar lookup queue s1 s2 (lookup s1 ++ map_of (rev (zip ks vs)))"
    using Cons.IH [of s1] Cons.prems by auto
  then show ?case using s1 by (auto simp: store_upd_def)
qed

lemma fallback_multiGet:
  assumes "invar s" "\<forall>k \<in> set ks. ok_key k \<and> lookup s k \<noteq> None"
  shows "\<exists>s'. store_multiGet getf s ks = (s', Returns (map (\<lambda>k. the (lookup s k)) ks)) \<and>
      store_upd invar lookup queue s s' (lookup s)"
  using assms
proof (induction ks arbitrary: s)
  case Nil
  then show ?case by (simp add: store_upd_def)
next
  case (Cons k ks)
  obtain s1 where s1: "getf s k = (s1, Returns (the (lookup s k)))"
      "store_upd invar lookup queue s s1 (lookup s)"
    using get_law [of s k] Cons.prems by (auto split: option.splits)
  then obtain s2 where "store_multiGet getf s1 ks = (s2, Returns (map (\<lambda>k. the (lookup s k)) ks))"
      "store_upd invar lookup queue s1 s2 (lookup s)"
    using Cons.IH [of s1] Cons.prems by (auto simp: store_upd_def)
  then show ?case using s1 by (auto simp: store_upd_def)
qed

end

text \<open>
  The barrier, for a number of workers that enter one after the other: \<open>barrier_run n\<close> is the
  state after \<open>n\<close> of them have executed \<open>add\<close> and, for the last, \<open>set\<close>.
\<close>

fun barrier_run :: "'s add_op \<Rightarrow> 's set_op \<Rightarrow> string \<Rightarrow> int \<Rightarrow> nat \<Rightarrow> 's \<Rightarrow> 's \<times> unit outcome" where
  "barrier_run addf setf key world 0 s = (s, Returns ())"
| "barrier_run addf setf key world (Suc n) s =
     bindO (barrier_run addf setf key world n s) (\<lambda>s' _. barrier_enter addf setf s' key world)"

context kv_store
begin

definition barrier_state :: "string \<Rightarrow> nat \<Rightarrow> nat \<Rightarrow> 's \<Rightarrow> 's \<Rightarrow> bool" where
  "barrier_state key world n s s' \<longleftrightarrow> invar s' \<and> queue s' = queue s \<and>
     lookup s' (num_members_key key) = (if n = 0 then None else Some (string_bytes (to_string (int n)))) \<and>
     (lookup s' (last_member_key key) \<noteq> None \<longleftrightarrow> world \<le> n) \<and>
     (\<forall>k. k \<noteq> num_members_key key \<longrightarrow> k \<noteq> last_member_key key \<longrightarrow> lookup s' k = lookup s k)"

lemma barrier_enter_step:
  assumes keys: "ok_key (num_members_key key)" "ok_key (last_member_key key)"
      "ok_val [byte_of_char CHR ''1'']"
    and st: "barrier_state key world n s s1" and b: "0 < world" "int (Suc n) < 2 ^ 63"
  shows "\<exists>s2. barrier_enter addf setf s1 key (int world) = (s2, Returns ()) \<and>
      barrier_state key world (Suc n) s s2"
proof -
  let ?nk = "num_members_key key" and ?lk = "last_member_key key"
  let ?v = "string_bytes (to_string (int (Suc n)))"
  have i: "invar s1" using st by (simp add: barrier_state_def)
  have one: "in_s64 1" by (simp add: in_s64_def)
  have rng: "in_s64 (int n)" "in_s64 (int (Suc n))" using b by (auto simp: in_s64_def)
  have "\<exists>s'. addf s1 ?nk 1 = (s', Returns (int (Suc n))) \<and>
      store_upd invar lookup queue s1 s' ((lookup s1)(?nk \<mapsto> ?v))"
  proof (cases "n = 0")
    case True
    then show ?thesis using add_new_law [OF i keys(1) one] st by (simp add: barrier_state_def)
  next
    case False
    then have l: "lookup s1 ?nk = Some (string_bytes (to_string (int n)))"
      using st by (simp add: barrier_state_def)
    have "s64 (1 + int n) = int (Suc n)" using rng(2) by (simp add: add.commute)
    then show ?thesis using add_law [OF i keys(1) one l, of "int n"] rng(1) by simp
  qed
  then obtain s' where s': "addf s1 ?nk 1 = (s', Returns (int (Suc n)))"
      "store_upd invar lookup queue s1 s' ((lookup s1)(?nk \<mapsto> ?v))" by blast
  show ?thesis
  proof (cases "Suc n = world")
    case True
    obtain s2 where "setf s' ?lk [byte_of_char CHR ''1''] = (s2, Returns ())"
        "store_upd invar lookup queue s' s2 ((lookup s')(?lk \<mapsto> [byte_of_char CHR ''1'']))"
      using set_law [OF _ keys(2,3), of s'] s'(2) by (auto simp: store_upd_def)
    then show ?thesis using s' True st
      by (auto simp: barrier_enter_def store_upd_def barrier_state_def)
  next
    case False
    then have "(int (Suc n) = int world) = False" by (simp only: of_nat_eq_iff)
    then have "barrier_enter addf setf s1 key (int world) = (s', Returns ())"
      using s'(1) unfolding barrier_enter_def by (simp del: of_nat_Suc)
    moreover have "barrier_state key world (Suc n) s s'"
      using s'(2) False st by (auto simp: store_upd_def barrier_state_def)
    ultimately show ?thesis by blast
  qed
qed

lemma barrier_run_state:
  assumes keys: "ok_key (num_members_key key)" "ok_key (last_member_key key)"
      "ok_val [byte_of_char CHR ''1'']"
    and st: "invar s" "lookup s (num_members_key key) = None" "lookup s (last_member_key key) = None"
    and b: "0 < world" "int n < 2 ^ 63"
  shows "\<exists>s'. barrier_run addf setf key (int world) n s = (s', Returns ()) \<and> barrier_state key world n s s'"
  using b(2)
proof (induction n)
  case 0
  then show ?case using st b by (simp add: barrier_state_def)
next
  case (Suc n)
  then obtain s1 where "barrier_run addf setf key (int world) n s = (s1, Returns ())"
      "barrier_state key world n s s1" by auto
  then show ?case using barrier_enter_step [OF keys _ b(1), of n s s1] Suc.prems by auto
qed

text \<open>A worker is released exactly when all \<open>world\<close> workers have entered.\<close>

lemma barrier_releases:
  assumes keys: "ok_key (num_members_key key)" "ok_key (last_member_key key)"
      "ok_val [byte_of_char CHR ''1'']"
    and st: "invar s" "lookup s (num_members_key key) = None" "lookup s (last_member_key key) = None"
      "queue s (last_member_key key) = []"
    and b: "0 < world" "int n < 2 ^ 63"
  shows "snd (bindO (barrier_run addf setf key (int world) n s) (\<lambda>s' _. waitf s' [last_member_key key]))
      = (if world \<le> n then Returns () else Blocks)"
proof -
  obtain s' where s': "barrier_run addf setf key (int world) n s = (s', Returns ())"
      "barrier_state key world n s s'" using barrier_run_state [OF keys st(1-3) b] by blast
  obtain s'' where "waitf s' [last_member_key key] =
      (s'', if lookup s' (last_member_key key) \<noteq> None then Returns () else Blocks)"
    using wait_law [of s' "[last_member_key key]"] keys(2) s'(2) st(4) by (auto simp: barrier_state_def)
  then show ?thesis using s' by (auto simp: barrier_state_def)
qed

end

section \<open>Refinement of a map\<close>

text \<open>
  The abstract store is a map. \<open>kv_spec\<close> is what each operation does to it and returns; \<open>kv_exec\<close>
  runs the same operation on a concrete store; \<open>kv_ok\<close> excludes the keys and values outside the
  store's limits and \<open>add\<close> on a value that is not a number.
\<close>

datatype kv_op =
    KSet string bytes
  | KCas string bytes bytes
  | KGet string
  | KAdd string int
  | KCheck "string list"
  | KWait "string list"
  | KDelete string

datatype kv_ret = RUnit | RBytes bytes | RInt int | RBool bool

definition map_outcome :: "('a \<Rightarrow> 'b) \<Rightarrow> 's \<times> 'a outcome \<Rightarrow> 's \<times> 'b outcome" where
  "map_outcome f m = bindO m (\<lambda>s a. (s, Returns (f a)))"

lemma map_outcome_simps [simp]:
  "map_outcome f (s, Returns a) = (s, Returns (f a))"
  "map_outcome f (s, Throws e) = (s, Throws e)"
  "map_outcome f (s, Blocks) = (s, Blocks)"
  by (simp_all add: map_outcome_def)

fun kv_exec ::
    "'s set_op \<Rightarrow> 's cas_op \<Rightarrow> 's get_op \<Rightarrow> 's add_op \<Rightarrow> 's keys_op \<Rightarrow> 's wait_op \<Rightarrow> 's delete_op \<Rightarrow>
     's \<Rightarrow> kv_op \<Rightarrow> 's \<times> kv_ret outcome" where
  "kv_exec st ca ge ad ch wa de s (KSet k v) = map_outcome (\<lambda>_. RUnit) (st s k v)"
| "kv_exec st ca ge ad ch wa de s (KCas k e d) = map_outcome RBytes (ca s k e d)"
| "kv_exec st ca ge ad ch wa de s (KGet k) = map_outcome RBytes (ge s k)"
| "kv_exec st ca ge ad ch wa de s (KAdd k i) = map_outcome RInt (ad s k i)"
| "kv_exec st ca ge ad ch wa de s (KCheck ks) = map_outcome RBool (ch s ks)"
| "kv_exec st ca ge ad ch wa de s (KWait ks) = map_outcome (\<lambda>_. RUnit) (wa s ks)"
| "kv_exec st ca ge ad ch wa de s (KDelete k) = map_outcome RBool (de s k)"

definition stored_int :: "bytes option \<Rightarrow> int result" where
  "stored_int old = (case old of None \<Rightarrow> Inr 0 | Some v \<Rightarrow> stoll (bytes_string v))"

fun kv_spec ::
    "(string \<Rightarrow> bytes list) \<Rightarrow> (string \<Rightarrow> bytes option) \<Rightarrow> kv_op \<Rightarrow> (string \<Rightarrow> bytes option) \<times> kv_ret outcome" where
  "kv_spec q m (KSet k v) = (m(k \<mapsto> v), Returns RUnit)"
| "kv_spec q m (KCas k e d) =
     (if cas_matches (m k) e then m(k \<mapsto> d) else m, Returns (RBytes (cas_result (m k) e d)))"
| "kv_spec q m (KGet k) = (m, case m k of None \<Rightarrow> Blocks | Some v \<Rightarrow> Returns (RBytes v))"
| "kv_spec q m (KAdd k i) = (case stored_int (m k) of
      Inl e \<Rightarrow> (m, Throws e)
    | Inr n \<Rightarrow> (m(k \<mapsto> string_bytes (to_string (s64 (i + n)))), Returns (RInt (s64 (i + n)))))"
| "kv_spec q m (KCheck ks) = (m, Returns (RBool (\<forall>k \<in> set ks. m k \<noteq> None \<or> q k \<noteq> [])))"
| "kv_spec q m (KWait ks) = (m, if \<forall>k \<in> set ks. m k \<noteq> None \<or> q k \<noteq> [] then Returns RUnit else Blocks)"
| "kv_spec q m (KDelete k) = (m(k := None), Returns (RBool (m k \<noteq> None)))"

fun kv_ok :: "(string \<Rightarrow> bool) \<Rightarrow> (bytes \<Rightarrow> bool) \<Rightarrow> (string \<Rightarrow> bytes option) \<Rightarrow> kv_op \<Rightarrow> bool" where
  "kv_ok okk okv m (KSet k v) \<longleftrightarrow> okk k \<and> okv v"
| "kv_ok okk okv m (KCas k e d) \<longleftrightarrow> okk k \<and> okv e \<and> okv d"
| "kv_ok okk okv m (KGet k) \<longleftrightarrow> okk k"
| "kv_ok okk okv m (KAdd k i) \<longleftrightarrow> okk k \<and> in_s64 i \<and> (\<exists>n. stored_int (m k) = Inr n)"
| "kv_ok okk okv m (KCheck ks) \<longleftrightarrow> length ks < 2 ^ 64 \<and> (\<forall>k \<in> set ks. okk k)"
| "kv_ok okk okv m (KWait ks) \<longleftrightarrow> length ks < 2 ^ 64 \<and> (\<forall>k \<in> set ks. okk k)"
| "kv_ok okk okv m (KDelete k) \<longleftrightarrow> okk k"

fun kv_run :: "('s \<Rightarrow> kv_op \<Rightarrow> 's \<times> kv_ret outcome) \<Rightarrow> 's \<Rightarrow> kv_op list \<Rightarrow> 's \<times> kv_ret outcome list" where
  "kv_run ex s [] = (s, [])"
| "kv_run ex s (op # ops) = (case ex s op of (s', r) \<Rightarrow> case kv_run ex s' ops of (s'', rs) \<Rightarrow> (s'', r # rs))"

fun kv_run_ok :: "(string \<Rightarrow> bool) \<Rightarrow> (bytes \<Rightarrow> bool) \<Rightarrow> (string \<Rightarrow> bytes list) \<Rightarrow>
    (string \<Rightarrow> bytes option) \<Rightarrow> kv_op list \<Rightarrow> bool" where
  "kv_run_ok okk okv q m [] \<longleftrightarrow> True"
| "kv_run_ok okk okv q m (op # ops) \<longleftrightarrow> kv_ok okk okv m op \<and> kv_run_ok okk okv q (fst (kv_spec q m op)) ops"

fun is_delete :: "kv_op \<Rightarrow> bool" where
  "is_delete (KDelete k) = True"
| "is_delete _ = False"

text \<open>The answers of two runs agree, up to the answers of \<open>deleteKey\<close>.\<close>

definition same_answers :: "kv_op list \<Rightarrow> kv_ret outcome list \<Rightarrow> kv_ret outcome list \<Rightarrow> bool" where
  "same_answers ops rs rs' \<longleftrightarrow> length rs = length ops \<and> length rs' = length ops \<and>
     (\<forall>i < length ops. is_delete (ops ! i) \<or> rs ! i = rs' ! i)"

lemma same_answers_eq: "same_answers ops rs rs' \<Longrightarrow> \<forall>op \<in> set ops. \<not> is_delete op \<Longrightarrow> rs = rs'"
  by (rule nth_equalityI) (auto simp: same_answers_def)

context kv_store
begin

abbreviation (input) exec :: "'s \<Rightarrow> kv_op \<Rightarrow> 's \<times> kv_ret outcome" where
  "exec \<equiv> kv_exec setf casf getf addf checkf waitf deletef"

lemma exec_refines:
  assumes "invar s" "kv_ok ok_key ok_val (lookup s) op"
  shows "\<exists>s' r. exec s op = (s', r) \<and>
      store_upd invar lookup queue s s' (fst (kv_spec (queue s) (lookup s) op)) \<and>
      (is_delete op \<or> r = snd (kv_spec (queue s) (lookup s) op))"
proof (cases op)
  case (KSet k v)
  then show ?thesis using set_law [of s k v] assms by auto
next
  case (KCas k e d)
  then show ?thesis using cas_law [of s k e d] assms by auto
next
  case (KGet k)
  then show ?thesis using get_law [of s k] assms by (auto split: option.splits)
next
  case (KAdd k i)
  show ?thesis
  proof (cases "lookup s k")
    case None
    then show ?thesis using KAdd add_new_law [of s k i] assms by (auto simp: stored_int_def)
  next
    case (Some v)
    then show ?thesis using KAdd add_law [of s k i v] assms by (fastforce simp: stored_int_def)
  qed
next
  case (KCheck ks)
  then show ?thesis using check_law [of s ks] assms by auto
next
  case (KWait ks)
  then show ?thesis using wait_law [of s ks] assms by (auto split: if_splits)
next
  case (KDelete k)
  then show ?thesis using delete_law [of s k] assms by auto
qed

lemma run_refines:
  assumes "invar s" "kv_run_ok ok_key ok_val (queue s) (lookup s) ops"
  shows "\<exists>s' rs. kv_run exec s ops = (s', rs) \<and> invar s' \<and> queue s' = queue s \<and>
      lookup s' = fst (kv_run (kv_spec (queue s)) (lookup s) ops) \<and>
      same_answers ops rs (snd (kv_run (kv_spec (queue s)) (lookup s) ops))"
  using assms
proof (induction ops arbitrary: s)
  case Nil
  then show ?case by (simp add: same_answers_def)
next
  case (Cons op ops)
  obtain s1 r where s1: "exec s op = (s1, r)"
      "store_upd invar lookup queue s s1 (fst (kv_spec (queue s) (lookup s) op))"
      "is_delete op \<or> r = snd (kv_spec (queue s) (lookup s) op)"
    using exec_refines [of s op] Cons.prems by auto
  have q: "queue s1 = queue s" "lookup s1 = fst (kv_spec (queue s) (lookup s) op)" "invar s1"
    using s1(2) by (simp_all add: store_upd_def)
  obtain s2 rs where s2: "kv_run exec s1 ops = (s2, rs)" "invar s2" "queue s2 = queue s1"
      "lookup s2 = fst (kv_run (kv_spec (queue s1)) (lookup s1) ops)"
      "same_answers ops rs (snd (kv_run (kv_spec (queue s1)) (lookup s1) ops))"
    using Cons.IH [of s1] Cons.prems q by auto
  have "same_answers (op # ops) (r # rs)
      (snd (kv_spec (queue s) (lookup s) op) # snd (kv_run (kv_spec (queue s1)) (lookup s1) ops))"
    using s2(5) s1(3) by (auto simp: same_answers_def nth_Cons split: nat.splits)
  then show ?case using s1(1) s2 q by (auto simp: case_prod_beta)
qed

end

context kv_store_exact
begin

lemma exec_refines_exact:
  assumes "invar s" "kv_ok ok_key ok_val (lookup s) op"
  shows "\<exists>s'. exec s op = (s', snd (kv_spec (queue s) (lookup s) op)) \<and>
      store_upd invar lookup queue s s' (fst (kv_spec (queue s) (lookup s) op))"
proof (cases "is_delete op")
  case True
  then obtain k where "op = KDelete k" by (cases op) auto
  then show ?thesis using delete_law [of s k] delete_reports [of s k] assms by auto
next
  case False
  then show ?thesis using exec_refines [OF assms] by auto
qed

lemma run_refines_exact:
  assumes "invar s" "kv_run_ok ok_key ok_val (queue s) (lookup s) ops"
  shows "\<exists>s'. kv_run exec s ops = (s', snd (kv_run (kv_spec (queue s)) (lookup s) ops)) \<and>
      store_upd invar lookup queue s s' (fst (kv_run (kv_spec (queue s)) (lookup s) ops))"
  using assms
proof (induction ops arbitrary: s)
  case Nil
  then show ?case by (simp add: store_upd_def)
next
  case (Cons op ops)
  obtain s1 where s1: "exec s op = (s1, snd (kv_spec (queue s) (lookup s) op))"
      "store_upd invar lookup queue s s1 (fst (kv_spec (queue s) (lookup s) op))"
    using exec_refines_exact [of s op] Cons.prems by auto
  have q: "queue s1 = queue s" "lookup s1 = fst (kv_spec (queue s) (lookup s) op)" "invar s1"
    using s1(2) by (simp_all add: store_upd_def)
  obtain s2 where "kv_run exec s1 ops = (s2, snd (kv_run (kv_spec (queue s1)) (lookup s1) ops))"
      "store_upd invar lookup queue s1 s2 (fst (kv_run (kv_spec (queue s1)) (lookup s1) ops))"
    using Cons.IH [of s1] Cons.prems q by auto
  then show ?case using s1(1) q by (auto simp: case_prod_beta store_upd_def)
qed

end

section \<open>Several clients\<close>

text \<open>
  Operations of several clients of the same store, in the order in which the store executes them.
\<close>

fun multi_run :: "(nat \<Rightarrow> 's \<Rightarrow> kv_op \<Rightarrow> 's \<times> kv_ret outcome) \<Rightarrow> 's \<Rightarrow> (nat \<times> kv_op) list \<Rightarrow> 's \<times> kv_ret outcome list" where
  "multi_run ex s [] = (s, [])"
| "multi_run ex s ((w, op) # ops) = (case ex w s op of (s', r) \<Rightarrow>
     case multi_run ex s' ops of (s'', rs) \<Rightarrow> (s'', r # rs))"

locale shared_store =
  fixes invar :: "'s \<Rightarrow> bool"
    and lookup :: "'s \<Rightarrow> string \<Rightarrow> bytes option"
    and ok_key :: "string \<Rightarrow> bool"
    and ok_val :: "bytes \<Rightarrow> bool"
    and exec :: "nat \<Rightarrow> 's \<Rightarrow> kv_op \<Rightarrow> 's \<times> kv_ret outcome"
  assumes exec_law: "invar s \<Longrightarrow> kv_ok ok_key ok_val (lookup s) op \<Longrightarrow>
      \<exists>s' r. exec w s op = (s', r) \<and> invar s' \<and> lookup s' = fst (kv_spec (\<lambda>_. []) (lookup s) op) \<and>
        (is_delete op \<or> r = snd (kv_spec (\<lambda>_. []) (lookup s) op))"
begin

lemma multi_run_refines:
  assumes "invar s" "kv_run_ok ok_key ok_val (\<lambda>_. []) (lookup s) (map snd ops)"
  shows "\<exists>s' rs. multi_run exec s ops = (s', rs) \<and> invar s' \<and>
      lookup s' = fst (kv_run (kv_spec (\<lambda>_. [])) (lookup s) (map snd ops)) \<and>
      same_answers (map snd ops) rs (snd (kv_run (kv_spec (\<lambda>_. [])) (lookup s) (map snd ops)))"
  using assms
proof (induction ops arbitrary: s)
  case Nil
  then show ?case by (simp add: same_answers_def)
next
  case (Cons p ops)
  obtain w op where p: "p = (w, op)" by fastforce
  let ?q = "\<lambda>_ :: string. [] :: bytes list"
  obtain s1 r where s1: "exec w s op = (s1, r)" "invar s1"
      "lookup s1 = fst (kv_spec ?q (lookup s) op)" "is_delete op \<or> r = snd (kv_spec ?q (lookup s) op)"
    using exec_law [of s op w] Cons.prems p by auto
  obtain s2 rs where s2: "multi_run exec s1 ops = (s2, rs)" "invar s2"
      "lookup s2 = fst (kv_run (kv_spec ?q) (lookup s1) (map snd ops))"
      "same_answers (map snd ops) rs (snd (kv_run (kv_spec ?q) (lookup s1) (map snd ops)))"
    using Cons.IH [OF s1(2)] Cons.prems p s1(3) by auto
  have "same_answers (op # map snd ops) (r # rs)
      (snd (kv_spec ?q (lookup s) op) # snd (kv_run (kv_spec ?q) (lookup s1) (map snd ops)))"
    using s2(4) s1(4) by (auto simp: same_answers_def nth_Cons split: nat.splits)
  then show ?case using p s1 s2 by (auto simp: case_prod_beta)
qed

end

end
