(* ===== verification/HashStore.thy ===== *)
theory HashStore
  imports Stores
begin

text \<open>
  \<open>torch/csrc/distributed/c10d/HashStore.cpp\<close>: the in-process store. The two hash tables are
  association lists with distinct keys (the iteration order of \<open>unordered_map\<close> is unspecified and
  no statement depends on it); \<open>hs_signal\<close> records the notification that a critical section
  issues on the condition variable \<open>cv_\<close>.
\<close>

datatype notification = NotifyNone | NotifyOne | NotifyAll

record hash_store =
  hs_map :: "(string \<times> bytes) list"
  hs_queues :: "(string \<times> bytes list) list"
  hs_signal :: notification

definition hash_empty :: hash_store where
  "hash_empty = \<lparr> hs_map = [], hs_queues = [], hs_signal = NotifyNone \<rparr>"

definition put :: "hash_store \<Rightarrow> string \<Rightarrow> bytes \<Rightarrow> hash_store" where
  "put s key v = s\<lparr> hs_map := AList.update key v (hs_map s) \<rparr>"

definition signal :: "notification \<Rightarrow> hash_store \<Rightarrow> hash_store" where
  "signal n s = s\<lparr> hs_signal := n \<rparr>"

definition hash_set :: "hash_store \<Rightarrow> string \<Rightarrow> bytes \<Rightarrow> hash_store \<times> unit outcome" where
  "hash_set s key data = (signal NotifyAll (put s key data), Returns ())"

definition hash_compareSet :: "hash_store \<Rightarrow> string \<Rightarrow> bytes \<Rightarrow> bytes \<Rightarrow> hash_store \<times> bytes outcome" where
  "hash_compareSet s key expectedValue desiredValue =
     (let it = map_of (hs_map s) key in
      if (it = None \<and> expectedValue = []) \<or> (it \<noteq> None \<and> the it = expectedValue)
      then (signal NotifyAll (put s key desiredValue), Returns desiredValue)
      else if it = None then (signal NotifyNone s, Returns expectedValue)
      else (signal NotifyNone s, Returns (the it)))"

definition hash_get :: "hash_store \<Rightarrow> string \<Rightarrow> hash_store \<times> bytes outcome" where
  "hash_get s key = (signal NotifyNone s,
     case map_of (hs_map s) key of Some v \<Rightarrow> Returns v | None \<Rightarrow> Blocks)"

definition hash_queue :: "hash_store \<Rightarrow> string \<Rightarrow> bytes list" where
  "hash_queue s key = (case map_of (hs_queues s) key of None \<Rightarrow> [] | Some q \<Rightarrow> q)"

fun checkLocked :: "hash_store \<Rightarrow> string list \<Rightarrow> bool" where
  "checkLocked s [] = True"
| "checkLocked s (key # keys) =
     (let foundKV = (map_of (hs_map s) key \<noteq> None);
          foundQueue = (map_of (hs_queues s) key \<noteq> None \<and> hash_queue s key \<noteq> [])
      in if \<not> foundKV \<and> \<not> foundQueue then False else checkLocked s keys)"

definition hash_check :: "hash_store \<Rightarrow> string list \<Rightarrow> hash_store \<times> bool outcome" where
  "hash_check s keys = (signal NotifyNone s, Returns (checkLocked s keys))"

definition waitLocked :: "hash_store \<Rightarrow> string list \<Rightarrow> hash_store \<times> unit outcome" where
  "waitLocked s keys = (signal NotifyNone s, if checkLocked s keys then Returns () else Blocks)"

definition hash_wait :: "hash_store \<Rightarrow> string list \<Rightarrow> hash_store \<times> unit outcome" where
  "hash_wait s keys = waitLocked s keys"

text \<open>\<open>map_[key]\<close> inserts an empty value when the key is missing.\<close>

definition subscript :: "hash_store \<Rightarrow> string \<Rightarrow> hash_store \<times> bytes" where
  "subscript s key = (case map_of (hs_map s) key of Some v \<Rightarrow> (s, v) | None \<Rightarrow> (put s key [], []))"

definition hash_add :: "hash_store \<Rightarrow> string \<Rightarrow> int \<Rightarrow> hash_store \<times> int outcome" where
  "hash_add s key i = (case subscript (signal NotifyNone s) key of (s1, v) \<Rightarrow>
     (case (if v = [] then Inr i else bindE (stoll (bytes_string v)) (\<lambda>n. Inr (s64 (i + n)))) of
        Inl e \<Rightarrow> (s1, Throws e)
      | Inr ti \<Rightarrow> (put s1 key (string_bytes (to_string ti)), Returns ti)))"

definition hash_getNumKeys :: "hash_store \<Rightarrow> hash_store \<times> int outcome" where
  "hash_getNumKeys s = (signal NotifyNone s, Returns (int (length (hs_map s))))"

definition hash_deleteKey :: "hash_store \<Rightarrow> string \<Rightarrow> hash_store \<times> bool outcome" where
  "hash_deleteKey s key =
     (let m = AList.delete key (hs_map s); numDeleted = length (hs_map s) - length m
      in (signal NotifyNone (s\<lparr> hs_map := m \<rparr>), Returns (numDeleted = 1)))"

definition hash_append :: "hash_store \<Rightarrow> string \<Rightarrow> bytes \<Rightarrow> hash_store \<times> unit outcome" where
  "hash_append s key v = (signal NotifyAll (case map_of (hs_map s) key of
       None \<Rightarrow> put s key v
     | Some old \<Rightarrow> put s key (old @ v)), Returns ())"

fun hash_multiGet :: "hash_store \<Rightarrow> string list \<Rightarrow> hash_store \<times> bytes list outcome" where
  "hash_multiGet s [] = (signal NotifyNone s, Returns [])"
| "hash_multiGet s (key # keys) = (case map_of (hs_map s) key of
      None \<Rightarrow> (signal NotifyNone s, Blocks)
    | Some v \<Rightarrow> bindO (hash_multiGet s keys) (\<lambda>s' res. (s', Returns (v # res))))"

fun hash_multiSet_loop :: "hash_store \<Rightarrow> string list \<Rightarrow> bytes list \<Rightarrow> hash_store \<times> unit outcome" where
  "hash_multiSet_loop s [] vs = (signal NotifyAll s, Returns ())"
| "hash_multiSet_loop s (k # ks) [] = (s, Throws (StdOutOfRange ''values''))"
| "hash_multiSet_loop s (k # ks) (v # vs) = hash_multiSet_loop (put s k v) ks vs"

definition hash_multiSet :: "hash_store \<Rightarrow> string list \<Rightarrow> bytes list \<Rightarrow> hash_store \<times> unit outcome" where
  "hash_multiSet s keys vs = hash_multiSet_loop (signal NotifyNone s) keys vs"

definition hash_queuePush :: "hash_store \<Rightarrow> string \<Rightarrow> bytes \<Rightarrow> hash_store \<times> unit outcome" where
  "hash_queuePush s key v =
     (signal NotifyOne (s\<lparr> hs_queues := AList.update key (hash_queue s key @ [v]) (hs_queues s) \<rparr>), Returns ())"

definition hash_queuePop :: "hash_store \<Rightarrow> string \<Rightarrow> bool \<Rightarrow> hash_store \<times> bytes outcome" where
  "hash_queuePop s key block =
     bindO (if block then waitLocked s [key] else (signal NotifyNone s, Returns ()))
       (\<lambda>s1 _. case hash_queue s1 key of
           [] \<Rightarrow> (s1\<lparr> hs_queues := AList.update key [] (hs_queues s1) \<rparr>, Throws (DistQueueEmptyError ''queue is empty''))
         | v # q \<Rightarrow> (s1\<lparr> hs_queues := AList.update key q (hs_queues s1) \<rparr>, Returns v))"

definition hash_queueLen :: "hash_store \<Rightarrow> string \<Rightarrow> hash_store \<times> int outcome" where
  "hash_queueLen s key = (signal NotifyNone s, Returns (case map_of (hs_queues s) key of
       None \<Rightarrow> 0 | Some q \<Rightarrow> int (length q)))"

definition hash_listKeys :: "hash_store \<Rightarrow> hash_store \<times> string list outcome" where
  "hash_listKeys s = (signal NotifyNone s, Returns (map fst (hs_map s)))"

section \<open>The store is a map\<close>

definition hash_inv :: "hash_store \<Rightarrow> bool" where
  "hash_inv s \<longleftrightarrow> distinct (map fst (hs_map s)) \<and> distinct (map fst (hs_queues s))"

definition hash_lookup :: "hash_store \<Rightarrow> string \<Rightarrow> bytes option" where
  "hash_lookup s = map_of (hs_map s)"

lemmas hash_defs = hash_inv_def hash_lookup_def hash_queue_def store_upd_def put_def signal_def

lemma put_upd [simp]:
  "hash_inv s \<Longrightarrow> hash_inv (put s k v)"
  "hash_lookup (put s k v) = (hash_lookup s)(k \<mapsto> v)"
  "hash_queue (put s k v) = hash_queue s"
  "hs_queues (put s k v) = hs_queues s"
  by (auto simp: hash_defs distinct_update update_conv' fun_eq_iff)

lemma signal_upd [simp]:
  "hash_inv (signal n s) = hash_inv s" "hash_lookup (signal n s) = hash_lookup s"
  "hash_queue (signal n s) = hash_queue s" "hs_map (signal n s) = hs_map s"
  "hs_queues (signal n s) = hs_queues s" "hs_signal (signal n s) = n"
  by (auto simp: hash_defs fun_eq_iff)

lemma checkLocked_iff:
  "checkLocked s keys \<longleftrightarrow> (\<forall>k \<in> set keys. hash_lookup s k \<noteq> None \<or> hash_queue s k \<noteq> [])"
  by (induction keys) (auto simp: hash_lookup_def hash_queue_def Let_def split: option.splits)

lemma subscript_upd:
  assumes "hash_inv s" "subscript s k = (s1, v)"
  shows "hash_inv s1" "hash_queue s1 = hash_queue s" "hs_queues s1 = hs_queues s"
    "(hash_lookup s1)(k \<mapsto> w) = (hash_lookup s)(k \<mapsto> w)"
    "v = (case hash_lookup s k of None \<Rightarrow> [] | Some x \<Rightarrow> x)"
  using assms by (auto simp: subscript_def hash_lookup_def [symmetric] split: option.splits)

interpretation hs: kv_store_exact hash_inv hash_lookup hash_queue "\<lambda>_. True" "\<lambda>_. True"
  hash_set hash_compareSet hash_get hash_add hash_check hash_wait hash_deleteKey
proof unfold_locales
  fix s k i
  assume a: "hash_inv s" "in_s64 i" "hash_lookup s k = None"
  obtain s1 v where s1: "subscript (signal NotifyNone s) k = (s1, v)" by (cases "subscript (signal NotifyNone s) k")
  note u = subscript_upd [OF _ s1]
  show "\<exists>s'. hash_add s k i = (s', Returns i) \<and>
      store_upd hash_inv hash_lookup hash_queue s s' ((hash_lookup s)(k \<mapsto> string_bytes (to_string i)))"
    using u a s1 by (simp add: hash_add_def store_upd_def)
next
  fix s k i v n
  assume a: "hash_inv s" "in_s64 i" "hash_lookup s k = Some v" "stoll (bytes_string v) = Inr n"
  obtain s1 w where s1: "subscript (signal NotifyNone s) k = (s1, w)" by (cases "subscript (signal NotifyNone s) k")
  note u = subscript_upd [OF _ s1]
  have "v \<noteq> []" using a(4) by (auto simp: stoll_Nil)
  then show "\<exists>s'. hash_add s k i = (s', Returns (s64 (i + n))) \<and>
      store_upd hash_inv hash_lookup hash_queue s s' ((hash_lookup s)(k \<mapsto> string_bytes (to_string (s64 (i + n)))))"
    using u a s1 by (simp add: hash_add_def store_upd_def)
next
  fix s k
  assume a: "hash_inv s"
  show "\<exists>s' b. hash_deleteKey s k = (s', Returns b) \<and>
      store_upd hash_inv hash_lookup hash_queue s s' ((hash_lookup s)(k := None))"
    using a by (auto simp: hash_deleteKey_def hash_defs Let_def distinct_delete delete_conv' fun_eq_iff)
  show "snd (hash_deleteKey s k) = Returns (hash_lookup s k \<noteq> None)"
    using a length_delete_distinct [of "hs_map s" k]
    by (auto simp: hash_deleteKey_def Let_def hash_inv_def hash_lookup_def split: option.splits)
qed (auto simp: hash_set_def hash_compareSet_def hash_get_def hash_check_def hash_wait_def waitLocked_def
    store_upd_def cas_result_def cas_matches_def hash_lookup_def [symmetric] checkLocked_iff Let_def
    split: option.splits)

lemma hash_empty_inv [simp]: "hash_inv hash_empty" "hash_lookup hash_empty = Map.empty"
  "hash_queue hash_empty = (\<lambda>_. [])"
  by (auto simp: hash_empty_def hash_defs fun_eq_iff)



section \<open>Extended operations\<close>

lemma hash_append_upd:
  assumes "hash_inv s"
  shows "\<exists>s'. hash_append s k v = (s', Returns ()) \<and> store_upd hash_inv hash_lookup hash_queue s s'
      ((hash_lookup s)(k \<mapsto> (case hash_lookup s k of None \<Rightarrow> v | Some old \<Rightarrow> old @ v)))"
  using assms by (auto simp: hash_append_def store_upd_def hash_lookup_def [symmetric] split: option.splits)

text \<open>
  Property: on a \<open>HashStore\<close> the native \<open>append\<close> always appends,
  while the compare-and-set fallback \<open>Store::append\<close> returns normally after one retry at most and
  appends too, except when the stored value equals the appended one: then it leaves the store
  unchanged and the second copy is lost.
\<close>
theorem fallback_append_drops_repeat:
  assumes "hash_inv s" and "hash_lookup s key = Some old"
  shows "\<exists>s1 s2. hash_append s key v = (s1, Returns ()) \<and> hash_lookup s1 = (hash_lookup s)(key \<mapsto> old @ v) \<and>
      store_append hash_compareSet 1 s key v = (s2, Returns ()) \<and>
      hash_lookup s2 = (if old = v \<and> v \<noteq> [] then hash_lookup s else hash_lookup s1)"
proof -
  obtain s1 where s1: "hash_append s key v = (s1, Returns ())"
      "hash_lookup s1 = (hash_lookup s)(key \<mapsto> old @ v)"
    using hash_append_upd [OF assms(1), of key v] assms(2) by (auto simp: store_upd_def)
  obtain s2 where "store_append hash_compareSet (Suc 0) s key v = (s2, Returns ())"
      "hash_lookup s2 = (if old = v \<and> v \<noteq> [] then hash_lookup s else (hash_lookup s)(key \<mapsto> old @ v))"
    using hs.fallback_append [OF assms(1), where k = key and v = v and n = 0] assms(2)
    by (auto simp: store_upd_def split: if_splits)
  then show ?thesis using s1 by auto
qed

definition hash_one :: hash_store where
  "hash_one = fst (hash_set hash_empty ''k'' [97])"

theorem fallback_append_drops_repeat_witness:
  "\<exists>s1 s2. hash_append hash_one ''k'' [97] = (s1, Returns ()) \<and> hash_lookup s1 ''k'' = Some [97, 97] \<and>
      store_append hash_compareSet 1 hash_one ''k'' [97] = (s2, Returns ()) \<and> hash_lookup s2 ''k'' = Some [97]"
proof -
  have "hash_inv hash_one" "hash_lookup hash_one ''k'' = Some [97]"
    by (simp_all add: hash_one_def hash_set_def)
  then show ?thesis
    using fallback_append_drops_repeat [of hash_one "''k''" "[97]" "[97]"] by auto
qed

lemma hash_multiSet_upd:
  assumes "hash_inv s" "length vs = length ks"
  shows "\<exists>s'. hash_multiSet s ks vs = (s', Returns ()) \<and> hs_signal s' = NotifyAll \<and>
      store_upd hash_inv hash_lookup hash_queue s s' (hash_lookup s ++ map_of (rev (zip ks vs)))"
proof -
  have "\<exists>s'. hash_multiSet_loop s ks vs = (s', Returns ()) \<and> hs_signal s' = NotifyAll \<and>
      store_upd hash_inv hash_lookup hash_queue s s' (hash_lookup s ++ map_of (rev (zip ks vs)))"
    if "hash_inv s" for s
    using assms(2) that
  proof (induction vs ks arbitrary: s rule: list_induct2)
    case Nil
    then show ?case by (auto simp: store_upd_def)
  next
    case (Cons v vs k ks)
    then obtain s' where "hash_multiSet_loop (put s k v) ks vs = (s', Returns ())" "hs_signal s' = NotifyAll"
        "store_upd hash_inv hash_lookup hash_queue (put s k v) s' (hash_lookup (put s k v) ++ map_of (rev (zip ks vs)))"
      using Cons.IH [of "put s k v"] put_upd(1) [of s k v] by blast
    then show ?case by (simp add: store_upd_def)
  qed
  from this [of "signal NotifyNone s"] show ?thesis
    using assms by (auto simp: hash_multiSet_def store_upd_def)
qed

lemma hash_queuePush_upd:
  "hash_inv s \<Longrightarrow> \<exists>s'. hash_queuePush s k v = (s', Returns ()) \<and> hash_inv s' \<and> hash_lookup s' = hash_lookup s \<and>
     hash_queue s' = (hash_queue s)(k := hash_queue s k @ [v])"
  by (auto simp: hash_queuePush_def hash_defs distinct_update update_conv' fun_eq_iff)

lemma hash_queuePop_upd:
  assumes "hash_inv s" "hash_queue s k = v # q"
  shows "\<exists>s'. hash_queuePop s k b = (s', Returns v) \<and> hash_inv s' \<and> hash_lookup s' = hash_lookup s \<and>
     hash_queue s' = (hash_queue s)(k := q)"
proof -
  let ?s1 = "signal NotifyNone s"
  have "checkLocked s [k]" using assms(2) by (simp add: checkLocked_iff del: checkLocked.simps)
  then have "hash_queuePop s k b = (?s1\<lparr> hs_queues := AList.update k q (hs_queues s) \<rparr>, Returns v)"
    using assms(2) by (simp add: hash_queuePop_def waitLocked_def del: checkLocked.simps)
  then show ?thesis using assms(1) by (auto simp: hash_defs distinct_update update_conv' fun_eq_iff)
qed

fun push_all :: "string \<Rightarrow> bytes list \<Rightarrow> hash_store \<Rightarrow> hash_store" where
  "push_all k [] s = s"
| "push_all k (v # vs) s = push_all k vs (fst (hash_queuePush s k v))"

fun pop_n :: "nat \<Rightarrow> string \<Rightarrow> bool \<Rightarrow> hash_store \<Rightarrow> hash_store \<times> bytes list outcome" where
  "pop_n 0 k b s = (s, Returns [])"
| "pop_n (Suc n) k b s = bindO (hash_queuePop s k b)
     (\<lambda>s' v. bindO (pop_n n k b s') (\<lambda>s'' vs. (s'', Returns (v # vs))))"

lemma push_all_upd:
  "hash_inv s \<Longrightarrow> hash_inv (push_all k vs s) \<and> hash_lookup (push_all k vs s) = hash_lookup s \<and>
     hash_queue (push_all k vs s) = (hash_queue s)(k := hash_queue s k @ vs)"
proof (induction vs arbitrary: s)
  case (Cons v vs)
  obtain s1 where s1: "hash_queuePush s k v = (s1, Returns ())" "hash_inv s1" "hash_lookup s1 = hash_lookup s"
      "hash_queue s1 = (hash_queue s)(k := hash_queue s k @ [v])"
    using hash_queuePush_upd [OF Cons.prems, of k v] by blast
  then show ?case using Cons.IH [OF s1(2)] by (auto simp: fun_eq_iff)
qed simp

lemma pop_n_upd:
  "hash_inv s \<Longrightarrow> hash_queue s k = vs @ q \<Longrightarrow> \<exists>s'. pop_n (length vs) k b s = (s', Returns vs) \<and> hash_inv s' \<and>
     hash_lookup s' = hash_lookup s \<and> hash_queue s' = (hash_queue s)(k := q)"
proof (induction vs arbitrary: s)
  case Nil
  then show ?case by auto
next
  case (Cons v vs)
  then obtain s1 where s1: "hash_queuePop s k b = (s1, Returns v)" "hash_inv s1"
      "hash_lookup s1 = hash_lookup s" "hash_queue s1 = (hash_queue s)(k := vs @ q)"
    using hash_queuePop_upd [of s k v "vs @ q" b] by auto
  then obtain s2 where "pop_n (length vs) k b s1 = (s2, Returns vs)" "hash_inv s2"
      "hash_lookup s2 = hash_lookup s1" "hash_queue s2 = (hash_queue s1)(k := q)"
    using Cons.IH [of s1] by (auto simp: fun_upd_def)
  then show ?case using s1 by (auto simp: fun_eq_iff)
qed

text \<open>
  Property: the queues of \<open>HashStore\<close> are first-in first-out and independent of each
  other and of the key-value table: the values pushed on a drained key come back in order, by
  blocking and by non-blocking pops, every other queue and every key keeps its contents, and the
  next non-blocking pop reports an empty queue.
\<close>
theorem queue_fifo:
  assumes "hash_inv s" and "hash_queue s k = []"
  shows "\<exists>s'. pop_n (length vs) k b (push_all k vs s) = (s', Returns vs) \<and>
      hash_queue s' = hash_queue s \<and> hash_lookup s' = hash_lookup s \<and>
      snd (hash_queuePop s' k False) = Throws (DistQueueEmptyError ''queue is empty'') \<and>
      snd (hash_queueLen s' k) = Returns 0"
proof -
  note p = push_all_upd [OF assms(1), of k vs]
  obtain s' where s': "pop_n (length vs) k b (push_all k vs s) = (s', Returns vs)" "hash_inv s'"
      "hash_lookup s' = hash_lookup s" "hash_queue s' = hash_queue s"
    using pop_n_upd [of "push_all k vs s" k vs "[]" b] p assms(2) by (auto simp: fun_upd_idem)
  have "hash_queue s' k = []" using s'(4) assms(2) by simp
  then have "snd (hash_queuePop s' k False) = Throws (DistQueueEmptyError ''queue is empty'')"
      "snd (hash_queueLen s' k) = Returns 0"
    by (auto simp: hash_queuePop_def hash_queueLen_def hash_queue_def split: option.splits)
  then show ?thesis using s' by auto
qed

theorem queue_fifo_witness:
  "\<exists>s'. pop_n 3 ''q'' True (push_all ''q'' [[1], [2], [3]] hash_empty) = (s', Returns [[1], [2], [3]]) \<and>
      snd (hash_queuePop s' ''q'' False) = Throws (DistQueueEmptyError ''queue is empty'')"
  using queue_fifo [of hash_empty "''q''" "[[1], [2], [3]]" True] by (auto simp: eval_nat_numeral)

text \<open>
  Property: the default \<open>Store::barrier\<close> on a \<open>HashStore\<close>: after \<open>n\<close> of
  \<open>world\<close> workers have entered, a worker that waits for the barrier is released if and only if all of
  them, \<open>world \<le> n\<close>, have entered.
\<close>
theorem store_barrier_releases:
  assumes "hash_inv s" "hash_lookup s (num_members_key key) = None" "hash_lookup s (last_member_key key) = None"
    "hash_queue s (last_member_key key) = []" "0 < world" "int n < 2 ^ 63"
  shows "snd (bindO (barrier_run hash_add hash_set key (int world) n s) (\<lambda>s' _. hash_wait s' [last_member_key key]))
      = (if world \<le> n then Returns () else Blocks)"
  by (rule hs.barrier_releases) (use assms in simp_all)

theorem store_barrier_releases_witness:
  "snd (bindO (barrier_run hash_add hash_set ''b'' 2 1 hash_empty) (\<lambda>s' _. hash_wait s' [last_member_key ''b''])) = Blocks \<and>
   snd (bindO (barrier_run hash_add hash_set ''b'' 2 2 hash_empty) (\<lambda>s' _. hash_wait s' [last_member_key ''b''])) = Returns ()"
  using store_barrier_releases [of hash_empty "''b''" 2 1] store_barrier_releases [of hash_empty "''b''" 2 2]
  by (simp del: barrier_run.simps)

text \<open>
  A blocking \<open>queuePop\<close> waits with the same test as \<open>check\<close>, which a plain key satisfies: on a key
  that is set and has no queue it throws instead of waiting for a push.
\<close>

lemma queuePop_of_plain_key:
  "hash_lookup s k \<noteq> None \<Longrightarrow> hash_queue s k = [] \<Longrightarrow>
     snd (hash_queuePop s k True) = Throws (DistQueueEmptyError ''queue is empty'')"
  by (simp add: hash_queuePop_def waitLocked_def hash_lookup_def)

end
