(* ===== verification/HashStoreThreads.thy ===== *)
theory HashStoreThreads
  imports HashStore
begin

text \<open>
  Threads that share one \<open>HashStore\<close>. Every operation is one critical section; an operation
  that blocks puts its thread on the condition variable, a notification wakes waiting threads, and
  a woken thread evaluates its operation again under the lock. A step is labelled with the operation
  it executes. \<open>multiGet\<close> is not part of the machine: it keeps the values it has already read while
  it waits.
\<close>

datatype hash_op =
    HSet string bytes
  | HCompareSet string bytes bytes
  | HGet string
  | HAdd string int
  | HCheck "string list"
  | HWait "string list"
  | HDelete string
  | HAppend string bytes
  | HMultiSet "string list" "bytes list"
  | HQueuePush string bytes
  | HQueuePop string bool
  | HQueueLen string

fun hash_exec :: "hash_store \<Rightarrow> hash_op \<Rightarrow> hash_store \<times> unit outcome" where
  "hash_exec s (HSet k v) = hash_set s k v"
| "hash_exec s (HCompareSet k e d) = map_outcome (\<lambda>_. ()) (hash_compareSet s k e d)"
| "hash_exec s (HGet k) = map_outcome (\<lambda>_. ()) (hash_get s k)"
| "hash_exec s (HAdd k i) = map_outcome (\<lambda>_. ()) (hash_add s k i)"
| "hash_exec s (HCheck ks) = map_outcome (\<lambda>_. ()) (hash_check s ks)"
| "hash_exec s (HWait ks) = hash_wait s ks"
| "hash_exec s (HDelete k) = map_outcome (\<lambda>_. ()) (hash_deleteKey s k)"
| "hash_exec s (HAppend k v) = hash_append s k v"
| "hash_exec s (HMultiSet ks vs) = hash_multiSet s ks vs"
| "hash_exec s (HQueuePush k v) = hash_queuePush s k v"
| "hash_exec s (HQueuePop k b) = map_outcome (\<lambda>_. ()) (hash_queuePop s k b)"
| "hash_exec s (HQueueLen k) = map_outcome (\<lambda>_. ()) (hash_queueLen s k)"

definition blocked :: "hash_store \<Rightarrow> hash_op \<Rightarrow> bool" where
  "blocked s op \<longleftrightarrow> snd (hash_exec s op) = Blocks"

datatype thread = Running | Waiting hash_op | Woken hash_op

type_synonym threads = "nat \<Rightarrow> thread"

definition wake_all :: "threads \<Rightarrow> threads" where
  "wake_all th = (\<lambda>t. case th t of Waiting op \<Rightarrow> Woken op | x \<Rightarrow> x)"

inductive notifies :: "notification \<Rightarrow> threads \<Rightarrow> threads \<Rightarrow> bool" where
  notify_none: "notifies NotifyNone th th"
| notify_all: "notifies NotifyAll th (wake_all th)"
| notify_one: "th u = Waiting op \<Longrightarrow> notifies NotifyOne th (th(u := Woken op))"
| notify_idle: "\<forall>u op. th u \<noteq> Waiting op \<Longrightarrow> notifies NotifyOne th th"

inductive_cases notifies_NoneE: "notifies NotifyNone th th'"
inductive_cases notifies_AllE: "notifies NotifyAll th th'"

definition can_run :: "thread \<Rightarrow> hash_op \<Rightarrow> bool" where
  "can_run x op \<longleftrightarrow> x = Running \<or> x = Woken op"

inductive hash_step :: "hash_store \<times> threads \<Rightarrow> hash_op \<Rightarrow> hash_store \<times> threads \<Rightarrow> bool" where
  step_finish: "can_run (th t) op \<Longrightarrow> hash_exec s op = (s', r) \<Longrightarrow> r \<noteq> Blocks \<Longrightarrow>
    notifies (hs_signal s') (th(t := Running)) th' \<Longrightarrow> hash_step (s, th) op (s', th')"
| step_block: "can_run (th t) op \<Longrightarrow> hash_exec s op = (s', Blocks) \<Longrightarrow>
    hash_step (s, th) op (s', th(t := Waiting op))"
| step_timeout: "th t = Waiting op \<Longrightarrow> hash_step (s, th) op (s, th(t := Running))"

inductive_cases hash_stepE: "hash_step (s, th) op c"

text \<open>Runs whose operations satisfy \<open>A\<close>.\<close>

inductive hash_steps :: "(hash_op \<Rightarrow> bool) \<Rightarrow> hash_store \<times> threads \<Rightarrow> hash_store \<times> threads \<Rightarrow> bool"
  for A :: "hash_op \<Rightarrow> bool" where
  steps_refl: "hash_steps A c c"
| steps_step: "hash_steps A c c' \<Longrightarrow> hash_step c' op c'' \<Longrightarrow> A op \<Longrightarrow> hash_steps A c c''"

text \<open>No thread sleeps on the condition variable although its operation could go on.\<close>

definition no_lost_wakeup :: "hash_store \<times> threads \<Rightarrow> bool" where
  "no_lost_wakeup c \<longleftrightarrow> (\<forall>t op. snd c t = Waiting op \<longrightarrow> blocked (fst c) op)"

text \<open>The operations that announce what they add: all but \<open>add\<close> and \<open>queuePush\<close>.\<close>

fun announces :: "hash_op \<Rightarrow> bool" where
  "announces (HAdd k i) = False"
| "announces (HQueuePush k v) = False"
| "announces (HMultiSet ks vs) = (length vs = length ks)"
| "announces _ = True"

text \<open>
  \<open>blocked\<close> depends only on which keys and queues are there, and only gets truer when they go.
\<close>

definition covers :: "hash_store \<Rightarrow> hash_store \<Rightarrow> bool" where
  "covers s s' \<longleftrightarrow> (\<forall>k. hash_lookup s' k \<noteq> None \<longrightarrow> hash_lookup s k \<noteq> None) \<and>
     (\<forall>k. hash_queue s' k \<noteq> [] \<longrightarrow> hash_queue s k \<noteq> [])"

lemma blocked_simps:
  "blocked s (HGet k) \<longleftrightarrow> hash_lookup s k = None"
  "blocked s (HWait ks) \<longleftrightarrow> \<not> checkLocked s ks"
  "blocked s (HQueuePop k b) \<longleftrightarrow> b \<and> \<not> checkLocked s [k]"
  by (auto simp: blocked_def hash_get_def hash_lookup_def hash_wait_def waitLocked_def hash_queuePop_def
      split: option.splits list.splits if_splits)

lemma hash_multiSet_loop_not_blocks: "snd (hash_multiSet_loop s ks vs) \<noteq> Blocks"
  by (induction s ks vs rule: hash_multiSet_loop.induct) auto

lemma blocked_never:
  "\<not> blocked s (HSet k v)" "\<not> blocked s (HCompareSet k e d)" "\<not> blocked s (HAdd k i)"
  "\<not> blocked s (HCheck ks)" "\<not> blocked s (HDelete k)" "\<not> blocked s (HAppend k v)"
  "\<not> blocked s (HMultiSet ks vs)" "\<not> blocked s (HQueuePush k v)" "\<not> blocked s (HQueueLen k)"
  by (auto simp: blocked_def hash_set_def hash_compareSet_def hash_add_def hash_check_def hash_deleteKey_def
      hash_append_def hash_queuePush_def hash_queueLen_def Let_def hash_multiSet_def
      hash_multiSet_loop_not_blocks split: prod.splits sum.splits)

lemma covers_checkLocked: "covers s s' \<Longrightarrow> checkLocked s' ks \<Longrightarrow> checkLocked s ks"
  unfolding checkLocked_iff covers_def by blast

lemma covers_blocked:
  assumes "covers s s'" "blocked s op" shows "blocked s' op"
proof (cases op)
  case (HGet k)
  then show ?thesis using assms by (auto simp: blocked_simps covers_def)
next
  case (HWait ks)
  then show ?thesis using assms covers_checkLocked by (auto simp: blocked_simps)
next
  case (HQueuePop k b)
  then show ?thesis using assms covers_checkLocked [OF assms(1), of "[k]"]
    by (auto simp: blocked_simps simp del: checkLocked.simps)
qed (use assms(2) blocked_never in auto)

lemma covers_upd:
  "covers s s" "covers s (signal n s)"
  "hash_lookup s' = hash_lookup s \<Longrightarrow> hash_queue s' = hash_queue s \<Longrightarrow> covers s s'"
  by (auto simp: covers_def)

lemma hash_deleteKey_covers: "covers s (fst (hash_deleteKey s k))"
  by (auto simp: covers_def hash_deleteKey_def Let_def hash_lookup_def hash_queue_def signal_def delete_conv'
      split: if_splits)

lemma hash_queuePop_covers: "covers s (fst (hash_queuePop s k b))"
proof (cases "b \<and> \<not> checkLocked s [k]")
  case True
  then show ?thesis by (simp add: hash_queuePop_def waitLocked_def covers_upd del: checkLocked.simps)
next
  case False
  then have "fst (hash_queuePop s k b) =
      (signal NotifyNone s)\<lparr> hs_queues := AList.update k (tl (hash_queue s k)) (hs_queues s) \<rparr>"
    by (auto simp: hash_queuePop_def waitLocked_def simp del: checkLocked.simps split: list.splits)
  then show ?thesis
    by (auto simp: covers_def hash_lookup_def hash_queue_def signal_def update_conv')
qed

lemma blocked_state: "hash_exec s op = (s', Blocks) \<Longrightarrow> s' = signal NotifyNone s"
proof -
  assume a: "hash_exec s op = (s', Blocks)"
  then have "blocked s op" by (simp add: blocked_def)
  then consider (g) k where "op = HGet k" | (w) ks where "op = HWait ks"
    | (p) k where "op = HQueuePop k True" "\<not> checkLocked s [k]"
    using blocked_never by (cases op) (auto simp: blocked_simps simp del: checkLocked.simps)
  then show ?thesis
    using a by cases (auto simp: hash_get_def hash_wait_def waitLocked_def hash_queuePop_def
        simp del: checkLocked.simps split: option.splits)
qed

text \<open>
  An announcing operation either notifies all, or adds nothing and notifies nobody.
\<close>

lemma announces_signal:
  assumes "announces op" "hash_exec s op = (s', r)" "r \<noteq> Blocks"
  shows "hs_signal s' = NotifyAll \<or> (hs_signal s' = NotifyNone \<and> covers s s')"
proof (cases op)
  case (HMultiSet ks vs)
  then have "length vs = length ks" using assms(1) by simp
  then show ?thesis using HMultiSet assms(2)
  proof -
    have "hs_signal (fst (hash_multiSet_loop t ks vs)) = NotifyAll" if "length vs = length ks" for t
      using that by (induction vs ks arbitrary: t rule: list_induct2) simp_all
    then show ?thesis using HMultiSet assms(2) \<open>length vs = length ks\<close>
      by (metis fst_conv hash_exec.simps(9) hash_multiSet_def)
  qed
next
  case (HDelete k)
  then show ?thesis using assms(2) hash_deleteKey_covers [of s k]
    by (auto simp: hash_deleteKey_def Let_def)
next
  case (HQueuePop k b)
  then have "hs_signal s' = NotifyNone" using assms(2)
    by (auto simp: hash_queuePop_def waitLocked_def simp del: checkLocked.simps
        split: list.splits if_splits)
  moreover have "s' = fst (hash_queuePop s k b)"
    using HQueuePop assms(2) by (cases "hash_queuePop s k b"; cases "snd (hash_queuePop s k b)") auto
  ultimately show ?thesis using hash_queuePop_covers [of s k b] by simp
qed (use assms in \<open>auto simp: hash_set_def hash_compareSet_def hash_get_def hash_check_def hash_wait_def
    waitLocked_def hash_append_def hash_queueLen_def Let_def covers_upd split: option.splits if_splits\<close>)

lemma hash_step_no_lost:
  assumes step: "hash_step c op c'" and c: "no_lost_wakeup c" and op: "announces op"
  shows "no_lost_wakeup c'"
  using step
proof cases
  case (step_finish th t s s' r th')
  from announces_signal [OF op step_finish(4,5)] show ?thesis
  proof
    assume "hs_signal s' = NotifyAll"
    then have "th' = wake_all (th(t := Running))" using step_finish(6) by (auto elim: notifies_AllE)
    then show ?thesis using step_finish(2)
      by (auto simp: no_lost_wakeup_def wake_all_def split: thread.splits if_splits)
  next
    assume a: "hs_signal s' = NotifyNone \<and> covers s s'"
    then have "th' = th(t := Running)" using step_finish(6) by (auto elim: notifies_NoneE)
    then show ?thesis using step_finish(1,2) a c
      by (auto simp: no_lost_wakeup_def intro: covers_blocked split: if_splits)
  qed
next
  case (step_block th t s s')
  have s': "s' = signal NotifyNone s" using blocked_state [OF step_block(4)] .
  have "blocked s op" using step_block(4) by (simp add: blocked_def)
  then show ?thesis using step_block(1,2) c s' covers_blocked [OF covers_upd(2)]
    by (auto simp: no_lost_wakeup_def split: if_splits)
next
  case (step_timeout th t s)
  then show ?thesis using c by (auto simp: no_lost_wakeup_def split: if_splits)
qed



text \<open>
  Property: \<open>HashStore::add\<close> does not notify. A thread that waits in
  \<open>get\<close> for the key that another thread creates with \<open>add\<close> stays asleep although its key is in
  the store.
\<close>
theorem add_loses_wakeup:
  "\<exists>s'. hash_steps (\<lambda>op. op = HGet ''k'' \<or> op = HAdd ''k'' 1) (hash_empty, \<lambda>_. Running)
        (s', (\<lambda>_. Running)(1 := Waiting (HGet ''k''))) \<and>
      hash_lookup s' ''k'' = Some (string_bytes ''1'') \<and> \<not> blocked s' (HGet ''k'')"
proof -
  let ?th = "(\<lambda>_. Running)(1 := Waiting (HGet ''k''))"
  let ?s1 = "signal NotifyNone hash_empty"
  let ?A = "\<lambda>op. op = HGet ''k'' \<or> op = HAdd ''k'' 1"
  have 1: "hash_step (hash_empty, \<lambda>_. Running) (HGet ''k'') (?s1, ?th)"
    by (rule step_block) (simp_all add: can_run_def hash_get_def hash_empty_def)
  have one: "to_string 1 = ''1''" by (simp add: to_string_def nat_to_string.simps digit_char_def char_of_eq_iff)
  obtain s2 where s2: "hash_add ?s1 ''k'' 1 = (s2, Returns 1)" "hs_signal s2 = NotifyNone"
      "hash_lookup s2 ''k'' = Some (string_bytes ''1'')"
    by (auto simp: hash_add_def subscript_def one hash_empty_def hash_lookup_def put_def signal_def)
  have 2: "hash_step (?s1, ?th) (HAdd ''k'' 1) (s2, ?th)"
    by (rule step_finish [of _ 0]) (use s2 notify_none in \<open>auto simp: can_run_def fun_upd_idem\<close>)
  have "hash_steps ?A (hash_empty, \<lambda>_. Running) (s2, ?th)"
    by (rule steps_step [OF steps_step [OF steps_refl 1] 2]) simp_all
  then show ?thesis using s2(3) by (auto simp: blocked_simps)
qed

text \<open>
  Property: \<open>queuePush\<close> wakes one waiting thread whatever it waits
  for. When another thread is chosen, the thread that waits for the pushed key stays asleep although
  its queue is not empty.
\<close>
theorem queuePush_loses_wakeup:
  "\<exists>s'. hash_steps (\<lambda>op. op \<in> {HGet ''a'', HQueuePop ''q'' True, HQueuePush ''q'' [1]}) (hash_empty, \<lambda>_. Running)
        (s', (\<lambda>_. Running)(1 := Woken (HGet ''a''), 2 := Waiting (HQueuePop ''q'' True))) \<and>
      hash_queue s' ''q'' = [[1]] \<and> \<not> blocked s' (HQueuePop ''q'' True)"
proof -
  let ?A = "\<lambda>op. op \<in> {HGet ''a'', HQueuePop ''q'' True, HQueuePush ''q'' [1]}"
  let ?s1 = "signal NotifyNone hash_empty"
  let ?th1 = "(\<lambda>_. Running)(1 := Waiting (HGet ''a''))"
  let ?th2 = "?th1(2 := Waiting (HQueuePop ''q'' True))"
  let ?s2 = "fst (hash_queuePush ?s1 ''q'' [1])"
  have 1: "hash_step (hash_empty, \<lambda>_. Running) (HGet ''a'') (?s1, ?th1)"
    by (rule step_block) (simp_all add: can_run_def hash_get_def hash_empty_def)
  have 2: "hash_step (?s1, ?th1) (HQueuePop ''q'' True) (?s1, ?th2)"
    by (rule step_block) (simp_all add: can_run_def hash_queuePop_def waitLocked_def hash_empty_def signal_def hash_queue_def)
  have 3: "hash_step (?s1, ?th2) (HQueuePush ''q'' [1]) (?s2, (?th2(0 := Running))(1 := Woken (HGet ''a'')))"
    by (rule step_finish [of _ 0 _ _ _ "Returns ()"])
      (use notify_one [of "?th2(0 := Running)" 1 "HGet ''a''"] in \<open>auto simp: can_run_def hash_queuePush_def\<close>)
  have th: "(?th2(0 := Running))(1 := Woken (HGet ''a'')) =
      (\<lambda>_::nat. Running)(1 := Woken (HGet ''a''), 2 := Waiting (HQueuePop ''q'' True))" by auto
  have "hash_steps ?A (hash_empty, \<lambda>_. Running) (?s2, (?th2(0 := Running))(1 := Woken (HGet ''a'')))"
    by (rule steps_step [OF steps_step [OF steps_step [OF steps_refl 1] 2] 3]) simp_all
  moreover have "hash_queue ?s2 ''q'' = [[1]]"
    by (simp add: hash_queuePush_def hash_queue_def signal_def hash_empty_def)
  ultimately show ?thesis unfolding th
    by (intro exI [of _ ?s2]) (simp add: blocked_simps checkLocked_iff del: checkLocked.simps)
qed

end
