(* ===== verification/PrefixStore.thy ===== *)
theory PrefixStore
  imports HashStore
begin

text \<open>
  \<open>torch/csrc/distributed/c10d/PrefixStore.cpp\<close>: a view of another store in which every key
  carries a prefix. The operations take the operation of the underlying store as an argument, as
  the code calls it through \<open>store_\<close>; the contract of \<open>Stores\<close> carries over to the view.
\<close>

definition joinKey :: "string \<Rightarrow> string \<Rightarrow> string" where
  "joinKey prefix key = prefix @ ''/'' @ key"

fun joinKeys :: "string \<Rightarrow> string list \<Rightarrow> string list" where
  "joinKeys prefix [] = []"
| "joinKeys prefix (key # keys) = joinKey prefix key # joinKeys prefix keys"

definition prefix_set :: "'s set_op \<Rightarrow> string \<Rightarrow> 's set_op" where
  "prefix_set f p s key v = f s (joinKey p key) v"

definition prefix_compareSet :: "'s cas_op \<Rightarrow> string \<Rightarrow> 's cas_op" where
  "prefix_compareSet f p s key expectedValue desiredValue = f s (joinKey p key) expectedValue desiredValue"

definition prefix_get :: "'s get_op \<Rightarrow> string \<Rightarrow> 's get_op" where
  "prefix_get f p s key = f s (joinKey p key)"

definition prefix_add :: "'s add_op \<Rightarrow> string \<Rightarrow> 's add_op" where
  "prefix_add f p s key v = f s (joinKey p key) v"

definition prefix_deleteKey :: "'s delete_op \<Rightarrow> string \<Rightarrow> 's delete_op" where
  "prefix_deleteKey f p s key = f s (joinKey p key)"

definition prefix_getNumKeys :: "('s \<Rightarrow> 's \<times> int outcome) \<Rightarrow> string \<Rightarrow> 's \<Rightarrow> 's \<times> int outcome" where
  "prefix_getNumKeys f p s = f s"

definition prefix_check :: "'s keys_op \<Rightarrow> string \<Rightarrow> 's keys_op" where
  "prefix_check f p s keys = f s (joinKeys p keys)"

definition prefix_wait :: "'s wait_op \<Rightarrow> string \<Rightarrow> 's wait_op" where
  "prefix_wait f p s keys = f s (joinKeys p keys)"

definition prefix_append :: "'s set_op \<Rightarrow> string \<Rightarrow> 's set_op" where
  "prefix_append f p s key v = f s (joinKey p key) v"

definition prefix_multiGet ::
    "('s \<Rightarrow> string list \<Rightarrow> 's \<times> bytes list outcome) \<Rightarrow> string \<Rightarrow> 's \<Rightarrow> string list \<Rightarrow> 's \<times> bytes list outcome" where
  "prefix_multiGet f p s keys = f s (map (joinKey p) keys)"

definition prefix_multiSet ::
    "('s \<Rightarrow> string list \<Rightarrow> bytes list \<Rightarrow> 's \<times> unit outcome) \<Rightarrow> string \<Rightarrow> 's \<Rightarrow> string list \<Rightarrow> bytes list \<Rightarrow> 's \<times> unit outcome" where
  "prefix_multiSet f p s keys vs = f s (map (joinKey p) keys) vs"

definition prefix_queuePush :: "'s set_op \<Rightarrow> string \<Rightarrow> 's set_op" where
  "prefix_queuePush f p s key v = f s (joinKey p key) v"

definition prefix_queuePop ::
    "('s \<Rightarrow> string \<Rightarrow> bool \<Rightarrow> 's \<times> bytes outcome) \<Rightarrow> string \<Rightarrow> 's \<Rightarrow> string \<Rightarrow> bool \<Rightarrow> 's \<times> bytes outcome" where
  "prefix_queuePop f p s key block = f s (joinKey p key) block"

definition prefix_queueLen ::
    "('s \<Rightarrow> string \<Rightarrow> 's \<times> int outcome) \<Rightarrow> string \<Rightarrow> 's \<Rightarrow> string \<Rightarrow> 's \<times> int outcome" where
  "prefix_queueLen f p s key = f s (joinKey p key)"

text \<open>
  \<open>listKeys\<close> keeps the keys that start with the prefix and drops the prefix and one more character;
  \<open>substr\<close> throws when the key is the bare prefix.
\<close>

fun filter_keys :: "string \<Rightarrow> string list \<Rightarrow> string list result" where
  "filter_keys p [] = Inr []"
| "filter_keys p (key # keys) =
     (if starts_with key p
      then bindE (substr key (length p + 1)) (\<lambda>k. bindE (filter_keys p keys) (\<lambda>ks. Inr (k # ks)))
      else filter_keys p keys)"

definition prefix_listKeys :: "('s \<Rightarrow> 's \<times> string list outcome) \<Rightarrow> string \<Rightarrow> 's \<Rightarrow> 's \<times> string list outcome" where
  "prefix_listKeys f p s = bindO (f s)
     (\<lambda>s' keys. (s', case filter_keys p keys of Inl e \<Rightarrow> Throws e | Inr ks \<Rightarrow> Returns ks))"

text \<open>Nested stores: the innermost store that is not a \<open>PrefixStore\<close>.\<close>

datatype 'b store_ref = NullStore | BaseStore 'b | PrefixStoreRef string "'b store_ref"

fun strip_prefixes :: "'b store_ref \<Rightarrow> 'b store_ref" where
  "strip_prefixes (PrefixStoreRef p st) = strip_prefixes st"
| "strip_prefixes st = st"

definition getUnderlyingNonPrefixStore :: "'b store_ref \<Rightarrow> 'b store_ref result" where
  "getUnderlyingNonPrefixStore underlying =
     (let store = strip_prefixes underlying
      in bindE (check (store \<noteq> NullStore) (CheckError ''Underlying Non-PrefixStore shouldn't be null.''))
           (\<lambda>_. Inr store))"

lemma getUnderlyingNonPrefixStore_base:
  "getUnderlyingNonPrefixStore st = Inr st' \<Longrightarrow> \<exists>b. st' = BaseStore b"
proof -
  have "strip_prefixes st = NullStore \<or> (\<exists>b. strip_prefixes st = BaseStore b)"
    by (induction st) auto
  then show "getUnderlyingNonPrefixStore st = Inr st' \<Longrightarrow> \<exists>b. st' = BaseStore b"
    by (auto simp: getUnderlyingNonPrefixStore_def Let_def bindE_check)
qed

section \<open>The view is a store\<close>

lemma joinKeys_map: "joinKeys p ks = map (joinKey p) ks"
  by (induction ks) simp_all

lemma joinKey_inject [simp]: "joinKey p k = joinKey p k' \<longleftrightarrow> k = k'"
  by (simp add: joinKey_def)

lemma upd_joinKey:
  "(\<lambda>k'. ((m :: string \<Rightarrow> 'a)(joinKey p k := v)) (joinKey p k')) = (\<lambda>k'. m (joinKey p k'))(k := v)"
  by (auto simp: fun_eq_iff)

lemma store_upd_prefix:
  "store_upd invar lookup queue s s' m \<Longrightarrow>
     store_upd invar (\<lambda>s k. lookup s (joinKey p k)) (\<lambda>s k. queue s (joinKey p k)) s s' (\<lambda>k. m (joinKey p k))"
  by (simp add: store_upd_def)

context kv_store
begin

lemma prefix_is_store:
  "kv_store invar (\<lambda>s k. lookup s (joinKey p k)) (\<lambda>s k. queue s (joinKey p k)) (\<lambda>k. ok_key (joinKey p k)) ok_val
     (prefix_set setf p) (prefix_compareSet casf p) (prefix_get getf p) (prefix_add addf p)
     (prefix_check checkf p) (prefix_wait waitf p) (prefix_deleteKey deletef p)"
proof (unfold_locales, goal_cases)
  case (1 s k v)
  then show ?case
    using set_law [of s "joinKey p k" v] store_upd_prefix [where p = p]
    by (fastforce simp: prefix_set_def upd_joinKey [symmetric])
next
  case (2 s k e d)
  then obtain s' where s': "casf s (joinKey p k) e d = (s', Returns (cas_result (lookup s (joinKey p k)) e d))"
      "store_upd invar lookup queue s s'
         (if cas_matches (lookup s (joinKey p k)) e then (lookup s)(joinKey p k \<mapsto> d) else lookup s)"
    using cas_law by blast
  show ?case using s'(1) store_upd_prefix [OF s'(2), of p]
    by (auto simp: prefix_compareSet_def upd_joinKey [symmetric] split: if_splits)
next
  case (3 s k)
  then show ?case
    using get_law [of s "joinKey p k"] store_upd_prefix [where p = p] by (fastforce simp: prefix_get_def)
next
  case (4 s k i)
  then show ?case
    using add_new_law [of s "joinKey p k" i] store_upd_prefix [where p = p]
    by (fastforce simp: prefix_add_def upd_joinKey [symmetric])
next
  case (5 s k i v n)
  then show ?case
    using add_law [of s "joinKey p k" i v n] store_upd_prefix [where p = p]
    by (fastforce simp: prefix_add_def upd_joinKey [symmetric])
next
  case (6 s ks)
  then show ?case
    using check_law [of s "map (joinKey p) ks"] store_upd_prefix [where p = p]
    by (fastforce simp: prefix_check_def joinKeys_map)
next
  case (7 s ks)
  then obtain s' where s': "waitf s (map (joinKey p) ks) =
      (s', if \<forall>k \<in> set (map (joinKey p) ks). lookup s k \<noteq> None \<or> queue s k \<noteq> [] then Returns () else Blocks)"
      "store_upd invar lookup queue s s' (lookup s)"
    using wait_law [of s "map (joinKey p) ks"] by auto
  show ?case using s'(1) store_upd_prefix [OF s'(2), of p] by (auto simp: prefix_wait_def joinKeys_map)
next
  case (8 s k)
  then obtain s' b where s': "deletef s (joinKey p k) = (s', Returns b)"
      "store_upd invar lookup queue s s' ((lookup s)(joinKey p k := None))"
    using delete_law by blast
  show ?case using s'(1) store_upd_prefix [OF s'(2), of p]
    by (auto simp: prefix_deleteKey_def upd_joinKey [symmetric])
qed

end

context kv_store_exact
begin

lemma prefix_is_store_exact:
  "kv_store_exact invar (\<lambda>s k. lookup s (joinKey p k)) (\<lambda>s k. queue s (joinKey p k)) (\<lambda>k. ok_key (joinKey p k)) ok_val
     (prefix_set setf p) (prefix_compareSet casf p) (prefix_get getf p) (prefix_add addf p)
     (prefix_check checkf p) (prefix_wait waitf p) (prefix_deleteKey deletef p)"
  by (intro kv_store_exact.intro prefix_is_store kv_store_exact_axioms.intro)
    (simp add: prefix_deleteKey_def delete_reports)

end

interpretation prefix_hs: kv_store_exact hash_inv "\<lambda>s k. hash_lookup s (joinKey p k)"
  "\<lambda>s k. hash_queue s (joinKey p k)" "\<lambda>_. True" "\<lambda>_. True"
  "prefix_set hash_set p" "prefix_compareSet hash_compareSet p" "prefix_get hash_get p"
  "prefix_add hash_add p" "prefix_check hash_check p" "prefix_wait hash_wait p"
  "prefix_deleteKey hash_deleteKey p"
  for p
  by (rule hs.prefix_is_store_exact)



text \<open>
  Property: two prefix stores over the same store never touch each other's keys
  when their prefixes differ and neither continues the other past a slash: whatever key is used in
  each, the joined keys differ. The side condition is exact: a prefix that continues another one
  after a slash shares keys with it.
\<close>
theorem prefix_isolation:
  "(\<exists>k k'. joinKey p k = joinKey q k') \<longleftrightarrow> starts_with (joinKey q []) (joinKey p []) \<or> starts_with (joinKey p []) (joinKey q [])"
proof
  assume "\<exists>k k'. joinKey p k = joinKey q k'"
  then obtain k k' where "(p @ ''/'') @ k = (q @ ''/'') @ k'" by (auto simp: joinKey_def)
  then obtain r where "(p @ ''/'' = (q @ ''/'') @ r) \<or> ((p @ ''/'') @ r = q @ ''/'')"
    using append_eq_append_conv2 [of "p @ ''/''" k "q @ ''/''" k'] by blast
  then show "starts_with (joinKey q []) (joinKey p []) \<or> starts_with (joinKey p []) (joinKey q [])"
    unfolding starts_with_iff joinKey_def by (metis append.assoc append_Nil2)
next
  assume "starts_with (joinKey q []) (joinKey p []) \<or> starts_with (joinKey p []) (joinKey q [])"
  then consider r where "joinKey q [] = joinKey p [] @ r" | r where "joinKey p [] = joinKey q [] @ r"
    by (auto simp: starts_with_iff)
  then show "\<exists>k k'. joinKey p k = joinKey q k'"
  proof cases
    case 1
    then have "joinKey p r = joinKey q []" by (simp add: joinKey_def)
    then show ?thesis by blast
  next
    case 2
    then have "joinKey p [] = joinKey q r" by (simp add: joinKey_def)
    then show ?thesis by blast
  qed
qed

lemma filter_keys_joined:
  assumes "\<And>key. key \<in> set keys \<Longrightarrow> starts_with key p \<longleftrightarrow> starts_with key (p @ ''/'')"
  shows "\<exists>ks. filter_keys p keys = Inr ks \<and> map (joinKey p) ks = filter (\<lambda>k. starts_with k (p @ ''/'')) keys"
  using assms
proof (induction keys)
  case (Cons key keys)
  then obtain ks where ks: "filter_keys p keys = Inr ks"
      "map (joinKey p) ks = filter (\<lambda>k. starts_with k (p @ ''/'')) keys" by auto
  show ?case
  proof (cases "starts_with key p")
    case True
    then obtain r where "key = p @ ''/'' @ r" using Cons.prems [of key] by (auto simp: starts_with_iff)
    moreover have "starts_with (p @ ''/'' @ r) (p @ ''/'')" using starts_with_append [of "p @ ''/''" r] by simp
    moreover have "joinKey p r = p @ ''/'' @ r" by (simp add: joinKey_def)
    ultimately show ?thesis using ks by (auto simp: substr_def)
  next
    case False
    then show ?thesis using ks Cons.prems [of key] by auto
  qed
qed simp

text \<open>
  Property: \<open>PrefixStore::listKeys\<close> lists exactly the keys of its prefix
  when no key of the underlying store starts with the prefix without the separating slash. The test
  in the code is on the bare prefix: with the prefix \<open>foo\<close> the key \<open>foobar/x\<close> of another prefix store
  is listed as \<open>ar/x\<close>, and the key \<open>foo\<close> of the underlying store makes the call throw.
\<close>
theorem listKeys_needs_slash:
  "((\<forall>key \<in> set keys. starts_with key p \<longrightarrow> starts_with key (p @ ''/'')) \<longrightarrow>
      (\<exists>ks. filter_keys p keys = Inr ks \<and> map (joinKey p) ks = filter (\<lambda>k. starts_with k (p @ ''/'')) keys)) \<and>
   filter_keys ''foo'' [joinKey ''foobar'' ''x''] = Inr [''ar/x''] \<and>
   filter_keys ''foo'' [''foo''] = Inl (StdOutOfRange ''basic_string::substr'')"
proof (intro conjI impI)
  assume a: "\<forall>key \<in> set keys. starts_with key p \<longrightarrow> starts_with key (p @ ''/'')"
  have "starts_with key p" if "starts_with key (p @ ''/'')" for key
    using that by (auto simp: starts_with_iff)
  then show "\<exists>ks. filter_keys p keys = Inr ks \<and> map (joinKey p) ks = filter (\<lambda>k. starts_with k (p @ ''/'')) keys"
    using filter_keys_joined [of keys p] a by blast
qed (simp_all add: joinKey_def starts_with_def substr_def)

theorem listKeys_needs_slash_witness:
  "\<exists>ks. filter_keys ''p'' [''p/a'', ''q/b'', ''p/c''] = Inr ks \<and> map (joinKey ''p'') ks = [''p/a'', ''p/c'']"
  using listKeys_needs_slash [of "[''p/a'', ''q/b'', ''p/c'']" "''p''"] by (simp add: starts_with_def)

end
