(* ===== verification/FileStore.thy ===== *)
theory FileStore
  imports Stores
begin

text \<open>
  \<open>torch/csrc/distributed/c10d/FileStore.cpp\<close>: workers that share a file. The file is a log of
  records, each a key and a value with 32-bit lengths; every worker replays the part of the log it
  has not read yet into its cache. The state holds the bytes of the file and, for each worker, its
  read position and cache. One operation of one worker runs under the file lock and is one step.
\<close>

type_synonym cache = "(string \<times> bytes) list"

record file_worker =
  fw_pos :: nat
  fw_cache :: cache

record file_store =
  fs_file :: "bytes option"            \<comment> \<open>\<open>None\<close>: the file does not exist\<close>
  fs_workers :: "nat \<Rightarrow> file_worker"

section \<open>The file\<close>

text \<open>
  \<open>read\<close> repeats until it has all the bytes: at the end of the file it never returns, which is
  \<open>None\<close> here.
\<close>

definition read_bytes :: "bytes \<Rightarrow> nat \<Rightarrow> nat \<Rightarrow> (bytes \<times> nat) option" where
  "read_bytes f c n = (if n = 0 then Some ([], c)
     else if c + n \<le> length f then Some (take n (drop c f), c + n) else None)"

definition read_field :: "bytes \<Rightarrow> nat \<Rightarrow> (bytes \<times> nat) option" where
  "read_field f c = (case read_bytes f c 4 of None \<Rightarrow> None
     | Some (len, c') \<Rightarrow> read_bytes f c' (from_le len))"

text \<open>The length is stored in a \<open>uint32_t\<close> and that many bytes are written.\<close>

definition write_field :: "bytes \<Rightarrow> bytes" where
  "write_field b = (let len = length b mod 2 ^ 32 in to_le 4 len @ take len b)"

definition deletePrefix :: string where "deletePrefix = ''-''"
definition regularPrefix :: string where "regularPrefix = ''/''"
definition cleanupKey :: string where "cleanupKey = ''cleanup/''"
definition refCountKey :: string where "refCountKey = ''refcount/''"

definition apply_record :: "string \<Rightarrow> bytes \<Rightarrow> cache \<Rightarrow> cache" where
  "apply_record key v cache =
     (if starts_with key deletePrefix then AList.delete (drop (length deletePrefix) key) cache
      else AList.update key v cache)"

lemma read_bytes_Some:
  "read_bytes f c n = Some (b, c') \<Longrightarrow> c' = c + n \<and> length b = n \<and> (n \<noteq> 0 \<longrightarrow> c' \<le> length f)"
  by (auto simp: read_bytes_def split: if_splits)

lemma read_field_Some:
  assumes "read_field f c = Some (b, c')" shows "c + 4 \<le> c'" "c' \<le> length f"
proof -
  from assms obtain l c1 where l: "read_bytes f c 4 = Some (l, c1)" "read_bytes f c1 (from_le l) = Some (b, c')"
    by (auto simp: read_field_def split: option.splits)
  from read_bytes_Some [OF l(1)] read_bytes_Some [OF l(2)]
  show "c + 4 \<le> c'" "c' \<le> length f" by (cases "from_le l = 0"; auto)+
qed

lemma read_field_progress: "read_field f c = Some (b, c') \<Longrightarrow> c < c' \<and> c' \<le> length f"
  using read_field_Some [of f c b c'] by simp

function refresh_loop :: "bytes \<Rightarrow> nat \<Rightarrow> cache \<Rightarrow> (nat \<times> cache) option" where
  "refresh_loop f pos cache =
     (if pos < length f then
        case read_field f pos of None \<Rightarrow> None
        | Some (k, c1) \<Rightarrow> case read_field f c1 of None \<Rightarrow> None
          | Some (v, c2) \<Rightarrow> refresh_loop f c2 (apply_record (bytes_string k) v cache)
      else Some (pos, cache))"
  by pat_completeness auto
termination
  by (relation "measure (\<lambda>(f, pos, _). length f - pos)") (auto dest!: read_field_progress)

declare refresh_loop.simps [simp del]

definition refresh :: "bytes \<Rightarrow> file_worker \<Rightarrow> file_worker option" where
  "refresh f wk = (if length f \<noteq> fw_pos wk
     then map_option (\<lambda>(pos, cache). \<lparr> fw_pos = pos, fw_cache = cache \<rparr>) (refresh_loop f (fw_pos wk) (fw_cache wk))
     else Some wk)"

section \<open>Operations\<close>

text \<open>
  \<open>open_create\<close> is the constructor of \<open>File\<close> with \<open>O_CREAT\<close>; without it the constructor waits until
  the file exists.
\<close>

definition open_create :: "file_store \<Rightarrow> bytes" where
  "open_create s = (case fs_file s of None \<Rightarrow> [] | Some f \<Rightarrow> f)"

definition with_refresh ::
    "file_store \<Rightarrow> nat \<Rightarrow> bytes \<Rightarrow> (file_store \<Rightarrow> cache \<Rightarrow> file_store \<times> 'a outcome) \<Rightarrow> file_store \<times> 'a outcome" where
  "with_refresh s w f body = (case refresh f (fs_workers s w) of
       None \<Rightarrow> (s\<lparr> fs_file := Some f \<rparr>, Blocks)
     | Some wk \<Rightarrow> body (s\<lparr> fs_file := Some f, fs_workers := (fs_workers s)(w := wk) \<rparr>) (fw_cache wk))"

definition file_write :: "file_store \<Rightarrow> bytes \<Rightarrow> string \<Rightarrow> bytes \<Rightarrow> file_store" where
  "file_write s f key v = s\<lparr> fs_file := Some (f @ write_field (string_bytes key) @ write_field v) \<rparr>"

definition file_set :: "nat \<Rightarrow> file_store \<Rightarrow> string \<Rightarrow> bytes \<Rightarrow> file_store \<times> unit outcome" where
  "file_set w s key v = (file_write s (open_create s) (regularPrefix @ key) v, Returns ())"

definition file_compareSet :: "nat \<Rightarrow> file_store \<Rightarrow> string \<Rightarrow> bytes \<Rightarrow> bytes \<Rightarrow> file_store \<times> bytes outcome" where
  "file_compareSet w s key expectedValue desiredValue =
     (let regKey = regularPrefix @ key; f = open_create s in
      with_refresh s w f (\<lambda>s' cache.
        let cur = map_of cache regKey in
        if (cur = None \<and> expectedValue = []) \<or> (cur \<noteq> None \<and> the cur = expectedValue)
        then (file_write s' f regKey desiredValue, Returns desiredValue)
        else if cur = None then (s', Returns expectedValue)
        else (s', Returns (the cur))))"

text \<open>
  One round of the polling loop of \<open>get\<close>. \<open>Blocks\<close> means that the thread sleeps and tries again.
\<close>

definition file_get :: "nat \<Rightarrow> file_store \<Rightarrow> string \<Rightarrow> file_store \<times> bytes outcome" where
  "file_get w s key = (let regKey = regularPrefix @ key in
     case fs_file s of None \<Rightarrow> (s, Blocks)
     | Some f \<Rightarrow>
        if map_of (fw_cache (fs_workers s w)) regKey = None \<and> length f = fw_pos (fs_workers s w) then (s, Blocks)
        else with_refresh s w f (\<lambda>s' cache. (s', case map_of cache regKey of None \<Rightarrow> Blocks | Some v \<Rightarrow> Returns v)))"

text \<open>\<open>cache_[key]\<close> inserts an empty value for a missing key before the new value is written.\<close>

definition addHelper :: "nat \<Rightarrow> file_store \<Rightarrow> string \<Rightarrow> int \<Rightarrow> file_store \<times> int outcome" where
  "addHelper w s key i = (let f = open_create s in
     with_refresh s w f (\<lambda>s' cache.
       let v = (case map_of cache key of None \<Rightarrow> [] | Some v \<Rightarrow> v);
           cache' = (case map_of cache key of None \<Rightarrow> AList.update key [] cache | Some v \<Rightarrow> cache);
           s'' = s'\<lparr> fs_workers := (fs_workers s')(w := (fs_workers s' w)\<lparr> fw_cache := cache' \<rparr>) \<rparr>
       in case (if v = [] then Inr i else bindE (stoll (bytes_string v)) (\<lambda>n. Inr (s64 (i + n)))) of
            Inl e \<Rightarrow> (s'', Throws e)
          | Inr ti \<Rightarrow> (file_write s'' f key (string_bytes (to_string ti)), Returns ti)))"

definition file_add :: "nat \<Rightarrow> file_store \<Rightarrow> string \<Rightarrow> int \<Rightarrow> file_store \<times> int outcome" where
  "file_add w s key v = addHelper w s (regularPrefix @ key) v"

definition file_getNumKeys :: "nat \<Rightarrow> file_store \<Rightarrow> file_store \<times> int outcome" where
  "file_getNumKeys w s = (case fs_file s of None \<Rightarrow> (s, Blocks)
     | Some f \<Rightarrow> with_refresh s w f (\<lambda>s' cache. (s', Returns (int (length cache)))))"

definition file_deleteKey :: "nat \<Rightarrow> file_store \<Rightarrow> string \<Rightarrow> file_store \<times> bool outcome" where
  "file_deleteKey w s key = (case fs_file s of None \<Rightarrow> (s, Blocks)
     | Some f \<Rightarrow> (file_write s f (deletePrefix @ regularPrefix @ key) [], Returns True))"

fun all_cached :: "cache \<Rightarrow> string list \<Rightarrow> bool" where
  "all_cached cache [] = True"
| "all_cached cache (key # keys) =
     (if map_of cache (regularPrefix @ key) = None then False else all_cached cache keys)"

definition file_check :: "nat \<Rightarrow> file_store \<Rightarrow> string list \<Rightarrow> file_store \<times> bool outcome" where
  "file_check w s keys = (case fs_file s of None \<Rightarrow> (s, Blocks)
     | Some f \<Rightarrow> with_refresh s w f (\<lambda>s' cache. (s', Returns (all_cached cache keys))))"

definition file_wait :: "nat \<Rightarrow> file_store \<Rightarrow> string list \<Rightarrow> file_store \<times> unit outcome" where
  "file_wait w s keys = bindO (file_check w s keys) (\<lambda>s' b. (s', if b then Returns () else Blocks))"

definition file_listKeys :: "nat \<Rightarrow> file_store \<Rightarrow> file_store \<times> string list outcome" where
  "file_listKeys w s = (case fs_file s of None \<Rightarrow> (s, Blocks)
     | Some f \<Rightarrow> with_refresh s w f (\<lambda>s' cache.
         (s', case mapE (\<lambda>kv. substr (fst kv) (length regularPrefix)) cache of
                Inl e \<Rightarrow> Throws e | Inr ks \<Rightarrow> Returns ks)))"

text \<open>The constructor (of a worker with an empty cache) and the destructor.\<close>

definition file_construct :: "nat \<Rightarrow> file_store \<Rightarrow> file_store \<times> int outcome" where
  "file_construct w s =
     addHelper w (s\<lparr> fs_workers := (fs_workers s)(w := \<lparr> fw_pos = 0, fw_cache = [] \<rparr>) \<rparr>) refCountKey 1"

definition file_destruct :: "int \<Rightarrow> nat \<Rightarrow> file_store \<Rightarrow> file_store \<times> unit outcome" where
  "file_destruct numWorkers w s = (case fs_file s of None \<Rightarrow> (s, Returns ())
     | Some _ \<Rightarrow> bindO (addHelper w s cleanupKey 1) (\<lambda>s1 numFinishedWorker.
         bindO (addHelper w s1 refCountKey (-1)) (\<lambda>s2 refCount.
           if refCount = 0 \<and> numWorkers \<ge> 0 \<and> numFinishedWorker \<ge> numWorkers
           then (s2\<lparr> fs_file := None \<rparr>, Returns ()) else (s2, Returns ()))))"

section \<open>The log\<close>

type_synonym log = "(string \<times> bytes) list"

definition encode_log :: "log \<Rightarrow> bytes" where
  "encode_log rs = concat (map (\<lambda>(k, v). write_field (string_bytes k) @ write_field v) rs)"

definition log_ok :: "log \<Rightarrow> bool" where
  "log_ok rs \<longleftrightarrow> (\<forall>(k, v) \<in> set rs. length k < 2 ^ 32 \<and> length v < 2 ^ 32)"

definition apply_map :: "(string \<Rightarrow> bytes option) \<Rightarrow> string \<times> bytes \<Rightarrow> (string \<Rightarrow> bytes option)" where
  "apply_map m r = (case r of (k, v) \<Rightarrow>
     if starts_with k deletePrefix then m(drop (length deletePrefix) k := None) else m(k \<mapsto> v))"

definition replay :: "(string \<Rightarrow> bytes option) \<Rightarrow> log \<Rightarrow> (string \<Rightarrow> bytes option)" where
  "replay m rs = foldl apply_map m rs"

definition replay_cache :: "cache \<Rightarrow> log \<Rightarrow> cache" where
  "replay_cache c rs = foldl (\<lambda>c (k, v). apply_record k v c) c rs"

lemma encode_log_simps [simp]:
  "encode_log [] = []"
  "encode_log ((k, v) # rs) = write_field (string_bytes k) @ write_field v @ encode_log rs"
  "encode_log (rs @ rs') = encode_log rs @ encode_log rs'"
  by (simp_all add: encode_log_def)

lemma log_ok_simps [simp]:
  "log_ok []" "log_ok ((k, v) # rs) \<longleftrightarrow> length k < 2 ^ 32 \<and> length v < 2 ^ 32 \<and> log_ok rs"
  "log_ok (rs @ rs') \<longleftrightarrow> log_ok rs \<and> log_ok rs'"
  by (auto simp: log_ok_def)

lemma replay_simps [simp]:
  "replay m [] = m" "replay m (r # rs) = replay (apply_map m r) rs"
  "replay m (rs @ rs') = replay (replay m rs) rs'"
  by (simp_all add: replay_def)

lemma replay_cache_simps [simp]:
  "replay_cache c [] = c" "replay_cache c ((k, v) # rs) = replay_cache (apply_record k v c) rs"
  by (simp_all add: replay_cache_def)

lemma apply_record_map:
  "map_of (apply_record k v c) = apply_map (map_of c) (k, v)"
  by (simp add: apply_record_def apply_map_def update_conv' delete_conv')

lemma apply_record_distinct: "distinct (map fst c) \<Longrightarrow> distinct (map fst (apply_record k v c))"
  by (simp add: apply_record_def distinct_update distinct_delete)

lemma replay_cache_map: "map_of (replay_cache c rs) = replay (map_of c) rs"
  by (induction rs arbitrary: c) (auto simp: apply_record_map)

lemma replay_cache_distinct: "distinct (map fst c) \<Longrightarrow> distinct (map fst (replay_cache c rs))"
  by (induction rs arbitrary: c) (auto simp: apply_record_distinct)

lemma read_bytes_append: "c = length a \<Longrightarrow> read_bytes (a @ b @ d) c (length b) = Some (b, c + length b)"
  by (simp add: read_bytes_def)

lemma length_write_field: "length b < 2 ^ 32 \<Longrightarrow> length (write_field b) = 4 + length b"
  by (simp add: write_field_def)

lemma read_write_field:
  assumes "length b < 2 ^ 32" "c = length a"
  shows "read_field (a @ write_field b @ d) c = Some (b, c + length (write_field b))"
proof -
  have w: "write_field b = to_le 4 (length b) @ b" using assms(1) by (simp add: write_field_def)
  have 1: "read_bytes (a @ write_field b @ d) c 4 = Some (to_le 4 (length b), c + 4)"
    using read_bytes_append [OF assms(2), of "to_le 4 (length b)" "b @ d"] by (simp add: w)
  have "from_le (to_le 4 (length b)) = length b" using assms(1) by simp
  then show ?thesis
    using 1 read_bytes_append [of "c + 4" "a @ to_le 4 (length b)" b d] assms(2)
    by (simp add: read_field_def w)
qed

lemma refresh_loop_log:
  assumes "log_ok rs" "pos = length a"
  shows "refresh_loop (a @ encode_log rs) pos c = Some (pos + length (encode_log rs), replay_cache c rs)"
  using assms
proof (induction rs arbitrary: a pos c)
  case Nil
  then show ?case by (subst refresh_loop.simps) simp
next
  case (Cons r rs)
  obtain k v where r: "r = (k, v)" by fastforce
  let ?k = "write_field (string_bytes k)" and ?v = "write_field v"
  let ?f = "a @ ?k @ ?v @ encode_log rs"
  have ok: "length (string_bytes k) < 2 ^ 32" "length v < 2 ^ 32" "log_ok rs" using Cons.prems r by auto
  have 1: "read_field ?f pos = Some (string_bytes k, pos + length ?k)"
    using read_write_field [OF ok(1) Cons.prems(2)] .
  have 2: "read_field ?f (pos + length ?k) = Some (v, pos + length ?k + length ?v)"
    using read_write_field [OF ok(2), of "pos + length ?k" "a @ ?k" "encode_log rs"] Cons.prems(2) by simp
  have "pos < length ?f" using Cons.prems(2) length_write_field [OF ok(1)] by simp
  then have "refresh_loop ?f pos c = refresh_loop ?f (pos + length ?k + length ?v) (apply_record k v c)"
    using 1 2 by (subst refresh_loop.simps) simp
  also have "\<dots> = Some (pos + length ?k + length ?v + length (encode_log rs), replay_cache (apply_record k v c) rs)"
    using Cons.IH [OF ok(3), of "pos + length ?k + length ?v" "a @ ?k @ ?v" "apply_record k v c"] Cons.prems(2)
    by simp
  finally show ?case using r by (simp add: add.assoc)
qed

section \<open>Invariant\<close>

text \<open>
  A worker is consistent with the log when its position is a record boundary and replaying the rest
  of the log on its cache gives the contents of the whole log.
\<close>

definition worker_ok :: "log \<Rightarrow> file_worker \<Rightarrow> bool" where
  "worker_ok rs wk \<longleftrightarrow> distinct (map fst (fw_cache wk)) \<and>
     (\<exists>rs1 rs2. rs = rs1 @ rs2 \<and> fw_pos wk = length (encode_log rs1) \<and>
        replay (map_of (fw_cache wk)) rs2 = replay Map.empty rs)"

definition file_inv :: "file_store \<Rightarrow> bool" where
  "file_inv s \<longleftrightarrow> (\<exists>rs. log_ok rs \<and> fs_file s = Some (encode_log rs) \<and> (\<forall>w. worker_ok rs (fs_workers s w)))"

definition file_raw :: "file_store \<Rightarrow> string \<Rightarrow> bytes option" where
  "file_raw s = (case fs_file s of None \<Rightarrow> Map.empty
     | Some f \<Rightarrow> (case refresh_loop f 0 [] of None \<Rightarrow> Map.empty | Some (_, c) \<Rightarrow> map_of c))"

definition file_lookup :: "file_store \<Rightarrow> string \<Rightarrow> bytes option" where
  "file_lookup s k = file_raw s (regularPrefix @ k)"

lemma file_raw_log: "log_ok rs \<Longrightarrow> fs_file s = Some (encode_log rs) \<Longrightarrow> file_raw s = replay Map.empty rs"
  using refresh_loop_log [of rs 0 "[]" "[]"] by (simp add: file_raw_def replay_cache_map)

lemma encode_log_Nil_iff: "encode_log rs = [] \<longleftrightarrow> rs = []"
proof (cases rs)
  case (Cons r rs')
  have "write_field b \<noteq> []" for b by (simp add: write_field_def Let_def flip: length_0_conv)
  then show ?thesis using Cons by (cases r) simp
qed simp

lemma refresh_ok:
  assumes "log_ok rs" "worker_ok rs wk"
  shows "\<exists>wk'. refresh (encode_log rs) wk = Some wk' \<and> fw_pos wk' = length (encode_log rs) \<and>
      map_of (fw_cache wk') = replay Map.empty rs \<and> distinct (map fst (fw_cache wk'))"
proof -
  obtain rs1 rs2 where r: "rs = rs1 @ rs2" "fw_pos wk = length (encode_log rs1)"
      "replay (map_of (fw_cache wk)) rs2 = replay Map.empty rs" "distinct (map fst (fw_cache wk))"
    using assms(2) by (auto simp: worker_ok_def)
  have l: "refresh_loop (encode_log rs) (fw_pos wk) (fw_cache wk) =
      Some (length (encode_log rs), replay_cache (fw_cache wk) rs2)"
    using refresh_loop_log [of rs2 "fw_pos wk" "encode_log rs1" "fw_cache wk"] r assms(1) by simp
  show ?thesis
  proof (cases "length (encode_log rs) = fw_pos wk")
    case True
    then have "rs2 = []" using r by (simp add: encode_log_Nil_iff)
    then show ?thesis using r True by (simp add: refresh_def)
  next
    case False
    then show ?thesis using l r by (simp add: refresh_def replay_cache_map replay_cache_distinct)
  qed
qed

lemma worker_ok_current:
  "fw_pos wk = length (encode_log rs) \<Longrightarrow> map_of (fw_cache wk) = replay Map.empty rs \<Longrightarrow>
     distinct (map fst (fw_cache wk)) \<Longrightarrow> worker_ok rs wk"
  unfolding worker_ok_def by (intro conjI exI [of _ rs] exI [of _ "[]"]) auto

lemma worker_ok_snoc: "worker_ok rs wk \<Longrightarrow> worker_ok (rs @ [r]) wk"
proof -
  assume "worker_ok rs wk"
  then obtain rs1 rs2 where r: "rs = rs1 @ rs2" "fw_pos wk = length (encode_log rs1)"
      "replay (map_of (fw_cache wk)) rs2 = replay Map.empty rs" "distinct (map fst (fw_cache wk))"
    by (auto simp: worker_ok_def)
  have "replay (map_of (fw_cache wk)) (rs2 @ [r]) = replay Map.empty (rs @ [r])"
    unfolding replay_simps(3) r(3) ..
  then show ?thesis unfolding worker_ok_def
    using r by (intro conjI exI [of _ rs1] exI [of _ "rs2 @ [r]"]) simp_all
qed

lemma with_refresh_ok:
  assumes "file_inv s" "fs_file s = Some f"
  shows "\<exists>s' c. with_refresh s w f body = body s' c \<and> file_inv s' \<and> fs_file s' = Some f \<and>
      file_raw s' = file_raw s \<and> map_of c = file_raw s \<and> distinct (map fst c) \<and>
      fw_cache (fs_workers s' w) = c \<and> fw_pos (fs_workers s' w) = length f"
proof -
  obtain rs where rs: "log_ok rs" "f = encode_log rs" "\<And>w. worker_ok rs (fs_workers s w)"
    using assms by (auto simp: file_inv_def)
  obtain wk where wk: "refresh f (fs_workers s w) = Some wk" "fw_pos wk = length f"
      "map_of (fw_cache wk) = replay Map.empty rs" "distinct (map fst (fw_cache wk))"
    using refresh_ok [OF rs(1) rs(3)] rs(2) by blast
  let ?s' = "s\<lparr> fs_file := Some f, fs_workers := (fs_workers s)(w := wk) \<rparr>"
  have "file_inv ?s'" using rs wk worker_ok_current [of wk rs] by (auto simp: file_inv_def)
  moreover have "file_raw s = replay Map.empty rs" "file_raw ?s' = replay Map.empty rs"
    using file_raw_log [OF rs(1)] assms(2) rs(2) by auto
  ultimately show ?thesis using wk
    by (intro exI [of _ ?s'] exI [of _ "fw_cache wk"]) (simp add: with_refresh_def)
qed

lemma file_write_ok:
  assumes "file_inv s" "fs_file s = Some f" "length k < 2 ^ 32" "length v < 2 ^ 32"
  shows "file_inv (file_write s f k v)" "file_raw (file_write s f k v) = apply_map (file_raw s) (k, v)"
proof -
  obtain rs where rs: "log_ok rs" "f = encode_log rs" "\<And>w. worker_ok rs (fs_workers s w)"
    using assms by (auto simp: file_inv_def)
  have ok: "log_ok (rs @ [(k, v)])" using rs(1) assms by simp
  have f: "fs_file (file_write s f k v) = Some (encode_log (rs @ [(k, v)]))" using rs(2) by (simp add: file_write_def)
  show "file_inv (file_write s f k v)"
    unfolding file_inv_def using ok f rs(3) worker_ok_snoc
    by (intro exI [of _ "rs @ [(k, v)]"]) (auto simp: file_write_def)
  show "file_raw (file_write s f k v) = apply_map (file_raw s) (k, v)"
    using file_raw_log [OF ok f] file_raw_log [OF rs(1), of s] assms(2) rs(2) by simp
qed

text \<open>The cache of the writing worker may hold any value for the key that is being written.\<close>

lemma file_write_poked:
  fixes u :: bytes
  assumes "file_inv s" "fs_file s = Some f" "length k < 2 ^ 32" "length v < 2 ^ 32"
    and k: "\<not> starts_with k deletePrefix"
    and w: "fw_pos (fs_workers s w) = length f" "map_of (fw_cache (fs_workers s w)) = file_raw s"
      "distinct (map fst (fw_cache (fs_workers s w)))"
  defines "s' \<equiv> s\<lparr> fs_workers := (fs_workers s)(w := (fs_workers s w)\<lparr> fw_cache := AList.update k u (fw_cache (fs_workers s w)) \<rparr>) \<rparr>"
  shows "file_inv (file_write s' f k v)" "file_raw (file_write s' f k v) = (file_raw s)(k \<mapsto> v)"
proof -
  obtain rs where rs: "log_ok rs" "f = encode_log rs" "\<And>w. worker_ok rs (fs_workers s w)"
    using assms(1,2) by (auto simp: file_inv_def)
  have raw: "file_raw s = replay Map.empty rs" using file_raw_log [OF rs(1)] assms(2) rs(2) by simp
  have ok: "log_ok (rs @ [(k, v)])" using rs(1) assms by simp
  have f: "fs_file (file_write s' f k v) = Some (encode_log (rs @ [(k, v)]))" using rs(2) by (simp add: file_write_def)
  let ?wk = "(fs_workers s w)\<lparr> fw_cache := AList.update k u (fw_cache (fs_workers s w)) \<rparr>"
  have "worker_ok (rs @ [(k, v)]) ?wk"
    unfolding worker_ok_def
    using w rs(2) raw k
    by (intro conjI exI [of _ rs] exI [of _ "[(k, v)]"])
      (auto simp: distinct_update update_conv' apply_map_def)
  then show "file_inv (file_write s' f k v)"
    unfolding file_inv_def using ok f rs(3) worker_ok_snoc
    by (intro exI [of _ "rs @ [(k, v)]"]) (auto simp: file_write_def s'_def)
  show "file_raw (file_write s' f k v) = (file_raw s)(k \<mapsto> v)"
    using file_raw_log [OF ok f] raw k by (simp add: apply_map_def)
qed

text \<open>\<open>addHelper\<close> on a raw key.\<close>

lemma addHelper_ok:
  assumes "file_inv s" "length k < 2 ^ 32" "\<not> starts_with k deletePrefix" "in_s64 i"
    "(case file_raw s k of None \<Rightarrow> Inr 0 | Some v \<Rightarrow> stoll (bytes_string v)) = Inr n"
  shows "\<exists>s'. addHelper w s k i = (s', Returns (s64 (i + n))) \<and> file_inv s' \<and>
      file_raw s' = (file_raw s)(k \<mapsto> string_bytes (to_string (s64 (i + n))))"
proof -
  obtain f where f: "fs_file s = Some f" using assms(1) by (auto simp: file_inv_def)
  let ?ti = "s64 (i + n)"
  let ?body = "\<lambda>s' cache.
       let v = (case map_of cache k of None \<Rightarrow> [] | Some v \<Rightarrow> v);
           cache' = (case map_of cache k of None \<Rightarrow> AList.update k [] cache | Some v \<Rightarrow> cache);
           s'' = s'\<lparr> fs_workers := (fs_workers s')(w := (fs_workers s' w)\<lparr> fw_cache := cache' \<rparr>) \<rparr>
       in case (if v = [] then Inr i else bindE (stoll (bytes_string v)) (\<lambda>n. Inr (s64 (i + n)))) of
            Inl e \<Rightarrow> (s'', Throws e)
          | Inr ti \<Rightarrow> (file_write s'' f k (string_bytes (to_string ti)), Returns ti)"
  obtain s1 c where s1: "with_refresh s w f ?body = ?body s1 c" "file_inv s1" "fs_file s1 = Some f"
      "file_raw s1 = file_raw s" "map_of c = file_raw s" "distinct (map fst c)"
      "fw_cache (fs_workers s1 w) = c" "fw_pos (fs_workers s1 w) = length f"
    using with_refresh_ok [OF assms(1) f, of w ?body] by blast
  have a: "addHelper w s k i = ?body s1 c" using s1(1) f by (simp add: addHelper_def open_create_def)
  have len: "length (string_bytes (to_string ?ti)) < 2 ^ 32" using length_to_string [of ?ti] by simp
  show ?thesis
  proof (cases "file_raw s k")
    case None
    let ?s2 = "s1\<lparr> fs_workers := (fs_workers s1)(w := (fs_workers s1 w)\<lparr> fw_cache := AList.update k [] (fw_cache (fs_workers s1 w)) \<rparr>) \<rparr>"
    have "addHelper w s k i = (file_write ?s2 f k (string_bytes (to_string ?ti)), Returns ?ti)"
      using a None s1(5,7) assms(4,5) by simp
    then show ?thesis
      using file_write_poked [OF s1(2,3) assms(2) len assms(3) s1(8), of "[]"] s1 by (simp add: Let_def)
  next
    case (Some v)
    have ne: "v \<noteq> []" using assms(5) Some by (auto simp: stoll_Nil)
    have "s1\<lparr> fs_workers := (fs_workers s1)(w := (fs_workers s1 w)\<lparr> fw_cache := c \<rparr>) \<rparr> = s1"
      using s1(7) by (cases s1, cases "fs_workers s1 w") auto
    then have "addHelper w s k i = (file_write s1 f k (string_bytes (to_string ?ti)), Returns ?ti)"
      using a Some s1(5,7) assms(4,5) ne by (simp add: Let_def)
    then show ?thesis
      using file_write_ok [OF s1(2,3) assms(2) len] s1(4) assms(3) by (simp add: apply_map_def)
  qed
qed

section \<open>The store is a map\<close>

definition file_ok_key :: "string \<Rightarrow> bool" where
  "file_ok_key k \<longleftrightarrow> length k + 2 < 2 ^ 32"

definition file_ok_val :: "bytes \<Rightarrow> bool" where
  "file_ok_val v \<longleftrightarrow> length v < 2 ^ 32"

lemma reg_key: "file_ok_key k \<Longrightarrow> length (regularPrefix @ k) < 2 ^ 32"
  "\<not> starts_with (regularPrefix @ k) deletePrefix"
  by (simp_all add: file_ok_key_def regularPrefix_def deletePrefix_def starts_with_def)

lemma file_lookup_upd: "(\<lambda>k'. ((file_raw s)(regularPrefix @ k := v)) (regularPrefix @ k')) = (file_lookup s)(k := v)"
  by (auto simp: file_lookup_def fun_eq_iff)

lemma file_lookup_raw: "file_raw s' = (file_raw s)(regularPrefix @ k := v) \<Longrightarrow> file_lookup s' = (file_lookup s)(k := v)"
  by (auto simp: file_lookup_def fun_eq_iff)

lemma file_write_reg:
  assumes "file_inv s" "fs_file s = Some f" "file_ok_key k" "file_ok_val v"
  shows "file_inv (file_write s f (regularPrefix @ k) v)"
    "file_lookup (file_write s f (regularPrefix @ k) v) = (file_lookup s)(k \<mapsto> v)"
proof -
  note w = file_write_ok [OF assms(1,2) reg_key(1) [OF assms(3)], of v]
  show "file_inv (file_write s f (regularPrefix @ k) v)" using w assms(4) by (simp add: file_ok_val_def)
  show "file_lookup (file_write s f (regularPrefix @ k) v) = (file_lookup s)(k \<mapsto> v)"
    by (rule file_lookup_raw) (use w assms(4) reg_key(2) in \<open>simp add: file_ok_val_def apply_map_def\<close>)
qed

lemma all_cached_iff: "map_of c = file_raw s \<Longrightarrow> all_cached c ks \<longleftrightarrow> (\<forall>k \<in> set ks. file_lookup s k \<noteq> None)"
  by (induction ks) (auto simp: file_lookup_def)

lemma file_check_ok:
  assumes "file_inv s"
  shows "\<exists>s'. file_check w s ks = (s', Returns (\<forall>k \<in> set ks. file_lookup s k \<noteq> None)) \<and>
      file_inv s' \<and> file_raw s' = file_raw s"
proof -
  obtain f where f: "fs_file s = Some f" using assms(1) by (auto simp: file_inv_def)
  show ?thesis
    using with_refresh_ok [OF assms f, of w "\<lambda>s' cache. (s', Returns (all_cached cache ks))"] f
    by (auto simp: file_check_def all_cached_iff)
qed

interpretation fs: kv_store file_inv file_lookup "\<lambda>_ _. []" file_ok_key file_ok_val
  "file_set w" "file_compareSet w" "file_get w" "file_add w" "file_check w" "file_wait w" "file_deleteKey w"
  for w
proof (unfold_locales, goal_cases)
  case (1 s k v)
  then obtain f where f: "fs_file s = Some f" by (auto simp: file_inv_def)
  then show ?case using file_write_reg [OF 1(1) f 1(2,3)]
    by (simp add: file_set_def open_create_def store_upd_def)
next
  case (2 s k e d)
  then obtain f where f: "fs_file s = Some f" by (auto simp: file_inv_def)
  let ?r = "regularPrefix @ k"
  let ?body = "\<lambda>s' cache. let cur = map_of cache ?r in
        if (cur = None \<and> e = []) \<or> (cur \<noteq> None \<and> the cur = e)
        then (file_write s' f ?r d, Returns d) else if cur = None then (s', Returns e) else (s', Returns (the cur))"
  obtain s1 c where s1: "with_refresh s w f ?body = ?body s1 c" "file_inv s1" "fs_file s1 = Some f"
      "file_raw s1 = file_raw s" "map_of c = file_raw s"
    using with_refresh_ok [OF 2(1) f, of w ?body] by blast
  have l: "file_lookup s1 = file_lookup s" "map_of c ?r = file_lookup s k"
    using s1(4,5) by (simp_all add: file_lookup_def fun_eq_iff)
  have "file_compareSet w s k e d = ?body s1 c"
    using s1(1) f by (simp add: file_compareSet_def open_create_def Let_def)
  then show ?case using file_write_reg [OF s1(2,3) 2(2,4)] s1(2) l
    by (cases "file_lookup s k") (auto simp: store_upd_def cas_matches_def cas_result_def)
next
  case (3 s k)
  then obtain f where f: "fs_file s = Some f" by (auto simp: file_inv_def)
  let ?r = "regularPrefix @ k"
  let ?body = "\<lambda>s' cache. (s', case map_of cache ?r of None \<Rightarrow> Blocks | Some v \<Rightarrow> Returns v)"
  obtain s1 c where s1: "with_refresh s w f ?body = ?body s1 c" "file_inv s1"
      "file_raw s1 = file_raw s" "map_of c = file_raw s"
    using with_refresh_ok [OF 3(1) f, of w ?body] by blast
  have l: "file_lookup s1 = file_lookup s" "map_of c ?r = file_lookup s k"
    using s1(3,4) by (simp_all add: file_lookup_def fun_eq_iff)
  show ?case
  proof (cases "map_of (fw_cache (fs_workers s w)) ?r = None \<and> length f = fw_pos (fs_workers s w)")
    case True
    obtain rs where rs: "log_ok rs" "f = encode_log rs" "worker_ok rs (fs_workers s w)"
      using 3(1) f by (auto simp: file_inv_def)
    obtain rs1 rs2 where r: "rs = rs1 @ rs2" "fw_pos (fs_workers s w) = length (encode_log rs1)"
        "replay (map_of (fw_cache (fs_workers s w))) rs2 = replay Map.empty rs"
      using rs(3) by (auto simp: worker_ok_def)
    have "rs2 = []" using True rs(2) r by (simp add: encode_log_Nil_iff)
    then have "file_lookup s k = None"
      using True r(3) file_raw_log [OF rs(1), of s] f rs(2) by (simp add: file_lookup_def)
    then show ?thesis using True f 3(1) by (simp add: file_get_def store_upd_def)
  next
    case False
    then have "file_get w s k = ?body s1 c" using s1(1) f by (auto simp: file_get_def Let_def)
    then show ?thesis using s1(2) l by (simp add: store_upd_def)
  qed
next
  case (4 s k i)
  then show ?case
    using addHelper_ok [OF 4(1) reg_key(1) [OF 4(2)] reg_key(2) 4(3), of 0 w] file_lookup_raw
    by (auto simp: file_add_def file_lookup_def store_upd_def)
next
  case (5 s k i v n)
  then show ?case
    using addHelper_ok [OF 5(1) reg_key(1) [OF 5(2)] reg_key(2) 5(3), of n w] file_lookup_raw
    by (auto simp: file_add_def file_lookup_def store_upd_def)
next
  case (6 s ks)
  then show ?case using file_check_ok [OF 6(1), of w ks] by (auto simp: store_upd_def file_lookup_def fun_eq_iff)
next
  case (7 s ks)
  then show ?case using file_check_ok [OF 7(1), of w ks]
    by (auto simp: file_wait_def store_upd_def file_lookup_def fun_eq_iff)
next
  case (8 s k)
  then obtain f where f: "fs_file s = Some f" by (auto simp: file_inv_def)
  let ?d = "deletePrefix @ regularPrefix @ k"
  have "length ?d < 2 ^ 32" using 8(2) by (simp add: file_ok_key_def deletePrefix_def regularPrefix_def)
  from file_write_ok [OF 8(1) f this, of "[]"]
  have "file_inv (file_write s f ?d [])" "file_raw (file_write s f ?d []) = (file_raw s)(regularPrefix @ k := None)"
    by (simp_all add: apply_map_def)
  then show ?case using f file_lookup_raw by (auto simp: file_deleteKey_def store_upd_def)
qed

section \<open>Workers\<close>

definition file_exec :: "nat \<Rightarrow> file_store \<Rightarrow> kv_op \<Rightarrow> file_store \<times> kv_ret outcome" where
  "file_exec w = kv_exec (file_set w) (file_compareSet w) (file_get w) (file_add w) (file_check w)
     (file_wait w) (file_deleteKey w)"

interpretation fs_shared: shared_store file_inv file_lookup file_ok_key file_ok_val file_exec
  by unfold_locales (use fs.exec_refines in \<open>auto simp: store_upd_def file_exec_def\<close>)

definition file_fresh :: file_store where
  "file_fresh = \<lparr> fs_file = None, fs_workers = \<lambda>_. \<lparr> fw_pos = 0, fw_cache = [] \<rparr> \<rparr>"

definition counter :: "file_store \<Rightarrow> string \<Rightarrow> int \<Rightarrow> bool" where
  "counter s k n \<longleftrightarrow> (case file_raw s k of None \<Rightarrow> n = 0 | Some v \<Rightarrow> v = string_bytes (to_string n))"

lemma addHelper_counter:
  assumes "file_inv s" "length k < 2 ^ 32" "\<not> starts_with k deletePrefix" "in_s64 i" "in_s64 n" "in_s64 (i + n)"
    "counter s k n"
  shows "\<exists>s'. addHelper w s k i = (s', Returns (i + n)) \<and> file_inv s' \<and> counter s' k (i + n) \<and>
      (\<forall>k'. k' \<noteq> k \<longrightarrow> file_raw s' k' = file_raw s k')"
  using addHelper_ok [OF assms(1-4), of n w] assms(5-7) by (auto simp: counter_def split: option.splits)

lemma counter_frame: "file_raw s' k = file_raw s k \<Longrightarrow> counter s' k n = counter s k n"
  by (simp add: counter_def)

lemma internal_keys [simp]:
  "length refCountKey = 9" "\<not> starts_with refCountKey deletePrefix"
  "length cleanupKey = 8" "\<not> starts_with cleanupKey deletePrefix"
  "refCountKey \<noteq> cleanupKey" "cleanupKey \<noteq> refCountKey"
  "regularPrefix @ k \<noteq> refCountKey" "regularPrefix @ k \<noteq> cleanupKey"
  by (simp_all add: refCountKey_def cleanupKey_def deletePrefix_def regularPrefix_def starts_with_def)

text \<open>A state in which \<open>a\<close> workers exist and \<open>b\<close> have gone.\<close>

definition file_alive :: "file_store \<Rightarrow> int \<Rightarrow> int \<Rightarrow> bool" where
  "file_alive s a b \<longleftrightarrow> file_inv s \<and> counter s refCountKey a \<and> counter s cleanupKey b"

lemma file_construct_alive:
  assumes "file_alive s a b" "in_s64 a" "in_s64 (1 + a)"
  shows "\<exists>s'. file_construct w s = (s', Returns (1 + a)) \<and> file_alive s' (1 + a) b \<and> file_lookup s' = file_lookup s"
proof -
  let ?s = "s\<lparr> fs_workers := (fs_workers s)(w := \<lparr> fw_pos = 0, fw_cache = [] \<rparr>) \<rparr>"
  have "worker_ok rs \<lparr> fw_pos = 0, fw_cache = [] \<rparr>" for rs
    unfolding worker_ok_def by (intro conjI exI [of _ "[]"] exI [of _ rs]) auto
  then have i: "file_inv ?s" using assms(1) by (auto simp: file_alive_def file_inv_def)
  have r: "file_raw ?s = file_raw s" by (simp add: file_raw_def)
  have "counter ?s refCountKey a" using assms(1) r by (simp add: file_alive_def counter_def)
  from addHelper_counter [OF i _ _ _ assms(2) _ this, of 1 w] assms(3)
  obtain s' where s': "addHelper w ?s refCountKey 1 = (s', Returns (1 + a))" "file_inv s'"
      "counter s' refCountKey (1 + a)" "\<forall>k'. k' \<noteq> refCountKey \<longrightarrow> file_raw s' k' = file_raw s k'"
    using r by (auto simp: in_s64_def)
  then show ?thesis using assms(1) counter_frame [of s' cleanupKey s b]
    by (auto simp: file_construct_def file_alive_def file_lookup_def fun_eq_iff)
qed

lemma file_construct_first:
  "\<exists>s'. file_construct w file_fresh = (s', Returns 1) \<and> file_alive s' 1 0 \<and> file_lookup s' = Map.empty"
proof -
  let ?s = "file_fresh\<lparr> fs_file := Some [] \<rparr>"
  have "worker_ok [] \<lparr> fw_pos = 0, fw_cache = [] \<rparr>" by (simp add: worker_ok_def)
  then have i: "file_inv ?s" by (auto simp: file_inv_def file_fresh_def intro!: exI [of _ "[]"])
  have raw: "file_raw ?s = Map.empty" by (simp add: file_raw_def refresh_loop.simps)
  then have "file_alive ?s 0 0" using i by (simp add: file_alive_def counter_def)
  moreover have "file_construct w file_fresh = file_construct w ?s"
    by (simp add: file_construct_def file_fresh_def addHelper_def open_create_def with_refresh_def split: option.splits)
  ultimately show ?thesis using file_construct_alive [of ?s 0 0 w] raw
    by (auto simp: in_s64_def file_lookup_def fun_eq_iff)
qed

lemma file_destruct_alive:
  assumes "file_alive s a b" "in_s64 a" "in_s64 b" "in_s64 (a - 1)" "in_s64 (b + 1)"
  shows "\<exists>s'. file_destruct numWorkers w s = (s', Returns ()) \<and>
      (if a = 1 \<and> 0 \<le> numWorkers \<and> numWorkers \<le> b + 1 then fs_file s' = None
       else file_alive s' (a - 1) (b + 1) \<and> file_lookup s' = file_lookup s)"
proof -
  have i: "file_inv s" and c: "counter s cleanupKey b" using assms(1) by (simp_all add: file_alive_def)
  obtain s1 where s1: "addHelper w s cleanupKey 1 = (s1, Returns (1 + b))" "file_inv s1"
      "counter s1 cleanupKey (1 + b)" "\<forall>k'. k' \<noteq> cleanupKey \<longrightarrow> file_raw s1 k' = file_raw s k'"
    using addHelper_counter [OF i _ _ _ assms(3) _ c, of 1 w] assms(5) by (auto simp: in_s64_def add.commute)
  have c1: "counter s1 refCountKey a" using assms(1) s1(4) counter_frame [of s1 refCountKey s a]
    by (auto simp: file_alive_def)
  obtain s2 where s2: "addHelper w s1 refCountKey (-1) = (s2, Returns (a - 1))" "file_inv s2"
      "counter s2 refCountKey (a - 1)" "\<forall>k'. k' \<noteq> refCountKey \<longrightarrow> file_raw s2 k' = file_raw s1 k'"
    using addHelper_counter [OF s1(2) _ _ _ assms(2) _ c1, of "-1" w] assms(4) by (auto simp: in_s64_def)
  have c2: "counter s2 cleanupKey (b + 1)" using s1(3) s2(4) counter_frame [of s2 cleanupKey s1 "b + 1"]
    by (simp add: add.commute)
  have "file_lookup s2 = file_lookup s" using s1(4) s2(4) by (simp add: file_lookup_def fun_eq_iff)
  moreover obtain f where "fs_file s = Some f" using i by (auto simp: file_inv_def)
  ultimately show ?thesis using s1(1) s2 c2
    by (auto simp: file_destruct_def file_alive_def)
qed



section \<open>Life cycle\<close>

fun construct_all :: "nat \<Rightarrow> file_store \<Rightarrow> file_store \<times> unit outcome" where
  "construct_all 0 s = (s, Returns ())"
| "construct_all (Suc n) s = bindO (construct_all n s) (\<lambda>s' _. map_outcome (\<lambda>_. ()) (file_construct n s'))"

fun destruct_all :: "int \<Rightarrow> nat list \<Rightarrow> file_store \<Rightarrow> file_store \<times> unit outcome" where
  "destruct_all numWorkers [] s = (s, Returns ())"
| "destruct_all numWorkers (w # ws) s = bindO (file_destruct numWorkers w s) (\<lambda>s' _. destruct_all numWorkers ws s')"

lemma construct_all_alive:
  assumes "0 < n" "int n < 2 ^ 63"
  shows "\<exists>s. construct_all n file_fresh = (s, Returns ()) \<and> file_alive s (int n) 0"
  using assms
proof (induction n)
  case (Suc n)
  show ?case
  proof (cases "n = 0")
    case True
    then show ?thesis using file_construct_first [of 0] by auto
  next
    case False
    then obtain s where "construct_all n file_fresh = (s, Returns ())" "file_alive s (int n) 0"
      using Suc by auto
    then show ?thesis using file_construct_alive [of s "int n" 0 n] Suc.prems
      by (auto simp: in_s64_def)
  qed
qed simp

lemma destruct_all_alive:
  assumes "file_alive s (int a) b" "length ws < a" "int a < 2 ^ 63" "0 \<le> b" "b + int (length ws) < 2 ^ 63 - 1"
  shows "\<exists>s'. destruct_all numWorkers ws s = (s', Returns ()) \<and> file_alive s' (int a - int (length ws)) (b + int (length ws)) \<and>
      file_lookup s' = file_lookup s"
  using assms
proof (induction ws arbitrary: s a b)
  case (Cons w ws)
  then obtain s1 where s1: "file_destruct numWorkers w s = (s1, Returns ())" "file_alive s1 (int a - 1) (b + 1)"
      "file_lookup s1 = file_lookup s"
    using file_destruct_alive [of s "int a" b numWorkers w] by (auto simp: in_s64_def)
  then show ?case using Cons.IH [of s1 "a - 1" "b + 1"] Cons.prems by (auto simp: of_nat_diff algebra_simps)
qed simp

text \<open>
  Property: when \<open>n\<close> workers open the store and close it again, in any
  order, the file exists with all its keys until the last of them closes it, and the last one, and
  no other, removes the file.
\<close>
theorem file_removed_by_last_worker:
  assumes "0 < n" "int n < 2 ^ 62" "construct_all n file_fresh = (s, r)" "length ws < n"
  shows "\<exists>s1 s2. destruct_all (int n) ws s = (s1, Returns ()) \<and> file_inv s1 \<and> file_lookup s1 = file_lookup s \<and>
      file_destruct (int n) w s1 = (s2, Returns ()) \<and> (fs_file s2 = None \<longleftrightarrow> Suc (length ws) = n)"
proof -
  have s: "file_alive s (int n) 0" using construct_all_alive [of n] assms by auto
  obtain s1 where s1: "destruct_all (int n) ws s = (s1, Returns ())"
      "file_alive s1 (int n - int (length ws)) (int (length ws))" "file_lookup s1 = file_lookup s"
    using destruct_all_alive [OF s assms(4), of "int n"] assms by auto
  obtain s2 where s2: "file_destruct (int n) w s1 = (s2, Returns ())"
      "if int n - int (length ws) = 1 \<and> 0 \<le> int n \<and> int n \<le> int (length ws) + 1 then fs_file s2 = None
       else file_alive s2 (int n - int (length ws) - 1) (int (length ws) + 1) \<and> file_lookup s2 = file_lookup s1"
    using file_destruct_alive [OF s1(2), of "int n" w] assms by (auto simp: in_s64_def)
  have "(int n - int (length ws) = 1 \<and> 0 \<le> int n \<and> int n \<le> int (length ws) + 1) \<longleftrightarrow> Suc (length ws) = n"
    using assms(4) by auto
  then have "fs_file s2 = None \<longleftrightarrow> Suc (length ws) = n"
    using s2(2) by (auto simp: file_alive_def file_inv_def split: if_splits)
  then show ?thesis using s1 s2(1) by (auto simp: file_alive_def)
qed

theorem file_removed_by_last_worker_witness:
  "\<exists>s1 s2. destruct_all 2 [1] (fst (construct_all 2 file_fresh)) = (s1, Returns ()) \<and>
      file_destruct 2 0 s1 = (s2, Returns ()) \<and> fs_file s2 = None"
  using file_removed_by_last_worker [of 2 "fst (construct_all 2 file_fresh)" "snd (construct_all 2 file_fresh)" "[1]" 0]
  by auto

text \<open>
  Property: \<open>FileStore::listKeys\<close> strips one character from every key of
  the log, also from the reference counter that the store keeps for itself: a new store, in which no
  key has been set, lists the key \<open>efcount/\<close>.
\<close>
theorem listKeys_shows_refcount:
  "\<exists>s. file_construct w file_fresh = (s, Returns 1) \<and> file_lookup s = Map.empty \<and>
      snd (file_listKeys w s) = Returns [''efcount/'']"
proof -
  obtain s where s: "file_construct w file_fresh = (s, Returns 1)" "file_alive s 1 0" "file_lookup s = Map.empty"
    using file_construct_first by blast
  let ?one = "string_bytes (to_string 1)"
  have len: "length ?one < 2 ^ 32" using length_to_string [of 1] by (simp add: in_s64_def)
  have f: "fs_file s = Some (encode_log [(refCountKey, ?one)])"
    using s(1) by (auto simp: file_construct_def addHelper_def open_create_def file_fresh_def with_refresh_def
        refresh_def file_write_def)
  have w: "fs_workers s w = \<lparr> fw_pos = 0, fw_cache = [(refCountKey, [])] \<rparr>"
    using s(1) by (auto simp: file_construct_def addHelper_def open_create_def file_fresh_def with_refresh_def
        refresh_def file_write_def)
  have "refresh_loop (encode_log [(refCountKey, ?one)]) 0 [(refCountKey, [])] =
      Some (length (encode_log [(refCountKey, ?one)]), [(refCountKey, ?one)])"
    using refresh_loop_log [of "[(refCountKey, ?one)]" 0 "[]" "[(refCountKey, [])]"] len
    by (simp add: apply_record_def)
  then have "refresh (encode_log [(refCountKey, ?one)]) (fs_workers s w) =
      Some \<lparr> fw_pos = length (encode_log [(refCountKey, ?one)]), fw_cache = [(refCountKey, ?one)] \<rparr>"
    using w encode_log_Nil_iff [of "[(refCountKey, ?one)]"] by (auto simp: refresh_def simp del: encode_log_simps)
  then have "snd (file_listKeys w s) = Returns [''efcount/'']"
    using f by (simp add: file_listKeys_def with_refresh_def substr_def refCountKey_def regularPrefix_def del: encode_log_simps)
  then show ?thesis using s by blast
qed

text \<open>
  Property: \<open>FileStore\<close> has no \<open>append\<close> of its own and inherits the
  compare-and-set loop of \<open>Store::append\<close>. The loop returns after at most one retry when no other
  worker interferes, and appends; but when the stored value equals the value that is appended it
  returns without any effect.
\<close>
theorem file_append_drops_repeat:
  assumes "file_inv s" "file_ok_key k" "file_lookup s k = Some old" "length old + length v < 2 ^ 32"
  shows "\<exists>s'. store_append (file_compareSet w) 1 s k v = (s', Returns ()) \<and> file_inv s' \<and>
      file_lookup s' k = Some (if old = v then old else old @ v)"
proof -
  have ok: "file_ok_val []" "file_ok_val v" "file_ok_val old" "file_ok_val (old @ v)"
    using assms(4) by (simp_all add: file_ok_val_def)
  then obtain s' where s': "store_append (file_compareSet w) (Suc 0) s k v = (s', Returns ())" "file_inv s'"
      "file_lookup s' = (if old = v \<and> v \<noteq> [] then file_lookup s else (file_lookup s)(k \<mapsto> old @ v))"
    using fs.fallback_append [OF assms(1,2), of v w 0] assms(3) by (auto simp: store_upd_def split: if_splits)
  then show ?thesis using assms(3) by auto
qed

theorem file_append_drops_repeat_witness:
  "\<exists>s s'. fst (file_set 0 (fst (file_construct 0 file_fresh)) ''k'' [5]) = s \<and>
      store_append (file_compareSet 0) 1 s ''k'' [5] = (s', Returns ()) \<and> file_lookup s' ''k'' = Some [5]"
proof -
  let ?s0 = "fst (file_construct 0 file_fresh)"
  have i: "file_inv ?s0" using file_construct_first [of 0] by (auto simp: file_alive_def)
  have ok: "file_ok_key ''k''" "file_ok_val [5]" by (simp_all add: file_ok_key_def file_ok_val_def)
  obtain s where s: "file_set 0 ?s0 ''k'' [5] = (s, Returns ())" "file_inv s" "file_lookup s ''k'' = Some [5]"
    using fs.set_law [OF i ok, of 0] by (auto simp: store_upd_def)
  then show ?thesis using file_append_drops_repeat [OF s(2) ok(1) s(3), of "[5]" 0] by auto
qed

end
