(* ===== verification/TcpDaemon.thy ===== *)
theory TcpDaemon
  imports Stores
begin

text \<open>
  \<open>torch/csrc/distributed/c10d/TCPStoreBackend.cpp\<close>: the daemon of the TCP store, which serves the
  queries of its clients in one thread, with the wire primitives of \<open>tcputil\<close>
  (\<open>torch/csrc/distributed/c10d/Utils.hpp\<close>). A handler reads its arguments from the bytes that the
  client has sent (\<open>td_in\<close>) and its sends are appended to \<open>td_out\<close>; a receive past the end of the
  input and a send to a peer that has gone (\<open>td_closed\<close>) throw. What a handler did before it throws
  stays done.
\<close>

record tcp_daemon =
  tcpStore :: "(string \<times> bytes) list"
  waitingSockets :: "(string \<times> nat list) list"
  keysAwaited :: "(nat \<times> u64) list"
  miscellaneousSockets :: "nat list"
  td_sockets :: "nat list"
  td_in :: bytes
  td_out :: "(nat \<times> bytes) list"
  td_closed :: "nat list"

section \<open>Wire primitives\<close>

definition recvBytes :: "tcp_daemon \<Rightarrow> nat \<Rightarrow> tcp_daemon \<times> bytes outcome" where
  "recvBytes d n = (if n = 0 then (d, Returns [])
     else if n \<le> length (td_in d) then (d\<lparr> td_in := drop n (td_in d) \<rparr>, Returns (take n (td_in d)))
     else (d\<lparr> td_in := [] \<rparr>, Throws (DistNetworkError ''Failed to recv, got 0 bytes.'')))"

definition sendBytes :: "tcp_daemon \<Rightarrow> nat \<Rightarrow> bytes \<Rightarrow> tcp_daemon \<times> unit outcome" where
  "sendBytes d sock b = (if b = [] then (d, Returns ())
     else if sock \<in> set (td_closed d) then (d, Throws (DistNetworkError ''Failed to send, sent 0 bytes.''))
     else (d\<lparr> td_out := td_out d @ [(sock, b)] \<rparr>, Returns ()))"

text \<open>\<open>recvValue n\<close> reads an unsigned value of \<open>n\<close> bytes, \<open>sendValue n\<close> writes one.\<close>

definition recvValue :: "tcp_daemon \<Rightarrow> nat \<Rightarrow> tcp_daemon \<times> nat outcome" where
  "recvValue d n = bindO (recvBytes d n) (\<lambda>d' b. (d', Returns (from_le b)))"

definition sendValue :: "tcp_daemon \<Rightarrow> nat \<Rightarrow> nat \<Rightarrow> nat \<Rightarrow> tcp_daemon \<times> unit outcome" where
  "sendValue d sock n v = sendBytes d sock (to_le n v)"

definition recvVector :: "tcp_daemon \<Rightarrow> tcp_daemon \<times> bytes outcome" where
  "recvVector d = bindO (recvValue d 8) (\<lambda>d' valueSize. recvBytes d' valueSize)"

definition sendVector :: "tcp_daemon \<Rightarrow> nat \<Rightarrow> bytes \<Rightarrow> tcp_daemon \<times> unit outcome" where
  "sendVector d sock vec = bindO (sendBytes d sock (to_le 8 (length vec))) (\<lambda>d' _. sendBytes d' sock vec)"

definition recvString :: "tcp_daemon \<Rightarrow> tcp_daemon \<times> string outcome" where
  "recvString d = bindO (recvVector d) (\<lambda>d' b. (d', Returns (bytes_string b)))"

definition sendString :: "tcp_daemon \<Rightarrow> nat \<Rightarrow> string \<Rightarrow> tcp_daemon \<times> unit outcome" where
  "sendString d sock str = sendVector d sock (string_bytes str)"

fun recvStrings :: "tcp_daemon \<Rightarrow> nat \<Rightarrow> tcp_daemon \<times> string list outcome" where
  "recvStrings d 0 = (d, Returns [])"
| "recvStrings d (Suc n) = bindO (recvString d)
     (\<lambda>d' k. bindO (recvStrings d' n) (\<lambda>d'' ks. (d'', Returns (k # ks))))"

text \<open>The two's complement representation of \<open>int64_t\<close>.\<close>

definition s64_of_nat :: "nat \<Rightarrow> int" where
  "s64_of_nat n = s64 (int n)"

definition nat_of_s64 :: "int \<Rightarrow> nat" where
  "nat_of_s64 i = nat (i mod 2 ^ 64)"

section \<open>Protocol constants\<close>

datatype query_type = VALIDATE | SET | COMPARE_SET | GET | ADD | CHECK | WAIT | GETNUMKEYS | DELETE_KEY
  | APPEND | MULTI_GET | MULTI_SET | CANCEL_WAIT | PING | QUEUE_PUSH | QUEUE_POP | QUEUE_LEN | LIST_KEYS | BARRIER

definition query_types :: "query_type list" where
  "query_types = [VALIDATE, SET, COMPARE_SET, GET, ADD, CHECK, WAIT, GETNUMKEYS, DELETE_KEY, APPEND, MULTI_GET,
     MULTI_SET, CANCEL_WAIT, PING, QUEUE_PUSH, QUEUE_POP, QUEUE_LEN, LIST_KEYS, BARRIER]"

fun query_code :: "query_type \<Rightarrow> nat" where
  "query_code VALIDATE = 0" | "query_code SET = 1" | "query_code COMPARE_SET = 2" | "query_code GET = 3"
| "query_code ADD = 4" | "query_code CHECK = 5" | "query_code WAIT = 6" | "query_code GETNUMKEYS = 7"
| "query_code DELETE_KEY = 8" | "query_code APPEND = 9" | "query_code MULTI_GET = 10" | "query_code MULTI_SET = 11"
| "query_code CANCEL_WAIT = 12" | "query_code PING = 13" | "query_code QUEUE_PUSH = 14" | "query_code QUEUE_POP = 15"
| "query_code QUEUE_LEN = 16" | "query_code LIST_KEYS = 17" | "query_code BARRIER = 18"

definition query_of_code :: "nat \<Rightarrow> query_type option" where
  "query_of_code n = (if n < length query_types then Some (query_types ! n) else None)"

definition READY :: nat where "READY = 0"
definition NOT_READY :: nat where "NOT_READY = 1"
definition STOP_WAITING :: nat where "STOP_WAITING = 0"
definition WAIT_CANCELED :: nat where "WAIT_CANCELED = 1"
definition validationMagicNumber :: nat where "validationMagicNumber = 0x3C85F7CE"

section \<open>Waiting clients\<close>

definition clearSocketWaitState :: "tcp_daemon \<Rightarrow> nat \<Rightarrow> tcp_daemon" where
  "clearSocketWaitState d sock = d\<lparr>
     waitingSockets := filter (\<lambda>e. snd e \<noteq> []) (map (\<lambda>(k, ss). (k, removeAll sock ss)) (waitingSockets d)),
     keysAwaited := AList.delete sock (keysAwaited d) \<rparr>"

definition awaited :: "tcp_daemon \<Rightarrow> nat \<Rightarrow> u64" where
  "awaited d sock = (case map_of (keysAwaited d) sock of None \<Rightarrow> 0 | Some n \<Rightarrow> n)"

fun wake_loop :: "tcp_daemon \<Rightarrow> nat list \<Rightarrow> tcp_daemon \<times> unit outcome" where
  "wake_loop d [] = (d, Returns ())"
| "wake_loop d (sock # socks) =
     (let n = awaited d sock - 1; d1 = d\<lparr> keysAwaited := AList.update sock n (keysAwaited d) \<rparr> in
      bindO (if n = 0 then sendValue d1 sock 1 STOP_WAITING else (d1, Returns ()))
        (\<lambda>d2 _. wake_loop d2 socks))"

definition wakeupWaitingClients :: "tcp_daemon \<Rightarrow> string \<Rightarrow> tcp_daemon \<times> unit outcome" where
  "wakeupWaitingClients d key = (case map_of (waitingSockets d) key of
       None \<Rightarrow> (d, Returns ())
     | Some socks \<Rightarrow> bindO (wake_loop d socks)
         (\<lambda>d' _. (d'\<lparr> waitingSockets := AList.delete key (waitingSockets d') \<rparr>, Returns ())))"

definition push_waiting :: "tcp_daemon \<Rightarrow> string \<Rightarrow> nat \<Rightarrow> tcp_daemon" where
  "push_waiting d key sock = d\<lparr> waitingSockets := AList.update key
     ((case map_of (waitingSockets d) key of None \<Rightarrow> [] | Some ss \<Rightarrow> ss) @ [sock]) (waitingSockets d) \<rparr>"

definition store_put :: "tcp_daemon \<Rightarrow> string \<Rightarrow> bytes \<Rightarrow> tcp_daemon" where
  "store_put d key v = d\<lparr> tcpStore := AList.update key v (tcpStore d) \<rparr>"

definition doSet :: "tcp_daemon \<Rightarrow> string \<Rightarrow> bytes \<Rightarrow> tcp_daemon \<times> unit outcome" where
  "doSet d key newData = wakeupWaitingClients (store_put d key newData) key"

definition checkKeys :: "tcp_daemon \<Rightarrow> string list \<Rightarrow> bool" where
  "checkKeys d keys = list_all (\<lambda>k. map_of (tcpStore d) k \<noteq> None) keys"

section \<open>Handlers\<close>

definition validateHandler :: "tcp_daemon \<Rightarrow> nat \<Rightarrow> tcp_daemon \<times> unit outcome" where
  "validateHandler d sock = bindO (recvValue d 4) (\<lambda>d1 validateNumber.
     if validateNumber \<noteq> validationMagicNumber
     then (d1, Throws (CheckError ''Miscellaneous client with incorrect VALIDATE query is detected''))
     else (d1, Returns ()))"

definition pingHandler :: "tcp_daemon \<Rightarrow> nat \<Rightarrow> tcp_daemon \<times> unit outcome" where
  "pingHandler d sock = bindO (recvValue d 4) (\<lambda>d1 nonce. sendValue d1 sock 4 nonce)"

definition setHandler :: "tcp_daemon \<Rightarrow> nat \<Rightarrow> tcp_daemon \<times> unit outcome" where
  "setHandler d sock = bindO (recvString d) (\<lambda>d1 key. bindO (recvVector d1) (\<lambda>d2 newData. doSet d2 key newData))"

definition compareSetHandler :: "tcp_daemon \<Rightarrow> nat \<Rightarrow> tcp_daemon \<times> unit outcome" where
  "compareSetHandler d sock = bindO (recvString d) (\<lambda>d1 key. bindO (recvVector d1) (\<lambda>d2 currentValue.
     bindO (recvVector d2) (\<lambda>d3 newValue.
       case map_of (tcpStore d3) key of
         None \<Rightarrow> if currentValue = [] then sendVector (store_put d3 key newValue) sock newValue
                 else sendVector d3 sock currentValue
       | Some v \<Rightarrow> if v = currentValue then sendVector (store_put d3 key newValue) sock newValue
                 else sendVector d3 sock v)))"

definition addHandler :: "tcp_daemon \<Rightarrow> nat \<Rightarrow> tcp_daemon \<times> unit outcome" where
  "addHandler d sock = bindO (recvString d) (\<lambda>d1 key. bindO (recvValue d1 8) (\<lambda>d2 raw.
     case (case map_of (tcpStore d2) key of
             None \<Rightarrow> Inr (s64_of_nat raw)
           | Some v \<Rightarrow> bindE (stoll (bytes_string v)) (\<lambda>n. Inr (s64 (s64_of_nat raw + n)))) of
       Inl e \<Rightarrow> (d2, Throws e)
     | Inr addVal \<Rightarrow>
         bindO (sendValue (store_put d2 key (string_bytes (to_string addVal))) sock 8 (nat_of_s64 addVal))
           (\<lambda>d3 _. wakeupWaitingClients d3 key)))"

definition getHandler :: "tcp_daemon \<Rightarrow> nat \<Rightarrow> tcp_daemon \<times> unit outcome" where
  "getHandler d sock = bindO (recvString d) (\<lambda>d1 key. case map_of (tcpStore d1) key of
       None \<Rightarrow> (d1, Throws (StdOutOfRange ''unordered_map::at''))
     | Some v \<Rightarrow> sendVector d1 sock v)"

definition getNumKeysHandler :: "tcp_daemon \<Rightarrow> nat \<Rightarrow> tcp_daemon \<times> unit outcome" where
  "getNumKeysHandler d sock = sendValue d sock 8 (length (tcpStore d))"

definition deleteHandler :: "tcp_daemon \<Rightarrow> nat \<Rightarrow> tcp_daemon \<times> unit outcome" where
  "deleteHandler d sock = bindO (recvString d) (\<lambda>d1 key.
     let m = AList.delete key (tcpStore d1); numDeleted = length (tcpStore d1) - length m
     in sendValue (d1\<lparr> tcpStore := m \<rparr>) sock 8 numDeleted)"

definition checkHandler :: "tcp_daemon \<Rightarrow> nat \<Rightarrow> tcp_daemon \<times> unit outcome" where
  "checkHandler d sock = bindO (recvValue d 8) (\<lambda>d1 nargs. bindO (recvStrings d1 nargs) (\<lambda>d2 keys.
     if checkKeys d2 keys then sendValue d2 sock 1 READY else sendValue d2 sock 1 NOT_READY))"

fun register_waits :: "tcp_daemon \<Rightarrow> nat \<Rightarrow> string list \<Rightarrow> nat \<Rightarrow> tcp_daemon \<times> nat" where
  "register_waits d sock [] n = (d, n)"
| "register_waits d sock (key # keys) n =
     (if map_of (tcpStore d) key = None then register_waits (push_waiting d key sock) sock keys (n + 1)
      else register_waits d sock keys n)"

definition waitHandler :: "tcp_daemon \<Rightarrow> nat \<Rightarrow> tcp_daemon \<times> unit outcome" where
  "waitHandler d sock = bindO (recvValue d 8) (\<lambda>d1 nargs. bindO (recvStrings d1 nargs) (\<lambda>d2 keys.
     if checkKeys d2 keys then sendValue d2 sock 1 STOP_WAITING
     else (case register_waits d2 sock keys 0 of (d3, numKeysToAwait) \<Rightarrow>
       (d3\<lparr> keysAwaited := AList.update sock (word_of_nat numKeysToAwait) (keysAwaited d3) \<rparr>, Returns ()))))"

definition appendHandler :: "tcp_daemon \<Rightarrow> nat \<Rightarrow> tcp_daemon \<times> unit outcome" where
  "appendHandler d sock = bindO (recvString d) (\<lambda>d1 key. bindO (recvVector d1) (\<lambda>d2 newData.
     wakeupWaitingClients (store_put d2 key
       (case map_of (tcpStore d2) key of Some v \<Rightarrow> v @ newData | None \<Rightarrow> newData)) key))"

fun multiGet_loop :: "tcp_daemon \<Rightarrow> nat \<Rightarrow> nat \<Rightarrow> tcp_daemon \<times> unit outcome" where
  "multiGet_loop d sock 0 = (d, Returns ())"
| "multiGet_loop d sock (Suc n) = bindO (recvString d) (\<lambda>d1 key. case map_of (tcpStore d1) key of
       None \<Rightarrow> (d1, Throws (StdOutOfRange ''unordered_map::at''))
     | Some v \<Rightarrow> bindO (sendVector d1 sock v) (\<lambda>d2 _. multiGet_loop d2 sock n))"

definition multiGetHandler :: "tcp_daemon \<Rightarrow> nat \<Rightarrow> tcp_daemon \<times> unit outcome" where
  "multiGetHandler d sock = bindO (recvValue d 8) (\<lambda>d1 nargs. multiGet_loop d1 sock nargs)"

fun multiSet_loop :: "tcp_daemon \<Rightarrow> nat \<Rightarrow> tcp_daemon \<times> unit outcome" where
  "multiSet_loop d 0 = (d, Returns ())"
| "multiSet_loop d (Suc n) = bindO (recvString d) (\<lambda>d1 key. bindO (recvVector d1) (\<lambda>d2 v.
     bindO (doSet d2 key v) (\<lambda>d3 _. multiSet_loop d3 n)))"

definition multiSetHandler :: "tcp_daemon \<Rightarrow> nat \<Rightarrow> tcp_daemon \<times> unit outcome" where
  "multiSetHandler d sock = bindO (recvValue d 8) (\<lambda>d1 nargs. multiSet_loop d1 nargs)"

definition cancelWaitHandler :: "tcp_daemon \<Rightarrow> nat \<Rightarrow> tcp_daemon \<times> unit outcome" where
  "cancelWaitHandler d sock = sendValue (clearSocketWaitState d sock) sock 1 WAIT_CANCELED"

fun sendStrings :: "tcp_daemon \<Rightarrow> nat \<Rightarrow> string list \<Rightarrow> tcp_daemon \<times> unit outcome" where
  "sendStrings d sock [] = (d, Returns ())"
| "sendStrings d sock (k # ks) = bindO (sendString d sock k) (\<lambda>d' _. sendStrings d' sock ks)"

definition listKeysHandler :: "tcp_daemon \<Rightarrow> nat \<Rightarrow> tcp_daemon \<times> unit outcome" where
  "listKeysHandler d sock = bindO (sendValue d sock 8 (length (tcpStore d)))
     (\<lambda>d1 _. sendStrings d1 sock (map fst (tcpStore d1)))"

definition barrierHandler :: "tcp_daemon \<Rightarrow> nat \<Rightarrow> tcp_daemon \<times> unit outcome" where
  "barrierHandler d sock = bindO (recvString d) (\<lambda>d1 key. bindO (recvValue d1 8) (\<lambda>d2 raw.
     case (case map_of (tcpStore d2) key of
             None \<Rightarrow> Inr 1
           | Some v \<Rightarrow> bindE (stoll (bytes_string v)) (\<lambda>n. Inr (s64 (n + 1)))) of
       Inl e \<Rightarrow> (d2, Throws e)
     | Inr cnt \<Rightarrow>
         (let d3 = store_put d2 key (string_bytes (to_string cnt)) in
          if cnt \<ge> s64_of_nat raw
          then bindO (sendValue d3 sock 1 STOP_WAITING) (\<lambda>d4 _. wakeupWaitingClients d4 key)
          else ((push_waiting d3 key sock)\<lparr> keysAwaited := AList.update sock 1 (keysAwaited d3) \<rparr>, Returns ()))))"

section \<open>The main loop\<close>

definition addMiscellaneousSocket :: "tcp_daemon \<Rightarrow> nat \<Rightarrow> tcp_daemon" where
  "addMiscellaneousSocket d sock = (if sock \<notin> set (miscellaneousSockets d)
     then d\<lparr> miscellaneousSockets := sock # miscellaneousSockets d \<rparr> else d)"

definition removeMiscellaneousSocket :: "tcp_daemon \<Rightarrow> nat \<Rightarrow> tcp_daemon" where
  "removeMiscellaneousSocket d sock = d\<lparr> miscellaneousSockets := removeAll sock (miscellaneousSockets d) \<rparr>"

definition isMiscellaneousSocket :: "tcp_daemon \<Rightarrow> nat \<Rightarrow> bool" where
  "isMiscellaneousSocket d sock \<longleftrightarrow> sock \<in> set (miscellaneousSockets d)"

definition dispatch :: "tcp_daemon \<Rightarrow> nat \<Rightarrow> query_type option \<Rightarrow> tcp_daemon \<times> unit outcome" where
  "dispatch d sock qt = (case qt of
       Some PING \<Rightarrow> pingHandler d sock
     | Some SET \<Rightarrow> setHandler d sock
     | Some COMPARE_SET \<Rightarrow> compareSetHandler d sock
     | Some ADD \<Rightarrow> addHandler d sock
     | Some GET \<Rightarrow> getHandler d sock
     | Some CHECK \<Rightarrow> checkHandler d sock
     | Some WAIT \<Rightarrow> waitHandler d sock
     | Some GETNUMKEYS \<Rightarrow> getNumKeysHandler d sock
     | Some DELETE_KEY \<Rightarrow> deleteHandler d sock
     | Some APPEND \<Rightarrow> appendHandler d sock
     | Some MULTI_GET \<Rightarrow> multiGetHandler d sock
     | Some MULTI_SET \<Rightarrow> multiSetHandler d sock
     | Some CANCEL_WAIT \<Rightarrow> cancelWaitHandler d sock
     | Some LIST_KEYS \<Rightarrow> listKeysHandler d sock
     | Some BARRIER \<Rightarrow> barrierHandler d sock
     | _ \<Rightarrow> (d, Throws (CheckError ''Unexpected query type'')))"

definition query :: "tcp_daemon \<Rightarrow> nat \<Rightarrow> tcp_daemon \<times> unit outcome" where
  "query d sock = bindO (recvValue d 1) (\<lambda>d1 qt.
     if isMiscellaneousSocket d1 sock then
       (let d2 = removeMiscellaneousSocket d1 sock in
        if query_of_code qt = Some VALIDATE then validateHandler d2 sock
        else (d2, Throws (CheckError ''Miscellaneous client without VALIDATE query is detected'')))
     else dispatch d1 sock (query_of_code qt))"

text \<open>
  One event on a connected socket (the body of the loop of \<open>queryFds\<close>), with the bytes that the
  client has sent: a query that throws loses its connection and its wait state.
\<close>

definition query_fd :: "tcp_daemon \<Rightarrow> nat \<Rightarrow> bytes \<Rightarrow> tcp_daemon" where
  "query_fd d sock input = (case query (d\<lparr> td_in := input \<rparr>) sock of
       (d', Throws e) \<Rightarrow> (clearSocketWaitState d' sock)\<lparr> td_sockets := remove1 sock (td_sockets d') \<rparr>
     | (d', _) \<Rightarrow> d')"

definition accept_socket :: "tcp_daemon \<Rightarrow> nat \<Rightarrow> tcp_daemon" where
  "accept_socket d sock = addMiscellaneousSocket (d\<lparr> td_sockets := td_sockets d @ [sock] \<rparr>) sock"

datatype daemon_event = Accepted nat | Readable nat bytes | StopSignal

fun daemon_run :: "tcp_daemon \<Rightarrow> daemon_event list \<Rightarrow> tcp_daemon" where
  "daemon_run d [] = d"
| "daemon_run d (Accepted sock # evs) = daemon_run (accept_socket d sock) evs"
| "daemon_run d (Readable sock input # evs) =
     daemon_run (if sock \<in> set (td_sockets d) then query_fd d sock input else d) evs"
| "daemon_run d (StopSignal # evs) = d"

definition daemon_empty :: tcp_daemon where
  "daemon_empty = \<lparr> tcpStore = [], waitingSockets = [], keysAwaited = [], miscellaneousSockets = [],
     td_sockets = [], td_in = [], td_out = [], td_closed = [] \<rparr>"

end
