(* ===== verification/TcpWakeups.thy ===== *)
theory TcpWakeups
  imports TcpDaemon
begin

text \<open>
  The wait state of the TCP store daemon: \<open>keysAwaited_\<close> counts the entries of a socket in the
  waiting lists, a waiting client is told \<open>STOP_WAITING\<close> exactly when its last entry goes, and
  which keys may have waiting clients.
\<close>

definition count_waiting :: "tcp_daemon \<Rightarrow> nat \<Rightarrow> nat" where
  "count_waiting d sock = sum_list (map (\<lambda>e. count_list (snd e) sock) (waitingSockets d))"

definition await_inv :: "tcp_daemon \<Rightarrow> bool" where
  "await_inv d \<longleftrightarrow> distinct (map fst (waitingSockets d)) \<and> (\<forall>s. unat (awaited d s) = count_waiting d s)"

text \<open>The bytes among \<open>out\<close> that go to \<open>sock\<close>.\<close>

definition replies :: "(nat \<times> bytes) list \<Rightarrow> nat \<Rightarrow> bytes" where
  "replies out sock = concat (map snd (filter (\<lambda>p. fst p = sock) out))"

definition healthy :: "tcp_daemon \<Rightarrow> bool" where
  "healthy d \<longleftrightarrow> await_inv d \<and> td_closed d = []"

definition woken :: "tcp_daemon \<Rightarrow> tcp_daemon \<Rightarrow> nat \<Rightarrow> bytes" where
  "woken d d' s = (if 0 < count_waiting d s \<and> count_waiting d' s = 0 then to_le 1 STOP_WAITING else [])"

text \<open>
  \<open>eff sock d d'\<close>: the daemon went from \<open>d\<close> to \<open>d'\<close> on behalf of \<open>sock\<close>. Every other client only loses
  waiting entries, and hears of it exactly when it has lost the last one.
\<close>

definition eff :: "nat \<Rightarrow> tcp_daemon \<Rightarrow> tcp_daemon \<Rightarrow> bool" where
  "eff sock d d' \<longleftrightarrow> healthy d' \<and> (\<forall>s. s \<noteq> sock \<longrightarrow> count_waiting d' s \<le> count_waiting d s) \<and>
     (\<exists>out. td_out d' = td_out d @ out \<and> (\<forall>s. s \<noteq> sock \<longrightarrow> replies out s = woken d d' s))"

lemma replies_simps [simp]:
  "replies [] s = []" "replies (a @ b) s = replies a s @ replies b s"
  "replies ((s', bs) # a) s = (if s' = s then bs else []) @ replies a s"
  by (simp_all add: replies_def)

lemma eff_refl [simp]: "healthy d \<Longrightarrow> eff sock d d"
  by (auto simp: eff_def woken_def intro!: exI [of _ "[]"])

lemma eff_healthy: "eff sock d d' \<Longrightarrow> healthy d'"
  by (simp add: eff_def)

lemma eff_trans:
  assumes "eff sock d d'" "eff sock d' d''" shows "eff sock d d''"
proof -
  obtain o1 o2 where o: "td_out d' = td_out d @ o1" "td_out d'' = td_out d' @ o2"
      "\<forall>s. s \<noteq> sock \<longrightarrow> replies o1 s = woken d d' s" "\<forall>s. s \<noteq> sock \<longrightarrow> replies o2 s = woken d' d'' s"
    using assms by (auto simp: eff_def)
  have le: "count_waiting d' s \<le> count_waiting d s" "count_waiting d'' s \<le> count_waiting d' s" if "s \<noteq> sock" for s
    using assms that by (auto simp: eff_def)
  have "woken d d' s @ woken d' d'' s = woken d d'' s" if "s \<noteq> sock" for s
    using le [OF that] by (auto simp: woken_def)
  moreover have "count_waiting d'' s \<le> count_waiting d s" if "s \<noteq> sock" for s
    using le [OF that] by simp
  ultimately show ?thesis
    using assms(2) o unfolding eff_def
    by (intro conjI allI impI exI [of _ "o1 @ o2"]) auto
qed

text \<open>A step that leaves the wait state alone and sends to \<open>sock\<close> only.\<close>

lemma eff_same:
  assumes "healthy d" "waitingSockets d' = waitingSockets d" "keysAwaited d' = keysAwaited d"
    "td_closed d' = td_closed d" "td_out d' = td_out d @ out" "\<And>s. s \<noteq> sock \<Longrightarrow> replies out s = []"
  shows "eff sock d d'"
proof -
  have "count_waiting d' = count_waiting d" "awaited d' = awaited d"
    using assms(2,3) by (auto simp: count_waiting_def awaited_def fun_eq_iff)
  then show ?thesis using assms by (auto simp: eff_def healthy_def await_inv_def woken_def)
qed

lemma bindO_eff:
  assumes "eff sock d (fst m)" "\<And>d' a. m = (d', Returns a) \<Longrightarrow> eff sock d d' \<Longrightarrow> eff sock d (fst (f d' a))"
  shows "eff sock d (fst (bindO m f))"
  using assms by (cases m; cases "snd m") auto

section \<open>Primitives\<close>

definition same_but_in :: "tcp_daemon \<Rightarrow> tcp_daemon \<Rightarrow> bool" where
  "same_but_in d d' \<longleftrightarrow> (\<exists>x. d' = d\<lparr> td_in := x \<rparr>)"

lemma same_but_in_refl [simp]: "same_but_in d d"
  by (auto simp: same_but_in_def intro!: exI [of _ "td_in d"])

lemma same_but_in_trans: "same_but_in d d' \<Longrightarrow> same_but_in d' d'' \<Longrightarrow> same_but_in d d''"
  by (auto simp: same_but_in_def)

lemma same_but_in_bind:
  assumes "same_but_in d (fst m)" "\<And>d' a. m = (d', Returns a) \<Longrightarrow> same_but_in d' (fst (f d' a))"
  shows "same_but_in d (fst (bindO m f))"
proof (cases m)
  case (Pair d1 r)
  then show ?thesis using assms by (cases r) (auto intro: same_but_in_trans)
qed

lemma same_but_in_recv [simp]:
  "same_but_in d (fst (recvBytes d n))" "same_but_in d (fst (recvValue d n))"
  "same_but_in d (fst (recvVector d))" "same_but_in d (fst (recvString d))"
proof -
  show b: "same_but_in d (fst (recvBytes d n))" for d n
    by (cases d) (auto simp: recvBytes_def same_but_in_def)
  show v: "same_but_in d (fst (recvValue d n))" for d n
    unfolding recvValue_def by (rule same_but_in_bind) (simp_all add: b)
  show w: "same_but_in d (fst (recvVector d))" for d
    unfolding recvVector_def by (rule same_but_in_bind) (simp_all add: b v)
  show "same_but_in d (fst (recvString d))"
    unfolding recvString_def by (rule same_but_in_bind) (simp_all add: w)
qed

lemma same_but_in_recvStrings [simp]: "same_but_in d (fst (recvStrings d n))"
proof (induction n arbitrary: d)
  case (Suc n)
  show ?case unfolding recvStrings.simps
    by (rule same_but_in_bind, simp, rule same_but_in_bind) (simp_all add: Suc)
qed simp

lemma recvStrings_length: "recvStrings d n = (d', Returns ks) \<Longrightarrow> length ks = n"
  by (induction n arbitrary: d d' ks) (auto simp: bindO_Returns_iff)

lemma recvValue_bound: "recvValue d n = (d', Returns v) \<Longrightarrow> v < 256 ^ n"
proof -
  have b: "from_le b < 256 ^ length b" for b :: bytes
  proof (induction b)
    case (Cons x xs)
    have "unat x < 256" using unsigned_less [of x] by simp
    then show ?case using Cons by simp
  qed simp
  show "recvValue d n = (d', Returns v) \<Longrightarrow> v < 256 ^ n"
    using b by (auto simp: recvValue_def recvBytes_def bindO_Returns_iff split: if_splits) (metis length_take min.absorb2)
qed

lemma same_but_in_eff: "healthy d \<Longrightarrow> same_but_in d d' \<Longrightarrow> eff sock d d'"
  by (rule eff_same [where out = "[]"]) (auto simp: same_but_in_def)

lemma recv_eff:
  assumes "healthy d" "same_but_in d (fst m)"
    "\<And>d' a. m = (d', Returns a) \<Longrightarrow> same_but_in d d' \<Longrightarrow> healthy d' \<Longrightarrow> eff sock d' (fst (f d' a))"
  shows "eff sock d (fst (bindO m f))"
proof (rule bindO_eff)
  show e: "eff sock d (fst m)" using assms(1,2) by (rule same_but_in_eff)
  fix d' a
  assume m: "m = (d', Returns a)"
  then have "same_but_in d d'" using assms(2) by simp
  moreover have "healthy d'" using e m by (auto dest: eff_healthy)
  ultimately show "eff sock d (fst (f d' a))" using e m assms(3) by (auto intro: eff_trans)
qed

lemma sendBytes_eff: "healthy d \<Longrightarrow> eff sock d (fst (sendBytes d sock b))"
  by (rule eff_same [where out = "if b = [] \<or> sock \<in> set (td_closed d) then [] else [(sock, b)]"])
    (auto simp: sendBytes_def)

lemma sendValue_eff: "healthy d \<Longrightarrow> eff sock d (fst (sendValue d sock n v))"
  by (simp add: sendValue_def sendBytes_eff)

lemma seq_eff:
  assumes "eff sock d (fst m)" "\<And>d' a. m = (d', Returns a) \<Longrightarrow> healthy d' \<Longrightarrow> eff sock d' (fst (f d' a))"
  shows "eff sock d (fst (bindO m f))"
  using assms by (intro bindO_eff) (auto intro: eff_trans dest: eff_healthy)

lemma sendVector_eff: "healthy d \<Longrightarrow> eff sock d (fst (sendVector d sock v))"
  unfolding sendVector_def by (rule seq_eff) (simp_all add: sendBytes_eff)

lemma store_put_eff: "healthy d \<Longrightarrow> eff sock d (store_put d k v)"
  by (rule eff_same [where out = "[]"]) (auto simp: store_put_def)

section \<open>Waking up\<close>

lemma wake_loop_ok:
  assumes "\<And>s. count_list socks s \<le> unat (awaited d s)" "td_closed d = []"
  shows "\<exists>ka out. wake_loop d socks = (d\<lparr> keysAwaited := ka, td_out := td_out d @ out \<rparr>, Returns ()) \<and>
      (\<forall>s. unat (awaited (d\<lparr> keysAwaited := ka \<rparr>) s) = unat (awaited d s) - count_list socks s) \<and>
      (\<forall>s. replies out s = (if s \<in> set socks \<and> count_list socks s = unat (awaited d s) then to_le 1 STOP_WAITING else []))"
  using assms
proof (induction socks arbitrary: d)
  case Nil
  then show ?case by (intro exI [of _ "keysAwaited d"] exI [of _ "[]"]) simp
next
  case (Cons sock socks)
  let ?n = "awaited d sock - 1"
  let ?d1 = "d\<lparr> keysAwaited := AList.update sock ?n (keysAwaited d) \<rparr>"
  let ?o1 = "if ?n = 0 then [(sock, to_le 1 STOP_WAITING)] else []"
  let ?d2 = "?d1\<lparr> td_out := td_out d @ ?o1 \<rparr>"
  have pos: "0 < unat (awaited d sock)" using Cons.prems(1) [of sock] by simp
  then have n: "unat ?n = unat (awaited d sock) - 1" by (simp add: unat_minus_one unat_gt_0)
  have aw: "awaited ?d2 s = (if s = sock then ?n else awaited d s)" for s
    by (simp add: awaited_def update_conv')
  have "?n = 0 \<longleftrightarrow> unat ?n = 0" by (simp only: unat_eq_zero)
  then have z: "?n = 0 \<longleftrightarrow> unat (awaited d sock) = 1" using n pos by linarith
  have step: "wake_loop d (sock # socks) = wake_loop ?d2 socks"
    using Cons.prems(2) by (auto simp: Let_def sendValue_def sendBytes_def STOP_WAITING_def)
  have le: "count_list socks s \<le> unat (awaited ?d2 s)" for s
    using Cons.prems(1) [of s] n unfolding aw by (cases "s = sock") simp_all
  have cl: "td_closed ?d2 = []" using Cons.prems(2) by simp
  from Cons.IH [of ?d2, OF le cl] obtain ka out where r: "wake_loop ?d2 socks = (?d2\<lparr> keysAwaited := ka, td_out := td_out ?d2 @ out \<rparr>, Returns ())"
      "\<And>s. unat (awaited (?d2\<lparr> keysAwaited := ka \<rparr>) s) = unat (awaited ?d2 s) - count_list socks s"
      "\<And>s. replies out s = (if s \<in> set socks \<and> count_list socks s = unat (awaited ?d2 s) then to_le 1 STOP_WAITING else [])"
    by blast
  have "replies (?o1 @ out) s = (if s \<in> set (sock # socks) \<and> count_list (sock # socks) s = unat (awaited d s)
      then to_le 1 STOP_WAITING else [])" for s
  proof (cases "s = sock")
    case True
    have "count_list socks sock = 0 \<longleftrightarrow> sock \<notin> set socks" by (rule count_list_0_iff)
    then show ?thesis using r(3) [of s] n pos z True Cons.prems(1) [of sock] unfolding aw
      by (cases "unat (awaited d sock) = 1") auto
  next
    case False
    then show ?thesis using r(3) [of s] unfolding aw by simp
  qed
  moreover have "unat (awaited (d\<lparr> keysAwaited := ka \<rparr>) s) = unat (awaited d s) - count_list (sock # socks) s" for s
  proof -
    have "awaited (?d2\<lparr> keysAwaited := ka \<rparr>) s = awaited (d\<lparr> keysAwaited := ka \<rparr>) s" by (simp add: awaited_def)
    then show ?thesis using r(2) [of s] n unfolding aw by (cases "s = sock") simp_all
  qed
  ultimately show ?case using step r(1)
    by (intro exI [of _ ka] exI [of _ "?o1 @ out"]) simp
qed

lemma count_waiting_delete:
  assumes "distinct (map fst ws)" "map_of ws key = Some socks"
  shows "sum_list (map (\<lambda>e. count_list (snd e) s) ws) =
      sum_list (map (\<lambda>e. count_list (snd e) s) (AList.delete key ws)) + count_list socks s"
  using assms
proof (induction ws)
  case (Cons e ws)
  show ?case
  proof (cases "fst e = key")
    case True
    then have "key \<notin> fst ` set ws" using Cons.prems(1) by auto
    then have "AList.delete key ws = ws" by (simp add: delete_idem)
    then show ?thesis using True Cons.prems by (cases e) simp
  next
    case False
    then show ?thesis using Cons by (cases e) auto
  qed
qed simp

lemma wakeup_ok:
  assumes h: "healthy d"
  shows "\<exists>d'. wakeupWaitingClients d key = (d', Returns ()) \<and> eff sock d d' \<and>
      waitingSockets d' = AList.delete key (waitingSockets d) \<and> tcpStore d' = tcpStore d \<and>
      miscellaneousSockets d' = miscellaneousSockets d"
proof (cases "map_of (waitingSockets d) key")
  case None
  then have "AList.delete key (waitingSockets d) = waitingSockets d"
    by (simp add: delete_idem map_of_eq_None_iff)
  then show ?thesis using None h by (simp add: wakeupWaitingClients_def)
next
  case (Some socks)
  note c = count_waiting_delete [OF _ Some]
  have dst: "distinct (map fst (waitingSockets d))" and aw: "\<And>s. unat (awaited d s) = count_waiting d s"
    and cl: "td_closed d = []" using h by (auto simp: healthy_def await_inv_def)
  have split: "count_waiting d s = sum_list (map (\<lambda>e. count_list (snd e) s) (AList.delete key (waitingSockets d))) + count_list socks s" for s
    using c [OF dst] by (simp add: count_waiting_def)
  have le: "count_list socks s \<le> unat (awaited d s)" for s using split [of s] aw [of s] by simp
  obtain ka out where w: "wake_loop d socks = (d\<lparr> keysAwaited := ka, td_out := td_out d @ out \<rparr>, Returns ())"
      "\<And>s. unat (awaited (d\<lparr> keysAwaited := ka \<rparr>) s) = unat (awaited d s) - count_list socks s"
      "\<And>s. replies out s = (if s \<in> set socks \<and> count_list socks s = unat (awaited d s) then to_le 1 STOP_WAITING else [])"
    using wake_loop_ok [OF le cl] by blast
  let ?d' = "d\<lparr> keysAwaited := ka, td_out := td_out d @ out, waitingSockets := AList.delete key (waitingSockets d) \<rparr>"
  have cw: "count_waiting ?d' s = count_waiting d s - count_list socks s" for s
    using split [of s] by (simp add: count_waiting_def)
  have "awaited ?d' s = awaited (d\<lparr> keysAwaited := ka \<rparr>) s" for s by (simp add: awaited_def)
  then have "await_inv ?d'" using dst w(2) aw cw by (simp add: await_inv_def distinct_delete)
  then have "healthy ?d'" using cl by (simp add: healthy_def)
  moreover have "replies out s = woken d ?d' s" for s
  proof -
    have "count_list socks s \<noteq> 0 \<longleftrightarrow> s \<in> set socks" by (simp add: count_list_0_iff)
    then show ?thesis using w(3) [of s] cw [of s] aw [of s] le [of s] split [of s] by (auto simp: woken_def)
  qed
  ultimately have "eff sock d ?d'" unfolding eff_def using cw
    by (intro conjI allI impI exI [of _ out]) auto
  moreover have "wakeupWaitingClients d key = (?d', Returns ())"
    using Some w(1) by (simp add: wakeupWaitingClients_def)
  ultimately show ?thesis by auto
qed

lemma wakeup_eff: "healthy d \<Longrightarrow> eff sock d (fst (wakeupWaitingClients d key))"
  using wakeup_ok [of d key sock] by auto

lemma put_wakeup_eff: "healthy d \<Longrightarrow> eff sock d (fst (wakeupWaitingClients (store_put d k v) key))"
  using eff_trans [OF store_put_eff wakeup_eff] eff_healthy [OF store_put_eff] by blast

section \<open>Registering and cancelling\<close>

lemma sum_list_update:
  fixes g :: "'b \<Rightarrow> nat"
  shows "sum_list (map (\<lambda>e. g (snd e)) (AList.update k v ws)) + (case map_of ws k of None \<Rightarrow> 0 | Some old \<Rightarrow> g old)
      = sum_list (map (\<lambda>e. g (snd e)) ws) + g v"
  by (induction ws) (auto split: option.splits)

lemma push_waiting_count:
  "count_waiting (push_waiting d key sock) s = count_waiting d s + (if s = sock then 1 else 0)"
  using sum_list_update [of "\<lambda>ss. count_list ss s" key
      "(case map_of (waitingSockets d) key of None \<Rightarrow> [] | Some ss \<Rightarrow> ss) @ [sock]" "waitingSockets d"]
  by (auto simp: push_waiting_def count_waiting_def split: option.splits if_splits)

lemma push_waiting_frame:
  "distinct (map fst (waitingSockets d)) \<Longrightarrow> distinct (map fst (waitingSockets (push_waiting d key sock)))"
  "tcpStore (push_waiting d key sock) = tcpStore d" "keysAwaited (push_waiting d key sock) = keysAwaited d"
  "td_closed (push_waiting d key sock) = td_closed d" "td_out (push_waiting d key sock) = td_out d"
  by (simp_all add: push_waiting_def distinct_update)

lemma register_waits_ok:
  assumes "register_waits d sock keys n = (d', n')" "distinct (map fst (waitingSockets d))"
  shows "distinct (map fst (waitingSockets d'))" "n \<le> n'" "n' \<le> n + length keys"
    "count_waiting d' s = count_waiting d s + (if s = sock then n' - n else 0)"
    "keysAwaited d' = keysAwaited d" "td_closed d' = td_closed d" "td_out d' = td_out d" "tcpStore d' = tcpStore d"
proof -
  have "distinct (map fst (waitingSockets d')) \<and> n \<le> n' \<and> n' \<le> n + length keys \<and>
      count_waiting d' s = count_waiting d s + (if s = sock then n' - n else 0) \<and>
      keysAwaited d' = keysAwaited d \<and> td_closed d' = td_closed d \<and> td_out d' = td_out d \<and> tcpStore d' = tcpStore d"
    using assms
  proof (induction keys arbitrary: d n)
    case (Cons key keys)
    show ?case
    proof (cases "map_of (tcpStore d) key = None")
      case True
      then have "register_waits (push_waiting d key sock) sock keys (n + 1) = (d', n')" using Cons.prems(1) by simp
      from Cons.IH [OF this push_waiting_frame(1) [OF Cons.prems(2)]] show ?thesis
        by (auto simp: push_waiting_count push_waiting_frame)
    next
      case False
      then show ?thesis using Cons.IH [of d n] Cons.prems by auto
    qed
  qed auto
  then show "distinct (map fst (waitingSockets d'))" "n \<le> n'" "n' \<le> n + length keys"
    "count_waiting d' s = count_waiting d s + (if s = sock then n' - n else 0)"
    "keysAwaited d' = keysAwaited d" "td_closed d' = td_closed d" "td_out d' = td_out d" "tcpStore d' = tcpStore d"
    by auto
qed

lemma registered_eff:
  assumes h: "healthy d" and idle: "count_waiting d sock = 0"
    and d': "distinct (map fst (waitingSockets d'))" "\<And>s. count_waiting d' s = count_waiting d s + (if s = sock then n else 0)"
      "keysAwaited d' = keysAwaited d" "td_closed d' = td_closed d" "td_out d' = td_out d" "n < 2 ^ 64"
  shows "eff sock d (d'\<lparr> keysAwaited := AList.update sock (word_of_nat n) (keysAwaited d') \<rparr>)"
proof -
  let ?d = "d'\<lparr> keysAwaited := AList.update sock (word_of_nat n) (keysAwaited d') \<rparr>"
  have c: "count_waiting ?d s = count_waiting d' s" for s by (simp add: count_waiting_def)
  have u: "unat (word_of_nat n :: u64) = n" using d'(6) by (simp add: unat_of_nat)
  have a: "awaited ?d s = (if s = sock then word_of_nat n else awaited d s)" for s
    using d'(3) by (simp add: awaited_def update_conv')
  have "unat (awaited ?d s) = count_waiting ?d s" for s
    using h idle unfolding a c d'(2) by (cases "s = sock") (simp_all add: u healthy_def await_inv_def)
  then have "healthy ?d" using h d'(1,4) by (simp add: healthy_def await_inv_def)
  moreover have "count_waiting ?d s = count_waiting d s" if "s \<noteq> sock" for s using c d'(2) that by simp
  ultimately show ?thesis using d'(5) by (auto simp: eff_def woken_def)
qed

lemma clear_count:
  "count_waiting (clearSocketWaitState d sock) s = (if s = sock then 0 else count_waiting d s)"
proof -
  have c: "count_list (removeAll sock ss) s = (if s = sock then 0 else count_list ss s)" for ss :: "nat list"
    by (induction ss) auto
  have "sum_list (map (\<lambda>e. count_list (snd e) s)
      (filter (\<lambda>e. snd e \<noteq> []) (map (\<lambda>(k, ss). (k, removeAll sock ss)) ws))) =
    (if s = sock then 0 else sum_list (map (\<lambda>e. count_list (snd e) s) ws))" for ws :: "(string \<times> nat list) list"
  proof (induction ws)
    case (Cons e ws)
    obtain k ss where e: "e = (k, ss)" by fastforce
    show ?case
    proof (cases "removeAll sock ss = []")
      case True
      then have "s \<noteq> sock \<Longrightarrow> count_list ss s = 0" using c [of ss] by simp
      then show ?thesis using True Cons e by simp
    next
      case False
      then show ?thesis using Cons e c [of ss] by simp
    qed
  qed simp
  then show ?thesis by (simp add: clearSocketWaitState_def count_waiting_def)
qed

lemma clear_eff:
  assumes "healthy d" shows "eff sock d (clearSocketWaitState d sock)"
proof -
  let ?d = "clearSocketWaitState d sock"
  have a: "awaited ?d s = (if s = sock then 0 else awaited d s)" for s
    by (simp add: awaited_def clearSocketWaitState_def delete_conv')
  have "unat (awaited ?d s) = count_waiting ?d s" for s
    using assms unfolding a clear_count by (simp add: healthy_def await_inv_def)
  moreover have "distinct (map fst (waitingSockets ?d))"
  proof -
    have "map fst (map (\<lambda>(k, ss). (k, removeAll sock ss)) ws) = map fst ws" for ws :: "(string \<times> nat list) list"
      by (induction ws) auto
    then have "distinct (map fst (map (\<lambda>(k, ss). (k, removeAll sock ss)) (waitingSockets d)))"
      using assms by (simp only: healthy_def await_inv_def)
    then show ?thesis by (simp add: clearSocketWaitState_def distinct_map_filter del: map_map)
  qed
  ultimately have "healthy ?d" using assms by (simp add: healthy_def await_inv_def clearSocketWaitState_def)
  moreover have "td_out ?d = td_out d" by (simp add: clearSocketWaitState_def)
  ultimately show ?thesis by (auto simp: eff_def clear_count woken_def)
qed

section \<open>Handlers\<close>

lemma validateHandler_eff: "healthy d \<Longrightarrow> eff sock d (fst (validateHandler d sock))"
  unfolding validateHandler_def by (rule recv_eff) auto

lemma pingHandler_eff: "healthy d \<Longrightarrow> eff sock d (fst (pingHandler d sock))"
  unfolding pingHandler_def by (rule recv_eff) (auto simp: sendValue_eff)

lemma setHandler_eff: "healthy d \<Longrightarrow> eff sock d (fst (setHandler d sock))"
  unfolding setHandler_def doSet_def
  by (rule recv_eff, assumption, simp, rule recv_eff) (auto simp: put_wakeup_eff)

lemma put_send_eff: "healthy d \<Longrightarrow> eff sock d (fst (sendVector (store_put d k v) sock w))"
  using eff_trans [OF store_put_eff sendVector_eff] eff_healthy [OF store_put_eff] by blast

lemma compareSetHandler_eff: "healthy d \<Longrightarrow> eff sock d (fst (compareSetHandler d sock))"
  unfolding compareSetHandler_def
  by (rule recv_eff, assumption, simp, rule recv_eff, assumption, simp, rule recv_eff)
    (auto simp: put_send_eff sendVector_eff split: option.splits)

lemma addHandler_eff:
  assumes "healthy d" shows "eff sock d (fst (addHandler d sock))"
  unfolding addHandler_def
proof (rule recv_eff [OF assms], simp, rule recv_eff, assumption, simp, goal_cases)
  case (1 d1 key d2 raw)
  have "eff sock d2 (fst (bindO (sendValue (store_put d2 key v) sock 8 n) (\<lambda>d3 _. wakeupWaitingClients d3 key)))" for v n
  proof (rule seq_eff)
    show "eff sock d2 (fst (sendValue (store_put d2 key v) sock 8 n))"
      using eff_trans [OF store_put_eff sendValue_eff] eff_healthy [OF store_put_eff] 1(6) by blast
  qed (simp add: wakeup_eff)
  then show ?case using 1(6) by (auto split: sum.splits)
qed

lemma getHandler_eff: "healthy d \<Longrightarrow> eff sock d (fst (getHandler d sock))"
  unfolding getHandler_def by (rule recv_eff) (auto simp: sendVector_eff split: option.splits)

lemma getNumKeysHandler_eff: "healthy d \<Longrightarrow> eff sock d (fst (getNumKeysHandler d sock))"
  by (simp add: getNumKeysHandler_def sendValue_eff)

lemma deleteHandler_eff:
  assumes "healthy d" shows "eff sock d (fst (deleteHandler d sock))"
  unfolding deleteHandler_def Let_def
proof (rule recv_eff [OF assms], simp, goal_cases)
  case (1 d1 key)
  have "eff sock d1 (d1\<lparr> tcpStore := m \<rparr>)" for m
    by (rule eff_same [OF 1(3), where out = "[]"]) auto
  then show ?case using eff_trans sendValue_eff eff_healthy by blast
qed

lemma checkHandler_eff: "healthy d \<Longrightarrow> eff sock d (fst (checkHandler d sock))"
  unfolding checkHandler_def
  by (rule recv_eff, assumption, simp, rule recv_eff) (auto simp: sendValue_eff)

lemma waitHandler_eff:
  assumes "healthy d" "count_waiting d sock = 0" shows "eff sock d (fst (waitHandler d sock))"
  unfolding waitHandler_def
proof (rule recv_eff [OF assms(1)], simp, rule recv_eff, assumption, simp, goal_cases)
  case (1 d1 nargs d2 keys)
  show ?case
  proof (cases "checkKeys d2 keys")
    case True
    then show ?thesis using 1(6) by (simp add: sendValue_eff)
  next
    case False
    obtain d3 n where r: "register_waits d2 sock keys 0 = (d3, n)" by fastforce
    have dst: "distinct (map fst (waitingSockets d2))" using 1(6) by (simp add: healthy_def await_inv_def)
    have "same_but_in d d2" using same_but_in_trans [OF 1(2) 1(5)] .
    then have idle: "count_waiting d2 sock = 0" using assms(2) by (auto simp: same_but_in_def count_waiting_def)
    have "n \<le> nargs" using register_waits_ok(3) [OF r dst] recvStrings_length [OF 1(4)] by simp
    then have "n < 2 ^ 64" using recvValue_bound [OF 1(1)] by simp
    then show ?thesis using False r registered_eff [OF 1(6) idle, of d3 n] register_waits_ok [OF r dst] by simp
  qed
qed

lemma appendHandler_eff: "healthy d \<Longrightarrow> eff sock d (fst (appendHandler d sock))"
  unfolding appendHandler_def
  by (rule recv_eff, assumption, simp, rule recv_eff) (auto simp: put_wakeup_eff)

lemma multiGet_loop_eff: "healthy d \<Longrightarrow> eff sock d (fst (multiGet_loop d sock n))"
proof (induction n arbitrary: d)
  case (Suc n)
  show ?case unfolding multiGet_loop.simps
  proof (rule recv_eff [OF Suc.prems], simp, goal_cases)
    case (1 d1 key)
    show ?case
    proof (cases "map_of (tcpStore d1) key")
      case (Some v)
      have "eff sock d1 (fst (bindO (sendVector d1 sock v) (\<lambda>d2 _. multiGet_loop d2 sock n)))"
        by (rule seq_eff) (auto simp: sendVector_eff 1(3) Suc.IH)
      then show ?thesis using Some by simp
    qed (simp add: 1(3))
  qed
qed simp

lemma multiGetHandler_eff: "healthy d \<Longrightarrow> eff sock d (fst (multiGetHandler d sock))"
  unfolding multiGetHandler_def by (rule recv_eff) (auto simp: multiGet_loop_eff)

lemma multiSet_loop_eff: "healthy d \<Longrightarrow> eff sock d (fst (multiSet_loop d n))"
proof (induction n arbitrary: d)
  case (Suc n)
  show ?case unfolding multiSet_loop.simps doSet_def
    by (rule recv_eff [OF Suc.prems], simp, rule recv_eff, assumption, simp, rule seq_eff)
      (auto simp: put_wakeup_eff Suc.IH)
qed simp

lemma multiSetHandler_eff: "healthy d \<Longrightarrow> eff sock d (fst (multiSetHandler d sock))"
  unfolding multiSetHandler_def by (rule recv_eff) (auto simp: multiSet_loop_eff)

lemma cancelWaitHandler_eff: "healthy d \<Longrightarrow> eff sock d (fst (cancelWaitHandler d sock))"
  unfolding cancelWaitHandler_def
  using eff_trans [OF clear_eff sendValue_eff] eff_healthy [OF clear_eff] by blast

lemma sendStrings_eff: "healthy d \<Longrightarrow> eff sock d (fst (sendStrings d sock ks))"
proof (induction ks arbitrary: d)
  case (Cons k ks)
  show ?case unfolding sendStrings.simps sendString_def
    by (rule seq_eff) (auto simp: sendVector_eff Cons)
qed simp

lemma listKeysHandler_eff: "healthy d \<Longrightarrow> eff sock d (fst (listKeysHandler d sock))"
  unfolding listKeysHandler_def by (rule seq_eff) (auto simp: sendValue_eff sendStrings_eff)

lemma barrierHandler_eff:
  assumes "healthy d" "count_waiting d sock = 0" shows "eff sock d (fst (barrierHandler d sock))"
  unfolding barrierHandler_def
proof (rule recv_eff [OF assms(1)], simp, rule recv_eff, assumption, simp, goal_cases)
  case (1 d1 key d2 raw)
  have "same_but_in d d2" using same_but_in_trans [OF 1(2) 1(5)] .
  then have idle: "count_waiting d2 sock = 0" using assms(2) by (auto simp: same_but_in_def count_waiting_def)
  have go: "eff sock d2 (fst (bindO (sendValue (store_put d2 key v) sock 1 STOP_WAITING) (\<lambda>d4 _. wakeupWaitingClients d4 key)))" for v
  proof (rule seq_eff)
    show "eff sock d2 (fst (sendValue (store_put d2 key v) sock 1 STOP_WAITING))"
      using eff_trans [OF store_put_eff sendValue_eff] eff_healthy [OF store_put_eff] 1(6) by blast
  qed (simp add: wakeup_eff)
  have reg: "eff sock d2 ((push_waiting (store_put d2 key v) key sock)\<lparr> keysAwaited := AList.update sock 1 (keysAwaited (store_put d2 key v)) \<rparr>)" for v
  proof -
    have h: "healthy (store_put d2 key v)" using store_put_eff [OF 1(6)] eff_healthy by blast
    have i: "count_waiting (store_put d2 key v) sock = 0" using idle by (simp add: store_put_def count_waiting_def)
    have "distinct (map fst (waitingSockets (store_put d2 key v)))" using h by (simp add: healthy_def await_inv_def)
    then have "eff sock (store_put d2 key v) ((push_waiting (store_put d2 key v) key sock)\<lparr> keysAwaited :=
        AList.update sock (word_of_nat 1) (keysAwaited (push_waiting (store_put d2 key v) key sock)) \<rparr>)"
      by (intro registered_eff [OF h i]) (auto simp: push_waiting_frame push_waiting_count)
    then show ?thesis using eff_trans [OF store_put_eff [OF 1(6)]] by (simp add: push_waiting_frame)
  qed
  show ?case using go reg 1(6) by (auto simp: Let_def split: sum.splits)
qed

section \<open>Queries\<close>

lemma dispatch_eff:
  assumes "healthy d" "count_waiting d sock = 0 \<or> qt \<noteq> Some WAIT \<and> qt \<noteq> Some BARRIER"
  shows "eff sock d (fst (dispatch d sock qt))"
proof (cases qt)
  case None
  then show ?thesis using assms by (simp add: dispatch_def)
next
  case (Some q)
  then show ?thesis using assms
    by (cases q) (auto simp: dispatch_def pingHandler_eff setHandler_eff compareSetHandler_eff addHandler_eff
        getHandler_eff checkHandler_eff waitHandler_eff getNumKeysHandler_eff deleteHandler_eff appendHandler_eff
        multiGetHandler_eff multiSetHandler_eff cancelWaitHandler_eff listKeysHandler_eff barrierHandler_eff)
qed

text \<open>
  A client that waits is blocked in \<open>doWait\<close> or \<open>barrier\<close>: the only query it may send is
  \<open>CANCEL_WAIT\<close>, which has no arguments.
\<close>

definition client_may_send :: "tcp_daemon \<Rightarrow> nat \<Rightarrow> bytes \<Rightarrow> bool" where
  "client_may_send d sock input \<longleftrightarrow> count_waiting d sock = 0 \<or>
     (input \<noteq> [] \<and> query_of_code (from_le (take 1 input)) \<notin> {Some WAIT, Some BARRIER})"

lemma query_eff:
  assumes "healthy d" "client_may_send d sock (td_in d)"
  shows "eff sock d (fst (query d sock))"
  unfolding query_def
proof (rule recv_eff [OF assms(1)], simp, goal_cases)
  case (1 d1 qt)
  have misc: "eff sock d1 (removeMiscellaneousSocket d1 sock)"
    by (rule eff_same [OF 1(3), where out = "[]"]) (auto simp: removeMiscellaneousSocket_def)
  have cnt: "count_waiting d1 sock = count_waiting d sock" using 1(2) by (auto simp: same_but_in_def count_waiting_def)
  have qt: "td_in d \<noteq> [] \<Longrightarrow> qt = from_le (take 1 (td_in d))"
    using 1(1) by (auto simp: recvValue_def recvBytes_def bindO_Returns_iff split: if_splits)
  have "count_waiting d1 sock = 0 \<or> query_of_code qt \<noteq> Some WAIT \<and> query_of_code qt \<noteq> Some BARRIER"
    using assms(2) cnt qt by (auto simp: client_may_send_def)
  then have disp: "eff sock d1 (fst (dispatch d1 sock (query_of_code qt)))" by (rule dispatch_eff [OF 1(3)])
  show ?case using misc disp eff_trans [OF misc validateHandler_eff [OF eff_healthy [OF misc]]]
    by (simp add: Let_def)
qed

lemma query_fd_eff:
  assumes "healthy d" "client_may_send d sock input"
  shows "eff sock d (query_fd d sock input)"
proof -
  let ?d0 = "d\<lparr> td_in := input \<rparr>"
  have e0: "eff sock d ?d0" by (rule eff_same [OF assms(1), where out = "[]"]) auto
  have "client_may_send ?d0 sock (td_in ?d0)"
    using assms(2) by (simp add: client_may_send_def count_waiting_def)
  then have e1: "eff sock d (fst (query ?d0 sock))"
    using eff_trans [OF e0 query_eff [OF eff_healthy [OF e0]]] by blast
  obtain d' r where q: "query ?d0 sock = (d', r)" by fastforce
  then have e2: "eff sock d d'" using e1 by simp
  have e3: "eff sock d (clearSocketWaitState d' sock)" using eff_trans [OF e2 clear_eff [OF eff_healthy [OF e2]]] .
  have "eff sock (clearSocketWaitState d' sock) ((clearSocketWaitState d' sock)\<lparr> td_sockets := x \<rparr>)" for x
    by (rule eff_same [OF eff_healthy [OF e3], where out = "[]"]) auto
  then show ?thesis using e2 q eff_trans [OF e3] by (cases r) (auto simp: query_fd_def)
qed


definition daemon_one_waiting :: tcp_daemon where
  "daemon_one_waiting = daemon_empty\<lparr> td_sockets := [1, 2], waitingSockets := [(''k'', [2])], keysAwaited := [(2, 1)] \<rparr>"

text \<open>The bytes of a \<open>SET\<close> of the key \<open>k\<close> to the empty value, and of a \<open>COMPARE_SET\<close> of a new key \<open>k\<close>.\<close>

definition set_k_query :: bytes where
  "set_k_query = 1 # to_le 8 1 @ string_bytes ''k'' @ to_le 8 0"

definition compareSet_k_query :: bytes where
  "compareSet_k_query = 2 # to_le 8 1 @ string_bytes ''k'' @ to_le 8 0 @ to_le 8 0"

lemma recvBytes_append [simp]: "n = length b \<Longrightarrow> recvBytes (d\<lparr> td_in := b @ r \<rparr>) n = (d\<lparr> td_in := r \<rparr>, Returns b)"
  by (simp add: recvBytes_def)

lemma recvVector_append:
  "length b < 2 ^ 64 \<Longrightarrow> recvVector (d\<lparr> td_in := to_le 8 (length b) @ b @ r \<rparr>) = (d\<lparr> td_in := r \<rparr>, Returns b)"
  by (simp add: recvVector_def recvValue_def)

lemma recvString_append:
  "length k < 2 ^ 64 \<Longrightarrow> recvString (d\<lparr> td_in := to_le 8 (length k) @ string_bytes k @ r \<rparr>) = (d\<lparr> td_in := r \<rparr>, Returns k)"
  using recvVector_append [of "string_bytes k" r d] by (simp add: recvString_def)

lemma recvVector_last:
  "length b < 2 ^ 64 \<Longrightarrow> recvVector (d\<lparr> td_in := to_le 8 (length b) @ b \<rparr>) = (d\<lparr> td_in := [] \<rparr>, Returns b)"
  using recvVector_append [of b "[]" d] by simp

lemma recv_code: "recvValue (d\<lparr> td_in := b # r \<rparr>) 1 = (d\<lparr> td_in := r \<rparr>, Returns (unat b))"
  by (simp add: recvValue_def recvBytes_def)

lemma query_dispatch:
  "sock \<notin> set (miscellaneousSockets d) \<Longrightarrow>
     query (d\<lparr> td_in := b # r \<rparr>) sock = dispatch (d\<lparr> td_in := r \<rparr>) sock (query_of_code (unat b))"
  unfolding query_def recv_code by (simp add: isMiscellaneousSocket_def)

lemma setHandler_bytes:
  "length k < 2 ^ 64 \<Longrightarrow> length v < 2 ^ 64 \<Longrightarrow>
     setHandler (d\<lparr> td_in := to_le 8 (length k) @ string_bytes k @ to_le 8 (length v) @ v \<rparr>) sock = doSet (d\<lparr> td_in := [] \<rparr>) k v"
  by (simp add: setHandler_def recvString_append recvVector_last)

lemma compareSetHandler_bytes:
  "length k < 2 ^ 64 \<Longrightarrow> length e < 2 ^ 64 \<Longrightarrow> length v < 2 ^ 64 \<Longrightarrow> d' = d\<lparr> td_in := [] \<rparr> \<Longrightarrow>
     compareSetHandler (d\<lparr> td_in := to_le 8 (length k) @ string_bytes k @ to_le 8 (length e) @ e @ to_le 8 (length v) @ v \<rparr>) sock =
       (case map_of (tcpStore d) k of
         None \<Rightarrow> if e = [] then sendVector (store_put d' k v) sock v else sendVector d' sock e
       | Some w \<Rightarrow> if w = e then sendVector (store_put d' k v) sock v else sendVector d' sock w)"
  by (simp add: compareSetHandler_def recvString_append recvVector_append recvVector_last split: option.splits)

lemma query_set_k:
  "query (daemon_one_waiting\<lparr> td_in := set_k_query \<rparr>) 1 =
     (daemon_one_waiting\<lparr> td_in := [], tcpStore := [(''k'', [])], waitingSockets := [], keysAwaited := [(2, 0)],
        td_out := [(2, [0])] \<rparr>, Returns ())"
proof -
  let ?d = "daemon_one_waiting"
  have m: "1 \<notin> set (miscellaneousSockets ?d)" by (simp add: daemon_one_waiting_def daemon_empty_def)
  have "query (?d\<lparr> td_in := set_k_query \<rparr>) 1 = doSet (?d\<lparr> td_in := [] \<rparr>) ''k'' []"
    unfolding set_k_query_def query_dispatch [OF m]
    using setHandler_bytes [of "''k''" "[]" ?d 1] by (simp add: query_of_code_def query_types_def dispatch_def)
  also have "\<dots> = (?d\<lparr> td_in := [], tcpStore := [(''k'', [])], waitingSockets := [], keysAwaited := [(2, 0)],
      td_out := [(2, [0])] \<rparr>, Returns ())"
    by (simp add: doSet_def store_put_def wakeupWaitingClients_def daemon_one_waiting_def daemon_empty_def awaited_def
        sendValue_def sendBytes_def STOP_WAITING_def)
  finally show ?thesis .
qed


text \<open>A run of the daemon in which every client respects the protocol.\<close>

fun events_ok :: "tcp_daemon \<Rightarrow> daemon_event list \<Rightarrow> bool" where
  "events_ok d [] = True"
| "events_ok d (Accepted sock # evs) = events_ok (accept_socket d sock) evs"
| "events_ok d (Readable sock input # evs) \<longleftrightarrow> client_may_send d sock input \<and>
     events_ok (if sock \<in> set (td_sockets d) then query_fd d sock input else d) evs"
| "events_ok d (StopSignal # evs) = True"

lemma daemon_run_healthy: "healthy d \<Longrightarrow> events_ok d evs \<Longrightarrow> healthy (daemon_run d evs)"
proof (induction d evs rule: daemon_run.induct)
  case (2 d sock evs)
  have "healthy (accept_socket d sock)"
    using 2(2) by (simp add: accept_socket_def addMiscellaneousSocket_def healthy_def await_inv_def awaited_def count_waiting_def)
  then show ?case using 2 by simp
next
  case (3 d sock input evs)
  then show ?case using eff_healthy [OF query_fd_eff [of d sock input]] by auto
qed simp_all

section \<open>Lost wake-ups\<close>

text \<open>Only keys that are not in the store have waiting clients.\<close>

definition absent_inv :: "tcp_daemon \<Rightarrow> bool" where
  "absent_inv d \<longleftrightarrow> (\<forall>k. map_of (waitingSockets d) k \<noteq> None \<longrightarrow> map_of (tcpStore d) k = None)"

definition same_store :: "tcp_daemon \<Rightarrow> tcp_daemon \<Rightarrow> bool" where
  "same_store d d' \<longleftrightarrow> tcpStore d' = tcpStore d \<and> waitingSockets d' = waitingSockets d"

lemma same_store_absent: "same_store d d' \<Longrightarrow> absent_inv d \<Longrightarrow> absent_inv d'"
  by (simp add: same_store_def absent_inv_def)

lemma same_store_refl [simp]: "same_store d d"
  by (simp add: same_store_def)

lemma same_but_in_store: "same_but_in d d' \<Longrightarrow> same_store d d'"
  by (auto simp: same_but_in_def same_store_def)

lemma bind_absent:
  assumes "absent_inv (fst m)" "\<And>d' a. m = (d', Returns a) \<Longrightarrow> absent_inv d' \<Longrightarrow> absent_inv (fst (f d' a))"
  shows "absent_inv (fst (bindO m f))"
  using assms by (cases m; cases "snd m") auto

lemma recv_absent:
  assumes "healthy d" "absent_inv d" "same_but_in d (fst m)"
    "\<And>d' a. m = (d', Returns a) \<Longrightarrow> healthy d' \<Longrightarrow> absent_inv d' \<Longrightarrow> absent_inv (fst (f d' a))"
  shows "absent_inv (fst (bindO m f))"
proof (rule bind_absent)
  show "absent_inv (fst m)" using same_store_absent [OF same_but_in_store [OF assms(3)] assms(2)] .
  fix d' a
  assume m: "m = (d', Returns a)" and "absent_inv d'"
  moreover have "healthy d'" using eff_healthy [OF same_but_in_eff [OF assms(1,3), of 0]] m by simp
  ultimately show "absent_inv (fst (f d' a))" using assms(4) by blast
qed

lemma sendBytes_same: "same_store d (fst (sendBytes d sock b))"
  by (simp add: sendBytes_def same_store_def)

lemma sendValue_same: "same_store d (fst (sendValue d sock n v))"
  by (simp add: sendValue_def sendBytes_same)

lemma sendVector_same: "same_store d (fst (sendVector d sock v))"
proof -
  obtain d1 r where b: "sendBytes d sock (to_le 8 (length v)) = (d1, r)" by fastforce
  have 1: "same_store d d1" using sendBytes_same [of d sock "to_le 8 (length v)"] b by simp
  show ?thesis using 1 sendBytes_same [of d1 sock v] b by (cases r) (auto simp: sendVector_def same_store_def)
qed

lemma put_wakeup_absent:
  assumes "healthy d" "absent_inv d" shows "absent_inv (fst (wakeupWaitingClients (store_put d k v) k))"
proof -
  have "healthy (store_put d k v)" using eff_healthy [OF store_put_eff [OF assms(1)]] .
  from wakeup_ok [OF this, of k 0] obtain d' where "wakeupWaitingClients (store_put d k v) k = (d', Returns ())"
      "waitingSockets d' = AList.delete k (waitingSockets d)" "tcpStore d' = AList.update k v (tcpStore d)"
    by (auto simp: store_put_def)
  then show ?thesis using assms(2) by (auto simp: absent_inv_def update_conv' delete_conv')
qed

lemma setHandler_absent: "healthy d \<Longrightarrow> absent_inv d \<Longrightarrow> absent_inv (fst (setHandler d sock))"
  unfolding setHandler_def doSet_def
  by (rule recv_absent [rotated 2], rule same_but_in_recv(4), rule recv_absent [rotated 2], rule same_but_in_recv(3))
    (auto simp: put_wakeup_absent)

lemma appendHandler_absent: "healthy d \<Longrightarrow> absent_inv d \<Longrightarrow> absent_inv (fst (appendHandler d sock))"
  unfolding appendHandler_def
  by (rule recv_absent [rotated 2], rule same_but_in_recv(4), rule recv_absent [rotated 2], rule same_but_in_recv(3))
    (auto simp: put_wakeup_absent)

lemma addHandler_absent:
  assumes "healthy d" "absent_inv d" shows "absent_inv (fst (addHandler d sock))"
  unfolding addHandler_def
proof (rule recv_absent [OF assms], simp, rule recv_absent, assumption, assumption, simp, goal_cases)
  case (1 d1 key d2 raw)
  have "absent_inv (fst (bindO (sendValue (store_put d2 key v) sock 8 n) (\<lambda>d3 _. wakeupWaitingClients d3 key)))" for v n
  proof -
    have c: "td_closed d2 = []" using 1(5) by (simp add: healthy_def)
    have eq: "sendValue (store_put d2 key v) sock 8 n =
        (store_put (d2\<lparr> td_out := td_out d2 @ [(sock, to_le 8 n)] \<rparr>) key v, Returns ())"
      using c by (simp add: sendValue_def sendBytes_def store_put_def)
    have h: "healthy (d2\<lparr> td_out := td_out d2 @ [(sock, to_le 8 n)] \<rparr>)"
      using 1(5) by (simp add: healthy_def await_inv_def awaited_def count_waiting_def)
    have "absent_inv (d2\<lparr> td_out := td_out d2 @ [(sock, to_le 8 n)] \<rparr>)" using 1(6) by (simp add: absent_inv_def)
    then show ?thesis using put_wakeup_absent [OF h] eq by simp
  qed
  then show ?case using 1(6) by (auto split: sum.splits)
qed

lemma multiSet_loop_absent: "healthy d \<Longrightarrow> absent_inv d \<Longrightarrow> absent_inv (fst (multiSet_loop d n))"
proof (induction n arbitrary: d)
  case (Suc n)
  show ?case unfolding multiSet_loop.simps doSet_def
  proof (rule recv_absent [OF Suc.prems], simp, rule recv_absent, assumption, assumption, simp, rule bind_absent, goal_cases)
    case (1 d1 key d2 v)
    then show ?case by (simp add: put_wakeup_absent)
  next
    case (2 d1 key d2 v d3 u)
    then show ?case using Suc.IH [of d3] eff_healthy [OF put_wakeup_eff [of d2 0 key v key]] by simp
  qed
qed simp

lemma multiGet_loop_same: "same_store d (fst (multiGet_loop d sock n))"
proof (induction n arbitrary: d)
  case (Suc n)
  have t: "same_store a c" if "same_store a b" "same_store b c" for a b c using that by (simp add: same_store_def)
  have b: "same_store d (fst (bindO m f))" if "same_store d (fst m)" "\<And>d' a. same_store d' (fst (f d' a))"
    for m :: "tcp_daemon \<times> 'a outcome" and f :: "tcp_daemon \<Rightarrow> 'a \<Rightarrow> tcp_daemon \<times> unit outcome" and d
    using that by (cases m; cases "snd m") (auto intro: t)
  have step: "same_store d' (fst (bindO (sendVector d' sock v) (\<lambda>d2 _. multiGet_loop d2 sock n)))" for d' v
  proof (cases "sendVector d' sock v")
    case (Pair d2 r)
    then have "same_store d' d2" using sendVector_same [of d' sock v] by simp
    then show ?thesis using Pair Suc.IH [of d2] t by (cases r) auto
  qed
  show ?case unfolding multiGet_loop.simps
    by (rule b) (auto simp: same_but_in_store step split: option.splits)
qed (simp add: same_store_def)

lemma sendStrings_same: "same_store d (fst (sendStrings d sock ks))"
proof (induction ks arbitrary: d)
  case (Cons k ks)
  obtain d1 r where s: "sendVector d sock (string_bytes k) = (d1, r)" by fastforce
  have "same_store d d1" using sendVector_same [of d sock "string_bytes k"] s by simp
  then show ?case using s Cons.IH [of d1] by (cases r) (auto simp: sendString_def same_store_def)
qed (simp add: same_store_def)

lemma register_waits_absent: "absent_inv d \<Longrightarrow> absent_inv (fst (register_waits d sock keys n))"
proof (induction keys arbitrary: d n)
  case (Cons key keys)
  have "absent_inv (push_waiting d key sock)" if "map_of (tcpStore d) key = None"
    using Cons.prems that by (auto simp: absent_inv_def push_waiting_def update_conv')
  then show ?case using Cons by simp
qed simp

lemma waitHandler_absent:
  assumes "healthy d" "absent_inv d" shows "absent_inv (fst (waitHandler d sock))"
  unfolding waitHandler_def
proof (rule recv_absent [OF assms], simp, rule recv_absent, assumption, assumption, simp, goal_cases)
  case (1 d1 nargs d2 keys)
  have "absent_inv (fst (sendValue d2 sock 1 STOP_WAITING))" using same_store_absent [OF sendValue_same 1(6)] .
  moreover have "absent_inv (d3\<lparr> keysAwaited := x \<rparr>)" if "register_waits d2 sock keys 0 = (d3, n)" for d3 n x
    using register_waits_absent [OF 1(6), of sock keys 0] that by (simp add: absent_inv_def)
  ultimately show ?case by (auto split: prod.splits)
qed

lemma clear_absent: "absent_inv d \<Longrightarrow> absent_inv (clearSocketWaitState d sock)"
proof -
  have "fst ` set (waitingSockets (clearSocketWaitState d sock)) \<subseteq> fst ` set (waitingSockets d)"
    by (force simp: clearSocketWaitState_def)
  then show "absent_inv d \<Longrightarrow> absent_inv (clearSocketWaitState d sock)"
    by (auto simp: absent_inv_def map_of_eq_None_iff clearSocketWaitState_def subset_iff)
qed

lemma simple_handlers_absent:
  assumes "healthy d" "absent_inv d"
  shows "absent_inv (fst (validateHandler d sock))" "absent_inv (fst (pingHandler d sock))"
    "absent_inv (fst (getHandler d sock))" "absent_inv (fst (checkHandler d sock))"
    "absent_inv (fst (getNumKeysHandler d sock))" "absent_inv (fst (deleteHandler d sock))"
    "absent_inv (fst (multiGetHandler d sock))" "absent_inv (fst (multiSetHandler d sock))"
    "absent_inv (fst (cancelWaitHandler d sock))" "absent_inv (fst (listKeysHandler d sock))"
proof -
  note S = same_store_absent [OF sendValue_same] same_store_absent [OF sendVector_same]
  show "absent_inv (fst (validateHandler d sock))"
    unfolding validateHandler_def by (rule recv_absent [OF assms]) auto
  show "absent_inv (fst (pingHandler d sock))"
    unfolding pingHandler_def by (rule recv_absent [OF assms]) (auto intro: S)
  show "absent_inv (fst (getHandler d sock))"
    unfolding getHandler_def by (rule recv_absent [OF assms]) (auto intro: S split: option.splits)
  show "absent_inv (fst (checkHandler d sock))"
    unfolding checkHandler_def by (rule recv_absent [OF assms], simp, rule recv_absent) (auto intro: S)
  show "absent_inv (fst (getNumKeysHandler d sock))" using assms by (auto simp: getNumKeysHandler_def intro: S)
  show "absent_inv (fst (deleteHandler d sock))"
    unfolding deleteHandler_def Let_def
    by (rule recv_absent [OF assms], simp, rule S(1)) (auto simp: absent_inv_def delete_conv')
  show "absent_inv (fst (multiGetHandler d sock))"
    unfolding multiGetHandler_def by (rule recv_absent [OF assms]) (auto intro: same_store_absent [OF multiGet_loop_same])
  show "absent_inv (fst (multiSetHandler d sock))"
    unfolding multiSetHandler_def by (rule recv_absent [OF assms]) (auto simp: multiSet_loop_absent)
  show "absent_inv (fst (cancelWaitHandler d sock))"
    using assms clear_absent by (auto simp: cancelWaitHandler_def intro: S)
  show "absent_inv (fst (listKeysHandler d sock))"
    unfolding listKeysHandler_def
    by (rule bind_absent) (use assms in \<open>auto intro: S same_store_absent [OF sendStrings_same]\<close>)
qed

definition input_query :: "bytes \<Rightarrow> query_type option" where
  "input_query input = (if input = [] then None else query_of_code (from_le (take 1 input)))"

lemma dispatch_absent:
  assumes "healthy d" "absent_inv d" "qt \<noteq> Some COMPARE_SET" "qt \<noteq> Some BARRIER"
  shows "absent_inv (fst (dispatch d sock qt))"
proof (cases qt)
  case None
  then show ?thesis using assms by (simp add: dispatch_def)
next
  case (Some q)
  then show ?thesis using assms simple_handlers_absent [OF assms(1,2)]
    by (cases q) (simp_all add: dispatch_def setHandler_absent appendHandler_absent addHandler_absent waitHandler_absent)
qed

lemma query_fd_absent:
  assumes "healthy d" "absent_inv d" "input_query input \<notin> {Some COMPARE_SET, Some BARRIER}"
  shows "absent_inv (query_fd d sock input)"
proof -
  let ?d0 = "d\<lparr> td_in := input \<rparr>"
  have h: "healthy ?d0" using assms(1) by (simp add: healthy_def await_inv_def awaited_def count_waiting_def)
  have a: "absent_inv ?d0" using assms(2) by (simp add: absent_inv_def)
  have "absent_inv (fst (query ?d0 sock))"
    unfolding query_def
  proof (rule recv_absent [OF h a], simp, goal_cases)
    case (1 d1 qt)
    have "query_of_code qt = input_query input"
      using 1(1) by (auto simp: recvValue_def recvBytes_def bindO_Returns_iff input_query_def split: if_splits)
    then have "absent_inv (fst (dispatch d1 sock (query_of_code qt)))"
      using dispatch_absent [OF 1(2,3)] assms(3) by auto
    moreover have "absent_inv (removeMiscellaneousSocket d1 sock)" "healthy (removeMiscellaneousSocket d1 sock)"
      using 1(2,3) by (simp_all add: removeMiscellaneousSocket_def absent_inv_def healthy_def await_inv_def awaited_def count_waiting_def)
    ultimately show ?case using simple_handlers_absent(1) by (simp add: Let_def)
  qed
  moreover have "absent_inv (d'\<lparr> td_sockets := x \<rparr>) = absent_inv d'" for d' x by (simp add: absent_inv_def)
  ultimately show ?thesis using clear_absent
    by (cases "query ?d0 sock"; cases "snd (query ?d0 sock)") (auto simp: query_fd_def)
qed

lemma waiting_key_absent:
  assumes "absent_inv d" "0 < count_waiting d s"
  shows "\<exists>k ss. (k, ss) \<in> set (waitingSockets d) \<and> s \<in> set ss \<and> map_of (tcpStore d) k = None"
proof -
  have "\<not> (\<forall>e \<in> set (waitingSockets d). count_list (snd e) s = 0)"
  proof
    assume "\<forall>e \<in> set (waitingSockets d). count_list (snd e) s = 0"
    then have "count_waiting d s = 0" by (auto simp: count_waiting_def intro!: sum_list_0 cong: map_cong)
    then show False using assms(2) by simp
  qed
  then obtain e where e: "e \<in> set (waitingSockets d)" "count_list (snd e) s \<noteq> 0" by blast
  have "map_of (waitingSockets d) (fst e) \<noteq> None" using e(1) by (simp add: map_of_eq_None_iff)
  then have "map_of (tcpStore d) (fst e) = None" using assms(1) by (simp add: absent_inv_def)
  moreover have "s \<in> set (snd e)" using e(2) by (simp add: count_list_0_iff)
  ultimately show ?thesis using e(1) by (intro exI [of _ "fst e"] exI [of _ "snd e"]) simp
qed


lemma daemon_one_waiting_ok: "healthy daemon_one_waiting" "absent_inv daemon_one_waiting"
  by (auto simp: healthy_def await_inv_def daemon_one_waiting_def daemon_empty_def awaited_def count_waiting_def absent_inv_def)


text \<open>
  Property: the handler of \<open>COMPARE_SET\<close> does not wake anybody. When client
  2 waits for the key \<open>k\<close> and client 1 creates it with \<open>compareSet\<close>, the key is in the store, client 2
  is still registered as waiting and nothing has been sent to it.
\<close>
theorem compareSet_loses_wakeup:
  "map_of (tcpStore (query_fd daemon_one_waiting 1 compareSet_k_query)) ''k'' = Some [] \<and>
   map_of (waitingSockets (query_fd daemon_one_waiting 1 compareSet_k_query)) ''k'' = Some [2] \<and>
   replies (td_out (query_fd daemon_one_waiting 1 compareSet_k_query)) 2 = []"
proof -
  let ?d = "daemon_one_waiting"
  have m: "1 \<notin> set (miscellaneousSockets ?d)" by (simp add: daemon_one_waiting_def daemon_empty_def)
  have "query (?d\<lparr> td_in := compareSet_k_query \<rparr>) 1 = sendVector (store_put (?d\<lparr> td_in := [] \<rparr>) ''k'' []) 1 []"
    unfolding compareSet_k_query_def query_dispatch [OF m]
    using compareSetHandler_bytes [of "''k''" "[]" "[]" _ ?d 1, OF _ _ _ refl]
    by (simp add: query_of_code_def query_types_def dispatch_def daemon_one_waiting_def daemon_empty_def)
  also have "\<dots> = (?d\<lparr> td_in := [], tcpStore := [(''k'', [])], td_out := [(1, to_le 8 0)] \<rparr>, Returns ())"
    by (simp add: store_put_def daemon_one_waiting_def daemon_empty_def sendVector_def sendBytes_def)
  finally have "query (?d\<lparr> td_in := compareSet_k_query \<rparr>) 1 =
      (?d\<lparr> td_in := [], tcpStore := [(''k'', [])], td_out := [(1, to_le 8 0)] \<rparr>, Returns ())" .
  then have "query_fd ?d 1 compareSet_k_query = ?d\<lparr> td_in := [], tcpStore := [(''k'', [])], td_out := [(1, to_le 8 0)] \<rparr>"
    by (simp add: query_fd_def)
  then show ?thesis by (simp add: daemon_one_waiting_def)
qed

end
