(* ===== verification/TcpStore.thy ===== *)
theory TcpStore
  imports TcpWakeups
begin

text \<open>
  \<open>torch/csrc/distributed/c10d/TCPStore.cpp\<close>: the client side of the TCP store. A client builds its
  query in a \<open>SendBuffer\<close>, the daemon serves it, and the client reads what the daemon has sent to its
  socket. The state is the daemon; \<open>sock\<close> is the connection of the client.
\<close>

section \<open>Send buffer\<close>

text \<open>\<open>sb_sent\<close> are the bytes that have been handed to the socket.\<close>

record send_buffer =
  sb_buffer :: bytes
  sb_sent :: bytes

definition FLUSH_WATERMARK :: nat where "FLUSH_WATERMARK = 1440"

definition sb_flush :: "send_buffer \<Rightarrow> send_buffer" where
  "sb_flush b = (if sb_buffer b \<noteq> [] then \<lparr> sb_buffer = [], sb_sent = sb_sent b @ sb_buffer b \<rparr> else b)"

definition maybeFlush :: "send_buffer \<Rightarrow> send_buffer" where
  "maybeFlush b = (if length (sb_buffer b) \<ge> FLUSH_WATERMARK then sb_flush b else b)"

definition SendBuffer :: "query_type \<Rightarrow> send_buffer" where
  "SendBuffer cmd = \<lparr> sb_buffer = [word_of_nat (query_code cmd)], sb_sent = [] \<rparr>"

definition sb_insert :: "send_buffer \<Rightarrow> bytes \<Rightarrow> send_buffer" where
  "sb_insert b bs = b\<lparr> sb_buffer := sb_buffer b @ bs \<rparr>"

definition appendValue :: "nat \<Rightarrow> nat \<Rightarrow> send_buffer \<Rightarrow> send_buffer" where
  "appendValue n v b = maybeFlush (sb_insert b (to_le n v))"

definition appendBytes :: "bytes \<Rightarrow> send_buffer \<Rightarrow> send_buffer" where
  "appendBytes vec b = maybeFlush (sb_insert (appendValue 8 (length vec) b) vec)"

definition appendString :: "string \<Rightarrow> send_buffer \<Rightarrow> send_buffer" where
  "appendString str b = maybeFlush (sb_insert (appendValue 8 (length str) b) (string_bytes str))"

fun appendStrings :: "string list \<Rightarrow> send_buffer \<Rightarrow> send_buffer" where
  "appendStrings [] b = b"
| "appendStrings (k # ks) b = appendStrings ks (appendString k b)"

section \<open>Client operations\<close>

definition keyPrefix :: string where "keyPrefix = ''/''"
definition initKey :: string where "initKey = ''init/''"

text \<open>
  The daemon serves the flushed bytes; the result are the bytes it has sent to the client meanwhile.
\<close>

definition exchange :: "nat \<Rightarrow> tcp_daemon \<Rightarrow> send_buffer \<Rightarrow> tcp_daemon \<times> bytes" where
  "exchange sock d b = (let d' = query_fd d sock (sb_sent (sb_flush b))
     in (d', replies (drop (length (td_out d)) (td_out d')) sock))"

text \<open>\<open>receiveValue\<close> and \<open>receiveBits\<close> on the bytes that have arrived; too few is a broken connection.\<close>

definition receiveValue :: "nat \<Rightarrow> bytes \<Rightarrow> (nat \<times> bytes) result" where
  "receiveValue n bs = (if n \<le> length bs then Inr (from_le (take n bs), drop n bs)
     else Inl (DistNetworkError ''Failed to recv, got 0 bytes.''))"

definition receiveBits :: "bytes \<Rightarrow> (bytes \<times> bytes) result" where
  "receiveBits bs = bindE (receiveValue 8 bs) (\<lambda>(n, r).
     if n \<le> length r then Inr (take n r, drop n r) else Inl (DistNetworkError ''Failed to recv, got 0 bytes.''))"

definition finish :: "tcp_daemon \<Rightarrow> 'a result \<Rightarrow> tcp_daemon \<times> 'a outcome" where
  "finish d r = (d, case r of Inl e \<Rightarrow> Throws e | Inr a \<Rightarrow> Returns a)"

definition tcp_validate :: "nat \<Rightarrow> tcp_daemon \<Rightarrow> tcp_daemon \<times> unit outcome" where
  "tcp_validate sock d = (fst (exchange sock d (appendValue 4 validationMagicNumber (SendBuffer VALIDATE))), Returns ())"

definition tcp_ping :: "nat \<Rightarrow> tcp_daemon \<Rightarrow> nat \<Rightarrow> tcp_daemon \<times> unit outcome" where
  "tcp_ping sock d nonce = (case exchange sock d (appendValue 4 nonce (SendBuffer PING)) of (d', rs) \<Rightarrow>
     finish d' (bindE (receiveValue 4 rs) (\<lambda>(returnedNonce, _).
       if nonce \<noteq> returnedNonce then Inl (DistNetworkError ''Ping failed, invalid value returned from server.'') else Inr ())))"

definition tcp_set :: "nat \<Rightarrow> tcp_daemon \<Rightarrow> string \<Rightarrow> bytes \<Rightarrow> tcp_daemon \<times> unit outcome" where
  "tcp_set sock d key data = (fst (exchange sock d
     (appendBytes data (appendString (keyPrefix @ key) (SendBuffer SET)))), Returns ())"

definition tcp_compareSet :: "nat \<Rightarrow> tcp_daemon \<Rightarrow> string \<Rightarrow> bytes \<Rightarrow> bytes \<Rightarrow> tcp_daemon \<times> bytes outcome" where
  "tcp_compareSet sock d key expectedValue desiredValue =
     (case exchange sock d (appendBytes desiredValue (appendBytes expectedValue
         (appendString (keyPrefix @ key) (SendBuffer COMPARE_SET)))) of (d', rs) \<Rightarrow>
      finish d' (bindE (receiveBits rs) (\<lambda>(v, _). Inr v)))"

definition incrementValueBy :: "nat \<Rightarrow> tcp_daemon \<Rightarrow> string \<Rightarrow> int \<Rightarrow> tcp_daemon \<times> int outcome" where
  "incrementValueBy sock d key delta =
     (case exchange sock d (appendValue 8 (nat_of_s64 delta) (appendString key (SendBuffer ADD))) of (d', rs) \<Rightarrow>
      finish d' (bindE (receiveValue 8 rs) (\<lambda>(v, _). Inr (s64_of_nat v))))"

definition tcp_add :: "nat \<Rightarrow> tcp_daemon \<Rightarrow> string \<Rightarrow> int \<Rightarrow> tcp_daemon \<times> int outcome" where
  "tcp_add sock d key v = incrementValueBy sock d (keyPrefix @ key) v"

definition tcp_deleteKey :: "nat \<Rightarrow> tcp_daemon \<Rightarrow> string \<Rightarrow> tcp_daemon \<times> bool outcome" where
  "tcp_deleteKey sock d key =
     (case exchange sock d (appendString (keyPrefix @ key) (SendBuffer DELETE_KEY)) of (d', rs) \<Rightarrow>
      finish d' (bindE (receiveValue 8 rs) (\<lambda>(numDeleted, _). Inr (s64_of_nat numDeleted = 1))))"

definition tcp_getNumKeys :: "nat \<Rightarrow> tcp_daemon \<Rightarrow> tcp_daemon \<times> int outcome" where
  "tcp_getNumKeys sock d = (case exchange sock d (SendBuffer GETNUMKEYS) of (d', rs) \<Rightarrow>
     finish d' (bindE (receiveValue 8 rs) (\<lambda>(n, _). Inr (s64_of_nat n))))"

definition tcp_check :: "nat \<Rightarrow> tcp_daemon \<Rightarrow> string list \<Rightarrow> tcp_daemon \<times> bool outcome" where
  "tcp_check sock d keys =
     (case exchange sock d (appendStrings (map (\<lambda>k. keyPrefix @ k) keys) (appendValue 8 (length keys) (SendBuffer CHECK))) of
      (d', rs) \<Rightarrow> finish d' (bindE (receiveValue 1 rs) (\<lambda>(response, _).
        if response = READY then Inr True else if response = NOT_READY then Inr False
        else Inl (DistStoreError ''ready or not_ready response expected''))))"

text \<open>
  \<open>doWait\<close>: when no response arrives in time the client cancels its wait and reads the acknowledgement,
  after a late \<open>STOP_WAITING\<close> if there is one, and throws.
\<close>

definition wait_timeout :: c10_error where "wait_timeout = DistStoreError ''wait timeout''"

definition cancel_wait :: "nat \<Rightarrow> tcp_daemon \<Rightarrow> c10_error \<Rightarrow> tcp_daemon \<times> 'a outcome" where
  "cancel_wait sock d timeout = (case exchange sock d (SendBuffer CANCEL_WAIT) of (d', rs) \<Rightarrow>
     finish d' (bindE (receiveValue 1 rs) (\<lambda>(response, r).
       bindE (if response \<noteq> WAIT_CANCELED then
           if response \<noteq> STOP_WAITING then Inl (DistStoreError ''Stop_waiting response is expected'')
           else bindE (receiveValue 1 r) (\<lambda>(response', _).
             if response' \<noteq> WAIT_CANCELED then Inl (DistStoreError ''wait_canceled response is expected'') else Inr ())
         else Inr ())
       (\<lambda>_. Inl timeout))))"

definition stop_waiting_response :: "bytes \<Rightarrow> unit result" where
  "stop_waiting_response rs = bindE (receiveValue 1 rs) (\<lambda>(response, _).
     if response \<noteq> STOP_WAITING then Inl (DistStoreError ''Stop_waiting response is expected'') else Inr ())"

definition doWait :: "nat \<Rightarrow> tcp_daemon \<Rightarrow> string list \<Rightarrow> tcp_daemon \<times> unit outcome" where
  "doWait sock d keys =
     (case exchange sock d (appendStrings keys (appendValue 8 (length keys) (SendBuffer WAIT))) of (d1, rs) \<Rightarrow>
      if rs \<noteq> [] then finish d1 (stop_waiting_response rs) else cancel_wait sock d1 wait_timeout)"

definition tcp_wait :: "nat \<Rightarrow> tcp_daemon \<Rightarrow> string list \<Rightarrow> tcp_daemon \<times> unit outcome" where
  "tcp_wait sock d keys = doWait sock d (map (\<lambda>k. keyPrefix @ k) keys)"

definition doGet :: "nat \<Rightarrow> tcp_daemon \<Rightarrow> string \<Rightarrow> tcp_daemon \<times> bytes outcome" where
  "doGet sock d key = bindO (doWait sock d [key]) (\<lambda>d1 _.
     case exchange sock d1 (appendString key (SendBuffer GET)) of (d2, rs) \<Rightarrow>
       finish d2 (bindE (receiveBits rs) (\<lambda>(v, _). Inr v)))"

definition tcp_get :: "nat \<Rightarrow> tcp_daemon \<Rightarrow> string \<Rightarrow> tcp_daemon \<times> bytes outcome" where
  "tcp_get sock d key = doGet sock d (keyPrefix @ key)"

definition tcp_append :: "nat \<Rightarrow> tcp_daemon \<Rightarrow> string \<Rightarrow> bytes \<Rightarrow> tcp_daemon \<times> unit outcome" where
  "tcp_append sock d key data = (fst (exchange sock d
     (appendBytes data (appendString (keyPrefix @ key) (SendBuffer APPEND)))), Returns ())"

fun receive_n :: "nat \<Rightarrow> bytes \<Rightarrow> bytes list result" where
  "receive_n 0 bs = Inr []"
| "receive_n (Suc n) bs = bindE (receiveBits bs) (\<lambda>(v, r). bindE (receive_n n r) (\<lambda>vs. Inr (v # vs)))"

definition tcp_multiGet :: "nat \<Rightarrow> tcp_daemon \<Rightarrow> string list \<Rightarrow> tcp_daemon \<times> bytes list outcome" where
  "tcp_multiGet sock d keys = (let prefixedKeys = map (\<lambda>k. keyPrefix @ k) keys in
     bindO (doWait sock d prefixedKeys) (\<lambda>d1 _.
       case exchange sock d1 (appendStrings prefixedKeys (appendValue 8 (length keys) (SendBuffer MULTI_GET))) of (d2, rs) \<Rightarrow>
         finish d2 (receive_n (length keys) rs)))"

fun appendPairs :: "string list \<Rightarrow> bytes list \<Rightarrow> send_buffer \<Rightarrow> send_buffer" where
  "appendPairs (k # ks) (v # vs) b = appendPairs ks vs (appendBytes v (appendString (keyPrefix @ k) b))"
| "appendPairs _ _ b = b"

definition tcp_multiSet :: "nat \<Rightarrow> tcp_daemon \<Rightarrow> string list \<Rightarrow> bytes list \<Rightarrow> tcp_daemon \<times> unit outcome" where
  "tcp_multiSet sock d keys vs =
     (if length keys \<noteq> length vs then (d, Throws (DistStoreError ''multiSet keys and values vectors must be of same size''))
      else (fst (exchange sock d (appendPairs keys vs (appendValue 8 (length keys) (SendBuffer MULTI_SET)))), Returns ()))"

fun keep_prefixed :: "bytes list \<Rightarrow> string list" where
  "keep_prefixed [] = []"
| "keep_prefixed (b # bs) = (let str = bytes_string b in
     if starts_with str keyPrefix then drop (length keyPrefix) str # keep_prefixed bs else keep_prefixed bs)"

definition tcp_listKeys :: "nat \<Rightarrow> tcp_daemon \<Rightarrow> tcp_daemon \<times> string list outcome" where
  "tcp_listKeys sock d = (case exchange sock d (SendBuffer LIST_KEYS) of (d', rs) \<Rightarrow>
     finish d' (bindE (receiveValue 8 rs) (\<lambda>(numKeys, r). bindE (receive_n numKeys r) (\<lambda>bs. Inr (keep_prefixed bs)))))"

text \<open>
  \<open>barrier\<close>: the query and, while there is no response, \<open>Blocks\<close>; \<open>tcp_barrier_timeout\<close> is the rest
  of the function after the timeout.
\<close>

definition tcp_barrier :: "nat \<Rightarrow> tcp_daemon \<Rightarrow> string \<Rightarrow> int \<Rightarrow> tcp_daemon \<times> unit outcome" where
  "tcp_barrier sock d key world_size =
     (case exchange sock d (appendValue 8 (nat_of_s64 world_size) (appendString (keyPrefix @ key) (SendBuffer BARRIER))) of
      (d1, rs) \<Rightarrow> if rs \<noteq> [] then finish d1 (stop_waiting_response rs) else (d1, Blocks))"

definition tcp_barrier_timeout :: "nat \<Rightarrow> tcp_daemon \<Rightarrow> tcp_daemon \<times> unit outcome" where
  "tcp_barrier_timeout sock d = cancel_wait sock d (DistStoreError ''barrier timeout'')"

section \<open>The bytes of a query\<close>

definition sb_all :: "send_buffer \<Rightarrow> bytes" where
  "sb_all b = sb_sent b @ sb_buffer b"

lemma sb_all_simps [simp]:
  "sb_sent (sb_flush b) = sb_all b" "sb_all (sb_flush b) = sb_all b" "sb_all (maybeFlush b) = sb_all b"
  "sb_all (sb_insert b x) = sb_all b @ x" "sb_all (SendBuffer cmd) = [word_of_nat (query_code cmd)]"
  by (simp_all add: sb_all_def sb_flush_def maybeFlush_def sb_insert_def SendBuffer_def)

definition field :: "bytes \<Rightarrow> bytes" where
  "field b = to_le 8 (length b) @ b"

lemma sb_all_append [simp]:
  "sb_all (appendValue n v b) = sb_all b @ to_le n v"
  "sb_all (appendBytes x b) = sb_all b @ field x"
  "sb_all (appendString k b) = sb_all b @ field (string_bytes k)"
  by (simp_all add: appendValue_def appendBytes_def appendString_def field_def)

lemma sb_all_appendStrings [simp]:
  "sb_all (appendStrings ks b) = sb_all b @ concat (map (\<lambda>k. field (string_bytes k)) ks)"
  by (induction ks arbitrary: b) simp_all

lemma recv_field_string:
  "length k < 2 ^ 64 \<Longrightarrow> recvString (d\<lparr> td_in := field (string_bytes k) @ r \<rparr>) = (d\<lparr> td_in := r \<rparr>, Returns k)"
  using recvString_append [of k r d] by (simp add: field_def)

lemma recv_field_vector:
  "length b < 2 ^ 64 \<Longrightarrow> recvVector (d\<lparr> td_in := field b @ r \<rparr>) = (d\<lparr> td_in := r \<rparr>, Returns b)"
  using recvVector_append [of b r d] by (simp add: field_def)

lemma recv_fields:
  "\<forall>k \<in> set ks. length k < 2 ^ 64 \<Longrightarrow>
     recvStrings (d\<lparr> td_in := concat (map (\<lambda>k. field (string_bytes k)) ks) @ r \<rparr>) (length ks) = (d\<lparr> td_in := r \<rparr>, Returns ks)"
  by (induction ks arbitrary: d) (simp_all add: recv_field_string)

lemma recv_le: "v < 256 ^ n \<Longrightarrow> recvValue (d\<lparr> td_in := to_le n v @ r \<rparr>) n = (d\<lparr> td_in := r \<rparr>, Returns v)"
  by (simp add: recvValue_def)

lemma query_code_roundtrip: "query_of_code (unat (word_of_nat (query_code q) :: u8)) = Some q"
  by (cases q) (simp_all add: query_of_code_def query_types_def)

lemma s64_nat_roundtrip: "in_s64 i \<Longrightarrow> s64_of_nat (nat_of_s64 i) = i" "nat_of_s64 i < 2 ^ 64"
proof -
  assume i: "in_s64 i"
  have "int (nat_of_s64 i) = i mod 2 ^ 64" by (simp add: nat_of_s64_def)
  moreover have "(i mod 2 ^ 64 + 2 ^ 63) mod 2 ^ 64 = (i + 2 ^ 63) mod (2::int) ^ 64" by (simp add: mod_add_left_eq)
  ultimately have "s64_of_nat (nat_of_s64 i) = s64 i" unfolding s64_of_nat_def s64_def by simp
  then show "s64_of_nat (nat_of_s64 i) = i" using i by simp
next
  have "0 \<le> i mod 2 ^ 64" "i mod (2::int) ^ 64 < 2 ^ 64" by simp_all
  then show "nat_of_s64 i < 2 ^ 64" by (simp add: nat_of_s64_def nat_less_iff)
qed

lemma receiveValue_le: "v < 256 ^ n \<Longrightarrow> receiveValue n (to_le n v @ r) = Inr (v, r)"
  by (simp add: receiveValue_def)

lemma receiveBits_field: "length b < 2 ^ 64 \<Longrightarrow> receiveBits (field b @ r) = Inr (b, r)"
  using receiveValue_le [of "length b" 8 "b @ r"] by (simp add: receiveBits_def field_def)

section \<open>The store is a map\<close>

text \<open>Between the operations of its clients the daemon has no waiting client and all are validated.\<close>

definition idle :: "tcp_daemon \<Rightarrow> bool" where
  "idle d \<longleftrightarrow> healthy d \<and> miscellaneousSockets d = [] \<and> (\<forall>s. count_waiting d s = 0)"

definition store_ok :: "(string \<times> bytes) list \<Rightarrow> bool" where
  "store_ok m \<longleftrightarrow> distinct (map fst m) \<and> (\<forall>k v. map_of m k = Some v \<longrightarrow> length v < 2 ^ 64)"

definition tcp_inv :: "tcp_daemon \<Rightarrow> bool" where
  "tcp_inv d \<longleftrightarrow> idle d \<and> store_ok (tcpStore d)"

definition tcp_lookup :: "tcp_daemon \<Rightarrow> string \<Rightarrow> bytes option" where
  "tcp_lookup d k = map_of (tcpStore d) (keyPrefix @ k)"

definition tcp_ok_key :: "string \<Rightarrow> bool" where
  "tcp_ok_key k \<longleftrightarrow> length k + 1 < 2 ^ 64"

definition tcp_ok_val :: "bytes \<Rightarrow> bool" where
  "tcp_ok_val v \<longleftrightarrow> length v < 2 ^ 64"

text \<open>A wait that ends with the timeout is one that blocks for the contract of a store.\<close>

definition timeout_blocks :: "'s \<times> 'a outcome \<Rightarrow> 's \<times> 'a outcome" where
  "timeout_blocks m = (case m of (s, r) \<Rightarrow> (s, if r = Throws wait_timeout then Blocks else r))"

lemma idle_upd [simp]:
  "idle (d\<lparr> td_in := x \<rparr>) = idle d" "idle (d\<lparr> td_out := y \<rparr>) = idle d" "idle (d\<lparr> tcpStore := m \<rparr>) = idle d"
  by (simp_all add: idle_def healthy_def await_inv_def awaited_def count_waiting_def)

lemma idle_put [simp]: "idle (store_put d k v) = idle d"
  by (simp add: store_put_def)

lemma sendBytes_idle [simp]: "idle d \<Longrightarrow> b \<noteq> [] \<Longrightarrow>
    sendBytes d sock b = (d\<lparr> td_out := td_out d @ [(sock, b)] \<rparr>, Returns ())"
  by (simp add: sendBytes_def idle_def healthy_def)

lemma sendVector_idle: "idle d \<Longrightarrow> \<exists>out. sendVector d sock v = (d\<lparr> td_out := td_out d @ out \<rparr>, Returns ()) \<and> replies out sock = field v"
  by (cases "v = []") (auto simp: sendVector_def field_def sendBytes_def [of _ _ "[]"])

lemma sendValue_idle: "idle d \<Longrightarrow> 0 < n \<Longrightarrow> sendValue d sock n v = (d\<lparr> td_out := td_out d @ [(sock, to_le n v)] \<rparr>, Returns ())"
  by (simp add: sendValue_def)

lemma wakeup_idle:
  assumes "idle d"
  shows "\<exists>d' out. wakeupWaitingClients d key = (d', Returns ()) \<and> idle d' \<and> tcpStore d' = tcpStore d \<and>
      td_out d' = td_out d @ out \<and> (\<forall>s. replies out s = [])"
proof -
  have h: "healthy d" using assms by (simp add: idle_def)
  obtain d' where d': "wakeupWaitingClients d key = (d', Returns ())" "tcpStore d' = tcpStore d"
      "miscellaneousSockets d' = miscellaneousSockets d" "eff 0 d d'" using wakeup_ok [OF h, of key 0] by auto
  have e: "eff 1 d d'" using wakeup_ok [OF h, of key 1] d'(1) by auto
  have c: "count_waiting d' s = 0" for s
    using d'(4) e assms by (cases "s = 0") (auto simp: eff_def idle_def)
  obtain out where out: "td_out d' = td_out d @ out" using e by (auto simp: eff_def)
  have "replies out s = []" for s
    using d'(4) e assms out by (cases "s = 0") (auto simp: eff_def idle_def woken_def)
  then show ?thesis using d' c out assms eff_healthy [OF e] by (auto simp: idle_def)
qed

lemma store_ok_update: "store_ok m \<Longrightarrow> length v < 2 ^ 64 \<Longrightarrow> store_ok (AList.update k v m)"
  by (auto simp: store_ok_def distinct_update update_conv' split: if_splits)

lemma store_ok_delete: "store_ok m \<Longrightarrow> store_ok (AList.delete k m)"
  by (auto simp: store_ok_def distinct_delete delete_conv' split: if_splits)

lemma exchange_ok:
  assumes "idle d" "sb_all b = word_of_nat (query_code q) # args"
    "dispatch (d\<lparr> td_in := args \<rparr>) sock (Some q) = (d', Returns ())" "td_out d' = td_out d @ out"
  shows "exchange sock d b = (d', replies out sock)"
proof -
  have "query (d\<lparr> td_in := sb_all b \<rparr>) sock = (d', Returns ())"
    using assms query_dispatch [of sock d] by (simp add: idle_def query_code_roundtrip)
  then show ?thesis using assms(4) by (simp add: exchange_def query_fd_def)
qed

lemma tcp_put_lookup: "tcpStore d' = AList.update (keyPrefix @ k) v (tcpStore d) \<Longrightarrow> tcp_lookup d' = (tcp_lookup d)(k \<mapsto> v)"
  by (auto simp: tcp_lookup_def update_conv' fun_eq_iff)

lemma prefixed_length: "tcp_ok_key k \<Longrightarrow> length (keyPrefix @ k) < 2 ^ 64"
  by (simp add: tcp_ok_key_def keyPrefix_def)

lemma tcp_set_ok:
  assumes "tcp_inv d" "tcp_ok_key k" "tcp_ok_val v"
  shows "\<exists>d'. tcp_set sock d k v = (d', Returns ()) \<and> tcp_inv d' \<and> tcp_lookup d' = (tcp_lookup d)(k \<mapsto> v)"
proof -
  let ?k = "keyPrefix @ k" let ?d1 = "store_put (d\<lparr> td_in := [] \<rparr>) ?k v"
  have i: "idle ?d1" "idle d" using assms(1) by (simp_all add: tcp_inv_def)
  obtain d' out where d': "wakeupWaitingClients ?d1 ?k = (d', Returns ())" "idle d'" "tcpStore d' = tcpStore ?d1"
      "td_out d' = td_out d @ out"
    using wakeup_idle [OF i(1), of ?k] by (auto simp: store_put_def)
  have "dispatch (d\<lparr> td_in := field (string_bytes ?k) @ field v \<rparr>) sock (Some SET) = (d', Returns ())"
    using setHandler_bytes [of ?k v d sock] prefixed_length [OF assms(2)] assms(3) d'(1)
    by (simp add: dispatch_def field_def doSet_def tcp_ok_val_def)
  then have "exchange sock d (appendBytes v (appendString ?k (SendBuffer SET))) = (d', replies out sock)"
    by (intro exchange_ok [OF i(2) _ _ d'(4)]) simp_all
  moreover have "tcpStore d' = AList.update ?k v (tcpStore d)" using d'(3) by (simp add: store_put_def)
  ultimately show ?thesis using d'(2) assms store_ok_update tcp_put_lookup
    by (auto simp: tcp_set_def tcp_inv_def tcp_ok_val_def)
qed

lemma tcp_compareSet_ok:
  assumes "tcp_inv d" "tcp_ok_key k" "tcp_ok_val e" "tcp_ok_val v"
  shows "\<exists>d'. tcp_compareSet sock d k e v = (d', Returns (cas_result (tcp_lookup d k) e v)) \<and> tcp_inv d' \<and>
      tcp_lookup d' = (if cas_matches (tcp_lookup d k) e then (tcp_lookup d)(k \<mapsto> v) else tcp_lookup d)"
proof -
  let ?k = "keyPrefix @ k" let ?d1 = "d\<lparr> td_in := [] \<rparr>"
  let ?m = "cas_matches (tcp_lookup d k) e" and ?r = "cas_result (tcp_lookup d k) e v"
  let ?d2 = "if ?m then store_put ?d1 ?k v else ?d1"
  have i: "idle ?d2" "idle d" using assms(1) by (simp_all add: tcp_inv_def)
  have l: "map_of (tcpStore d) ?k = tcp_lookup d k" by (simp add: tcp_lookup_def)
  have "store_ok (tcpStore d)" using assms(1) by (simp add: tcp_inv_def)
  then have len: "length ?r < 2 ^ 64"
    using assms(3,4) l by (auto simp: cas_result_def store_ok_def tcp_ok_val_def split: option.splits)
  obtain out where out: "sendVector ?d2 sock ?r = (?d2\<lparr> td_out := td_out ?d2 @ out \<rparr>, Returns ())" "replies out sock = field ?r"
    using sendVector_idle [OF i(1)] by blast
  have "dispatch (d\<lparr> td_in := field (string_bytes ?k) @ field e @ field v \<rparr>) sock (Some COMPARE_SET) = sendVector ?d2 sock ?r"
    using compareSetHandler_bytes [of ?k e v ?d1 d sock] prefixed_length [OF assms(2)] assms(3,4) l
    by (auto simp: dispatch_def field_def tcp_ok_val_def cas_matches_def cas_result_def split: option.splits)
  then have "exchange sock d (appendBytes v (appendBytes e (appendString ?k (SendBuffer COMPARE_SET)))) =
      (?d2\<lparr> td_out := td_out ?d2 @ out \<rparr>, field ?r)"
    unfolding out(2) [symmetric] by (intro exchange_ok [OF i(2)]) (simp_all add: out(1) store_put_def)
  then have "tcp_compareSet sock d k e v = (?d2\<lparr> td_out := td_out ?d2 @ out \<rparr>, Returns ?r)"
    using receiveBits_field [OF len, of "[]"] by (simp add: tcp_compareSet_def finish_def)
  moreover have "tcp_inv (?d2\<lparr> td_out := td_out ?d2 @ out \<rparr>)"
    using i(1) assms store_ok_update by (auto simp: tcp_inv_def store_put_def tcp_ok_val_def)
  moreover have "tcp_lookup (?d2\<lparr> td_out := td_out ?d2 @ out \<rparr>) = (if ?m then (tcp_lookup d)(k \<mapsto> v) else tcp_lookup d)"
    by (auto simp: tcp_lookup_def store_put_def update_conv' fun_eq_iff)
  ultimately show ?thesis by blast
qed

lemma tcp_add_ok:
  assumes "tcp_inv d" "tcp_ok_key k" "in_s64 i"
    "(case tcp_lookup d k of None \<Rightarrow> Inr i | Some v \<Rightarrow> bindE (stoll (bytes_string v)) (\<lambda>n. Inr (s64 (i + n)))) = Inr ti"
  shows "\<exists>d'. tcp_add sock d k i = (d', Returns ti) \<and> tcp_inv d' \<and>
      tcp_lookup d' = (tcp_lookup d)(k \<mapsto> string_bytes (to_string ti))"
proof -
  let ?k = "keyPrefix @ k" let ?v = "string_bytes (to_string ti)"
  let ?d1 = "store_put (d\<lparr> td_in := [] \<rparr>) ?k ?v"
  let ?o1 = "[(sock, to_le 8 (nat_of_s64 ti))]"
  let ?d2 = "?d1\<lparr> td_out := td_out ?d1 @ ?o1 \<rparr>"
  have ti: "in_s64 ti" using assms(3,4) by (auto simp: bindE_Inr_iff split: option.splits)
  have i: "idle ?d1" "idle ?d2" "idle d" using assms(1) by (simp_all add: tcp_inv_def)
  have send: "sendValue ?d1 sock 8 (nat_of_s64 ti) = (?d2, Returns ())" using sendValue_idle [OF i(1)] by simp
  obtain d' out where d': "wakeupWaitingClients ?d2 ?k = (d', Returns ())" "idle d'" "tcpStore d' = tcpStore ?d2"
      "td_out d' = td_out d @ ?o1 @ out" "replies out sock = []"
    using wakeup_idle [OF i(2), of ?k] by (auto simp: store_put_def)
  have "dispatch (d\<lparr> td_in := field (string_bytes ?k) @ to_le 8 (nat_of_s64 i) \<rparr>) sock (Some ADD) = (d', Returns ())"
    using recv_field_string [OF prefixed_length [OF assms(2)], of "to_le 8 (nat_of_s64 i)" d]
      recv_le [of "nat_of_s64 i" 8 "[]" d] s64_nat_roundtrip(1) [OF assms(3)] s64_nat_roundtrip(2) [of i] assms(4) send d'(1)
    by (simp add: dispatch_def addHandler_def tcp_lookup_def split: option.splits sum.splits)
  then have "exchange sock d (appendValue 8 (nat_of_s64 i) (appendString ?k (SendBuffer ADD))) = (d', replies (?o1 @ out) sock)"
    by (intro exchange_ok [OF i(3) _ _ d'(4)]) simp_all
  then have "tcp_add sock d k i = (d', Returns ti)"
    using receiveValue_le [of "nat_of_s64 ti" 8 "[]"] s64_nat_roundtrip(1) [OF ti] s64_nat_roundtrip(2) [of ti] d'(5)
    by (simp add: tcp_add_def incrementValueBy_def finish_def)
  moreover have "tcpStore d' = AList.update ?k ?v (tcpStore d)" using d'(3) by (simp add: store_put_def)
  moreover have "length ?v < 2 ^ 64"
  proof -
    have "length (to_string ti) < 2 ^ 32" using length_to_string [OF ti] .
    then show ?thesis by simp
  qed
  ultimately show ?thesis using d'(2) assms(1) store_ok_update tcp_put_lookup by (auto simp: tcp_inv_def)
qed

lemma tcp_deleteKey_ok:
  assumes "tcp_inv d" "tcp_ok_key k"
  shows "\<exists>d'. tcp_deleteKey sock d k = (d', Returns (tcp_lookup d k \<noteq> None)) \<and> tcp_inv d' \<and>
      tcp_lookup d' = (tcp_lookup d)(k := None)"
proof -
  let ?k = "keyPrefix @ k" let ?m = "AList.delete ?k (tcpStore d)"
  let ?n = "length (tcpStore d) - length ?m"
  let ?o = "[(sock, to_le 8 ?n)]"
  let ?d' = "d\<lparr> td_in := [], tcpStore := ?m, td_out := td_out d @ ?o \<rparr>"
  have i: "idle d" "idle (d\<lparr> td_in := [], tcpStore := ?m \<rparr>)" using assms(1) by (simp_all add: tcp_inv_def)
  have n: "?n = (if tcp_lookup d k = None then 0 else 1)"
    using assms(1) length_delete_distinct [of "tcpStore d" ?k] by (simp add: tcp_inv_def store_ok_def tcp_lookup_def)
  have "dispatch (d\<lparr> td_in := field (string_bytes ?k) \<rparr>) sock (Some DELETE_KEY) = (?d', Returns ())"
    using recv_field_string [OF prefixed_length [OF assms(2)], of "[]" d] sendValue_idle [OF i(2), of 8]
    by (simp add: dispatch_def deleteHandler_def Let_def)
  then have "exchange sock d (appendString ?k (SendBuffer DELETE_KEY)) = (?d', replies ?o sock)"
    by (intro exchange_ok [OF i(1)]) simp_all
  then have "tcp_deleteKey sock d k = (?d', Returns (tcp_lookup d k \<noteq> None))"
    using receiveValue_le [of ?n 8 "[]"] n
    by (auto simp: tcp_deleteKey_def finish_def s64_of_nat_def s64_def)
  moreover have "tcp_inv ?d'" using i assms(1) store_ok_delete by (simp add: tcp_inv_def)
  moreover have "tcp_lookup ?d' = (tcp_lookup d)(k := None)" by (auto simp: tcp_lookup_def delete_conv' fun_eq_iff)
  ultimately show ?thesis by blast
qed

lemma recv_keys:
  assumes "length ks < 2 ^ 64" "\<forall>k \<in> set ks. length k < 2 ^ 64"
  shows "recvValue (d\<lparr> td_in := to_le 8 (length ks) @ concat (map (\<lambda>k. field (string_bytes k)) ks) \<rparr>) 8 =
      (d\<lparr> td_in := concat (map (\<lambda>k. field (string_bytes k)) ks) \<rparr>, Returns (length ks))"
    "recvStrings (d\<lparr> td_in := concat (map (\<lambda>k. field (string_bytes k)) ks) \<rparr>) (length ks) = (d\<lparr> td_in := [] \<rparr>, Returns ks)"
  using recv_le [of "length ks" 8 _ d] recv_fields [OF assms(2), of "[]" d] assms(1) by auto

lemma checkKeys_prefixed:
  "checkKeys d (map (\<lambda>k. keyPrefix @ k) ks) \<longleftrightarrow> (\<forall>k \<in> set ks. tcp_lookup d k \<noteq> None)"
  by (simp add: checkKeys_def tcp_lookup_def list_all_iff)

lemma tcp_check_ok:
  assumes "tcp_inv d" "length ks < 2 ^ 64" "\<forall>k \<in> set ks. tcp_ok_key k"
  shows "\<exists>d'. tcp_check sock d ks = (d', Returns (\<forall>k \<in> set ks. tcp_lookup d k \<noteq> None)) \<and> tcp_inv d' \<and> tcp_lookup d' = tcp_lookup d"
proof -
  let ?ks = "map (\<lambda>k. keyPrefix @ k) ks" let ?b = "checkKeys d ?ks"
  let ?r = "if ?b then READY else NOT_READY"
  let ?o = "[(sock, to_le 1 ?r)]" let ?d' = "d\<lparr> td_in := [], td_out := td_out d @ ?o \<rparr>"
  have i: "idle d" "idle (d\<lparr> td_in := [] \<rparr>)" using assms(1) by (simp_all add: tcp_inv_def)
  have len: "length ?ks < 2 ^ 64" "\<forall>k \<in> set ?ks. length k < 2 ^ 64"
    using assms(2,3) prefixed_length by auto
  have ck: "checkKeys (d\<lparr> td_in := [] \<rparr>) ?ks = ?b" by (simp add: checkKeys_def)
  have "dispatch (d\<lparr> td_in := to_le 8 (length ?ks) @ concat (map (\<lambda>k. field (string_bytes k)) ?ks) \<rparr>) sock (Some CHECK) = (?d', Returns ())"
    unfolding dispatch_def checkHandler_def
    using sendValue_idle [OF i(2), of 1] by (simp add: recv_keys [OF len] ck del: length_map map_map)
  then have "exchange sock d (appendStrings ?ks (appendValue 8 (length ?ks) (SendBuffer CHECK))) = (?d', replies ?o sock)"
    by (intro exchange_ok [OF i(1)]) simp_all
  then have "tcp_check sock d ks = (?d', Returns ?b)"
    using receiveValue_le [of ?r 1 "[]"] by (auto simp: tcp_check_def finish_def READY_def NOT_READY_def)
  moreover have "tcp_inv ?d'" "tcp_lookup ?d' = tcp_lookup d" using assms(1) by (simp_all add: tcp_inv_def tcp_lookup_def fun_eq_iff)
  ultimately show ?thesis using checkKeys_prefixed [of d ks] by (intro exI [of _ ?d']) simp
qed

lemma cancel_wait_ok:
  assumes h: "healthy d" "miscellaneousSockets d = []" "\<And>s. s \<noteq> sock \<Longrightarrow> count_waiting d s = 0"
  shows "\<exists>d'. cancel_wait sock d err = (d', Throws err) \<and> idle d' \<and> tcpStore d' = tcpStore d"
proof -
  let ?c = "clearSocketWaitState (d\<lparr> td_in := [] \<rparr>) sock"
  let ?o = "[(sock, to_le 1 WAIT_CANCELED)]" let ?d' = "?c\<lparr> td_out := td_out d @ ?o \<rparr>"
  have h0: "healthy (d\<lparr> td_in := [] \<rparr>)" using h(1) by (simp add: healthy_def await_inv_def awaited_def count_waiting_def)
  have cw: "count_waiting ?c s = 0" for s
    using h(3) [of s] by (simp add: clear_count) (simp add: count_waiting_def)
  have i: "idle ?c" using eff_healthy [OF clear_eff [OF h0]] h(2) cw by (simp add: idle_def clearSocketWaitState_def)
  have f: "td_out ?c = td_out d" "tcpStore ?c = tcpStore d" by (simp_all add: clearSocketWaitState_def)
  have "query (d\<lparr> td_in := [word_of_nat (query_code CANCEL_WAIT)] \<rparr>) sock = (?d', Returns ())"
    using query_dispatch [of sock d "word_of_nat (query_code CANCEL_WAIT)" "[]"] h(2) sendValue_idle [OF i, of 1] f(1)
      query_code_roundtrip [of CANCEL_WAIT]
    by (simp add: dispatch_def cancelWaitHandler_def)
  then have "exchange sock d (SendBuffer CANCEL_WAIT) = (?d', to_le 1 WAIT_CANCELED)"
    by (simp add: exchange_def query_fd_def)
  then have "cancel_wait sock d err = (?d', Throws err)"
    using receiveValue_le [of WAIT_CANCELED 1 "[]"] by (simp add: cancel_wait_def finish_def WAIT_CANCELED_def)
  then show ?thesis using i f by auto
qed

lemma tcp_doWait_ok:
  assumes "tcp_inv d" "length ks < 2 ^ 64" "\<forall>k \<in> set ks. length k < 2 ^ 64"
  shows "\<exists>d'. doWait sock d ks = (d', if checkKeys d ks then Returns () else Throws wait_timeout) \<and> tcp_inv d' \<and>
      tcpStore d' = tcpStore d"
proof -
  let ?args = "to_le 8 (length ks) @ concat (map (\<lambda>k. field (string_bytes k)) ks)"
  let ?d1 = "d\<lparr> td_in := [] \<rparr>" let ?b = "appendStrings ks (appendValue 8 (length ks) (SendBuffer WAIT))"
  have i: "idle d" "idle ?d1" using assms(1) by (simp_all add: tcp_inv_def)
  have ck: "checkKeys ?d1 ks = checkKeys d ks" by (simp add: checkKeys_def)
  have sb: "sb_all ?b = word_of_nat (query_code WAIT) # ?args" by simp
  show ?thesis
  proof (cases "checkKeys d ks")
    case True
    let ?o = "[(sock, to_le 1 STOP_WAITING)]" let ?d' = "?d1\<lparr> td_out := td_out d @ ?o \<rparr>"
    have "dispatch (d\<lparr> td_in := ?args \<rparr>) sock (Some WAIT) = (?d', Returns ())"
      using sendValue_idle [OF i(2), of 1] True
      by (simp add: dispatch_def waitHandler_def recv_keys [OF assms(2,3)] ck)
    then have "exchange sock d ?b = (?d', replies ?o sock)" by (intro exchange_ok [OF i(1) sb]) simp_all
    then have "doWait sock d ks = (?d', Returns ())"
      using receiveValue_le [of STOP_WAITING 1 "[]"]
      by (simp add: doWait_def finish_def stop_waiting_response_def STOP_WAITING_def)
    then show ?thesis using True assms(1) by (auto simp: tcp_inv_def)
  next
    case False
    obtain d3 n where r: "register_waits ?d1 sock ks 0 = (d3, n)" by fastforce
    let ?d4 = "d3\<lparr> keysAwaited := AList.update sock (word_of_nat n) (keysAwaited d3) \<rparr>"
    have h: "healthy ?d1" "count_waiting ?d1 sock = 0" using i(2) by (simp_all add: idle_def)
    have dst: "distinct (map fst (waitingSockets ?d1))" using h(1) by (simp add: healthy_def await_inv_def)
    note ro = register_waits_ok [OF r dst]
    have n: "n < 2 ^ 64" using ro(3) assms(2) by simp
    have e: "eff sock ?d1 ?d4" using registered_eff [OF h _ _ _ _ _ n, of d3] ro by simp
    have misc: "miscellaneousSockets (fst (register_waits d sock ks m)) = miscellaneousSockets d" for d m
      by (induction ks arbitrary: d m) (simp_all add: push_waiting_def)
    have d4: "healthy ?d4" "miscellaneousSockets ?d4 = []" "\<And>s. s \<noteq> sock \<Longrightarrow> count_waiting ?d4 s = 0"
        "td_out ?d4 = td_out d" "tcpStore ?d4 = tcpStore d"
      using eff_healthy [OF e] misc [of ?d1 0] r i(2) e ro by (auto simp: idle_def eff_def)
    have "dispatch (d\<lparr> td_in := ?args \<rparr>) sock (Some WAIT) = (?d4, Returns ())"
      using False r by (simp add: dispatch_def waitHandler_def recv_keys [OF assms(2,3)] ck)
    then have "exchange sock d ?b = (?d4, replies [] sock)" using d4(4) by (intro exchange_ok [OF i(1) sb]) simp_all
    then have w: "doWait sock d ks = cancel_wait sock ?d4 wait_timeout" by (simp add: doWait_def)
    obtain d' where "cancel_wait sock ?d4 wait_timeout = (d', Throws wait_timeout :: unit outcome)" "idle d'" "tcpStore d' = tcpStore d"
      using cancel_wait_ok [OF d4(1-3)] d4(5) by metis
    then show ?thesis using False w assms(1) by (auto simp: tcp_inv_def)
  qed
qed

lemma tcp_get_ok:
  assumes "tcp_inv d" "tcp_ok_key k"
  shows "\<exists>d'. tcp_get sock d k = (d', case tcp_lookup d k of None \<Rightarrow> Throws wait_timeout | Some v \<Rightarrow> Returns v) \<and>
      tcp_inv d' \<and> tcp_lookup d' = tcp_lookup d"
proof -
  let ?k = "keyPrefix @ k"
  have len: "length ?k < 2 ^ 64" using prefixed_length [OF assms(2)] .
  obtain d1 where d1: "doWait sock d [?k] = (d1, if checkKeys d [?k] then Returns () else Throws wait_timeout)"
      "tcp_inv d1" "tcpStore d1 = tcpStore d"
    using tcp_doWait_ok [OF assms(1), of "[?k]"] len by auto
  have ck: "checkKeys d [?k] \<longleftrightarrow> tcp_lookup d k \<noteq> None" by (simp add: checkKeys_def tcp_lookup_def)
  show ?thesis
  proof (cases "tcp_lookup d k")
    case None
    then show ?thesis using d1 ck by (simp add: tcp_get_def doGet_def tcp_lookup_def fun_eq_iff)
  next
    case (Some v)
    then have v: "map_of (tcpStore d1) ?k = Some v" using d1(3) by (simp add: tcp_lookup_def)
    then have lv: "length v < 2 ^ 64" using d1(2) by (auto simp: tcp_inv_def store_ok_def)
    have i: "idle d1" "idle (d1\<lparr> td_in := [] \<rparr>)" using d1(2) by (simp_all add: tcp_inv_def)
    obtain out where out: "sendVector (d1\<lparr> td_in := [] \<rparr>) sock v = (d1\<lparr> td_in := [], td_out := td_out d1 @ out \<rparr>, Returns ())"
        "replies out sock = field v"
      using sendVector_idle [OF i(2)] by force
    have "dispatch (d1\<lparr> td_in := field (string_bytes ?k) \<rparr>) sock (Some GET) = (d1\<lparr> td_in := [], td_out := td_out d1 @ out \<rparr>, Returns ())"
      using recv_field_string [OF len, of "[]" d1] v out(1) by (simp add: dispatch_def getHandler_def)
    then have "exchange sock d1 (appendString ?k (SendBuffer GET)) = (d1\<lparr> td_in := [], td_out := td_out d1 @ out \<rparr>, field v)"
      unfolding out(2) [symmetric] by (intro exchange_ok [OF i(1)]) simp_all
    then have "tcp_get sock d k = (d1\<lparr> td_in := [], td_out := td_out d1 @ out \<rparr>, Returns v)"
      using d1(1) ck Some receiveBits_field [OF lv, of "[]"] by (simp add: tcp_get_def doGet_def finish_def)
    then show ?thesis using Some d1(2,3) by (auto simp: tcp_inv_def tcp_lookup_def)
  qed
qed

definition tcp_get_b :: "nat \<Rightarrow> tcp_daemon \<Rightarrow> string \<Rightarrow> tcp_daemon \<times> bytes outcome" where
  "tcp_get_b sock d k = timeout_blocks (tcp_get sock d k)"

definition tcp_wait_b :: "nat \<Rightarrow> tcp_daemon \<Rightarrow> string list \<Rightarrow> tcp_daemon \<times> unit outcome" where
  "tcp_wait_b sock d ks = timeout_blocks (tcp_wait sock d ks)"

interpretation tcp: kv_store_exact tcp_inv tcp_lookup "\<lambda>_ _. []" tcp_ok_key tcp_ok_val
  "tcp_set sock" "tcp_compareSet sock" "tcp_get_b sock" "tcp_add sock" "tcp_check sock" "tcp_wait_b sock" "tcp_deleteKey sock"
  for sock
proof (unfold_locales, goal_cases)
  case (1 s k v)
  then show ?case using tcp_set_ok [of s k v sock] by (auto simp: store_upd_def)
next
  case (2 s k e d)
  then show ?case using tcp_compareSet_ok [of s k e d sock] by (simp add: store_upd_def)
next
  case (3 s k)
  then show ?case using tcp_get_ok [of s k sock]
    by (auto simp: store_upd_def tcp_get_b_def timeout_blocks_def split: option.splits)
next
  case (4 s k i)
  then show ?case using tcp_add_ok [of s k i i sock] by (auto simp: store_upd_def)
next
  case (5 s k i v n)
  then show ?case using tcp_add_ok [of s k i "s64 (i + n)" sock] by (auto simp: store_upd_def)
next
  case (6 s ks)
  then show ?case using tcp_check_ok [of s ks sock] by (auto simp: store_upd_def)
next
  case (7 s ks)
  have "\<forall>k \<in> set (map (\<lambda>k. keyPrefix @ k) ks). length k < 2 ^ 64" using 7(3) prefixed_length by auto
  then obtain d' where "tcp_wait sock s ks = (d', if \<forall>k \<in> set ks. tcp_lookup s k \<noteq> None then Returns () else Throws wait_timeout)"
      "tcp_inv d'" "tcpStore d' = tcpStore s"
    using tcp_doWait_ok [OF 7(1), of "map (\<lambda>k. keyPrefix @ k) ks" sock] 7(2) checkKeys_prefixed [of s ks]
    by (auto simp: tcp_wait_def)
  then show ?case by (auto simp: store_upd_def tcp_wait_b_def timeout_blocks_def tcp_lookup_def fun_eq_iff)
next
  case (8 s k)
  then show ?case using tcp_deleteKey_ok [of s k sock] by (auto simp: store_upd_def)
next
  case (9 s k)
  then show ?case using tcp_deleteKey_ok [of s k sock] by auto
qed

definition tcp_exec :: "nat \<Rightarrow> tcp_daemon \<Rightarrow> kv_op \<Rightarrow> tcp_daemon \<times> kv_ret outcome" where
  "tcp_exec sock = kv_exec (tcp_set sock) (tcp_compareSet sock) (tcp_get_b sock) (tcp_add sock) (tcp_check sock)
     (tcp_wait_b sock) (tcp_deleteKey sock)"

interpretation tcp_shared: shared_store tcp_inv tcp_lookup tcp_ok_key tcp_ok_val tcp_exec
  by unfold_locales (use tcp.exec_refines in \<open>auto simp: store_upd_def tcp_exec_def\<close>)

lemma daemon_empty_inv [simp]: "tcp_inv daemon_empty" "tcp_lookup daemon_empty = Map.empty"
  by (simp_all add: tcp_inv_def idle_def store_ok_def daemon_empty_def healthy_def await_inv_def awaited_def
      count_waiting_def tcp_lookup_def fun_eq_iff)



section \<open>Validation\<close>

lemma recvValue_fields:
  "tcpStore (fst (recvValue d n)) = tcpStore d" "miscellaneousSockets (fst (recvValue d n)) = miscellaneousSockets d"
  "td_sockets (fst (recvValue d n)) = td_sockets d" "td_out (fst (recvValue d n)) = td_out d"
  using same_but_in_recv(2) [of d n] by (auto simp: same_but_in_def)

text \<open>
  C18: a new connection is served nothing before it has sent the
  validation query. Whatever its first bytes are, the contents of the store do not change and no byte
  is sent; and unless they are the \<open>VALIDATE\<close> query with the magic number the connection is closed.
\<close>
theorem validation_guards_store:
  assumes "sock \<in> set (miscellaneousSockets d)"
  shows "tcpStore (query_fd d sock input) = tcpStore d \<and> td_out (query_fd d sock input) = td_out d \<and>
      (take 5 input \<noteq> 0 # to_le 4 validationMagicNumber \<longrightarrow>
        td_sockets (query_fd d sock input) = remove1 sock (td_sockets d))"
proof -
  let ?d0 = "d\<lparr> td_in := input \<rparr>"
  obtain d1 r where rv: "recvValue ?d0 1 = (d1, r)" by fastforce
  have f1: "tcpStore d1 = tcpStore d" "miscellaneousSockets d1 = miscellaneousSockets d"
      "td_sockets d1 = td_sockets d" "td_out d1 = td_out d"
    using recvValue_fields [of ?d0 1] rv by simp_all
  show ?thesis
  proof (cases "\<exists>qt. r = Returns qt \<and> query_of_code qt = Some VALIDATE")
    case True
    then obtain qt where qt: "r = Returns qt" "query_of_code qt = Some VALIDATE" by blast
    let ?d2 = "removeMiscellaneousSocket d1 sock"
    obtain d3 r3 where v: "recvValue ?d2 4 = (d3, r3)" by fastforce
    have f3: "tcpStore d3 = tcpStore d" "td_sockets d3 = td_sockets d" "td_out d3 = td_out d"
      using recvValue_fields [of ?d2 4] v f1 by (simp_all add: removeMiscellaneousSocket_def)
    have q: "query ?d0 sock = validateHandler ?d2 sock"
      using rv qt assms f1(2) by (simp add: query_def isMiscellaneousSocket_def)
    have "take 5 input = 0 # to_le 4 validationMagicNumber" if "r3 = Returns validationMagicNumber"
    proof -
      obtain b rest where inp: "input = b # rest" "d1 = d\<lparr> td_in := rest \<rparr>" "qt = unat b"
        using rv qt(1) by (cases input) (auto simp: recvValue_def recvBytes_def)
      have "qt = 0" using qt(2) by (auto simp: query_of_code_def query_types_def nth_Cons' split: if_splits)
      then have b: "b = 0" using inp(3) by (simp add: unsigned_eq_0_iff)
      have len: "4 \<le> length rest" and fl: "from_le (take 4 rest) = validationMagicNumber"
        using v that inp(2) by (auto simp: recvValue_def recvBytes_def removeMiscellaneousSocket_def split: if_splits)
      have le: "bs = to_le (length bs) (from_le bs)" for bs :: bytes
      proof (induction bs)
        case (Cons x xs)
        have "unat x < 256" using unsigned_less [of x] by simp
        moreover have "(word_of_nat (unat x + 256 * m) :: u8) = x" for m :: nat
        proof -
          have "(256 :: u8) = 0" using word_of_nat_eq_0_iff [where 'a = 8, of 256] by simp
          then have "256 * y = 0" for y :: u8 by (simp only: mult_zero_left)
          then show ?thesis by simp
        qed
        ultimately show ?case using Cons by simp
      qed simp
      have "take 4 rest = to_le 4 validationMagicNumber" using le [of "take 4 rest"] len fl by simp
      then show ?thesis using inp(1) b by (simp add: take_Cons')
    qed
    moreover have "r3 \<noteq> Blocks" using v by (auto simp: recvValue_def recvBytes_def split: if_splits)
    ultimately show ?thesis using q v f3
      by (cases r3) (auto simp: validateHandler_def query_fd_def clearSocketWaitState_def)
  next
    case False
    then have "\<exists>d2 e. query ?d0 sock = (d2, Throws e) \<and> tcpStore d2 = tcpStore d \<and> td_out d2 = td_out d \<and> td_sockets d2 = td_sockets d"
      using rv f1 assms
      by (cases r) (auto simp: query_def isMiscellaneousSocket_def removeMiscellaneousSocket_def Let_def
          recvValue_def recvBytes_def split: if_splits)
    then show ?thesis by (auto simp: query_fd_def clearSocketWaitState_def)
  qed
qed

theorem validation_guards_store_witness:
  "tcpStore (query_fd (accept_socket daemon_empty 7) 7 set_k_query) = [] \<and>
   td_sockets (query_fd (accept_socket daemon_empty 7) 7 set_k_query) = []"
  using validation_guards_store [of 7 "accept_socket daemon_empty 7" set_k_query]
  by (simp add: accept_socket_def addMiscellaneousSocket_def daemon_empty_def set_k_query_def)

section \<open>Barrier\<close>

text \<open>The clients \<open>socks\<close> enter the barrier one after the other; the result lists what each call gave.\<close>

fun barrier_clients :: "tcp_daemon \<Rightarrow> nat list \<Rightarrow> string \<Rightarrow> int \<Rightarrow> tcp_daemon \<times> unit outcome list" where
  "barrier_clients d [] key world = (d, [])"
| "barrier_clients d (sock # socks) key world = (case tcp_barrier sock d key world of (d', r) \<Rightarrow>
     case barrier_clients d' socks key world of (d'', rs) \<Rightarrow> (d'', r # rs))"

definition barrier_waiting :: "tcp_daemon \<Rightarrow> string \<Rightarrow> nat list \<Rightarrow> bool" where
  "barrier_waiting d K ws \<longleftrightarrow> healthy d \<and> miscellaneousSockets d = [] \<and>
     (\<forall>s. count_waiting d s = count_list ws s) \<and>
     map_of (waitingSockets d) K = (if ws = [] then None else Some ws) \<and>
     map_of (tcpStore d) K = (if ws = [] then None else Some (string_bytes (to_string (int (length ws)))))"

lemma exchange_query:
  assumes "sock \<notin> set (miscellaneousSockets d)" "sb_all b = word_of_nat (query_code q) # args"
    "dispatch (d\<lparr> td_in := args \<rparr>) sock (Some q) = (d', Returns ())" "td_out d' = td_out d @ out"
  shows "exchange sock d b = (d', replies out sock)"
proof -
  have "query (d\<lparr> td_in := sb_all b \<rparr>) sock = (d', Returns ())"
    using assms query_dispatch [of sock d] by (simp add: query_code_roundtrip)
  then show ?thesis using assms(4) by (simp add: exchange_def query_fd_def)
qed

text \<open>The handler on the encoded query, for a count that is in range.\<close>

lemma barrierHandler_bytes:
  assumes "length K < 2 ^ 64" "in_s64 world" "int (length ws) + 1 < 2 ^ 63"
    "map_of (tcpStore d) K = (if ws = [] then None else Some (string_bytes (to_string (int (length ws)))))"
  defines "d3 \<equiv> store_put (d\<lparr> td_in := [] \<rparr>) K (string_bytes (to_string (int (length ws) + 1)))"
  shows "dispatch (d\<lparr> td_in := field (string_bytes K) @ to_le 8 (nat_of_s64 world) \<rparr>) sock (Some BARRIER) =
      (if int (length ws) + 1 \<ge> world
       then bindO (sendValue d3 sock 1 STOP_WAITING) (\<lambda>d4 _. wakeupWaitingClients d4 K)
       else ((push_waiting d3 K sock)\<lparr> keysAwaited := AList.update sock 1 (keysAwaited d3) \<rparr>, Returns ()))"
proof -
  have r: "in_s64 (int (length ws))" "s64 (int (length ws) + 1) = int (length ws) + 1"
    using assms(3) by (auto simp: in_s64_def intro!: s64_id)
  have k: "recvString (d\<lparr> td_in := field (string_bytes K) @ to_le 8 (nat_of_s64 world) \<rparr>) =
      (d\<lparr> td_in := to_le 8 (nat_of_s64 world) \<rparr>, Returns K)" by (rule recv_field_string [OF assms(1)])
  have v: "recvValue (d\<lparr> td_in := to_le 8 (nat_of_s64 world) \<rparr>) 8 = (d\<lparr> td_in := [] \<rparr>, Returns (nat_of_s64 world))"
    using recv_le [of "nat_of_s64 world" 8 "[]" d] s64_nat_roundtrip(2) [of world] by simp
  have w: "s64_of_nat (nat_of_s64 world) = world" using s64_nat_roundtrip(1) [OF assms(2)] .
  show ?thesis using assms(4) r
    by (cases "ws = []") (simp_all add: dispatch_def barrierHandler_def k v w d3_def Let_def)
qed

lemma barrier_enter_wait:
  assumes b: "barrier_waiting d K ws" and K: "K = keyPrefix @ key" "length K < 2 ^ 64" "in_s64 world"
    and n: "int (length ws) + 1 < world" and s: "sock \<notin> set ws"
  shows "\<exists>d'. tcp_barrier sock d key world = (d', Blocks) \<and> barrier_waiting d' K (ws @ [sock]) \<and> td_out d' = td_out d"
proof -
  let ?d3 = "store_put (d\<lparr> td_in := [] \<rparr>) K (string_bytes (to_string (int (length ws) + 1)))"
  let ?d' = "(push_waiting ?d3 K sock)\<lparr> keysAwaited := AList.update sock 1 (keysAwaited ?d3) \<rparr>"
  have rng: "int (length ws) + 1 < 2 ^ 63" using n K(3) by (simp add: in_s64_def)
  have h: "healthy d" "miscellaneousSockets d = []" "count_waiting d sock = 0"
    using b s by (simp_all add: barrier_waiting_def count_list_0_iff)
  have h3: "healthy ?d3" "count_waiting ?d3 sock = 0"
    using h by (simp_all add: healthy_def await_inv_def awaited_def count_waiting_def store_put_def)
  have disp: "dispatch (d\<lparr> td_in := field (string_bytes K) @ to_le 8 (nat_of_s64 world) \<rparr>) sock (Some BARRIER) = (?d', Returns ())"
    using barrierHandler_bytes [OF K(2,3) rng, of d sock] b n by (simp add: barrier_waiting_def)
  have ex: "exchange sock d (appendValue 8 (nat_of_s64 world) (appendString K (SendBuffer BARRIER))) = (?d', replies [] sock)"
    by (rule exchange_query [OF _ _ disp]) (use h(2) in \<open>simp_all add: push_waiting_def store_put_def\<close>)
  have "distinct (map fst (waitingSockets ?d3))" using h3(1) by (simp add: healthy_def await_inv_def)
  then have "eff sock ?d3 ((push_waiting ?d3 K sock)\<lparr> keysAwaited := AList.update sock (word_of_nat 1) (keysAwaited (push_waiting ?d3 K sock)) \<rparr>)"
    by (intro registered_eff [OF h3]) (auto simp: push_waiting_frame push_waiting_count)
  then have "healthy ?d'" using eff_healthy by (auto simp: push_waiting_frame)
  moreover have "count_waiting ?d' s = count_list (ws @ [sock]) s" for s
  proof -
    have "count_waiting ?d' s = count_waiting (push_waiting ?d3 K sock) s" by (simp add: count_waiting_def)
    moreover have "count_waiting ?d3 s = count_waiting d s" by (simp add: count_waiting_def store_put_def)
    ultimately show ?thesis using b by (simp add: push_waiting_count barrier_waiting_def)
  qed
  moreover have "map_of (waitingSockets ?d') K = Some (ws @ [sock])"
    using b by (auto simp: barrier_waiting_def push_waiting_def store_put_def update_conv')
  moreover have "map_of (tcpStore ?d') K = Some (string_bytes (to_string (int (length (ws @ [sock])))))"
    by (simp add: push_waiting_def store_put_def update_conv' add.commute)
  moreover have "miscellaneousSockets ?d' = []" "td_out ?d' = td_out d" using h(2) by (simp_all add: push_waiting_def store_put_def)
  ultimately have "barrier_waiting ?d' K (ws @ [sock])" "td_out ?d' = td_out d" by (simp_all add: barrier_waiting_def)
  moreover have "tcp_barrier sock d key world = (?d', Blocks)" using ex K(1) by (simp add: tcp_barrier_def)
  ultimately show ?thesis by blast
qed

lemma barrier_enter_last:
  assumes b: "barrier_waiting d K ws" and K: "K = keyPrefix @ key" "length K < 2 ^ 64" "in_s64 world"
    and n: "int (length ws) + 1 = world" and s: "distinct ws" "sock \<notin> set ws"
  shows "\<exists>d' out. tcp_barrier sock d key world = (d', Returns ()) \<and> (\<forall>s. count_waiting d' s = 0) \<and>
      td_out d' = td_out d @ out \<and> (\<forall>s \<in> set ws. replies out s = [0])"
proof -
  let ?d3 = "store_put (d\<lparr> td_in := [] \<rparr>) K (string_bytes (to_string (int (length ws) + 1)))"
  let ?o1 = "[(sock, to_le 1 STOP_WAITING)]" let ?d4 = "?d3\<lparr> td_out := td_out d @ ?o1 \<rparr>"
  have rng: "int (length ws) + 1 < 2 ^ 63" using n K(3) by (simp add: in_s64_def)
  have h: "healthy d" "miscellaneousSockets d = []" using b by (simp_all add: barrier_waiting_def)
  have cl: "td_closed d = []" using h(1) by (simp add: healthy_def)
  have h4: "healthy ?d4" using h by (simp add: healthy_def await_inv_def awaited_def count_waiting_def store_put_def)
  have c4: "count_waiting ?d4 s = count_list ws s" for s
    using b by (simp add: barrier_waiting_def count_waiting_def store_put_def)
  have send: "sendValue ?d3 sock 1 STOP_WAITING = (?d4, Returns ())"
    using cl by (simp add: sendValue_def sendBytes_def store_put_def)
  have c: "count_list ws s = (if s \<in> set ws then 1 else 0)" for s
    using s(1) by (induction ws) (auto simp: count_list_0_iff)
  obtain d' where d': "wakeupWaitingClients ?d4 K = (d', Returns ())" "eff sock ?d4 d'"
      "waitingSockets d' = AList.delete K (waitingSockets ?d4)"
    using wakeup_ok [OF h4, of K sock] by blast
  have cd: "count_waiting d' s = 0" for s
  proof (cases "ws = []")
    case True
    then have "count_waiting ?d4 s = 0" using c4 by simp
    moreover have "AList.delete K (waitingSockets ?d4) = waitingSockets ?d4"
      using b True by (simp add: barrier_waiting_def delete_idem map_of_eq_None_iff store_put_def)
    ultimately show ?thesis using d'(3) by (simp add: count_waiting_def)
  next
    case False
    then have "map_of (waitingSockets ?d4) K = Some ws" using b by (simp add: barrier_waiting_def store_put_def)
    from count_waiting_delete [OF _ this, of s] h4 have "count_waiting ?d4 s = count_waiting d' s + count_list ws s"
      using d'(3) by (simp add: count_waiting_def healthy_def await_inv_def)
    then show ?thesis using c4 by simp
  qed
  obtain out where out: "td_out d' = td_out ?d4 @ out" "\<And>s. s \<noteq> sock \<Longrightarrow> replies out s = woken ?d4 d' s"
    using d'(2) by (auto simp: eff_def)
  have rep: "replies (?o1 @ out) s = [0]" if "s \<in> set ws" for s
  proof -
    have "s \<noteq> sock" using that s(2) by auto
    then show ?thesis using out(2) [of s] cd [of s] c4 [of s] c [of s] that by (simp add: woken_def STOP_WAITING_def)
  qed
  have "replies out sock = []"
  proof -
    have "eff (Suc sock) ?d4 d'" using wakeup_ok [OF h4, of K "Suc sock"] d'(1) by auto
    then have "replies out sock = woken ?d4 d' sock" using out(1) by (auto simp: eff_def)
    then show ?thesis using c4 [of sock] c [of sock] s(2) by (simp add: woken_def)
  qed
  then have rs: "replies (?o1 @ out) sock = to_le 1 STOP_WAITING" by simp
  have disp: "dispatch (d\<lparr> td_in := field (string_bytes K) @ to_le 8 (nat_of_s64 world) \<rparr>) sock (Some BARRIER) = (d', Returns ())"
    using barrierHandler_bytes [OF K(2,3) rng, of d sock] b n send d'(1) by (simp add: barrier_waiting_def)
  have "exchange sock d (appendValue 8 (nat_of_s64 world) (appendString K (SendBuffer BARRIER))) = (d', replies (?o1 @ out) sock)"
    by (rule exchange_query [OF _ _ disp]) (use h(2) out(1) in simp_all)
  then have "tcp_barrier sock d key world = (d', Returns ())"
    using rs K(1) receiveValue_le [of STOP_WAITING 1 "[]"]
    by (simp add: tcp_barrier_def finish_def stop_waiting_response_def STOP_WAITING_def)
  then show ?thesis using cd out(1) rep by (intro exI [of _ d'] exI [of _ "?o1 @ out"]) simp
qed

lemma barrier_clients_run:
  assumes "barrier_waiting d K ws" "K = keyPrefix @ key" "length K < 2 ^ 64" "in_s64 world"
    "int (length ws + Suc (length socks)) = world" "distinct (ws @ socks @ [sock])"
  shows "\<exists>d' out. barrier_clients d (socks @ [sock]) key world = (d', replicate (length socks) Blocks @ [Returns ()]) \<and>
      (\<forall>s. count_waiting d' s = 0) \<and> td_out d' = td_out d @ out \<and> (\<forall>s \<in> set (ws @ socks). replies out s = [0])"
  using assms
proof (induction socks arbitrary: d ws)
  case Nil
  then show ?case using barrier_enter_last [OF Nil.prems(1-4), of sock] by auto
next
  case (Cons s1 socks)
  obtain d1 where d1: "tcp_barrier s1 d key world = (d1, Blocks)" "barrier_waiting d1 K (ws @ [s1])"
      "td_out d1 = td_out d"
    using barrier_enter_wait [OF Cons.prems(1-4), of s1] Cons.prems(5,6) by auto
  obtain d' o2 where d': "barrier_clients d1 (socks @ [sock]) key world = (d', replicate (length socks) Blocks @ [Returns ()])"
      "\<forall>s. count_waiting d' s = 0" "td_out d' = td_out d1 @ o2" "\<forall>s \<in> set ((ws @ [s1]) @ socks). replies o2 s = [0]"
    using Cons.IH [OF d1(2) Cons.prems(2-4)] Cons.prems(5,6) by auto
  then show ?case using d1 by auto
qed



end
