(* ===== verification/GraphSignatures.thy ===== *)
theory GraphSignatures
  imports Prelude
begin

text \<open>
  \<open>torch/nativert/graph/GraphSignature.cpp\<close>: how the inputs and outputs of an exported graph relate to the
  weights, buffers and user arguments of the module. The input is the exported signature
  (\<open>torch/csrc/utils/generated_serialization_types.h\<close>), of which the data that is read is kept. Hash maps are
  association lists.
\<close>

section \<open>The exported signature\<close>

datatype sym_arg = AS_NAME string | AS_VALUE

datatype argument =
    AS_TENSOR string | AS_TENSORS "string list" | AS_NESTED_TENSORS
  | AS_OPTIONAL_TENSOR "string option" | AS_OPTIONAL_TENSORS "string option list"
  | AS_SYM_INT sym_arg | AS_SYM_INTS "sym_arg list" | AS_SYM_BOOL sym_arg | AS_SYM_BOOLS "sym_arg list"
  | AS_SYM_FLOAT | AS_SYM_FLOATS nat | AS_CUSTOM_OBJ string
  | AS_CONSTANT     \<comment> \<open>none, integers, floats, booleans, strings and their lists, scalar type, memory format, layout, device, complex\<close>
  | AS_GRAPH | AS_OPERATOR | AS_STRING_TO_ARGUMENT

datatype input_spec =
    USER_INPUT argument | PARAMETER string string | BUFFER string string bool | TENSOR_CONSTANT string string
  | CUSTOM_OBJ string string | CONSTANT_INPUT string | TOKEN

datatype output_spec =
    LOSS_OUTPUT string | USER_OUTPUT argument | BUFFER_MUTATION string string | GRADIENT_TO_PARAMETER string string
  | GRADIENT_TO_USER_INPUT string string | USER_INPUT_MUTATION string string | OUTPUT_TOKEN | PARAMETER_MUTATION string string

record graph_signature =
  gradientsToParameters :: "(string \<times> string) list"
  gradientsToUserInputs :: "(string \<times> string) list"
  buffersToMutate :: "(string \<times> string) list"
  userInputsToMutate :: "(string \<times> string) list"
  inputsToWeights :: "(string \<times> string) list"
  numParameters :: nat
  numPersistentBuffers :: nat
  numNonPersistentBuffers :: nat
  numTensorConstants :: nat
  numCustomObjs :: nat
  inputsToCustomObjs :: "(string \<times> string) list"
  userInputNames :: "string list"
  userOutputNames :: "string option list"
  lossOutput :: string

definition empty_signature :: graph_signature where
  "empty_signature = \<lparr> gradientsToParameters = [], gradientsToUserInputs = [], buffersToMutate = [], userInputsToMutate = [],
     inputsToWeights = [], numParameters = 0, numPersistentBuffers = 0, numNonPersistentBuffers = 0, numTensorConstants = 0,
     numCustomObjs = 0, inputsToCustomObjs = [], userInputNames = [], userOutputNames = [], lossOutput = [] \<rparr>"

section \<open>Construction\<close>

fun isSymbolicOutput :: "argument \<Rightarrow> bool" where
  "isSymbolicOutput (AS_TENSOR _) = True"
| "isSymbolicOutput (AS_TENSORS _) = True"
| "isSymbolicOutput AS_NESTED_TENSORS = True"
| "isSymbolicOutput (AS_OPTIONAL_TENSOR _) = True"
| "isSymbolicOutput (AS_OPTIONAL_TENSORS _) = True"
| "isSymbolicOutput (AS_SYM_BOOL _) = True"
| "isSymbolicOutput (AS_SYM_BOOLS _) = True"
| "isSymbolicOutput (AS_SYM_INT _) = True"
| "isSymbolicOutput (AS_SYM_INTS _) = True"
| "isSymbolicOutput AS_SYM_FLOAT = True"
| "isSymbolicOutput (AS_SYM_FLOATS _) = True"
| "isSymbolicOutput (AS_CUSTOM_OBJ _) = True"
| "isSymbolicOutput _ = False"

fun getSpecDetails :: "input_spec \<Rightarrow> (string \<times> string) result" where
  "getSpecDetails (PARAMETER arg _) = Inr (arg, ''PARAMETER'')"
| "getSpecDetails (BUFFER arg _ _) = Inr (arg, ''BUFFER'')"
| "getSpecDetails (TENSOR_CONSTANT arg _) = Inr (arg, ''TENSOR_CONSTANT'')"
| "getSpecDetails (CUSTOM_OBJ arg _) = Inr (arg, ''CUSTOM_OBJ'')"
| "getSpecDetails (USER_INPUT (AS_TENSOR n)) = Inr (n, ''USER_INPUT'')"
| "getSpecDetails (USER_INPUT (AS_CUSTOM_OBJ n)) = Inr (n, ''USER_INPUT'')"
| "getSpecDetails (USER_INPUT _) = Inl (CheckError ''Unsupported USER_INPUT argument type.'')"
| "getSpecDetails (CONSTANT_INPUT n) = Inr (n, ''CONSTANT_INPUT'')"
| "getSpecDetails TOKEN = Inl (CheckError ''Token inputs not implemented yet.'')"

text \<open>\<open>None\<close> for the tags that the order does not concern.\<close>

fun tag_order :: "input_spec \<Rightarrow> nat option" where
  "tag_order TOKEN = Some 0"
| "tag_order (PARAMETER _ _) = Some 1"
| "tag_order (BUFFER _ _ _) = Some 2"
| "tag_order (TENSOR_CONSTANT _ _) = Some 3"
| "tag_order (CUSTOM_OBJ _ _) = Some 4"
| "tag_order (USER_INPUT _) = None"
| "tag_order (CONSTANT_INPUT _) = None"

fun checkInputOrders :: "input_spec list \<Rightarrow> nat \<Rightarrow> bool \<Rightarrow> unit result" where
  "checkInputOrders [] currentOrderIndex seenNonPersistentBuffer = Inr ()"
| "checkInputOrders (inputSpec # specs) currentOrderIndex seenNonPersistentBuffer =
     (case tag_order inputSpec of
        None \<Rightarrow> checkInputOrders specs currentOrderIndex seenNonPersistentBuffer
      | Some tagIndex \<Rightarrow>
          if tagIndex < currentOrderIndex
          then bindE (getSpecDetails inputSpec) (\<lambda>(argName, tagName).
            Inl (CheckError (''Input arg '' @ argName @ '' with InputSpec '' @ tagName @ '' is out of order!'')))
          else case inputSpec of
            BUFFER _ _ persistent \<Rightarrow>
              if \<not> persistent then checkInputOrders specs tagIndex True
              else bindE (check (\<not> seenNonPersistentBuffer) (CheckError ''Persistent buffers must come before non-persistent buffers.''))
                (\<lambda>_. checkInputOrders specs tagIndex seenNonPersistentBuffer)
          | _ \<Rightarrow> checkInputOrders specs tagIndex seenNonPersistentBuffer)"

fun names_of_syms :: "sym_arg list \<Rightarrow> string list" where
  "names_of_syms [] = []"
| "names_of_syms (AS_NAME n # ss) = n # names_of_syms ss"
| "names_of_syms (AS_VALUE # ss) = names_of_syms ss"

fun user_input_names :: "argument \<Rightarrow> string list result" where
  "user_input_names (AS_TENSOR n) = Inr [n]"
| "user_input_names (AS_CUSTOM_OBJ n) = Inr [n]"
| "user_input_names (AS_TENSORS ns) = Inr ns"
| "user_input_names (AS_OPTIONAL_TENSORS ts) = Inr (List.map_filter (\<lambda>t. t) ts)"
| "user_input_names (AS_OPTIONAL_TENSOR t) = Inr (case t of None \<Rightarrow> [] | Some n \<Rightarrow> [n])"
| "user_input_names (AS_SYM_INT s) = Inr (names_of_syms [s])"
| "user_input_names (AS_SYM_INTS ss) = Inr (names_of_syms ss)"
| "user_input_names AS_CONSTANT = Inr []"
| "user_input_names (AS_SYM_BOOL _) = Inr []"
| "user_input_names (AS_SYM_BOOLS _) = Inr []"
| "user_input_names AS_SYM_FLOAT = Inr []"
| "user_input_names (AS_SYM_FLOATS _) = Inr []"
| "user_input_names _ = Inl (CheckError ''Non tensor inputs not implemented yet.'')"

fun add_input_spec :: "graph_signature \<Rightarrow> input_spec \<Rightarrow> graph_signature result" where
  "add_input_spec sig (USER_INPUT arg) = bindE (user_input_names arg) (\<lambda>ns. Inr (sig\<lparr> userInputNames := userInputNames sig @ ns \<rparr>))"
| "add_input_spec sig (PARAMETER i w) = Inr (sig\<lparr> numParameters := numParameters sig + 1, inputsToWeights := inputsToWeights sig @ [(i, w)] \<rparr>)"
| "add_input_spec sig (BUFFER i w persistent) = Inr ((if persistent then sig\<lparr> numPersistentBuffers := numPersistentBuffers sig + 1 \<rparr>
     else sig\<lparr> numNonPersistentBuffers := numNonPersistentBuffers sig + 1 \<rparr>)\<lparr> inputsToWeights := inputsToWeights sig @ [(i, w)] \<rparr>)"
| "add_input_spec sig (TENSOR_CONSTANT i w) = Inr (sig\<lparr> numTensorConstants := numTensorConstants sig + 1, inputsToWeights := inputsToWeights sig @ [(i, w)] \<rparr>)"
| "add_input_spec sig (CUSTOM_OBJ i c) = Inr (sig\<lparr> numCustomObjs := numCustomObjs sig + 1, inputsToCustomObjs := inputsToCustomObjs sig @ [(i, c)] \<rparr>)"
| "add_input_spec sig (CONSTANT_INPUT n) = Inr sig"
| "add_input_spec sig TOKEN = Inl (CheckError ''Token inputs not implemented yet.'')"

fun sym_name :: "sym_arg \<Rightarrow> string result" where
  "sym_name (AS_NAME n) = Inr n"
| "sym_name AS_VALUE = Inl StdBadVariantAccess"

fun user_output_names :: "argument \<Rightarrow> string option list result" where
  "user_output_names (AS_TENSOR n) = Inr [Some n]"
| "user_output_names (AS_TENSORS ns) = Inr (map Some ns)"
| "user_output_names (AS_OPTIONAL_TENSORS ts) = Inr ts"
| "user_output_names (AS_OPTIONAL_TENSOR t) = Inr [t]"
| "user_output_names (AS_CUSTOM_OBJ n) = Inr [Some n]"
| "user_output_names (AS_SYM_INT s) = bindE (sym_name s) (\<lambda>n. Inr [Some n])"
| "user_output_names (AS_SYM_INTS ss) = Inr (map Some (names_of_syms ss))"
| "user_output_names (AS_SYM_BOOL s) = bindE (sym_name s) (\<lambda>n. Inr [Some n])"
| "user_output_names (AS_SYM_BOOLS ss) = Inr (map Some (names_of_syms ss))"
| "user_output_names AS_SYM_FLOAT = Inr [None]"
| "user_output_names (AS_SYM_FLOATS n) = Inr (replicate n None)"
| "user_output_names AS_NESTED_TENSORS = Inl (CheckError ''Unsupported symbolic user output type encountered.'')"
| "user_output_names arg = Inr [None]"

definition map_emplace :: "'k \<Rightarrow> 'v \<Rightarrow> ('k \<times> 'v) list \<Rightarrow> ('k \<times> 'v) list" where
  "map_emplace k v m = (if k \<in> fst ` set m then m else m @ [(k, v)])"

fun add_output_spec :: "graph_signature \<Rightarrow> output_spec \<Rightarrow> graph_signature result" where
  "add_output_spec sig (LOSS_OUTPUT n) = Inr (sig\<lparr> lossOutput := n \<rparr>)"
| "add_output_spec sig (USER_OUTPUT arg) = bindE (user_output_names arg) (\<lambda>ns. Inr (sig\<lparr> userOutputNames := userOutputNames sig @ ns \<rparr>))"
| "add_output_spec sig (BUFFER_MUTATION a b) = Inr (sig\<lparr> buffersToMutate := map_emplace a b (buffersToMutate sig) \<rparr>)"
| "add_output_spec sig (GRADIENT_TO_PARAMETER a b) = Inr (sig\<lparr> gradientsToParameters := map_emplace a b (gradientsToParameters sig) \<rparr>)"
| "add_output_spec sig (GRADIENT_TO_USER_INPUT a b) = Inr (sig\<lparr> gradientsToUserInputs := map_emplace a b (gradientsToUserInputs sig) \<rparr>)"
| "add_output_spec sig (USER_INPUT_MUTATION a b) = Inr (sig\<lparr> userInputsToMutate := map_emplace a b (userInputsToMutate sig) \<rparr>)"
| "add_output_spec sig OUTPUT_TOKEN = Inl (CheckError ''Token outputs not implemented yet.'')"
| "add_output_spec sig (PARAMETER_MUTATION _ _) = Inl (CheckError ''Unknown OutputSpec tag encountered.'')"

definition GraphSignature :: "input_spec list \<Rightarrow> output_spec list \<Rightarrow> graph_signature result" where
  "GraphSignature input_specs output_specs =
     bindE (checkInputOrders input_specs 0 False) (\<lambda>_.
     bindE (foldE add_input_spec empty_signature input_specs) (\<lambda>sig.
       foldE add_output_spec sig output_specs))"

section \<open>Accessors\<close>

definition slice :: "nat \<Rightarrow> nat \<Rightarrow> 'a list \<Rightarrow> 'a list" where
  "slice a n xs = take n (drop a xs)"

definition sig_parameters :: "graph_signature \<Rightarrow> string list" where
  "sig_parameters sig = map snd (slice 0 (numParameters sig) (inputsToWeights sig))"

definition sig_buffers :: "graph_signature \<Rightarrow> string list" where
  "sig_buffers sig = map snd (slice (numParameters sig) (numPersistentBuffers sig) (inputsToWeights sig))"

definition sig_nonPersistentBuffers :: "graph_signature \<Rightarrow> string list" where
  "sig_nonPersistentBuffers sig = map snd (slice (numParameters sig + numPersistentBuffers sig) (numNonPersistentBuffers sig) (inputsToWeights sig))"

definition sig_tensorConstants :: "graph_signature \<Rightarrow> string list" where
  "sig_tensorConstants sig = map snd (slice (numParameters sig + numPersistentBuffers sig + numNonPersistentBuffers sig)
     (numTensorConstants sig) (inputsToWeights sig))"

definition sig_customObjs :: "graph_signature \<Rightarrow> string list" where
  "sig_customObjs sig = map snd (slice 0 (numCustomObjs sig) (inputsToCustomObjs sig))"

definition hasBackward :: "graph_signature \<Rightarrow> bool" where
  "hasBackward sig \<longleftrightarrow> \<not> (lossOutput sig = [] \<and> gradientsToParameters sig = [] \<and> gradientsToUserInputs sig = [] \<and> buffersToMutate sig = [])"

definition inputNames :: "graph_signature \<Rightarrow> string set" where
  "inputNames sig = set (userInputNames sig) \<union> fst ` set (inputsToWeights sig) \<union> fst ` set (inputsToCustomObjs sig)"

definition outputNames :: "graph_signature \<Rightarrow> string option set" where
  "outputNames sig = set (userOutputNames sig) \<union> (Some \<circ> fst) ` set (buffersToMutate sig) \<union> (Some \<circ> fst) ` set (userInputsToMutate sig) \<union>
     (if hasBackward sig then (Some \<circ> fst) ` set (gradientsToParameters sig) \<union> (Some \<circ> fst) ` set (gradientsToUserInputs sig) \<union>
        (if lossOutput sig \<noteq> [] then {Some (lossOutput sig)} else {}) else {})"

definition checkInputNames :: "string set \<Rightarrow> string set \<Rightarrow> unit result" where
  "checkInputNames sigNames graphNames =
     check (sigNames = graphNames) (CheckError ''Value name difference detected between graph signature and graph nodes'')"

definition checkOutputNames :: "string option set \<Rightarrow> string set \<Rightarrow> unit result" where
  "checkOutputNames sigNames graphNames =
     check (\<forall>n \<in> sigNames. case n of None \<Rightarrow> True | Some s \<Rightarrow> s \<in> graphNames)
       (CheckError ''Value name difference detected between graph signature and graph nodes'')"

definition sig_lint :: "string set \<Rightarrow> string set \<Rightarrow> graph_signature \<Rightarrow> unit result" where
  "sig_lint graphInputs graphOutputs sig =
     bindE (checkInputNames (inputNames sig) graphInputs) (\<lambda>_. checkOutputNames (outputNames sig) graphOutputs)"

definition replaceInMap :: "string \<Rightarrow> string \<Rightarrow> (string \<times> string) list \<Rightarrow> (string \<times> string) list" where
  "replaceInMap old replacement m = (case map_of m old of
       None \<Rightarrow> m
     | Some v \<Rightarrow> map_emplace replacement v (filter (\<lambda>p. fst p \<noteq> old) m))"

definition sig_replaceAllUses :: "string \<Rightarrow> string \<Rightarrow> graph_signature \<Rightarrow> graph_signature" where
  "sig_replaceAllUses old replacement sig =
     (if old = replacement then sig
      else let sig1 = sig\<lparr> userOutputNames := map (\<lambda>n. if n = Some old then Some replacement else n) (userOutputNames sig),
               buffersToMutate := replaceInMap old replacement (buffersToMutate sig) \<rparr>
        in if hasBackward sig1
           then sig1\<lparr> gradientsToParameters := replaceInMap old replacement (gradientsToParameters sig1),
             gradientsToUserInputs := replaceInMap old replacement (gradientsToUserInputs sig1),
             lossOutput := (if old = lossOutput sig1 then replacement else lossOutput sig1) \<rparr>
           else sig1)"

section \<open>The weights are ordered by kind\<close>

fun sel_parameter :: "input_spec \<Rightarrow> (string \<times> string) option" where
  "sel_parameter (PARAMETER i w) = Some (i, w)" | "sel_parameter _ = None"

fun sel_buffer :: "bool \<Rightarrow> input_spec \<Rightarrow> (string \<times> string) option" where
  "sel_buffer b (BUFFER i w p) = (if p = b then Some (i, w) else None)" | "sel_buffer b _ = None"

fun sel_constant :: "input_spec \<Rightarrow> (string \<times> string) option" where
  "sel_constant (TENSOR_CONSTANT i w) = Some (i, w)" | "sel_constant _ = None"

fun sel_custom :: "input_spec \<Rightarrow> (string \<times> string) option" where
  "sel_custom (CUSTOM_OBJ i c) = Some (i, c)" | "sel_custom _ = None"

definition select :: "('a \<Rightarrow> 'b option) \<Rightarrow> 'a list \<Rightarrow> 'b list" where
  "select f xs = List.map_filter f xs"

lemma select_simps [simp]:
  "select f [] = []" "select f (x # xs) = (case f x of None \<Rightarrow> select f xs | Some y \<Rightarrow> y # select f xs)"
  by (simp_all add: select_def map_filter_simps split: option.split)

definition weights :: "input_spec list \<Rightarrow> (string \<times> string) list" where
  "weights specs = select sel_parameter specs @ select (sel_buffer True) specs @ select (sel_buffer False) specs @ select sel_constant specs"

lemma ordered_specs:
  assumes "checkInputOrders specs cur seen = Inr ()"
  shows "(cur > 1 \<longrightarrow> select sel_parameter specs = []) \<and>
    (cur > 2 \<longrightarrow> select (sel_buffer True) specs = [] \<and> select (sel_buffer False) specs = []) \<and>
    (cur > 3 \<longrightarrow> select sel_constant specs = []) \<and> (seen \<longrightarrow> select (sel_buffer True) specs = [])"
  using assms
proof (induction specs arbitrary: cur seen)
  case (Cons s specs)
  show ?case
  proof (cases s)
    case (BUFFER i w p)
    then show ?thesis using Cons.prems Cons.IH [of 2 True] Cons.IH [of 2 seen]
      by (cases p) (auto simp: bindE_Inr_iff split: if_splits)
  next
    case (USER_INPUT a)
    then show ?thesis using Cons.prems Cons.IH [of cur seen] by simp
  next
    case (CONSTANT_INPUT a)
    then show ?thesis using Cons.prems Cons.IH [of cur seen] by simp
  qed (use Cons.prems Cons.IH [of 0 seen] Cons.IH [of 1 seen] Cons.IH [of 3 seen] Cons.IH [of 4 seen] in
      \<open>auto simp: bindE_Inr_iff split: if_splits\<close>)
qed simp

lemma add_input_specs:
  assumes "checkInputOrders specs cur seen = Inr ()" "foldE add_input_spec sig specs = Inr sig'"
  shows "inputsToWeights sig' = inputsToWeights sig @ weights specs \<and>
    numParameters sig' = numParameters sig + length (select sel_parameter specs) \<and>
    numPersistentBuffers sig' = numPersistentBuffers sig + length (select (sel_buffer True) specs) \<and>
    numNonPersistentBuffers sig' = numNonPersistentBuffers sig + length (select (sel_buffer False) specs) \<and>
    numTensorConstants sig' = numTensorConstants sig + length (select sel_constant specs) \<and>
    numCustomObjs sig' = numCustomObjs sig + length (select sel_custom specs) \<and>
    inputsToCustomObjs sig' = inputsToCustomObjs sig @ select sel_custom specs"
  using assms
proof (induction specs arbitrary: cur seen sig)
  case Nil
  then show ?case by (simp add: weights_def)
next
  case (Cons s specs)
  obtain sig1 where s1: "add_input_spec sig s = Inr sig1" "foldE add_input_spec sig1 specs = Inr sig'"
    using Cons.prems(2) by (auto simp: bindE_Inr_iff)
  show ?case
  proof (cases s)
    case (BUFFER i w p)
    then have o: "checkInputOrders specs 2 (\<not> p \<or> seen) = Inr ()"
      using Cons.prems(1) by (cases p) (auto simp: bindE_Inr_iff split: if_splits)
    show ?thesis using Cons.IH [OF o s1(2)] ordered_specs [OF o] s1(1) BUFFER by (cases p) (auto simp: weights_def)
  next
    case (PARAMETER i w)
    then have o: "checkInputOrders specs 1 seen = Inr ()" using Cons.prems(1) by (auto split: if_splits)
    show ?thesis using Cons.IH [OF o s1(2)] s1(1) PARAMETER by (auto simp: weights_def)
  next
    case (TENSOR_CONSTANT i w)
    then have o: "checkInputOrders specs 3 seen = Inr ()" using Cons.prems(1) by (auto simp: bindE_Inr_iff split: if_splits)
    show ?thesis using Cons.IH [OF o s1(2)] ordered_specs [OF o] s1(1) TENSOR_CONSTANT by (auto simp: weights_def)
  next
    case (CUSTOM_OBJ i w)
    then have o: "checkInputOrders specs 4 seen = Inr ()" using Cons.prems(1) by (auto simp: bindE_Inr_iff split: if_splits)
    show ?thesis using Cons.IH [OF o s1(2)] s1(1) CUSTOM_OBJ by (auto simp: weights_def)
  next
    case (USER_INPUT a)
    then have o: "checkInputOrders specs cur seen = Inr ()" using Cons.prems(1) by simp
    show ?thesis using Cons.IH [OF o s1(2)] s1(1) USER_INPUT by (auto simp: weights_def bindE_Inr_iff)
  next
    case (CONSTANT_INPUT a)
    then have o: "checkInputOrders specs cur seen = Inr ()" using Cons.prems(1) by simp
    show ?thesis using Cons.IH [OF o s1(2)] s1(1) CONSTANT_INPUT by (auto simp: weights_def)
  next
    case TOKEN
    then show ?thesis using s1(1) by simp
  qed
qed

lemma add_output_inputs:
  assumes "foldE add_output_spec sig outs = Inr sig'"
  shows "inputsToWeights sig' = inputsToWeights sig \<and> numParameters sig' = numParameters sig \<and>
    numPersistentBuffers sig' = numPersistentBuffers sig \<and> numNonPersistentBuffers sig' = numNonPersistentBuffers sig \<and>
    numTensorConstants sig' = numTensorConstants sig \<and> numCustomObjs sig' = numCustomObjs sig \<and>
    inputsToCustomObjs sig' = inputsToCustomObjs sig"
  using assms
proof (induction outs arbitrary: sig)
  case (Cons s outs)
  obtain sig1 where s1: "add_output_spec sig s = Inr sig1" "foldE add_output_spec sig1 outs = Inr sig'"
    using Cons.prems by (auto simp: bindE_Inr_iff)
  show ?case using Cons.IH [OF s1(2)] s1(1) by (cases s) (auto simp: bindE_Inr_iff)
qed simp

text \<open>
  Property: when the construction succeeds, the index arithmetic of the accessors is
  right: \<open>parameters()\<close>, \<open>buffers()\<close>, \<open>nonPersistentBuffers()\<close>, \<open>tensorConstants()\<close> and \<open>customObjs()\<close>
  are exactly the names in the input specifications of the respective kind, in their order, and together they
  are all the weights.
\<close>
theorem signature_kinds:
  assumes "GraphSignature ins outs = Inr sig"
  shows "sig_parameters sig = map snd (select sel_parameter ins) \<and>
    sig_buffers sig = map snd (select (sel_buffer True) ins) \<and>
    sig_nonPersistentBuffers sig = map snd (select (sel_buffer False) ins) \<and>
    sig_tensorConstants sig = map snd (select sel_constant ins) \<and>
    sig_customObjs sig = map snd (select sel_custom ins) \<and>
    map snd (inputsToWeights sig) = sig_parameters sig @ sig_buffers sig @ sig_nonPersistentBuffers sig @ sig_tensorConstants sig"
proof -
  obtain sig0 where o: "checkInputOrders ins 0 False = Inr ()" and i: "foldE add_input_spec empty_signature ins = Inr sig0"
    and os: "foldE add_output_spec sig0 outs = Inr sig"
    using assms by (auto simp: GraphSignature_def bindE_Inr_iff)
  show ?thesis
    using add_input_specs [OF o i] add_output_inputs [OF os]
    by (simp add: empty_signature_def weights_def sig_parameters_def sig_buffers_def sig_nonPersistentBuffers_def
        sig_tensorConstants_def sig_customObjs_def slice_def)
qed

theorem signature_kinds_witness:
  "\<exists>sig. GraphSignature [PARAMETER ''p'' ''w'', BUFFER ''b'' ''running_mean'' True, USER_INPUT (AS_TENSOR ''x'')] [USER_OUTPUT (AS_TENSOR ''y'')] = Inr sig \<and>
     sig_parameters sig = [''w''] \<and> sig_buffers sig = [''running_mean''] \<and> sig_nonPersistentBuffers sig = []"
proof -
  obtain sig where "GraphSignature [PARAMETER ''p'' ''w'', BUFFER ''b'' ''running_mean'' True, USER_INPUT (AS_TENSOR ''x'')] [USER_OUTPUT (AS_TENSOR ''y'')] = Inr sig"
    by (simp add: GraphSignature_def)
  with signature_kinds [OF this] show ?thesis by simp
qed

section \<open>Renaming of outputs\<close>

definition rename :: "string \<Rightarrow> string \<Rightarrow> string option \<Rightarrow> string option" where
  "rename old new n = (if n = Some old then Some new else n)"

lemma replaceInMap_keys: "(Some \<circ> fst) ` set (replaceInMap old new m) = rename old new ` (Some \<circ> fst) ` set m"
proof (cases "map_of m old")
  case None
  then have "old \<notin> fst ` set m" by (simp add: map_of_eq_None_iff)
  then have "rename old new (Some (fst p)) = Some (fst p)" if "p \<in> set m" for p using that by (auto simp: rename_def)
  then show ?thesis using None by (simp add: replaceInMap_def image_image)
next
  case (Some v)
  then have old: "old \<in> fst ` set m" by (metis domI dom_map_of_conv_image_fst)
  have "fst ` set (replaceInMap old new m) = insert new (fst ` set m - {old})"
    using Some by (auto simp: replaceInMap_def map_emplace_def image_iff)
  then have "(Some \<circ> fst) ` set (replaceInMap old new m) = Some ` insert new (fst ` set m - {old})" by (metis image_comp)
  also have "\<dots> = rename old new ` Some ` fst ` set m" using old by (auto simp: rename_def image_iff)
  finally show ?thesis by (simp add: image_comp)
qed

lemma replaceInMap_empty [simp]: "replaceInMap old new m = [] \<longleftrightarrow> m = []"
  using replaceInMap_keys [of old new m] by (metis image_is_empty set_empty)

lemma sig_lint_ok: "sig_lint I G sig = Inr () \<longleftrightarrow> inputNames sig = I \<and> (\<forall>s. Some s \<in> outputNames sig \<longrightarrow> s \<in> G)"
proof -
  have "(\<forall>n \<in> S. case n of None \<Rightarrow> True | Some s \<Rightarrow> s \<in> G) \<longleftrightarrow> (\<forall>s. Some s \<in> S \<longrightarrow> s \<in> G)" for S :: "string option set"
    by (rule iffI; intro allI ballI impI; force split: option.splits)
  then show ?thesis by (auto simp: sig_lint_def checkInputNames_def checkOutputNames_def bindE_Inr_iff)
qed

lemma rename_id: "old \<notin> S \<Longrightarrow> rename old new ` Some ` S = Some ` S"
  by (auto simp: rename_def)

text \<open>
  C29: replacing a value that no user input mutation names renames it in
  the set of output names of the signature and changes nothing else, so that a graph whose outputs are renamed the
  same way passes the check if it did before. If the replaced name is the output of a user input mutation, that
  entry is not renamed, and the check of the renamed graph throws.
\<close>
theorem replaceAllUses_renames:
  assumes "old \<noteq> []" "new \<noteq> []" "old \<noteq> new"
  shows "(old \<notin> fst ` set (userInputsToMutate sig) \<longrightarrow>
      outputNames (sig_replaceAllUses old new sig) = rename old new ` outputNames sig \<and>
      (sig_lint I G sig = Inr () \<longrightarrow>
         sig_lint I ((\<lambda>n. if n = old then new else n) ` G) (sig_replaceAllUses old new sig) = Inr ())) \<and>
    (old \<in> fst ` set (userInputsToMutate sig) \<longrightarrow>
      (\<exists>e. sig_lint I ((\<lambda>n. if n = old then new else n) ` G) (sig_replaceAllUses old new sig) = Inl e))"
proof -
  let ?sig = "sig_replaceAllUses old new sig"
  have hb: "hasBackward (sig\<lparr> userOutputNames := us, buffersToMutate := replaceInMap old new (buffersToMutate sig) \<rparr>) = hasBackward sig" for us
    by (simp add: hasBackward_def)
  have hb': "hasBackward ?sig = hasBackward sig"
    using assms by (auto simp: sig_replaceAllUses_def Let_def hb) (auto simp: hasBackward_def)
  have inp: "inputNames ?sig = inputNames sig" by (simp add: sig_replaceAllUses_def Let_def inputNames_def)
  have mut: "userInputsToMutate ?sig = userInputsToMutate sig" by (simp add: sig_replaceAllUses_def Let_def)
  have user: "userOutputNames ?sig = map (rename old new) (userOutputNames sig)" "buffersToMutate ?sig = replaceInMap old new (buffersToMutate sig)"
    using assms(3) by (simp_all add: sig_replaceAllUses_def Let_def rename_def)
  have bwd: "gradientsToParameters ?sig = replaceInMap old new (gradientsToParameters sig)"
      "gradientsToUserInputs ?sig = replaceInMap old new (gradientsToUserInputs sig)"
      "lossOutput ?sig = (if old = lossOutput sig then new else lossOutput sig)" if "hasBackward sig"
    using assms(3) that by (simp_all add: sig_replaceAllUses_def Let_def hb)
  have keys: "(Some \<circ> fst) ` set (replaceInMap old new m) = rename old new ` (Some \<circ> fst) ` set m" for m by (rule replaceInMap_keys)
  have loss: "(if lossOutput ?sig \<noteq> [] then {Some (lossOutput ?sig)} else {}) =
      rename old new ` (if lossOutput sig \<noteq> [] then {Some (lossOutput sig)} else {})" if "hasBackward sig"
    using assms bwd(3) [OF that] by (auto simp: rename_def)
  have outs: "outputNames ?sig = rename old new ` outputNames sig" if "old \<notin> fst ` set (userInputsToMutate sig)"
  proof -
    have "rename old new ` (Some \<circ> fst) ` set (userInputsToMutate sig) = (Some \<circ> fst) ` set (userInputsToMutate sig)"
      using rename_id [OF that, of new] by (simp only: image_comp [symmetric])
    then show ?thesis
      unfolding outputNames_def hb' mut user keys
      by (cases "hasBackward sig") (simp_all only: if_True if_False bwd(1,2) loss keys image_Un set_map image_empty Un_empty_right)
  qed
  have "s \<in> (\<lambda>n. if n = old then new else n) ` G" if "Some s \<in> rename old new ` outputNames sig" "\<forall>s. Some s \<in> outputNames sig \<longrightarrow> s \<in> G" for s
    using that by (auto simp: rename_def image_iff split: if_splits)
  then have lint: "sig_lint I ((\<lambda>n. if n = old then new else n) ` G) ?sig = Inr ()"
    if "old \<notin> fst ` set (userInputsToMutate sig)" "sig_lint I G sig = Inr ()"
    using that(2) unfolding sig_lint_ok outs [OF that(1)] inp by blast
  have fails: "\<exists>e. sig_lint I ((\<lambda>n. if n = old then new else n) ` G) ?sig = Inl e" if "old \<in> fst ` set (userInputsToMutate sig)"
  proof -
    have "Some old \<in> outputNames ?sig" using that unfolding outputNames_def mut by force
    moreover have "old \<notin> (\<lambda>n. if n = old then new else n) ` G" using assms(3) by auto
    ultimately have "sig_lint I ((\<lambda>n. if n = old then new else n) ` G) ?sig \<noteq> Inr ()" unfolding sig_lint_ok by blast
    then show ?thesis by (metis obj_sumE old.unit.exhaust)
  qed
  show ?thesis using outs lint fails by blast
qed

theorem replaceAllUses_renames_witness:
  "\<exists>e. sig_lint {''x''} {''z''} (sig_replaceAllUses ''y'' ''z''
     (empty_signature\<lparr> userInputNames := [''x''], userInputsToMutate := [(''y'', ''x'')] \<rparr>)) = Inl e"
  using replaceAllUses_renames [of "''y''" "''z''" "empty_signature\<lparr> userInputNames := [''x''], userInputsToMutate := [(''y'', ''x'')] \<rparr>" "{''x''}" "{''y''}"]
  by simp

end
