(* ===== verification/NativeGraph.thy ===== *)
theory NativeGraph
  imports GraphSignatures
begin

text \<open>
  The computation graph of \<open>torch/nativert/graph/Graph.h\<close> and \<open>Graph.cpp\<close>: nodes and values with the
  back references the code keeps. A pointer is a natural number, \<open>nullptr\<close> is 0; the maps from pointers to
  nodes and values are the heap the graph owns.
\<close>

section \<open>Types, values and nodes\<close>

datatype type_kind = KNone | KTensor | KTensorList | KNestedTensorList | KOptionalTensorList | KSymInt | KSymIntList
  | KSymBool | KSymFloat | KCustomObj

datatype gtype = Kind type_kind | CustomObjData string

fun kind :: "gtype \<Rightarrow> type_kind" where
  "kind (CustomObjData fqn) = KCustomObj"
| "kind (Kind k) = k"

text \<open>\<open>operator==\<close> of types compares the kinds, and the class names of custom objects.\<close>

fun type_eq :: "gtype \<Rightarrow> gtype \<Rightarrow> bool" where
  "type_eq (CustomObjData a) (CustomObjData b) \<longleftrightarrow> a = b"
| "type_eq l r \<longleftrightarrow> kind l = kind r"

type_synonym nref = nat
type_synonym vref = nat

definition nullptr :: nat where "nullptr = 0"

record gvalue =
  v_name :: string
  v_folded :: bool
  v_id :: nat
  v_type :: gtype
  v_producer :: nref
  v_users :: "nref list"

record gnode =
  n_target :: string
  n_inputs :: "(string \<times> vref) list"
  n_outputs :: "vref list"

record graph =
  g_owner :: "nref list"               \<comment> \<open>\<open>nodesOwner_\<close>\<close>
  g_nodes :: "nref list"               \<comment> \<open>\<open>nodes_\<close>, in execution order\<close>
  g_node :: "nref \<Rightarrow> gnode"
  g_value :: "vref \<Rightarrow> gvalue"
  g_values :: "(string \<times> vref) list"   \<comment> \<open>\<open>values_\<close>\<close>
  g_insertBefore :: "nref option"       \<comment> \<open>\<open>None\<close>: the end of the list\<close>
  g_inputNode :: nref
  g_outputNode :: nref
  g_constantSymInts :: "(nat \<times> int) list"
  g_signature :: graph_signature
  g_tensorMeta :: "string \<Rightarrow> bool option"  \<comment> \<open>\<open>tensorValuesMeta_\<close>: is the tensor on the CPU\<close>
  g_uniqueValueName :: nat
  g_uniqueValueId :: nat
  g_nextNode :: nref                   \<comment> \<open>fresh pointers of the heap\<close>
  g_nextValue :: vref

definition input_values :: "gnode \<Rightarrow> vref list" where
  "input_values n = map snd (n_inputs n)"

definition nodes :: "graph \<Rightarrow> gnode list" where
  "nodes g = map (g_node g) (g_nodes g)"

definition graph_inputs :: "graph \<Rightarrow> vref list" where
  "graph_inputs g = n_outputs (g_node g (g_inputNode g))"

definition graph_outputs :: "graph \<Rightarrow> vref list" where
  "graph_outputs g = input_values (g_node g (g_outputNode g))"

definition userInputs :: "graph \<Rightarrow> vref list" where
  "userInputs g = drop (length (inputsToWeights (g_signature g)) + length (inputsToCustomObjs (g_signature g))) (graph_inputs g)"

text \<open>\<open>Value::producer\<close> on a constant value: a folded value has no producer unless it is asked for.\<close>

definition producer :: "graph \<Rightarrow> bool \<Rightarrow> vref \<Rightarrow> nref" where
  "producer g resolve_folded v =
     (if \<not> resolve_folded \<and> v_folded (g_value g v) then nullptr else v_producer (g_value g v))"

definition getListElements :: "graph \<Rightarrow> vref \<Rightarrow> vref list result" where
  "getListElements g v =
     (let p = producer g False v in
      if p \<noteq> nullptr \<and> n_target (g_node g p) = ''prim.ListPack'' then Inr (input_values (g_node g p))
      else bindE (check (length (v_users (g_value g v)) = 1) (CheckError ''getListElements'')) (\<lambda>_.
        let u = hd (v_users (g_value g v)) in
        bindE (check (n_target (g_node g u) = ''prim.ListUnpack'') (CheckError ''getListElements'')) (\<lambda>_.
          Inr (n_outputs (g_node g u)))))"

section \<open>An example\<close>

text \<open>
  A value \<open>x\<close> (2), a view \<open>y\<close> of it (3) that node 3 reads, and node 4 that reads \<open>x\<close> itself once more and
  produces \<open>z\<close> (5).
\<close>

definition mk_node :: "string \<Rightarrow> vref list \<Rightarrow> vref list \<Rightarrow> gnode" where
  "mk_node target ins outs = \<lparr> n_target = target, n_inputs = map (Pair ''self'') ins, n_outputs = outs \<rparr>"

definition view_nodes :: "gnode list" where
  "view_nodes = [mk_node ''prim.Input'' [] [1], mk_node ''op.make'' [1] [2], mk_node ''op.view'' [2] [3],
     mk_node ''op.unary'' [3] [4], mk_node ''op.binary'' [2, 4] [5], mk_node ''op.unary'' [5] [6], mk_node ''prim.Output'' [6] []]"

definition view_value :: "vref \<Rightarrow> gvalue" where
  "view_value v = \<lparr> v_name = replicate v (CHR ''v''), v_folded = False, v_id = v - 1, v_type = Kind KTensor, v_producer = v,
     v_users = [[2], [3, 5], [4], [5], [6], [7]] ! (v - 1) \<rparr>"

definition view_graph :: graph where
  "view_graph = \<lparr> g_owner = [1, 2, 3, 4, 5, 6, 7], g_nodes = [1, 2, 3, 4, 5, 6, 7], g_node = (\<lambda>n. view_nodes ! (n - 1)), g_value = view_value,
     g_values = map (\<lambda>v. (replicate v (CHR ''v''), v)) [1, 2, 3, 4, 5, 6], g_insertBefore = Some 7, g_inputNode = 1, g_outputNode = 7,
     g_constantSymInts = [], g_signature = empty_signature, g_tensorMeta = (\<lambda>_. Some True), g_uniqueValueName = 0, g_uniqueValueId = 6, g_nextNode = 8, g_nextValue = 7 \<rparr>"

lemma nodes_view_graph: "nodes view_graph = view_nodes"
  by (simp add: nodes_def view_graph_def view_nodes_def)

end
