(* ===== verification/LayoutAlgorithms.thy ===== *)
theory LayoutAlgorithms
  imports Prelude
begin

text \<open>
  The layout planning algorithms of \<open>torch/nativert/executor/memory\<close>: given the lifetimes and sizes
  of the tensors that an execution plan manages, assign each an offset in one buffer. The contract of
  an algorithm is the locale \<open>layout_algorithm\<close>; \<open>BumpAllocationPlanner\<close> and
  \<open>GreedyBySizeAllocationPlanner\<close> are proved to satisfy it here, \<open>DisjointStorageGroupsPlanner\<close> in the
  theory \<open>StorageGroups\<close>. Sizes and offsets are natural numbers; every number the algorithms compute
  is at most the sum of the sizes (\<open>valid_plan\<close>), so that \<open>size_t\<close> does not wrap when the sum fits.
\<close>

section \<open>Lifetimes, specifications and plans\<close>

record lifetime =
  lt_start :: nat
  lt_end :: nat

record alloc_spec =
  as_lifetime :: lifetime
  as_size :: nat

record allocation =
  al_size :: nat
  al_offset :: nat

record layout_plan =
  total_size :: nat
  allocations :: "allocation list"

definition lifetime_not_overlapping :: "lifetime \<Rightarrow> lifetime \<Rightarrow> bool" where
  "lifetime_not_overlapping a b \<longleftrightarrow> lt_end a < lt_start b \<or> lt_start a > lt_end b"

definition not_overlapping_with :: "alloc_spec \<Rightarrow> alloc_spec \<Rightarrow> bool" where
  "not_overlapping_with a b = lifetime_not_overlapping (as_lifetime a) (as_lifetime b)"

lemma not_overlapping_sym: "not_overlapping_with a b \<longleftrightarrow> not_overlapping_with b a"
  by (auto simp: not_overlapping_with_def lifetime_not_overlapping_def)

text \<open>Two lifetimes overlap exactly when some time belongs to both.\<close>

lemma overlapping_iff_time:
  assumes "lt_start (as_lifetime a) \<le> lt_end (as_lifetime a)" "lt_start (as_lifetime b) \<le> lt_end (as_lifetime b)"
  shows "\<not> not_overlapping_with a b \<longleftrightarrow> (\<exists>t. lt_start (as_lifetime a) \<le> t \<and> t \<le> lt_end (as_lifetime a) \<and>
      lt_start (as_lifetime b) \<le> t \<and> t \<le> lt_end (as_lifetime b))"
proof
  assume "\<not> not_overlapping_with a b"
  then show "\<exists>t. lt_start (as_lifetime a) \<le> t \<and> t \<le> lt_end (as_lifetime a) \<and>
      lt_start (as_lifetime b) \<le> t \<and> t \<le> lt_end (as_lifetime b)"
    using assms by (intro exI [of _ "max (lt_start (as_lifetime a)) (lt_start (as_lifetime b))"])
      (auto simp: not_overlapping_with_def lifetime_not_overlapping_def)
qed (auto simp: not_overlapping_with_def lifetime_not_overlapping_def)

text \<open>The byte ranges of two allocations.\<close>

definition separate :: "nat \<Rightarrow> nat \<Rightarrow> nat \<Rightarrow> nat \<Rightarrow> bool" where
  "separate o1 n1 o2 n2 \<longleftrightarrow> o1 + n1 \<le> o2 \<or> o2 + n2 \<le> o1"

definition valid_plan :: "alloc_spec list \<Rightarrow> layout_plan \<Rightarrow> bool" where
  "valid_plan specs plan \<longleftrightarrow>
     length (allocations plan) = length specs \<and>
     (\<forall>i < length specs. al_size (allocations plan ! i) = as_size (specs ! i) \<and>
        al_offset (allocations plan ! i) + as_size (specs ! i) \<le> total_size plan) \<and>
     (\<forall>i < length specs. \<forall>j < length specs. i \<noteq> j \<longrightarrow> \<not> not_overlapping_with (specs ! i) (specs ! j) \<longrightarrow>
        separate (al_offset (allocations plan ! i)) (as_size (specs ! i)) (al_offset (allocations plan ! j)) (as_size (specs ! j))) \<and>
     total_size plan \<le> sum_list (map as_size specs)"

definition spec_ok :: "alloc_spec \<Rightarrow> bool" where
  "spec_ok s \<longleftrightarrow> lt_start (as_lifetime s) \<le> lt_end (as_lifetime s)"

locale layout_algorithm =
  fixes algorithm :: "alloc_spec list \<Rightarrow> layout_plan result"
  assumes algorithm_valid: "\<forall>s \<in> set specs. spec_ok s \<Longrightarrow> \<exists>plan. algorithm specs = Inr plan \<and> valid_plan specs plan"
begin

text \<open>Two tensors that are alive at the same time have disjoint byte ranges inside the buffer.\<close>

lemma alive_disjoint:
  assumes ok: "\<forall>s \<in> set specs. spec_ok s" and ij: "i < length specs" "j < length specs" "i \<noteq> j"
    and t: "lt_start (as_lifetime (specs ! i)) \<le> t" "t \<le> lt_end (as_lifetime (specs ! i))"
      "lt_start (as_lifetime (specs ! j)) \<le> t" "t \<le> lt_end (as_lifetime (specs ! j))"
    and plan: "algorithm specs = Inr plan"
  shows "separate (al_offset (allocations plan ! i)) (as_size (specs ! i)) (al_offset (allocations plan ! j)) (as_size (specs ! j))"
proof -
  have v: "valid_plan specs plan" using algorithm_valid [OF ok] plan by simp
  have "spec_ok (specs ! i)" "spec_ok (specs ! j)" using ok ij by auto
  then have "\<not> not_overlapping_with (specs ! i) (specs ! j)"
    using overlapping_iff_time [of "specs ! i" "specs ! j"] t by (auto simp: spec_ok_def)
  then show ?thesis using v ij unfolding valid_plan_def by blast
qed

end

section \<open>Bump allocation\<close>

fun bump_loop :: "alloc_spec list \<Rightarrow> nat \<Rightarrow> allocation list \<times> nat" where
  "bump_loop [] tot = ([], tot)"
| "bump_loop (spec # specs) tot =
     (case bump_loop specs (tot + as_size spec) of (as, t) \<Rightarrow>
        (\<lparr> al_size = as_size spec, al_offset = tot \<rparr> # as, t))"

definition BumpAllocationPlanner :: "alloc_spec list \<Rightarrow> layout_plan" where
  "BumpAllocationPlanner specs = (case bump_loop specs 0 of (as, t) \<Rightarrow> \<lparr> total_size = t, allocations = as \<rparr>)"

lemma bump_loop_ok:
  "bump_loop specs tot = (as, t) \<Longrightarrow> length as = length specs \<and> t = tot + sum_list (map as_size specs) \<and>
     (\<forall>i < length specs. al_size (as ! i) = as_size (specs ! i) \<and>
        al_offset (as ! i) = tot + sum_list (map as_size (take i specs)))"
proof (induction specs arbitrary: tot as t)
  case (Cons s specs)
  obtain as' where as': "bump_loop specs (tot + as_size s) = (as', t)"
      "as = \<lparr> al_size = as_size s, al_offset = tot \<rparr> # as'"
    using Cons.prems by (auto split: prod.splits)
  have "al_size (as ! i) = as_size ((s # specs) ! i) \<and> al_offset (as ! i) = tot + sum_list (map as_size (take i (s # specs)))"
    if "i < length (s # specs)" for i
    using Cons.IH [OF as'(1)] as'(2) that by (cases i) auto
  then show ?case using Cons.IH [OF as'(1)] as'(2) by auto
qed simp

lemma sum_take_Suc_le:
  fixes f :: "'a \<Rightarrow> nat"
  assumes "i < j" "j \<le> length xs" shows "sum_list (map f (take i xs)) + f (xs ! i) \<le> sum_list (map f (take j xs))"
proof -
  have i: "i < length xs" using assms by simp
  have "sum_list (map f (take (Suc i) xs)) = sum_list (map f (take i xs)) + f (xs ! i)"
    using i by (simp add: take_Suc_conv_app_nth)
  moreover have "take j xs = take (Suc i) xs @ drop (Suc i) (take j xs)"
    using assms(1) by (metis append_take_drop_id min.absorb1 Suc_leI take_take)
  then have "sum_list (map f (take j xs)) = sum_list (map f (take (Suc i) xs)) + sum_list (map f (drop (Suc i) (take j xs)))"
    by (metis map_append sum_list_append)
  ultimately show ?thesis by simp
qed

lemma bump_valid: "valid_plan specs (BumpAllocationPlanner specs)"
proof -
  obtain as t where b: "bump_loop specs 0 = (as, t)" by fastforce
  note ok = bump_loop_ok [OF b]
  have "separate (al_offset (as ! i)) (as_size (specs ! i)) (al_offset (as ! j)) (as_size (specs ! j))"
    if "i < length specs" "j < length specs" "i \<noteq> j" for i j
    using ok that sum_take_Suc_le [of i j specs as_size] sum_take_Suc_le [of j i specs as_size]
    by (cases "i < j") (auto simp: separate_def)
  then show ?thesis
    using ok b sum_take_Suc_le [of _ "length specs" specs as_size]
    by (auto simp: valid_plan_def BumpAllocationPlanner_def)
qed

interpretation bump: layout_algorithm "\<lambda>specs. Inr (BumpAllocationPlanner specs)"
  by unfold_locales (simp add: bump_valid)

section \<open>Greedy by size\<close>

text \<open>
  The specifications sorted by size are pairs of a specification and its index in the input.
  \<open>std::sort\<close> does not fix the order of equal sizes: the algorithm takes the sorted sequence as an
  argument, and \<open>GreedyBySizeAllocationPlanner\<close> runs it on one such sequence.
\<close>

record greedy_alloc =
  ga_size :: nat
  ga_offset :: nat
  ga_index :: nat          \<comment> \<open>\<open>allocation_index\<close>: into the sorted sequence\<close>
  ga_input :: nat          \<comment> \<open>\<open>input_spec_index\<close>\<close>

definition max_size_t :: nat where "max_size_t = 2 ^ 64 - 1"

fun get_next_offset :: "(alloc_spec \<times> nat) list \<Rightarrow> alloc_spec \<Rightarrow> greedy_alloc list \<Rightarrow> nat \<Rightarrow> nat option \<Rightarrow> nat \<Rightarrow> nat" where
  "get_next_offset order spec [] prev_offset best_offset smallest_gap =
     (case best_offset of None \<Rightarrow> prev_offset | Some b \<Rightarrow> b)"
| "get_next_offset order spec (alloc # allocs) prev_offset best_offset smallest_gap =
     (if not_overlapping_with (fst (order ! ga_index alloc)) spec
      then get_next_offset order spec allocs prev_offset best_offset smallest_gap
      else let gap = ga_offset alloc - prev_offset;
               take_gap = (ga_offset alloc > prev_offset \<and> gap \<ge> as_size spec \<and> gap < smallest_gap)
           in get_next_offset order spec allocs (max prev_offset (ga_offset alloc + ga_size alloc))
                (if take_gap then Some prev_offset else best_offset) (if take_gap then gap else smallest_gap))"

definition insert_by_offset :: "greedy_alloc \<Rightarrow> greedy_alloc list \<Rightarrow> greedy_alloc list" where
  "insert_by_offset a as = takeWhile (\<lambda>x. ga_offset x < ga_offset a) as @ a # dropWhile (\<lambda>x. ga_offset x < ga_offset a) as"

fun greedy_loop :: "(alloc_spec \<times> nat) list \<Rightarrow> nat list \<Rightarrow> greedy_alloc list \<Rightarrow> nat \<Rightarrow> greedy_alloc list \<times> nat" where
  "greedy_loop order [] allocs tot = (allocs, tot)"
| "greedy_loop order (k # ks) allocs tot =
     (let spec = fst (order ! k);
          off = get_next_offset order spec allocs 0 None max_size_t;
          new = \<lparr> ga_size = as_size spec, ga_offset = off, ga_index = k, ga_input = snd (order ! k) \<rparr>
      in greedy_loop order ks (insert_by_offset new allocs) (max tot (off + as_size spec)))"

definition greedy_on :: "(alloc_spec \<times> nat) list \<Rightarrow> layout_plan" where
  "greedy_on order = (case greedy_loop order [0..<length order] [] 0 of (allocs, tot) \<Rightarrow>
     \<lparr> total_size = tot,
       allocations = map (\<lambda>a. \<lparr> al_size = ga_size a, al_offset = ga_offset a \<rparr>) (sort_key ga_input allocs) \<rparr>)"

definition prepare_allocation_specs :: "alloc_spec list \<Rightarrow> (alloc_spec \<times> nat) list" where
  "prepare_allocation_specs specs = rev (sort_key (\<lambda>p. as_size (fst p)) (zip specs [0..<length specs]))"

definition GreedyBySizeAllocationPlanner :: "alloc_spec list \<Rightarrow> layout_plan" where
  "GreedyBySizeAllocationPlanner specs = greedy_on (prepare_allocation_specs specs)"

text \<open>The allocations whose lifetimes overlap with the new one.\<close>

definition conflicting :: "(alloc_spec \<times> nat) list \<Rightarrow> alloc_spec \<Rightarrow> greedy_alloc list \<Rightarrow> greedy_alloc set" where
  "conflicting order spec as = {a \<in> set as. \<not> not_overlapping_with (fst (order ! ga_index a)) spec}"

lemma get_next_offset_ok:
  assumes "sorted_wrt (\<lambda>a b. ga_offset a \<le> ga_offset b) as"
    "\<forall>b a. best = Some b \<longrightarrow> a \<in> conflicting order spec as \<longrightarrow> b + as_size spec \<le> ga_offset a"
  shows "(prev \<le> get_next_offset order spec as prev best g \<or> best = Some (get_next_offset order spec as prev best g)) \<and>
    (\<forall>a \<in> conflicting order spec as.
      separate (get_next_offset order spec as prev best g) (as_size spec) (ga_offset a) (ga_size a))"
  using assms
proof (induction as arbitrary: prev best g)
  case Nil
  then show ?case by (auto simp: conflicting_def split: option.splits)
next
  case (Cons x as)
  have srt: "sorted_wrt (\<lambda>a b. ga_offset a \<le> ga_offset b) as" "\<And>a. a \<in> set as \<Longrightarrow> ga_offset x \<le> ga_offset a"
    using Cons.prems by auto
  have sub: "conflicting order spec as \<subseteq> conflicting order spec (x # as)" by (auto simp: conflicting_def)
  show ?case
  proof (cases "not_overlapping_with (fst (order ! ga_index x)) spec")
    case True
    then have "conflicting order spec (x # as) = conflicting order spec as" by (auto simp: conflicting_def)
    then show ?thesis using Cons.IH [OF srt(1), of best prev g] Cons.prems(2) True by simp
  next
    case False
    let ?gap = "ga_offset x - prev"
    let ?t = "ga_offset x > prev \<and> ?gap \<ge> as_size spec \<and> ?gap < g"
    let ?prev = "max prev (ga_offset x + ga_size x)" let ?best = "if ?t then Some prev else best" let ?g = "if ?t then ?gap else g"
    let ?r = "get_next_offset order spec as ?prev ?best ?g"
    have xin: "x \<in> conflicting order spec (x # as)" using False by (simp add: conflicting_def)
    have best: "b + as_size spec \<le> ga_offset a" if "?best = Some b" "a \<in> conflicting order spec as" for a b
    proof (cases ?t)
      case True
      then have "b + as_size spec \<le> ga_offset x" using that(1) by auto
      moreover have "ga_offset x \<le> ga_offset a" using that(2) srt(2) by (auto simp: conflicting_def)
      ultimately show ?thesis by simp
    next
      case False
      then show ?thesis using that sub Cons.prems(2) by (auto split: if_splits)
    qed
    have eq: "get_next_offset order spec (x # as) prev best g = ?r" using False by (simp add: Let_def)
    have IH: "?prev \<le> ?r \<or> ?best = Some ?r" "\<forall>a \<in> conflicting order spec as. separate ?r (as_size spec) (ga_offset a) (ga_size a)"
      using Cons.IH [OF srt(1), of ?best ?prev ?g] best by blast+
    have "separate ?r (as_size spec) (ga_offset x) (ga_size x)"
    proof (cases "?prev \<le> ?r")
      case True
      then show ?thesis by (simp add: separate_def)
    next
      case False
      then have r: "?best = Some ?r" using IH(1) by blast
      show ?thesis
      proof (cases ?t)
        case True
        then have "?r = prev" using r by simp
        then show ?thesis using True by (auto simp: separate_def)
      next
        case False
        then have "best = Some ?r" using r by (simp only: if_False)
        then have "?r + as_size spec \<le> ga_offset x" using Cons.prems(2) xin by blast
        then show ?thesis by (simp add: separate_def)
      qed
    qed
    moreover have "conflicting order spec (x # as) = insert x (conflicting order spec as)"
      using False by (auto simp: conflicting_def)
    moreover have "prev \<le> ?r \<or> best = Some ?r"
    proof (cases ?t)
      case True
      then show ?thesis using IH(1) by auto
    next
      case False
      then show ?thesis using IH(1) by (auto simp only: if_False max.bounded_iff)
    qed
    ultimately show ?thesis unfolding eq using IH(2) by simp
  qed
qed

lemma get_next_offset_bound:
  assumes "\<forall>a \<in> set as. ga_offset a + ga_size a \<le> m" "prev \<le> m" "\<forall>b. best = Some b \<longrightarrow> b \<le> m"
  shows "get_next_offset order spec as prev best g \<le> m"
  using assms
proof (induction as arbitrary: prev best g)
  case Nil
  then show ?case by (auto split: option.splits)
next
  case (Cons x as)
  then show ?case by (simp add: Let_def)
qed

section \<open>The greedy plan is valid\<close>

lemma insert_by_offset_set [simp]: "set (insert_by_offset a as) = insert a (set as)"
proof -
  have "set (takeWhile P as) \<union> set (dropWhile P as) = set as" for P :: "greedy_alloc \<Rightarrow> bool"
    by (metis set_append takeWhile_dropWhile_id)
  then show ?thesis unfolding insert_by_offset_def by auto
qed

lemma insert_by_offset_mset: "mset (insert_by_offset a as) = add_mset a (mset as)"
  by (induction as) (auto simp: insert_by_offset_def)

lemma insert_by_offset_sorted:
  assumes "sorted_wrt (\<lambda>a b. ga_offset a \<le> ga_offset b) as"
  shows "sorted_wrt (\<lambda>a b. ga_offset a \<le> ga_offset b) (insert_by_offset a as)"
  using assms
proof (induction as)
  case Nil
  then show ?case by (simp add: insert_by_offset_def)
next
  case (Cons x as)
  show ?case
  proof (cases "ga_offset x < ga_offset a")
    case True
    then have "insert_by_offset a (x # as) = x # insert_by_offset a as" by (simp add: insert_by_offset_def)
    then show ?thesis using Cons True by auto
  next
    case False
    then have "insert_by_offset a (x # as) = a # x # as" by (simp add: insert_by_offset_def)
    then show ?thesis using Cons False by fastforce
  qed
qed

text \<open>What holds of the allocations made from the positions \<open>K\<close> of the sorted sequence.\<close>

definition greedy_inv :: "(alloc_spec \<times> nat) list \<Rightarrow> nat set \<Rightarrow> greedy_alloc list \<Rightarrow> nat \<Rightarrow> bool" where
  "greedy_inv order K as tot \<longleftrightarrow>
     sorted_wrt (\<lambda>a b. ga_offset a \<le> ga_offset b) as \<and> distinct (map ga_index as) \<and> ga_index ` set as = K \<and>
     (\<forall>a \<in> set as. ga_size a = as_size (fst (order ! ga_index a)) \<and> ga_input a = snd (order ! ga_index a) \<and>
        ga_offset a + ga_size a \<le> tot) \<and>
     (\<forall>a \<in> set as. \<forall>b \<in> set as. ga_index a \<noteq> ga_index b \<longrightarrow>
        \<not> not_overlapping_with (fst (order ! ga_index a)) (fst (order ! ga_index b)) \<longrightarrow>
        separate (ga_offset a) (ga_size a) (ga_offset b) (ga_size b)) \<and>
     tot \<le> sum (\<lambda>k. as_size (fst (order ! k))) K"

lemma greedy_step:
  assumes inv: "greedy_inv order K as tot" and k: "k \<notin> K" "finite K"
  defines "spec \<equiv> fst (order ! k)"
  defines "off \<equiv> get_next_offset order spec as 0 None max_size_t"
  shows "greedy_inv order (insert k K)
      (insert_by_offset \<lparr> ga_size = as_size spec, ga_offset = off, ga_index = k, ga_input = snd (order ! k) \<rparr> as)
      (max tot (off + as_size spec))"
proof -
  let ?new = "\<lparr> ga_size = as_size spec, ga_offset = off, ga_index = k, ga_input = snd (order ! k) \<rparr>"
  have srt: "sorted_wrt (\<lambda>a b. ga_offset a \<le> ga_offset b) as" using inv by (simp add: greedy_inv_def)
  have sep: "separate off (as_size spec) (ga_offset a) (ga_size a)"
    if "a \<in> set as" "\<not> not_overlapping_with (fst (order ! ga_index a)) spec" for a
    using get_next_offset_ok [OF srt, of None order spec 0 max_size_t] that by (auto simp: conflicting_def off_def)
  have le: "off \<le> tot"
    unfolding off_def by (rule get_next_offset_bound) (use inv in \<open>auto simp: greedy_inv_def\<close>)
  have sum: "sum (\<lambda>k. as_size (fst (order ! k))) (insert k K) = as_size spec + sum (\<lambda>k. as_size (fst (order ! k))) K"
    using k by (simp add: spec_def)
  have pair: "separate (ga_offset a) (ga_size a) (ga_offset b) (ga_size b)"
    if ab: "a \<in> insert ?new (set as)" "b \<in> insert ?new (set as)" "ga_index a \<noteq> ga_index b"
      "\<not> not_overlapping_with (fst (order ! ga_index a)) (fst (order ! ga_index b))" for a b
  proof -
    consider "a \<in> set as" "b \<in> set as" | "a = ?new" "b \<in> set as" | "a \<in> set as" "b = ?new" | "a = ?new" "b = ?new"
      using ab(1,2) by blast
    then show ?thesis
    proof cases
      case 1
      then show ?thesis using inv ab(3,4) unfolding greedy_inv_def by blast
    next
      case 2
      then have "\<not> not_overlapping_with (fst (order ! ga_index b)) spec"
        using ab(4) not_overlapping_sym by (auto simp: spec_def)
      then show ?thesis using sep [OF 2(2)] 2(1) by simp
    next
      case 3
      then show ?thesis using sep [OF 3(1)] ab(4) by (auto simp: spec_def separate_def)
    next
      case 4
      then show ?thesis using ab(3) by simp
    qed
  qed
  have "distinct (map ga_index (insert_by_offset ?new as))"
  proof -
    have "mset (map ga_index (insert_by_offset ?new as)) = mset (k # map ga_index as)"
      by (simp add: insert_by_offset_mset)
    moreover have "distinct (k # map ga_index as)" using inv k(1) by (auto simp: greedy_inv_def)
    ultimately show ?thesis using mset_eq_imp_distinct_iff by blast
  qed
  then show ?thesis
    unfolding greedy_inv_def insert_by_offset_set
    using insert_by_offset_sorted [OF srt] inv le sum pair
    by (auto simp: greedy_inv_def spec_def image_insert intro: le_max_iff_disj [THEN iffD2])
qed

lemma greedy_loop_inv:
  assumes "greedy_inv order K as tot" "finite K" "distinct ks" "set ks \<inter> K = {}"
  shows "greedy_inv order (K \<union> set ks) (fst (greedy_loop order ks as tot)) (snd (greedy_loop order ks as tot))"
  using assms
proof (induction ks arbitrary: K as tot)
  case (Cons k ks)
  have "k \<notin> K" using Cons.prems by auto
  from Cons.IH [OF greedy_step [OF Cons.prems(1) this Cons.prems(2)]] Cons.prems
  show ?case by (auto simp: Let_def)
qed simp

text \<open>\<open>order\<close> lists the specifications with their input positions, each once.\<close>

definition spec_order :: "alloc_spec list \<Rightarrow> (alloc_spec \<times> nat) list \<Rightarrow> bool" where
  "spec_order specs order \<longleftrightarrow> mset order = mset (zip specs [0..<length specs])"

lemma spec_order_facts:
  assumes "spec_order specs order"
  shows "length order = length specs" "distinct (map snd order)" "set (map snd order) = {..<length specs}"
    "k < length order \<Longrightarrow> fst (order ! k) = specs ! snd (order ! k)"
proof -
  have m: "mset order = mset (zip specs [0..<length specs])" using assms by (simp add: spec_order_def)
  show len: "length order = length specs" using mset_eq_length [OF m] by simp
  have s: "mset (map snd order) = mset [0..<length specs]"
    using arg_cong [OF m, of "image_mset snd"] by (simp flip: mset_map)
  show "distinct (map snd order)" using s mset_eq_imp_distinct_iff [OF s] by simp
  show "set (map snd order) = {..<length specs}" using mset_eq_setD [OF s] by (simp add: atLeast0LessThan)
  show "fst (order ! k) = specs ! snd (order ! k)" if "k < length order"
  proof -
    have "order ! k \<in> set (zip specs [0..<length specs])" using mset_eq_setD [OF m] nth_mem [OF that] by blast
    then show ?thesis by (auto simp: set_zip)
  qed
qed

lemma sort_key_index:
  assumes "distinct (map f xs)" "f ` set xs = {..<n}"
  shows "map f (sort_key f xs) = [0..<n]"
proof (rule sorted_distinct_set_unique)
  show "distinct (map f (sort_key f xs))"
    using assms(1) mset_eq_imp_distinct_iff [of "map f (sort_key f xs)" "map f xs"] by simp
  show "set (map f (sort_key f xs)) = set [0..<n]" using assms(2) by (simp add: atLeast0LessThan)
qed simp_all

lemma greedy_on_valid:
  assumes o: "spec_order specs order"
  shows "valid_plan specs (greedy_on order)"
proof -
  note facts = spec_order_facts [OF o]
  let ?n = "length specs"
  obtain as tot where l: "greedy_loop order [0..<length order] [] 0 = (as, tot)" by fastforce
  have "greedy_inv order {} [] 0" by (simp add: greedy_inv_def)
  from greedy_loop_inv [OF this, of "[0..<length order]"] have inv: "greedy_inv order {..<?n} as tot"
    using l facts(1) by (simp add: atLeast0LessThan)
  have in_range: "ga_index a < ?n" if "a \<in> set as" for a using inv that by (auto simp: greedy_inv_def)
  have inp: "ga_input a = snd (order ! ga_index a)" "ga_size a = as_size (specs ! ga_input a)" "ga_offset a + ga_size a \<le> tot"
    if "a \<in> set as" for a
    using inv that in_range [OF that] facts(1,4) by (auto simp: greedy_inv_def)
  have inj: "inj_on (\<lambda>k. snd (order ! k)) {..<?n}"
    using facts(1,2) by (auto simp: inj_on_def distinct_conv_nth)
  have map_in: "map ga_input as = map (\<lambda>k. snd (order ! k)) (map ga_index as)" using inp(1) by simp
  have gi: "distinct (map ga_index as)" "ga_index ` set as = {..<?n}" using inv by (simp_all add: greedy_inv_def)
  have dist: "distinct (map ga_input as)" by (subst map_in, subst distinct_map) (use gi inj in simp)
  have img: "ga_input ` set as = {..<?n}"
  proof -
    have "ga_input ` set as = (\<lambda>k. snd (order ! k)) ` ga_index ` set as" using inp(1) by (auto simp: image_image)
    also have "\<dots> = snd ` ((!) order) ` {..<length order}" using gi(2) facts(1) by (simp add: image_image)
    also have "((!) order) ` {..<length order} = set order" by (auto simp: set_conv_nth)
    also have "snd ` set order = set (map snd order)" by simp
    finally show ?thesis using facts(3) by simp
  qed
  let ?s = "sort_key ga_input as"
  have idx: "map ga_input ?s = [0..<?n]" using sort_key_index [OF dist img] .
  have len: "length ?s = ?n" using arg_cong [OF idx, of length] by simp
  have nth: "ga_input (?s ! i) = i" "?s ! i \<in> set as" if "i < ?n" for i
  proof -
    show "ga_input (?s ! i) = i" using arg_cong [OF idx, of "\<lambda>xs. xs ! i"] that len by simp
    show "?s ! i \<in> set as" using nth_mem [of i ?s] that len by simp
  qed
  have sep: "separate (ga_offset (?s ! i)) (as_size (specs ! i)) (ga_offset (?s ! j)) (as_size (specs ! j))"
    if ij: "i < ?n" "j < ?n" "i \<noteq> j" "\<not> not_overlapping_with (specs ! i) (specs ! j)" for i j
  proof -
    have "ga_index (?s ! i) \<noteq> ga_index (?s ! j)" using nth [OF ij(1)] nth [OF ij(2)] inp(1) ij(3) by metis
    moreover have "fst (order ! ga_index (?s ! i)) = specs ! i" "fst (order ! ga_index (?s ! j)) = specs ! j"
      using facts(1,4) in_range nth ij inp(1) by metis+
    ultimately have "separate (ga_offset (?s ! i)) (ga_size (?s ! i)) (ga_offset (?s ! j)) (ga_size (?s ! j))"
      using inv nth(2) ij unfolding greedy_inv_def by metis
    then show ?thesis using inp(2) nth ij by simp
  qed
  have tot: "tot \<le> sum_list (map as_size specs)"
  proof -
    have "sum (\<lambda>k. as_size (fst (order ! k))) {..<?n} = sum_list (map (\<lambda>p. as_size (fst p)) order)"
      using facts(1) by (simp add: sum_list_sum_nth atLeast0LessThan)
    also have "\<dots> = sum_list (map (\<lambda>p. as_size (fst p)) (zip specs [0..<?n]))"
    proof -
      have "mset (map (\<lambda>p. as_size (fst p)) order) = mset (map (\<lambda>p. as_size (fst p)) (zip specs [0..<?n]))"
        using o by (simp add: spec_order_def)
      then show ?thesis by (metis sum_mset_sum_list)
    qed
    also have "map (\<lambda>p. as_size (fst p)) (zip specs [0..<?n]) = map as_size (map fst (zip specs [0..<?n]))"
      by (simp only: map_map comp_def)
    also have "map fst (zip specs [0..<?n]) = specs" by simp
    finally show ?thesis using inv by (simp add: greedy_inv_def)
  qed
  have each: "ga_size (?s ! i) = as_size (specs ! i)" "ga_offset (?s ! i) + as_size (specs ! i) \<le> tot" if "i < ?n" for i
    using inp(2,3) [OF nth(2) [OF that]] nth(1) [OF that] by simp_all
  show ?thesis
    unfolding valid_plan_def greedy_on_def l
    using len each sep tot by simp
qed

lemma prepare_spec_order: "spec_order specs (prepare_allocation_specs specs)"
  by (simp add: spec_order_def prepare_allocation_specs_def)

lemma prepare_descending: "sorted_wrt (\<lambda>p q. as_size (fst p) \<ge> as_size (fst q)) (prepare_allocation_specs specs)"
proof -
  have "sorted (map (\<lambda>p. as_size (fst p)) (sort_key (\<lambda>p. as_size (fst p)) (zip specs [0..<length specs])))" by simp
  then show ?thesis unfolding prepare_allocation_specs_def by (simp add: sorted_wrt_rev sorted_wrt_map)
qed

interpretation greedy: layout_algorithm "\<lambda>specs. Inr (GreedyBySizeAllocationPlanner specs)"
  by unfold_locales (simp add: GreedyBySizeAllocationPlanner_def greedy_on_valid prepare_spec_order)

text \<open>
  Property: the plan of \<open>GreedyBySizeAllocationPlanner\<close> gives every
  specification, in the order of the input, an allocation of its size inside the buffer; tensors whose
  lifetimes overlap get disjoint byte ranges; and the buffer is never larger than the sum of the sizes.
  This holds for every order in which the sort may leave the specifications.
\<close>
theorem greedy_plan_valid:
  "(\<forall>order. spec_order specs order \<longrightarrow> valid_plan specs (greedy_on order)) \<and>
   valid_plan specs (GreedyBySizeAllocationPlanner specs)"
  using greedy_on_valid prepare_spec_order by (auto simp: GreedyBySizeAllocationPlanner_def)

definition three_specs :: "alloc_spec list" where
  "three_specs = [\<lparr> as_lifetime = \<lparr> lt_start = 0, lt_end = 2 \<rparr>, as_size = 16 \<rparr>,
     \<lparr> as_lifetime = \<lparr> lt_start = 1, lt_end = 3 \<rparr>, as_size = 32 \<rparr>,
     \<lparr> as_lifetime = \<lparr> lt_start = 3, lt_end = 4 \<rparr>, as_size = 16 \<rparr>]"

theorem greedy_plan_valid_witness:
  "valid_plan three_specs (greedy_on (zip three_specs [0, 1, 2]))"
  using greedy_plan_valid [of three_specs] by (simp add: spec_order_def three_specs_def upt_rec)

end
