(* ===== verification/AliasAnalysis.thy ===== *)
theory AliasAnalysis
  imports NativeGraph LayoutAlgorithms "HOL-Library.AList"
begin

text \<open>
  \<open>torch/nativert/executor/memory/AliasAnalyzer.cpp\<close> and \<open>FunctionSchema.cpp\<close>: which values share the
  storage of another value, and from which node to which node each value is alive. The hash maps of the
  code are association lists, the hash sets lists without repetition.
\<close>

section \<open>Function schemas\<close>

datatype OpKernelKind = kPrimKernel | kStaticDispatchKernel | kInterpreterFallbackKernel
  | kNativeStaticDispatchKernel | kTritonKernel

text \<open>
  The part of \<open>c10::FunctionSchema\<close> that is consulted: \<open>fs_may_contain_alias o i\<close> is the answer of
  \<open>may_contain_alias\<close> for output \<open>o\<close> and input \<open>i\<close>.
\<close>

record function_schema =
  fs_aliasing_spec :: "(nat \<times> nat) list"   \<comment> \<open>input index, output index\<close>
  fs_kernel_kind :: OpKernelKind
  fs_vararg :: bool
  fs_arguments :: nat
  fs_varret :: bool
  fs_returns :: nat
  fs_may_contain_alias :: "nat \<Rightarrow> nat \<Rightarrow> bool"

definition schema_alias :: "function_schema \<Rightarrow> nat \<Rightarrow> nat \<Rightarrow> bool" where
  "schema_alias s input_idx output_idx =
     (if (input_idx, output_idx) \<in> set (fs_aliasing_spec s) then True
      else if fs_vararg s \<and> input_idx \<ge> fs_arguments s then True
      else if fs_varret s \<and> output_idx \<ge> fs_returns s then True
      else fs_may_contain_alias s output_idx input_idx)"

type_synonym schemas = "string \<Rightarrow> function_schema option"

section \<open>The analysis\<close>

record alias_state =
  aa_aliases :: "(vref \<times> vref list) list"
  aa_lifetimes :: "(vref \<times> lifetime) list"
  aa_outputs :: "vref list"              \<comment> \<open>\<open>values_associated_with_outputs_\<close>\<close>
  aa_alive :: "vref list list"           \<comment> \<open>\<open>alive_values_at_time_\<close>\<close>

definition emplace :: "'a \<Rightarrow> 'a list \<Rightarrow> 'a list" where
  "emplace x xs = (if x \<in> set xs then xs else xs @ [x])"

definition is_alias :: "alias_state \<Rightarrow> vref \<Rightarrow> bool" where
  "is_alias st v \<longleftrightarrow> map_of (aa_aliases st) v \<noteq> None"

definition get_sources_of_alias :: "alias_state \<Rightarrow> vref \<Rightarrow> vref list option" where
  "get_sources_of_alias st v = map_of (aa_aliases st) v"

definition aa_lifetime :: "alias_state \<Rightarrow> vref \<Rightarrow> lifetime result" where
  "aa_lifetime st v = (case map_of (aa_lifetimes st) v of None \<Rightarrow> Inl (StdOutOfRange ''lifetimes'') | Some l \<Rightarrow> Inr l)"

definition create_or_update_lifetime :: "vref \<Rightarrow> nat \<Rightarrow> alias_state \<Rightarrow> alias_state" where
  "create_or_update_lifetime v i st = st\<lparr> aa_lifetimes := AList.update v
     (case map_of (aa_lifetimes st) v of None \<Rightarrow> \<lparr> lt_start = i, lt_end = i \<rparr> | Some l \<Rightarrow> l\<lparr> lt_end := i \<rparr>) (aa_lifetimes st) \<rparr>"

definition emplace_alias :: "vref \<Rightarrow> vref \<Rightarrow> alias_state \<Rightarrow> alias_state" where
  "emplace_alias output input st = st\<lparr> aa_aliases := AList.update output
     (emplace input (case map_of (aa_aliases st) output of None \<Rightarrow> [] | Some s \<Rightarrow> s)) (aa_aliases st) \<rparr>"

definition unpack_element :: "nat \<Rightarrow> alias_state \<Rightarrow> vref \<times> vref \<Rightarrow> alias_state result" where
  "unpack_element i st = (\<lambda>(input, output).
     bindE (check (input \<noteq> output) (CheckError ''input != output'')) (\<lambda>_.
       Inr (emplace_alias output input (create_or_update_lifetime output i (create_or_update_lifetime input i st)))))"

text \<open>
  \<open>None\<close> when the rule does not apply. \<open>node.inputs()[0]\<close> of a \<open>prim.ListUnpack\<close> without inputs is undefined
  in the code and an error here.
\<close>

definition update_aliases_if_packed_listunpack ::
  "graph \<Rightarrow> gnode \<Rightarrow> nat \<Rightarrow> alias_state \<Rightarrow> alias_state option result" where
  "update_aliases_if_packed_listunpack g node i st =
     (if n_target node \<noteq> ''prim.ListUnpack'' then Inr None
      else case input_values node of [] \<Rightarrow> Inl (StdOutOfRange ''inputs'')
      | list # _ \<Rightarrow>
        let p = producer g False list in
        if p \<noteq> nullptr \<and> n_target (g_node g p) \<noteq> ''prim.ListPack'' then Inr None
        else bindE (getListElements g list) (\<lambda>list_elems.
          bindE (check (length list_elems = length (n_outputs node)) (CheckError ''list_elems.size() == node.numOutputs()'')) (\<lambda>_.
            bindE (foldE (unpack_element i) st (zip list_elems (n_outputs node))) (\<lambda>st'. Inr (Some st')))))"

definition maybe_update_aliases_from_schema :: "schemas \<Rightarrow> gnode \<Rightarrow> alias_state \<Rightarrow> alias_state" where
  "maybe_update_aliases_from_schema schemas node st =
     foldl (\<lambda>st (j, k).
        if (case schemas (n_target node) of None \<Rightarrow> True | Some s \<Rightarrow> schema_alias s j k)
        then emplace_alias (n_outputs node ! k) (input_values node ! j) st else st)
       st (List.product [0..<length (n_inputs node)] [0..<length (n_outputs node)])"

definition analyze_node :: "graph \<Rightarrow> schemas \<Rightarrow> alias_state \<Rightarrow> nat \<times> gnode \<Rightarrow> alias_state result" where
  "analyze_node g schemas st = (\<lambda>(i, node).
     let st1 = foldl (\<lambda>st v. create_or_update_lifetime v i st) st (input_values node);
         st2 = foldl (\<lambda>st v. create_or_update_lifetime v i st) st1 (n_outputs node)
     in bindE (update_aliases_if_packed_listunpack g node i st2) (\<lambda>applied.
        case applied of Some st3 \<Rightarrow> Inr st3 | None \<Rightarrow> Inr (maybe_update_aliases_from_schema schemas node st2)))"

definition lifetime_or_default :: "alias_state \<Rightarrow> vref \<Rightarrow> lifetime" where
  "lifetime_or_default st v = (case map_of (aa_lifetimes st) v of None \<Rightarrow> \<lparr> lt_start = 0, lt_end = 0 \<rparr> | Some l \<Rightarrow> l)"

definition extend_source :: "nat \<Rightarrow> vref \<Rightarrow> alias_state \<times> vref list \<Rightarrow> vref \<Rightarrow> alias_state \<times> vref list" where
  "extend_source num_nodes input = (\<lambda>(st, extended) src.
     if src \<in> set extended then (st, extended)
     else let eol = lt_end (lifetime_or_default st input);
              st1 = st\<lparr> aa_lifetimes := AList.update src ((lifetime_or_default st src)\<lparr> lt_end := eol \<rparr>) (aa_lifetimes st) \<rparr>;
              st2 = (if \<not> is_alias st1 src \<and> eol = num_nodes - 1 then st1\<lparr> aa_outputs := emplace src (aa_outputs st1) \<rparr> else st1)
          in (st2, extended @ [src]))"

definition extend_input :: "nat \<Rightarrow> alias_state \<times> vref list \<Rightarrow> vref \<Rightarrow> alias_state \<times> vref list" where
  "extend_input num_nodes = (\<lambda>(st, extended) input. case map_of (aa_aliases st) input of
       None \<Rightarrow> (st, extended)
     | Some alias \<Rightarrow> foldl (extend_source num_nodes input) (st, extended) alias)"

definition maybe_extend_lifetimes :: "gnode list \<Rightarrow> alias_state \<Rightarrow> alias_state" where
  "maybe_extend_lifetimes ns st =
     fst (foldl (\<lambda>s node. foldl (extend_input (length ns)) s (input_values node)) (st, []) (rev ns))"

definition filter_source :: "(vref \<times> vref list) list \<Rightarrow> vref list \<Rightarrow> vref \<Rightarrow> vref list" where
  "filter_source aliases filtered src = (case map_of aliases src of
       None \<Rightarrow> emplace src filtered
     | Some srcs_of_src \<Rightarrow>
         foldl (\<lambda>fs s. if map_of aliases s = None then emplace s fs else fs) filtered srcs_of_src)"

definition squash_output :: "(vref \<times> vref list) list \<Rightarrow> vref \<Rightarrow> (vref \<times> vref list) list" where
  "squash_output aliases output = (case map_of aliases output of
       None \<Rightarrow> aliases
     | Some srcs \<Rightarrow> AList.update output (foldl (filter_source aliases) [] srcs) aliases)"

definition squash_deep_aliases :: "gnode list \<Rightarrow> alias_state \<Rightarrow> alias_state" where
  "squash_deep_aliases ns st =
     st\<lparr> aa_aliases := foldl (\<lambda>al node. foldl squash_output al (n_outputs node)) (aa_aliases st) ns \<rparr>"

definition alive_at :: "(vref \<times> lifetime) list \<Rightarrow> nat \<Rightarrow> vref list" where
  "alive_at lifetimes t = map fst (filter (\<lambda>(v, l). lt_start l \<le> t \<and> t \<le> lt_end l) lifetimes)"

definition no_aliases :: alias_state where
  "no_aliases = \<lparr> aa_aliases = [], aa_lifetimes = [], aa_outputs = [], aa_alive = [] \<rparr>"

definition AliasAnalyzer :: "graph \<Rightarrow> schemas \<Rightarrow> alias_state result" where
  "AliasAnalyzer g schemas =
     bindE (foldE (analyze_node g schemas) no_aliases (enumerate 0 (nodes g))) (\<lambda>st.
       let st1 = squash_deep_aliases (nodes g) (maybe_extend_lifetimes (nodes g) st);
           st2 = foldl (\<lambda>st out. if is_alias st out then st else st\<lparr> aa_outputs := emplace out (aa_outputs st) \<rparr>) st1 (graph_outputs g)
       in Inr (st2\<lparr> aa_alive := map (alive_at (aa_lifetimes st2)) [0..<length (nodes g)] \<rparr>))"

definition alive_values_at_time :: "alias_state \<Rightarrow> nat \<Rightarrow> vref list result" where
  "alive_values_at_time st time =
     bindE (check (time < length (aa_alive st)) (CheckError ''time < alive_values_at_time_.size()'')) (\<lambda>_. Inr (aa_alive st ! time))"

lemma set_emplace [simp]: "set (emplace x xs) = insert x (set xs)"
  by (auto simp: emplace_def)

lemma distinct_emplace [simp]: "distinct xs \<Longrightarrow> distinct (emplace x xs)"
  by (simp add: emplace_def)


section \<open>Squashing of deep aliases\<close>

type_synonym alias_map = "(vref \<times> vref list) list"

definition sources :: "alias_map \<Rightarrow> vref \<Rightarrow> vref set" where
  "sources al x = (case map_of al x of None \<Rightarrow> {} | Some s \<Rightarrow> set s)"

definition alias_edges :: "alias_map \<Rightarrow> (vref \<times> vref) set" where
  "alias_edges al = {(x, s). s \<in> sources al x}"

text \<open>The values that are not aliases themselves and that \<open>x\<close> reaches along alias edges.\<close>

definition roots :: "alias_map \<Rightarrow> vref \<Rightarrow> vref set" where
  "roots al x = {r. (x, r) \<in> (alias_edges al)\<^sup>+ \<and> map_of al r = None}"

lemma sources_None: "map_of al x = None \<Longrightarrow> sources al x = {}"
  by (simp add: sources_def)

lemma roots_unfold: "roots al x = (\<Union>s \<in> sources al x. if map_of al s = None then {s} else roots al s)"
proof -
  have step: "(x, r) \<in> (alias_edges al)\<^sup>+ \<longleftrightarrow> (\<exists>s \<in> sources al x. s = r \<or> (s, r) \<in> (alias_edges al)\<^sup>+)" for r
    by (subst trancl_unfold_left) (auto simp: alias_edges_def rtrancl_eq_or_trancl)
  have dead: "(s, r) \<notin> (alias_edges al)\<^sup>+" if "map_of al s = None" for s r
    using that by (auto simp: alias_edges_def sources_None dest: tranclD)
  have "r \<in> roots al x \<longleftrightarrow> (\<exists>s \<in> sources al x. r \<in> (if map_of al s = None then {s} else roots al s))" for r
  proof
    assume "r \<in> roots al x"
    then obtain s where s: "s \<in> sources al x" "s = r \<or> (s, r) \<in> (alias_edges al)\<^sup>+" "map_of al r = None"
      by (auto simp: roots_def step)
    then show "\<exists>s \<in> sources al x. r \<in> (if map_of al s = None then {s} else roots al s)"
      using dead [of s r] by (intro bexI [of _ s]) (auto simp: roots_def)
  qed (auto simp: roots_def step split: if_splits)
  then show ?thesis by (intro set_eqI) (simp only: UN_iff)
qed

lemma roots_are_owners: "r \<in> roots al x \<Longrightarrow> map_of al r = None"
  by (simp add: roots_def)

lemma filter_inner:
  "set (foldl (\<lambda>fs s. if map_of al s = None then emplace s fs else fs) acc ss) = set acc \<union> {s \<in> set ss. map_of al s = None}"
  by (induction ss arbitrary: acc) auto

lemma filter_sources:
  "set (foldl (filter_source al) acc srcs) =
     set acc \<union> (\<Union>s \<in> set srcs. if map_of al s = None then {s} else {t \<in> sources al s. map_of al t = None})"
proof (induction srcs arbitrary: acc)
  case (Cons s srcs)
  have "set (filter_source al acc s) = set acc \<union> (if map_of al s = None then {s} else {t \<in> sources al s. map_of al t = None})"
    by (auto simp: filter_source_def filter_inner sources_def split: option.splits)
  then show ?case using Cons [of "filter_source al acc s"] by (simp only: foldl.simps list.set UN_insert Un_assoc)
qed simp

lemma map_of_squash_output:
  "map_of (squash_output al out) x = (if x = out \<and> map_of al out \<noteq> None
     then Some (foldl (filter_source al) [] (the (map_of al out))) else map_of al x)"
  by (auto simp: squash_output_def update_conv' split: option.splits)

definition squashed :: "alias_map \<Rightarrow> vref set \<Rightarrow> alias_map \<Rightarrow> bool" where
  "squashed al visited al' \<longleftrightarrow> (\<forall>x. (map_of al' x = None) = (map_of al x = None)) \<and>
     (\<forall>x \<in> visited. sources al' x = roots al x) \<and> (\<forall>x. x \<notin> visited \<longrightarrow> map_of al' x = map_of al x)"

lemma squash_output_step:
  assumes sq: "squashed al visited al'" and topo: "\<And>s. s \<in> sources al out \<Longrightarrow> map_of al s \<noteq> None \<Longrightarrow> s \<in> visited"
  shows "squashed al (insert out visited) (squash_output al' out)"
proof -
  have key: "(map_of al' x = None) = (map_of al x = None)" for x using sq by (simp add: squashed_def)
  have vis: "sources al' x = roots al x" if "x \<in> visited" for x using sq that by (simp add: squashed_def)
  have new: "sources (squash_output al' out) out = roots al out"
  proof (cases "map_of al out")
    case None
    then show ?thesis using key [of out] roots_unfold [of al out] by (simp add: sources_def map_of_squash_output)
  next
    case (Some srcs)
    then obtain srcs' where s': "map_of al' out = Some srcs'" using key [of out] by auto
    have "sources (squash_output al' out) out = set (foldl (filter_source al') [] srcs')"
      using s' by (simp add: sources_def map_of_squash_output)
    also have "\<dots> = (\<Union>s \<in> sources al' out. if map_of al s = None then {s} else {t \<in> sources al' s. map_of al t = None})"
      by (simp only: filter_sources key) (simp add: sources_def s')
    also have "\<dots> = roots al out"
    proof (cases "out \<in> visited")
      case True
      then have "sources al' out = roots al out" by (rule vis)
      then show ?thesis using roots_are_owners by auto
    next
      case False
      then have same: "sources al' out = sources al out" using sq by (simp add: squashed_def sources_def)
      have "(if map_of al s = None then {s} else {t \<in> sources al' s. map_of al t = None}) =
          (if map_of al s = None then {s} else roots al s)" if "s \<in> sources al out" for s
        using topo [OF that] vis roots_are_owners by auto
      then show ?thesis unfolding same roots_unfold [of al out] by (intro SUP_cong refl) simp
    qed
    finally show ?thesis .
  qed
  show ?thesis
    unfolding squashed_def
  proof (intro conjI allI ballI impI)
    fix x show "(map_of (squash_output al' out) x = None) = (map_of al x = None)"
      using key by (auto simp: map_of_squash_output)
  next
    fix x assume "x \<in> insert out visited"
    then show "sources (squash_output al' out) x = roots al x"
      using new vis [of x] by (cases "x = out") (auto simp: sources_def map_of_squash_output)
  next
    fix x assume "x \<notin> insert out visited"
    then show "map_of (squash_output al' out) x = map_of al x"
      using sq by (simp add: squashed_def map_of_squash_output)
  qed
qed

text \<open>Every source that is an alias is produced before the value that aliases it.\<close>

definition sources_before :: "alias_map \<Rightarrow> vref list \<Rightarrow> bool" where
  "sources_before al outs \<longleftrightarrow> (\<forall>k < length outs. \<forall>s \<in> sources al (outs ! k). map_of al s \<noteq> None \<longrightarrow> s \<in> set (take k outs))"

lemma squash_all:
  assumes "sources_before al outs"
  shows "squashed al (set outs) (foldl squash_output al outs)"
  using assms
proof (induction outs rule: rev_induct)
  case Nil
  then show ?case by (simp add: squashed_def)
next
  case (snoc x xs)
  have "sources_before al xs" using snoc.prems by (auto simp: sources_before_def nth_append)
  moreover have "\<And>s. s \<in> sources al x \<Longrightarrow> map_of al s \<noteq> None \<Longrightarrow> s \<in> set xs"
    using snoc.prems unfolding sources_before_def by (metis append_eq_conv_conj length_append_singleton lessI nth_append_length)
  ultimately show ?case using snoc.IH squash_output_step [of al "set xs"] by simp
qed

lemma foldl_outputs: "foldl (\<lambda>al node. foldl squash_output al (n_outputs node)) al ns = foldl squash_output al (concat (map n_outputs ns))"
  by (induction ns arbitrary: al) simp_all

text \<open>
  C26: in a graph whose nodes come after the producers of their inputs,
  \<open>squash_deep_aliases\<close> maps every alias the graph produces exactly to the values that own the storage it
  may share: the values that are not aliases themselves and that it reaches over any number of alias steps.
\<close>
theorem squash_gives_owners:
  assumes "sources_before (aa_aliases st) (concat (map n_outputs ns))" "x \<in> set (concat (map n_outputs ns))"
  shows "sources (aa_aliases (squash_deep_aliases ns st)) x = roots (aa_aliases st) x \<and>
    is_alias (squash_deep_aliases ns st) x = is_alias st x"
proof -
  have "squashed (aa_aliases st) (set (concat (map n_outputs ns))) (aa_aliases (squash_deep_aliases ns st))"
    using squash_all [OF assms(1)] by (simp add: squash_deep_aliases_def foldl_outputs)
  then show ?thesis using assms(2) unfolding squashed_def is_alias_def by metis
qed

section \<open>Lifetimes before extension\<close>

text \<open>The values a node touches, with the index of the node, in the order of the calls.\<close>

definition unpack_touches :: "graph \<Rightarrow> gnode \<Rightarrow> vref list" where
  "unpack_touches g node = (if n_target node = ''prim.ListUnpack'' \<and> input_values node \<noteq> [] \<and>
       (let p = producer g False (hd (input_values node)) in p = nullptr \<or> n_target (g_node g p) = ''prim.ListPack'')
     then (case getListElements g (hd (input_values node)) of Inl e \<Rightarrow> [] | Inr es \<Rightarrow> concat (map (\<lambda>(a, b). [a, b]) (zip es (n_outputs node))))
     else [])"

definition touches :: "graph \<Rightarrow> nat \<times> gnode \<Rightarrow> (vref \<times> nat) list" where
  "touches g = (\<lambda>(i, node). map (\<lambda>v. (v, i)) (input_values node @ n_outputs node @ unpack_touches g node))"

definition times_of :: "(vref \<times> nat) list \<Rightarrow> vref \<Rightarrow> nat list" where
  "times_of T v = map snd (filter (\<lambda>p. fst p = v) T)"

definition first_last :: "nat list \<Rightarrow> lifetime option" where
  "first_last is = (if is = [] then None else Some \<lparr> lt_start = hd is, lt_end = List.last is \<rparr>)"

definition life_inv :: "(vref \<times> nat) list \<Rightarrow> alias_state \<Rightarrow> bool" where
  "life_inv T st \<longleftrightarrow> distinct (map fst (aa_lifetimes st)) \<and> (\<forall>v. map_of (aa_lifetimes st) v = first_last (times_of T v))"

lemma life_inv_touch: "life_inv T st \<Longrightarrow> life_inv (T @ [(v, i)]) (create_or_update_lifetime v i st)"
  by (auto simp: life_inv_def create_or_update_lifetime_def update_conv' times_of_def first_last_def distinct_update split: option.splits)

lemma life_inv_touches:
  "life_inv T st \<Longrightarrow> life_inv (T @ map (\<lambda>v. (v, i)) vs) (foldl (\<lambda>st v. create_or_update_lifetime v i st) st vs)"
proof (induction vs arbitrary: T st)
  case (Cons v vs)
  from Cons.IH [OF life_inv_touch [OF Cons.prems, of v i]] show ?case by simp
qed simp

lemma life_inv_emplace_alias [simp]: "life_inv T (emplace_alias out inp st) = life_inv T st"
  by (simp add: life_inv_def emplace_alias_def)

lemma foldl_keeps: "(\<And>s x. P (f s x) = P s) \<Longrightarrow> P (foldl f s xs) = P s"
  by (induction xs arbitrary: s) auto

lemma life_inv_schema [simp]: "life_inv T (maybe_update_aliases_from_schema schemas node st) = life_inv T st"
  unfolding maybe_update_aliases_from_schema_def by (rule foldl_keeps [where P = "life_inv T"]) (simp split: prod.split)

lemma life_inv_unpack:
  assumes "life_inv T st" "foldE (unpack_element i) st ps = Inr st'"
  shows "life_inv (T @ map (\<lambda>v. (v, i)) (concat (map (\<lambda>(a, b). [a, b]) ps))) st'"
  using assms
proof (induction ps arbitrary: T st)
  case (Cons p ps)
  obtain a b where p: "p = (a, b)" by fastforce
  obtain st1 where st1: "unpack_element i st p = Inr st1" "foldE (unpack_element i) st1 ps = Inr st'"
    using Cons.prems(2) by (auto simp: bindE_Inr_iff)
  have "life_inv (T @ [(a, i), (b, i)]) st1"
    using life_inv_touch [OF life_inv_touch [OF Cons.prems(1), of a i], of b i] st1(1)
    by (auto simp: unpack_element_def p bindE_Inr_iff)
  from Cons.IH [OF this st1(2)] show ?case by (simp add: p)
qed simp

lemma life_inv_node:
  assumes inv: "life_inv T st" and an: "analyze_node g schemas st (i, node) = Inr st'"
  shows "life_inv (T @ touches g (i, node)) st'"
proof -
  let ?st2 = "foldl (\<lambda>st v. create_or_update_lifetime v i st) (foldl (\<lambda>st v. create_or_update_lifetime v i st) st (input_values node)) (n_outputs node)"
  have i2: "life_inv (T @ map (\<lambda>v. (v, i)) (input_values node @ n_outputs node)) ?st2"
    using life_inv_touches [OF life_inv_touches [OF inv, of i "input_values node"], of i "n_outputs node"] by simp
  obtain applied where ap: "update_aliases_if_packed_listunpack g node i ?st2 = Inr applied"
      "st' = (case applied of Some st3 \<Rightarrow> st3 | None \<Rightarrow> maybe_update_aliases_from_schema schemas node ?st2)"
    using an by (auto simp: analyze_node_def Let_def bindE_Inr_iff split: option.splits)
  show ?thesis
  proof (cases applied)
    case None
    then have "unpack_touches g node = []"
      using ap(1) by (auto simp: update_aliases_if_packed_listunpack_def unpack_touches_def Let_def bindE_Inr_iff
          split: if_splits list.splits)
    then show ?thesis using i2 ap(2) None by (simp add: touches_def)
  next
    case (Some st3)
    then obtain list rest es where u: "n_target node = ''prim.ListUnpack''" "input_values node = list # rest"
        "producer g False list = nullptr \<or> n_target (g_node g (producer g False list)) = ''prim.ListPack''"
        "getListElements g list = Inr es" "foldE (unpack_element i) ?st2 (zip es (n_outputs node)) = Inr st3"
      using ap(1) by (auto simp: update_aliases_if_packed_listunpack_def Let_def bindE_Inr_iff split: if_splits list.splits)
    have "unpack_touches g node = concat (map (\<lambda>(a, b). [a, b]) (zip es (n_outputs node)))"
      using u by (auto simp: unpack_touches_def Let_def)
    then show ?thesis using life_inv_unpack [OF i2 u(5)] ap(2) Some by (simp add: touches_def)
  qed
qed

lemma life_inv_nodes:
  assumes "life_inv T st" "foldE (analyze_node g schemas) st ns = Inr st'"
  shows "life_inv (T @ concat (map (touches g) ns)) st'"
  using assms
proof (induction ns arbitrary: T st)
  case (Cons n ns)
  obtain i node where n: "n = (i, node)" by fastforce
  obtain st1 where st1: "analyze_node g schemas st n = Inr st1" "foldE (analyze_node g schemas) st1 ns = Inr st'"
    using Cons.prems(2) by (auto simp: bindE_Inr_iff)
  from Cons.IH [OF life_inv_node [OF Cons.prems(1)] st1(2)] st1(1) show ?case by (simp add: n)
qed simp

section \<open>Extension of lifetimes\<close>

definition end_of :: "alias_state \<Rightarrow> vref \<Rightarrow> nat" where
  "end_of st v = lt_end (lifetime_or_default st v)"

text \<open>No source of an alias is an alias itself.\<close>

definition shallow :: "alias_map \<Rightarrow> bool" where
  "shallow al \<longleftrightarrow> (\<forall>a s. s \<in> sources al a \<longrightarrow> map_of al s = None)"

text \<open>
  What the extension has done once the uses \<open>P\<close> have been visited: a value that is the source of a visited alias
  has taken the end of the first one visited.
\<close>

definition extension :: "alias_state \<Rightarrow> vref list \<Rightarrow> alias_state \<times> vref list \<Rightarrow> bool" where
  "extension st0 P = (\<lambda>(st, extended). aa_aliases st = aa_aliases st0 \<and> (distinct (map fst (aa_lifetimes st0)) \<longrightarrow> distinct (map fst (aa_lifetimes st))) \<and>
     (\<forall>w. w \<in> set extended \<longleftrightarrow> (\<exists>a \<in> set P. w \<in> sources (aa_aliases st0) a)) \<and>
     (\<forall>w. map_of (aa_lifetimes st) w = (case find (\<lambda>a. w \<in> sources (aa_aliases st0) a) P of
          None \<Rightarrow> map_of (aa_lifetimes st0) w
        | Some a \<Rightarrow> Some ((lifetime_or_default st0 w)\<lparr> lt_end := end_of st0 a \<rparr>))))"

lemma extend_source_fields:
  assumes "extend_source N input (st, extended) src = (st', extended')"
  shows "aa_aliases st' = aa_aliases st" "set extended' = insert src (set extended)"
    "map_of (aa_lifetimes st') w = (if w = src \<and> src \<notin> set extended
       then Some ((lifetime_or_default st src)\<lparr> lt_end := end_of st input \<rparr>) else map_of (aa_lifetimes st) w)"
    "distinct (map fst (aa_lifetimes st)) \<Longrightarrow> distinct (map fst (aa_lifetimes st'))"
  using assms by (auto simp: extend_source_def Let_def update_conv' end_of_def distinct_update split: if_splits)

lemma extend_sources:
  assumes "foldl (extend_source N input) (st, extended) srcs = (st', extended')" "input \<notin> set srcs"
  shows "aa_aliases st' = aa_aliases st \<and> set extended' = set srcs \<union> set extended \<and>
    (distinct (map fst (aa_lifetimes st)) \<longrightarrow> distinct (map fst (aa_lifetimes st'))) \<and>
    (\<forall>w. map_of (aa_lifetimes st') w = (if w \<in> set srcs \<and> w \<notin> set extended
       then Some ((lifetime_or_default st w)\<lparr> lt_end := end_of st input \<rparr>) else map_of (aa_lifetimes st) w))"
  using assms
proof (induction srcs arbitrary: st extended)
  case (Cons s srcs)
  obtain st1 ext1 where s1: "extend_source N input (st, extended) s = (st1, ext1)" by fastforce
  note f = extend_source_fields [OF s1]
  have same: "lifetime_or_default st1 w = lifetime_or_default st w" if "w \<noteq> s \<or> s \<in> set extended" for w
    using f(3) [of w] that by (auto simp: lifetime_or_default_def)
  have e: "end_of st1 input = end_of st input" using same [of input] Cons.prems(2) by (simp add: end_of_def)
  have IH: "aa_aliases st' = aa_aliases st1 \<and> set extended' = set srcs \<union> set ext1 \<and>
      (distinct (map fst (aa_lifetimes st1)) \<longrightarrow> distinct (map fst (aa_lifetimes st'))) \<and>
      (\<forall>w. map_of (aa_lifetimes st') w = (if w \<in> set srcs \<and> w \<notin> set ext1
         then Some ((lifetime_or_default st1 w)\<lparr> lt_end := end_of st1 input \<rparr>) else map_of (aa_lifetimes st1) w))"
    using Cons.IH [of st1 ext1] Cons.prems s1 by simp
  show ?case using IH f same e by (auto simp del: fun_upd_apply)
qed simp

lemma find_snoc: "find P (xs @ [x]) = (case find P xs of None \<Rightarrow> if P x then Some x else None | Some y \<Rightarrow> Some y)"
  by (induction xs) auto

lemma extension_step:
  assumes ext: "extension st0 P (st, extended)" and sh: "shallow (aa_aliases st0)"
  shows "extension st0 (P @ [input]) (extend_input N (st, extended) input)"
proof -
  let ?al = "aa_aliases st0"
  have al: "aa_aliases st = ?al" using ext by (simp add: extension_def)
  have not_src: "find (\<lambda>a. input \<in> sources ?al a) P = None" if "map_of ?al input = Some srcs" for srcs
    using sh that by (auto simp: shallow_def find_None_iff)
  show ?thesis
  proof (cases "map_of ?al input")
    case None
    then have "w \<notin> sources ?al input" for w by (simp add: sources_None)
    then show ?thesis using ext None al by (simp add: extension_def extend_input_def find_snoc split: option.split)
  next
    case (Some srcs)
    obtain st' ext' where f: "foldl (extend_source N input) (st, extended) srcs = (st', ext')" by fastforce
    have src: "sources ?al input = set srcs" using Some by (simp add: sources_def)
    have "input \<notin> set srcs" using sh Some src unfolding shallow_def by (metis option.distinct(1))
    note res = extend_sources [OF f this]
    have end_in: "end_of st input = end_of st0 input"
      using ext not_src [OF Some] by (simp add: extension_def end_of_def lifetime_or_default_def)
    have start: "find (\<lambda>a. w \<in> sources ?al a) P = None \<Longrightarrow> lifetime_or_default st w = lifetime_or_default st0 w" for w
      using ext by (simp add: extension_def lifetime_or_default_def)
    have fresh: "w \<notin> set extended \<longleftrightarrow> find (\<lambda>a. w \<in> sources ?al a) P = None" for w
      using ext by (auto simp: extension_def find_None_iff)
    have "map_of (aa_lifetimes st') w = (case find (\<lambda>a. w \<in> sources ?al a) (P @ [input]) of
          None \<Rightarrow> map_of (aa_lifetimes st0) w
        | Some a \<Rightarrow> Some ((lifetime_or_default st0 w)\<lparr> lt_end := end_of st0 a \<rparr>))" for w
    proof (cases "find (\<lambda>a. w \<in> sources ?al a) P")
      case None
      then have "w \<notin> set extended" "lifetime_or_default st w = lifetime_or_default st0 w" "map_of (aa_lifetimes st) w = map_of (aa_lifetimes st0) w"
        using fresh start ext by (simp_all add: extension_def)
      then show ?thesis using res None src end_in by (simp add: find_snoc)
    next
      case (Some a)
      then have "w \<in> set extended" using fresh [of w] by auto
      then have "map_of (aa_lifetimes st') w = map_of (aa_lifetimes st) w" using res by simp
      then show ?thesis using Some ext by (simp add: find_snoc extension_def)
    qed
    then show ?thesis using res al f Some src ext by (auto simp: extension_def extend_input_def)
  qed
qed

lemma extension_all:
  assumes "extension st0 P s" "shallow (aa_aliases st0)"
  shows "extension st0 (P @ us) (foldl (extend_input N) s us)"
  using assms
proof (induction us arbitrary: P s)
  case (Cons u us)
  then show ?case using extension_step [of st0 P "fst s" "snd s" u N] Cons.IH [of "P @ [u]"] by simp
qed simp

lemma extend_nodes:
  "foldl (\<lambda>s node. foldl (extend_input N) s (input_values node)) s ns = foldl (extend_input N) s (concat (map input_values ns))"
  by (induction ns arbitrary: s) simp_all

lemma find_last:
  assumes "find P (concat (map f (rev ns))) = Some a"
  shows "\<exists>i < length ns. a \<in> set (f (ns ! i)) \<and> P a \<and> (\<forall>j < length ns. (\<exists>b \<in> set (f (ns ! j)). P b) \<longrightarrow> j \<le> i)"
  using assms
proof (induction ns rule: rev_induct)
  case (snoc n ns)
  have find_app: "find P (xs @ ys) = (case find P xs of None \<Rightarrow> find P ys | Some y \<Rightarrow> Some y)" for xs ys
    by (induction xs) auto
  show ?case
  proof (cases "find P (f n)")
    case None
    then have none: "\<forall>b \<in> set (f n). \<not> P b" by (simp add: find_None_iff)
    have "find P (concat (map f (rev ns))) = Some a" using snoc.prems None by (simp add: find_app)
    from snoc.IH [OF this] obtain i where "i < length ns" "a \<in> set (f (ns ! i))" "P a"
        "\<forall>j < length ns. (\<exists>b \<in> set (f (ns ! j)). P b) \<longrightarrow> j \<le> i" by blast
    then show ?thesis using none by (intro exI [of _ i]) (auto simp: nth_append less_Suc_eq)
  next
    case (Some b)
    then have "b = a" using snoc.prems by (simp add: find_app)
    then have "a \<in> set (f n)" "P a" using Some by (auto simp: find_Some_iff)
    then show ?thesis by (intro exI [of _ "length ns"]) (auto simp: nth_append)
  qed
qed simp

text \<open>The end of an alias that some node reads is the last node that reads it.\<close>

definition ends_at_last_use :: "gnode list \<Rightarrow> alias_state \<Rightarrow> bool" where
  "ends_at_last_use ns st \<longleftrightarrow> (\<forall>i < length ns. \<forall>a \<in> set (input_values (ns ! i)). is_alias st a \<longrightarrow>
     i \<le> end_of st a \<and> end_of st a < length ns \<and> a \<in> set (input_values (ns ! end_of st a)))"

definition alias_uses :: "gnode list \<Rightarrow> alias_map \<Rightarrow> vref \<Rightarrow> nat set" where
  "alias_uses ns al src = {j. j < length ns \<and> (\<exists>a \<in> set (input_values (ns ! j)). src \<in> sources al a)}"

lemma extended_lifetimes:
  assumes "shallow (aa_aliases st)" "ends_at_last_use ns st"
  shows "map_of (aa_lifetimes (maybe_extend_lifetimes ns st)) v =
    (if alias_uses ns (aa_aliases st) v = {} then map_of (aa_lifetimes st) v
     else Some ((lifetime_or_default st v)\<lparr> lt_end := Max (alias_uses ns (aa_aliases st) v) \<rparr>))"
    "distinct (map fst (aa_lifetimes st)) \<Longrightarrow> distinct (map fst (aa_lifetimes (maybe_extend_lifetimes ns st)))"
proof -
  let ?al = "aa_aliases st" let ?us = "concat (map input_values (rev ns))"
  have "extension st [] (st, [])" by (simp add: extension_def)
  from extension_all [OF this assms(1), of ?us "length ns"]
  have e: "map_of (aa_lifetimes (maybe_extend_lifetimes ns st)) v = (case find (\<lambda>a. v \<in> sources ?al a) ?us of
      None \<Rightarrow> map_of (aa_lifetimes st) v | Some a \<Rightarrow> Some ((lifetime_or_default st v)\<lparr> lt_end := end_of st a \<rparr>))"
    and d: "distinct (map fst (aa_lifetimes st)) \<Longrightarrow> distinct (map fst (aa_lifetimes (maybe_extend_lifetimes ns st)))"
    by (cases "foldl (extend_input (length ns)) (st, []) ?us",
        simp add: maybe_extend_lifetimes_def extend_nodes extension_def)+
  show "distinct (map fst (aa_lifetimes st)) \<Longrightarrow> distinct (map fst (aa_lifetimes (maybe_extend_lifetimes ns st)))" by (rule d)
  show "map_of (aa_lifetimes (maybe_extend_lifetimes ns st)) v =
    (if alias_uses ns ?al v = {} then map_of (aa_lifetimes st) v
     else Some ((lifetime_or_default st v)\<lparr> lt_end := Max (alias_uses ns ?al v) \<rparr>))"
  proof (cases "find (\<lambda>a. v \<in> sources ?al a) ?us")
    case None
    then have "\<forall>n \<in> set ns. \<forall>a \<in> set (input_values n). v \<notin> sources ?al a" by (auto simp: find_None_iff)
    then have "alias_uses ns ?al v = {}" unfolding alias_uses_def using nth_mem by blast
    then show ?thesis using e None by simp
  next
    case (Some a)
    from find_last [OF Some] obtain i where i: "i < length ns" "a \<in> set (input_values (ns ! i))" "v \<in> sources ?al a"
        "\<forall>j < length ns. (\<exists>b \<in> set (input_values (ns ! j)). v \<in> sources ?al b) \<longrightarrow> j \<le> i" by blast
    have "is_alias st a" using i(3) sources_None [of ?al a] by (auto simp: is_alias_def)
    then have "i \<le> end_of st a" "end_of st a < length ns" "a \<in> set (input_values (ns ! end_of st a))"
      using assms(2) i(1,2) by (auto simp: ends_at_last_use_def)
    then have "end_of st a = i" using i(3,4) by fastforce
    moreover have "Max (alias_uses ns ?al v) = i" using i by (intro Max_eqI) (auto simp: alias_uses_def)
    moreover have "alias_uses ns ?al v \<noteq> {}" using i by (auto simp: alias_uses_def)
    ultimately show ?thesis using e Some by simp
  qed
qed

text \<open>
  What the constructor leaves in \<open>lifetimes_\<close>: \<open>T\<close> are all touches of the graph, \<open>st0\<close> the state before
  lifetimes are extended.
\<close>

definition final_lifetime :: "graph \<Rightarrow> alias_state \<Rightarrow> vref \<Rightarrow> lifetime option" where
  "final_lifetime g st0 v =
     (let own = first_last (times_of (concat (map (touches g) (enumerate 0 (nodes g)))) v);
          uses = alias_uses (nodes g) (aa_aliases st0) v
      in if uses = {} then own
         else Some ((case own of None \<Rightarrow> \<lparr> lt_start = 0, lt_end = 0 \<rparr> | Some l \<Rightarrow> l)\<lparr> lt_end := Max uses \<rparr>))"

definition set_outputs :: "alias_state \<Rightarrow> vref list \<Rightarrow> alias_state" where
  "set_outputs st outs = foldl (\<lambda>st out. if is_alias st out then st else st\<lparr> aa_outputs := emplace out (aa_outputs st) \<rparr>) st outs"

lemma set_outputs_lifetimes [simp]: "aa_lifetimes (set_outputs st outs) = aa_lifetimes st"
  unfolding set_outputs_def by (induction outs arbitrary: st) auto

lemma squash_lifetimes [simp]: "aa_lifetimes (squash_deep_aliases ns st) = aa_lifetimes st"
  by (simp add: squash_deep_aliases_def)

lemma AliasAnalyzer_eq:
  "foldE (analyze_node g schemas) no_aliases (enumerate 0 (nodes g)) = Inr st0 \<Longrightarrow>
   AliasAnalyzer g schemas = Inr ((set_outputs (squash_deep_aliases (nodes g) (maybe_extend_lifetimes (nodes g) st0)) (graph_outputs g))
     \<lparr> aa_alive := map (alive_at (aa_lifetimes (maybe_extend_lifetimes (nodes g) st0))) [0..<length (nodes g)] \<rparr>)"
  by (simp add: AliasAnalyzer_def Let_def flip: set_outputs_def)

lemma set_alive_at:
  "distinct (map fst L) \<Longrightarrow> set (alive_at L t) = {v. \<exists>l. map_of L v = Some l \<and> lt_start l \<le> t \<and> t \<le> lt_end l}"
  by (force simp: alive_at_def)

text \<open>
  C25: when the sources of aliases are not aliases themselves and every alias
  that is read ends where it is last read, the constructor gives every value the lifetime from the first to
  the last node that touches it, except that the end of a value that has aliases is the last node that reads
  one of the aliases. The values alive during node \<open>t\<close> are exactly the values whose lifetime contains \<open>t\<close>.
\<close>
theorem analyzer_lifetimes:
  assumes an: "foldE (analyze_node g schemas) no_aliases (enumerate 0 (nodes g)) = Inr st0"
    and sh: "shallow (aa_aliases st0)" and ends: "ends_at_last_use (nodes g) st0"
  shows "\<exists>st. AliasAnalyzer g schemas = Inr st \<and> (\<forall>v. map_of (aa_lifetimes st) v = final_lifetime g st0 v) \<and>
    (\<forall>t < length (nodes g). \<exists>vs. alive_values_at_time st t = Inr vs \<and>
       set vs = {v. \<exists>l. final_lifetime g st0 v = Some l \<and> lt_start l \<le> t \<and> t \<le> lt_end l})"
proof -
  have "life_inv [] no_aliases" by (simp add: life_inv_def no_aliases_def times_of_def first_last_def)
  from life_inv_nodes [OF this an] have inv: "distinct (map fst (aa_lifetimes st0))"
      "map_of (aa_lifetimes st0) v = first_last (times_of (concat (map (touches g) (enumerate 0 (nodes g)))) v)" for v
    by (simp_all add: life_inv_def)
  let ?L = "aa_lifetimes (maybe_extend_lifetimes (nodes g) st0)"
  have L: "map_of ?L v = final_lifetime g st0 v" for v
    unfolding extended_lifetimes(1) [OF sh ends] final_lifetime_def lifetime_or_default_def inv(2) Let_def by simp
  have d: "distinct (map fst ?L)" using extended_lifetimes(2) [OF sh ends] inv(1) by simp
  show ?thesis
    unfolding AliasAnalyzer_eq [OF an] using L d by (simp add: alive_values_at_time_def set_alive_at)
qed

section \<open>The analysis of the example graph\<close>

definition view_schemas :: schemas where
  "view_schemas target = (if target \<in> {''op.make'', ''op.view'', ''op.unary'', ''op.binary''} then
     Some \<lparr> fs_aliasing_spec = [], fs_kernel_kind = kStaticDispatchKernel, fs_vararg = False, fs_arguments = 2, fs_varret = False,
       fs_returns = 1, fs_may_contain_alias = (\<lambda>out inp. target = ''op.view'') \<rparr> else None)"

definition view_analysis :: alias_state where
  "view_analysis = \<lparr> aa_aliases = [(3, [2])],
     aa_lifetimes = [(1, \<lparr> lt_start = 0, lt_end = 1 \<rparr>), (2, \<lparr> lt_start = 1, lt_end = 4 \<rparr>), (3, \<lparr> lt_start = 2, lt_end = 3 \<rparr>),
       (4, \<lparr> lt_start = 3, lt_end = 4 \<rparr>), (5, \<lparr> lt_start = 4, lt_end = 5 \<rparr>), (6, \<lparr> lt_start = 5, lt_end = 6 \<rparr>)],
     aa_outputs = [], aa_alive = [] \<rparr>"

lemma view_analysis_ok:
  "foldE (analyze_node view_graph view_schemas) no_aliases (enumerate 0 (nodes view_graph)) = Inr view_analysis"
  unfolding nodes_view_graph
  by (simp add: view_nodes_def view_analysis_def analyze_node_def no_aliases_def create_or_update_lifetime_def mk_node_def input_values_def
      update_aliases_if_packed_listunpack_def maybe_update_aliases_from_schema_def view_schemas_def schema_alias_def emplace_alias_def emplace_def
      upt_rec)

lemma view_shallow: "shallow (aa_aliases view_analysis)"
  by (auto simp: shallow_def sources_def view_analysis_def split: if_splits)

lemma view_ends: "ends_at_last_use view_nodes view_analysis"
  by (simp add: ends_at_last_use_def view_nodes_def All_less_Suc2 input_values_def mk_node_def is_alias_def end_of_def
      lifetime_or_default_def view_analysis_def)

lemma view_uses: "alias_uses view_nodes (aa_aliases view_analysis) 2 = {3}"
  by (auto simp: alias_uses_def view_nodes_def input_values_def mk_node_def sources_def view_analysis_def less_Suc_eq
      numeral_eq_Suc nth_Cons' split: if_splits)

theorem analyzer_lifetimes_witness:
  "\<exists>st. AliasAnalyzer view_graph view_schemas = Inr st \<and>
     (\<forall>v. map_of (aa_lifetimes st) v = final_lifetime view_graph view_analysis v)"
  using analyzer_lifetimes [OF view_analysis_ok view_shallow] view_ends unfolding nodes_view_graph by blast

theorem squash_gives_owners_witness:
  "sources (aa_aliases (squash_deep_aliases view_nodes view_analysis)) 3 = roots (aa_aliases view_analysis) 3"
proof -
  have "sources_before (aa_aliases view_analysis) (concat (map n_outputs view_nodes))"
    by (simp add: sources_before_def view_nodes_def mk_node_def All_less_Suc2 sources_def view_analysis_def)
  moreover have "3 \<in> set (concat (map n_outputs view_nodes))" by (simp add: view_nodes_def mk_node_def)
  ultimately show ?thesis using squash_gives_owners by blast
qed

text \<open>
  Property: node 4 of the example graph reads the value 2 after the last use of its
  view 3. The lifetime that the touches give the value 2 is [1, 4]; \<open>maybe_extend_lifetimes\<close> replaces its end by
  the end of the view instead of taking the maximum, so the analysis ends with [1, 3] and the value does not
  count as alive while node 4 reads it.
\<close>
theorem source_lifetime_cut:
  "\<exists>st. AliasAnalyzer view_graph view_schemas = Inr st \<and> aa_lifetime view_analysis 2 = Inr \<lparr> lt_start = 1, lt_end = 4 \<rparr> \<and>
     aa_lifetime st 2 = Inr \<lparr> lt_start = 1, lt_end = 3 \<rparr> \<and> 2 \<in> set (input_values (nodes view_graph ! 4)) \<and>
     (\<exists>vs. alive_values_at_time st 4 = Inr vs \<and> 2 \<notin> set vs)"
proof -
  let ?st1 = "maybe_extend_lifetimes view_nodes view_analysis"
  have l: "map_of (aa_lifetimes ?st1) 2 = Some \<lparr> lt_start = 1, lt_end = 3 \<rparr>"
    using extended_lifetimes(1) [OF view_shallow view_ends, of 2] view_uses
    by (simp add: lifetime_or_default_def view_analysis_def)
  have d: "distinct (map fst (aa_lifetimes ?st1))"
    using extended_lifetimes(2) [OF view_shallow view_ends] by (simp add: view_analysis_def)
  have "2 \<in> set (input_values (view_nodes ! 4))" by (simp add: view_nodes_def mk_node_def input_values_def)
  moreover have "length view_nodes = 7" by (simp add: view_nodes_def)
  moreover have "2 \<notin> set (alive_at (aa_lifetimes ?st1) 4)" using l by (simp add: set_alive_at [OF d])
  ultimately show ?thesis
    unfolding AliasAnalyzer_eq [OF view_analysis_ok] nodes_view_graph
    using l by (simp add: aa_lifetime_def alive_values_at_time_def) (simp add: view_analysis_def)
qed

end
