(* ===== verification/ExecutionPlanner.thy ===== *)
theory ExecutionPlanner
  imports NativeGraph
begin

text \<open>
  \<open>torch/nativert/executor/ExecutionPlanner.cpp\<close>: after which node each value of a graph is freed.
\<close>

section \<open>The plan\<close>

definition value_id :: "graph \<Rightarrow> vref \<Rightarrow> nat" where
  "value_id g v = v_id (g_value g v)"

definition static_of_node :: "graph \<Rightarrow> gnode \<Rightarrow> nat list" where
  "static_of_node g node =
     (if n_target node = ''torch.ops.higher_order.run_const_graph'' then map (value_id g) (n_outputs node)
      else map (value_id g) (filter (\<lambda>v. v_folded (g_value g v)) (input_values node)))"

text \<open>The set as the list of the insertions.\<close>

definition staticValues :: "graph \<Rightarrow> nat list" where
  "staticValues g =
     map (value_id g) (filter (\<lambda>v. v \<noteq> nullptr) (graph_inputs g)) @
     map (value_id g) (graph_outputs g) @
     map fst (g_constantSymInts g) @
     concat (map (static_of_node g) (nodes g))"

definition record_use :: "graph \<Rightarrow> nat \<Rightarrow> (nat \<times> nat) list \<Rightarrow> vref \<Rightarrow> (nat \<times> nat) list" where
  "record_use g nodeIdx lastUsedBy v =
     (case map_of lastUsedBy (value_id g v) of None \<Rightarrow> lastUsedBy @ [(value_id g v, nodeIdx)] | Some _ \<Rightarrow> lastUsedBy)"

definition last_used_by :: "graph \<Rightarrow> (nat \<times> nat) list" where
  "last_used_by g = foldl (\<lambda>m (i, node). foldl (record_use g i) m (input_values node)) [] (rev (enumerate 0 (nodes g)))"

definition generateDeallocationPlan :: "graph \<Rightarrow> nat list list" where
  "generateDeallocationPlan g =
     (let statics = staticValues g in
      foldl (\<lambda>valuesToFree (vid, nodeIndex). if vid \<in> set statics then valuesToFree
          else valuesToFree[nodeIndex := valuesToFree ! nodeIndex @ [vid]])
        (replicate (length (nodes g)) []) (last_used_by g))"

definition createPlan :: "graph \<Rightarrow> nat list list" where
  "createPlan g = generateDeallocationPlan g"

section \<open>Correctness\<close>

definition uses :: "graph \<Rightarrow> nat \<Rightarrow> nat set" where
  "uses g vid = {j. j < length (nodes g) \<and> vid \<in> value_id g ` set (input_values (nodes g ! j))}"

lemma record_uses:
  "distinct (map fst m) \<Longrightarrow> distinct (map fst (foldl (record_use g i) m vs)) \<and>
     map_of (foldl (record_use g i) m vs) = map_of (m @ map (\<lambda>v. (value_id g v, i)) vs)"
proof (induction vs arbitrary: m)
  case (Cons v vs)
  have d: "distinct (map fst (record_use g i m v))" using Cons.prems
    by (auto simp: record_use_def map_of_eq_None_iff split: option.splits)
  have m: "map_of (record_use g i m v) = map_of (m @ [(value_id g v, i)])"
    by (auto simp: record_use_def map_of_append fun_eq_iff map_add_def split: option.splits)
  show ?case using Cons.IH [OF d] m by (simp add: map_of_append)
qed simp

definition visited_uses :: "graph \<Rightarrow> (nat \<times> gnode) list \<Rightarrow> (nat \<times> nat) list" where
  "visited_uses g ns = concat (map (\<lambda>(i, node). map (\<lambda>v. (value_id g v, i)) (input_values node)) ns)"

lemma last_used_fold:
  "distinct (map fst m) \<Longrightarrow> distinct (map fst (foldl (\<lambda>m (i, node). foldl (record_use g i) m (input_values node)) m ns)) \<and>
     map_of (foldl (\<lambda>m (i, node). foldl (record_use g i) m (input_values node)) m ns) = map_of (m @ visited_uses g ns)"
proof (induction ns arbitrary: m)
  case (Cons n ns)
  obtain i node where n: "n = (i, node)" by fastforce
  note r = record_uses [OF Cons.prems, of g i "input_values node"]
  show ?case using Cons.IH [OF r [THEN conjunct1]] r by (simp add: n visited_uses_def map_of_append)
qed (simp add: visited_uses_def)

lemma map_of_const: "map_of (map (\<lambda>v. (f v, k)) vs) x = (if x \<in> f ` set vs then Some k else None)"
  by (induction vs) auto

lemma visited_last:
  "map_of (visited_uses g (rev (enumerate 0 ns))) vid =
     (let U = {j. j < length ns \<and> vid \<in> value_id g ` set (input_values (ns ! j))} in if U = {} then None else Some (Max U))"
proof (induction ns rule: rev_induct)
  case Nil
  then show ?case by (simp add: visited_uses_def)
next
  case (snoc n ns)
  let ?U = "\<lambda>ns. {j. j < length ns \<and> vid \<in> value_id g ` set (input_values (ns ! j))}"
  have e: "visited_uses g (rev (enumerate 0 (ns @ [n]))) =
      map (\<lambda>v. (value_id g v, length ns)) (input_values n) @ visited_uses g (rev (enumerate 0 ns))"
    by (simp add: visited_uses_def enumerate_append_eq)
  show ?case
  proof (cases "vid \<in> value_id g ` set (input_values n)")
    case True
    then have "length ns \<in> ?U (ns @ [n])" by simp
    moreover have "Max (?U (ns @ [n])) = length ns" using True by (intro Max_eqI) auto
    moreover have "map_of (visited_uses g (rev (enumerate 0 (ns @ [n])))) vid = Some (length ns)"
      using True unfolding e map_of_append by (simp add: map_add_def map_of_const)
    ultimately show ?thesis unfolding Let_def by (metis empty_iff)
  next
    case False
    then have "?U (ns @ [n]) = ?U ns" by (auto simp: nth_append less_Suc_eq)
    moreover have "map_of (visited_uses g (rev (enumerate 0 (ns @ [n])))) vid = map_of (visited_uses g (rev (enumerate 0 ns))) vid"
      using False unfolding e map_of_append by (simp add: map_add_def map_of_const)
    ultimately show ?thesis using snoc.IH by (simp only:)
  qed
qed

lemma last_used_by_ok:
  "distinct (map fst (last_used_by g))"
  "map_of (last_used_by g) vid = (if uses g vid = {} then None else Some (Max (uses g vid)))"
  using last_used_fold [of "[]" g "rev (enumerate 0 (nodes g))"] visited_last [of g "nodes g" vid]
  by (simp_all add: last_used_by_def uses_def Let_def)

lemma free_fold:
  assumes "\<forall>(vid, i) \<in> set ps. i < N"
  shows "foldl (\<lambda>vs (vid, i). if vid \<in> S then vs else vs[i := vs ! i @ [vid]]) (replicate N []) ps =
    map (\<lambda>i. map fst (filter (\<lambda>(vid, j). j = i \<and> vid \<notin> S) ps)) [0..<N]"
  using assms
proof (induction ps rule: rev_induct)
  case Nil
  then show ?case by (simp add: map_replicate_trivial flip: map_replicate_const)
next
  case (snoc p ps)
  obtain vid i where p: "p = (vid, i)" by fastforce
  show ?case using snoc by (cases "vid \<in> S") (auto simp: p nth_list_update intro!: nth_equalityI)
qed

text \<open>
  C27: the plan has an entry for every node. A value is freed after a node
  exactly when that node is the last one that reads it and the value is not static; no value is freed twice,
  and no static value (a graph input, a graph output, a constant, a folded value) is ever freed.
\<close>
theorem freed_after_last_use:
  "length (createPlan g) = length (nodes g) \<and>
   (\<forall>i < length (nodes g). distinct (createPlan g ! i) \<and>
      (\<forall>vid. vid \<in> set (createPlan g ! i) \<longleftrightarrow> vid \<notin> set (staticValues g) \<and> uses g vid \<noteq> {} \<and> i = Max (uses g vid)))"
proof -
  have fin: "finite (uses g vid)" for vid by (simp add: uses_def)
  have less: "i < length (nodes g)" if "(vid, i) \<in> set (last_used_by g)" for vid i
  proof -
    have "map_of (last_used_by g) vid = Some i" using that last_used_by_ok(1) by simp
    then have "uses g vid \<noteq> {}" "i = Max (uses g vid)" by (auto simp: last_used_by_ok(2) split: if_splits)
    then have "i \<in> uses g vid" using Max_in [OF fin] by blast
    then show ?thesis by (simp add: uses_def)
  qed
  have plan: "createPlan g = map (\<lambda>i. map fst (filter (\<lambda>(vid, j). j = i \<and> vid \<notin> set (staticValues g)) (last_used_by g))) [0..<length (nodes g)]"
    unfolding createPlan_def generateDeallocationPlan_def Let_def by (rule free_fold) (use less in blast)
  have mem: "vid \<in> set (createPlan g ! i) \<longleftrightarrow> vid \<notin> set (staticValues g) \<and> uses g vid \<noteq> {} \<and> i = Max (uses g vid)"
    if "i < length (nodes g)" for i vid
  proof -
    have "vid \<in> set (createPlan g ! i) \<longleftrightarrow> (vid, i) \<in> set (last_used_by g) \<and> vid \<notin> set (staticValues g)"
      using that by (force simp: plan)
    also have "(vid, i) \<in> set (last_used_by g) \<longleftrightarrow> map_of (last_used_by g) vid = Some i"
      using last_used_by_ok(1) by simp
    finally show ?thesis by (auto simp: last_used_by_ok(2))
  qed
  moreover have "distinct (createPlan g ! i)" if "i < length (nodes g)" for i
    using that last_used_by_ok(1) [of g] by (simp add: plan distinct_map_filter)
  ultimately show ?thesis by (simp add: plan)
qed

theorem freed_after_last_use_witness:
  "length (createPlan view_graph) = 7 \<and> 1 \<in> set (createPlan view_graph ! 4) \<and> 1 \<notin> set (createPlan view_graph ! 2)"
proof -
  have n: "length (nodes view_graph) = 7" by (simp add: nodes_view_graph view_nodes_def)
  have s: "1 \<notin> set (staticValues view_graph)"
    unfolding staticValues_def nodes_view_graph
    by (simp add: view_nodes_def mk_node_def static_of_node_def input_values_def value_id_def view_value_def view_graph_def
        graph_inputs_def graph_outputs_def nullptr_def)
  have u: "uses view_graph 1 = {2, 4}"
    unfolding uses_def nodes_view_graph
    by (auto simp: view_nodes_def mk_node_def input_values_def value_id_def view_value_def view_graph_def less_Suc_eq
        numeral_eq_Suc nth_Cons' split: if_splits)
  show ?thesis using freed_after_last_use [of view_graph] n s u by simp
qed

end
