(* ===== verification/StorageGroups.thy ===== *)
theory StorageGroups
  imports LayoutAlgorithms
begin

text \<open>
  \<open>torch/nativert/executor/memory/DisjointStorageGroups.cpp\<close>: tensors whose lifetimes do not overlap
  share a storage group. A specification is identified by its position in the input (the code uses its
  address), a group by its position in the list of groups.
\<close>

record storage_group =
  sg_free :: bool
  sg_max :: nat
  sg_lifetime :: lifetime
  sg_specs :: "nat list"

definition StorageGroup :: "alloc_spec list \<Rightarrow> nat \<Rightarrow> storage_group" where
  "StorageGroup specs i = \<lparr> sg_free = False, sg_max = as_size (specs ! i), sg_lifetime = as_lifetime (specs ! i), sg_specs = [i] \<rparr>"

definition add_spec :: "alloc_spec list \<Rightarrow> nat \<Rightarrow> storage_group \<Rightarrow> storage_group" where
  "add_spec specs i g = g\<lparr> sg_specs := sg_specs g @ [i], sg_max := max (sg_max g) (as_size (specs ! i)),
     sg_lifetime := (sg_lifetime g)\<lparr> lt_end := lt_end (as_lifetime (specs ! i)) \<rparr>, sg_free := False \<rparr>"

section \<open>Allocation and deallocation times\<close>

definition resize :: "'a list list \<Rightarrow> nat \<Rightarrow> 'a list list" where
  "resize xs n = (if n \<le> length xs then take n xs else xs @ replicate (n - length xs) [])"

text \<open>Insertion into the multiset ordered by descending size, after the equal elements.\<close>

fun insert_desc :: "alloc_spec list \<Rightarrow> nat \<Rightarrow> nat list \<Rightarrow> nat list" where
  "insert_desc specs i [] = [i]"
| "insert_desc specs i (j # js) = (if as_size (specs ! i) > as_size (specs ! j) then i # j # js else j # insert_desc specs i js)"

definition spec_start :: "alloc_spec list \<Rightarrow> nat \<Rightarrow> nat" where
  "spec_start specs i = lt_start (as_lifetime (specs ! i))"

definition spec_end :: "alloc_spec list \<Rightarrow> nat \<Rightarrow> nat" where
  "spec_end specs i = lt_end (as_lifetime (specs ! i))"

fun index_times :: "alloc_spec list \<Rightarrow> nat list \<Rightarrow> nat list list \<Rightarrow> nat list list \<Rightarrow> nat list list \<times> nat list list" where
  "index_times specs [] allocs deallocs = (allocs, deallocs)"
| "index_times specs (i # is) allocs deallocs =
     (let a = spec_start specs i; d = spec_end specs i;
          allocs1 = (if a \<ge> length allocs then resize allocs (a + 1) else allocs);
          deallocs1 = (if d \<ge> length deallocs then resize deallocs (d + 1) else deallocs)
      in index_times specs is (allocs1[a := insert_desc specs i (allocs1 ! a)]) (deallocs1[d := deallocs1 ! d @ [i]]))"

section \<open>Assignment to groups\<close>

record group_state =
  gs_groups :: "storage_group list"
  gs_of :: "nat \<Rightarrow> nat option"       \<comment> \<open>\<open>spec_to_storage_group\<close>\<close>
  gs_free :: "nat list"             \<comment> \<open>\<open>free_storage_groups\<close>\<close>

definition createStorageGroup :: "alloc_spec list \<Rightarrow> group_state \<Rightarrow> nat \<Rightarrow> group_state" where
  "createStorageGroup specs st i = st\<lparr> gs_groups := gs_groups st @ [StorageGroup specs i],
     gs_of := (gs_of st)(i \<mapsto> length (gs_groups st)) \<rparr>"

definition assignToAvailableStorageGroup :: "alloc_spec list \<Rightarrow> group_state \<Rightarrow> nat \<Rightarrow> group_state" where
  "assignToAvailableStorageGroup specs st i = (let g = List.last (gs_free st) in
     st\<lparr> gs_groups := (gs_groups st)[g := add_spec specs i (gs_groups st ! g)],
       gs_of := (gs_of st)(i \<mapsto> g), gs_free := butlast (gs_free st) \<rparr>)"

definition allocate_spec :: "alloc_spec list \<Rightarrow> group_state \<Rightarrow> nat \<Rightarrow> group_state" where
  "allocate_spec specs st i = (if gs_free st = [] then createStorageGroup specs st i else assignToAvailableStorageGroup specs st i)"

definition deallocate_spec :: "alloc_spec list \<Rightarrow> group_state \<Rightarrow> nat \<Rightarrow> group_state result" where
  "deallocate_spec specs st i = (case gs_of st i of
       None \<Rightarrow> Inl (StdOutOfRange ''spec_to_storage_group'')
     | Some g \<Rightarrow> let grp = gs_groups st ! g in
         if \<not> sg_free grp \<and> lt_end (sg_lifetime grp) = spec_end specs i
         then Inr (st\<lparr> gs_groups := (gs_groups st)[g := grp\<lparr> sg_free := True \<rparr>], gs_free := gs_free st @ [g] \<rparr>)
         else Inr st)"

definition time_step :: "alloc_spec list \<Rightarrow> nat list list \<Rightarrow> nat list list \<Rightarrow> group_state \<Rightarrow> nat \<Rightarrow> group_state result" where
  "time_step specs allocs deallocs st t =
     (let st1 = foldl (allocate_spec specs) st (allocs ! t)
      in if t < length deallocs then foldE (deallocate_spec specs) st1 (deallocs ! t) else Inr st1)"

definition empty_groups :: group_state where
  "empty_groups = \<lparr> gs_groups = [], gs_of = Map.empty, gs_free = [] \<rparr>"

fun group_offsets :: "storage_group list \<Rightarrow> nat \<Rightarrow> nat list \<times> nat" where
  "group_offsets [] offset = ([], offset)"
| "group_offsets (g # gs) offset = (case group_offsets gs (offset + sg_max g) of (os, t) \<Rightarrow> (offset # os, t))"

definition DisjointStorageGroupsPlanner :: "alloc_spec list \<Rightarrow> layout_plan result" where
  "DisjointStorageGroupsPlanner specs =
     (case index_times specs [0..<length specs] [] [] of (allocs, deallocs) \<Rightarrow>
      bindE (foldE (time_step specs allocs deallocs) empty_groups [0..<length allocs]) (\<lambda>st.
        case group_offsets (gs_groups st) 0 of (offs, tot) \<Rightarrow>
          bindE (mapE (\<lambda>i. case gs_of st i of
              None \<Rightarrow> Inl (StdOutOfRange ''spec_to_storage_group'')
            | Some g \<Rightarrow> Inr \<lparr> al_size = as_size (specs ! i), al_offset = offs ! g \<rparr>) [0..<length specs])
            (\<lambda>as. Inr \<lparr> total_size = tot, allocations = as \<rparr>)))"

section \<open>Indexing\<close>

lemma set_insert_desc [simp]: "set (insert_desc specs i js) = insert i (set js)"
  by (induction js) auto

lemma distinct_insert_desc: "i \<notin> set js \<Longrightarrow> distinct js \<Longrightarrow> distinct (insert_desc specs i js)"
  by (induction js) auto

lemma nth_resize: "t < n \<Longrightarrow> resize xs n ! t = (if t < length xs then xs ! t else [])"
  by (auto simp: resize_def nth_append)

lemma length_resize [simp]: "length (resize xs n) = n"
  by (simp add: resize_def)

definition indexed :: "(nat \<Rightarrow> nat) \<Rightarrow> nat set \<Rightarrow> nat list list \<Rightarrow> bool" where
  "indexed f I xs \<longleftrightarrow> (\<forall>i \<in> I. f i < length xs) \<and> (\<forall>t < length xs. set (xs ! t) = {i \<in> I. f i = t} \<and> distinct (xs ! t))"

lemma indexed_step:
  assumes "indexed f I xs" "i \<notin> I" "set (g (ys ! f i)) = insert i (set (ys ! f i))"
    "distinct (ys ! f i) \<Longrightarrow> i \<notin> set (ys ! f i) \<Longrightarrow> distinct (g (ys ! f i))"
    "ys = (if f i \<ge> length xs then resize xs (f i + 1) else xs)"
  shows "indexed f (insert i I) (ys[f i := g (ys ! f i)])"
proof -
  have len: "f i < length ys" "length xs \<le> length ys" using assms(5) by auto
  have y: "ys ! t = (if t < length xs then xs ! t else [])" if "t < length ys" for t
    using that assms(5) by (auto simp: nth_resize split: if_splits)
  have e: "set (ys ! t) = {j \<in> I. f j = t} \<and> distinct (ys ! t)" if "t < length ys" for t
    using y [OF that] assms(1) unfolding indexed_def by (cases "t < length xs") auto
  have "set ((ys[f i := g (ys ! f i)]) ! t) = {j \<in> insert i I. f j = t} \<and> distinct ((ys[f i := g (ys ! f i)]) ! t)"
    if "t < length ys" for t
  proof (cases "t = f i")
    case True
    have "i \<notin> set (ys ! f i)" using e [OF len(1)] assms(2) by simp
    then show ?thesis using True e [OF len(1)] assms(3,4) len(1) by auto
  next
    case False
    then show ?thesis using e [OF that] by auto
  qed
  moreover have "f j < length ys" if "j \<in> insert i I" for j
    using that len assms(1) unfolding indexed_def by auto
  ultimately show ?thesis unfolding indexed_def by simp
qed

lemma index_times_ok:
  assumes "indexed (spec_start specs) I allocs" "indexed (spec_end specs) I deallocs" "distinct is" "set is \<inter> I = {}"
    "index_times specs is allocs deallocs = (as, ds)"
  shows "indexed (spec_start specs) (I \<union> set is) as \<and> indexed (spec_end specs) (I \<union> set is) ds"
  using assms
proof (induction "is" arbitrary: I allocs deallocs)
  case (Cons i "is")
  let ?a = "spec_start specs i" and ?d = "spec_end specs i"
  let ?al = "if ?a \<ge> length allocs then resize allocs (?a + 1) else allocs"
  let ?de = "if ?d \<ge> length deallocs then resize deallocs (?d + 1) else deallocs"
  have i: "i \<notin> I" using Cons.prems(4) by auto
  have a: "indexed (spec_start specs) (insert i I) (?al[?a := insert_desc specs i (?al ! ?a)])"
    by (rule indexed_step [OF Cons.prems(1) i _ _ refl]) (auto simp: distinct_insert_desc)
  have d: "indexed (spec_end specs) (insert i I) (?de[?d := ?de ! ?d @ [i]])"
    by (rule indexed_step [OF Cons.prems(2) i _ _ refl, where g = "\<lambda>xs. xs @ [i]"]) auto
  have "index_times specs is (?al[?a := insert_desc specs i (?al ! ?a)]) (?de[?d := ?de ! ?d @ [i]]) = (as, ds)"
    using Cons.prems(5) by (simp add: Let_def)
  from Cons.IH [OF a d _ _ this] Cons.prems(3,4) show ?case by auto
qed simp

section \<open>Invariant\<close>

text \<open>
  \<open>I\<close> is the set of specifications that have a group, \<open>T\<close> a time before which the groups that are free
  have ended.
\<close>

definition members_ok :: "alloc_spec list \<Rightarrow> group_state \<Rightarrow> bool" where
  "members_ok specs st \<longleftrightarrow> (\<forall>i g. gs_of st i = Some g \<longrightarrow> g < length (gs_groups st) \<and>
     as_size (specs ! i) \<le> sg_max (gs_groups st ! g) \<and> spec_end specs i \<le> lt_end (sg_lifetime (gs_groups st ! g)))"

definition sharing_ok :: "alloc_spec list \<Rightarrow> group_state \<Rightarrow> bool" where
  "sharing_ok specs st \<longleftrightarrow> (\<forall>i j g. gs_of st i = Some g \<longrightarrow> gs_of st j = Some g \<longrightarrow> i \<noteq> j \<longrightarrow>
     not_overlapping_with (specs ! i) (specs ! j))"

definition free_ok :: "nat \<Rightarrow> group_state \<Rightarrow> bool" where
  "free_ok T st \<longleftrightarrow> distinct (gs_free st) \<and> (\<forall>g \<in> set (gs_free st). g < length (gs_groups st) \<and>
     sg_free (gs_groups st ! g) \<and> lt_end (sg_lifetime (gs_groups st ! g)) < T)"

definition sizes_ok :: "alloc_spec list \<Rightarrow> nat set \<Rightarrow> group_state \<Rightarrow> bool" where
  "sizes_ok specs I st \<longleftrightarrow> sum_list (map sg_max (gs_groups st)) \<le> sum (\<lambda>i. as_size (specs ! i)) I"

definition group_inv :: "alloc_spec list \<Rightarrow> nat set \<Rightarrow> nat \<Rightarrow> group_state \<Rightarrow> bool" where
  "group_inv specs I T st \<longleftrightarrow> dom (gs_of st) = I \<and> members_ok specs st \<and> sharing_ok specs st \<and> free_ok T st \<and> sizes_ok specs I st"

lemma create_inv:
  assumes "group_inv specs I T st" "i \<notin> I" "finite I" "gs_free st = []"
  shows "group_inv specs (insert i I) T (createStorageGroup specs st i)"
proof -
  let ?st = "createStorageGroup specs st i"
  have m: "members_ok specs st" "sharing_ok specs st" "sizes_ok specs I st" and d: "dom (gs_of st) = I"
    using assms(1) by (simp_all add: group_inv_def)
  have "members_ok specs ?st"
    using m(1) unfolding members_ok_def
    by (auto simp: createStorageGroup_def nth_append StorageGroup_def spec_end_def less_SucI split: if_splits)
  moreover have "sharing_ok specs ?st"
    using m(1,2) unfolding members_ok_def sharing_ok_def
    by (auto simp: createStorageGroup_def split: if_splits)
  moreover have "free_ok T ?st" using assms(4) by (simp add: free_ok_def createStorageGroup_def)
  moreover have "sizes_ok specs (insert i I) ?st"
    using m(3) assms(2,3) by (simp add: sizes_ok_def createStorageGroup_def StorageGroup_def)
  ultimately show ?thesis using d by (simp add: group_inv_def createStorageGroup_def)
qed

lemma sum_list_update_max:
  fixes xs :: "nat list"
  shows "g < length xs \<Longrightarrow> sum_list (xs[g := max (xs ! g) n]) \<le> sum_list xs + n"
proof (induction xs arbitrary: g)
  case (Cons x xs)
  then show ?case by (cases g) (auto simp: max_def)
qed simp

lemma assign_inv:
  assumes "group_inv specs I T st" "i \<notin> I" "finite I" "gs_free st \<noteq> []" "T \<le> spec_start specs i" "spec_ok (specs ! i)"
  shows "group_inv specs (insert i I) T (assignToAvailableStorageGroup specs st i)"
proof -
  let ?st = "assignToAvailableStorageGroup specs st i"
  define g where "g = List.last (gs_free st)"
  let ?grp = "gs_groups st ! g" let ?n = "length (gs_groups st)"
  have m: "members_ok specs st" "sharing_ok specs st" "free_ok T st" "sizes_ok specs I st" and d: "dom (gs_of st) = I"
    using assms(1) by (simp_all add: group_inv_def)
  have st: "gs_groups ?st = (gs_groups st)[g := add_spec specs i ?grp]" "gs_of ?st = (gs_of st)(i \<mapsto> g)"
      "gs_free ?st = butlast (gs_free st)"
    by (simp_all add: assignToAvailableStorageGroup_def g_def Let_def)
  have fr: "gs_free st = butlast (gs_free st) @ [g]" using assms(4) by (simp add: g_def)
  have g: "g < ?n" "lt_end (sg_lifetime ?grp) < T" using m(3) assms(4) unfolding free_ok_def g_def by auto
  have add: "sg_max (add_spec specs i ?grp) = max (sg_max ?grp) (as_size (specs ! i))"
      "lt_end (sg_lifetime (add_spec specs i ?grp)) = spec_end specs i"
    by (simp_all add: add_spec_def spec_end_def)
  have later: "lt_end (sg_lifetime ?grp) < spec_start specs i" "spec_start specs i \<le> spec_end specs i"
    using g(2) assms(5,6) by (simp_all add: spec_ok_def spec_start_def spec_end_def)
  have mem: "j \<noteq> i \<Longrightarrow> gs_of st j = Some g \<Longrightarrow> as_size (specs ! j) \<le> sg_max ?grp \<and> spec_end specs j \<le> lt_end (sg_lifetime ?grp)" for j
    using m(1) by (simp add: members_ok_def)
  have "members_ok specs ?st"
    unfolding members_ok_def
  proof (intro allI impI)
    fix j h assume jh: "gs_of ?st j = Some h"
    show "h < length (gs_groups ?st) \<and> as_size (specs ! j) \<le> sg_max (gs_groups ?st ! h) \<and>
        spec_end specs j \<le> lt_end (sg_lifetime (gs_groups ?st ! h))"
    proof (cases "j = i")
      case True
      then show ?thesis using jh g(1) add by (simp add: st)
    next
      case False
      then have j: "gs_of st j = Some h" using jh by (simp add: st)
      then have "h < ?n" "as_size (specs ! j) \<le> sg_max (gs_groups st ! h)" "spec_end specs j \<le> lt_end (sg_lifetime (gs_groups st ! h))"
        using m(1) by (auto simp: members_ok_def)
      then show ?thesis using add later by (cases "h = g") (auto simp: st)
    qed
  qed
  moreover have "sharing_ok specs ?st"
  proof -
    have "not_overlapping_with (specs ! i) (specs ! j)" if "j \<noteq> i" "gs_of st j = Some g" for j
      using mem [OF that] later
      by (auto simp: not_overlapping_with_def lifetime_not_overlapping_def spec_start_def spec_end_def)
    then show ?thesis
      using m(2) not_overlapping_sym unfolding sharing_ok_def st by (auto split: if_splits)
  qed
  moreover have "free_ok T ?st"
  proof -
    have "distinct (butlast (gs_free st) @ [g])" using m(3) fr by (simp add: free_ok_def)
    then have dist: "distinct (butlast (gs_free st))" "g \<notin> set (butlast (gs_free st))" by simp_all
    have "h < ?n \<and> sg_free (gs_groups st ! h) \<and> lt_end (sg_lifetime (gs_groups st ! h)) < T" if "h \<in> set (butlast (gs_free st))" for h
      using m(3) in_set_butlastD [OF that] by (simp add: free_ok_def)
    moreover have "h \<noteq> g" if "h \<in> set (butlast (gs_free st))" for h using dist(2) that by blast
    ultimately have "h < length (gs_groups ?st) \<and> sg_free (gs_groups ?st ! h) \<and> lt_end (sg_lifetime (gs_groups ?st ! h)) < T"
      if "h \<in> set (gs_free ?st)" for h using that by (metis st(1,3) length_list_update nth_list_update_neq)
    then show ?thesis using dist(1) by (simp add: free_ok_def st(3))
  qed
  moreover have "sizes_ok specs (insert i I) ?st"
  proof -
    have "map sg_max (gs_groups ?st) = (map sg_max (gs_groups st))[g := max (map sg_max (gs_groups st) ! g) (as_size (specs ! i))]"
      using g(1) add(1) by (simp add: st map_update)
    then have "sum_list (map sg_max (gs_groups ?st)) \<le> sum_list (map sg_max (gs_groups st)) + as_size (specs ! i)"
      using sum_list_update_max [of g "map sg_max (gs_groups st)"] g(1) by simp
    then show ?thesis using m(4) assms(2,3) by (simp add: sizes_ok_def)
  qed
  ultimately show ?thesis using d by (simp add: group_inv_def st)
qed

lemma allocations_inv:
  assumes "group_inv specs I T st" "finite I" "distinct is" "set is \<inter> I = {}"
    "\<forall>i \<in> set is. T \<le> spec_start specs i \<and> spec_ok (specs ! i)"
  shows "group_inv specs (I \<union> set is) T (foldl (allocate_spec specs) st is)"
  using assms
proof (induction "is" arbitrary: st I)
  case (Cons i "is")
  have "group_inv specs (insert i I) T (allocate_spec specs st i)"
    using Cons.prems create_inv [of specs I T st i] assign_inv [of specs I T st i] by (simp add: allocate_spec_def)
  from Cons.IH [OF this] Cons.prems show ?case by simp
qed simp

lemma dealloc_step:
  assumes "group_inv specs I T st" "i \<in> I" "spec_end specs i < T"
  shows "\<exists>st'. deallocate_spec specs st i = Inr st' \<and> group_inv specs I T st'"
proof -
  obtain g where g: "gs_of st i = Some g" using assms(1,2) by (auto simp: group_inv_def)
  have m: "members_ok specs st" "sharing_ok specs st" "free_ok T st" "sizes_ok specs I st" and d: "dom (gs_of st) = I"
    using assms(1) by (simp_all add: group_inv_def)
  have gn: "g < length (gs_groups st)" using m(1) g by (simp add: members_ok_def)
  let ?grp = "gs_groups st ! g"
  let ?st = "st\<lparr> gs_groups := (gs_groups st)[g := ?grp\<lparr> sg_free := True \<rparr>], gs_free := gs_free st @ [g] \<rparr>"
  show ?thesis
  proof (cases "\<not> sg_free ?grp \<and> lt_end (sg_lifetime ?grp) = spec_end specs i")
    case True
    have same: "map sg_max (gs_groups ?st) = map sg_max (gs_groups st)"
      using gn by (simp add: map_update list_update_same_conv)
    have nth: "sg_max (gs_groups ?st ! h) = sg_max (gs_groups st ! h)" "sg_lifetime (gs_groups ?st ! h) = sg_lifetime (gs_groups st ! h)"
        "sg_free (gs_groups ?st ! h) \<longleftrightarrow> h = g \<or> sg_free (gs_groups st ! h)" for h
      using gn by (cases "h = g"; simp)+
    have "members_ok specs ?st" using m(1) unfolding members_ok_def nth by simp
    moreover have "sharing_ok specs ?st" using m(2) by (simp add: sharing_ok_def)
    moreover have "free_ok T ?st"
      using m(3) True gn assms(3) unfolding free_ok_def nth by auto
    moreover have "sizes_ok specs I ?st" using m(4) unfolding sizes_ok_def same .
    ultimately have "group_inv specs I T ?st" using d by (simp add: group_inv_def)
    then show ?thesis using True g by (simp add: deallocate_spec_def)
  next
    case False
    then show ?thesis using assms(1) g by (auto simp: deallocate_spec_def Let_def)
  qed
qed

lemma deallocations_inv:
  assumes "group_inv specs I T st" "set is \<subseteq> I" "\<forall>i \<in> set is. spec_end specs i < T"
  shows "\<exists>st'. foldE (deallocate_spec specs) st is = Inr st' \<and> group_inv specs I T st'"
  using assms
proof (induction "is" arbitrary: st)
  case (Cons i "is")
  obtain st1 where "deallocate_spec specs st i = Inr st1" "group_inv specs I T st1"
    using dealloc_step [of specs I T st i] Cons.prems by auto
  then show ?case using Cons.IH [of st1] Cons.prems by simp
qed simp

lemma group_inv_later: "group_inv specs I T st \<Longrightarrow> T \<le> T' \<Longrightarrow> group_inv specs I T' st"
  by (force simp: group_inv_def free_ok_def)

definition started :: "alloc_spec list \<Rightarrow> nat \<Rightarrow> nat set" where
  "started specs t = {i. i < length specs \<and> spec_start specs i < t}"

lemma time_step_inv:
  assumes "group_inv specs (started specs t) t st" "\<forall>s \<in> set specs. spec_ok s" "t < length allocs"
    "indexed (spec_start specs) {..<length specs} allocs" "indexed (spec_end specs) {..<length specs} deallocs"
  shows "\<exists>st'. time_step specs allocs deallocs st t = Inr st' \<and> group_inv specs (started specs (Suc t)) (Suc t) st'"
proof -
  let ?st1 = "foldl (allocate_spec specs) st (allocs ! t)"
  have a: "set (allocs ! t) = {i \<in> {..<length specs}. spec_start specs i = t}" "distinct (allocs ! t)"
    using assms(3,4) by (auto simp: indexed_def)
  have ok: "spec_start specs i \<le> spec_end specs i" if "i < length specs" for i
    using assms(2) that by (simp add: spec_ok_def spec_start_def spec_end_def)
  have "group_inv specs (started specs t \<union> set (allocs ! t)) t ?st1"
    using assms(1,2) a by (intro allocations_inv) (auto simp: started_def)
  moreover have "started specs t \<union> set (allocs ! t) = started specs (Suc t)" unfolding a started_def by auto
  ultimately have i1: "group_inv specs (started specs (Suc t)) (Suc t) ?st1" using group_inv_later by simp
  show ?thesis
  proof (cases "t < length deallocs")
    case True
    then have "set (deallocs ! t) = {i \<in> {..<length specs}. spec_end specs i = t}" using assms(5) by (simp add: indexed_def)
    then show ?thesis
      using deallocations_inv [OF i1, of "deallocs ! t"] ok True
      by (fastforce simp: time_step_def started_def)
  next
    case False
    then show ?thesis using i1 by (simp add: time_step_def)
  qed
qed

lemma time_steps_inv:
  assumes "\<forall>s \<in> set specs. spec_ok s" "n \<le> length allocs"
    "indexed (spec_start specs) {..<length specs} allocs" "indexed (spec_end specs) {..<length specs} deallocs"
  shows "\<exists>st'. foldE (time_step specs allocs deallocs) empty_groups [0..<n] = Inr st' \<and>
    group_inv specs (started specs n) n st'"
  using assms(2)
proof (induction n)
  case 0
  then show ?case
    by (simp add: group_inv_def empty_groups_def started_def members_ok_def sharing_ok_def free_ok_def sizes_ok_def)
next
  case (Suc n)
  then obtain st where st: "foldE (time_step specs allocs deallocs) empty_groups [0..<n] = Inr st"
      "group_inv specs (started specs n) n st" by auto
  then show ?case
    using time_step_inv [OF st(2) assms(1) _ assms(3,4)] Suc.prems by (auto simp: foldE_append)
qed

section \<open>Offsets\<close>

lemma group_offsets_ok:
  "group_offsets gs off = (os, t) \<Longrightarrow> length os = length gs \<and> t = off + sum_list (map sg_max gs) \<and>
     (\<forall>g < length gs. os ! g = off + sum_list (map sg_max (take g gs)))"
proof (induction gs arbitrary: off os t)
  case (Cons x gs)
  obtain os' where os': "group_offsets gs (off + sg_max x) = (os', t)" "os = off # os'"
    using Cons.prems by (auto split: prod.splits)
  have "os ! g = off + sum_list (map sg_max (take g (x # gs)))" if "g < length (x # gs)" for g
    using Cons.IH [OF os'(1)] os'(2) that by (cases g) auto
  then show ?case using Cons.IH [OF os'(1)] os'(2) by auto
qed simp

lemma mapE_total: "\<forall>x \<in> set xs. f x = Inr (g x) \<Longrightarrow> mapE f xs = Inr (map g xs)"
  by (induction xs) auto

theorem groups_valid:
  assumes ok: "\<forall>s \<in> set specs. spec_ok s"
  shows "\<exists>plan. DisjointStorageGroupsPlanner specs = Inr plan \<and> valid_plan specs plan"
proof -
  let ?n = "length specs"
  obtain allocs deallocs where it: "index_times specs [0..<?n] [] [] = (allocs, deallocs)" by fastforce
  have "indexed f {} []" for f by (simp add: indexed_def)
  from index_times_ok [OF this this _ _ it]
  have idx: "indexed (spec_start specs) {..<?n} allocs" "indexed (spec_end specs) {..<?n} deallocs"
    by (simp_all add: atLeast0LessThan)
  obtain st where st: "foldE (time_step specs allocs deallocs) empty_groups [0..<length allocs] = Inr st"
      "group_inv specs (started specs (length allocs)) (length allocs) st"
    using time_steps_inv [OF ok _ idx] by blast
  have "started specs (length allocs) = {..<?n}" using idx(1) by (auto simp: started_def indexed_def)
  then have d: "dom (gs_of st) = {..<?n}" and m: "members_ok specs st" "sharing_ok specs st" "sizes_ok specs {..<?n} st"
    using st(2) by (simp_all add: group_inv_def)
  obtain offs tot where o: "group_offsets (gs_groups st) 0 = (offs, tot)" by fastforce
  note ofs = group_offsets_ok [OF o]
  define grp where "grp i = the (gs_of st i)" for i
  have grp: "gs_of st i = Some (grp i)" if "i < ?n" for i using d that by (metis domIff grp_def lessThan_iff option.collapse)
  let ?al = "\<lambda>i. \<lparr> al_size = as_size (specs ! i), al_offset = offs ! grp i \<rparr>"
  let ?plan = "\<lparr> total_size = tot, allocations = map ?al [0..<?n] \<rparr>"
  have mp: "mapE (\<lambda>i. case gs_of st i of None \<Rightarrow> Inl (StdOutOfRange ''spec_to_storage_group'')
      | Some g \<Rightarrow> Inr \<lparr> al_size = as_size (specs ! i), al_offset = offs ! g \<rparr>) [0..<?n] = Inr (map ?al [0..<?n])"
    by (rule mapE_total) (simp add: grp)
  have plan: "DisjointStorageGroupsPlanner specs = Inr ?plan"
    by (simp add: DisjointStorageGroupsPlanner_def it st(1) o mp)
  have in_group: "grp i < length (gs_groups st)" "as_size (specs ! i) \<le> sg_max (gs_groups st ! grp i)" if "i < ?n" for i
    using m(1) grp [OF that] by (auto simp: members_ok_def)
  have before: "offs ! g + sg_max (gs_groups st ! g) \<le> (if h < length (gs_groups st) then offs ! h else tot)"
    if "g < h" "h \<le> length (gs_groups st)" for g h
    using sum_take_Suc_le [of g h "gs_groups st" sg_max] that ofs by (cases "h = length (gs_groups st)") auto
  have "offs ! grp i + as_size (specs ! i) \<le> tot" if "i < ?n" for i
    using before [of "grp i" "length (gs_groups st)"] in_group [OF that] by simp
  moreover have "separate (offs ! grp i) (as_size (specs ! i)) (offs ! grp j) (as_size (specs ! j))"
    if ij: "i < ?n" "j < ?n" "i \<noteq> j" "\<not> not_overlapping_with (specs ! i) (specs ! j)" for i j
  proof -
    have "grp i \<noteq> grp j" using m(2) ij grp unfolding sharing_ok_def by metis
    then show ?thesis
      using before [of "grp i" "grp j"] before [of "grp j" "grp i"] in_group [OF ij(1)] in_group [OF ij(2)]
      by (cases "grp i < grp j") (auto simp: separate_def)
  qed
  moreover have "tot \<le> sum_list (map as_size specs)"
    using ofs m(3) by (simp add: sizes_ok_def sum_list_sum_nth atLeast0LessThan)
  ultimately show ?thesis unfolding plan by (simp add: valid_plan_def)
qed

interpretation groups: layout_algorithm DisjointStorageGroupsPlanner
  by unfold_locales (rule groups_valid)



end
