(* ===== verification/LayoutPlanning.thy ===== *)
theory LayoutPlanning
  imports AliasAnalysis ExecutionPlanner StorageGroups
begin

text \<open>
  \<open>torch/nativert/executor/memory/LayoutPlanner.cpp\<close>: which values of a graph the planner places in the
  shared buffer, and the plan it recomputes while execution frames report the sizes they have seen.
\<close>

section \<open>Construction\<close>

datatype LayoutPlannerAlgorithmType = Bump | GreedyBySize | DisjointStorageGroups

fun algorithm_of :: "LayoutPlannerAlgorithmType \<Rightarrow> alloc_spec list \<Rightarrow> layout_plan result" where
  "algorithm_of Bump specs = Inr (BumpAllocationPlanner specs)"
| "algorithm_of GreedyBySize specs = Inr (GreedyBySizeAllocationPlanner specs)"
| "algorithm_of DisjointStorageGroups specs = DisjointStorageGroupsPlanner specs"

record layout_planner =
  lp_managed :: "bool list"
  lp_unplanned :: "nat list"
  lp_planned :: "nat list"
  lp_specs :: "alloc_spec list"
  lp_hist :: "nat list"                 \<comment> \<open>\<open>planned_values_historical_max_nbytes_\<close>\<close>
  lp_algorithm :: LayoutPlannerAlgorithmType
  lp_plan :: layout_plan
  lp_started :: bool                    \<comment> \<open>\<open>worker_once_flag_\<close>\<close>

type_synonym spec_map = "(vref \<times> alloc_spec) list"

definition supported_kernel :: "schemas \<Rightarrow> gnode \<Rightarrow> bool" where
  "supported_kernel schemas node = (case schemas (n_target node) of None \<Rightarrow> False | Some s \<Rightarrow> fs_kernel_kind s = kStaticDispatchKernel)"

definition input_values_set :: "graph \<Rightarrow> vref list" where
  "input_values_set g = filter (\<lambda>v. type_eq (v_type (g_value g v)) (Kind KTensor)) (userInputs g)"

text \<open>
  The reasons to leave an output alone, in the order of the code; an output past all of them is managed,
  whatever its device. Indexing a vector out of range is undefined in the code and an error here.
\<close>

definition plan_output ::
  "graph \<Rightarrow> bool list \<Rightarrow> alias_state \<Rightarrow> bool list \<times> spec_map \<Rightarrow> vref \<Rightarrow> (bool list \<times> spec_map) result" where
  "plan_output g persistentValues aa = (\<lambda>(managed, specs) out.
     let vid = value_id g out in
     if vid \<ge> length persistentValues then Inl (StdOutOfRange ''persistentValues'')
     else if persistentValues ! vid then Inr (managed, specs)
     else if kind (v_type (g_value g out)) \<noteq> KTensor then Inr (managed, specs)
     else if out \<in> set (aa_outputs aa) then Inr (managed, specs)
     else if out \<in> set (input_values_set g) then Inr (managed, specs)
     else if is_alias aa out then Inr (managed, specs)
     else if v_users (g_value g out) = [] then Inr (managed, specs)
     else bindE (aa_lifetime aa out) (\<lambda>lt.
       if vid \<ge> length managed then Inl (StdOutOfRange ''managed_values_'')
       else Inr (managed[vid := True],
         AList.update out ((case map_of specs out of None \<Rightarrow> \<lparr> as_lifetime = \<lparr> lt_start = 0, lt_end = 0 \<rparr>, as_size = 0 \<rparr> | Some s \<Rightarrow> s)
            \<lparr> as_lifetime := lt \<rparr>) specs)))"

definition plan_node ::
  "graph \<Rightarrow> schemas \<Rightarrow> bool list \<Rightarrow> alias_state \<Rightarrow> bool list \<times> spec_map \<Rightarrow> gnode \<Rightarrow> (bool list \<times> spec_map) result" where
  "plan_node g schemas persistentValues aa s node =
     (if \<not> supported_kernel schemas node then Inr s else foldE (plan_output g persistentValues aa) s (n_outputs node))"

definition is_managed :: "layout_planner \<Rightarrow> nat \<Rightarrow> bool result" where
  "is_managed p vid = bindE (check (vid < length (lp_managed p)) (CheckError ''static_cast<size_t>(id) < managed_values_.size()''))
     (\<lambda>_. Inr (lp_managed p ! vid))"

definition initialize_vectors :: "graph \<Rightarrow> spec_map \<Rightarrow> layout_planner \<Rightarrow> layout_planner result" where
  "initialize_vectors g specs p =
     bindE (mapE (\<lambda>(v, s). check (lt_start (as_lifetime s) \<le> lt_end (as_lifetime s))
       (CheckError ''lifetime start must be before lifetime end'')) specs) (\<lambda>_.
     Inr (p\<lparr> lp_planned := map (value_id g \<circ> fst) specs, lp_hist := map (as_size \<circ> snd) specs, lp_specs := map snd specs \<rparr>))"

definition collect_unplanned :: "layout_planner \<Rightarrow> nat \<Rightarrow> layout_planner result" where
  "collect_unplanned p v = bindE (is_managed p v) (\<lambda>m. Inr (if m then p else p\<lparr> lp_unplanned := lp_unplanned p @ [v] \<rparr>))"

definition new_planner :: "bool list \<Rightarrow> LayoutPlannerAlgorithmType \<Rightarrow> layout_planner" where
  "new_planner managed alg = \<lparr> lp_managed = managed, lp_unplanned = [], lp_planned = [], lp_specs = [], lp_hist = [],
     lp_algorithm = alg, lp_plan = \<lparr> total_size = 0, allocations = [] \<rparr>, lp_started = False \<rparr>"

definition LayoutPlanner :: "graph \<Rightarrow> schemas \<Rightarrow> bool list \<Rightarrow> LayoutPlannerAlgorithmType \<Rightarrow> layout_planner result" where
  "LayoutPlanner g schemas persistentValues alg =
     bindE (AliasAnalyzer g schemas) (\<lambda>aa.
     bindE (foldE (plan_node g schemas persistentValues aa) (replicate (length (g_values g)) False, []) (nodes g)) (\<lambda>(managed, specs).
     bindE (initialize_vectors g specs (new_planner managed alg)) (\<lambda>p.
       foldE collect_unplanned p (concat (createPlan g)))))"

section \<open>Planning\<close>

definition try_update_max_size_at_index :: "nat \<Rightarrow> nat \<Rightarrow> layout_planner \<Rightarrow> layout_planner" where
  "try_update_max_size_at_index idx nbytes p = p\<lparr> lp_hist := (lp_hist p)[idx := max nbytes (lp_hist p ! idx)] \<rparr>"

definition grow_spec :: "alloc_spec \<times> nat \<Rightarrow> alloc_spec" where
  "grow_spec = (\<lambda>(spec, new_size). if new_size > as_size spec then spec\<lparr> as_size := new_size \<rparr> else spec)"

definition create_plan :: "layout_planner \<Rightarrow> layout_planner result" where
  "create_plan p =
     (let specs = map grow_spec (zip (lp_specs p) (lp_hist p));
          updated = (\<exists>(spec, new_size) \<in> set (zip (lp_specs p) (lp_hist p)). new_size > as_size spec);
          p1 = p\<lparr> lp_specs := specs \<rparr>
      in if updated then bindE (algorithm_of (lp_algorithm p) specs) (\<lambda>plan. Inr (p1\<lparr> lp_plan := plan \<rparr>)) else Inr p1)"

definition start_worker_if_not_started :: "layout_planner \<Rightarrow> layout_planner result" where
  "start_worker_if_not_started p = (if lp_started p then Inr p
     else bindE (create_plan p) (\<lambda>p1. Inr (p1\<lparr> lp_started := True \<rparr>)))"

text \<open>
  The planner in a running process: execution frames report sizes and start the worker, and the worker thread
  replans after every planning interval until the planner is destroyed.
\<close>

inductive planner_step :: "layout_planner \<Rightarrow> layout_planner \<Rightarrow> bool" where
  report: "i < length (lp_hist p) \<Longrightarrow> planner_step p (try_update_max_size_at_index i n p)"
| start: "start_worker_if_not_started p = Inr p' \<Longrightarrow> planner_step p p'"
| tick: "lp_started p \<Longrightarrow> create_plan p = Inr p' \<Longrightarrow> planner_step p p'"

section \<open>The planned values\<close>

interpretation planner_algorithm: layout_algorithm "algorithm_of k" for k
proof
  fix specs assume "\<forall>s \<in> set specs. spec_ok s"
  then show "\<exists>plan. algorithm_of k specs = Inr plan \<and> valid_plan specs plan"
    using bump.algorithm_valid greedy.algorithm_valid groups.algorithm_valid by (cases k) auto
qed

definition plannable :: "graph \<Rightarrow> bool list \<Rightarrow> alias_state \<Rightarrow> vref \<Rightarrow> bool" where
  "plannable g persistentValues aa out \<longleftrightarrow> \<not> persistentValues ! value_id g out \<and> kind (v_type (g_value g out)) = KTensor \<and>
     out \<notin> set (aa_outputs aa) \<and> out \<notin> set (input_values_set g) \<and> \<not> is_alias aa out \<and> v_users (g_value g out) \<noteq> []"

definition planning_inv :: "graph \<Rightarrow> alias_state \<Rightarrow> vref set \<Rightarrow> bool list \<times> spec_map \<Rightarrow> bool" where
  "planning_inv g aa V = (\<lambda>(managed, specs). distinct (map fst specs) \<and> fst ` set specs = V \<and>
     (\<forall>(v, s) \<in> set specs. as_size s = 0 \<and> aa_lifetime aa v = Inr (as_lifetime s)) \<and>
     (\<forall>v \<in> V. value_id g v < length managed) \<and> (\<forall>i < length managed. managed ! i \<longleftrightarrow> i \<in> value_id g ` V))"

lemma planning_inv_add:
  assumes inv: "planning_inv g aa V (managed, specs)" and lt: "aa_lifetime aa out = Inr lt" and i: "value_id g out < length managed"
  shows "planning_inv g aa (insert out V) (managed[value_id g out := True], AList.update out
     ((case map_of specs out of None \<Rightarrow> \<lparr> as_lifetime = \<lparr> lt_start = 0, lt_end = 0 \<rparr>, as_size = 0 \<rparr> | Some s \<Rightarrow> s)
            \<lparr> as_lifetime := lt \<rparr>) specs)"
    (is "planning_inv g aa _ (_, AList.update out ?s specs)")
proof -
  have d: "distinct (map fst specs)" and V: "fst ` set specs = V"
    and ok: "\<And>v s. (v, s) \<in> set specs \<Longrightarrow> as_size s = 0 \<and> aa_lifetime aa v = Inr (as_lifetime s)"
    using inv by (auto simp: planning_inv_def)
  have d': "distinct (map fst (AList.update out ?s specs))" using d by (simp add: distinct_update)
  have mem: "(v, s) \<in> set (AList.update out ?s specs) \<longleftrightarrow> (if v = out then s = ?s else (v, s) \<in> set specs)" for v s
    using map_of_eq_Some_iff [OF d', of v s] map_of_eq_Some_iff [OF d, of v s] by (auto simp: update_conv')
  have sz: "as_size ?s = 0" using ok [of out] by (auto split: option.splits dest: map_of_SomeD)
  have "fst ` set (AList.update out ?s specs) = insert out V" using V by (simp add: dom_update)
  moreover have "\<forall>(v, s) \<in> set (AList.update out ?s specs). as_size s = 0 \<and> aa_lifetime aa v = Inr (as_lifetime s)"
    using ok sz lt by (auto simp: mem split: if_splits)
  ultimately show ?thesis using inv d' i by (auto simp: planning_inv_def nth_list_update)
qed

lemma plan_output_inv:
  assumes "planning_inv g aa V s" "plan_output g persistentValues aa s out = Inr s'"
  shows "planning_inv g aa (if plannable g persistentValues aa out then insert out V else V) s' "
proof -
  obtain managed specs where s: "s = (managed, specs)" by fastforce
  show ?thesis
  proof (cases "plannable g persistentValues aa out")
    case True
    then obtain lt where "aa_lifetime aa out = Inr lt" "value_id g out < length managed"
        "s' = (managed[value_id g out := True], AList.update out
           ((case map_of specs out of None \<Rightarrow> \<lparr> as_lifetime = \<lparr> lt_start = 0, lt_end = 0 \<rparr>, as_size = 0 \<rparr> | Some s \<Rightarrow> s)
            \<lparr> as_lifetime := lt \<rparr>) specs)"
      using assms(2) by (auto simp: s plan_output_def plannable_def Let_def bindE_Inr_iff split: if_splits)
    then show ?thesis using planning_inv_add [of g aa V managed specs out lt] assms(1) True by (simp add: s)
  next
    case False
    then have "s' = s" using assms(2) by (auto simp: s plan_output_def plannable_def Let_def bindE_Inr_iff split: if_splits)
    then show ?thesis using assms(1) False by simp
  qed
qed

lemma plan_outputs_inv:
  assumes "planning_inv g aa V s" "foldE (plan_output g persistentValues aa) s outs = Inr s'"
  shows "planning_inv g aa (V \<union> {out \<in> set outs. plannable g persistentValues aa out}) s'"
  using assms
proof (induction outs arbitrary: V s)
  case (Cons out outs)
  obtain s1 where s1: "plan_output g persistentValues aa s out = Inr s1" "foldE (plan_output g persistentValues aa) s1 outs = Inr s'"
    using Cons.prems(2) by (auto simp: bindE_Inr_iff)
  let ?V1 = "if plannable g persistentValues aa out then insert out V else V"
  have "?V1 \<union> {out \<in> set outs. plannable g persistentValues aa out} = V \<union> {o' \<in> set (out # outs). plannable g persistentValues aa o'}"
    by auto
  then show ?case using Cons.IH [OF plan_output_inv [OF Cons.prems(1) s1(1)] s1(2)] by metis
qed simp

definition planned_by :: "graph \<Rightarrow> schemas \<Rightarrow> bool list \<Rightarrow> alias_state \<Rightarrow> gnode list \<Rightarrow> vref set" where
  "planned_by g schemas persistentValues aa ns =
     {out. \<exists>node \<in> set ns. supported_kernel schemas node \<and> out \<in> set (n_outputs node) \<and> plannable g persistentValues aa out}"

lemma plan_nodes_inv:
  assumes "planning_inv g aa V s" "foldE (plan_node g schemas persistentValues aa) s ns = Inr s'"
  shows "planning_inv g aa (V \<union> planned_by g schemas persistentValues aa ns) s'"
  using assms
proof (induction ns arbitrary: V s)
  case Nil
  then show ?case by (simp add: planned_by_def)
next
  case (Cons n ns)
  obtain s1 where s1: "plan_node g schemas persistentValues aa s n = Inr s1" "foldE (plan_node g schemas persistentValues aa) s1 ns = Inr s'"
    using Cons.prems(2) by (auto simp: bindE_Inr_iff)
  have "planning_inv g aa (V \<union> planned_by g schemas persistentValues aa [n]) s1"
    using s1(1) Cons.prems(1) plan_outputs_inv [OF Cons.prems(1), of persistentValues "n_outputs n" s1]
    by (auto simp: plan_node_def planned_by_def split: if_splits)
  moreover have "planned_by g schemas persistentValues aa [n] \<union> planned_by g schemas persistentValues aa ns =
      planned_by g schemas persistentValues aa (n # ns)"
    by (auto simp: planned_by_def)
  ultimately show ?case using Cons.IH [OF _ s1(2)] by (metis Un_assoc)
qed

lemma collect_unplanned_fields:
  assumes "foldE collect_unplanned p vs = Inr p'"
  shows "lp_managed p' = lp_managed p \<and> lp_planned p' = lp_planned p \<and> lp_specs p' = lp_specs p \<and> lp_hist p' = lp_hist p \<and>
     lp_plan p' = lp_plan p \<and> lp_unplanned p' = lp_unplanned p @ filter (\<lambda>v. \<not> lp_managed p ! v) vs \<and>
     (\<forall>v \<in> set vs. v < length (lp_managed p)) \<and> lp_algorithm p' = lp_algorithm p \<and> lp_started p' = lp_started p"
  using assms
proof (induction vs arbitrary: p)
  case (Cons v vs)
  obtain p1 where p1: "collect_unplanned p v = Inr p1" "foldE collect_unplanned p1 vs = Inr p'"
    using Cons.prems by (auto simp: bindE_Inr_iff)
  have v: "v < length (lp_managed p)" "p1 = (if lp_managed p ! v then p else p\<lparr> lp_unplanned := lp_unplanned p @ [v] \<rparr>)"
    using p1(1) by (auto simp: collect_unplanned_def is_managed_def bindE_Inr_iff)
  show ?case using Cons.IH [OF p1(2)] v by (auto split: if_splits)
qed simp

lemma mapE_check: "mapE (\<lambda>x. check (P x) e) xs = Inr ys \<Longrightarrow> \<forall>x \<in> set xs. P x"
  by (induction xs arbitrary: ys) (auto simp: bindE_Inr_iff)

lemma LayoutPlanner_fields:
  assumes "LayoutPlanner g schemas persistentValues alg = Inr p"
  obtains aa specs where "AliasAnalyzer g schemas = Inr aa"
    "planning_inv g aa (planned_by g schemas persistentValues aa (nodes g)) (lp_managed p, specs)"
    "lp_planned p = map (value_id g \<circ> fst) specs" "lp_specs p = map snd specs" "lp_hist p = map (as_size \<circ> snd) specs"
    "\<forall>s \<in> set (lp_specs p). spec_ok s" "lp_plan p = \<lparr> total_size = 0, allocations = [] \<rparr>" "lp_algorithm p = alg"
    "lp_unplanned p = filter (\<lambda>v. \<not> lp_managed p ! v) (concat (createPlan g))" "length (lp_managed p) = length (g_values g)"
proof -
  obtain aa managed specs p1 where aa: "AliasAnalyzer g schemas = Inr aa"
    and f: "foldE (plan_node g schemas persistentValues aa) (replicate (length (g_values g)) False, []) (nodes g) = Inr (managed, specs)"
    and i: "initialize_vectors g specs (new_planner managed alg) = Inr p1"
    and u: "foldE collect_unplanned p1 (concat (createPlan g)) = Inr p"
    using assms by (auto simp: LayoutPlanner_def bindE_Inr_iff)
  have "planning_inv g aa {} (replicate (length (g_values g)) False, [])" by (simp add: planning_inv_def)
  from plan_nodes_inv [OF this f] have inv: "planning_inv g aa (planned_by g schemas persistentValues aa (nodes g)) (managed, specs)"
    by simp
  obtain us where ck: "mapE (\<lambda>x. check (case x of (v, s) \<Rightarrow> lt_start (as_lifetime s) \<le> lt_end (as_lifetime s))
      (CheckError ''lifetime start must be before lifetime end'')) specs = Inr us"
    and p1: "p1 = (new_planner managed alg)\<lparr> lp_planned := map (value_id g \<circ> fst) specs, lp_hist := map (as_size \<circ> snd) specs, lp_specs := map snd specs \<rparr>"
    using i by (auto simp: initialize_vectors_def bindE_Inr_iff split_def)
  have ok: "\<forall>s \<in> set (map snd specs). spec_ok s" using mapE_check [OF ck] by (auto simp: spec_ok_def)
  have len: "length managed = length (g_values g)"
  proof -
    have "length (fst s') = length (fst s)" if "plan_output g persistentValues aa s v = Inr s'" for s s' v
      using that by (auto simp: plan_output_def Let_def bindE_Inr_iff split: prod.splits if_splits)
    then have "length (fst s') = length (fst s)" if "foldE (plan_output g persistentValues aa) s vs = Inr s'" for s s' vs
      using that by (induction vs arbitrary: s) (auto simp: bindE_Inr_iff)
    then have "length (fst s') = length (fst s)" if "foldE (plan_node g schemas persistentValues aa) s ns = Inr s'" for s s' ns
      using that by (induction ns arbitrary: s) (auto simp: bindE_Inr_iff plan_node_def split: if_splits)
    from this [OF f] show ?thesis by simp
  qed
  note c = collect_unplanned_fields [OF u]
  show ?thesis using that [of aa specs] aa inv c ok len by (simp add: p1 new_planner_def)
qed

text \<open>
  Property: the planner places exactly the outputs of statically dispatched kernels
  that are tensors, not persistent, not user inputs, not aliases, have users, and whose storage is not
  associated with a graph output, each with the lifetime the alias analysis gives it. Every value that the
  execution plan frees is either planned or in the list of values to release separately, never both.
\<close>
theorem planned_or_unplanned:
  assumes "LayoutPlanner g schemas persistentValues alg = Inr p"
  shows "\<exists>aa. AliasAnalyzer g schemas = Inr aa \<and>
    set (lp_planned p) = value_id g ` planned_by g schemas persistentValues aa (nodes g) \<and>
    length (lp_specs p) = length (lp_planned p) \<and>
    (\<forall>i < length (lp_planned p). \<exists>v \<in> planned_by g schemas persistentValues aa (nodes g).
       lp_planned p ! i = value_id g v \<and> aa_lifetime aa v = Inr (as_lifetime (lp_specs p ! i))) \<and>
    (\<forall>vid \<in> set (concat (createPlan g)). (vid \<in> set (lp_planned p)) \<noteq> (vid \<in> set (lp_unplanned p))) \<and>
    set (lp_unplanned p) \<subseteq> set (concat (createPlan g))"
proof -
  obtain aa specs where aa: "AliasAnalyzer g schemas = Inr aa"
    and inv: "planning_inv g aa (planned_by g schemas persistentValues aa (nodes g)) (lp_managed p, specs)"
    and f: "lp_planned p = map (value_id g \<circ> fst) specs" "lp_specs p = map snd specs"
      "lp_unplanned p = filter (\<lambda>v. \<not> lp_managed p ! v) (concat (createPlan g))"
    by (rule LayoutPlanner_fields [OF assms])
  let ?V = "planned_by g schemas persistentValues aa (nodes g)"
  have V: "fst ` set specs = ?V" and lt: "\<And>v s. (v, s) \<in> set specs \<Longrightarrow> aa_lifetime aa v = Inr (as_lifetime s)"
    and m: "\<And>i. i < length (lp_managed p) \<Longrightarrow> lp_managed p ! i \<longleftrightarrow> i \<in> value_id g ` ?V"
    using inv by (auto simp: planning_inv_def)
  have pl: "set (lp_planned p) = value_id g ` ?V" unfolding f(1) V [symmetric] by (simp add: image_comp)
  have u: "foldE collect_unplanned p1 vs = Inr p' \<Longrightarrow> \<forall>v \<in> set vs. v < length (lp_managed p')" for p1 vs p'
    using collect_unplanned_fields by metis
  have less: "\<forall>v \<in> set (concat (createPlan g)). v < length (lp_managed p)"
    using assms u by (auto simp: LayoutPlanner_def bindE_Inr_iff simp del: set_concat)
  have "lp_planned p ! i = value_id g (fst (specs ! i)) \<and> aa_lifetime aa (fst (specs ! i)) = Inr (as_lifetime (lp_specs p ! i)) \<and>
      fst (specs ! i) \<in> ?V" if "i < length (lp_planned p)" for i
    using that f lt [of "fst (specs ! i)" "snd (specs ! i)"] V by auto
  moreover have "(vid \<in> set (lp_planned p)) \<noteq> (vid \<in> set (lp_unplanned p))" if "vid \<in> set (concat (createPlan g))" for vid
  proof -
    have "vid < length (lp_managed p)" using less that by blast
    then show ?thesis using m [of vid] that pl unfolding f(3) set_filter by blast
  qed
  moreover have "set (lp_unplanned p) \<subseteq> set (concat (createPlan g))" by (auto simp: f(3))
  ultimately show ?thesis using aa pl f by (intro exI [of _ aa]) (auto simp del: set_concat)
qed

section \<open>The plan over time\<close>

definition unsized :: "alloc_spec list \<Rightarrow> layout_plan \<Rightarrow> bool" where
  "unsized specs plan \<longleftrightarrow> plan = \<lparr> total_size = 0, allocations = [] \<rparr> \<and> (\<forall>s \<in> set specs. as_size s = 0)"

definition planner_ok :: "layout_planner \<Rightarrow> bool" where
  "planner_ok p \<longleftrightarrow> length (lp_hist p) = length (lp_specs p) \<and> (\<forall>s \<in> set (lp_specs p). spec_ok s) \<and>
     (valid_plan (lp_specs p) (lp_plan p) \<or> unsized (lp_specs p) (lp_plan p))"

lemma grow_spec_lifetime [simp]: "as_lifetime (grow_spec x) = as_lifetime (fst x)"
  by (simp add: grow_spec_def split_def)

lemma grow_spec_size [simp]: "as_size (grow_spec x) = max (as_size (fst x)) (snd x)"
  by (simp add: grow_spec_def split_def max_def)

lemma create_plan_ok:
  assumes "planner_ok p"
  shows "\<exists>p'. create_plan p = Inr p' \<and> planner_ok p' \<and> lp_hist p' = lp_hist p \<and>
    lp_specs p' = map grow_spec (zip (lp_specs p) (lp_hist p))"
proof -
  let ?specs = "map grow_spec (zip (lp_specs p) (lp_hist p))"
  have len: "length (lp_hist p) = length (lp_specs p)" using assms by (simp add: planner_ok_def)
  have ok: "\<forall>s \<in> set ?specs. spec_ok s"
    using assms by (auto simp: planner_ok_def spec_ok_def dest: set_zip_leftD)
  show ?thesis
  proof (cases "\<exists>(spec, new_size) \<in> set (zip (lp_specs p) (lp_hist p)). new_size > as_size spec")
    case True
    obtain plan where "algorithm_of (lp_algorithm p) ?specs = Inr plan" "valid_plan ?specs plan"
      using planner_algorithm.algorithm_valid [OF ok] by blast
    then show ?thesis using True ok len by (auto simp: create_plan_def Let_def planner_ok_def)
  next
    case False
    then have "?specs = map fst (zip (lp_specs p) (lp_hist p))"
      unfolding map_eq_conv by (auto simp: grow_spec_def)
    then have same: "?specs = lp_specs p" using len by simp
    then have "create_plan p = Inr p" using False by (simp add: create_plan_def Let_def)
    then show ?thesis using assms same by simp
  qed
qed

lemma planner_step_ok:
  assumes "planner_step p q" "planner_ok p"
  shows "planner_ok q \<and> map as_lifetime (lp_specs q) = map as_lifetime (lp_specs p)"
proof -
  have cp: "planner_ok q' \<and> map as_lifetime (lp_specs q') = map as_lifetime (lp_specs p)" if "create_plan p = Inr q'" for q'
  proof -
    have "lp_specs q' = map grow_spec (zip (lp_specs p) (lp_hist p))" "planner_ok q'" using create_plan_ok [OF assms(2)] that by auto
    moreover have "length (lp_hist p) = length (lp_specs p)" using assms(2) by (simp add: planner_ok_def)
    moreover have "map as_lifetime (map grow_spec ps) = map as_lifetime (map fst ps)" for ps by simp
    ultimately show ?thesis by (simp only: map_fst_zip)
  qed
  show ?thesis
    using assms
  proof cases
    case (report i n)
    then show ?thesis using assms(2) by (simp add: try_update_max_size_at_index_def planner_ok_def)
  next
    case start
    then consider "q = p" | q' where "create_plan p = Inr q'" "q = q'\<lparr> lp_started := True \<rparr>"
      by (auto simp: start_worker_if_not_started_def bindE_Inr_iff split: if_splits)
    then show ?thesis using assms(2) cp by cases (auto simp: planner_ok_def)
  next
    case tick
    then show ?thesis using cp by simp
  qed
qed

lemma reachable_planner_ok:
  assumes "planner_step\<^sup>*\<^sup>* p q" "planner_ok p"
  shows "planner_ok q \<and> map as_lifetime (lp_specs q) = map as_lifetime (lp_specs p)"
  using assms by (induction) (use planner_step_ok in auto)

lemma new_planner_ok:
  assumes "LayoutPlanner g schemas persistentValues alg = Inr p" shows "planner_ok p"
proof (rule LayoutPlanner_fields [OF assms])
  fix aa specs
  assume "planning_inv g aa (planned_by g schemas persistentValues aa (nodes g)) (lp_managed p, specs)"
    "lp_specs p = map snd specs" "lp_hist p = map (as_size \<circ> snd) specs" "\<forall>s \<in> set (lp_specs p). spec_ok s"
    "lp_plan p = \<lparr> total_size = 0, allocations = [] \<rparr>"
  then show "planner_ok p" by (auto simp: planner_ok_def unsized_def planning_inv_def)
qed

text \<open>
  C22: however the reports of the execution frames, the first start and the
  ticks of the worker interleave, planning never fails, every lifetime stays what the construction made it, and
  the current plan places any two tensors that are alive at a common time in disjoint ranges of the buffer.
  Replanning gives every tensor at least the largest size reported for it.
\<close>
theorem reachable_plans_valid:
  assumes "LayoutPlanner g schemas persistentValues alg = Inr p" "planner_step\<^sup>*\<^sup>* p q"
  shows "map as_lifetime (lp_specs q) = map as_lifetime (lp_specs p) \<and>
    (\<forall>i j t. i < length (allocations (lp_plan q)) \<and> j < length (allocations (lp_plan q)) \<and> i \<noteq> j \<and>
       lt_start (as_lifetime (lp_specs q ! i)) \<le> t \<and> t \<le> lt_end (as_lifetime (lp_specs q ! i)) \<and>
       lt_start (as_lifetime (lp_specs q ! j)) \<le> t \<and> t \<le> lt_end (as_lifetime (lp_specs q ! j)) \<longrightarrow>
       separate (al_offset (allocations (lp_plan q) ! i)) (al_size (allocations (lp_plan q) ! i))
         (al_offset (allocations (lp_plan q) ! j)) (al_size (allocations (lp_plan q) ! j))) \<and>
    (\<exists>q'. create_plan q = Inr q' \<and> length (lp_specs q') = length (lp_hist q) \<and>
       (\<forall>i < length (lp_hist q). lp_hist q ! i \<le> as_size (lp_specs q' ! i)))"
proof -
  have ok: "planner_ok q" "map as_lifetime (lp_specs q) = map as_lifetime (lp_specs p)"
    using reachable_planner_ok [OF assms(2) new_planner_ok [OF assms(1)]] by simp_all
  have sep: "separate (al_offset (allocations (lp_plan q) ! i)) (al_size (allocations (lp_plan q) ! i))
         (al_offset (allocations (lp_plan q) ! j)) (al_size (allocations (lp_plan q) ! j))"
    if "i < length (allocations (lp_plan q))" "j < length (allocations (lp_plan q))" "i \<noteq> j"
       "lt_start (as_lifetime (lp_specs q ! i)) \<le> t" "t \<le> lt_end (as_lifetime (lp_specs q ! i))"
       "lt_start (as_lifetime (lp_specs q ! j)) \<le> t" "t \<le> lt_end (as_lifetime (lp_specs q ! j))" for i j t
  proof -
    have v: "valid_plan (lp_specs q) (lp_plan q)" using ok(1) that(1) by (auto simp: planner_ok_def unsized_def)
    then have "i < length (lp_specs q)" "j < length (lp_specs q)" using that by (auto simp: valid_plan_def)
    moreover then have "\<not> not_overlapping_with (lp_specs q ! i) (lp_specs q ! j)"
      using ok(1) overlapping_iff_time [of "lp_specs q ! i" "lp_specs q ! j"] that by (auto simp: planner_ok_def spec_ok_def)
    ultimately show ?thesis using v that(3) by (simp add: valid_plan_def)
  qed
  obtain q' where "create_plan q = Inr q'" "lp_specs q' = map grow_spec (zip (lp_specs q) (lp_hist q))"
    using create_plan_ok [OF ok(1)] by blast
  moreover have "length (lp_hist q) = length (lp_specs q)" using ok(1) by (simp add: planner_ok_def)
  ultimately have "\<exists>q'. create_plan q = Inr q' \<and> length (lp_specs q') = length (lp_hist q) \<and>
       (\<forall>i < length (lp_hist q). lp_hist q ! i \<le> as_size (lp_specs q' ! i))" by simp
  then show ?thesis using ok(2) sep by blast
qed

section \<open>The plan of the example graph\<close>

definition view_final :: alias_state where
  "view_final = \<lparr> aa_aliases = [(3, [2])],
     aa_lifetimes = [(1, \<lparr> lt_start = 0, lt_end = 1 \<rparr>), (2, \<lparr> lt_start = 1, lt_end = 3 \<rparr>), (3, \<lparr> lt_start = 2, lt_end = 3 \<rparr>),
       (4, \<lparr> lt_start = 3, lt_end = 4 \<rparr>), (5, \<lparr> lt_start = 4, lt_end = 5 \<rparr>), (6, \<lparr> lt_start = 5, lt_end = 6 \<rparr>)],
     aa_outputs = [6], aa_alive = [[1], [1, 2], [2, 3], [2, 3, 4], [4, 5], [5, 6], [6]] \<rparr>"

lemma view_extended: "maybe_extend_lifetimes view_nodes view_analysis =
    view_analysis\<lparr> aa_lifetimes := aa_lifetimes view_final \<rparr>"
  by (simp add: maybe_extend_lifetimes_def view_nodes_def mk_node_def input_values_def extend_input_def extend_source_def
      view_analysis_def lifetime_or_default_def view_final_def Let_def is_alias_def)

lemma view_squashed: "squash_deep_aliases view_nodes (view_analysis\<lparr> aa_lifetimes := L \<rparr>) = view_analysis\<lparr> aa_lifetimes := L \<rparr>"
  by (simp add: squash_deep_aliases_def view_nodes_def mk_node_def squash_output_def filter_source_def emplace_def view_analysis_def)

lemma view_analyzer: "AliasAnalyzer view_graph view_schemas = Inr view_final"
proof -
  have "graph_outputs view_graph = [6]" by (simp add: graph_outputs_def view_graph_def view_nodes_def mk_node_def input_values_def)
  moreover have "length view_nodes = 7" by (simp add: view_nodes_def)
  ultimately show ?thesis
    unfolding AliasAnalyzer_eq [OF view_analysis_ok] nodes_view_graph view_extended view_squashed
    by (simp add: set_outputs_def is_alias_def emplace_def view_analysis_def view_final_def alive_at_def upt_rec)
qed

definition view_planner :: layout_planner where
  "view_planner = \<lparr> lp_managed = [False, True, False, True, True, False], lp_unplanned = [2], lp_planned = [1, 3, 4],
     lp_specs = [\<lparr> as_lifetime = \<lparr> lt_start = 1, lt_end = 3 \<rparr>, as_size = 0 \<rparr>, \<lparr> as_lifetime = \<lparr> lt_start = 3, lt_end = 4 \<rparr>, as_size = 0 \<rparr>,
       \<lparr> as_lifetime = \<lparr> lt_start = 4, lt_end = 5 \<rparr>, as_size = 0 \<rparr>],
     lp_hist = [0, 0, 0], lp_algorithm = DisjointStorageGroups, lp_plan = \<lparr> total_size = 0, allocations = [] \<rparr>, lp_started = False \<rparr>"

lemma view_createPlan: "createPlan view_graph = [[], [], [], [2], [1, 3], [4], []]"
proof -
  have "last_used_by view_graph = [(5, 6), (4, 5), (1, 4), (3, 4), (2, 3), (0, 1)]"
    unfolding last_used_by_def nodes_view_graph
    by (simp add: view_nodes_def mk_node_def input_values_def record_use_def value_id_def view_value_def view_graph_def)
  moreover have "staticValues view_graph = [0, 5]"
    unfolding staticValues_def nodes_view_graph
    by (simp add: view_nodes_def mk_node_def static_of_node_def input_values_def value_id_def view_value_def view_graph_def
        graph_inputs_def graph_outputs_def nullptr_def)
  moreover have "length (nodes view_graph) = 7" by (simp add: nodes_view_graph view_nodes_def)
  ultimately show ?thesis by (simp add: createPlan_def generateDeallocationPlan_def numeral_eq_Suc)
qed

lemma view_planner_ok: "LayoutPlanner view_graph view_schemas (replicate 6 False) DisjointStorageGroups = Inr view_planner"
proof -
  have "foldE (plan_node view_graph view_schemas (replicate 6 False) view_final) (replicate (length (g_values view_graph)) False, []) view_nodes
     = Inr ([False, True, False, True, True, False], zip [2, 4, 5] (lp_specs view_planner))"
    unfolding input_values_set_def
    by (simp add: view_nodes_def mk_node_def plan_node_def supported_kernel_def view_schemas_def plan_output_def Let_def
        value_id_def view_graph_def view_value_def view_final_def userInputs_def graph_inputs_def is_alias_def aa_lifetime_def
        view_planner_def input_values_set_def empty_signature_def)
  moreover have "value_id view_graph v = v - 1" for v by (simp add: value_id_def view_graph_def view_value_def)
  ultimately show ?thesis
    by (simp add: LayoutPlanner_def view_analyzer nodes_view_graph initialize_vectors_def view_createPlan collect_unplanned_def
        is_managed_def new_planner_def view_planner_def)
qed

definition view_reported :: layout_planner where
  "view_reported = try_update_max_size_at_index 2 64 (try_update_max_size_at_index 1 64 (try_update_max_size_at_index 0 64 view_planner))"

lemma view_reported_reachable: "planner_step\<^sup>*\<^sup>* view_planner view_reported"
proof -
  have s: "planner_step p (try_update_max_size_at_index i 64 p)" if "i < length (lp_hist p)" for p i using report [OF that] .
  let ?p1 = "try_update_max_size_at_index 0 64 view_planner" let ?p2 = "try_update_max_size_at_index 1 64 ?p1"
  have "planner_step view_planner ?p1" "planner_step ?p1 ?p2" "planner_step ?p2 view_reported"
    unfolding view_reported_def by (rule s; simp add: view_planner_def try_update_max_size_at_index_def)+
  then show ?thesis by (meson converse_rtranclp_into_rtranclp rtranclp.rtrancl_refl)
qed

theorem planned_or_unplanned_witness:
  "\<exists>aa. AliasAnalyzer view_graph view_schemas = Inr aa \<and>
     (\<forall>vid \<in> {1, 2, 3, 4}. (vid \<in> set (lp_planned view_planner)) \<noteq> (vid \<in> set (lp_unplanned view_planner)))"
  using planned_or_unplanned [OF view_planner_ok] unfolding view_createPlan by auto

theorem reachable_plans_valid_witness:
  "\<exists>q'. create_plan view_reported = Inr q' \<and> 64 \<le> as_size (lp_specs q' ! 0)"
  using reachable_plans_valid [OF view_planner_ok view_reported_reachable]
  by (auto simp: view_reported_def try_update_max_size_at_index_def view_planner_def)

text \<open>
  C28: the plan of the example graph. Because the alias analysis ends the lifetime
  of the value 2 before node 4 reads it, the planner places the output of node 4 (the third planned value) at the
  offset of the value 2 (the first): the kernel of node 4 writes its result over one of its own inputs.
\<close>
theorem reader_overwritten:
  "\<exists>p. LayoutPlanner view_graph view_schemas (replicate 6 False) DisjointStorageGroups = Inr p \<and>
     lp_planned p ! 0 = value_id view_graph 2 \<and> lp_planned p ! 2 = value_id view_graph 5 \<and>
     2 \<in> set (input_values (nodes view_graph ! 4)) \<and> n_outputs (nodes view_graph ! 4) = [5] \<and>
     (\<exists>q r. planner_step\<^sup>*\<^sup>* p q \<and> create_plan q = Inr r \<and> al_size (allocations (lp_plan r) ! 0) = 64 \<and>
        al_size (allocations (lp_plan r) ! 2) = 64 \<and>
        al_offset (allocations (lp_plan r) ! 0) = al_offset (allocations (lp_plan r) ! 2))"
proof -
  let ?plan = "\<lparr> total_size = 128, allocations = [\<lparr> al_size = 64, al_offset = 0 \<rparr>, \<lparr> al_size = 64, al_offset = 64 \<rparr>, \<lparr> al_size = 64, al_offset = 0 \<rparr>] \<rparr>"
  let ?specs = "[\<lparr> as_lifetime = \<lparr> lt_start = 1, lt_end = 3 \<rparr>, as_size = 64 \<rparr>, \<lparr> as_lifetime = \<lparr> lt_start = 3, lt_end = 4 \<rparr>, as_size = 64 \<rparr>,
       \<lparr> as_lifetime = \<lparr> lt_start = 4, lt_end = 5 \<rparr>, as_size = 64 \<rparr>]"
  have it: "index_times ?specs [0, 1, 2] [] [] = ([[], [0], [], [1], [2]], [[], [], [], [0], [1], [2]])"
    by (simp add: spec_start_def spec_end_def resize_def numeral_eq_Suc)
  have r: "[0..<length ?specs] = [0, 1, 2]" "[0..<length [[], [0], [], [1], [2::nat]]] = [0, 1, 2, 3, 4]" by (simp_all add: upt_rec)
  have plan: "DisjointStorageGroupsPlanner ?specs = Inr ?plan"
    unfolding DisjointStorageGroupsPlanner_def r(1) it prod.case r(2)
    by (simp add: time_step_def allocate_spec_def createStorageGroup_def StorageGroup_def
        empty_groups_def deallocate_spec_def spec_end_def assignToAvailableStorageGroup_def add_spec_def)
  have "create_plan view_reported = Inr (view_reported\<lparr> lp_specs := ?specs, lp_plan := ?plan \<rparr>)"
    using plan by (simp add: create_plan_def Let_def view_reported_def try_update_max_size_at_index_def view_planner_def grow_spec_def)
  moreover have "lp_planned view_planner ! 0 = value_id view_graph 2" "lp_planned view_planner ! 2 = value_id view_graph 5"
    by (simp_all add: view_planner_def value_id_def view_graph_def view_value_def)
  moreover have "2 \<in> set (input_values (nodes view_graph ! 4))" "n_outputs (nodes view_graph ! 4) = [5]"
    by (simp_all add: nodes_view_graph view_nodes_def mk_node_def input_values_def)
  ultimately show ?thesis
    using view_planner_ok view_reported_reachable
    by (intro exI [of _ view_planner] conjI exI [of _ view_reported] exI [of _ "view_reported\<lparr> lp_specs := ?specs, lp_plan := ?plan \<rparr>"])
      simp_all
qed

end
