(* ===== verification/LayoutManagement.thy ===== *)
theory LayoutManagement
  imports LayoutPlanning
begin

text \<open>
  \<open>torch/nativert/executor/memory/LayoutManager.cpp\<close> and \<open>LayoutManager.h\<close>: the buffer of one execution frame, the
  storages placed in it according to the current plan, and the life cycle of the manager. Addresses are natural
  numbers, 0 is the null pointer; the address that the CPU allocator returns is an argument.
\<close>

section \<open>Alignment\<close>

definition gAlignment :: u64 where "gAlignment = 64"
definition gPagesize :: u64 where "gPagesize = 4096"
definition gAlloc_threshold_thp :: u64 where "gAlloc_threshold_thp = 2 * 1024 * 1024"

definition is_thp_alloc :: "bool \<Rightarrow> u64 \<Rightarrow> bool" where
  "is_thp_alloc thp_enabled nbytes \<longleftrightarrow> thp_enabled \<and> nbytes \<ge> gAlloc_threshold_thp"

text \<open>\<open>pagesize\<close> is the answer of \<open>sysconf\<close>, negative when the kernel does not provide it.\<close>

definition c10_compute_alignment :: "bool \<Rightarrow> int \<Rightarrow> u64 \<Rightarrow> u64" where
  "c10_compute_alignment thp_enabled pagesize nbytes =
     (let thp_alignment = (if pagesize < 0 then gPagesize else word_of_int pagesize) in
      if is_thp_alloc thp_enabled nbytes then thp_alignment else gAlignment)"

definition get_aligned_nbytes :: "bool \<Rightarrow> int \<Rightarrow> u64 \<Rightarrow> u64" where
  "get_aligned_nbytes thp_enabled pagesize nbytes =
     (let alignment = c10_compute_alignment thp_enabled pagesize nbytes in
      (nbytes + alignment - 1) AND NOT (alignment - 1))"

definition valid_pagesize :: "int \<Rightarrow> bool" where
  "valid_pagesize ps \<longleftrightarrow> ps < 0 \<or> (\<exists>k < 32. ps = 2 ^ k)"

lemma alignment_power:
  assumes "valid_pagesize ps"
  shows "\<exists>k < 32. c10_compute_alignment thp ps n = 2 ^ k"
proof -
  have "(64::u64) = 2 ^ 6" "(4096::u64) = 2 ^ 12" by simp_all
  then have "\<exists>k < 32. gAlignment = 2 ^ k" "\<exists>k < 32. gPagesize = 2 ^ k"
    unfolding gAlignment_def gPagesize_def by (metis numeral_less_iff semiring_norm(76,78,81))+
  moreover have "\<exists>k < 32. (word_of_int ps :: u64) = 2 ^ k" if "\<not> ps < 0" using assms that by (auto simp: valid_pagesize_def)
  ultimately show ?thesis by (simp add: c10_compute_alignment_def Let_def)
qed

text \<open>
  Property: with a page size that is a power of two (or not known), rounding a size
  up to the alignment gives the least multiple of the alignment that is not below the size, as long as the sum of the
  two fits 64 bits.
\<close>
theorem aligned_nbytes_bounds:
  assumes "valid_pagesize ps" "a = c10_compute_alignment thp ps n" "unat n + unat a \<le> 2 ^ 64"
  shows "unat n \<le> unat (get_aligned_nbytes thp ps n) \<and> unat (get_aligned_nbytes thp ps n) < unat n + unat a \<and>
    unat a dvd unat (get_aligned_nbytes thp ps n)"
proof -
  obtain k where k: "k < 32" "a = 2 ^ k" using alignment_power [OF assms(1), of thp n] assms(2) by auto
  have ua: "unat a = 2 ^ k" using k unat_2pow_u64 [of k] by simp
  have pos: "unat a > 0" using ua by simp
  have x: "unat (n + a - 1) = unat n + unat a - 1"
  proof -
    have "n + a - 1 = of_nat (unat n + unat a - 1)" using pos by (simp add: of_nat_diff)
    moreover have "unat (of_nat (unat n + unat a - 1) :: u64) = unat n + unat a - 1"
      using assms(3) pos by (simp only: unat_of_nat) (simp add: take_bit_eq_mod)
    ultimately show ?thesis by simp
  qed
  have "get_aligned_nbytes thp ps n = (n + a - 1) AND NOT (mask k)"
    using assms(2) k by (simp add: get_aligned_nbytes_def Let_def mask_eq_exp_minus_1)
  then have r: "unat (get_aligned_nbytes thp ps n) = (unat n + unat a - 1) - (unat n + unat a - 1) mod unat a"
    by (simp add: unat_and_not_mask x ua)
  have "(unat n + unat a - 1) mod unat a < unat a" using pos by simp
  moreover have "unat a dvd (unat n + unat a - 1) - (unat n + unat a - 1) mod unat a" by (rule dvd_minus_mod)
  ultimately show ?thesis unfolding r using pos by linarith
qed
theorem aligned_nbytes_bounds_witness:
  "unat (100::u64) \<le> unat (get_aligned_nbytes False 4096 100) \<and> unat (get_aligned_nbytes False 4096 100) < 164 \<and>
   64 dvd unat (get_aligned_nbytes False 4096 100)"
proof -
  have "valid_pagesize 4096" unfolding valid_pagesize_def by (intro disjI2 exI [of _ 12]) simp
  moreover have a: "c10_compute_alignment False 4096 100 = 64"
    by (simp add: c10_compute_alignment_def is_thp_alloc_def gAlignment_def)
  ultimately show ?thesis using aligned_nbytes_bounds [of 4096 64 False 100] by simp
qed

section \<open>The buffer\<close>

record layout_buffer =
  lb_size :: nat
  lb_ptr :: nat

definition lb_empty :: layout_buffer where "lb_empty = \<lparr> lb_size = 0, lb_ptr = 0 \<rparr>"

definition get_offset_from_ptr :: "layout_buffer \<Rightarrow> nat \<Rightarrow> nat option" where
  "get_offset_from_ptr b offset_ptr =
     (if lb_ptr b = 0 \<or> offset_ptr = 0 then None
      else let offset = int offset_ptr - int (lb_ptr b) in
        if offset < 0 \<or> nat offset \<ge> lb_size b then None else Some (nat offset))"

definition get_ptr_with_offset :: "layout_buffer \<Rightarrow> nat \<Rightarrow> nat result" where
  "get_ptr_with_offset b offset =
     bindE (check (lb_ptr b \<noteq> 0) (CheckError ''raw_ptr != nullptr'')) (\<lambda>_.
     bindE (check (offset \<le> lb_size b) (CheckError ''offset <= size_'')) (\<lambda>_. Inr (lb_ptr b + offset)))"

definition lb_deallocate :: "layout_buffer \<Rightarrow> layout_buffer" where
  "lb_deallocate b = lb_empty"

definition lb_clear :: "nat \<Rightarrow> layout_buffer \<Rightarrow> layout_buffer result" where
  "lb_clear n b = bindE (check (n \<le> lb_size b) (CheckError ''size <= size_'')) (\<lambda>_. Inr b)"

text \<open>The contents of the buffer are not modelled: \<open>clear\<close> only checks its bound.\<close>

definition lb_allocate :: "nat \<Rightarrow> nat \<Rightarrow> layout_buffer \<Rightarrow> layout_buffer result" where
  "lb_allocate addr n b =
     (if lb_size b > 0 \<and> n \<le> lb_size b then lb_clear (lb_size b) b
      else Inr \<lparr> lb_size = n, lb_ptr = addr \<rparr>)"

section \<open>Storages and tensors\<close>

datatype data_ptr = AllocatorOwned | At nat

record storage_impl =
  si_data :: data_ptr
  si_nbytes :: nat

text \<open>The storage of a tensor: one of its own, or an element of \<open>storage_impl_buffer_\<close>.\<close>

datatype tensor_storage = Own storage_impl | Managed nat

record tensor =
  t_storage :: tensor_storage
  t_nbytes :: nat

datatype LayoutManagerState = WaitingForValues | AllocatingStorages | Running

record layout_manager =
  lm_state :: LayoutManagerState
  lm_tensors :: "tensor list"            \<comment> \<open>the tensors \<open>planned_tensors_\<close> points to\<close>
  lm_local_max :: "nat list"             \<comment> \<open>\<open>planned_tensors_max_nbytes_local_\<close>\<close>
  lm_unplanned :: "nat list"             \<comment> \<open>the values \<open>unplanned_ivalues_\<close> points to\<close>
  lm_buffer :: layout_buffer
  lm_storages :: "storage_impl list"     \<comment> \<open>\<open>storage_impl_buffer_\<close>, its first \<open>size_\<close> elements\<close>
  lm_capacity :: nat
  lm_dealloc_between :: bool             \<comment> \<open>\<open>settings_.deallocateBetweenRequests()\<close>\<close>

definition LayoutManager :: "bool \<Rightarrow> layout_manager" where
  "LayoutManager dealloc_between = \<lparr> lm_state = WaitingForValues, lm_tensors = [], lm_local_max = [], lm_unplanned = [],
     lm_buffer = lb_empty, lm_storages = [], lm_capacity = 0, lm_dealloc_between = dealloc_between \<rparr>"

definition storage_nbytes :: "layout_manager \<Rightarrow> tensor \<Rightarrow> nat" where
  "storage_nbytes m t = (case t_storage t of Own s \<Rightarrow> si_nbytes s | Managed k \<Rightarrow> si_nbytes (lm_storages m ! k))"

definition to_managed :: "nat \<Rightarrow> layout_manager \<Rightarrow> (nat \<times> layout_manager) result" where
  "to_managed nbytes m = bindE (check (length (lm_storages m) < lm_capacity m) (CheckError ''size_ < capacity_'')) (\<lambda>_.
     Inr (length (lm_storages m), m\<lparr> lm_storages := lm_storages m @ [\<lparr> si_data = AllocatorOwned, si_nbytes = nbytes \<rparr>] \<rparr>))"

definition ensure_managed_storage :: "bool \<Rightarrow> layout_manager \<Rightarrow> nat \<Rightarrow> layout_manager result" where
  "ensure_managed_storage allocating m i =
     (let t = lm_tensors m ! i in
      bindE (if allocating then to_managed (storage_nbytes m t) m
             else Inr (i, m)) (\<lambda>(k, m1).
        Inr (m1\<lparr> lm_tensors := (lm_tensors m1)[i := \<lparr> t_storage = Managed k, t_nbytes = 0 \<rparr>] \<rparr>)))"

definition ensure_managed_storages :: "bool \<Rightarrow> layout_manager \<Rightarrow> layout_manager result" where
  "ensure_managed_storages allocating m =
     (if lm_tensors m = [] then Inr m
      else let m1 = (if allocating then m\<lparr> lm_storages := [], lm_capacity := length (lm_tensors m) \<rparr> else m)
        in foldE (ensure_managed_storage allocating) m1 [0..<length (lm_tensors m1)])"

definition place_storage :: "layout_manager \<Rightarrow> nat \<times> allocation \<Rightarrow> layout_manager result" where
  "place_storage m = (\<lambda>(i, a).
     let m1 = m\<lparr> lm_local_max := (lm_local_max m)[i := max (lm_local_max m ! i) (al_size a)] \<rparr> in
     bindE (get_ptr_with_offset (lm_buffer m1) (al_offset a)) (\<lambda>ptr.
       Inr (m1\<lparr> lm_storages := (lm_storages m1)[i := \<lparr> si_data = At ptr, si_nbytes = al_size a \<rparr>] \<rparr>)))"

definition allocate_plan :: "nat \<Rightarrow> layout_plan \<Rightarrow> layout_manager \<Rightarrow> layout_manager result" where
  "allocate_plan addr plan m =
     (if length (lm_storages m) = 0 \<or> total_size plan = 0 then Inr m
      else bindE (lb_allocate addr (total_size plan) (lm_buffer m)) (\<lambda>b.
        foldE place_storage (m\<lparr> lm_buffer := b \<rparr>) (enumerate 0 (allocations plan))))"

definition lm_allocate :: "nat \<Rightarrow> layout_plan \<Rightarrow> layout_manager \<Rightarrow> layout_manager result" where
  "lm_allocate addr plan m =
     (if lm_state m = WaitingForValues then Inr m
      else let should_allocate_storages = (lm_state m = AllocatingStorages) in
        bindE (ensure_managed_storages should_allocate_storages m) (\<lambda>m1.
        bindE (allocate_plan addr plan m1) (\<lambda>m2.
          Inr (if should_allocate_storages then m2\<lparr> lm_state := Running \<rparr> else m2))))"

section \<open>After a run\<close>

definition populate_tensor_values :: "(nat \<Rightarrow> tensor) \<Rightarrow> layout_planner \<Rightarrow> layout_manager \<Rightarrow> layout_manager result" where
  "populate_tensor_values frame p m =
     bindE (check (lm_tensors m = []) (CheckError ''planned_tensors_.empty()'')) (\<lambda>_.
     bindE (check (lm_unplanned m = []) (CheckError ''unplanned_ivalues_.empty()'')) (\<lambda>_.
       Inr (m\<lparr> lm_tensors := map frame (lp_planned p), lm_local_max := replicate (length (lp_planned p)) 0,
         lm_unplanned := lp_unplanned p \<rparr>)))"

definition update_max :: "(nat \<Rightarrow> nat) \<Rightarrow> layout_manager \<times> layout_planner \<Rightarrow> nat \<Rightarrow> layout_manager \<times> layout_planner" where
  "update_max align = (\<lambda>(m, p) i.
     let nbytes = align (t_nbytes (lm_tensors m ! i)) in
     if nbytes > lm_local_max m ! i
     then (m\<lparr> lm_local_max := (lm_local_max m)[i := nbytes] \<rparr>, try_update_max_size_at_index i nbytes p)
     else (m, p))"

definition try_update_historical_max_nbytes :: "(nat \<Rightarrow> nat) \<Rightarrow> layout_manager \<Rightarrow> layout_planner \<Rightarrow> layout_manager \<times> layout_planner" where
  "try_update_historical_max_nbytes align m p = foldl (update_max align) (m, p) [0..<length (lm_tensors m)]"

definition deallocate_and_plan ::
  "(nat \<Rightarrow> nat) \<Rightarrow> (nat \<Rightarrow> tensor) \<Rightarrow> layout_manager \<Rightarrow> layout_planner \<Rightarrow> (layout_manager \<times> layout_planner) result" where
  "deallocate_and_plan align frame m p =
     (let uninitialized = (lm_state m = WaitingForValues) in
      bindE (if uninitialized then populate_tensor_values frame p m else Inr m) (\<lambda>m1.
      case try_update_historical_max_nbytes align m1 p of (m2, p2) \<Rightarrow>
      bindE (if uninitialized then start_worker_if_not_started p2 else Inr p2) (\<lambda>p3.
        Inr (if uninitialized then m2\<lparr> lm_state := AllocatingStorages \<rparr>
             else if lm_dealloc_between m2 then m2\<lparr> lm_buffer := lb_deallocate (lm_buffer m2) \<rparr> else m2, p3))))"

section \<open>Placement\<close>

lemma ensure_managed_storages_ok:
  assumes "lm_tensors m \<noteq> []"
  shows "\<exists>S c. ensure_managed_storages b m = Inr (m\<lparr> lm_storages := S, lm_capacity := c,
      lm_tensors := map (\<lambda>j. \<lparr> t_storage = Managed j, t_nbytes = 0 \<rparr>) [0..<length (lm_tensors m)] \<rparr>) \<and>
    length S = (if b then length (lm_tensors m) else length (lm_storages m))"
proof -
  let ?n = "length (lm_tensors m)" let ?t = "\<lambda>j. \<lparr> t_storage = Managed j, t_nbytes = 0 \<rparr>"
  let ?m1 = "if b then m\<lparr> lm_storages := [], lm_capacity := ?n \<rparr> else m"
  have "\<exists>S. foldE (ensure_managed_storage b) ?m1 [0..<k] = Inr (?m1\<lparr> lm_storages := S,
      lm_tensors := map ?t [0..<k] @ drop k (lm_tensors m) \<rparr>) \<and> length S = (if b then k else length (lm_storages m))"
    if "k \<le> ?n" for k
    using that
  proof (induction k)
    case 0
    then show ?case by (cases b) (auto intro: exI [of _ "lm_storages m"])
  next
    case (Suc k)
    then obtain S where S: "foldE (ensure_managed_storage b) ?m1 [0..<k] = Inr (?m1\<lparr> lm_storages := S,
        lm_tensors := map ?t [0..<k] @ drop k (lm_tensors m) \<rparr>)" "length S = (if b then k else length (lm_storages m))"
      by auto
    have upd: "(map ?t [0..<k] @ drop k (lm_tensors m))[k := ?t k] = map ?t [0..<Suc k] @ drop (Suc k) (lm_tensors m)"
      using Suc.prems by (simp add: list_update_append Cons_nth_drop_Suc [symmetric])
    let ?m = "?m1\<lparr> lm_storages := S, lm_tensors := map ?t [0..<k] @ drop k (lm_tensors m) \<rparr>"
    have e: "\<exists>S'. ensure_managed_storage b ?m k = Inr (?m1\<lparr> lm_storages := S',
        lm_tensors := map ?t [0..<Suc k] @ drop (Suc k) (lm_tensors m) \<rparr>) \<and> length S' = (if b then Suc k else length (lm_storages m))"
      by (rule exI [of _ "if b then S @ [\<lparr> si_data = AllocatorOwned, si_nbytes = storage_nbytes ?m (lm_tensors ?m ! k) \<rparr>] else S"])
        (use S(2) Suc.prems upd in \<open>cases b; simp add: ensure_managed_storage_def to_managed_def Let_def\<close>)
    have step: "foldE f s [0..<Suc k] = bindE (foldE f s [0..<k]) (\<lambda>s'. f s' k)" for f :: "layout_manager \<Rightarrow> nat \<Rightarrow> layout_manager result" and s
      by (simp add: foldE_append) (cases "foldE f s [0..<k]"; simp add: bindE_def split: sum.split)
    show ?case using e by (simp only: step S(1) bindE_simps)
  qed
  from this [of ?n] obtain S where "foldE (ensure_managed_storage b) ?m1 [0..<?n] = Inr (?m1\<lparr> lm_storages := S, lm_tensors := map ?t [0..<?n] \<rparr>)"
      "length S = (if b then ?n else length (lm_storages m))" by auto
  then show ?thesis
    using assms by (intro exI [of _ S] exI [of _ "lm_capacity ?m1"]) (auto simp: ensure_managed_storages_def Let_def)
qed

definition placed :: "layout_buffer \<Rightarrow> allocation \<Rightarrow> storage_impl" where
  "placed b a = \<lparr> si_data = At (lb_ptr b + al_offset a), si_nbytes = al_size a \<rparr>"

lemma place_storages_ok:
  assumes "lb_ptr (lm_buffer m) \<noteq> 0" "\<forall>a \<in> set as. al_offset a \<le> lb_size (lm_buffer m)" "k + length as \<le> length (lm_storages m)"
    "length (lm_local_max m) = length (lm_storages m)"
  shows "\<exists>L. foldE place_storage m (enumerate k as) = Inr (m\<lparr> lm_local_max := L,
      lm_storages := take k (lm_storages m) @ map (placed (lm_buffer m)) as @ drop (k + length as) (lm_storages m) \<rparr>) \<and>
    length L = length (lm_local_max m)"
  using assms
proof (induction as arbitrary: m k)
  case Nil
  then show ?case by (intro exI [of _ "lm_local_max m"]) simp
next
  case (Cons a as)
  let ?m1 = "m\<lparr> lm_local_max := (lm_local_max m)[k := max (lm_local_max m ! k) (al_size a)],
      lm_storages := (lm_storages m)[k := placed (lm_buffer m) a] \<rparr>"
  have p: "place_storage m (k, a) = Inr ?m1"
    using Cons.prems by (simp add: place_storage_def get_ptr_with_offset_def Let_def placed_def)
  have "\<exists>L. foldE place_storage ?m1 (enumerate (Suc k) as) = Inr (?m1\<lparr> lm_local_max := L,
      lm_storages := take (Suc k) (lm_storages ?m1) @ map (placed (lm_buffer ?m1)) as @ drop (Suc k + length as) (lm_storages ?m1) \<rparr>) \<and>
    length L = length (lm_local_max ?m1)"
    by (rule Cons.IH) (use Cons.prems in auto)
  moreover have "take (Suc k) ((lm_storages m)[k := placed (lm_buffer m) a]) = take k (lm_storages m) @ [placed (lm_buffer m) a]"
    using Cons.prems(3) by (simp add: take_Suc_conv_app_nth)
  ultimately show ?case using p Cons.prems(3) by auto
qed

definition manager_ok :: "layout_manager \<Rightarrow> layout_planner \<Rightarrow> bool" where
  "manager_ok m p \<longleftrightarrow> planner_ok p \<and> length (lp_planned p) = length (lp_specs p) \<and> length (lm_local_max m) = length (lm_tensors m) \<and>
     (case lm_state m of
        WaitingForValues \<Rightarrow> lm_tensors m = [] \<and> lm_unplanned m = [] \<and> lm_storages m = []
      | AllocatingStorages \<Rightarrow> length (lm_tensors m) = length (lp_specs p) \<and> lm_storages m = []
      | Running \<Rightarrow> length (lm_tensors m) = length (lp_specs p) \<and> length (lm_storages m) = length (lm_tensors m)) \<and>
     (lb_size (lm_buffer m) > 0 \<longrightarrow> lb_ptr (lm_buffer m) \<noteq> 0)"

text \<open>The storages of a manager are laid out by the plan: every slice is inside the buffer.\<close>

definition laid_out :: "layout_plan \<Rightarrow> layout_manager \<Rightarrow> bool" where
  "laid_out plan m \<longleftrightarrow> lm_storages m = map (placed (lm_buffer m)) (allocations plan) \<and> total_size plan \<le> lb_size (lm_buffer m) \<and>
     lm_tensors m = map (\<lambda>j. \<lparr> t_storage = Managed j, t_nbytes = 0 \<rparr>) [0..<length (allocations plan)] \<and>
     (\<forall>a \<in> set (allocations plan). al_offset a + al_size a \<le> lb_size (lm_buffer m))"

lemma lb_allocate_ok:
  assumes "addr \<noteq> 0" "n > 0" "lb_size b > 0 \<longrightarrow> lb_ptr b \<noteq> 0"
  shows "\<exists>b'. lb_allocate addr n b = Inr b' \<and> n \<le> lb_size b' \<and> lb_ptr b' \<noteq> 0"
  using assms by (auto simp: lb_allocate_def lb_clear_def)

lemma allocate_plan_ok:
  assumes v: "valid_plan specs plan" and len: "length (lm_storages m) = length specs" "length (lm_local_max m) = length specs"
    and ne: "specs \<noteq> []" "total_size plan > 0" and addr: "addr \<noteq> 0" "lb_size (lm_buffer m) > 0 \<longrightarrow> lb_ptr (lm_buffer m) \<noteq> 0"
  shows "\<exists>b L. allocate_plan addr plan m = Inr (m\<lparr> lm_buffer := b, lm_local_max := L, lm_storages := map (placed b) (allocations plan) \<rparr>) \<and>
    length L = length specs \<and> total_size plan \<le> lb_size b \<and> lb_ptr b \<noteq> 0"
proof -
  obtain b where b: "lb_allocate addr (total_size plan) (lm_buffer m) = Inr b" "total_size plan \<le> lb_size b" "lb_ptr b \<noteq> 0"
    using lb_allocate_ok [OF addr(1) ne(2) addr(2)] by blast
  have al: "length (allocations plan) = length specs" "\<forall>a \<in> set (allocations plan). al_offset a + al_size a \<le> total_size plan"
    using v by (auto simp: valid_plan_def in_set_conv_nth)
  let ?m = "m\<lparr> lm_buffer := b \<rparr>"
  have "\<exists>L. foldE place_storage ?m (enumerate 0 (allocations plan)) = Inr (?m\<lparr> lm_local_max := L,
      lm_storages := take 0 (lm_storages ?m) @ map (placed (lm_buffer ?m)) (allocations plan) @ drop (0 + length (allocations plan)) (lm_storages ?m) \<rparr>) \<and>
    length L = length (lm_local_max ?m)"
    by (rule place_storages_ok) (use b al len in \<open>auto dest: bspec intro: le_trans\<close>)
  then obtain L where L: "foldE place_storage ?m (enumerate 0 (allocations plan)) = Inr (?m\<lparr> lm_local_max := L,
      lm_storages := map (placed b) (allocations plan) \<rparr>)" "length L = length specs"
    using al(1) len by auto
  show ?thesis
    using b L ne len by (intro exI [of _ b] exI [of _ L]) (simp add: allocate_plan_def)
qed

lemma lm_allocate_ok:
  assumes ok: "manager_ok m p" and st: "lm_state m \<noteq> WaitingForValues" and addr: "addr \<noteq> 0"
  shows "\<exists>m'. lm_allocate addr (lp_plan p) m = Inr m' \<and> manager_ok m' p \<and> lm_state m' = Running \<and>
    (lm_tensors m \<noteq> [] \<and> total_size (lp_plan p) > 0 \<longrightarrow> laid_out (lp_plan p) m')"
proof -
  let ?n = "length (lp_specs p)"
  have n: "length (lm_tensors m) = ?n" "length (lm_local_max m) = ?n" and po: "planner_ok p"
    using ok st by (auto simp: manager_ok_def split: LayoutManagerState.splits)
  have ptr: "lb_size (lm_buffer m) > 0 \<longrightarrow> lb_ptr (lm_buffer m) \<noteq> 0" using ok by (simp add: manager_ok_def)
  show ?thesis
  proof (cases "lm_tensors m = []")
    case True
    then have "lm_storages m = []" using ok st by (auto simp: manager_ok_def split: LayoutManagerState.splits)
    then show ?thesis using True ok st
      by (auto simp: lm_allocate_def ensure_managed_storages_def allocate_plan_def manager_ok_def split: LayoutManagerState.splits)
  next
    case False
    let ?b = "lm_state m = AllocatingStorages" let ?ts = "map (\<lambda>j. \<lparr> t_storage = Managed j, t_nbytes = 0 \<rparr>) [0..<?n]"
    obtain S c where S: "ensure_managed_storages ?b m = Inr (m\<lparr> lm_storages := S, lm_capacity := c, lm_tensors := ?ts \<rparr>)"
        "length S = (if ?b then ?n else length (lm_storages m))"
      using ensure_managed_storages_ok [OF False, of ?b] n(1) by auto
    have len: "length S = ?n" using S(2) ok st by (auto simp: manager_ok_def split: LayoutManagerState.splits if_splits)
    let ?m1 = "m\<lparr> lm_storages := S, lm_capacity := c, lm_tensors := ?ts \<rparr>"
    have alloc: "lm_allocate addr (lp_plan p) m = Inr (m2\<lparr> lm_state := Running \<rparr>)"
      if "allocate_plan addr (lp_plan p) ?m1 = Inr m2" "lm_state m2 = lm_state m" for m2
      using that S st by (cases "lm_state m") (simp_all add: lm_allocate_def)
    show ?thesis
    proof (cases "total_size (lp_plan p) = 0")
      case True
      then have "allocate_plan addr (lp_plan p) ?m1 = Inr ?m1" by (simp add: allocate_plan_def)
      then have "lm_allocate addr (lp_plan p) m = Inr (?m1\<lparr> lm_state := Running \<rparr>)" by (rule alloc) simp
      moreover have "manager_ok (?m1\<lparr> lm_state := Running \<rparr>) p" using ok len n by (simp add: manager_ok_def)
      ultimately show ?thesis using True by simp
    next
      case pos: False
      then have v: "valid_plan (lp_specs p) (lp_plan p)" using po by (auto simp: planner_ok_def unsized_def)
      have ne: "lp_specs p \<noteq> []" using False n by auto
      obtain b L where b: "allocate_plan addr (lp_plan p) ?m1 = Inr (?m1\<lparr> lm_buffer := b, lm_local_max := L,
          lm_storages := map (placed b) (allocations (lp_plan p)) \<rparr>)" "length L = ?n" "total_size (lp_plan p) \<le> lb_size b" "lb_ptr b \<noteq> 0"
        using allocate_plan_ok [OF v, of ?m1 addr] len n ne pos addr ptr by auto
      let ?m2 = "?m1\<lparr> lm_buffer := b, lm_local_max := L, lm_storages := map (placed b) (allocations (lp_plan p)) \<rparr>"
      have al: "length (allocations (lp_plan p)) = ?n" "\<forall>a \<in> set (allocations (lp_plan p)). al_offset a + al_size a \<le> total_size (lp_plan p)"
        using v by (auto simp: valid_plan_def in_set_conv_nth)
      have "lm_allocate addr (lp_plan p) m = Inr (?m2\<lparr> lm_state := Running \<rparr>)" by (rule alloc [OF b(1)]) simp
      moreover have "manager_ok (?m2\<lparr> lm_state := Running \<rparr>) p" using ok b al n by (simp add: manager_ok_def)
      moreover have "laid_out (lp_plan p) (?m2\<lparr> lm_state := Running \<rparr>)"
        using al b(3) by (auto simp: laid_out_def intro: le_trans)
      ultimately show ?thesis by simp
    qed
  qed
qed

section \<open>The end of a run\<close>

lemma update_max_ok:
  assumes "foldl (update_max align) (m, p) is = (m', p')" "\<forall>i \<in> set is. i < length (lp_hist p)" "planner_ok p"
  shows "planner_ok p' \<and> lp_specs p' = lp_specs p \<and> lp_planned p' = lp_planned p \<and> lp_unplanned p' = lp_unplanned p \<and> planner_step\<^sup>*\<^sup>* p p' \<and>
    (\<exists>L. m' = m\<lparr> lm_local_max := L \<rparr> \<and> length L = length (lm_local_max m))"
  using assms
proof (induction "is" arbitrary: m p)
  case Nil
  then show ?case by (auto intro: exI [of _ "lm_local_max m"])
next
  case (Cons i "is")
  obtain m1 p1 where u: "update_max align (m, p) i = (m1, p1)" by fastforce
  have s: "planner_step\<^sup>*\<^sup>* p p1 \<and> lp_specs p1 = lp_specs p \<and> lp_planned p1 = lp_planned p \<and> lp_unplanned p1 = lp_unplanned p \<and>
      length (lp_hist p1) = length (lp_hist p) \<and> (\<exists>L. m1 = m\<lparr> lm_local_max := L \<rparr> \<and> length L = length (lm_local_max m))"
    using u report [of i p] Cons.prems(2)
    by (auto simp: update_max_def Let_def try_update_max_size_at_index_def intro: exI [of _ "lm_local_max m"] split: if_splits)
  then have "planner_ok p1" using reachable_planner_ok Cons.prems(3) by blast
  with Cons.IH [of m1 p1] Cons.prems u s show ?case
    by (auto intro: rtranclp_trans)
qed

lemma start_worker_ok:
  assumes "planner_ok p"
  shows "\<exists>p'. start_worker_if_not_started p = Inr p' \<and> planner_ok p' \<and> length (lp_specs p') = length (lp_specs p) \<and>
    lp_planned p' = lp_planned p"
proof (cases "lp_started p")
  case False
  obtain p1 where p1: "create_plan p = Inr p1" "planner_ok p1" "lp_specs p1 = map grow_spec (zip (lp_specs p) (lp_hist p))"
    using create_plan_ok [OF assms] by blast
  moreover have "lp_planned p1 = lp_planned p" using p1(1) by (auto simp: create_plan_def Let_def bindE_Inr_iff split: if_splits)
  moreover have "length (lp_hist p) = length (lp_specs p)" using assms by (simp add: planner_ok_def)
  ultimately show ?thesis using False by (simp add: start_worker_if_not_started_def planner_ok_def)
qed (use assms in \<open>simp add: start_worker_if_not_started_def\<close>)

lemma deallocate_and_plan_ok:
  assumes ok: "manager_ok m p"
  shows "\<exists>m' p'. deallocate_and_plan align frame m p = Inr (m', p') \<and> manager_ok m' p' \<and> lm_state m' \<noteq> WaitingForValues"
proof -
  let ?w = "lm_state m = WaitingForValues"
  define m1 where "m1 = (if ?w then m\<lparr> lm_tensors := map frame (lp_planned p), lm_local_max := replicate (length (lp_planned p)) 0,
         lm_unplanned := lp_unplanned p \<rparr> else m)"
  have po: "planner_ok p" and pl: "length (lp_planned p) = length (lp_specs p)" and lens: "length (lp_hist p) = length (lp_specs p)"
    using ok by (auto simp: manager_ok_def planner_ok_def)
  have pop: "(if ?w then populate_tensor_values frame p m else Inr m) = Inr m1"
    using ok by (auto simp: m1_def populate_tensor_values_def manager_ok_def)
  have n: "length (lm_tensors m1) = length (lp_specs p)" "length (lm_local_max m1) = length (lm_tensors m1)"
    using ok pl by (auto simp: m1_def manager_ok_def split: LayoutManagerState.splits)
  obtain m2 p2 where u: "try_update_historical_max_nbytes align m1 p = (m2, p2)" by fastforce
  have "\<forall>i \<in> set [0..<length (lm_tensors m1)]. i < length (lp_hist p)" using n lens by simp
  from update_max_ok [OF u [unfolded try_update_historical_max_nbytes_def] this po]
  obtain L where p2: "planner_ok p2" "lp_specs p2 = lp_specs p" "lp_planned p2 = lp_planned p" "m2 = m1\<lparr> lm_local_max := L \<rparr>"
      "length L = length (lm_local_max m1)" by blast
  obtain p3 where p3: "(if ?w then start_worker_if_not_started p2 else Inr p2) = Inr p3" "planner_ok p3"
      "length (lp_specs p3) = length (lp_specs p)" "lp_planned p3 = lp_planned p"
    using start_worker_ok [OF p2(1)] p2 by (cases ?w) auto
  let ?m = "if ?w then m2\<lparr> lm_state := AllocatingStorages \<rparr>
    else if lm_dealloc_between m2 then m2\<lparr> lm_buffer := lb_deallocate (lm_buffer m2) \<rparr> else m2"
  have "deallocate_and_plan align frame m p = Inr (?m, p3)"
    using pop u p3(1) by (simp add: deallocate_and_plan_def)
  moreover have "manager_ok ?m p3"
    using ok p2 p3 n pl unfolding manager_ok_def
    by (cases "lm_state m") (auto simp: m1_def lb_deallocate_def lb_empty_def)
  moreover have "lm_state ?m \<noteq> WaitingForValues" using p2(4) by (simp add: m1_def)
  ultimately show ?thesis by blast
qed

section \<open>Frames in a running process\<close>

text \<open>
  One execution frame with its manager, and the planner it shares with other frames. \<open>execute\<close> stands for the
  kernels: they may give the tensors any size and replace or resize their storages.
\<close>

inductive frame_step :: "(nat \<Rightarrow> nat) \<Rightarrow> layout_manager \<times> layout_planner \<Rightarrow> layout_manager \<times> layout_planner \<Rightarrow> bool"
  for align where
  allocate: "addr \<noteq> 0 \<Longrightarrow> lm_allocate addr (lp_plan p) m = Inr m' \<Longrightarrow> frame_step align (m, p) (m', p)"
| execute: "length ts = length (lm_tensors m) \<Longrightarrow> length ss = length (lm_storages m) \<Longrightarrow>
    frame_step align (m, p) (m\<lparr> lm_tensors := ts, lm_storages := ss \<rparr>, p)"
| finish: "deallocate_and_plan align frame m p = Inr (m', p') \<Longrightarrow> frame_step align (m, p) (m', p')"
| others: "planner_step p p' \<Longrightarrow> frame_step align (m, p) (m, p')"

lemma planner_step_planned: "planner_step p p' \<Longrightarrow> lp_planned p' = lp_planned p"
  by (auto elim!: planner_step.cases
      simp: try_update_max_size_at_index_def start_worker_if_not_started_def create_plan_def Let_def bindE_Inr_iff split: if_splits)

lemma frame_step_ok:
  assumes "frame_step align s s'" "case s of (m, p) \<Rightarrow> manager_ok m p"
  shows "case s' of (m, p) \<Rightarrow> manager_ok m p"
  using assms
proof cases
  case (allocate addr p m m')
  then show ?thesis using assms(2) lm_allocate_ok [of m p addr]
    by (cases "lm_state m = WaitingForValues") (auto simp: lm_allocate_def)
next
  case (execute ts m ss p)
  then show ?thesis using assms(2) by (auto simp: manager_ok_def split: LayoutManagerState.splits)
next
  case (finish frame m p m' p')
  then show ?thesis using assms(2) deallocate_and_plan_ok [of m p align frame] by auto
next
  case (others p p' m)
  then have "length (lp_specs p') = length (lp_specs p)" "planner_ok p'" "lp_planned p' = lp_planned p"
    using planner_step_ok [OF others(3)] planner_step_planned assms(2) map_eq_imp_length_eq by (auto simp: manager_ok_def)
  then show ?thesis using others assms(2) by (auto simp: manager_ok_def split: LayoutManagerState.splits)
qed

lemma reachable_frame_ok:
  assumes "(frame_step align)\<^sup>*\<^sup>* s s'" "case s of (m, p) \<Rightarrow> manager_ok m p"
  shows "case s' of (m, p) \<Rightarrow> manager_ok m p"
  using assms by induction (use frame_step_ok in blast)+



end
