(* ===== verification/GraphOps.thy ===== *)
theory GraphOps
  imports NativeGraph CppStrings
begin

text \<open>
  The operations of \<open>torch/nativert/graph/Graph.cpp\<close> that build and change a graph, with the back references
  from values to the nodes that use them, and the invariant they keep. Attributes and metadata of nodes are not
  part of the model.
\<close>

section \<open>Users of values\<close>

definition addUser :: "nref \<Rightarrow> vref \<Rightarrow> graph \<Rightarrow> graph" where
  "addUser n v g = (let x = g_value g v in
     g\<lparr> g_value := (g_value g)(v := (if n \<in> set (v_users x) then x else x\<lparr> v_users := v_users x @ [n] \<rparr>)) \<rparr>)"

definition eraseUser :: "nref \<Rightarrow> vref \<Rightarrow> graph \<Rightarrow> graph" where
  "eraseUser n v g = (let x = g_value g v in
     g\<lparr> g_value := (g_value g)(v := x\<lparr> v_users := filter (\<lambda>m. m \<noteq> n) (v_users x) \<rparr>) \<rparr>)"

definition eraseAllUsers :: "vref \<Rightarrow> graph \<Rightarrow> graph" where
  "eraseAllUsers v g = g\<lparr> g_value := (g_value g)(v := (g_value g v)\<lparr> v_users := [] \<rparr>) \<rparr>"

section \<open>Nodes\<close>

definition createNode :: "string \<Rightarrow> (string \<times> vref) list \<Rightarrow> graph \<Rightarrow> nref \<times> graph" where
  "createNode target inputs g = (let n = g_nextNode g in
     (n, foldl (\<lambda>g v. addUser n v g)
       (g\<lparr> g_owner := g_owner g @ [n], g_node := (g_node g)(n := \<lparr> n_target = target, n_inputs = inputs, n_outputs = [] \<rparr>), g_nextNode := n + 1 \<rparr>)
       (map snd inputs)))"

definition is_linked :: "graph \<Rightarrow> nref \<Rightarrow> bool" where
  "is_linked g n \<longleftrightarrow> n \<in> set (g_nodes g)"

definition list_insert_before :: "nref option \<Rightarrow> nref \<Rightarrow> nref list \<Rightarrow> nref list" where
  "list_insert_before pos n ns = (case pos of None \<Rightarrow> ns @ [n]
     | Some b \<Rightarrow> takeWhile (\<lambda>x. x \<noteq> b) ns @ n # dropWhile (\<lambda>x. x \<noteq> b) ns)"

definition list_insert_after :: "nref \<Rightarrow> nref \<Rightarrow> nref list \<Rightarrow> nref list" where
  "list_insert_after b n ns = takeWhile (\<lambda>x. x \<noteq> b) ns @ b # n # tl (dropWhile (\<lambda>x. x \<noteq> b) ns)"

definition insertBefore :: "nref \<Rightarrow> nref \<Rightarrow> graph \<Rightarrow> graph result" where
  "insertBefore toInsert insertionPoint g =
     bindE (check (insertionPoint \<noteq> g_inputNode g) (CheckError ''can't insert before prim.Input'')) (\<lambda>_.
     bindE (check (\<not> is_linked g toInsert) (CheckError ''expected node to be unlinked: '')) (\<lambda>_.
     bindE (check (is_linked g insertionPoint) (CheckError ''expected node to be linked: '')) (\<lambda>_.
       Inr (g\<lparr> g_nodes := list_insert_before (Some insertionPoint) toInsert (g_nodes g) \<rparr>))))"

definition insert_node :: "nref \<Rightarrow> graph \<Rightarrow> graph result" where
  "insert_node toInsert g =
     bindE (check (\<not> is_linked g toInsert) (CheckError ''expected node to be unlinked: '')) (\<lambda>_.
       Inr (g\<lparr> g_nodes := list_insert_before (g_insertBefore g) toInsert (g_nodes g) \<rparr>))"

definition insertAfter :: "nref \<Rightarrow> nref \<Rightarrow> graph \<Rightarrow> graph result" where
  "insertAfter toInsert insertionPoint g =
     bindE (check (insertionPoint \<noteq> g_outputNode g) (CheckError ''can't insert after prim.Output'')) (\<lambda>_.
     bindE (check (\<not> is_linked g toInsert) (CheckError ''expected node to be unlinked: '')) (\<lambda>_.
     bindE (check (is_linked g insertionPoint) (CheckError ''expected node to be linked: '')) (\<lambda>_.
       Inr (g\<lparr> g_nodes := list_insert_after insertionPoint toInsert (g_nodes g) \<rparr>))))"

definition insertNode :: "string \<Rightarrow> (string \<times> vref) list \<Rightarrow> graph \<Rightarrow> nref \<times> graph" where
  "insertNode target inputs g = (case createNode target inputs g of (n, g1) \<Rightarrow>
     (n, g1\<lparr> g_nodes := list_insert_before (g_insertBefore g1) n (g_nodes g1) \<rparr>))"

definition createGraph :: graph where
  "createGraph = (let g0 = \<lparr> g_owner = [], g_nodes = [], g_node = (\<lambda>_. \<lparr> n_target = [], n_inputs = [], n_outputs = [] \<rparr>),
       g_value = (\<lambda>_. \<lparr> v_name = [], v_folded = False, v_id = 0, v_type = Kind KNone, v_producer = nullptr, v_users = [] \<rparr>),
       g_values = [], g_insertBefore = None, g_inputNode = nullptr, g_outputNode = nullptr, g_constantSymInts = [],
       g_signature = empty_signature, g_tensorMeta = (\<lambda>_. None), g_uniqueValueName = 0, g_uniqueValueId = 0, g_nextNode = 1, g_nextValue = 1 \<rparr>;
     (inp, g1) = insertNode ''prim.Input'' [] g0;
     (out, g2) = insertNode ''prim.Output'' [] g1
     in g2\<lparr> g_inputNode := inp, g_outputNode := out, g_insertBefore := Some out \<rparr>)"

definition setInsertionPoint :: "nref \<Rightarrow> graph \<Rightarrow> graph result" where
  "setInsertionPoint n g = bindE (check (n \<noteq> g_inputNode g) (CheckError ''can't insert before prim.Input'')) (\<lambda>_.
     Inr (g\<lparr> g_insertBefore := Some n \<rparr>))"

definition next_in :: "nref \<Rightarrow> nref list \<Rightarrow> nref option" where
  "next_in n ns = (case tl (dropWhile (\<lambda>x. x \<noteq> n) ns) of [] \<Rightarrow> None | m # _ \<Rightarrow> Some m)"

definition setInsertionPointAfter :: "nref \<Rightarrow> graph \<Rightarrow> graph result" where
  "setInsertionPointAfter n g = bindE (check (n \<noteq> g_outputNode g) (CheckError ''can't insert after prim.Output'')) (\<lambda>_.
     Inr (g\<lparr> g_insertBefore := next_in n (g_nodes g) \<rparr>))"

section \<open>Values\<close>

definition value_name :: "nat \<Rightarrow> string" where
  "value_name u = CHR ''v'' # nat_to_string u"

lemma value_name_inj: "inj value_name"
proof (rule injI)
  fix a b assume "value_name a = value_name b"
  then have "digits_value (nat_to_string a) = digits_value (nat_to_string b)" by (simp add: value_name_def)
  then show "a = b" by simp
qed

lemma finite_names: "finite {k. u \<le> k \<and> value_name k \<in> set names}"
proof -
  have "finite (value_name -` set names)" using value_name_inj by (intro finite_vimageI) (auto simp: inj_on_def inj_def)
  then show ?thesis by (rule rev_finite_subset) auto
qed

text \<open>The loop body: the name with the current counter, which is then incremented.\<close>

function unique_loop :: "string list \<Rightarrow> nat \<Rightarrow> string \<times> nat" where
  "unique_loop names u = (if value_name u \<in> set names then unique_loop names (u + 1) else (value_name u, u + 1))"
  by auto
termination
proof (relation "measure (\<lambda>(names, u). card {k. u \<le> k \<and> value_name k \<in> set names})")
  fix names u assume u: "value_name u \<in> set names"
  have "{k. u + 1 \<le> k \<and> value_name k \<in> set names} \<subset> {k. u \<le> k \<and> value_name k \<in> set names}" (is "?A \<subset> ?B")
  proof (rule psubsetI)
    have "u \<in> ?B" "u \<notin> ?A" using u by simp_all
    then show "?A \<noteq> ?B" by blast
  qed auto
  then show "((names, u + 1), names, u) \<in> measure (\<lambda>(names, u). card {k. u \<le> k \<and> value_name k \<in> set names})"
    using psubset_card_mono [OF finite_names [of u names]] by simp
qed simp

declare unique_loop.simps [simp del]

definition getUniqueValueName :: "graph \<Rightarrow> string \<times> graph" where
  "getUniqueValueName g =
     (let u = g_uniqueValueName g; names = map fst (g_values g) in
      if value_name u \<notin> set names then (value_name u, g)
      else case unique_loop names u of (name, u') \<Rightarrow> (name, g\<lparr> g_uniqueValueName := u' \<rparr>))"

definition addValue :: "string option \<Rightarrow> gtype \<Rightarrow> nref \<Rightarrow> graph \<Rightarrow> (vref \<times> graph) result" where
  "addValue name type node g =
     (case getUniqueValueName g of (unique, g1) \<Rightarrow>
      let valueName = (case name of None \<Rightarrow> unique | Some n \<Rightarrow> n); v = g_nextValue g1 in
      bindE (check (valueName \<notin> fst ` set (g_values g1)) (CheckError ''Tried to create Value with name, but it already existed'')) (\<lambda>_.
        Inr (v, g1\<lparr> g_value := (g_value g1)(v := \<lparr> v_name = valueName, v_folded = False, v_id = g_uniqueValueId g1, v_type = type, v_producer = node, v_users = [] \<rparr>),
          g_values := g_values g1 @ [(valueName, v)], g_uniqueValueId := g_uniqueValueId g1 + 1, g_nextValue := v + 1 \<rparr>)))"

definition push_output :: "nref \<Rightarrow> vref \<Rightarrow> graph \<Rightarrow> graph" where
  "push_output n v g = g\<lparr> g_node := (g_node g)(n := (g_node g n)\<lparr> n_outputs := n_outputs (g_node g n) @ [v] \<rparr>) \<rparr>"

definition node_addOutput :: "nref \<Rightarrow> string \<Rightarrow> gtype \<Rightarrow> graph \<Rightarrow> (vref \<times> graph) result" where
  "node_addOutput n name type g = bindE (addValue (Some name) type n g) (\<lambda>(v, g1). Inr (v, push_output n v g1))"

text \<open>The overload without a name is for outputs of type \<open>None\<close>.\<close>

definition node_addOutput_none :: "nref \<Rightarrow> gtype \<Rightarrow> graph \<Rightarrow> (vref \<times> graph) result" where
  "node_addOutput_none n type g = bindE (check (type_eq type (Kind KNone)) (CheckError ''type == Type::Kind::None'')) (\<lambda>_.
     bindE (addValue None type n g) (\<lambda>(v, g1). Inr (v, push_output n v g1)))"

definition node_addInput :: "nref \<Rightarrow> string \<times> vref \<Rightarrow> graph \<Rightarrow> graph" where
  "node_addInput n input g =
     addUser n (snd input) (g\<lparr> g_node := (g_node g)(n := (g_node g n)\<lparr> n_inputs := n_inputs (g_node g n) @ [input] \<rparr>) \<rparr>)"

definition graph_addInput :: "string \<Rightarrow> gtype \<Rightarrow> graph \<Rightarrow> (vref \<times> graph) result" where
  "graph_addInput name type g = node_addOutput (g_inputNode g) name type g"

definition graph_addInput_null :: "graph \<Rightarrow> graph" where
  "graph_addInput_null g = push_output (g_inputNode g) nullptr g"

definition graph_addOutput :: "vref \<Rightarrow> graph \<Rightarrow> graph" where
  "graph_addOutput v g = node_addInput (g_outputNode g) (v_name (g_value g v), v) g"

definition createConstantSymIntValue :: "int \<Rightarrow> graph \<Rightarrow> (vref \<times> graph) result" where
  "createConstantSymIntValue value g =
     (case getUniqueValueName g of (valueName, g1) \<Rightarrow>
      let v = g_nextValue g1; vid = g_uniqueValueId g1 in
      bindE (check (valueName \<notin> fst ` set (g_values g1)) (CheckError ''Tried to create constant SymInt Value with name, but it already existed'')) (\<lambda>_.
        Inr (v, g1\<lparr> g_value := (g_value g1)(v := \<lparr> v_name = valueName, v_folded = False, v_id = vid, v_type = Kind KSymInt, v_producer = nullptr, v_users = [] \<rparr>),
          g_values := g_values g1 @ [(valueName, v)], g_constantSymInts := (vid, value) # filter (\<lambda>p. fst p \<noteq> vid) (g_constantSymInts g1),
          g_uniqueValueId := vid + 1, g_nextValue := v + 1 \<rparr>)))"

definition list_pack_inputs :: "vref list \<Rightarrow> (string \<times> vref) list" where
  "list_pack_inputs inputs = map (\<lambda>(i, v). (CHR ''l'' # nat_to_string i, v)) (enumerate 0 inputs)"

definition createListPack :: "vref list \<Rightarrow> gtype \<Rightarrow> graph \<Rightarrow> (nref \<times> graph) result" where
  "createListPack inputs inputType g =
     (case getUniqueValueName g of (name, g1) \<Rightarrow>
      case createNode ''prim.ListPack'' (list_pack_inputs inputs) g1 of (node, g2) \<Rightarrow>
      bindE (check (\<forall>v \<in> set inputs. type_eq (v_type (g_value g2 v)) inputType) (CheckError ''input->type() == inputType'')) (\<lambda>_.
        if type_eq inputType (Kind KTensor) then bindE (node_addOutput node name (Kind KTensorList) g2) (\<lambda>(v, g3). Inr (node, g3))
        else if type_eq inputType (Kind KSymInt) then bindE (node_addOutput node name (Kind KSymIntList) g2) (\<lambda>(v, g3). Inr (node, g3))
        else if type_eq inputType (Kind KTensorList) then bindE (node_addOutput node name (Kind KNestedTensorList) g2) (\<lambda>(v, g3). Inr (node, g3))
        else Inr (node, g2)))"

definition createOptionalListPack :: "vref list \<Rightarrow> graph \<Rightarrow> (nref \<times> graph) result" where
  "createOptionalListPack inputs g =
     (case getUniqueValueName g of (name, g1) \<Rightarrow>
      case createNode ''prim.ListPack'' (list_pack_inputs inputs) g1 of (node, g2) \<Rightarrow>
      bindE (check (\<forall>v \<in> set inputs. type_eq (v_type (g_value g2 v)) (Kind KNone) \<or> type_eq (v_type (g_value g2 v)) (Kind KTensor))
          (CheckError ''input->type() == Type::Kind::None || input->type() == Type::Kind::Tensor'')) (\<lambda>_.
        bindE (node_addOutput node name (Kind KOptionalTensorList) g2) (\<lambda>(v, g3). Inr (node, g3))))"

definition getValue :: "string \<Rightarrow> graph \<Rightarrow> vref result" where
  "getValue name g = (case map_of (g_values g) name of None \<Rightarrow> Inl (StdOutOfRange ''values_'') | Some v \<Rightarrow> Inr v)"

definition tryGetValue :: "string \<Rightarrow> graph \<Rightarrow> vref" where
  "tryGetValue name g = (case map_of (g_values g) name of None \<Rightarrow> nullptr | Some v \<Rightarrow> v)"

section \<open>Removal and replacement\<close>

definition removeValue :: "vref \<Rightarrow> graph \<Rightarrow> graph result" where
  "removeValue v g =
     bindE (check (v_users (g_value g v) = []) (CheckError ''Cannot erase a value with users.'')) (\<lambda>_.
     bindE (check (v_name (g_value g v) \<in> fst ` set (g_values g)) (CheckError ''Attempted to erase a value not in graph '')) (\<lambda>_.
       Inr (g\<lparr> g_values := filter (\<lambda>p. fst p \<noteq> v_name (g_value g v)) (g_values g) \<rparr>)))"

definition remove_output :: "graph \<Rightarrow> vref \<Rightarrow> graph result" where
  "remove_output g v =
     bindE (check (v_users (g_value g v) = []) (CheckError ''Trying to erase a node that still has users: '')) (\<lambda>_.
       removeValue v (eraseAllUsers v g))"

definition removeNode :: "nref \<Rightarrow> graph \<Rightarrow> graph result" where
  "removeNode n g =
     bindE (foldE remove_output g (n_outputs (g_node g n))) (\<lambda>g1.
     let g2 = foldl (\<lambda>g v. eraseUser n v g) g1 (input_values (g_node g1 n)) in
     bindE (check (is_linked g2 n) (CheckError ''Node is not linked to the graph!'')) (\<lambda>_.
     bindE (check (n \<in> set (g_owner g2)) (CheckError ''Node not found in nodesOwner_!'')) (\<lambda>_.
       Inr (g2\<lparr> g_nodes := filter (\<lambda>m. m \<noteq> n) (g_nodes g2), g_owner := filter (\<lambda>m. m \<noteq> n) (g_owner g2) \<rparr>))))"

definition replace_inputs :: "vref \<Rightarrow> vref \<Rightarrow> gnode \<Rightarrow> gnode" where
  "replace_inputs old replacement node = node\<lparr> n_inputs := map (\<lambda>(s, v). (s, if v = old then replacement else v)) (n_inputs node) \<rparr>"

definition replace_in_user :: "vref \<Rightarrow> vref \<Rightarrow> graph \<Rightarrow> nref \<Rightarrow> graph result" where
  "replace_in_user old replacement g user =
     bindE (check (old \<in> set (input_values (g_node g user))) (CheckError ''replaced'')) (\<lambda>_.
       Inr (addUser user replacement (g\<lparr> g_node := (g_node g)(user := replace_inputs old replacement (g_node g user)) \<rparr>)))"

definition replaceAllUses :: "vref \<Rightarrow> vref \<Rightarrow> graph \<Rightarrow> graph result" where
  "replaceAllUses old replacement g =
     bindE (foldE (replace_in_user old replacement) g (v_users (g_value g old))) (\<lambda>g1.
       let g2 = eraseAllUsers old g1 in
       Inr (g2\<lparr> g_signature := sig_replaceAllUses (v_name (g_value g old)) (v_name (g_value g replacement)) (g_signature g2) \<rparr>))"

definition replace_after_step :: "vref \<Rightarrow> vref \<Rightarrow> graph \<Rightarrow> nref \<Rightarrow> graph" where
  "replace_after_step old replacement g n =
     (if old \<in> set (input_values (g_node g n))
      then addUser n replacement (eraseUser n old (g\<lparr> g_node := (g_node g)(n := replace_inputs old replacement (g_node g n)) \<rparr>))
      else g)"

definition replaceAllUsesAfterNode :: "vref \<Rightarrow> vref \<Rightarrow> nref \<Rightarrow> graph \<Rightarrow> graph" where
  "replaceAllUsesAfterNode old replacement afterThis g =
     (let g1 = foldl (replace_after_step old replacement) g (tl (dropWhile (\<lambda>x. x \<noteq> afterThis) (g_nodes g))) in
      g1\<lparr> g_signature := sig_replaceAllUses (v_name (g_value g old)) (v_name (g_value g replacement)) (g_signature g1) \<rparr>)"

section \<open>The invariant\<close>

text \<open>The node list starts with the input node and ends with the output node.\<close>

definition nodes_ok :: "graph \<Rightarrow> bool" where
  "nodes_ok g \<longleftrightarrow> distinct (g_nodes g) \<and> distinct (g_owner g) \<and> set (g_nodes g) \<subseteq> set (g_owner g) \<and>
     (\<forall>n \<in> set (g_owner g). 0 < n \<and> n < g_nextNode g) \<and>
     (\<exists>ns. g_nodes g = g_inputNode g # ns @ [g_outputNode g]) \<and>
     (\<exists>b. g_insertBefore g = Some b \<and> b \<in> set (g_nodes g) \<and> b \<noteq> g_inputNode g)"

definition values_ok :: "graph \<Rightarrow> bool" where
  "values_ok g \<longleftrightarrow> 0 < g_nextValue g \<and> distinct (map fst (g_values g)) \<and> distinct (map snd (g_values g)) \<and>
     (\<forall>(s, v) \<in> set (g_values g). v_name (g_value g v) = s \<and> 0 < v \<and> v < g_nextValue g \<and> v_id (g_value g v) < g_uniqueValueId g) \<and>
     inj_on (\<lambda>v. v_id (g_value g v)) (snd ` set (g_values g))"

text \<open>\<open>users\<close> of a value are exactly the nodes that have it as an input; inputs are values of the graph.\<close>

definition users_ok :: "graph \<Rightarrow> bool" where
  "users_ok g \<longleftrightarrow> (\<forall>v. distinct (v_users (g_value g v)) \<and>
       (\<forall>n. n \<in> set (v_users (g_value g v)) \<longleftrightarrow> n \<in> set (g_owner g) \<and> v \<in> set (input_values (g_node g n)))) \<and>
     (\<forall>n \<in> set (g_owner g). set (input_values (g_node g n)) \<subseteq> snd ` set (g_values g))"

text \<open>
  Values and the nodes that produce them refer to each other; a null output belongs to no value, and only the
  input node has null outputs.
\<close>

definition producers_ok :: "graph \<Rightarrow> bool" where
  "producers_ok g \<longleftrightarrow> (\<forall>n \<in> set (g_owner g). \<forall>v \<in> set (n_outputs (g_node g n)). v \<noteq> nullptr \<longrightarrow>
       v \<in> snd ` set (g_values g) \<and> v_producer (g_value g v) = n) \<and>
     (\<forall>v \<in> snd ` set (g_values g). v_producer (g_value g v) \<noteq> nullptr \<longrightarrow>
       v_producer (g_value g v) \<in> set (g_owner g) \<and> v \<in> set (n_outputs (g_node g (v_producer (g_value g v))))) \<and>
     (\<forall>n \<in> set (g_owner g). distinct (filter (\<lambda>v. v \<noteq> nullptr) (n_outputs (g_node g n))) \<and>
       (n \<noteq> g_inputNode g \<longrightarrow> nullptr \<notin> set (n_outputs (g_node g n))))"

definition graph_ok :: "graph \<Rightarrow> bool" where
  "graph_ok g \<longleftrightarrow> nodes_ok g \<and> values_ok g \<and> users_ok g \<and> producers_ok g"

lemma addUser_fields [simp]:
  "g_owner (addUser n v g) = g_owner g" "g_nodes (addUser n v g) = g_nodes g" "g_node (addUser n v g) = g_node g"
  "g_values (addUser n v g) = g_values g" "g_inputNode (addUser n v g) = g_inputNode g" "g_outputNode (addUser n v g) = g_outputNode g"
  "g_insertBefore (addUser n v g) = g_insertBefore g" "g_nextNode (addUser n v g) = g_nextNode g" "g_nextValue (addUser n v g) = g_nextValue g"
  "g_uniqueValueId (addUser n v g) = g_uniqueValueId g" "g_signature (addUser n v g) = g_signature g"
  "v_name (g_value (addUser n v g) w) = v_name (g_value g w)" "v_id (g_value (addUser n v g) w) = v_id (g_value g w)"
  "v_type (g_value (addUser n v g) w) = v_type (g_value g w)" "v_producer (g_value (addUser n v g) w) = v_producer (g_value g w)"
  "v_folded (g_value (addUser n v g) w) = v_folded (g_value g w)"
  by (simp_all add: addUser_def Let_def)

lemma addUser_users [simp]:
  "v_users (g_value (addUser n v g) w) = (if w = v \<and> n \<notin> set (v_users (g_value g v)) then v_users (g_value g v) @ [n] else v_users (g_value g w))"
  by (simp add: addUser_def Let_def)

lemma eraseUser_fields [simp]:
  "g_owner (eraseUser n v g) = g_owner g" "g_nodes (eraseUser n v g) = g_nodes g" "g_node (eraseUser n v g) = g_node g"
  "g_values (eraseUser n v g) = g_values g" "g_inputNode (eraseUser n v g) = g_inputNode g" "g_outputNode (eraseUser n v g) = g_outputNode g"
  "g_insertBefore (eraseUser n v g) = g_insertBefore g" "g_nextNode (eraseUser n v g) = g_nextNode g" "g_nextValue (eraseUser n v g) = g_nextValue g"
  "g_uniqueValueId (eraseUser n v g) = g_uniqueValueId g" "g_signature (eraseUser n v g) = g_signature g"
  "v_name (g_value (eraseUser n v g) w) = v_name (g_value g w)" "v_id (g_value (eraseUser n v g) w) = v_id (g_value g w)"
  "v_type (g_value (eraseUser n v g) w) = v_type (g_value g w)" "v_producer (g_value (eraseUser n v g) w) = v_producer (g_value g w)"
  "v_folded (g_value (eraseUser n v g) w) = v_folded (g_value g w)"
  by (simp_all add: eraseUser_def Let_def)

lemma eraseUser_users [simp]:
  "v_users (g_value (eraseUser n v g) w) = (if w = v then filter (\<lambda>m. m \<noteq> n) (v_users (g_value g v)) else v_users (g_value g w))"
  by (simp add: eraseUser_def Let_def)

lemma eraseAllUsers_fields [simp]:
  "g_owner (eraseAllUsers v g) = g_owner g" "g_nodes (eraseAllUsers v g) = g_nodes g" "g_node (eraseAllUsers v g) = g_node g"
  "g_values (eraseAllUsers v g) = g_values g" "g_inputNode (eraseAllUsers v g) = g_inputNode g" "g_outputNode (eraseAllUsers v g) = g_outputNode g"
  "g_insertBefore (eraseAllUsers v g) = g_insertBefore g" "g_nextNode (eraseAllUsers v g) = g_nextNode g" "g_nextValue (eraseAllUsers v g) = g_nextValue g"
  "g_uniqueValueId (eraseAllUsers v g) = g_uniqueValueId g" "g_signature (eraseAllUsers v g) = g_signature g"
  "v_name (g_value (eraseAllUsers v g) w) = v_name (g_value g w)" "v_id (g_value (eraseAllUsers v g) w) = v_id (g_value g w)"
  "v_type (g_value (eraseAllUsers v g) w) = v_type (g_value g w)" "v_producer (g_value (eraseAllUsers v g) w) = v_producer (g_value g w)"
  "v_folded (g_value (eraseAllUsers v g) w) = v_folded (g_value g w)"
  "v_users (g_value (eraseAllUsers v g) w) = (if w = v then [] else v_users (g_value g w))"
  by (simp_all add: eraseAllUsers_def)

lemma addUsers_fields [simp]:
  fixes vs n g defines "g' \<equiv> foldl (\<lambda>g v. addUser n v g) g vs"
  shows "g_owner g' = g_owner g" "g_nodes g' = g_nodes g" "g_node g' = g_node g"
    "g_values g' = g_values g" "g_inputNode g' = g_inputNode g" "g_outputNode g' = g_outputNode g"
    "g_insertBefore g' = g_insertBefore g" "g_nextNode g' = g_nextNode g" "g_nextValue g' = g_nextValue g"
    "g_uniqueValueId g' = g_uniqueValueId g" "g_signature g' = g_signature g"
    "v_name (g_value g' w) = v_name (g_value g w)" "v_id (g_value g' w) = v_id (g_value g w)"
    "v_type (g_value g' w) = v_type (g_value g w)" "v_producer (g_value g' w) = v_producer (g_value g w)"
    "set (v_users (g_value g' w)) = set (v_users (g_value g w)) \<union> (if w \<in> set vs then {n} else {})"
  unfolding g'_def by (induction vs arbitrary: g) auto

lemma addUsers_distinct [simp]:
  "\<forall>w. distinct (v_users (g_value g w)) \<Longrightarrow> distinct (v_users (g_value (foldl (\<lambda>g v. addUser n v g) g vs) w))"
proof (induction vs arbitrary: g)
  case (Cons v vs)
  have "\<forall>w. distinct (v_users (g_value (addUser n v g) w))" using Cons.prems by simp
  from Cons.IH [OF this] show ?case by simp
qed simp

lemma eraseUsers_fields [simp]:
  fixes vs n g defines "g' \<equiv> foldl (\<lambda>g v. eraseUser n v g) g vs"
  shows "g_owner g' = g_owner g" "g_nodes g' = g_nodes g" "g_node g' = g_node g"
    "g_values g' = g_values g" "g_inputNode g' = g_inputNode g" "g_outputNode g' = g_outputNode g"
    "g_insertBefore g' = g_insertBefore g" "g_nextNode g' = g_nextNode g" "g_nextValue g' = g_nextValue g"
    "g_uniqueValueId g' = g_uniqueValueId g" "g_signature g' = g_signature g"
    "v_name (g_value g' w) = v_name (g_value g w)" "v_id (g_value g' w) = v_id (g_value g w)"
    "v_type (g_value g' w) = v_type (g_value g w)" "v_producer (g_value g' w) = v_producer (g_value g w)"
    "set (v_users (g_value g' w)) = set (v_users (g_value g w)) - (if w \<in> set vs then {n} else {})"
  unfolding g'_def by (induction vs arbitrary: g) (auto split: if_splits)

lemma eraseUsers_distinct [simp]:
  "\<forall>w. distinct (v_users (g_value g w)) \<Longrightarrow> distinct (v_users (g_value (foldl (\<lambda>g v. eraseUser n v g) g vs) w))"
proof (induction vs arbitrary: g)
  case (Cons v vs)
  have "\<forall>w. distinct (v_users (g_value (eraseUser n v g) w))" using Cons.prems by simp
  from Cons.IH [OF this] show ?case by simp
qed simp

lemma users_okD:
  assumes "users_ok g"
  shows "distinct (v_users (g_value g v))" "n \<in> set (v_users (g_value g v)) \<longleftrightarrow> n \<in> set (g_owner g) \<and> v \<in> set (input_values (g_node g n))"
    "n \<in> set (g_owner g) \<Longrightarrow> v \<in> set (input_values (g_node g n)) \<Longrightarrow> v \<in> snd ` set (g_values g)"
  using assms by (auto simp: users_ok_def)

lemma values_okD:
  assumes "values_ok g" "v \<in> snd ` set (g_values g)"
  shows "(v_name (g_value g v), v) \<in> set (g_values g)" "0 < v" "v < g_nextValue g" "v_id (g_value g v) < g_uniqueValueId g"
  using assms by (auto simp: values_ok_def)

section \<open>Nodes keep the invariant\<close>

lemma nodes_ok_next: "nodes_ok g \<Longrightarrow> 0 < g_nextNode g"
proof -
  assume ok: "nodes_ok g"
  then have "g_inputNode g \<in> set (g_owner g)" by (auto simp: nodes_ok_def)
  then show ?thesis using ok by (auto simp: nodes_ok_def)
qed

lemma createNode_ok:
  assumes ok: "graph_ok g" and ins: "snd ` set inputs \<subseteq> snd ` set (g_values g)" and c: "createNode target inputs g = (n, g')"
  shows "graph_ok g' \<and> n \<in> set (g_owner g') \<and> \<not> is_linked g' n \<and> g_nodes g' = g_nodes g \<and> g_insertBefore g' = g_insertBefore g"
proof -
  have fresh: "n \<notin> set (g_owner g)" "n = g_nextNode g" "n > 0"
    using ok c nodes_ok_next [of g] by (auto simp: graph_ok_def nodes_ok_def createNode_def Let_def)
  let ?node = "\<lparr> n_target = target, n_inputs = inputs, n_outputs = [] \<rparr>"
  let ?g0 = "g\<lparr> g_owner := g_owner g @ [n], g_node := (g_node g)(n := ?node), g_nextNode := n + 1 \<rparr>"
  have g': "g' = foldl (\<lambda>g v. addUser n v g) ?g0 (map snd inputs)" using c fresh(2) by (simp add: createNode_def Let_def)
  have own: "set (g_owner g') = insert n (set (g_owner g))" "g_node g' = (g_node g)(n := ?node)" "g_values g' = g_values g"
    by (simp_all add: g')
  have "nodes_ok g'" using ok fresh unfolding graph_ok_def nodes_ok_def by (fastforce simp: g' less_SucI)
  moreover have "values_ok g'" using ok by (simp add: graph_ok_def values_ok_def g')
  moreover have "users_ok g'"
  proof -
    have u: "users_ok g" using ok by (simp add: graph_ok_def)
    have "m \<in> set (v_users (g_value g' v)) \<longleftrightarrow> m \<in> set (g_owner g') \<and> v \<in> set (input_values (g_node g' m))" for m v
      using users_okD(2) [OF u, of m v] fresh(1) by (auto simp: g' input_values_def)
    moreover have "distinct (v_users (g_value g' v))" for v using users_okD(1) [OF u] by (simp add: g')
    moreover have "set (input_values (g_node g' m)) \<subseteq> snd ` set (g_values g')" if "m \<in> set (g_owner g')" for m
      using that users_okD(3) [OF u, of m] ins fresh(1) by (auto simp: own input_values_def)
    ultimately show ?thesis by (simp add: users_ok_def)
  qed
  moreover have "producers_ok g'"
    using ok fresh unfolding graph_ok_def producers_ok_def own by (auto simp: g')
  moreover have "\<not> is_linked g' n" using fresh ok by (auto simp: g' is_linked_def graph_ok_def nodes_ok_def)
  ultimately show ?thesis by (simp add: graph_ok_def own) (simp add: g')
qed

lemma insert_list_ok:
  assumes "ns = inp # xs @ [out]" "b \<in> set ns" "b \<noteq> inp" "n \<notin> set ns" "distinct ns"
  shows "\<exists>ys. takeWhile (\<lambda>x. x \<noteq> b) ns @ n # dropWhile (\<lambda>x. x \<noteq> b) ns = inp # ys @ [out] \<and>
    set (inp # ys @ [out]) = insert n (set ns) \<and> distinct (inp # ys @ [out])"
proof -
  let ?r = "takeWhile (\<lambda>x. x \<noteq> b) ns @ n # dropWhile (\<lambda>x. x \<noteq> b) ns"
  have perm: "mset ?r = mset (n # ns)" by (metis mset_append takeWhile_dropWhile_id union_mset_add_mset_right mset.simps(2))
  have "b \<in> set (xs @ [out])" using assms(1-3) by auto
  then have "dropWhile (\<lambda>x. x \<noteq> b) (xs @ [out]) \<noteq> []" by (metis (mono_tags, lifting) dropWhile_eq_Nil_conv)
  moreover have "last (dropWhile (\<lambda>x. x \<noteq> b) (xs @ [out])) = out" using calculation by (metis last_appendR last_snoc takeWhile_dropWhile_id)
  ultimately obtain zs where zs: "dropWhile (\<lambda>x. x \<noteq> b) (xs @ [out]) = zs @ [out]" by (metis append_butlast_last_id)
  have "?r = inp # (takeWhile (\<lambda>x. x \<noteq> b) (xs @ [out]) @ n # zs) @ [out]"
    using assms(1,3) zs by auto
  moreover have "set ?r = insert n (set ns)" "distinct ?r"
    using mset_eq_setD [OF perm] mset_eq_imp_distinct_iff [OF perm] assms(4,5) by simp_all
  ultimately show ?thesis by metis
qed

lemma insert_before_ok:
  assumes ok: "graph_ok g" and n: "n \<in> set (g_owner g)" "\<not> is_linked g n" and b: "b \<in> set (g_nodes g)" "b \<noteq> g_inputNode g"
  shows "graph_ok (g\<lparr> g_nodes := list_insert_before (Some b) n (g_nodes g) \<rparr>)"
proof -
  obtain xs where xs: "g_nodes g = g_inputNode g # xs @ [g_outputNode g]" and d: "distinct (g_nodes g)"
    using ok by (auto simp: graph_ok_def nodes_ok_def)
  obtain ys where ys: "list_insert_before (Some b) n (g_nodes g) = g_inputNode g # ys @ [g_outputNode g]"
      "set (g_inputNode g # ys @ [g_outputNode g]) = insert n (set (g_nodes g))" "distinct (g_inputNode g # ys @ [g_outputNode g])"
    using insert_list_ok [OF xs b _ d, of n] n(2) by (auto simp: list_insert_before_def is_linked_def)
  have "nodes_ok (g\<lparr> g_nodes := list_insert_before (Some b) n (g_nodes g) \<rparr>)"
    using ok n(1) ys unfolding graph_ok_def nodes_ok_def by auto
  then show ?thesis using ok by (simp add: graph_ok_def values_ok_def users_ok_def producers_ok_def)
qed

lemma next_split:
  assumes "ns = inp # xs @ [out]" "b \<in> set ns" "b \<noteq> out" "distinct ns"
  shows "\<exists>us c ws. ns = us @ b # c # ws \<and> b \<notin> set us \<and> c \<noteq> inp \<and> c \<noteq> b \<and> c \<notin> set us"
proof -
  obtain us ws where s: "ns = us @ b # ws" "b \<notin> set us" using split_list_first [OF assms(2)] by blast
  have "ws \<noteq> []"
  proof
    assume "ws = []"
    then have "last ns = b" using s(1) by simp
    moreover have "last ns = out" using assms(1) by simp
    ultimately show False using assms(3) by simp
  qed
  then obtain c cs where c: "ws = c # cs" by (cases ws) auto
  have "inp \<in> set (us @ [b])" using assms(1) s(1) by (cases us) simp_all
  then have "c \<noteq> inp" using assms(4) unfolding s(1) c by auto
  then show ?thesis using s c assms(4) by auto
qed

lemma insert_after_before:
  assumes "ns = inp # xs @ [out]" "b \<in> set ns" "b \<noteq> out" "distinct ns"
  shows "\<exists>c. next_in b ns = Some c \<and> c \<in> set ns \<and> c \<noteq> inp \<and> list_insert_after b n ns = list_insert_before (Some c) n ns"
proof -
  obtain us c ws where s: "ns = us @ b # c # ws" "b \<notin> set us" "c \<noteq> inp" "c \<noteq> b" "c \<notin> set us"
    using next_split [OF assms] by blast
  have d: "dropWhile (\<lambda>x. x \<noteq> b) ns = b # c # ws" "takeWhile (\<lambda>x. x \<noteq> b) ns = us"
    using s(1,2) by (auto simp: dropWhile_append takeWhile_append)
  have d': "dropWhile (\<lambda>x. x \<noteq> c) ns = c # ws" "takeWhile (\<lambda>x. x \<noteq> c) ns = us @ [b]"
    using s(1,4,5) by (auto simp: dropWhile_append takeWhile_append)
  have "c \<in> set ns" using s(1) by simp
  then show ?thesis
    using s(3) by (intro exI [of _ c]) (simp add: next_in_def list_insert_after_def list_insert_before_def d d')
qed

lemma insertBefore_ok:
  assumes "graph_ok g" "n \<in> set (g_owner g)" "insertBefore n b g = Inr g'"
  shows "graph_ok g'"
  using insert_before_ok [of g n b] assms by (auto simp: insertBefore_def bindE_Inr_iff is_linked_def)

lemma insertAfter_ok:
  assumes "graph_ok g" "n \<in> set (g_owner g)" "insertAfter n b g = Inr g'"
  shows "graph_ok g'"
proof -
  obtain xs where xs: "g_nodes g = g_inputNode g # xs @ [g_outputNode g]" "distinct (g_nodes g)"
    using assms(1) by (auto simp: graph_ok_def nodes_ok_def)
  have i: "b \<noteq> g_outputNode g" "\<not> is_linked g n" "b \<in> set (g_nodes g)" "g' = g\<lparr> g_nodes := list_insert_after b n (g_nodes g) \<rparr>"
    using assms(3) by (auto simp: insertAfter_def bindE_Inr_iff is_linked_def)
  obtain c where "c \<in> set (g_nodes g)" "c \<noteq> g_inputNode g" "list_insert_after b n (g_nodes g) = list_insert_before (Some c) n (g_nodes g)"
    using insert_after_before [OF xs(1) i(3,1) xs(2)] by blast
  then show ?thesis using insert_before_ok [OF assms(1,2) i(2)] i(4) by simp
qed

lemma insert_node_ok:
  assumes "graph_ok g" "n \<in> set (g_owner g)" "insert_node n g = Inr g'"
  shows "graph_ok g'"
proof -
  obtain b where "g_insertBefore g = Some b" "b \<in> set (g_nodes g)" "b \<noteq> g_inputNode g"
    using assms(1) by (auto simp: graph_ok_def nodes_ok_def)
  then show ?thesis using insert_before_ok [of g n b] assms by (auto simp: insert_node_def bindE_Inr_iff)
qed

lemma insertNode_ok:
  assumes "graph_ok g" "snd ` set inputs \<subseteq> snd ` set (g_values g)" "insertNode target inputs g = (n, g')"
  shows "graph_ok g' \<and> n \<in> set (g_nodes g')"
proof -
  obtain g1 where c: "createNode target inputs g = (n, g1)" and g': "g' = g1\<lparr> g_nodes := list_insert_before (g_insertBefore g1) n (g_nodes g1) \<rparr>"
    using assms(3) by (auto simp: insertNode_def split: prod.splits)
  note ok = createNode_ok [OF assms(1,2) c]
  obtain b where b: "g_insertBefore g1 = Some b" "b \<in> set (g_nodes g1)" "b \<noteq> g_inputNode g1"
    using ok by (auto simp: graph_ok_def nodes_ok_def)
  then show ?thesis using insert_before_ok [of g1 n b] ok by (simp add: g' list_insert_before_def)
qed

lemma setInsertionPoint_ok:
  assumes "graph_ok g" "n \<in> set (g_nodes g)" "setInsertionPoint n g = Inr g'"
  shows "graph_ok g'"
proof -
  have i: "n \<noteq> g_inputNode g" "g' = g\<lparr> g_insertBefore := Some n \<rparr>" using assms(3) by (auto simp: setInsertionPoint_def bindE_Inr_iff)
  have "nodes_ok g'" using assms(1,2) i unfolding graph_ok_def nodes_ok_def by simp
  then show ?thesis using assms(1) i(2) by (simp add: graph_ok_def values_ok_def users_ok_def producers_ok_def)
qed

lemma setInsertionPointAfter_ok:
  assumes "graph_ok g" "n \<in> set (g_nodes g)" "setInsertionPointAfter n g = Inr g'"
  shows "graph_ok g'"
proof -
  obtain xs where xs: "g_nodes g = g_inputNode g # xs @ [g_outputNode g]" "distinct (g_nodes g)"
    using assms(1) by (auto simp: graph_ok_def nodes_ok_def)
  have i: "n \<noteq> g_outputNode g" "g' = g\<lparr> g_insertBefore := next_in n (g_nodes g) \<rparr>"
    using assms(3) by (auto simp: setInsertionPointAfter_def bindE_Inr_iff)
  obtain c where c: "next_in n (g_nodes g) = Some c" "c \<in> set (g_nodes g)" "c \<noteq> g_inputNode g"
    using insert_after_before [OF xs(1) assms(2) i(1) xs(2)] by blast
  have "nodes_ok g'" using assms(1) c i(2) unfolding graph_ok_def nodes_ok_def by auto
  then show ?thesis using assms(1) i(2) by (simp add: graph_ok_def values_ok_def users_ok_def producers_ok_def)
qed

lemma createGraph_ok: "graph_ok createGraph"
  by (simp add: createGraph_def insertNode_def createNode_def Let_def list_insert_before_def graph_ok_def nodes_ok_def
      values_ok_def users_ok_def producers_ok_def input_values_def nullptr_def)

section \<open>Values keep the invariant\<close>

lemma unique_loop_fresh: "unique_loop names u = (name, u') \<Longrightarrow> name \<notin> set names"
proof (induction names u rule: unique_loop.induct)
  case (1 names u)
  then show ?case by (subst (asm) (2) unique_loop.simps) (auto split: if_splits)
qed

lemma getUniqueValueName_ok:
  assumes "getUniqueValueName g = (name, g')"
  shows "name \<notin> fst ` set (g_values g)" "\<exists>u. g' = g\<lparr> g_uniqueValueName := u \<rparr>"
proof -
  show "name \<notin> fst ` set (g_values g)"
    using assms unique_loop_fresh [of "map fst (g_values g)" "g_uniqueValueName g"]
    by (auto simp: getUniqueValueName_def Let_def split: if_splits prod.splits)
  show "\<exists>u. g' = g\<lparr> g_uniqueValueName := u \<rparr>"
    using assms by (cases "value_name (g_uniqueValueName g) \<in> set (map fst (g_values g))")
      (auto simp: getUniqueValueName_def Let_def split: prod.splits intro: exI [of _ "g_uniqueValueName g"])
qed

lemma graph_ok_counter [simp]: "graph_ok (g\<lparr> g_uniqueValueName := u \<rparr>) = graph_ok g"
  by (simp add: graph_ok_def nodes_ok_def values_ok_def users_ok_def producers_ok_def)

text \<open>A fresh value with a producer whose outputs it joins (or with none).\<close>

definition with_value :: "string \<Rightarrow> gtype \<Rightarrow> nref \<Rightarrow> graph \<Rightarrow> graph" where
  "with_value name type n g = (let v = g_nextValue g in
     g\<lparr> g_value := (g_value g)(v := \<lparr> v_name = name, v_folded = False, v_id = g_uniqueValueId g, v_type = type, v_producer = n, v_users = [] \<rparr>),
        g_values := g_values g @ [(name, v)], g_uniqueValueId := g_uniqueValueId g + 1, g_nextValue := v + 1,
        g_node := (if n = nullptr then g_node g else (g_node g)(n := (g_node g n)\<lparr> n_outputs := n_outputs (g_node g n) @ [v] \<rparr>)) \<rparr>)"

lemma with_value_ok:
  assumes ok: "graph_ok g" and name: "name \<notin> fst ` set (g_values g)" and n: "n = nullptr \<or> n \<in> set (g_owner g)"
  shows "graph_ok (with_value name type n g)"
proof -
  let ?g = "with_value name type n g" let ?v = "g_nextValue g"
  have v: "?v \<notin> snd ` set (g_values g)" and pos: "0 < ?v" using ok by (fastforce simp: graph_ok_def values_ok_def)+
  have fields: "g_owner ?g = g_owner g" "g_nodes ?g = g_nodes g" "g_values ?g = g_values g @ [(name, ?v)]"
      "g_value ?g = (g_value g)(?v := \<lparr> v_name = name, v_folded = False, v_id = g_uniqueValueId g, v_type = type, v_producer = n, v_users = [] \<rparr>)"
      "g_nextValue ?g = ?v + 1" "g_uniqueValueId ?g = g_uniqueValueId g + 1" "g_inputNode ?g = g_inputNode g" "g_outputNode ?g = g_outputNode g"
      "g_insertBefore ?g = g_insertBefore g" "g_nextNode ?g = g_nextNode g"
    by (simp_all add: with_value_def Let_def)
  have node: "n_inputs (g_node ?g m) = n_inputs (g_node g m)"
      "n_outputs (g_node ?g m) = (if m = n \<and> n \<noteq> nullptr then n_outputs (g_node g m) @ [?v] else n_outputs (g_node g m))" for m
    by (auto simp: with_value_def Let_def)
  have inp: "input_values (g_node ?g m) = input_values (g_node g m)" for m by (simp add: input_values_def node)
  have users: "users_ok g" and vals: "values_ok g" and prods: "producers_ok g" and nds: "nodes_ok g" using ok by (simp_all add: graph_ok_def)
  have nousers: "v_users (g_value g ?v) = []"
  proof -
    have "m \<notin> set (v_users (g_value g ?v))" for m using users_okD(2,3) [OF users, of m ?v] v by blast
    then show ?thesis by (metis all_not_in_conv set_empty)
  qed
  have "nodes_ok ?g" using nds by (simp add: nodes_ok_def fields)
  moreover have "values_ok ?g"
  proof -
    have ne: "w \<noteq> ?v" if "(s, w) \<in> set (g_values g)" for s w using that v by (metis image_eqI snd_conv)
    have "inj_on (\<lambda>w. v_id (g_value ?g w)) (insert ?v (snd ` set (g_values g)))"
      using vals v unfolding values_ok_def fields by (auto simp: inj_on_def)
    then show ?thesis
      using vals name v pos ne unfolding values_ok_def fields by (auto simp: less_SucI image_iff)
  qed
  moreover have "users_ok ?g"
  proof -
    have "?v \<notin> set (input_values (g_node g m))" if "m \<in> set (g_owner g)" for m
      using users_okD(3) [OF users that] v by blast
    then show ?thesis
      unfolding users_ok_def fields inp using users_okD [OF users] by (auto simp: fun_upd_def)
  qed
  moreover have "producers_ok ?g"
  proof -
    have ne: "w \<noteq> ?v" if "w \<in> snd ` set (g_values g)" for w using that v by blast
    have out: "?v \<notin> set (n_outputs (g_node g m))" if "m \<in> set (g_owner g)" for m
      using prods that v pos unfolding producers_ok_def nullptr_def by blast
    show ?thesis
      unfolding producers_ok_def fields node
      using prods n v ne out pos unfolding producers_ok_def nullptr_def by (auto simp: image_iff)
  qed
  ultimately show ?thesis by (simp add: graph_ok_def)
qed

end
