(* ===== verification/GraphRewrites.thy ===== *)
theory GraphRewrites
  imports GraphOps
begin

text \<open>
  The operations of \<open>Graph.cpp\<close> that add values and uses, replace uses and remove nodes keep the invariant of
  \<open>GraphOps\<close>; every graph a sequence of operations builds from the empty graph satisfies it.
\<close>

section \<open>Added values\<close>

lemma graph_ok_constants [simp]: "graph_ok (g\<lparr> g_constantSymInts := c \<rparr>) = graph_ok g"
  by (simp add: graph_ok_def nodes_ok_def values_ok_def users_ok_def producers_ok_def)

lemma graph_ok_signature [simp]: "graph_ok (g\<lparr> g_signature := c \<rparr>) = graph_ok g"
  by (simp add: graph_ok_def nodes_ok_def values_ok_def users_ok_def producers_ok_def)

lemma owner_pos: "graph_ok g \<Longrightarrow> n \<in> set (g_owner g) \<Longrightarrow> n \<noteq> nullptr"
  by (auto simp: graph_ok_def nodes_ok_def nullptr_def)

lemma addValue_with_value:
  assumes "addValue name type n g = Inr (v, g1)" "n \<noteq> nullptr"
  shows "\<exists>u s. s \<notin> fst ` set (g_values g) \<and> v = g_nextValue g \<and>
    push_output n v g1 = with_value s type n (g\<lparr> g_uniqueValueName := u \<rparr>)"
proof -
  obtain unique g0 where q: "getUniqueValueName g = (unique, g0)" by (cases "getUniqueValueName g")
  obtain u where u: "g0 = g\<lparr> g_uniqueValueName := u \<rparr>" using getUniqueValueName_ok [OF q] by blast
  let ?s = "case name of None \<Rightarrow> unique | Some n \<Rightarrow> n"
  have "?s \<notin> fst ` set (g_values g)" "v = g_nextValue g"
      "push_output n v g1 = with_value ?s type n (g\<lparr> g_uniqueValueName := u \<rparr>)"
    using assms by (auto simp: addValue_def q u Let_def bindE_Inr_iff push_output_def with_value_def)
  then show ?thesis by blast
qed

lemma addValue_ok:
  assumes "graph_ok g" "n \<in> set (g_owner g)" "addValue name type n g = Inr (v, g1)"
  shows "graph_ok (push_output n v g1) \<and> v \<in> snd ` set (g_values (push_output n v g1)) \<and>
    g_owner (push_output n v g1) = g_owner g \<and> set (g_values g) \<subseteq> set (g_values (push_output n v g1))"
proof -
  obtain u s where s: "s \<notin> fst ` set (g_values g)" "v = g_nextValue g"
      "push_output n v g1 = with_value s type n (g\<lparr> g_uniqueValueName := u \<rparr>)"
    using addValue_with_value [OF assms(3) owner_pos [OF assms(1,2)]] by blast
  have "graph_ok (push_output n v g1)"
    using with_value_ok [of "g\<lparr> g_uniqueValueName := u \<rparr>" s n type] assms(1,2) s(1) unfolding s(3) by simp
  then show ?thesis using s(2,3) by (simp add: with_value_def Let_def) blast
qed

lemma node_addOutput_ok:
  assumes "graph_ok g" "n \<in> set (g_owner g)" "node_addOutput n name type g = Inr (v, g')"
  shows "graph_ok g'" "v \<in> snd ` set (g_values g')" "g_owner g' = g_owner g" "set (g_values g) \<subseteq> set (g_values g')"
proof -
  obtain g1 where g1: "addValue (Some name) type n g = Inr (v, g1)" "g' = push_output n v g1"
    using assms(3) by (auto simp: node_addOutput_def bindE_Inr_iff)
  show "graph_ok g'" "v \<in> snd ` set (g_values g')" "g_owner g' = g_owner g" "set (g_values g) \<subseteq> set (g_values g')"
    using addValue_ok [OF assms(1,2) g1(1)] unfolding g1(2) by blast+
qed

lemma node_addOutput_none_ok:
  assumes "graph_ok g" "n \<in> set (g_owner g)" "node_addOutput_none n type g = Inr (v, g')"
  shows "graph_ok g'"
  using assms addValue_ok [OF assms(1,2)] by (auto simp: node_addOutput_none_def bindE_Inr_iff)

lemma inputNode_owned: "graph_ok g \<Longrightarrow> g_inputNode g \<in> set (g_owner g)"
  by (auto simp: graph_ok_def nodes_ok_def)

lemma outputNode_owned: "graph_ok g \<Longrightarrow> g_outputNode g \<in> set (g_owner g)"
  by (auto simp: graph_ok_def nodes_ok_def)

lemma graph_addInput_ok:
  assumes "graph_ok g" "graph_addInput name type g = Inr (v, g')"
  shows "graph_ok g'"
  using node_addOutput_ok(1) [OF assms(1) inputNode_owned [OF assms(1)]] assms(2) by (simp add: graph_addInput_def)

lemma graph_addInput_null_ok:
  assumes "graph_ok g"
  shows "graph_ok (graph_addInput_null g)"
proof -
  let ?g = "graph_addInput_null g"
  have f: "g_owner ?g = g_owner g" "g_value ?g = g_value g" "g_values ?g = g_values g"
    and n: "input_values (g_node ?g m) = input_values (g_node g m)"
      "v \<noteq> nullptr \<Longrightarrow> v \<in> set (n_outputs (g_node ?g m)) \<longleftrightarrow> v \<in> set (n_outputs (g_node g m))"
      "filter (\<lambda>v. v \<noteq> nullptr) (n_outputs (g_node ?g m)) = filter (\<lambda>v. v \<noteq> nullptr) (n_outputs (g_node g m))" for m v
    by (simp_all add: graph_addInput_null_def push_output_def input_values_def)
  have prods: "producers_ok g" and vals: "values_ok g" using assms by (simp_all add: graph_ok_def)
  have "producers_ok ?g"
    unfolding producers_ok_def f n(3)
  proof (intro conjI ballI impI)
    fix m v assume "m \<in> set (g_owner g)" "v \<in> set (n_outputs (g_node ?g m))" "v \<noteq> nullptr"
    then show "v \<in> snd ` set (g_values g)" "v_producer (g_value g v) = m" using prods n(2) unfolding producers_ok_def by auto
  next
    fix v assume v: "v \<in> snd ` set (g_values g)" "v_producer (g_value g v) \<noteq> nullptr"
    have "v \<noteq> nullptr" using values_okD(2) [OF vals v(1)] by (simp add: nullptr_def)
    then show "v \<in> set (n_outputs (g_node ?g (v_producer (g_value g v))))" using v prods n(2) unfolding producers_ok_def by auto
    show "v_producer (g_value g v) \<in> set (g_owner g)" using v prods unfolding producers_ok_def by auto
  next
    fix m assume "m \<in> set (g_owner g)"
    then show "distinct (filter (\<lambda>v. v \<noteq> nullptr) (n_outputs (g_node g m)))" using prods unfolding producers_ok_def by simp
    assume "m \<in> set (g_owner g)" "m \<noteq> g_inputNode ?g"
    then show "nullptr \<notin> set (n_outputs (g_node ?g m))"
      using prods unfolding producers_ok_def by (simp add: graph_addInput_null_def push_output_def)
  qed
  moreover have "users_ok ?g = users_ok g" unfolding users_ok_def f n(1) ..
  moreover have "nodes_ok ?g = nodes_ok g" by (simp add: nodes_ok_def graph_addInput_null_def push_output_def)
  moreover have "values_ok ?g = values_ok g" by (simp add: values_ok_def graph_addInput_null_def push_output_def)
  ultimately show ?thesis using assms by (simp add: graph_ok_def)
qed

lemma createConstantSymIntValue_ok:
  assumes "graph_ok g" "createConstantSymIntValue k g = Inr (v, g')"
  shows "graph_ok g'"
proof -
  obtain s g0 where q: "getUniqueValueName g = (s, g0)" by (cases "getUniqueValueName g")
  obtain u where u: "g0 = g\<lparr> g_uniqueValueName := u \<rparr>" and s: "s \<notin> fst ` set (g_values g)" using getUniqueValueName_ok [OF q] by blast
  have "g' = (with_value s (Kind KSymInt) nullptr g0)\<lparr> g_constantSymInts := g_constantSymInts g' \<rparr>"
    using assms(2) by (auto simp: createConstantSymIntValue_def q Let_def bindE_Inr_iff with_value_def)
  moreover have "graph_ok (with_value s (Kind KSymInt) nullptr g0)"
    using with_value_ok [of g0 s nullptr] assms(1) s by (simp add: u)
  ultimately show ?thesis by (metis graph_ok_constants)
qed

section \<open>Changes of uses\<close>

text \<open>A change that touches only the inputs of nodes and the users of values.\<close>

definition same_frame :: "graph \<Rightarrow> graph \<Rightarrow> bool" where
  "same_frame g h \<longleftrightarrow> g_owner h = g_owner g \<and> g_nodes h = g_nodes g \<and> g_values h = g_values g \<and> g_insertBefore h = g_insertBefore g \<and>
     g_inputNode h = g_inputNode g \<and> g_outputNode h = g_outputNode g \<and> g_nextNode h = g_nextNode g \<and> g_nextValue h = g_nextValue g \<and>
     g_uniqueValueId h = g_uniqueValueId g \<and>
     (\<forall>v. v_name (g_value h v) = v_name (g_value g v) \<and> v_id (g_value h v) = v_id (g_value g v) \<and> v_producer (g_value h v) = v_producer (g_value g v)) \<and>
     (\<forall>n. n_outputs (g_node h n) = n_outputs (g_node g n))"

lemma same_frame_refl [simp]: "same_frame g g"
  by (simp add: same_frame_def)

lemma same_frame_trans: "same_frame g h \<Longrightarrow> same_frame h k \<Longrightarrow> same_frame g k"
  by (simp add: same_frame_def)

lemma same_frame_ok: "same_frame g h \<Longrightarrow> graph_ok g \<Longrightarrow> users_ok h \<Longrightarrow> graph_ok h"
  unfolding graph_ok_def by (simp add: same_frame_def nodes_ok_def values_ok_def producers_ok_def)

lemma same_frame_addUser [simp]: "same_frame g (addUser n v h) = same_frame g h"
  by (simp add: same_frame_def)

lemma same_frame_eraseUser [simp]: "same_frame g (eraseUser n v h) = same_frame g h"
  by (simp add: same_frame_def)

lemma same_frame_eraseAllUsers [simp]: "same_frame g (eraseAllUsers v h) = same_frame g h"
  by (simp add: same_frame_def)

lemma node_addInput_ok:
  assumes "graph_ok g" "n \<in> set (g_owner g)" "snd p \<in> snd ` set (g_values g)"
  shows "graph_ok (node_addInput n p g)"
proof (rule same_frame_ok [OF _ assms(1)])
  show "same_frame g (node_addInput n p g)" by (simp add: node_addInput_def) (simp add: same_frame_def)
  have u: "users_ok g" using assms(1) by (simp add: graph_ok_def)
  have i: "set (input_values (g_node (node_addInput n p g) m)) = set (input_values (g_node g m)) \<union> (if m = n then {snd p} else {})" for m
    by (simp add: node_addInput_def input_values_def)
  have s: "set (v_users (g_value (node_addInput n p g) v)) = set (v_users (g_value g v)) \<union> (if v = snd p then {n} else {})"
      "distinct (v_users (g_value (node_addInput n p g) v))" for v
    using users_okD(1) [OF u] by (auto simp: node_addInput_def)
  have f: "g_owner (node_addInput n p g) = g_owner g" "g_values (node_addInput n p g) = g_values g" by (simp_all add: node_addInput_def)
  show "users_ok (node_addInput n p g)"
    unfolding users_ok_def i s(1) f using users_okD [OF u] assms(2,3) s(2) by auto
qed

lemma graph_addOutput_ok:
  assumes "graph_ok g" "v \<in> snd ` set (g_values g)"
  shows "graph_ok (graph_addOutput v g)"
  using node_addInput_ok [OF assms(1) outputNode_owned [OF assms(1)]] assms(2) by (simp add: graph_addOutput_def)

lemma replace_inputs_values:
  "input_values (replace_inputs old r node) = map (\<lambda>v. if v = old then r else v) (input_values node)"
  by (simp add: replace_inputs_def input_values_def comp_def case_prod_beta)

lemma replace_users_fold:
  assumes "foldE (replace_in_user old r) g us = Inr h" "distinct us"
  shows "same_frame g h \<and> g_node h = (\<lambda>n. if n \<in> set us then replace_inputs old r (g_node g n) else g_node g n) \<and>
    (\<forall>v. set (v_users (g_value h v)) = set (v_users (g_value g v)) \<union> (if v = r then set us else {})) \<and>
    ((\<forall>v. distinct (v_users (g_value g v))) \<longrightarrow> (\<forall>v. distinct (v_users (g_value h v))))"
  using assms
proof (induction us arbitrary: g)
  case (Cons u us)
  let ?k = "addUser u r (g\<lparr> g_node := (g_node g)(u := replace_inputs old r (g_node g u)) \<rparr>)"
  have "replace_in_user old r g u = Inr k \<Longrightarrow> k = ?k" for k by (auto simp: replace_in_user_def bindE_Inr_iff)
  then have k: "foldE (replace_in_user old r) ?k us = Inr h" using Cons.prems(1) by (auto simp: bindE_Inr_iff)
  have "distinct us" using Cons.prems(2) by simp
  note ih = Cons.IH [OF k this]
  have "same_frame g ?k" by simp (simp add: same_frame_def replace_inputs_def)
  then have "same_frame g h" using same_frame_trans conjunct1 [OF ih] by blast
  moreover have "g_node h = (\<lambda>n. if n \<in> set (u # us) then replace_inputs old r (g_node g n) else g_node g n)"
    using conjunct1 [OF conjunct2 [OF ih]] Cons.prems(2) by (auto simp: fun_eq_iff)
  moreover have "set (v_users (g_value h v)) = set (v_users (g_value g v)) \<union> (if v = r then set (u # us) else {})" for v
    using ih by auto
  moreover have "distinct (v_users (g_value h v))" if "\<forall>v. distinct (v_users (g_value g v))" for v
    using ih that by simp
  ultimately show ?case by blast
qed simp

lemma replace_users_returns:
  assumes "\<forall>u \<in> set us. old \<in> set (input_values (g_node g u))" "distinct us"
  shows "\<exists>h. foldE (replace_in_user old r) g us = Inr h"
  using assms
proof (induction us arbitrary: g)
  case (Cons u us)
  let ?k = "addUser u r (g\<lparr> g_node := (g_node g)(u := replace_inputs old r (g_node g u)) \<rparr>)"
  have "\<exists>h. foldE (replace_in_user old r) ?k us = Inr h" using Cons.prems by (intro Cons.IH) auto
  moreover have "replace_in_user old r g u = Inr ?k" using Cons.prems(1) by (simp add: replace_in_user_def check_def)
  ultimately show ?case by simp
qed simp

lemma replaceAllUses_correct:
  assumes ok: "graph_ok g" and ne: "old \<noteq> r" and r: "r \<in> snd ` set (g_values g)"
  obtains h where "replaceAllUses old r g = Inr h" "graph_ok h" "v_users (g_value h old) = []" "g_nodes h = g_nodes g"
    "\<And>n. n \<in> set (g_owner g) \<Longrightarrow> input_values (g_node h n) = map (\<lambda>v. if v = old then r else v) (input_values (g_node g n))"
proof -
  let ?us = "v_users (g_value g old)"
  have u: "users_ok g" using ok by (simp add: graph_ok_def)
  have us: "n \<in> set ?us \<longleftrightarrow> n \<in> set (g_owner g) \<and> old \<in> set (input_values (g_node g n))" and d: "distinct ?us" for n
    using users_okD(1,2) [OF u] by auto
  obtain g1 where g1: "foldE (replace_in_user old r) g ?us = Inr g1" using replace_users_returns [of ?us old g r] us d by auto
  note f = replace_users_fold [OF g1 d]
  let ?h = "(eraseAllUsers old g1)\<lparr> g_signature := sig_replaceAllUses (v_name (g_value g old)) (v_name (g_value g r)) (g_signature (eraseAllUsers old g1)) \<rparr>"
  have h: "replaceAllUses old r g = Inr ?h" by (simp add: replaceAllUses_def g1 Let_def)
  have node: "input_values (g_node ?h n) = map (\<lambda>v. if v = old then r else v) (input_values (g_node g n))" if "n \<in> set (g_owner g)" for n
  proof (cases "n \<in> set ?us")
    case True then show ?thesis using f by (simp add: replace_inputs_values)
  next
    case False
    then have "old \<notin> set (input_values (g_node g n))" using us that by blast
    then have "map (\<lambda>v. if v = old then r else v) (input_values (g_node g n)) = input_values (g_node g n)" by (intro map_idI) auto
    then show ?thesis using f False by simp
  qed
  have "same_frame g (eraseAllUsers old g1)" using f by simp
  then have frame: "same_frame g ?h" unfolding same_frame_def by simp
  have users: "set (v_users (g_value ?h v)) = (if v = old then {} else set (v_users (g_value g v)) \<union> (if v = r then set ?us else {}))"
      "distinct (v_users (g_value ?h v))" for v
    using f users_okD(1) [OF u] by simp_all
  have own: "g_owner ?h = g_owner g" "g_values ?h = g_values g" using frame by (simp_all add: same_frame_def)
  have "users_ok ?h"
    unfolding users_ok_def
  proof (intro conjI allI ballI)
    fix v n
    show "distinct (v_users (g_value ?h v))" by (rule users(2))
    show "n \<in> set (v_users (g_value ?h v)) \<longleftrightarrow> n \<in> set (g_owner ?h) \<and> v \<in> set (input_values (g_node ?h n))"
      unfolding users(1) own using node [of n] ne us [of n] users_okD(2) [OF u, of n v] by auto
  next
    fix n assume "n \<in> set (g_owner ?h)"
    then have n: "n \<in> set (g_owner g)" unfolding own .
    show "set (input_values (g_node ?h n)) \<subseteq> snd ` set (g_values ?h)"
      unfolding node [OF n] own using users_okD(3) [OF u n] r by (auto split: if_splits)
  qed
  then have "graph_ok ?h" by (rule same_frame_ok [OF frame ok])
  then show thesis using that [OF h] node users(1) [of old] frame by (simp add: same_frame_def)
qed

lemma replace_after_step_ok:
  assumes ok: "graph_ok g" and ne: "old \<noteq> r" and r: "r \<in> snd ` set (g_values g)" and n: "n \<in> set (g_owner g)"
  shows "graph_ok (replace_after_step old r g n) \<and> same_frame g (replace_after_step old r g n)"
proof (cases "old \<in> set (input_values (g_node g n))")
  case True
  let ?h = "replace_after_step old r g n"
  have u: "users_ok g" using ok by (simp add: graph_ok_def)
  have frame: "same_frame g ?h" using True by (simp add: replace_after_step_def) (simp add: same_frame_def replace_inputs_def)
  have own: "g_owner ?h = g_owner g" "g_values ?h = g_values g" using frame by (simp_all add: same_frame_def)
  have node: "input_values (g_node ?h m) = (if m = n then map (\<lambda>v. if v = old then r else v) (input_values (g_node g n)) else input_values (g_node g m))" for m
    using True by (simp add: replace_after_step_def replace_inputs_values)
  have users: "set (v_users (g_value ?h v)) = (if v = old then set (v_users (g_value g v)) - {n} else set (v_users (g_value g v)) \<union> (if v = r then {n} else {}))"
      "distinct (v_users (g_value ?h v))" for v
    using True ne users_okD(1) [OF u] by (auto simp: replace_after_step_def)
  have "users_ok ?h"
    unfolding users_ok_def users(1) own node using users(2) users_okD [OF u] n r ne True by auto
  then show ?thesis using same_frame_ok [OF frame ok] frame by simp
qed (simp add: replace_after_step_def ok)

lemma replaceAllUsesAfterNode_ok:
  assumes ok: "graph_ok g" and ne: "old \<noteq> r" and r: "r \<in> snd ` set (g_values g)"
  shows "graph_ok (replaceAllUsesAfterNode old r n g)"
proof -
  have "graph_ok (foldl (replace_after_step old r) h ns)"
    if "set ns \<subseteq> set (g_owner h)" "graph_ok h" "r \<in> snd ` set (g_values h)" for ns h
    using that
  proof (induction ns arbitrary: h)
    case (Cons m ns)
    note s = replace_after_step_ok [OF Cons.prems(2) ne Cons.prems(3), of m]
    show ?case using s Cons.prems by (simp add: Cons.IH same_frame_def)
  qed simp
  moreover have "set (tl (dropWhile (\<lambda>x. x \<noteq> n) (g_nodes g))) \<subseteq> set (g_owner g)"
    using ok set_dropWhileD list.set_sel(2) unfolding graph_ok_def nodes_ok_def
    by (metis (no_types, lifting) subsetD subsetI tl_Nil)
  ultimately show ?thesis using ok r by (simp add: replaceAllUsesAfterNode_def Let_def)
qed

section \<open>Removed nodes\<close>

lemma eraseAllUsers_unused: "v_users (g_value g v) = [] \<Longrightarrow> eraseAllUsers v g = g"
proof -
  assume "v_users (g_value g v) = []"
  then have "(g_value g v)\<lparr> v_users := [] \<rparr> = g_value g v" by (metis (full_types) gvalue.surjective gvalue.update_convs(6))
  then show ?thesis by (simp add: eraseAllUsers_def)
qed

lemma remove_output_Inr:
  assumes "remove_output g v = Inr h"
  shows "v_users (g_value g v) = []" "h = g\<lparr> g_values := filter (\<lambda>p. fst p \<noteq> v_name (g_value g v)) (g_values g) \<rparr>"
proof -
  show e: "v_users (g_value g v) = []" using assms by (auto simp: remove_output_def bindE_Inr_iff)
  show "h = g\<lparr> g_values := filter (\<lambda>p. fst p \<noteq> v_name (g_value g v)) (g_values g) \<rparr>"
    using assms e by (auto simp: remove_output_def removeValue_def bindE_Inr_iff eraseAllUsers_unused)
qed

lemma remove_outputs_fold:
  assumes "foldE remove_output g vs = Inr h"
  shows "(\<forall>v \<in> set vs. v_users (g_value g v) = []) \<and>
    h = g\<lparr> g_values := filter (\<lambda>p. fst p \<notin> (\<lambda>v. v_name (g_value g v)) ` set vs) (g_values g) \<rparr>"
  using assms
proof (induction vs arbitrary: g)
  case (Cons v vs)
  from Cons.prems obtain k where k: "remove_output g v = Inr k" "foldE remove_output k vs = Inr h" by (auto simp: bindE_Inr_iff)
  show ?case using Cons.IH [OF k(2)] remove_output_Inr [OF k(1)] by (auto intro: filter_cong)
qed simp

text \<open>What \<open>removeNode\<close> does to a graph that satisfies the invariant.\<close>

definition without_node :: "nref \<Rightarrow> graph \<Rightarrow> graph" where
  "without_node n g = (foldl (\<lambda>g v. eraseUser n v g) (g\<lparr> g_values := filter (\<lambda>p. snd p \<notin> set (n_outputs (g_node g n))) (g_values g) \<rparr>)
     (input_values (g_node g n)))\<lparr> g_nodes := filter (\<lambda>m. m \<noteq> n) (g_nodes g), g_owner := filter (\<lambda>m. m \<noteq> n) (g_owner g) \<rparr>"

lemma output_value:
  assumes "graph_ok g" "n \<in> set (g_owner g)" "n \<noteq> g_inputNode g" "v \<in> set (n_outputs (g_node g n))"
  shows "v \<noteq> nullptr" "v \<in> snd ` set (g_values g)" "v_producer (g_value g v) = n"
proof -
  have p: "producers_ok g" using assms(1) by (simp add: graph_ok_def)
  show v: "v \<noteq> nullptr" using p assms(2-4) unfolding producers_ok_def by metis
  then show "v \<in> snd ` set (g_values g)" "v_producer (g_value g v) = n"
    using bspec [OF bspec [OF conjunct1 [OF p [unfolded producers_ok_def]] assms(2)] assms(4)] by simp_all
qed

lemma outputs_distinct:
  assumes "graph_ok g" "n \<in> set (g_owner g)" "n \<noteq> g_inputNode g"
  shows "distinct (n_outputs (g_node g n))"
proof -
  have "filter (\<lambda>v. v \<noteq> nullptr) (n_outputs (g_node g n)) = n_outputs (g_node g n)"
    using output_value(1) [OF assms] by simp
  then show ?thesis using assms(1,2) unfolding graph_ok_def producers_ok_def by metis
qed

lemma remove_outputs_returns:
  assumes "distinct vs" "\<forall>v \<in> set vs. v_users (g_value g v) = [] \<and> (v_name (g_value g v), v) \<in> set (g_values g)"
    "inj_on (\<lambda>v. v_name (g_value g v)) (set vs)"
  shows "\<exists>h. foldE remove_output g vs = Inr h"
  using assms
proof (induction vs arbitrary: g)
  case (Cons v vs)
  let ?k = "g\<lparr> g_values := filter (\<lambda>p. fst p \<noteq> v_name (g_value g v)) (g_values g) \<rparr>"
  have e: "v_users (g_value g v) = []" "v_name (g_value g v) \<in> fst ` set (g_values g)" using Cons.prems(2) by (simp, force)
  have "remove_output g v = Inr ?k"
    using e by (simp add: remove_output_def removeValue_def check_def eraseAllUsers_unused)
  moreover have "\<exists>h. foldE remove_output ?k vs = Inr h"
  proof (rule Cons.IH)
    show "\<forall>w \<in> set vs. v_users (g_value ?k w) = [] \<and> (v_name (g_value ?k w), w) \<in> set (g_values ?k)"
    proof
      fix w assume w: "w \<in> set vs"
      then have "v_name (g_value g w) \<noteq> v_name (g_value g v)" using Cons.prems(1,3) by (auto simp: inj_on_def)
      then show "v_users (g_value ?k w) = [] \<and> (v_name (g_value ?k w), w) \<in> set (g_values ?k)" using Cons.prems(2) w by simp
    qed
  qed (use Cons.prems in \<open>simp_all add: inj_on_def\<close>)
  ultimately show ?case by simp
qed simp

lemma output_names:
  assumes ok: "graph_ok g" and n: "n \<in> set (g_owner g)" "n \<noteq> g_inputNode g" and p: "p \<in> set (g_values g)"
  shows "fst p \<in> (\<lambda>v. v_name (g_value g v)) ` set (n_outputs (g_node g n)) \<longleftrightarrow> snd p \<in> set (n_outputs (g_node g n))"
proof
  have vals: "values_ok g" using ok by (simp add: graph_ok_def)
  have outs: "v \<in> snd ` set (g_values g)" if "v \<in> set (n_outputs (g_node g n))" for v
    using output_value(2) [OF ok n that] .
  have p': "v_name (g_value g (snd p)) = fst p" using vals p unfolding values_ok_def by auto
  assume "fst p \<in> (\<lambda>v. v_name (g_value g v)) ` set (n_outputs (g_node g n))"
  then obtain v where v: "v \<in> set (n_outputs (g_node g n))" "fst p = v_name (g_value g v)" by blast
  have "(fst p, v) \<in> set (g_values g)" using values_okD(1) [OF vals outs [OF v(1)]] v(2) by simp
  then have "v = snd p" using p vals unfolding values_ok_def by (metis eq_key_imp_eq_value prod.collapse)
  then show "snd p \<in> set (n_outputs (g_node g n))" using v(1) by simp
next
  assume "snd p \<in> set (n_outputs (g_node g n))"
  moreover have "v_name (g_value g (snd p)) = fst p" using ok p unfolding graph_ok_def values_ok_def by auto
  ultimately show "fst p \<in> (\<lambda>v. v_name (g_value g v)) ` set (n_outputs (g_node g n))" by (metis image_eqI)
qed

lemma removeNode_Inr:
  assumes ok: "graph_ok g" and n: "n \<noteq> g_inputNode g" and r: "removeNode n g = Inr h"
  shows "h = without_node n g" "n \<in> set (g_nodes g)" "\<forall>v \<in> set (n_outputs (g_node g n)). v_users (g_value g v) = []"
proof -
  obtain g1 where g1: "foldE remove_output g (n_outputs (g_node g n)) = Inr g1"
    and h: "h = (foldl (\<lambda>g v. eraseUser n v g) g1 (input_values (g_node g1 n)))\<lparr> g_nodes := filter (\<lambda>m. m \<noteq> n) (g_nodes g1), g_owner := filter (\<lambda>m. m \<noteq> n) (g_owner g1) \<rparr>"
    and l: "n \<in> set (g_nodes g1)" "n \<in> set (g_owner g1)"
    using r by (auto simp: removeNode_def bindE_Inr_iff Let_def is_linked_def)
  note f = remove_outputs_fold [OF g1]
  have own: "n \<in> set (g_owner g)" using l(2) f by simp
  have "filter (\<lambda>p. fst p \<notin> (\<lambda>v. v_name (g_value g v)) ` set (n_outputs (g_node g n))) (g_values g) =
      filter (\<lambda>p. snd p \<notin> set (n_outputs (g_node g n))) (g_values g)"
    using output_names [OF ok own n] by (intro filter_cong) simp_all
  then have g1': "g1 = g\<lparr> g_values := filter (\<lambda>p. snd p \<notin> set (n_outputs (g_node g n))) (g_values g) \<rparr>" using f by simp
  show "h = without_node n g" unfolding h g1' without_node_def by simp
  show "n \<in> set (g_nodes g)" "\<forall>v \<in> set (n_outputs (g_node g n)). v_users (g_value g v) = []" using l(1) f by simp_all
qed

lemma removeNode_returns:
  assumes ok: "graph_ok g" and n: "n \<noteq> g_inputNode g" "n \<in> set (g_nodes g)"
    and e: "\<forall>v \<in> set (n_outputs (g_node g n)). v_users (g_value g v) = []"
  shows "removeNode n g = Inr (without_node n g)"
proof -
  have own: "n \<in> set (g_owner g)" using ok n(2) by (auto simp: graph_ok_def nodes_ok_def)
  have vals: "values_ok g" using ok by (simp add: graph_ok_def)
  have named: "(v_name (g_value g v), v) \<in> set (g_values g)" if "v \<in> set (n_outputs (g_node g n))" for v
    using values_okD(1) [OF vals output_value(2) [OF ok own n(1) that]] .
  then have "inj_on (\<lambda>v. v_name (g_value g v)) (set (n_outputs (g_node g n)))"
    using vals unfolding inj_on_def values_ok_def by (metis eq_key_imp_eq_value)
  then obtain g1 where g1: "foldE remove_output g (n_outputs (g_node g n)) = Inr g1"
    using remove_outputs_returns [OF outputs_distinct [OF ok own n(1)]] e named by blast
  note f = remove_outputs_fold [OF g1]
  have "\<exists>h. removeNode n g = Inr h" using f n(2) own by (simp add: removeNode_def g1 Let_def is_linked_def check_def)
  then show ?thesis using removeNode_Inr(1) [OF ok n(1)] by blast
qed

lemma without_node_fields [simp]:
  "g_nodes (without_node n g) = filter (\<lambda>m. m \<noteq> n) (g_nodes g)" "g_owner (without_node n g) = filter (\<lambda>m. m \<noteq> n) (g_owner g)"
  "g_node (without_node n g) = g_node g" "g_values (without_node n g) = filter (\<lambda>p. snd p \<notin> set (n_outputs (g_node g n))) (g_values g)"
  "g_inputNode (without_node n g) = g_inputNode g" "g_outputNode (without_node n g) = g_outputNode g"
  "g_insertBefore (without_node n g) = g_insertBefore g" "g_nextNode (without_node n g) = g_nextNode g"
  "g_nextValue (without_node n g) = g_nextValue g" "g_uniqueValueId (without_node n g) = g_uniqueValueId g"
  "v_name (g_value (without_node n g) v) = v_name (g_value g v)" "v_id (g_value (without_node n g) v) = v_id (g_value g v)"
  "v_producer (g_value (without_node n g) v) = v_producer (g_value g v)"
  "set (v_users (g_value (without_node n g) v)) = set (v_users (g_value g v)) - (if v \<in> set (input_values (g_node g n)) then {n} else {})"
  by (simp_all add: without_node_def)

lemma without_node_ok:
  assumes ok: "graph_ok g" and n: "n \<in> set (g_nodes g)" "n \<noteq> g_inputNode g" "n \<noteq> g_outputNode g" "g_insertBefore g \<noteq> Some n"
    and e: "\<forall>v \<in> set (n_outputs (g_node g n)). v_users (g_value g v) = []"
  shows "graph_ok (without_node n g)"
proof -
  let ?h = "without_node n g"
  have nds: "nodes_ok g" and vals: "values_ok g" and u: "users_ok g" and prods: "producers_ok g" using ok by (simp_all add: graph_ok_def)
  have own: "n \<in> set (g_owner g)" using nds n(1) by (auto simp: nodes_ok_def)
  have "nodes_ok ?h"
  proof -
    obtain ns where ns: "g_nodes g = g_inputNode g # ns @ [g_outputNode g]" using nds by (auto simp: nodes_ok_def)
    have f: "filter (\<lambda>m. m \<noteq> n) (g_nodes g) = g_inputNode g # filter (\<lambda>m. m \<noteq> n) ns @ [g_outputNode g]"
      unfolding ns using n(2,3) by simp
    obtain b where b: "g_insertBefore g = Some b" "b \<in> set (g_nodes g)" "b \<noteq> g_inputNode g" "b \<noteq> n"
      using nds n(4) unfolding nodes_ok_def by auto
    then have "\<exists>b. g_insertBefore ?h = Some b \<and> b \<in> set (g_nodes ?h) \<and> b \<noteq> g_inputNode ?h" by simp
    moreover have "\<exists>ns. g_nodes ?h = g_inputNode ?h # ns @ [g_outputNode ?h]" using f by simp
    moreover have "distinct (g_nodes ?h)" "distinct (g_owner ?h)" "set (g_nodes ?h) \<subseteq> set (g_owner ?h)"
        "\<forall>m \<in> set (g_owner ?h). 0 < m \<and> m < g_nextNode ?h"
      using nds unfolding nodes_ok_def by auto
    ultimately show ?thesis unfolding nodes_ok_def by blast
  qed
  moreover have "values_ok ?h"
    using vals unfolding values_ok_def by (auto simp: inj_on_def distinct_map_filter)
  moreover have "users_ok ?h"
  proof -
    have "v \<notin> set (n_outputs (g_node g n))" if "m \<in> set (g_owner g)" "v \<in> set (input_values (g_node g m))" for m v
      using e users_okD(2) [OF u, of m v] that by fastforce
    then have "v \<in> snd ` set (g_values ?h)" if "m \<in> set (g_owner ?h)" "v \<in> set (input_values (g_node ?h m))" for m v
      using users_okD(3) [OF u, of m v] that by (auto simp: image_iff)
    moreover have "m \<in> set (v_users (g_value ?h v)) \<longleftrightarrow> m \<in> set (g_owner ?h) \<and> v \<in> set (input_values (g_node ?h m))" for m v
      using users_okD(2) [OF u, of m v] by auto
    moreover have "distinct (v_users (g_value ?h v))" for v
      unfolding without_node_def using users_okD(1) [OF u] by (simp add: eraseUsers_distinct)
    ultimately show ?thesis unfolding users_ok_def by blast
  qed
  moreover have "producers_ok ?h"
    unfolding producers_ok_def
  proof (intro conjI ballI impI)
    fix m v assume m: "m \<in> set (g_owner ?h)" and v: "v \<in> set (n_outputs (g_node ?h m))" "v \<noteq> nullptr"
    have p: "v \<in> snd ` set (g_values g)" "v_producer (g_value g v) = m" using prods m v unfolding producers_ok_def by auto
    have "v \<notin> set (n_outputs (g_node g n))"
    proof
      assume "v \<in> set (n_outputs (g_node g n))"
      then have "v_producer (g_value g v) = n" using prods own v(2) unfolding producers_ok_def by blast
      then show False using p(2) m by simp
    qed
    then show "v \<in> snd ` set (g_values ?h)" using p(1) by (auto simp: image_iff)
    show "v_producer (g_value ?h v) = m" using p(2) by simp
  next
    fix v assume v: "v \<in> snd ` set (g_values ?h)" "v_producer (g_value ?h v) \<noteq> nullptr"
    then have "v \<in> snd ` set (g_values g)" "v \<notin> set (n_outputs (g_node g n))" by auto
    then show "v \<in> set (n_outputs (g_node ?h (v_producer (g_value ?h v))))" "v_producer (g_value ?h v) \<in> set (g_owner ?h)"
      using prods v(2) unfolding producers_ok_def by auto
  next
    fix m assume m: "m \<in> set (g_owner ?h)"
    then show "distinct (filter (\<lambda>v. v \<noteq> nullptr) (n_outputs (g_node ?h m)))" using prods unfolding producers_ok_def by simp
    assume "m \<noteq> g_inputNode ?h"
    then show "nullptr \<notin> set (n_outputs (g_node ?h m))" using prods m unfolding producers_ok_def by simp
  qed
  ultimately show ?thesis by (simp add: graph_ok_def)
qed

end
