(* ===== verification/GraphCleanup.thy ===== *)
theory GraphCleanup
  imports GraphRewrites "HOL-Library.While_Combinator"
begin

text \<open>
  The rest of \<open>Graph.cpp\<close>: navigation between nodes, \<open>lint\<close>, \<open>renumberValues\<close>, \<open>cleanupDeadNodes\<close> and
  \<open>insertGraph\<close>, with the step relation of all operations that change a graph.
\<close>

section \<open>Navigation\<close>

definition nodeAfter :: "graph \<Rightarrow> nref \<Rightarrow> nref" where
  "nodeAfter g n = (if n = g_outputNode g then nullptr else case next_in n (g_nodes g) of None \<Rightarrow> nullptr | Some m \<Rightarrow> m)"

definition nodeBefore :: "graph \<Rightarrow> nref \<Rightarrow> nref" where
  "nodeBefore g n = (if n = g_inputNode g then nullptr else case next_in n (rev (g_nodes g)) of None \<Rightarrow> nullptr | Some m \<Rightarrow> m)"

text \<open>The cursor of \<open>isBefore\<close> visits the nodes behind the first one.\<close>

fun cursor_finds :: "nref \<Rightarrow> nref list \<Rightarrow> bool" where
  "cursor_finds n [] \<longleftrightarrow> False"
| "cursor_finds n (c # cs) \<longleftrightarrow> c = n \<or> cursor_finds n cs"

definition isBefore :: "graph \<Rightarrow> nref \<Rightarrow> nref \<Rightarrow> bool" where
  "isBefore g this n \<longleftrightarrow> this \<noteq> n \<and> cursor_finds n (tl (dropWhile (\<lambda>x. x \<noteq> this) (g_nodes g)))"

definition push_new :: "nref list \<Rightarrow> nref \<Rightarrow> nref list" where
  "push_new ret n = (if n \<in> set ret then ret else ret @ [n])"

definition inner_producers :: "graph \<Rightarrow> nref \<Rightarrow> nref list" where
  "inner_producers g n =
     (let ret = foldl push_new [] (filter (\<lambda>p. p \<noteq> nullptr) (map (producer g False) (input_values (g_node g n)))) in
      if ret = [] then [g_inputNode g] else ret)"

definition inner_users :: "graph \<Rightarrow> nref \<Rightarrow> nref list" where
  "inner_users g n =
     (let ret = foldl push_new [] (concat (map (\<lambda>v. v_users (g_value g v)) (n_outputs (g_node g n)))) in
      if ret = [] then [g_outputNode g] else ret)"

definition inner_nodes :: "graph \<Rightarrow> nref list" where
  "inner_nodes g = filter (\<lambda>n. nodeAfter g n \<noteq> nullptr \<and> nodeBefore g n \<noteq> nullptr) (g_nodes g)"

definition node_producers :: "graph \<Rightarrow> nref \<Rightarrow> nref list" where
  "node_producers g n =
     (if nodeBefore g n = nullptr then []
      else if nodeAfter g n = nullptr then concat (map (\<lambda>m. map (\<lambda>_. m) (filter (\<lambda>dep. dep = n) (inner_users g m))) (inner_nodes g))
      else inner_producers g n)"

definition node_users :: "graph \<Rightarrow> nref \<Rightarrow> nref list" where
  "node_users g n =
     (if nodeAfter g n = nullptr then []
      else if nodeBefore g n = nullptr then concat (map (\<lambda>m. map (\<lambda>_. m) (filter (\<lambda>dep. dep = n) (inner_producers g m))) (inner_nodes g))
      else inner_users g n)"

section \<open>Lint\<close>

definition lint_producer :: "graph \<Rightarrow> vref \<Rightarrow> unit result" where
  "lint_producer g v = (if kind (v_type (g_value g v)) \<noteq> KSymInt \<and> kind (v_type (g_value g v)) \<noteq> KNone
     then check (v_folded (g_value g v) \<or> producer g False v \<noteq> nullptr) (CheckError ''value->isFolded() || value->producer() != nullptr'') else Inr ())"

definition lint_list :: "graph \<Rightarrow> vref \<Rightarrow> unit result" where
  "lint_list g v = (if kind (v_type (g_value g v)) \<noteq> KTensorList then Inr ()
     else check (n_target (g_node g (producer g True v)) = ''prim.ListPack'' \<or>
         (case v_users (g_value g v) of [u] \<Rightarrow> n_target (g_node g u) = ''prim.ListUnpack'' | _ \<Rightarrow> False))
       (CheckError ''producedByListPack || consumedByListUnpack''))"

definition value_names :: "graph \<Rightarrow> vref list \<Rightarrow> string set" where
  "value_names g vs = (\<lambda>v. v_name (g_value g v)) ` (set vs - {nullptr})"

text \<open>Every node of the model is a node of this graph.\<close>

definition lint :: "graph \<Rightarrow> unit result" where
  "lint g = bindE (mapE (lint_producer g) (map snd (g_values g))) (\<lambda>_.
     bindE (mapE (lint_list g) (map snd (g_values g))) (\<lambda>_.
       sig_lint (value_names g (graph_inputs g)) (value_names g (graph_outputs g)) (g_signature g)))"

section \<open>Renumbering\<close>

definition renumberValues :: "graph \<Rightarrow> graph" where
  "renumberValues g =
     (let currentValues = sort_key (\<lambda>v. v_id (g_value g v)) (map snd (g_values g));
          newIds = [0..<length currentValues];
          oldToNew = map_of (rev (zip (map (\<lambda>v. v_id (g_value g v)) currentValues) newIds));
          setId = map_of (zip currentValues newIds)
      in g\<lparr> g_value := (\<lambda>v. case setId v of None \<Rightarrow> g_value g v | Some i \<Rightarrow> (g_value g v)\<lparr> v_id := i \<rparr>),
            g_constantSymInts := List.map_filter (\<lambda>(oldId, k). map_option (\<lambda>i. (i, k)) (oldToNew oldId)) (g_constantSymInts g),
            g_uniqueValueId := length currentValues \<rparr>)"

section \<open>Dead nodes\<close>

definition visit_arg :: "graph \<Rightarrow> nref set \<times> nref list \<Rightarrow> vref \<Rightarrow> nref set \<times> nref list" where
  "visit_arg g s val = (case s of (visited, stack) \<Rightarrow> let p = producer g False val in
     if p = nullptr then (visited, stack)
     else if p \<notin> visited then (insert p visited, stack @ [p]) else (visited, stack))"

definition visit_step :: "graph \<Rightarrow> nref set \<times> nref list \<Rightarrow> nref set \<times> nref list" where
  "visit_step g s = (case s of (visited, stack) \<Rightarrow>
     foldl (visit_arg g) (visited, butlast stack) (input_values (g_node g (last stack))))"

definition mark_live :: "graph \<Rightarrow> nref set option" where
  "mark_live g = map_option fst (while_option (\<lambda>s. snd s \<noteq> []) (visit_step g) ({g_outputNode g}, [g_outputNode g]))"

definition dead_nodes :: "graph \<Rightarrow> nref set \<Rightarrow> nref list" where
  "dead_nodes g visited = filter (\<lambda>n. \<not> (n_target (g_node g n) = ''prim.Input'' \<or> n_target (g_node g n) = ''prim.Output'' \<or> n \<in> visited)) (g_nodes g)"

text \<open>\<open>None\<close>: the marking loop does not end. The log message of the breakdown by operator has no effect on the graph.\<close>

definition cleanupDeadNodes :: "graph \<Rightarrow> (bool \<times> graph) result option" where
  "cleanupDeadNodes g = map_option (\<lambda>visited. let toRemove = dead_nodes g visited in
     bindE (foldE (\<lambda>g n. removeNode n g) g (rev toRemove)) (\<lambda>g1.
       let g2 = renumberValues g1 in bindE (lint g2) (\<lambda>_. Inr (toRemove \<noteq> [], g2)))) (mark_live g)"

section \<open>Inlining\<close>

definition clone_input :: "(vref \<Rightarrow> vref option) \<Rightarrow> string \<times> vref \<Rightarrow> (string \<times> vref) result" where
  "clone_input valueMap inp = (case valueMap (snd inp) of None \<Rightarrow> Inl (CheckError ''Missing input value in subgraph'')
     | Some w \<Rightarrow> Inr (fst inp, w))"

definition clone_output :: "graph \<Rightarrow> nref \<Rightarrow> graph \<times> (vref \<Rightarrow> vref option) \<Rightarrow> vref \<Rightarrow> (graph \<times> (vref \<Rightarrow> vref option)) result" where
  "clone_output subgraph newNode s outVal = (case s of (g, valueMap) \<Rightarrow>
     case getUniqueValueName g of (uniqueName, g1) \<Rightarrow>
     bindE (node_addOutput newNode uniqueName (v_type (g_value subgraph outVal)) g1) (\<lambda>(newOut, g2). Inr (g2, valueMap(outVal \<mapsto> newOut))))"

definition clone_node :: "graph \<Rightarrow> graph \<times> (vref \<Rightarrow> vref option) \<Rightarrow> nref \<Rightarrow> (graph \<times> (vref \<Rightarrow> vref option)) result" where
  "clone_node subgraph s n = (case s of (g, valueMap) \<Rightarrow> let nd = g_node subgraph n in
     if n_target nd = ''prim.Input'' \<or> n_target nd = ''prim.Output'' then Inr (g, valueMap)
     else bindE (mapE (clone_input valueMap) (n_inputs nd)) (\<lambda>clonedInputs.
       case insertNode (n_target nd) clonedInputs g of (newNode, g1) \<Rightarrow>
       foldE (clone_output subgraph newNode) (g1, valueMap) (n_outputs nd)))"

definition insertGraph :: "graph \<Rightarrow> vref list \<Rightarrow> (vref \<Rightarrow> vref option) \<Rightarrow> graph \<Rightarrow> (vref list \<times> graph) result" where
  "insertGraph subgraph inputs valueMap g =
     bindE (check (length (graph_inputs subgraph) = length inputs) (CheckError ''Input size mismatch'')) (\<lambda>_.
     bindE (foldE (clone_node subgraph) (g, foldl (\<lambda>m (v, w). m(v \<mapsto> w)) valueMap (zip (graph_inputs subgraph) inputs)) (g_nodes subgraph)) (\<lambda>(g1, m).
     bindE (lint g1) (\<lambda>_.
       Inr (map (\<lambda>v. case m v of None \<Rightarrow> nullptr | Some w \<Rightarrow> w) (graph_outputs subgraph), g1))))"

section \<open>The marking loop\<close>

inductive live :: "graph \<Rightarrow> nref \<Rightarrow> bool" for g where
  live_output: "live g (g_outputNode g)"
| live_producer: "live g n \<Longrightarrow> v \<in> set (input_values (g_node g n)) \<Longrightarrow> producer g False v \<noteq> nullptr \<Longrightarrow> live g (producer g False v)"

lemma insert_new: "p \<noteq> x \<Longrightarrow> p \<notin> V \<Longrightarrow> insert p (P - {x} - insert p V) = insert p P - {x} - V"
  by auto

lemma visit_args:
  "\<exists>new. foldl (visit_arg g) (visited, stack) vs = (visited \<union> set new, stack @ new) \<and> distinct new \<and> set new \<inter> visited = {} \<and>
     set new = producer g False ` set vs - {nullptr} - visited"
proof (induction vs arbitrary: visited stack)
  case (Cons v vs)
  let ?p = "producer g False v" let ?P = "producer g False ` set vs"
  show ?case
  proof (cases "?p = nullptr \<or> ?p \<in> visited")
    case True
    then have v: "visit_arg g (visited, stack) v = (visited, stack)" by (auto simp: visit_arg_def Let_def)
    have e: "insert ?p ?P - {nullptr} - visited = ?P - {nullptr} - visited" using True by blast
    show ?thesis unfolding foldl_Cons v list.simps(15) image_insert e by (rule Cons.IH)
  next
    case False
    then have v: "visit_arg g (visited, stack) v = (insert ?p visited, stack @ [?p])" by (simp add: visit_arg_def Let_def)
    from Cons.IH [of "insert ?p visited" "stack @ [?p]"]
    obtain new where new: "foldl (visit_arg g) (insert ?p visited, stack @ [?p]) vs = (insert ?p visited \<union> set new, (stack @ [?p]) @ new)"
        "distinct new" "set new \<inter> insert ?p visited = {}" "set new = ?P - {nullptr} - insert ?p visited"
      by (elim exE conjE)
    have "foldl (visit_arg g) (visited, stack) (v # vs) = (visited \<union> set (?p # new), stack @ ?p # new)" using new(1) v by simp
    moreover have "distinct (?p # new)" using new(2,3) by simp
    moreover have "set (?p # new) \<inter> visited = {}" using new(3) False by simp
    moreover have "set (?p # new) = producer g False ` set (v # vs) - {nullptr} - visited"
      unfolding list.simps(15) image_insert new(4) using False by (intro insert_new) simp_all
    ultimately show ?thesis by (intro exI [of _ "?p # new"] conjI)
  qed
qed simp

lemma producer_owned:
  assumes "graph_ok g" "n \<in> set (g_owner g)" "v \<in> set (input_values (g_node g n))" "producer g False v \<noteq> nullptr"
  shows "producer g False v \<in> set (g_owner g)"
proof -
  have "v \<in> snd ` set (g_values g)" using users_okD(3) assms(1-3) by (auto simp: graph_ok_def)
  then show ?thesis using assms(1,4) unfolding graph_ok_def producers_ok_def producer_def by (auto split: if_splits)
qed

definition mark_inv :: "graph \<Rightarrow> nref set \<times> nref list \<Rightarrow> bool" where
  "mark_inv g s \<longleftrightarrow> (case s of (visited, stack) \<Rightarrow> g_outputNode g \<in> visited \<and> visited \<subseteq> {n. live g n} \<and> visited \<subseteq> set (g_owner g) \<and>
     set stack \<subseteq> visited \<and> (\<forall>n \<in> visited - set stack. producer g False ` set (input_values (g_node g n)) \<subseteq> insert nullptr visited))"

lemma mark_step:
  assumes ok: "graph_ok g" and i: "mark_inv g s" and ne: "snd s \<noteq> []"
  shows "mark_inv g (visit_step g s) \<and>
    2 * card (set (g_owner g) - fst (visit_step g s)) + length (snd (visit_step g s)) < 2 * card (set (g_owner g) - fst s) + length (snd s)"
proof -
  obtain V S n where s: "s = (V, S @ [n])" using ne by (cases s, cases "snd s" rule: rev_cases) auto
  from visit_args [of g V S "input_values (g_node g n)"]
  obtain new where new: "visit_step g s = (V \<union> set new, S @ new)" "distinct new" "set new \<inter> V = {}"
      "set new = producer g False ` set (input_values (g_node g n)) - {nullptr} - V"
    unfolding visit_step_def s prod.case butlast_snoc last_snoc by (elim exE conjE)
  have i1: "g_outputNode g \<in> V" "V \<subseteq> {n. live g n}" "V \<subseteq> set (g_owner g)" "set S \<subseteq> V" "n \<in> V"
    and i2: "\<And>m. m \<in> V \<Longrightarrow> m \<noteq> n \<Longrightarrow> m \<notin> set S \<Longrightarrow> producer g False ` set (input_values (g_node g m)) \<subseteq> insert nullptr V"
    using i by (simp_all add: mark_inv_def s)
  have n: "live g n" "n \<in> set (g_owner g)" using i1 by blast+
  have new': "\<exists>v \<in> set (input_values (g_node g n)). m = producer g False v \<and> producer g False v \<noteq> nullptr" if "m \<in> set new" for m
    using that unfolding new(4) by auto
  have own: "set new \<subseteq> set (g_owner g)" using producer_owned [OF ok n(2)] new' by (metis subsetI)
  have live: "set new \<subseteq> {n. live g n}" using live_producer [OF n(1)] new' by (metis mem_Collect_eq subsetI)
  have "producer g False ` set (input_values (g_node g m)) \<subseteq> insert nullptr (V \<union> set new)" if "m \<in> V \<union> set new - set (S @ new)" for m
  proof (cases "m = n")
    case True
    have "A \<subseteq> insert x (V \<union> (A - {x} - V))" for A :: "nref set" and x by auto
    then show ?thesis unfolding True new(4) .
  next
    case False
    then have "m \<in> V" "m \<notin> set S" using that by auto
    then show ?thesis using i2 False by blast
  qed
  then have "\<forall>m \<in> V \<union> set new - set (S @ new). producer g False ` set (input_values (g_node g m)) \<subseteq> insert nullptr (V \<union> set new)" by blast
  then have "mark_inv g (visit_step g s)" using i1 own live unfolding mark_inv_def new(1) prod.case by (simp add: le_supI1)
  moreover have "card (set (g_owner g) - V) = card (set (g_owner g) - (V \<union> set new)) + length new"
  proof -
    have "set (g_owner g) - (V \<union> set new) = (set (g_owner g) - V) - set new" by blast
    moreover have "set new \<subseteq> set (g_owner g) - V" using own new(3) by blast
    moreover have "card (set new) \<le> card (set (g_owner g) - V)" using calculation(2) by (intro card_mono) simp_all
    ultimately show ?thesis using card_Diff_subset [of "set new" "set (g_owner g) - V"] distinct_card [OF new(2)] by simp
  qed
  ultimately show ?thesis using new(1) by (simp add: s)
qed

lemma mark_live_correct:
  assumes ok: "graph_ok g"
  shows "mark_live g = Some {n. live g n}"
proof -
  let ?b = "\<lambda>s :: nref set \<times> nref list. snd s \<noteq> []" and ?s0 = "({g_outputNode g}, [g_outputNode g])"
  have i0: "mark_inv g ?s0" using outputNode_owned [OF ok] by (auto simp: mark_inv_def live_output)
  have "\<exists>t. while_option ?b (visit_step g) ?s0 = Some t"
    by (rule measure_while_option_Some [where P = "mark_inv g" and f = "\<lambda>s. 2 * card (set (g_owner g) - fst s) + length (snd s)"])
      (use mark_step [OF ok] i0 in auto)
  then obtain V S where t: "while_option ?b (visit_step g) ?s0 = Some (V, S)" by auto
  have "mark_inv g (V, S)" by (rule while_option_rule [OF _ t]) (use mark_step [OF ok] i0 in auto)
  moreover have "S = []" using while_option_stop [OF t] by simp
  ultimately have V: "g_outputNode g \<in> V" "V \<subseteq> {n. live g n}" "\<forall>n \<in> V. producer g False ` set (input_values (g_node g n)) \<subseteq> insert nullptr V"
    by (auto simp: mark_inv_def)
  have "n \<in> V" if "live g n" for n using that by induction (use V in auto)
  then have "V = {n. live g n}" using V(2) by blast
  then show ?thesis by (simp add: mark_live_def t)
qed

section \<open>Removal of the dead nodes\<close>

lemma removeNodes:
  assumes "graph_ok g" "distinct xs" "set xs \<subseteq> set (g_nodes g) - {g_inputNode g, g_outputNode g}" "\<forall>n \<in> set xs. g_insertBefore g \<noteq> Some n"
    and "\<And>us x ws v. xs = us @ x # ws \<Longrightarrow> v \<in> set (n_outputs (g_node g x)) \<Longrightarrow> set (v_users (g_value g v)) \<subseteq> set us"
  shows "foldE (\<lambda>g n. removeNode n g) g xs = Inr (foldl (\<lambda>g n. without_node n g) g xs) \<and> graph_ok (foldl (\<lambda>g n. without_node n g) g xs) \<and>
    g_nodes (foldl (\<lambda>g n. without_node n g) g xs) = filter (\<lambda>m. m \<notin> set xs) (g_nodes g)"
  using assms
proof (induction xs arbitrary: g)
  case (Cons x xs)
  let ?h = "without_node x g"
  have x: "x \<in> set (g_nodes g)" "x \<noteq> g_inputNode g" "x \<noteq> g_outputNode g" "g_insertBefore g \<noteq> Some x" using Cons.prems(3,4) by auto
  have e: "\<forall>v \<in> set (n_outputs (g_node g x)). v_users (g_value g v) = []" using Cons.prems(5) [of "[]" x xs] by simp
  have ok: "graph_ok ?h" by (rule without_node_ok [OF Cons.prems(1) x e])
  have u: "users_ok g" using Cons.prems(1) by (simp add: graph_ok_def)
  have later: "set (v_users (g_value ?h v)) \<subseteq> set us" if "xs = us @ y # ws" "v \<in> set (n_outputs (g_node ?h y))" for us y ws v
  proof -
    have "set (v_users (g_value g v)) \<subseteq> insert x (set us)" using Cons.prems(5) [of "x # us" y ws v] that by simp
    then show ?thesis using users_okD(2) [OF u, of x v] by auto
  qed
  have "foldE (\<lambda>g n. removeNode n g) ?h xs = Inr (foldl (\<lambda>g n. without_node n g) ?h xs) \<and> graph_ok (foldl (\<lambda>g n. without_node n g) ?h xs) \<and>
      g_nodes (foldl (\<lambda>g n. without_node n g) ?h xs) = filter (\<lambda>m. m \<notin> set xs) (g_nodes ?h)"
    by (rule Cons.IH [OF ok]) (use Cons.prems(2-4) later in auto)
  then show ?case using removeNode_returns [OF Cons.prems(1) x(2,1) e] by (simp add: conj_commute)
qed simp

text \<open>Every node reads only values that earlier nodes produce.\<close>

fun ordered_from :: "graph \<Rightarrow> nref set \<Rightarrow> nref list \<Rightarrow> bool" where
  "ordered_from g seen [] \<longleftrightarrow> True"
| "ordered_from g seen (n # ns) \<longleftrightarrow>
     (\<forall>v \<in> set (input_values (g_node g n)). v_producer (g_value g v) \<in> insert nullptr seen) \<and> ordered_from g (insert n seen) ns"

lemma ordered_from_split:
  "ordered_from g seen (us @ n # ws) \<Longrightarrow> v \<in> set (input_values (g_node g n)) \<Longrightarrow> v_producer (g_value g v) \<in> insert nullptr (seen \<union> set us)"
  by (induction us arbitrary: seen) auto

text \<open>
  A complete graph: its nodes are all linked and ordered, only its first and last node have the targets of the
  input and the output, no value is folded, and the insertion point is the end.
\<close>

definition complete_graph :: "graph \<Rightarrow> bool" where
  "complete_graph g \<longleftrightarrow> set (g_owner g) \<subseteq> set (g_nodes g) \<and> ordered_from g {} (g_nodes g) \<and> (\<forall>v \<in> set (map snd (g_values g)). \<not> v_folded (g_value g v)) \<and>
     (\<forall>n \<in> set (g_nodes g). n_target (g_node g n) \<in> {''prim.Input'', ''prim.Output''} \<longleftrightarrow> n \<in> {g_inputNode g, g_outputNode g}) \<and>
     g_insertBefore g = Some (g_outputNode g)"

lemma dead_nodes_eq:
  assumes "complete_graph g" "graph_ok g"
  shows "dead_nodes g {n. live g n} = filter (\<lambda>n. n \<noteq> g_inputNode g \<and> \<not> live g n) (g_nodes g)"
  unfolding dead_nodes_def
  using assms(1) by (intro filter_cong) (auto simp: complete_graph_def intro: live_output)

lemma dead_users:
  assumes ok: "graph_ok g" and c: "complete_graph g" and d: "dead_nodes g {n. live g n} = us @ x # ws"
    and v: "v \<in> set (n_outputs (g_node g x))"
  shows "set (v_users (g_value g v)) \<subseteq> set ws"
proof
  fix m assume m: "m \<in> set (v_users (g_value g v))"
  have D: "n \<in> set (us @ x # ws) \<longleftrightarrow> n \<in> set (g_nodes g) \<and> n \<noteq> g_inputNode g \<and> \<not> live g n" for n
    unfolding d [symmetric] dead_nodes_eq [OF c ok] by simp
  have x: "x \<in> set (g_nodes g)" "x \<noteq> g_inputNode g" "\<not> live g x" using D [of x] by simp_all
  have nds: "nodes_ok g" and u: "users_ok g" using ok by (simp_all add: graph_ok_def)
  have m': "m \<in> set (g_owner g)" "v \<in> set (input_values (g_node g m))" using users_okD(2) [OF u, of m v] m by auto
  have ml: "m \<in> set (g_nodes g)" using c m'(1) by (auto simp: complete_graph_def)
  have "x \<in> set (g_owner g)" using nds x(1) by (auto simp: nodes_ok_def)
  note out = output_value [OF ok this x(2) v]
  have px: "producer g False v = x" using c out by (auto simp: complete_graph_def producer_def)
  have xn: "x \<noteq> nullptr" using owner_pos [OF ok \<open>x \<in> set (g_owner g)\<close>] .
  have dead: "\<not> live g m" using live_producer [of g m v] m'(2) px xn x(3) by auto
  obtain as bs where ab: "g_nodes g = as @ m # bs" using split_list [OF ml] by blast
  have xas: "x \<in> set as" using ordered_from_split [of g "{}" as m bs v] c ab m'(2) out(3) xn by (auto simp: complete_graph_def)
  have "m \<noteq> g_inputNode g" using ab xas nds by (cases as) (auto simp: nodes_ok_def)
  then have md: "m \<in> set (us @ x # ws)" using D ml dead by blast
  have dist: "distinct (g_nodes g)" using nds by (simp add: nodes_ok_def)
  have "m \<notin> set us" "m \<noteq> x"
  proof -
    show "m \<noteq> x" using dist ab xas by auto
    let ?P = "\<lambda>n. n \<noteq> g_inputNode g \<and> \<not> live g n"
    obtain a1 a2 where as: "as = a1 @ x # a2" using split_list [OF xas] by blast
    have e: "us @ x # ws = filter ?P a1 @ x # filter ?P (a2 @ m # bs)"
      using d dead_nodes_eq [OF c ok] ab as x by simp
    have "distinct (us @ x # ws)" using distinct_filter [OF dist, of ?P] dead_nodes_eq [OF c ok] d by simp
    then have "x \<notin> set us" "x \<notin> set ws" by simp_all
    from iffD1 [OF append_Cons_eq_iff [OF this] e] have "us = filter ?P a1" by (rule conjunct1)
    then show "m \<notin> set us" using dist ab as by auto
  qed
  then show "m \<in> set ws" using md by simp
qed

lemma removed_dead:
  assumes ok: "graph_ok g" and c: "complete_graph g"
  obtains h where "foldE (\<lambda>g n. removeNode n g) g (rev (dead_nodes g {n. live g n})) = Inr h" "graph_ok h"
    "g_nodes h = filter (\<lambda>n. n = g_inputNode g \<or> live g n) (g_nodes g)"
proof -
  let ?D = "dead_nodes g {n. live g n}"
  have "distinct (g_nodes g)" using ok by (simp add: graph_ok_def nodes_ok_def)
  then have "distinct (rev ?D)" by (simp add: dead_nodes_def)
  moreover have "set (rev ?D) \<subseteq> set (g_nodes g) - {g_inputNode g, g_outputNode g}" by (auto simp: dead_nodes_eq [OF c ok] live_output)
  moreover have "\<forall>n \<in> set (rev ?D). g_insertBefore g \<noteq> Some n" using c by (auto simp: dead_nodes_eq [OF c ok] live_output complete_graph_def)
  moreover have "set (v_users (g_value g v)) \<subseteq> set us" if "rev ?D = us @ x # ws" "v \<in> set (n_outputs (g_node g x))" for us x ws v
  proof -
    have "?D = rev ws @ x # rev us" using that(1) by (metis append.assoc append_Cons append_Nil rev_append rev_rev_ident rev_singleton_conv rev.simps(2))
    then show ?thesis using dead_users [OF ok c _ that(2)] by fastforce
  qed
  ultimately have r: "foldE (\<lambda>g n. removeNode n g) g (rev ?D) = Inr (foldl (\<lambda>g n. without_node n g) g (rev ?D)) \<and>
      graph_ok (foldl (\<lambda>g n. without_node n g) g (rev ?D)) \<and> g_nodes (foldl (\<lambda>g n. without_node n g) g (rev ?D)) = filter (\<lambda>m. m \<notin> set (rev ?D)) (g_nodes g)"
    using removeNodes [OF ok, of "rev ?D"] by blast
  moreover have "filter (\<lambda>m. m \<notin> set (rev ?D)) (g_nodes g) = filter (\<lambda>n. n = g_inputNode g \<or> live g n) (g_nodes g)"
    by (rule filter_cong) (auto simp: dead_nodes_eq [OF c ok])
  ultimately show thesis using that by metis
qed

section \<open>Renumbered values\<close>

definition by_id :: "graph \<Rightarrow> vref list" where
  "by_id g = sort_key (\<lambda>v. v_id (g_value g v)) (map snd (g_values g))"

lemma by_id_facts:
  assumes "graph_ok g"
  shows "distinct (by_id g)" "set (by_id g) = snd ` set (g_values g)" "length (by_id g) = length (g_values g)"
    "sorted (map (\<lambda>v. v_id (g_value g v)) (by_id g))" "distinct (map (\<lambda>v. v_id (g_value g v)) (by_id g))"
proof -
  show a: "distinct (by_id g)" "set (by_id g) = snd ` set (g_values g)" "length (by_id g) = length (g_values g)"
      "sorted (map (\<lambda>v. v_id (g_value g v)) (by_id g))"
    using assms by (simp_all add: by_id_def graph_ok_def values_ok_def)
  show "distinct (map (\<lambda>v. v_id (g_value g v)) (by_id g))"
    using assms a(1,2) by (simp add: distinct_map graph_ok_def values_ok_def)
qed

lemma renumberValues_fields [simp]:
  "g_owner (renumberValues g) = g_owner g" "g_nodes (renumberValues g) = g_nodes g" "g_node (renumberValues g) = g_node g"
  "g_values (renumberValues g) = g_values g" "g_inputNode (renumberValues g) = g_inputNode g" "g_outputNode (renumberValues g) = g_outputNode g"
  "g_insertBefore (renumberValues g) = g_insertBefore g" "g_nextNode (renumberValues g) = g_nextNode g" "g_nextValue (renumberValues g) = g_nextValue g"
  "g_signature (renumberValues g) = g_signature g"
  "v_name (g_value (renumberValues g) v) = v_name (g_value g v)" "v_users (g_value (renumberValues g) v) = v_users (g_value g v)"
  "v_type (g_value (renumberValues g) v) = v_type (g_value g v)" "v_producer (g_value (renumberValues g) v) = v_producer (g_value g v)"
  "v_folded (g_value (renumberValues g) v) = v_folded (g_value g v)" "g_uniqueValueId (renumberValues g) = length (g_values g)"
  by (simp_all add: renumberValues_def Let_def split: option.splits)

lemma renumbered_id:
  assumes ok: "graph_ok g" and i: "i < length (g_values g)"
  shows "v_id (g_value (renumberValues g) (by_id g ! i)) = i"
proof -
  note b = by_id_facts [OF ok]
  have "map_of (zip (by_id g) [0..<length (by_id g)]) (by_id g ! i) = Some i"
    using map_of_zip_nth [of "by_id g" "[0..<length (by_id g)]" i] b(1,3) i by simp
  then show ?thesis unfolding renumberValues_def Let_def by_id_def [symmetric] by simp
qed

lemma renumbered_nth:
  assumes "graph_ok g" "v \<in> snd ` set (g_values g)"
  shows "v_id (g_value (renumberValues g) v) < length (g_values g)" "by_id g ! v_id (g_value (renumberValues g) v) = v"
proof -
  obtain i where "i < length (g_values g)" "v = by_id g ! i" using assms by_id_facts(2,3) [OF assms(1)] by (metis in_set_conv_nth)
  then show "v_id (g_value (renumberValues g) v) < length (g_values g)" "by_id g ! v_id (g_value (renumberValues g) v) = v"
    using renumbered_id [OF assms(1)] by simp_all
qed

lemma renumberValues_ok:
  assumes ok: "graph_ok g"
  shows "graph_ok (renumberValues g)"
proof -
  have inj: "inj_on (\<lambda>v. v_id (g_value (renumberValues g) v)) (snd ` set (g_values g))"
  proof (rule inj_onI)
    fix v w assume vw: "v \<in> snd ` set (g_values g)" "w \<in> snd ` set (g_values g)" "v_id (g_value (renumberValues g) v) = v_id (g_value (renumberValues g) w)"
    show "v = w" by (rule trans [OF renumbered_nth(2) [OF ok vw(1), symmetric]]) (simp only: vw(3) renumbered_nth(2) [OF ok vw(2)])
  qed
  have vals: "values_ok g" using ok by (simp add: graph_ok_def)
  have each: "\<forall>(s, v) \<in> set (g_values g). v_name (g_value g v) = s \<and> 0 < v \<and> v < g_nextValue g \<and> v_id (g_value (renumberValues g) v) < length (g_values g)"
  proof (intro ballI, clarify)
    fix s v assume sv: "(s, v) \<in> set (g_values g)"
    then have "v \<in> snd ` set (g_values g)" by force
    from renumbered_nth(1) [OF ok this] sv vals
    show "v_name (g_value g v) = s \<and> 0 < v \<and> v < g_nextValue g \<and> v_id (g_value (renumberValues g) v) < length (g_values g)"
      unfolding values_ok_def by auto
  qed
  have "values_ok (renumberValues g)"
    unfolding values_ok_def renumberValues_fields
    by (intro conjI; (rule each | rule inj | (use vals in \<open>simp add: values_ok_def\<close>)))
  moreover have "nodes_ok (renumberValues g) = nodes_ok g" unfolding nodes_ok_def renumberValues_fields ..
  moreover have "users_ok (renumberValues g) = users_ok g" unfolding users_ok_def renumberValues_fields ..
  moreover have "producers_ok (renumberValues g) = producers_ok g" unfolding producers_ok_def renumberValues_fields ..
  ultimately show ?thesis using ok by (simp add: graph_ok_def)
qed

lemma renumber_range:
  assumes ok: "graph_ok g"
  shows "(\<lambda>v. v_id (g_value (renumberValues g) v)) ` snd ` set (g_values g) = {0..<length (g_values g)}" (is "?f ` ?V = _")
proof
  show "?f ` ?V \<subseteq> {0..<length (g_values g)}" using renumbered_nth(1) [OF ok] by fastforce
  have "\<exists>v \<in> ?V. ?f v = i" if "i < length (g_values g)" for i
    using renumbered_id [OF ok that] by_id_facts(2,3) [OF ok] that by (metis nth_mem)
  then show "{0..<length (g_values g)} \<subseteq> ?f ` ?V" by (metis atLeastLessThan_iff image_eqI subsetI)
qed

lemma renumber_order:
  assumes ok: "graph_ok g" and v: "v \<in> snd ` set (g_values g)" and w: "w \<in> snd ` set (g_values g)"
  shows "v_id (g_value (renumberValues g) v) < v_id (g_value (renumberValues g) w) \<longleftrightarrow> v_id (g_value g v) < v_id (g_value g w)"
proof -
  note b = by_id_facts [OF ok]
  have "v_id (g_value g (by_id g ! i)) < v_id (g_value g (by_id g ! j))" if "i < j" "j < length (g_values g)" for i j
  proof -
    have "sorted_wrt (<) (map (\<lambda>v. v_id (g_value g v)) (by_id g))" using b(4,5) by (simp add: strict_sorted_iff)
    from sorted_wrt_nth_less [OF this that(1)] show ?thesis using that b(3) by simp
  qed
  then show ?thesis using renumbered_nth [OF ok v] renumbered_nth [OF ok w] by (metis not_less_iff_gr_or_eq)
qed

lemma renumber_constants:
  assumes ok: "graph_ok g" and v: "v \<in> snd ` set (g_values g)"
  shows "(v_id (g_value (renumberValues g) v), k) \<in> set (g_constantSymInts (renumberValues g)) \<longleftrightarrow> (v_id (g_value g v), k) \<in> set (g_constantSymInts g)"
proof -
  note b = by_id_facts [OF ok]
  let ?z = "zip (map (\<lambda>v. v_id (g_value g v)) (by_id g)) [0..<length (by_id g)]"
  have "map fst ?z = map (\<lambda>v. v_id (g_value g v)) (by_id g)" by (rule map_fst_zip) simp
  then have dz: "distinct (map fst (rev ?z))" using b(5) by (simp add: rev_map [symmetric])
  have m: "map_of (rev ?z) q = Some i \<longleftrightarrow> i < length (g_values g) \<and> q = v_id (g_value g (by_id g ! i))" for q i
  proof -
    have "(q, i) \<in> set ?z \<longleftrightarrow> i < length (g_values g) \<and> q = v_id (g_value g (by_id g ! i))"
      unfolding in_set_zip using b(3) by (auto intro!: exI [of _ i])
    then show ?thesis using map_of_eq_Some_iff [OF dz] by simp
  qed
  have c: "g_constantSymInts (renumberValues g) = List.map_filter (\<lambda>(oldId, k). map_option (\<lambda>i. (i, k)) (map_of (rev ?z) oldId)) (g_constantSymInts g)"
    unfolding renumberValues_def Let_def by_id_def [symmetric] by simp
  have "(i, k) \<in> set (g_constantSymInts (renumberValues g)) \<longleftrightarrow> (\<exists>q. (q, k) \<in> set (g_constantSymInts g) \<and> map_of (rev ?z) q = Some i)" for i
    unfolding c List.map_filter_def by force
  then show ?thesis using m renumbered_nth [OF ok v] by simp
qed

text \<open>
  Property: after \<open>renumberValues\<close> the ids of the values of a graph are the numbers below
  the number of values, values keep their order, and each constant integer belongs to the same value as before.
\<close>
theorem renumber_dense:
  assumes "graph_ok g"
  shows "graph_ok (renumberValues g) \<and>
    (\<lambda>v. v_id (g_value (renumberValues g) v)) ` snd ` set (g_values g) = {0..<length (g_values g)} \<and>
    (\<forall>v \<in> snd ` set (g_values g). \<forall>w \<in> snd ` set (g_values g).
       v_id (g_value (renumberValues g) v) < v_id (g_value (renumberValues g) w) \<longleftrightarrow> v_id (g_value g v) < v_id (g_value g w)) \<and>
    (\<forall>v \<in> snd ` set (g_values g). \<forall>k.
       (v_id (g_value (renumberValues g) v), k) \<in> set (g_constantSymInts (renumberValues g)) \<longleftrightarrow> (v_id (g_value g v), k) \<in> set (g_constantSymInts g))"
  using renumberValues_ok [OF assms] renumber_range [OF assms] renumber_order [OF assms] renumber_constants [OF assms] by blast

section \<open>The result of cleanupDeadNodes\<close>

lemma cleanup_result:
  assumes ok: "graph_ok g" and c: "complete_graph g"
  obtains h where "cleanupDeadNodes g = Some (bindE (lint h) (\<lambda>_. Inr (g_nodes h \<noteq> g_nodes g, h)))" "graph_ok h"
    "g_nodes h = filter (\<lambda>n. n = g_inputNode g \<or> live g n) (g_nodes g)"
    "(\<lambda>v. v_id (g_value h v)) ` snd ` set (g_values h) = {0..<length (g_values h)}"
proof -
  obtain h where h: "foldE (\<lambda>g n. removeNode n g) g (rev (dead_nodes g {n. live g n})) = Inr h" "graph_ok h"
      "g_nodes h = filter (\<lambda>n. n = g_inputNode g \<or> live g n) (g_nodes g)"
    using removed_dead [OF ok c] by blast
  have "dead_nodes g {n. live g n} \<noteq> [] \<longleftrightarrow> g_nodes h \<noteq> g_nodes g"
    unfolding h(3) dead_nodes_eq [OF c ok] by (simp add: filter_empty_conv filter_id_conv)
  then have "cleanupDeadNodes g = Some (bindE (lint (renumberValues h)) (\<lambda>_. Inr (g_nodes (renumberValues h) \<noteq> g_nodes g, renumberValues h)))"
    by (simp add: cleanupDeadNodes_def mark_live_correct [OF ok] Let_def h(1))
  then show thesis using that [of "renumberValues h"] renumberValues_ok [OF h(2)] renumber_range [OF h(2)] h(3) by simp
qed

section \<open>Inlined graphs keep the invariant\<close>

lemma clone_output_ok:
  assumes "clone_output sub n (g, m) v = Inr (h, m')" "graph_ok g" "n \<in> set (g_owner g)" "ran m \<subseteq> snd ` set (g_values g)"
  shows "graph_ok h \<and> n \<in> set (g_owner h) \<and> ran m' \<subseteq> snd ` set (g_values h)"
proof -
  obtain s g1 where s: "getUniqueValueName g = (s, g1)" by (cases "getUniqueValueName g")
  obtain u where u: "g1 = g\<lparr> g_uniqueValueName := u \<rparr>" using getUniqueValueName_ok [OF s] by blast
  obtain w where w: "node_addOutput n s (v_type (g_value sub v)) g1 = Inr (w, h)" "m' = m(v \<mapsto> w)"
    using assms(1) by (auto simp: clone_output_def s bindE_Inr_iff)
  have "graph_ok g1" "n \<in> set (g_owner g1)" using assms(2,3) by (simp_all add: u)
  note a = node_addOutput_ok [OF this w(1)]
  have "ran m' \<subseteq> insert w (ran m)" unfolding w(2) by (auto simp: ran_def)
  moreover have "ran m \<subseteq> snd ` set (g_values h)" using assms(4) a(4) by (auto simp: u)
  ultimately show ?thesis using a(1-3) \<open>n \<in> set (g_owner g1)\<close> by auto
qed

lemma clone_node_ok:
  assumes "clone_node sub (g, m) n = Inr (h, m')" "graph_ok g" "ran m \<subseteq> snd ` set (g_values g)"
  shows "graph_ok h \<and> ran m' \<subseteq> snd ` set (g_values h)"
proof (cases "n_target (g_node sub n) = ''prim.Input'' \<or> n_target (g_node sub n) = ''prim.Output''")
  case True then show ?thesis using assms by (simp add: clone_node_def)
next
  case False
  obtain ins nn g1 where ins: "mapE (clone_input m) (n_inputs (g_node sub n)) = Inr ins" and nn: "insertNode (n_target (g_node sub n)) ins g = (nn, g1)"
    and f: "foldE (clone_output sub nn) (g1, m) (n_outputs (g_node sub n)) = Inr (h, m')"
  proof -
    obtain ins where ins: "mapE (clone_input m) (n_inputs (g_node sub n)) = Inr ins"
      and r: "(case insertNode (n_target (g_node sub n)) ins g of (nn, g1) \<Rightarrow> foldE (clone_output sub nn) (g1, m) (n_outputs (g_node sub n))) = Inr (h, m')"
      using assms(1) False unfolding clone_node_def Let_def by (auto simp: bindE_Inr_iff)
    obtain nn g1 where nn: "insertNode (n_target (g_node sub n)) ins g = (nn, g1)" by (cases "insertNode (n_target (g_node sub n)) ins g")
    show thesis by (rule that [OF ins nn]) (use r nn in simp)
  qed
  have "snd p \<in> ran m" if p: "p \<in> set ins" for p
  proof -
    obtain i where i: "i < length ins" "p = ins ! i" using p by (metis in_set_conv_nth)
    have "clone_input m (n_inputs (g_node sub n) ! i) = Inr p"
      unfolding i(2) using i(1) mapE_Inr_length [OF ins] by (intro mapE_Inr_nth [OF ins]) simp
    then show ?thesis by (auto simp: clone_input_def ran_def split: option.splits)
  qed
  then have sub: "snd ` set ins \<subseteq> snd ` set (g_values g)" using assms(3) by blast
  note i = insertNode_ok [OF assms(2) sub nn]
  have vals: "g_values g1 = g_values g" using nn by (auto simp: insertNode_def createNode_def Let_def)
  have "nn \<in> set (g_owner g1)" using i by (auto simp: graph_ok_def nodes_ok_def)
  then have start: "case (g1, m) of (h, m') \<Rightarrow> graph_ok h \<and> nn \<in> set (g_owner h) \<and> ran m' \<subseteq> snd ` set (g_values h)"
    using i assms(3) vals by simp
  have "case (h, m') of (h, m') \<Rightarrow> graph_ok h \<and> nn \<in> set (g_owner h) \<and> ran m' \<subseteq> snd ` set (g_values h)"
  proof (rule foldE_invariant [where P = "\<lambda>(h, m'). graph_ok h \<and> nn \<in> set (g_owner h) \<and> ran m' \<subseteq> snd ` set (g_values h)", OF f start])
    fix s v s' assume "case s of (h, m') \<Rightarrow> graph_ok h \<and> nn \<in> set (g_owner h) \<and> ran m' \<subseteq> snd ` set (g_values h)"
      and "clone_output sub nn s v = Inr s'"
    then show "case s' of (h, m') \<Rightarrow> graph_ok h \<and> nn \<in> set (g_owner h) \<and> ran m' \<subseteq> snd ` set (g_values h)"
      using clone_output_ok by (cases s, cases s') fastforce
  qed
  then show ?thesis by simp
qed

lemma insertGraph_ok:
  assumes "insertGraph sub inputs m g = Inr (outs, h)" "graph_ok g" "ran m \<subseteq> snd ` set (g_values g)" "set inputs \<subseteq> snd ` set (g_values g)"
  shows "graph_ok h"
proof -
  let ?m = "foldl (\<lambda>m (v, w). m(v \<mapsto> w)) m (zip (graph_inputs sub) inputs)"
  obtain m' where f: "foldE (clone_node sub) (g, ?m) (g_nodes sub) = Inr (h, m')"
    using assms(1) by (auto simp: insertGraph_def bindE_Inr_iff)
  have "ran (foldl (\<lambda>m (v, w). m(v \<mapsto> w)) m ps) \<subseteq> ran m \<union> snd ` set ps" for m :: "vref \<Rightarrow> vref option" and ps
  proof (induction ps arbitrary: m)
    case (Cons p ps)
    obtain v w where p: "p = (v, w)" by (cases p)
    have "ran (m(v \<mapsto> w)) \<subseteq> insert w (ran m)" by (auto simp: ran_def)
    moreover have "ran (foldl (\<lambda>m (v, w). m(v \<mapsto> w)) m (p # ps)) \<subseteq> ran (m(v \<mapsto> w)) \<union> snd ` set ps"
      using Cons.IH [of "m(v \<mapsto> w)"] by (simp only: foldl_Cons p prod.case)
    moreover have "snd ` set (p # ps) = insert w (snd ` set ps)" by (simp add: p)
    ultimately show ?case by (simp only:) blast
  qed simp
  moreover have "snd ` set (zip (graph_inputs sub) inputs) \<subseteq> set inputs" by (auto dest: set_zip_rightD)
  ultimately have "ran ?m \<subseteq> snd ` set (g_values g)" using assms(3,4) by blast
  then have start: "case (g, ?m) of (h, m') \<Rightarrow> graph_ok h \<and> ran m' \<subseteq> snd ` set (g_values h)" using assms(2) by simp
  have "case (h, m') of (h, m') \<Rightarrow> graph_ok h \<and> ran m' \<subseteq> snd ` set (g_values h)"
  proof (rule foldE_invariant [where P = "\<lambda>(h, m'). graph_ok h \<and> ran m' \<subseteq> snd ` set (g_values h)", OF f start])
    fix s n s' assume "case s of (h, m') \<Rightarrow> graph_ok h \<and> ran m' \<subseteq> snd ` set (g_values h)" and "clone_node sub s n = Inr s'"
    then show "case s' of (h, m') \<Rightarrow> graph_ok h \<and> ran m' \<subseteq> snd ` set (g_values h)"
      using clone_node_ok by (cases s, cases s') fastforce
  qed
  then show ?thesis by simp
qed

lemma list_pack_node:
  assumes ok: "graph_ok g" and v: "set inputs \<subseteq> snd ` set (g_values g)"
    and s: "getUniqueValueName g = (s, g1)" and k: "createNode ''prim.ListPack'' (list_pack_inputs inputs) g1 = (k, g2)"
  shows "graph_ok g2" "node_addOutput k name type g2 = Inr (w, h) \<Longrightarrow> graph_ok h"
proof -
  obtain u where u: "g1 = g\<lparr> g_uniqueValueName := u \<rparr>" using getUniqueValueName_ok [OF s] by blast
  have "snd ` set (list_pack_inputs inputs) \<subseteq> snd ` set (g_values g1)"
    using v by (auto simp: list_pack_inputs_def u in_set_enumerate_eq)
  with createNode_ok [OF _ this k] ok have g2: "graph_ok g2" "k \<in> set (g_owner g2)" by (auto simp: u)
  then show "graph_ok g2" "node_addOutput k name type g2 = Inr (w, h) \<Longrightarrow> graph_ok h" using node_addOutput_ok(1) by blast+
qed

lemma createListPack_ok:
  assumes ok: "graph_ok g" and v: "set inputs \<subseteq> snd ` set (g_values g)" and c: "createListPack inputs type g = Inr (n, h)"
  shows "graph_ok h"
proof -
  obtain s g1 where s: "getUniqueValueName g = (s, g1)" by (cases "getUniqueValueName g")
  obtain k g2 where k: "createNode ''prim.ListPack'' (list_pack_inputs inputs) g1 = (k, g2)" by (cases "createNode ''prim.ListPack'' (list_pack_inputs inputs) g1")
  note p = list_pack_node [OF ok v s k]
  show ?thesis using c p(1) unfolding createListPack_def s k prod.case by (auto simp: bindE_Inr_iff split: if_splits intro: p(2))
qed

lemma createOptionalListPack_ok:
  assumes ok: "graph_ok g" and v: "set inputs \<subseteq> snd ` set (g_values g)" and c: "createOptionalListPack inputs g = Inr (n, h)"
  shows "graph_ok h"
proof -
  obtain s g1 where s: "getUniqueValueName g = (s, g1)" by (cases "getUniqueValueName g")
  obtain k g2 where k: "createNode ''prim.ListPack'' (list_pack_inputs inputs) g1 = (k, g2)" by (cases "createNode ''prim.ListPack'' (list_pack_inputs inputs) g1")
  show ?thesis using c unfolding createOptionalListPack_def s k prod.case by (auto simp: bindE_Inr_iff intro: list_pack_node(2) [OF ok v s k])
qed

section \<open>Reachable graphs\<close>

text \<open>One call of an operation; pointers given to it are nodes and values of the graph.\<close>

inductive graph_step :: "graph \<Rightarrow> graph \<Rightarrow> bool" where
  step_createNode: "snd ` set inputs \<subseteq> snd ` set (g_values g) \<Longrightarrow> createNode target inputs g = (n, h) \<Longrightarrow> graph_step g h"
| step_insertNode: "snd ` set inputs \<subseteq> snd ` set (g_values g) \<Longrightarrow> insertNode target inputs g = (n, h) \<Longrightarrow> graph_step g h"
| step_insertBefore: "n \<in> set (g_owner g) \<Longrightarrow> insertBefore n p g = Inr h \<Longrightarrow> graph_step g h"
| step_insertAfter: "n \<in> set (g_owner g) \<Longrightarrow> insertAfter n p g = Inr h \<Longrightarrow> graph_step g h"
| step_insert: "n \<in> set (g_owner g) \<Longrightarrow> insert_node n g = Inr h \<Longrightarrow> graph_step g h"
| step_setInsertionPoint: "n \<in> set (g_nodes g) \<Longrightarrow> setInsertionPoint n g = Inr h \<Longrightarrow> graph_step g h"
| step_setInsertionPointAfter: "n \<in> set (g_nodes g) \<Longrightarrow> setInsertionPointAfter n g = Inr h \<Longrightarrow> graph_step g h"
| step_addOutput: "n \<in> set (g_owner g) \<Longrightarrow> node_addOutput n name type g = Inr (v, h) \<Longrightarrow> graph_step g h"
| step_addOutput_none: "n \<in> set (g_owner g) \<Longrightarrow> node_addOutput_none n type g = Inr (v, h) \<Longrightarrow> graph_step g h"
| step_addInput: "n \<in> set (g_owner g) \<Longrightarrow> v \<in> snd ` set (g_values g) \<Longrightarrow> graph_step g (node_addInput n (name, v) g)"
| step_graph_addInput: "graph_addInput name type g = Inr (v, h) \<Longrightarrow> graph_step g h"
| step_graph_addInput_null: "graph_step g (graph_addInput_null g)"
| step_graph_addOutput: "v \<in> snd ` set (g_values g) \<Longrightarrow> graph_step g (graph_addOutput v g)"
| step_constant: "createConstantSymIntValue k g = Inr (v, h) \<Longrightarrow> graph_step g h"
| step_listPack: "set inputs \<subseteq> snd ` set (g_values g) \<Longrightarrow> createListPack inputs type g = Inr (n, h) \<Longrightarrow> graph_step g h"
| step_optionalListPack: "set inputs \<subseteq> snd ` set (g_values g) \<Longrightarrow> createOptionalListPack inputs g = Inr (n, h) \<Longrightarrow> graph_step g h"
| step_replaceAllUses: "old \<noteq> r \<Longrightarrow> r \<in> snd ` set (g_values g) \<Longrightarrow> replaceAllUses old r g = Inr h \<Longrightarrow> graph_step g h"
| step_replaceAllUsesAfterNode: "old \<noteq> r \<Longrightarrow> r \<in> snd ` set (g_values g) \<Longrightarrow> graph_step g (replaceAllUsesAfterNode old r n g)"
| step_removeNode: "n \<noteq> g_inputNode g \<Longrightarrow> n \<noteq> g_outputNode g \<Longrightarrow> g_insertBefore g \<noteq> Some n \<Longrightarrow> removeNode n g = Inr h \<Longrightarrow> graph_step g h"
| step_renumberValues: "graph_step g (renumberValues g)"
| step_cleanup: "complete_graph g \<Longrightarrow> cleanupDeadNodes g = Some (Inr (b, h)) \<Longrightarrow> graph_step g h"
| step_insertGraph: "ran m \<subseteq> snd ` set (g_values g) \<Longrightarrow> set inputs \<subseteq> snd ` set (g_values g) \<Longrightarrow> insertGraph sub inputs m g = Inr (outs, h) \<Longrightarrow> graph_step g h"
| step_setSignature: "graph_step g (g\<lparr> g_signature := sig \<rparr>)"

lemma removeNode_ok:
  assumes "graph_ok g" "n \<noteq> g_inputNode g" "n \<noteq> g_outputNode g" "g_insertBefore g \<noteq> Some n" "removeNode n g = Inr h"
  shows "graph_ok h"
  using removeNode_Inr [OF assms(1,2,5)] without_node_ok [OF assms(1) _ assms(2-4)] by blast

lemma cleanup_ok:
  assumes "graph_ok g" "complete_graph g" "cleanupDeadNodes g = Some (Inr (b, h))"
  shows "graph_ok h"
proof (rule cleanup_result [OF assms(1,2)])
  fix k assume "cleanupDeadNodes g = Some (bindE (lint k) (\<lambda>_. Inr (g_nodes k \<noteq> g_nodes g, k)))" "graph_ok k"
  then have "bindE (lint k) (\<lambda>_. Inr (g_nodes k \<noteq> g_nodes g, k)) = Inr (b, h)" using assms(3) by simp
  then show "graph_ok h" using \<open>graph_ok k\<close> by (auto simp: bindE_Inr_iff)
qed

lemma replaceAllUses_ok:
  assumes "graph_ok g" "old \<noteq> r" "r \<in> snd ` set (g_values g)" "replaceAllUses old r g = Inr h"
  shows "graph_ok h"
  using replaceAllUses_correct [OF assms(1-3)] assms(4) by (metis sum.inject(2))

lemma graph_step_ok: "graph_step g h \<Longrightarrow> graph_ok g \<Longrightarrow> graph_ok h"
proof (induction rule: graph_step.induct)
  case step_insertBefore then show ?case using insertBefore_ok by blast
next
  case step_insertAfter then show ?case using insertAfter_ok by blast
next
  case step_insert then show ?case using insert_node_ok by blast
next
  case step_setInsertionPoint then show ?case using setInsertionPoint_ok by blast
next
  case step_setInsertionPointAfter then show ?case using setInsertionPointAfter_ok by blast
next
  case step_addOutput then show ?case using node_addOutput_ok(1) by blast
next
  case step_addOutput_none then show ?case using node_addOutput_none_ok by blast
next
  case step_graph_addInput then show ?case using graph_addInput_ok by blast
next
  case step_graph_addInput_null then show ?case using graph_addInput_null_ok by blast
next
  case step_graph_addOutput then show ?case using graph_addOutput_ok by blast
next
  case step_constant then show ?case using createConstantSymIntValue_ok by blast
next
  case step_listPack then show ?case using createListPack_ok by blast
next
  case step_optionalListPack then show ?case using createOptionalListPack_ok by blast
next
  case step_replaceAllUses then show ?case using replaceAllUses_ok by blast
next
  case step_replaceAllUsesAfterNode then show ?case using replaceAllUsesAfterNode_ok by blast
next
  case step_removeNode then show ?case using removeNode_ok by blast
next
  case step_renumberValues then show ?case using renumberValues_ok by blast
next
  case step_cleanup then show ?case using cleanup_ok by blast
next
  case step_insertGraph then show ?case using insertGraph_ok by blast
next
  case step_createNode then show ?case using createNode_ok by blast
next
  case step_insertNode then show ?case using insertNode_ok by blast
next
  case (step_addInput n g v name) then show ?case by (simp add: node_addInput_ok)
qed simp

section \<open>Properties\<close>

text \<open>
  An operator with a tensor and a list of tensors as outputs; the list is unpacked, but only the tensor is an
  output of the graph.
\<close>

definition pair_build :: "graph result" where
  "pair_build =
     bindE (graph_addInput ''x'' (Kind KTensor) createGraph) (\<lambda>(x, g1).
     let n = fst (insertNode ''op.pair'' [(''self'', x)] g1); g2 = snd (insertNode ''op.pair'' [(''self'', x)] g1) in
     bindE (node_addOutput n ''a'' (Kind KTensor) g2) (\<lambda>(a, g3).
     bindE (node_addOutput n ''b'' (Kind KTensorList) g3) (\<lambda>(b, g4).
     let m = fst (insertNode ''prim.ListUnpack'' [(''input'', b)] g4); g5 = snd (insertNode ''prim.ListUnpack'' [(''input'', b)] g4) in
     bindE (node_addOutput m ''c'' (Kind KTensor) g5) (\<lambda>(c, g6).
       Inr (graph_addOutput a (g6\<lparr> g_signature := empty_signature\<lparr> userInputNames := [''x''], userOutputNames := [Some ''a''] \<rparr> \<rparr>))))))"

definition pair_graph :: graph where
  "pair_graph = (case pair_build of Inr g \<Rightarrow> g | Inl _ \<Rightarrow> createGraph)"

lemmas pair_eval = pair_build_def graph_addInput_def node_addOutput_def addValue_def getUniqueValueName_def value_name_def createGraph_def
  insertNode_def createNode_def list_insert_before_def addUser_def push_output_def graph_addOutput_def node_addInput_def nullptr_def Let_def

lemma pair_graph_built: "pair_build = Inr pair_graph"
proof -
  have "\<exists>g. pair_build = Inr g" by (simp add: pair_eval)
  then obtain g where g: "pair_build = Inr g" ..
  show ?thesis unfolding pair_graph_def g by simp
qed

lemma pair_complete: "complete_graph pair_graph"
  by (simp add: pair_eval pair_graph_def complete_graph_def input_values_def)

lemma pair_lint: "lint pair_graph = Inr ()"
  by (simp add: pair_eval pair_graph_def lint_def input_values_def lint_producer_def lint_list_def producer_def graph_inputs_def
      graph_outputs_def value_names_def sig_lint_ok inputNames_def outputNames_def empty_signature_def)

lemma pair_mark: "mark_live pair_graph = Some {1, 2, 3}"
  by (simp add: pair_eval pair_graph_def mark_live_def while_option_unfold visit_step_def visit_arg_def input_values_def producer_def
      insert_commute eval_nat_numeral)

lemma pair_cleanup: "cleanupDeadNodes pair_graph = Some (Inl (CheckError ''producedByListPack || consumedByListUnpack''))"
  unfolding cleanupDeadNodes_def pair_mark
  by (simp add: pair_eval pair_graph_def dead_nodes_def removeNode_def remove_output_def removeValue_def eraseAllUsers_def eraseUser_def
      is_linked_def input_values_def renumberValues_def lint_def lint_producer_def lint_list_def producer_def)


lemma step_insert_pair: "snd ` set inputs \<subseteq> snd ` set (g_values g) \<Longrightarrow> graph_step g (snd (insertNode target inputs g))"
  by (rule step_insertNode [OF _ surjective_pairing])

lemma insertNode_facts:
  "g_values (snd (insertNode target inputs g)) = g_values g" "g_owner (snd (insertNode target inputs g)) = g_owner g @ [fst (insertNode target inputs g)]"
  by (simp_all add: insertNode_def createNode_def Let_def)

lemma addOutput_facts:
  assumes "node_addOutput n name type g = Inr (v, h)"
  shows "g_owner h = g_owner g" "\<exists>s. g_values h = g_values g @ [(s, v)]"
proof -
  obtain s g1 where s: "getUniqueValueName g = (s, g1)" by (cases "getUniqueValueName g")
  obtain u where "g1 = g\<lparr> g_uniqueValueName := u \<rparr>" using getUniqueValueName_ok [OF s] by blast
  then show "g_owner h = g_owner g" "\<exists>s. g_values h = g_values g @ [(s, v)]"
    using assms by (auto simp: node_addOutput_def addValue_def s Let_def bindE_Inr_iff push_output_def)
qed

lemma pair_reachable: "graph_step\<^sup>*\<^sup>* createGraph pair_graph"
proof -
  let ?p = "\<lambda>x g. insertNode ''op.pair'' [(''self'', x)] g" and ?u = "\<lambda>b g. insertNode ''prim.ListUnpack'' [(''input'', b)] g"
  let ?s = "empty_signature\<lparr> userInputNames := [''x''], userOutputNames := [Some ''a''] \<rparr>"
  obtain x g1 a g3 b g4 c g6 where s: "graph_addInput ''x'' (Kind KTensor) createGraph = Inr (x, g1)"
      "node_addOutput (fst (?p x g1)) ''a'' (Kind KTensor) (snd (?p x g1)) = Inr (a, g3)"
      "node_addOutput (fst (?p x g1)) ''b'' (Kind KTensorList) g3 = Inr (b, g4)"
      "node_addOutput (fst (?u b g4)) ''c'' (Kind KTensor) (snd (?u b g4)) = Inr (c, g6)" "pair_graph = graph_addOutput a (g6\<lparr> g_signature := ?s \<rparr>)"
    using pair_graph_built unfolding pair_build_def Let_def by (auto simp: bindE_Inr_iff)
  note v1 = addOutput_facts [OF s(1) [unfolded graph_addInput_def]] and v2 = addOutput_facts [OF s(2)] and v3 = addOutput_facts [OF s(3)]
    and v4 = addOutput_facts [OF s(4)]
  have "graph_step createGraph g1" using s(1) by (rule step_graph_addInput)
  moreover have "graph_step g1 (snd (?p x g1))" using v1(2) by (intro step_insert_pair) auto
  moreover have "graph_step (snd (?p x g1)) g3" using s(2) by (intro step_addOutput) (simp_all add: insertNode_facts)
  moreover have "graph_step g3 g4" using s(3) v2(1) by (intro step_addOutput) (simp_all add: insertNode_facts)
  moreover have "graph_step g4 (snd (?u b g4))" using v3(2) by (intro step_insert_pair) auto
  moreover have "graph_step (snd (?u b g4)) g6" using s(4) by (intro step_addOutput) (simp_all add: insertNode_facts)
  moreover have "graph_step g6 (g6\<lparr> g_signature := ?s \<rparr>)" by (rule step_setSignature)
  moreover have "a \<in> snd ` set (g_values g6)" using v2(2) v3(2) v4(2) by (auto simp: insertNode_facts)
  then have "graph_step (g6\<lparr> g_signature := ?s \<rparr>) pair_graph" unfolding s(5) by (intro step_graph_addOutput) simp
  ultimately show ?thesis by (meson converse_rtranclp_into_rtranclp rtranclp.rtrancl_refl)
qed




text \<open>
  Property: removing a dead \<open>prim.ListUnpack\<close> takes away the only reader of a list of
  tensors that a live node produces, and \<open>lint\<close> at the end of \<open>cleanupDeadNodes\<close> rejects the graph it accepted before.
\<close>
theorem cleanup_lint_throws:
  "graph_ok pair_graph \<and> complete_graph pair_graph \<and> lint pair_graph = Inr () \<and>
   cleanupDeadNodes pair_graph = Some (Inl (CheckError ''producedByListPack || consumedByListUnpack''))"
proof -
  have "graph_ok g" if "graph_step\<^sup>*\<^sup>* createGraph g" for g
    using that by (induction rule: rtranclp_induct) (auto intro: createGraph_ok graph_step_ok)
  then show ?thesis using pair_reachable pair_complete pair_lint pair_cleanup by blast
qed

end
