(* ===== verification/TensorShapes.thy ===== *)
theory TensorShapes
  imports Prelude
begin

text \<open>
  Shapes of strided tensors. A tensor has a list of sizes and a list of strides; the element with index
  \<open>(i\<^sub>0, \<dots>, i\<^sub>n)\<close> lies at the sum of \<open>i\<^sub>k * stride\<^sub>k\<close> from the first element. This theory has the vocabulary to speak about
  elements (by index and by their position in row-major order), the normalisation of dimension arguments
  (\<open>c10/core/WrapDimMinimal.h\<close>, \<open>ATen/WrapDimUtils.h\<close>, \<open>ATen/WrapDimUtilsMulti.h\<close>), the inference of a size -1
  (\<open>ATen/InferSize.h\<close>) and the strides of a contiguous tensor. Sizes and strides are 64-bit integers in the code whose
  overflow is undefined behaviour; they are integers here, and the only place where the code checks for
  overflow, the size of a storage, is modelled with words in theory \<open>TensorStorage\<close>.
\<close>

section \<open>Elements\<close>

lemma div_less_factor:
  fixes i p m :: int
  assumes "0 < p" "i < p * m"
  shows "i div p < m"
proof (rule ccontr)
  assume "\<not> i div p < m"
  then have "m * p \<le> i div p * p" using assms(1) by (intro mult_right_mono) auto
  moreover have "i div p * p \<le> i" using div_mult_mod_eq [of i p] pos_mod_sign [OF assms(1), of i] by linarith
  ultimately show False using assms(2) by (simp add: mult.commute)
qed

definition multiply_integers :: "int list \<Rightarrow> int" where
  "multiply_integers xs = foldl (*) 1 xs"

lemma multiply_integers_simps [simp]:
  "multiply_integers [] = 1"
  "multiply_integers (x # xs) = x * multiply_integers xs"
  "multiply_integers (xs @ ys) = multiply_integers xs * multiply_integers ys"
  "multiply_integers (rev xs) = multiply_integers xs"
proof -
  have f: "foldl (*) a xs = a * foldl (*) 1 xs" for a :: int and xs
  proof (induction xs arbitrary: a)
    case (Cons x xs) show ?case using Cons [of "a * x"] Cons [of x] by simp
  qed simp
  show cons: "multiply_integers (x # xs) = x * multiply_integers xs" for x xs by (simp add: multiply_integers_def f [of x])
  show nil: "multiply_integers [] = 1" by (simp add: multiply_integers_def)
  show app: "multiply_integers (xs @ ys) = multiply_integers xs * multiply_integers ys" for xs ys
    by (induction xs) (simp_all add: cons nil)
  show "multiply_integers (rev xs) = multiply_integers xs" by (induction xs) (simp_all add: app cons nil)
qed

definition positive :: "int list \<Rightarrow> bool" where
  "positive xs \<longleftrightarrow> (\<forall>x \<in> set xs. 1 \<le> x)"

definition nonnegative :: "int list \<Rightarrow> bool" where
  "nonnegative xs \<longleftrightarrow> (\<forall>x \<in> set xs. 0 \<le> x)"

lemma positive_simps [simp]:
  "positive []" "positive (x # xs) \<longleftrightarrow> 1 \<le> x \<and> positive xs" "positive (xs @ ys) \<longleftrightarrow> positive xs \<and> positive ys" "positive (rev xs) \<longleftrightarrow> positive xs"
  by (auto simp: positive_def)

lemma nonnegative_simps [simp]:
  "nonnegative []" "nonnegative (x # xs) \<longleftrightarrow> 0 \<le> x \<and> nonnegative xs" "nonnegative (xs @ ys) \<longleftrightarrow> nonnegative xs \<and> nonnegative ys" "nonnegative (rev xs) \<longleftrightarrow> nonnegative xs"
  by (auto simp: nonnegative_def)

lemma positive_numel: "positive xs \<Longrightarrow> 1 \<le> multiply_integers xs"
proof (induction xs)
  case (Cons x xs)
  then have "1 * 1 \<le> x * multiply_integers xs" by (intro mult_mono) auto
  then show ?case by simp
qed simp

lemma nonnegative_numel: "nonnegative xs \<Longrightarrow> 0 \<le> multiply_integers xs"
  by (induction xs) simp_all

lemma numel_zero_iff: "multiply_integers xs = 0 \<longleftrightarrow> 0 \<in> set xs"
  by (induction xs) auto

lemma positive_iff_numel: "nonnegative xs \<Longrightarrow> positive xs \<longleftrightarrow> multiply_integers xs \<noteq> 0"
  by (auto simp: positive_def nonnegative_def numel_zero_iff) (metis int_one_le_iff_zero_less order_le_less)

text \<open>The offset of the element with index \<open>idx\<close>, and the indices of a shape.\<close>

fun element_offset :: "int list \<Rightarrow> int list \<Rightarrow> int" where
  "element_offset (s # strides) (i # idx) = i * s + element_offset strides idx"
| "element_offset _ _ = 0"

fun in_bounds :: "int list \<Rightarrow> int list \<Rightarrow> bool" where
  "in_bounds [] [] \<longleftrightarrow> True"
| "in_bounds (n # sizes) (i # idx) \<longleftrightarrow> 0 \<le> i \<and> i < n \<and> in_bounds sizes idx"
| "in_bounds _ _ \<longleftrightarrow> False"

text \<open>
  The offset of the element at position \<open>i\<close> in row-major order, from the dimensions (pairs of size and stride) with the
  last one first.
\<close>

fun offset_at :: "(int \<times> int) list \<Rightarrow> int \<Rightarrow> int" where
  "offset_at [] i = 0"
| "offset_at ((n, s) # dims) i = (i mod n) * s + offset_at dims (i div n)"

definition address :: "int list \<Rightarrow> int list \<Rightarrow> int \<Rightarrow> int" where
  "address sizes strides i = offset_at (rev (zip sizes strides)) i"

text \<open>The position of an index in row-major order.\<close>

fun position :: "int list \<Rightarrow> int list \<Rightarrow> int" where
  "position (n # sizes) (i # idx) = i * multiply_integers sizes + position sizes idx"
| "position _ _ = 0"

lemma in_bounds_length: "in_bounds sizes idx \<Longrightarrow> length idx = length sizes"
  by (induction sizes idx rule: in_bounds.induct) auto

lemma in_bounds_positive: "in_bounds sizes idx \<Longrightarrow> positive sizes"
  by (induction sizes idx rule: in_bounds.induct) auto

lemma position_range: "in_bounds sizes idx \<Longrightarrow> 0 \<le> position sizes idx \<and> position sizes idx < multiply_integers sizes"
proof (induction sizes idx rule: in_bounds.induct)
  case (2 n sizes i idx)
  have p: "1 \<le> multiply_integers sizes" using 2(2) in_bounds_positive positive_numel by auto
  have "(i + 1) * multiply_integers sizes \<le> n * multiply_integers sizes" using 2(2) p by (intro mult_right_mono) auto
  then show ?case using 2 p by (simp add: algebra_simps)
qed auto

lemma offset_at_append: "positive (map fst xs) \<Longrightarrow> offset_at (xs @ ys) i = offset_at xs i + offset_at ys (i div multiply_integers (map fst xs))"
proof (induction xs i rule: offset_at.induct)
  case (2 n s dims i)
  have "1 \<le> multiply_integers (map fst dims)" using 2(2) positive_numel by simp
  then have "i div n div multiply_integers (map fst dims) = i div (n * multiply_integers (map fst dims))"
    using 2(2) by (simp add: zdiv_zmult2_eq)
  then show ?case using 2 by simp
qed simp

lemma offset_at_mod: "positive (map fst xs) \<Longrightarrow> offset_at xs (i + k * multiply_integers (map fst xs)) = offset_at xs i"
proof (induction xs i arbitrary: k rule: offset_at.induct)
  case (2 n s dims i)
  let ?m = "multiply_integers (map fst dims)"
  have n: "n \<noteq> 0" and e: "i + k * (n * ?m) = i + (k * ?m) * n" using 2(2) by (auto simp: algebra_simps)
  have "(i + k * (n * ?m)) mod n = i mod n" unfolding e by (rule mod_mult_self1)
  moreover have "(i + k * (n * ?m)) div n = i div n + k * ?m" unfolding e using n by simp
  ultimately show ?case using 2 by simp
qed simp

lemma rev_zip_fst: "length strides = length sizes \<Longrightarrow> map fst (rev (zip sizes strides)) = rev sizes"
  by (simp add: rev_map [symmetric])

lemma offset_of_index:
  assumes "in_bounds sizes idx" "length strides = length sizes"
  shows "element_offset strides idx = address sizes strides (position sizes idx)"
  using assms
proof (induction sizes idx arbitrary: strides rule: in_bounds.induct)
  case (2 n sizes i idx)
  obtain s ss where s: "strides = s # ss" "length ss = length sizes" using 2(3) by (cases strides) auto
  have b: "in_bounds sizes idx" "0 \<le> i" "i < n" using 2(2) by auto
  have p: "positive sizes" "0 \<le> position sizes idx" "position sizes idx < multiply_integers sizes" using in_bounds_positive [OF b(1)] position_range [OF b(1)] by auto
  have f: "map fst (rev (zip sizes ss)) = rev sizes" using s(2) by (rule rev_zip_fst)
  have pos: "positive (map fst (rev (zip sizes ss)))" using p(1) f by simp
  have "multiply_integers (map fst (rev (zip sizes ss))) = multiply_integers sizes" using f by simp
  moreover have "(i * multiply_integers sizes + position sizes idx) div multiply_integers sizes = i" using p(2,3) by simp
  moreover have "offset_at (rev (zip sizes ss)) (i * multiply_integers sizes + position sizes idx) = offset_at (rev (zip sizes ss)) (position sizes idx)"
    using offset_at_mod [OF pos, of "position sizes idx" i] f by (simp add: add.commute)
  ultimately show ?case using 2(1) [OF b(1) s(2)] b(2,3) s by (simp add: address_def offset_at_append [OF pos])
qed (auto simp: address_def)

text \<open>Every position is the position of an index.\<close>

lemma position_surj:
  assumes "nonnegative sizes" "0 \<le> i" "i < multiply_integers sizes"
  obtains idx where "in_bounds sizes idx" "position sizes idx = i"
proof -
  have "\<exists>idx. in_bounds sizes idx \<and> position sizes idx = i" using assms
  proof (induction sizes arbitrary: i)
    case (Cons n sizes)
    let ?m = "multiply_integers sizes"
    have m: "0 < ?m" using Cons.prems nonnegative_numel [of sizes] by (cases "?m = 0") auto
    have "0 \<le> i mod ?m" "i mod ?m < ?m" using m by auto
    then obtain idx where idx: "in_bounds sizes idx" "position sizes idx = i mod ?m" using Cons.IH [of "i mod ?m"] Cons.prems(1) by auto
    have "0 \<le> i div ?m" using m Cons.prems(2) by (simp add: pos_imp_zdiv_nonneg_iff)
    moreover have "i div ?m < n" using div_less_factor [OF m] Cons.prems(3) by (simp add: mult.commute)
    ultimately have "in_bounds (n # sizes) (i div ?m # idx)" "position (n # sizes) (i div ?m # idx) = i" using idx by auto
    then show ?case by blast
  next
    case Nil then show ?case by (intro exI [of _ "[]"]) simp
  qed
  then show thesis using that by blast
qed

lemma position_inj:
  "in_bounds sizes idx \<Longrightarrow> in_bounds sizes idx' \<Longrightarrow> position sizes idx = position sizes idx' \<Longrightarrow> idx = idx'"
proof (induction sizes idx arbitrary: idx' rule: in_bounds.induct)
  case (2 n sizes i idx)
  obtain j js where j: "idx' = j # js" "in_bounds sizes js" using 2(3) by (cases idx') auto
  have b: "in_bounds sizes idx" using 2(2) by simp
  have e: "i * multiply_integers sizes + position sizes idx = j * multiply_integers sizes + position sizes js" using 2(4) j(1) by simp
  have r: "0 \<le> position sizes idx" "position sizes idx < multiply_integers sizes" "0 \<le> position sizes js" "position sizes js < multiply_integers sizes"
    using position_range [OF b] position_range [OF j(2)] by auto
  have "(i * multiply_integers sizes + position sizes idx) div multiply_integers sizes = i" "(j * multiply_integers sizes + position sizes js) div multiply_integers sizes = j"
    using r by simp_all
  then have "i = j" using e by simp
  then show ?case using 2(1) [OF b j(2)] e j(1) by simp
next
  case 1 then show ?case by (cases idx') auto
qed auto

end
