(* ===== verification/TensorStorage.thy ===== *)
theory TensorStorage
  imports TensorShapes
begin

text \<open>
  The size of the storage of a tensor, with the overflow checks of \<open>c10/util/safe_numerics.h\<close> and \<open>ATen/EmptyTensor.cpp\<close>, and the
  check that a tensor lies within its storage (\<open>ATen/native/Resize.h\<close>). All arithmetic is on unsigned 64-bit words.
\<close>

section \<open>Arithmetic with overflow flags\<close>

definition add_overflows :: "u64 \<Rightarrow> u64 \<Rightarrow> bool \<times> u64" where
  "add_overflows a b = (unat a + unat b \<ge> 2 ^ 64, a + b)"

definition mul_overflows :: "u64 \<Rightarrow> u64 \<Rightarrow> bool \<times> u64" where
  "mul_overflows a b = (unat a * unat b \<ge> 2 ^ 64, a * b)"

definition safe_multiplies_u64 :: "int list \<Rightarrow> bool \<times> u64" where
  "safe_multiplies_u64 c = foldl (\<lambda>(overflow, prod) x. case mul_overflows prod (word_of_int x) of (o1, prod) \<Rightarrow> (overflow \<or> o1, prod)) (False, 1) c"

definition storage_max :: u64 where
  "storage_max = 2 ^ 63 - 1"

section \<open>Sizes of storages\<close>

definition computeStorageNbytesContiguous :: "int list \<Rightarrow> u64 \<Rightarrow> u64 \<Rightarrow> u64 result" where
  "computeStorageNbytesContiguous sizes itemsize_bytes storage_offset =
     (case safe_multiplies_u64 sizes of (o1, acc) \<Rightarrow>
      case add_overflows acc storage_offset of (o2, acc) \<Rightarrow>
      case mul_overflows acc itemsize_bytes of (o3, acc) \<Rightarrow>
        bindE (check (\<not> (o1 \<or> o2 \<or> o3 \<or> acc > storage_max)) (CheckError ''Storage size calculation overflowed'')) (\<lambda>_. Inr acc))"

text \<open>The loop over the dimensions; \<open>None\<close> is the early return for a size 0.\<close>

fun storage_loop :: "int list \<Rightarrow> int list \<Rightarrow> bool \<Rightarrow> u64 \<Rightarrow> (bool \<times> u64) option" where
  "storage_loop (n # sizes) (s # strides) overflowed acc =
     (if n = 0 then None
      else case mul_overflows (word_of_int s) (word_of_int (n - 1)) of (o1, strided_size) \<Rightarrow>
        case add_overflows acc strided_size of (o2, acc) \<Rightarrow> storage_loop sizes strides (overflowed \<or> o1 \<or> o2) acc)"
| "storage_loop _ _ overflowed acc = Some (overflowed, acc)"

definition computeStorageNbytes :: "int list \<Rightarrow> int list \<Rightarrow> u64 \<Rightarrow> u64 \<Rightarrow> u64 result" where
  "computeStorageNbytes sizes strides itemsize_bytes storage_offset =
     bindE (check (length sizes = length strides) (CheckError ''dimensionality of sizes must match dimensionality of strides'')) (\<lambda>_.
       case storage_loop sizes strides False (storage_offset + 1) of
         None \<Rightarrow> Inr 0
       | Some (overflowed, acc) \<Rightarrow>
           (case mul_overflows acc itemsize_bytes of (o1, acc) \<Rightarrow>
             bindE (check (\<not> (overflowed \<or> o1 \<or> acc > storage_max)) (CheckError ''Storage size calculation overflowed'')) (\<lambda>_. Inr acc)))"

text \<open>
  Types of less than a byte (\<open>subByteElementPerByte\<close>) and the call without strides are left out. The two results are converted to \<open>int64_t\<close>, which holds
  them because they are at most \<open>storage_max\<close>.
\<close>

definition checkInBoundsForStorage :: "int list \<Rightarrow> int list \<Rightarrow> int \<Rightarrow> int \<Rightarrow> int \<Rightarrow> unit result" where
  "checkInBoundsForStorage sizes strides storage_offset itemsize new_storage_size_bytes =
     bindE (computeStorageNbytes sizes strides (word_of_int itemsize) 0) (\<lambda>storage_size_bytes.
     bindE (computeStorageNbytes sizes strides (word_of_int itemsize) (word_of_int storage_offset)) (\<lambda>storage_size_plus_offset_bytes.
       if storage_size_bytes = 0 then Inr ()
       else check (uint storage_size_plus_offset_bytes \<le> new_storage_size_bytes) (CheckError ''setStorage: out of bounds for storage'')))"

definition checkAsStridedArgs :: "int list \<Rightarrow> int list \<Rightarrow> int \<Rightarrow> unit result" where
  "checkAsStridedArgs sizes strides storage_offset =
     bindE (check (length sizes = length strides) (CheckError ''mismatch in length of strides and shape'')) (\<lambda>_.
     bindE (check (\<forall>val \<in> set strides. val \<ge> 0) (CheckError ''as_strided: Negative strides are not supported at the moment'')) (\<lambda>_.
       check (storage_offset \<ge> 0) (CheckError ''Tensor: invalid storage offset'')))"

section \<open>What is computed\<close>

text \<open>The offset of the last element.\<close>

fun extent :: "int list \<Rightarrow> int list \<Rightarrow> int" where
  "extent (n # sizes) (s # strides) = s * (n - 1) + extent sizes strides"
| "extent _ _ = 0"

definition int64_nonneg :: "int list \<Rightarrow> bool" where
  "int64_nonneg xs \<longleftrightarrow> (\<forall>x \<in> set xs. 0 \<le> x \<and> x < 2 ^ 63)"

lemma int64_nonneg_simps [simp]:
  "int64_nonneg []" "int64_nonneg (x # xs) \<longleftrightarrow> 0 \<le> x \<and> x < 2 ^ 63 \<and> int64_nonneg xs"
  by (auto simp: int64_nonneg_def)

lemma int64_nonnegative: "int64_nonneg xs \<Longrightarrow> nonnegative xs"
  by (auto simp: int64_nonneg_def nonnegative_def)

lemma extent_nonneg: "positive sizes \<Longrightarrow> nonnegative strides \<Longrightarrow> 0 \<le> extent sizes strides"
  by (induction sizes strides rule: extent.induct) auto

lemma uint_in_range: "0 \<le> x \<Longrightarrow> x < 2 ^ 64 \<Longrightarrow> uint (word_of_int x :: u64) = x"
  by (simp add: uint_word_of_int)

lemma uint_bounds: "0 \<le> uint (a :: u64)" "uint a < 2 ^ 64"
  using uint_lt2p [of a] by simp_all

lemma mul_overflows_uint: "mul_overflows a b = (uint a * uint b \<ge> 2 ^ 64, a * b)"
proof -
  have "2 ^ 64 \<le> unat a * unat b \<longleftrightarrow> int (2 ^ 64) \<le> int (unat a * unat b)" by (simp only: of_nat_le_iff)
  then show ?thesis by (simp add: mul_overflows_def)
qed

lemma add_overflows_uint: "add_overflows a b = (uint a + uint b \<ge> 2 ^ 64, a + b)"
proof -
  have "2 ^ 64 \<le> unat a + unat b \<longleftrightarrow> int (2 ^ 64) \<le> int (unat a + unat b)" by (simp only: of_nat_le_iff)
  then show ?thesis by (simp add: add_overflows_def)
qed

lemma uint_mult_exact: "uint a * uint b < 2 ^ 64 \<Longrightarrow> uint (a * b) = uint a * uint b" for a b :: u64
  using uint_bounds by (simp add: uint_word_ariths)

lemma uint_add_exact: "uint a + uint b < 2 ^ 64 \<Longrightarrow> uint (a + b) = uint a + uint b" for a b :: u64
  using uint_bounds by (simp add: uint_word_ariths)

lemma storage_loop_exact:
  assumes "length strides = length sizes" "int64_nonneg sizes" "int64_nonneg strides" "positive sizes"
  obtains ov sz where "storage_loop sizes strides overflowed acc = Some (ov, sz)"
    "ov \<longrightarrow> overflowed \<or> 2 ^ 64 \<le> uint acc + extent sizes strides" "\<not> ov \<longrightarrow> \<not> overflowed \<and> uint sz = uint acc + extent sizes strides"
proof -
  have "\<exists>ov sz. storage_loop sizes strides overflowed acc = Some (ov, sz) \<and>
    (ov \<longrightarrow> overflowed \<or> 2 ^ 64 \<le> uint acc + extent sizes strides) \<and> (\<not> ov \<longrightarrow> \<not> overflowed \<and> uint sz = uint acc + extent sizes strides)"
    using assms
  proof (induction sizes strides overflowed acc rule: storage_loop.induct)
    case (1 n sizes s strides overflowed acc)
    have n: "0 < n" "uint (word_of_int (n - 1) :: u64) = n - 1" "uint (word_of_int s :: u64) = s" using 1(3,4,5) uint_in_range [of "n - 1"] uint_in_range [of s] by auto
    let ?w = "word_of_int s * word_of_int (n - 1) :: u64"
    let ?o1 = "s * (n - 1) \<ge> 2 ^ 64" and ?o2 = "uint acc + uint ?w \<ge> 2 ^ 64"
    have step: "storage_loop (n # sizes) (s # strides) overflowed acc = storage_loop sizes strides (overflowed \<or> ?o1 \<or> ?o2) (acc + ?w)"
      using n by (simp add: mul_overflows_uint add_overflows_uint)
    have "\<exists>ov sz. storage_loop sizes strides (overflowed \<or> ?o1 \<or> ?o2) (acc + ?w) = Some (ov, sz) \<and>
      (ov \<longrightarrow> (overflowed \<or> ?o1 \<or> ?o2) \<or> 2 ^ 64 \<le> uint (acc + ?w) + extent sizes strides) \<and>
      (\<not> ov \<longrightarrow> \<not> (overflowed \<or> ?o1 \<or> ?o2) \<and> uint sz = uint (acc + ?w) + extent sizes strides)"
      using 1(1) [OF _ _ _ _, of _ "word_of_int s * word_of_int (n - 1)"] 1(2-5) n by (simp add: mul_overflows_uint add_overflows_uint)
    then obtain ov sz where o: "storage_loop sizes strides (overflowed \<or> ?o1 \<or> ?o2) (acc + ?w) = Some (ov, sz)"
      "ov \<longrightarrow> (overflowed \<or> ?o1 \<or> ?o2) \<or> 2 ^ 64 \<le> uint (acc + ?w) + extent sizes strides"
      "\<not> ov \<longrightarrow> \<not> (overflowed \<or> ?o1 \<or> ?o2) \<and> uint sz = uint (acc + ?w) + extent sizes strides" by blast
    have sp: "0 \<le> extent sizes strides" "0 \<le> s * (n - 1)" using extent_nonneg [of sizes strides] int64_nonnegative 1(3-5) n(1) by auto
    have w: "uint ?w = s * (n - 1)" if "\<not> ?o1" using uint_mult_exact [of "word_of_int s" "word_of_int (n - 1)"] that n by simp
    have a: "uint (acc + ?w) = uint acc + s * (n - 1)" if "\<not> ?o1" "\<not> ?o2" using uint_add_exact [of acc ?w] that w by simp
    have "2 ^ 64 \<le> uint acc + extent (n # sizes) (s # strides)" if ?o1
      using that sp uint_bounds(1) [of acc] unfolding extent.simps by linarith
    moreover have "2 ^ 64 \<le> uint acc + extent (n # sizes) (s # strides)" if "\<not> ?o1" ?o2
      using that sp w unfolding extent.simps by linarith
    ultimately have "ov \<longrightarrow> overflowed \<or> 2 ^ 64 \<le> uint acc + extent (n # sizes) (s # strides)" using o(2) a by (cases ?o1; cases ?o2) auto
    moreover have "\<not> ov \<longrightarrow> \<not> overflowed \<and> uint sz = uint acc + extent (n # sizes) (s # strides)" using o(3) a by auto
    ultimately show ?case using step o(1) by simp
  qed auto
  then show thesis using that by blast
qed

lemma storage_loop_empty: "0 \<in> set sizes \<Longrightarrow> length strides = length sizes \<Longrightarrow> storage_loop sizes strides ov sz = None"
  by (induction sizes strides ov sz rule: storage_loop.induct) (auto split: prod.splits)

lemma storage_nbytes:
  assumes "length strides = length sizes" "int64_nonneg sizes" "int64_nonneg strides" "0 < uint itemsize" "uint storage_offset < 2 ^ 64 - 1"
  shows "computeStorageNbytes sizes strides itemsize storage_offset =
    (if 0 \<in> set sizes then Inr 0
     else if (uint storage_offset + 1 + extent sizes strides) * uint itemsize < 2 ^ 63
       then Inr (word_of_int ((uint storage_offset + 1 + extent sizes strides) * uint itemsize))
     else Inl (CheckError ''Storage size calculation overflowed''))"
proof (cases "0 \<in> set sizes")
  case True
  then show ?thesis using storage_loop_empty assms(1) by (simp add: computeStorageNbytes_def)
next
  case False
  have pos: "positive sizes" using False assms(2) positive_iff_numel [OF int64_nonnegative] numel_zero_iff by blast
  have off: "uint (storage_offset + 1) = uint storage_offset + 1" using uint_add_exact [of storage_offset 1] assms(5) by simp
  let ?t = "uint storage_offset + 1 + extent sizes strides"
  have t: "1 \<le> ?t" using extent_nonneg [OF pos int64_nonnegative [OF assms(3)]] uint_bounds [of storage_offset] by simp
  obtain ov sz where l: "storage_loop sizes strides False (storage_offset + 1) = Some (ov, sz)" "ov \<longrightarrow> 2 ^ 64 \<le> ?t" "\<not> ov \<longrightarrow> uint sz = ?t"
    by (rule storage_loop_exact [OF assms(1-3) pos, of False "storage_offset + 1"]) (use off in auto)
  have big: "2 ^ 63 \<le> ?t * uint itemsize" if "2 ^ 64 \<le> ?t"
  proof -
    have "?t * 1 \<le> ?t * uint itemsize" using assms(4) t by (intro mult_left_mono) auto
    then have "2 ^ 64 \<le> ?t * uint itemsize" using that unfolding mult_1_right by (rule order_trans [rotated])
    then show ?thesis by (rule order_trans [rotated]) simp
  qed
  have max: "w > storage_max \<longleftrightarrow> 2 ^ 63 \<le> uint w" for w by (simp add: word_less_def storage_max_def) linarith
  show ?thesis
  proof (cases ov)
    case True
    then show ?thesis using big l False assms(1) by (simp add: computeStorageNbytes_def check_def mul_overflows_uint)
  next
    case no: False
    then have sz: "uint sz = ?t" using l(3) by simp
    show ?thesis
    proof (cases "?t * uint itemsize < 2 ^ 64")
      case True
      then have u: "uint (sz * itemsize) = ?t * uint itemsize" using uint_mult_exact [of sz itemsize] sz by simp
      then have "sz * itemsize = word_of_int (?t * uint itemsize)" by (metis word_of_int_uint)
      then show ?thesis using True u sz l no False assms(1) max by (auto simp: computeStorageNbytes_def check_def mul_overflows_uint)
    next
      case b: False
      then show ?thesis using sz l no False assms(1) by (auto simp: computeStorageNbytes_def check_def mul_overflows_uint)
    qed
  qed
qed

section \<open>Elements and storage\<close>

lemma offset_within_extent: "in_bounds sizes idx \<Longrightarrow> nonnegative strides \<Longrightarrow> 0 \<le> element_offset strides idx \<and> element_offset strides idx \<le> extent sizes strides"
proof (induction sizes idx arbitrary: strides rule: in_bounds.induct)
  case (2 n sizes i idx)
  show ?case
  proof (cases strides)
    case (Cons s ss)
    have "0 \<le> i * s" "i * s \<le> (n - 1) * s" using 2(2,3) Cons by (auto intro: mult_right_mono)
    moreover have "0 \<le> element_offset ss idx \<and> element_offset ss idx \<le> extent sizes ss" using 2 Cons by auto
    ultimately show ?thesis using Cons by (simp add: mult.commute)
  qed simp
qed auto

definition last_index :: "int list \<Rightarrow> int list" where
  "last_index sizes = map (\<lambda>n. n - 1) sizes"

lemma last_index_in_bounds: "positive sizes \<Longrightarrow> in_bounds sizes (last_index sizes)"
  by (induction sizes) (auto simp: last_index_def)

lemma last_index_offset: "length strides = length sizes \<Longrightarrow> element_offset strides (last_index sizes) = extent sizes strides"
proof (induction sizes strides rule: extent.induct)
  case (1 n sizes s strides) then show ?case by (simp add: last_index_def mult.commute)
qed (auto simp: last_index_def)

text \<open>C33: when \<open>computeStorageNbytes\<close> returns, the storage has room for every element of the tensor
  and no byte more than the last element needs; it throws only if some element would not fit into \<open>2 ^ 63\<close> bytes. No wrap-around goes
  unnoticed, for all 64-bit sizes, strides and item sizes, and all storage offsets but the largest.\<close>

theorem storage_size_exact:
  assumes "length strides = length sizes" "int64_nonneg sizes" "int64_nonneg strides" "0 < uint itemsize" "uint storage_offset < 2 ^ 64 - 1"
  shows "case computeStorageNbytes sizes strides itemsize storage_offset of
      Inr nbytes \<Rightarrow> uint nbytes < 2 ^ 63 \<and>
        (\<forall>idx. in_bounds sizes idx \<longrightarrow> (uint storage_offset + element_offset strides idx + 1) * uint itemsize \<le> uint nbytes) \<and>
        (if 0 \<in> set sizes then nbytes = 0
         else \<exists>idx. in_bounds sizes idx \<and> (uint storage_offset + element_offset strides idx + 1) * uint itemsize = uint nbytes)
    | Inl _ \<Rightarrow> \<exists>idx. in_bounds sizes idx \<and> 2 ^ 63 \<le> (uint storage_offset + element_offset strides idx + 1) * uint itemsize"
proof (cases "0 \<in> set sizes")
  case True
  have "\<not> in_bounds sizes idx" for idx using in_bounds_positive [of sizes idx] True by (force simp: positive_def)
  then show ?thesis using storage_nbytes [OF assms] True by simp
next
  case False
  have pos: "positive sizes" using False assms(2) positive_iff_numel [OF int64_nonnegative] numel_zero_iff by blast
  let ?e = "extent sizes strides"
  have last: "in_bounds sizes (last_index sizes)" "element_offset strides (last_index sizes) = ?e"
    using last_index_in_bounds [OF pos] last_index_offset [OF assms(1)] by auto
  have le: "(uint storage_offset + element_offset strides idx + 1) * uint itemsize \<le> (uint storage_offset + 1 + ?e) * uint itemsize" if "in_bounds sizes idx" for idx
    using offset_within_extent [OF that int64_nonnegative [OF assms(3)]] assms(4) by (intro mult_right_mono) auto
  have ge: "0 \<le> (uint storage_offset + 1 + ?e) * uint itemsize"
    using extent_nonneg [OF pos int64_nonnegative [OF assms(3)]] uint_bounds [of storage_offset] assms(4) by (intro mult_nonneg_nonneg) auto
  show ?thesis
  proof (cases "(uint storage_offset + 1 + ?e) * uint itemsize < 2 ^ 63")
    case True
    then have u: "uint (word_of_int ((uint storage_offset + 1 + ?e) * uint itemsize) :: u64) = (uint storage_offset + 1 + ?e) * uint itemsize"
      using ge by (intro uint_in_range) auto
    have "\<exists>idx. in_bounds sizes idx \<and> (uint storage_offset + element_offset strides idx + 1) * uint itemsize = (uint storage_offset + 1 + ?e) * uint itemsize"
      using last by (intro exI [of _ "last_index sizes"]) (simp add: algebra_simps)
    moreover have c: "computeStorageNbytes sizes strides itemsize storage_offset = Inr (word_of_int ((uint storage_offset + 1 + ?e) * uint itemsize))"
      by (simp only: storage_nbytes [OF assms] False True if_False if_True)
    ultimately show ?thesis unfolding c sum.case u using True False le by simp
  next
    case big: False
    then have "2 ^ 63 \<le> (uint storage_offset + element_offset strides (last_index sizes) + 1) * uint itemsize" using last(2) by (simp add: algebra_simps)
    then show ?thesis using storage_nbytes [OF assms] False big last(1) by auto
  qed
qed

theorem storage_size_exact_witness:
  "computeStorageNbytes [2, 3] [4, 1] 8 5 = Inr 96 \<and> (5 + element_offset [4, 1] [1, 1] + 1) * 8 \<le> 96"
proof -
  have c: "computeStorageNbytes [2, 3] [4, 1] 8 5 = Inr 96"
    by (simp add: computeStorageNbytes_def mul_overflows_def add_overflows_def storage_max_def)
  have "\<forall>idx. in_bounds [2, 3] idx \<longrightarrow> (5 + element_offset [4, 1] idx + 1) * 8 \<le> 96" using storage_size_exact [of "[4, 1]" "[2, 3]" 8 5] c by simp
  then show ?thesis using c by (auto dest: spec [of _ "[1, 1]"])
qed

text \<open>The sum \<open>storage_offset + 1\<close> is not checked: with the largest offset the size wraps around to 0, while the function for
  contiguous tensors rejects the same arguments.\<close>

theorem storage_offset_wraps:
  "computeStorageNbytes [] [] 4 (2 ^ 64 - 1) = Inr 0 \<and> computeStorageNbytesContiguous [] 4 (2 ^ 64 - 1) = Inl (CheckError ''Storage size calculation overflowed'')"
  by (simp add: computeStorageNbytes_def computeStorageNbytesContiguous_def mul_overflows_def add_overflows_def storage_max_def safe_multiplies_u64_def)

section \<open>The bounds check\<close>

text \<open>The geometry lies within a storage of \<open>nbytes\<close> bytes.\<close>

definition within_storage :: "int list \<Rightarrow> int list \<Rightarrow> int \<Rightarrow> int \<Rightarrow> int \<Rightarrow> bool" where
  "within_storage sizes strides storage_offset itemsize nbytes \<longleftrightarrow>
     0 \<in> set sizes \<or> (storage_offset + 1 + extent sizes strides) * itemsize \<le> nbytes"

lemma checkInBounds_iff:
  assumes "length strides = length sizes" "int64_nonneg sizes" "int64_nonneg strides" "0 \<le> off" "off < 2 ^ 63" "0 < itemsize" "itemsize < 2 ^ 63" "nbytes < 2 ^ 63"
  shows "checkInBoundsForStorage sizes strides off itemsize nbytes = Inr () \<longleftrightarrow> within_storage sizes strides off itemsize nbytes"
proof -
  let ?e = "extent sizes strides" and ?it = "word_of_int itemsize :: u64"
  have w: "uint ?it = itemsize" "uint (word_of_int off :: u64) = off" using assms by (auto intro!: uint_in_range)
  note n0 = storage_nbytes [OF assms(1-3), of ?it 0]
  note n1 = storage_nbytes [OF assms(1-3), of ?it "word_of_int off"]
  show ?thesis
  proof (cases "0 \<in> set sizes")
    case True
    then show ?thesis using n0 n1 w assms(5,6) by (simp add: checkInBoundsForStorage_def within_storage_def)
  next
    case False
    have pos: "positive sizes" using False assms(2) positive_iff_numel [OF int64_nonnegative] numel_zero_iff by blast
    have e: "0 \<le> ?e" using extent_nonneg [OF pos int64_nonnegative [OF assms(3)]] .
    have m: "(1 + ?e) * itemsize \<le> (off + 1 + ?e) * itemsize" "0 < (1 + ?e) * itemsize" using assms(4,6) e by (auto intro: mult_right_mono)
    show ?thesis
    proof (cases "(off + 1 + ?e) * itemsize < 2 ^ 63")
      case True
      then have lt: "(1 + ?e) * itemsize < 2 ^ 63" using m(1) by linarith
      have u0: "uint (word_of_int ((1 + ?e) * itemsize) :: u64) = (1 + ?e) * itemsize" using lt m by (intro uint_in_range) auto
      have u1: "uint (word_of_int ((off + 1 + ?e) * itemsize) :: u64) = (off + 1 + ?e) * itemsize" using True m by (intro uint_in_range) auto
      have nz: "word_of_int ((1 + ?e) * itemsize) \<noteq> (0 :: u64)" using u0 m(2) by (metis less_irrefl unsigned_0)
      have "computeStorageNbytes sizes strides ?it 0 = Inr (word_of_int ((1 + ?e) * itemsize))"
        "computeStorageNbytes sizes strides ?it (word_of_int off) = Inr (word_of_int ((off + 1 + ?e) * itemsize))"
        using n0 n1 w assms(5,6) False True lt by simp_all
      then show ?thesis using nz u1 False by (simp add: checkInBoundsForStorage_def within_storage_def check_def)
    next
      case big: False
      then have "computeStorageNbytes sizes strides ?it (word_of_int off) = Inl (CheckError ''Storage size calculation overflowed'')"
        using n1 w assms(5,6) False by simp
      then show ?thesis using big False assms(8) by (cases "computeStorageNbytes sizes strides ?it 0") (auto simp: checkInBoundsForStorage_def within_storage_def)
    qed
  qed
qed

end
