(* ===== verification/TensorDims.thy ===== *)
theory TensorDims
  imports TensorShapes
begin

text \<open>
  Arguments that name dimensions or sizes of a tensor: negative dimensions count from the end (\<open>c10/core/WrapDimMinimal.h\<close>,
  \<open>ATen/WrapDimUtils.h\<close>, \<open>ATen/WrapDimUtilsMulti.h\<close>), and one size of a shape may be -1, to be inferred from the number of
  elements (\<open>ATen/InferSize.h\<close>).
\<close>

section \<open>Wrapping dimensions\<close>

function maybe_wrap_dim :: "int \<Rightarrow> int \<Rightarrow> bool \<Rightarrow> int result"
  and maybe_wrap_dim_slow :: "int \<Rightarrow> int \<Rightarrow> bool \<Rightarrow> int result" where
  "maybe_wrap_dim dm dim_post_expr wrap_scalar =
     (if dim_post_expr * -1 \<le> dm \<and> dm < dim_post_expr then (if dm < 0 then Inr (dm + dim_post_expr) else Inr dm)
      else maybe_wrap_dim_slow dm dim_post_expr wrap_scalar)"
| "maybe_wrap_dim_slow dm dim_post_expr wrap_scalar =
     (if \<not> dim_post_expr \<ge> 0 then Inl (IndexError ''Rank cannot be negative'')
      else if dim_post_expr = 0 then
        (if \<not> wrap_scalar then Inl (IndexError ''Dimension specified but tensor has no dimensions'') else maybe_wrap_dim dm 1 False)
      else if \<not> (dim_post_expr * -1 \<le> dm \<and> dm \<le> dim_post_expr - 1) then Inl (IndexError ''Dimension out of range'')
      else Inl (InternalAssert ''should never reach here as dim should be out-of-bounds''))"
  by pat_completeness auto
termination
  by (relation "measure (\<lambda>x. case x of Inl (_, d, _) \<Rightarrow> if d = 0 then 3 else 1 | Inr (_, d, _) \<Rightarrow> if d = 0 then 2 else 0)") auto

declare maybe_wrap_dim.simps [simp del] maybe_wrap_dim_slow.simps [simp del]

text \<open>The number of values a dimension argument can take: a scalar counts as one-dimensional where this is allowed.\<close>

definition wrap_rank :: "int \<Rightarrow> bool \<Rightarrow> int" where
  "wrap_rank rank wrap_scalar = (if rank = 0 \<and> wrap_scalar then 1 else rank)"

lemma maybe_wrap_dim_cases:
  assumes "0 \<le> rank"
  shows "maybe_wrap_dim dm rank wrap_scalar = (let n = wrap_rank rank wrap_scalar in
    if n = 0 then Inl (IndexError ''Dimension specified but tensor has no dimensions'')
    else if - n \<le> dm \<and> dm < n then Inr (if dm < 0 then dm + n else dm)
    else Inl (IndexError ''Dimension out of range''))"
proof (cases "rank = 0")
  case True
  have "maybe_wrap_dim dm 1 False = (if -1 \<le> dm \<and> dm < 1 then Inr (if dm < 0 then dm + 1 else dm) else Inl (IndexError ''Dimension out of range''))"
    by (auto simp: maybe_wrap_dim.simps [of dm 1 False] maybe_wrap_dim_slow.simps)
  then show ?thesis using True by (auto simp: maybe_wrap_dim.simps [of dm 0] maybe_wrap_dim_slow.simps [of dm 0] wrap_rank_def Let_def)
next
  case False
  then show ?thesis using assms by (auto simp: maybe_wrap_dim.simps [of dm rank] maybe_wrap_dim_slow.simps wrap_rank_def Let_def)
qed

lemma maybe_wrap_dim_Inr:
  assumes "0 \<le> rank" "maybe_wrap_dim dm rank wrap_scalar = Inr d"
  shows "0 \<le> d" "d < wrap_rank rank wrap_scalar" "d = dm \<or> d = dm + wrap_rank rank wrap_scalar"
  using assms by (auto simp: maybe_wrap_dim_cases Let_def split: if_splits)

definition maybe_wrap_dims_n :: "int list \<Rightarrow> int \<Rightarrow> bool \<Rightarrow> int list result" where
  "maybe_wrap_dims_n dims dim_post_expr wrap_scalars =
     (if dim_post_expr \<le> 0 \<and> \<not> wrap_scalars then
        bindE (check (dims = []) (IndexError ''Dimension specified but tensor has no dimensions'')) (\<lambda>_. Inr dims)
      else let dim_post_expr = (if dim_post_expr \<le> 0 then 1 else dim_post_expr) in
        mapE (\<lambda>dm. if dm < - dim_post_expr \<or> dm > dim_post_expr - 1 then Inl (IndexError ''Dimension out of range'')
                    else Inr (if dm < 0 then dm + dim_post_expr else dm)) dims)"

definition wrap_all_dims :: "int list \<Rightarrow> int \<Rightarrow> int list result" where
  "wrap_all_dims dims_to_wrap tensor_total_dims = mapE (\<lambda>dm. maybe_wrap_dim dm tensor_total_dims True) dims_to_wrap"

fun legacy_cat_wrap_dim :: "int \<Rightarrow> int list list \<Rightarrow> int result" where
  "legacy_cat_wrap_dim dm [] = Inr dm"
| "legacy_cat_wrap_dim dm (sizes # tensor_sizes) =
     (if length sizes = 1 \<and> sizes ! 0 = 0 then legacy_cat_wrap_dim dm tensor_sizes
      else maybe_wrap_dim dm (int (length sizes)) True)"

definition dim_bitset_size :: nat where
  "dim_bitset_size = 64"

definition mark_dim :: "nat \<Rightarrow> bool list \<Rightarrow> int \<Rightarrow> bool list result" where
  "mark_dim ndims seen d = bindE (maybe_wrap_dim d (int ndims) True) (\<lambda>dm.
     bindE (check (\<not> seen ! nat dm) (CheckError ''appears multiple times in the list of dims'')) (\<lambda>_. Inr (seen[nat dm := True])))"

definition dim_list_to_bitset :: "int list option \<Rightarrow> nat \<Rightarrow> bool list result" where
  "dim_list_to_bitset opt_dims ndims =
     bindE (check (ndims \<le> dim_bitset_size) (CheckError ''only tensors with up to 64 dims are supported'')) (\<lambda>_.
       case opt_dims of
         Some dims \<Rightarrow> foldE (mark_dim ndims) (replicate dim_bitset_size False) dims
       | None \<Rightarrow> Inr (map (\<lambda>dm. dm < ndims) [0..<dim_bitset_size]))"

text \<open>The optimised loop over an array of dimensions does what wrapping every dimension does, errors included.\<close>

lemma mapE_cong: "(\<And>x. x \<in> set xs \<Longrightarrow> f x = g x) \<Longrightarrow> mapE f xs = mapE g xs"
  by (induction xs) simp_all

theorem wrap_dims_agree:
  assumes "0 \<le> rank"
  shows "maybe_wrap_dims_n dims rank wrap_scalars = mapE (\<lambda>d. maybe_wrap_dim d rank wrap_scalars) dims"
proof (cases "rank = 0 \<and> \<not> wrap_scalars")
  case True
  then show ?thesis by (cases dims) (simp_all add: maybe_wrap_dims_n_def maybe_wrap_dim_cases wrap_rank_def)
next
  case False
  have "maybe_wrap_dim d rank wrap_scalars = (let n = (if rank \<le> 0 then 1 else rank) in
      if d < - n \<or> d > n - 1 then Inl (IndexError ''Dimension out of range'') else Inr (if d < 0 then d + n else d))" for d
    using assms False by (auto simp: maybe_wrap_dim_cases wrap_rank_def Let_def)
  then show ?thesis using assms False by (auto simp: maybe_wrap_dims_n_def Let_def intro!: mapE_cong)
qed

section \<open>Inferring a size\<close>

fun known_sizes :: "int list \<Rightarrow> nat \<Rightarrow> int \<Rightarrow> nat option \<Rightarrow> (int \<times> nat option) result" where
  "known_sizes [] dm newsize infer_dim = Inr (newsize, infer_dim)"
| "known_sizes (n # shape) dm newsize infer_dim =
     (if n = -1 then (if infer_dim \<noteq> None then Inl (CheckError ''only one dimension can be inferred'') else known_sizes shape (Suc dm) newsize (Some dm))
      else if \<not> n > -1 then Inl (CheckError ''invalid shape dimension'')
      else known_sizes shape (Suc dm) (newsize * n) infer_dim)"

definition infer_view_size :: "int list \<Rightarrow> int \<Rightarrow> int list result" where
  "infer_view_size shape numel = bindE (known_sizes shape 0 1 None) (\<lambda>(newsize, infer_dim).
     case infer_dim of
       Some d \<Rightarrow>
         bindE (check (newsize > 0 \<and> numel mod newsize = 0 \<or> numel = newsize) (CheckError ''shape is invalid for input of size'')) (\<lambda>_.
         bindE (check (newsize \<noteq> 0) (CheckError ''cannot reshape tensor of 0 elements because the unspecified dimension size -1 can be any value'')) (\<lambda>_.
           Inr (shape[d := numel div newsize])))
     | None \<Rightarrow> bindE (check (numel = newsize) (CheckError ''shape is invalid for input of size'')) (\<lambda>_. Inr shape))"

text \<open>A shape that fits: it has the given sizes, any size in place of -1, and the right number of elements.\<close>

definition fits :: "int list \<Rightarrow> int \<Rightarrow> int list \<Rightarrow> bool" where
  "fits shape numel res \<longleftrightarrow> list_all2 (\<lambda>n r. 0 \<le> r \<and> (n = r \<or> n = -1)) shape res \<and> multiply_integers res = numel"

lemma known_sizes_result:
  "known_sizes shape dm newsize infer_dim = Inr (newsize', infer_dim') \<longleftrightarrow>
    (\<forall>n \<in> set shape. -1 \<le> n) \<and> newsize' = newsize * multiply_integers (filter (\<lambda>n. n \<noteq> -1) shape) \<and>
    (case infer_dim of
       Some d \<Rightarrow> -1 \<notin> set shape \<and> infer_dim' = Some d
     | None \<Rightarrow> (-1 \<notin> set shape \<and> infer_dim' = None) \<or>
         (\<exists>pre post. shape = pre @ -1 # post \<and> -1 \<notin> set (pre @ post) \<and> infer_dim' = Some (dm + length pre)))"
proof (induction shape dm newsize infer_dim rule: known_sizes.induct)
  case (1 dm newsize infer_dim)
  then show ?case by (auto split: option.splits)
next
  case (2 n shape dm newsize infer_dim)
  show ?case
  proof (cases "n = -1")
    case True
    then show ?thesis using 2(1) [OF True] by (cases infer_dim) (auto simp: Cons_eq_append_conv)
  next
    case False
    have e: "(\<exists>pre post. n # shape = pre @ -1 # post \<and> -1 \<notin> set (pre @ post) \<and> infer_dim' = Some (dm + length pre)) \<longleftrightarrow>
      (\<exists>pre post. shape = pre @ -1 # post \<and> -1 \<notin> set (pre @ post) \<and> infer_dim' = Some (Suc dm + length pre))" for infer_dim'
    proof
      assume "\<exists>pre post. n # shape = pre @ -1 # post \<and> -1 \<notin> set (pre @ post) \<and> infer_dim' = Some (dm + length pre)"
      then obtain pre post where p: "n # shape = pre @ -1 # post" "-1 \<notin> set (pre @ post)" "infer_dim' = Some (dm + length pre)" by blast
      then obtain pre1 where "pre = n # pre1" using False by (cases pre) auto
      then show "\<exists>pre post. shape = pre @ -1 # post \<and> -1 \<notin> set (pre @ post) \<and> infer_dim' = Some (Suc dm + length pre)"
        using p by (intro exI [of _ pre1] exI [of _ post]) auto
    next
      assume "\<exists>pre post. shape = pre @ -1 # post \<and> -1 \<notin> set (pre @ post) \<and> infer_dim' = Some (Suc dm + length pre)"
      then obtain pre post where "shape = pre @ -1 # post" "-1 \<notin> set (pre @ post)" "infer_dim' = Some (Suc dm + length pre)" by blast
      then show "\<exists>pre post. n # shape = pre @ -1 # post \<and> -1 \<notin> set (pre @ post) \<and> infer_dim' = Some (dm + length pre)"
        using False by (intro exI [of _ "n # pre"] exI [of _ post]) auto
    qed
    show ?thesis
    proof (cases "n > -1")
      case True
      then show ?thesis using 2(2) [OF False] False unfolding e by (cases infer_dim) (auto simp: mult.assoc)
    next
      case b: False
      then show ?thesis using False by auto
    qed
  qed
qed

lemma fits_known:
  assumes "-1 \<notin> set shape"
  shows "list_all2 (\<lambda>n r. 0 \<le> r \<and> (n = r \<or> n = -1)) shape res \<longleftrightarrow> res = shape \<and> nonnegative shape"
  using assms
proof (induction shape arbitrary: res)
  case (Cons n shape) then show ?case by (cases res) auto
qed auto

lemma fits_inferred:
  assumes "-1 \<notin> set (pre @ post)"
  shows "fits (pre @ -1 # post) numel res \<longleftrightarrow> nonnegative (pre @ post) \<and> (\<exists>x. 0 \<le> x \<and> x * multiply_integers (pre @ post) = numel \<and> res = pre @ x # post)"
proof -
  have "list_all2 (\<lambda>n r. 0 \<le> r \<and> (n = r \<or> n = -1)) (pre @ -1 # post) res \<longleftrightarrow> nonnegative (pre @ post) \<and> (\<exists>x. 0 \<le> x \<and> res = pre @ x # post)"
    using assms by (auto simp: list_all2_append1 list_all2_Cons1 fits_known)
  then show ?thesis by (auto simp: fits_def mult.left_commute mult.commute)
qed

lemma infer_inferred:
  assumes "-1 \<notin> set (pre @ post)"
  shows "infer_view_size (pre @ -1 # post) numel = Inr res \<longleftrightarrow> nonnegative (pre @ post) \<and>
    (let k = multiply_integers (pre @ post) in 0 < k \<and> numel mod k = 0 \<and> res = pre @ numel div k # post)"
proof -
  let ?shape = "pre @ -1 # post" and ?k = "multiply_integers (pre @ post)"
  have "filter (\<lambda>n. n \<noteq> -1) (pre @ post) = pre @ post" using assms by (intro filter_True) auto
  then have f: "filter (\<lambda>n. n \<noteq> -1) ?shape = pre @ post" by simp
  have le: "(\<forall>n \<in> set ?shape. -1 \<le> n) \<longleftrightarrow> nonnegative (pre @ post)"
  proof -
    have "-1 \<le> n \<longleftrightarrow> 0 \<le> n" if "n \<in> set (pre @ post)" for n :: int
    proof -
      have "n \<noteq> -1" using that assms by metis
      then show ?thesis by linarith
    qed
    then show ?thesis by (simp add: nonnegative_def ball_Un)
  qed
  have ks: "known_sizes ?shape 0 1 None = Inr (a, b) \<longleftrightarrow> nonnegative (pre @ post) \<and> a = ?k \<and> b = Some (length pre)" for a b
  proof -
    have tw: "takeWhile (\<lambda>n. n \<noteq> -1) (p @ -1 # q) = p" if "-1 \<notin> set p" for p q :: "int list" using that by (induction p) auto
    have "(\<exists>pre' post'. ?shape = pre' @ -1 # post' \<and> -1 \<notin> set (pre' @ post') \<and> b = Some (0 + length pre')) \<longleftrightarrow> b = Some (length pre)"
    proof
      assume "\<exists>pre' post'. ?shape = pre' @ -1 # post' \<and> -1 \<notin> set (pre' @ post') \<and> b = Some (0 + length pre')"
      then obtain pre' post' where p: "?shape = pre' @ -1 # post'" "-1 \<notin> set pre'" "b = Some (length pre')" by auto
      have "pre' = pre" using tw [OF p(2), of post'] tw [of pre post] assms p(1) by simp
      then show "b = Some (length pre)" using p(3) by simp
    next
      assume "b = Some (length pre)"
      then show "\<exists>pre' post'. ?shape = pre' @ -1 # post' \<and> -1 \<notin> set (pre' @ post') \<and> b = Some (0 + length pre')"
        using assms by (intro exI [of _ pre] exI [of _ post]) simp
    qed
    moreover have "-1 \<in> set ?shape" by simp
    ultimately show ?thesis unfolding known_sizes_result f le by (auto simp del: set_append)
  qed
  show ?thesis
  proof (cases "nonnegative (pre @ post)")
    case True
    then have "known_sizes ?shape 0 1 None = Inr (?k, Some (length pre))" using ks by blast
    moreover have "0 \<le> ?k" using nonnegative_numel [OF True] .
    ultimately show ?thesis using True by (auto simp: infer_view_size_def check_def Let_def simp del: multiply_integers_simps)
  next
    case False
    then have "known_sizes ?shape 0 1 None \<noteq> Inr ab" for ab using ks by (cases ab) auto
    then show ?thesis using False by (cases "known_sizes ?shape 0 1 None") (auto simp: infer_view_size_def)
  qed
qed

lemma infer_known:
  assumes "-1 \<notin> set shape"
  shows "infer_view_size shape numel = Inr res \<longleftrightarrow> nonnegative shape \<and> multiply_integers shape = numel \<and> res = shape"
proof -
  have f: "filter (\<lambda>n. n \<noteq> -1) shape = shape" using assms by (auto simp: filter_id_conv)
  have le: "(\<forall>n \<in> set shape. -1 \<le> n) \<longleftrightarrow> nonnegative shape"
  proof -
    have "-1 \<le> n \<longleftrightarrow> 0 \<le> n" if "n \<in> set shape" for n :: int
    proof -
      have "n \<noteq> -1" using that assms by metis
      then show ?thesis by linarith
    qed
    then show ?thesis by (simp add: nonnegative_def)
  qed
  have ks: "known_sizes shape 0 1 None = Inr (a, b) \<longleftrightarrow> nonnegative shape \<and> a = multiply_integers shape \<and> b = None" for a b
    unfolding known_sizes_result f le using assms by fastforce
  show ?thesis
  proof (cases "nonnegative shape")
    case True
    then have "known_sizes shape 0 1 None = Inr (multiply_integers shape, None)" using ks by blast
    then show ?thesis using True by (auto simp: infer_view_size_def check_def)
  next
    case False
    then have "known_sizes shape 0 1 None \<noteq> Inr ab" for ab using ks by (cases ab) auto
    then show ?thesis using False by (cases "known_sizes shape 0 1 None") (auto simp: infer_view_size_def)
  qed
qed

text \<open>More than one -1 is rejected.\<close>

lemma infer_many:
  assumes "2 \<le> count_list shape (-1)"
  shows "infer_view_size shape numel \<noteq> Inr res"
proof -
  have "\<not> (-1 \<notin> set shape)" using assms count_list_0_iff [of shape "-1"] by auto
  moreover have "\<not> (shape = pre @ -1 # post \<and> -1 \<notin> set (pre @ post))" for pre post
    using assms count_list_0_iff [of pre "-1"] count_list_0_iff [of post "-1"] by auto
  ultimately have "known_sizes shape 0 1 None \<noteq> Inr (a, b)" for a b unfolding known_sizes_result by auto
  then show ?thesis by (cases "known_sizes shape 0 1 None") (auto simp: infer_view_size_def)
qed

lemma infer_view_size_fits:
  assumes "0 \<le> numel"
  shows "infer_view_size shape numel = Inr res \<longleftrightarrow> count_list shape (-1) \<le> 1 \<and> (\<forall>r. fits shape numel r \<longleftrightarrow> r = res)"
proof (cases "-1 \<in> set shape")
  case False
  have "fits shape numel r \<longleftrightarrow> r = shape \<and> nonnegative shape \<and> multiply_integers shape = numel" for r using fits_known [OF False] by (auto simp: fits_def)
  then show ?thesis using infer_known [OF False] count_list_0_iff [of shape "-1"] False by auto
next
  case True
  show ?thesis
  proof (cases "count_list shape (-1) \<le> 1")
    case False
    then show ?thesis using infer_many [of shape] by auto
  next
    case c: True
    obtain pre post where s: "shape = pre @ -1 # post" using True by (meson split_list)
    have nin: "-1 \<notin> set (pre @ post)" using c s count_list_0_iff [of "pre @ post" "-1"] by auto
    let ?k = "multiply_integers (pre @ post)"
    show ?thesis unfolding s infer_inferred [OF nin] fits_inferred [OF nin] Let_def
    proof (cases "nonnegative (pre @ post)")
      case nn: True
      have k: "0 \<le> ?k" using nonnegative_numel [OF nn] .
      show "(nonnegative (pre @ post) \<and> 0 < ?k \<and> numel mod ?k = 0 \<and> res = pre @ numel div ?k # post) \<longleftrightarrow>
        count_list (pre @ -1 # post) (-1) \<le> 1 \<and> (\<forall>r. (nonnegative (pre @ post) \<and> (\<exists>x\<ge>0. x * ?k = numel \<and> r = pre @ x # post)) = (r = res))" (is "?L \<longleftrightarrow> ?R")
      proof
        assume l: ?L
        have "x = numel div ?k" if "x * ?k = numel" for x using that l by auto
        moreover have "numel div ?k * ?k = numel" "0 \<le> numel div ?k" using l assms by (auto simp: pos_imp_zdiv_nonneg_iff simp del: multiply_integers_simps)
        ultimately have "(\<exists>x\<ge>0. x * ?k = numel \<and> r = pre @ x # post) \<longleftrightarrow> r = res" for r using l by blast
        then show ?R using l c s by simp
      next
        assume r: ?R
        then have r': "(\<exists>x\<ge>0. x * ?k = numel \<and> r = pre @ x # post) \<longleftrightarrow> r = res" for r using nn by simp
        then obtain x where x: "0 \<le> x" "x * ?k = numel" "res = pre @ x # post" by blast
        have "?k \<noteq> 0"
        proof
          assume "?k = 0"
          then have "pre @ (x + 1) # post = res" using r' [of "pre @ (x + 1) # post"] x(1,2) by (auto intro: exI [of _ "x + 1"])
          then show False using x(3) by simp
        qed
        then have "0 < ?k" using k by linarith
        moreover have "numel mod ?k = 0" "numel div ?k = x" using x(2) calculation by auto
        ultimately show ?L using x(3) nn by blast
      qed
    next
      case False
      then show "(nonnegative (pre @ post) \<and> 0 < ?k \<and> numel mod ?k = 0 \<and> res = pre @ numel div ?k # post) \<longleftrightarrow>
        count_list (pre @ -1 # post) (-1) \<le> 1 \<and> (\<forall>r. (nonnegative (pre @ post) \<and> (\<exists>x\<ge>0. x * ?k = numel \<and> r = pre @ x # post)) = (r = res))" by auto
    qed
  qed
qed

lemma infer_view_size_Inr:
  assumes "0 \<le> numel" "infer_view_size shape numel = Inr res"
  shows "length res = length shape" "nonnegative res" "multiply_integers res = numel"
proof -
  have "fits shape numel res" using infer_view_size_fits [OF assms(1), of shape res] assms(2) by blast
  then show "length res = length shape" "nonnegative res" "multiply_integers res = numel"
    by (auto simp: fits_def nonnegative_def list_all2_conv_all_nth in_set_conv_nth dest: list_all2_lengthD)
qed

text \<open>Property: a shape, in which one size may be -1, is accepted exactly if one and only one shape has the given sizes and
  the given number of elements; that shape is returned.\<close>

theorem infer_size_unique:
  assumes "0 \<le> numel"
  shows "infer_view_size shape numel = Inr res \<longleftrightarrow> count_list shape (-1) \<le> 1 \<and> (\<forall>r. fits shape numel r \<longleftrightarrow> r = res)"
  using infer_view_size_fits [OF assms] .

theorem infer_size_unique_witness:
  "infer_view_size [2, -1, 3] 24 = Inr [2, 4, 3] \<and> (\<forall>r. fits [2, -1, 3] 24 r \<longleftrightarrow> r = [2, 4, 3]) \<and> \<not> (\<exists>res. \<forall>r. fits [0, -1] 0 r \<longleftrightarrow> r = res)"
proof -
  have "infer_view_size [2, -1, 3] 24 = Inr [2, 4, 3]" "infer_view_size [0, -1] 0 \<noteq> Inr res" for res by (simp_all add: infer_view_size_def)
  then show ?thesis using infer_size_unique [of 24 "[2, -1, 3]" "[2, 4, 3]"] infer_size_unique [of 0 "[0, -1]"] by auto
qed

end
