(* ===== verification/TensorViews.thy ===== *)
theory TensorViews
  imports TensorShapes
begin

text \<open>
  Views of tensors: \<open>computeStride_impl\<close> of \<open>ATen/TensorUtils.cpp\<close> decides whether a tensor can be given another shape
  without moving its elements, and with which strides. The loops run from the last dimension to the first; the
  lists of dimensions that remain are reversed here, so that the head is the dimension under the loop variable.
\<close>

section \<open>The algorithm\<close>

definition defaultStrides :: "int list \<Rightarrow> int list" where
  "defaultStrides sizes = fst (foldr (\<lambda>n (strides, stride). (stride # strides, stride * n)) sizes ([], 1))"

text \<open>The strides for a tensor without elements: as if it were resized.\<close>

fun resized_strides :: "int list \<Rightarrow> int list" where
  "resized_strides [] = []"
| "resized_strides [n] = [1]"
| "resized_strides (n # m # newshape) = (let newstride = resized_strides (m # newshape) in (max m 1 * hd newstride) # newstride)"

text \<open>The inner \<open>while\<close> loop: it extends the strides \<open>newstride\<close> of the dimensions to the right of \<open>view_d\<close>.\<close>

fun view_loop :: "int \<Rightarrow> int \<Rightarrow> int \<Rightarrow> int list \<Rightarrow> int list \<Rightarrow> int \<times> int list \<times> int list" where
  "view_loop chunk_base_stride tensor_numel view_numel [] newstride = (view_numel, [], newstride)"
| "view_loop chunk_base_stride tensor_numel view_numel (n # view) newstride =
     (if view_numel < tensor_numel \<or> n = 1
      then view_loop chunk_base_stride tensor_numel (view_numel * n) view (view_numel * chunk_base_stride # newstride)
      else (view_numel, n # view, newstride))"

fun chunk_loop :: "(int \<times> int) list \<Rightarrow> int \<Rightarrow> int \<Rightarrow> int \<Rightarrow> int list \<Rightarrow> int list \<Rightarrow> (int list \<times> int list) option" where
  "chunk_loop [] chunk_base_stride tensor_numel view_numel view newstride = Some (view, newstride)"
| "chunk_loop ((n, s) # dims) chunk_base_stride tensor_numel view_numel view newstride =
     (let tensor_numel = tensor_numel * n in
      if dims = [] \<or> fst (hd dims) \<noteq> 1 \<and> snd (hd dims) \<noteq> tensor_numel * chunk_base_stride then
        (case view_loop chunk_base_stride tensor_numel view_numel view newstride of (view_numel, view, newstride) \<Rightarrow>
          if view_numel \<noteq> tensor_numel then None
          else if dims \<noteq> [] then chunk_loop dims (snd (hd dims)) 1 1 view newstride
          else chunk_loop dims chunk_base_stride tensor_numel view_numel view newstride)
      else chunk_loop dims chunk_base_stride tensor_numel view_numel view newstride)"

definition computeStride :: "int list \<Rightarrow> int list \<Rightarrow> int list \<Rightarrow> int list option" where
  "computeStride oldshape oldstride newshape =
     (if oldshape = [] then Some (replicate (length newshape) 1)
      else let zero_numel = (multiply_integers oldshape = 0) in
        if zero_numel \<and> oldshape = newshape then Some oldstride
        else if zero_numel then Some (resized_strides newshape)
        else (case chunk_loop (rev (zip oldshape oldstride)) (last oldstride) 1 1 (rev newshape) [] of
            None \<Rightarrow> None
          | Some (view, newstride) \<Rightarrow> if view \<noteq> [] then None else Some newstride))"

section \<open>A chunk\<close>

text \<open>A dimension that continues a chunk of \<open>t\<close> elements with stride \<open>base\<close> extends it to \<open>t * n\<close> elements.\<close>

lemma chunk_extends:
  fixes i t n :: int
  assumes "1 \<le> t" "1 \<le> n" "n = 1 \<or> s = t * base"
  shows "(i mod t) * base + (i div t mod n) * s = (i mod (t * n)) * base"
proof (cases "n = 1")
  case False
  then have "s = t * base" using assms(3) by simp
  moreover have "i mod (t * n) = t * (i div t mod n) + i mod t" using assms by (simp add: zmod_zmult2_eq)
  ultimately show ?thesis by (simp add: algebra_simps)
qed simp

lemma chunk_step:
  assumes "1 \<le> t" "1 \<le> n" "n = 1 \<or> s = t * base"
  shows "(i mod t) * base + offset_at ((n, s) # dims) (i div t) = (i mod (t * n)) * base + offset_at dims (i div (t * n))"
  using chunk_extends [OF assms, of i] assms by (simp add: zdiv_zmult2_eq)

text \<open>The inner loop takes a prefix of the remaining dimensions; together they are a chunk of the new shape.\<close>

lemma view_loop_result:
  assumes "view_loop base t v view acc = (v', view', acc')"
  obtains taken out where "view = taken @ view'" "acc' = rev out @ acc" "length out = length taken" "v' = v * multiply_integers taken"
    "positive taken \<longrightarrow> 1 \<le> v \<longrightarrow> (\<forall>i r. (i mod v) * base + offset_at (zip view (out @ r)) (i div v) = (i mod v') * base + offset_at (zip view' r) (i div v'))"
proof -
  have "\<exists>taken out. view = taken @ view' \<and> acc' = rev out @ acc \<and> length out = length taken \<and> v' = v * multiply_integers taken \<and>
    (positive taken \<longrightarrow> 1 \<le> v \<longrightarrow> (\<forall>i r. (i mod v) * base + offset_at (zip view (out @ r)) (i div v) = (i mod v') * base + offset_at (zip view' r) (i div v')))"
    using assms
  proof (induction base t v view acc rule: view_loop.induct)
    case (1 base t v acc)
    then show ?case by auto
  next
    case (2 base t v n view acc)
    show ?case
    proof (cases "v < t \<or> n = 1")
      case True
      then have r: "view_loop base t (v * n) view (v * base # acc) = (v', view', acc')" using 2(2) by simp
      from 2(1) [OF True r] obtain taken out where o: "view = taken @ view'" "acc' = rev out @ v * base # acc" "length out = length taken" "v' = v * n * multiply_integers taken"
        "positive taken \<longrightarrow> 1 \<le> v * n \<longrightarrow> (\<forall>i r. (i mod (v * n)) * base + offset_at (zip view (out @ r)) (i div (v * n)) = (i mod v') * base + offset_at (zip view' r) (i div v'))"
        by blast
      have "(i mod v) * base + offset_at (zip (n # view) ((v * base # out) @ r)) (i div v) = (i mod v') * base + offset_at (zip view' r) (i div v')"
        if "positive (n # taken)" "1 \<le> v" for i r
      proof -
        have "1 \<le> v * n" using that by (metis mult_mono' mult_1 positive_simps(2) zero_le_one)
        then show ?thesis using o(5) that chunk_step [of v n "v * base" base i "zip view (out @ r)"] by auto
      qed
      then show ?thesis using o by (intro exI [of _ "n # taken"] exI [of _ "v * base # out"]) auto
    next
      case False
      then show ?thesis using 2(2) by auto
    qed
  qed
  then show thesis using that by blast
qed

section \<open>The strides are right\<close>

lemma chunk_loop_sound:
  assumes "chunk_loop dims base t 1 view acc = Some ([], acc')" "dims \<noteq> []" "1 \<le> t" "positive (map fst dims)" "nonnegative view"
    "fst (hd dims) = 1 \<or> snd (hd dims) = t * base"
  obtains out where "acc' = rev out @ acc" "length out = length view"
    "\<forall>i. (i mod t) * base + offset_at dims (i div t) = offset_at (zip view out) i"
proof -
  have "\<exists>out. acc' = rev out @ acc \<and> length out = length view \<and> (\<forall>i. (i mod t) * base + offset_at dims (i div t) = offset_at (zip view out) i)"
    using assms
  proof (induction dims arbitrary: base t view acc)
    case (Cons d dims)
    obtain n s where d: "d = (n, s)" by (cases d)
    have n: "1 \<le> n" "n = 1 \<or> s = t * base" using Cons.prems(4,6) d by auto
    have tn: "1 \<le> t * n" using Cons.prems(3) n(1) by (metis mult_mono' mult_1 zero_le_one)
    have old: "(i mod t) * base + offset_at (d # dims) (i div t) = (i mod (t * n)) * base + offset_at dims (i div (t * n))" for i
      using chunk_step [OF Cons.prems(3) n] d by simp
    show ?case
    proof (cases "dims = [] \<or> fst (hd dims) \<noteq> 1 \<and> snd (hd dims) \<noteq> t * n * base")
      case True
      obtain v' view' acc1 where v: "view_loop base (t * n) 1 view acc = (v', view', acc1)" by (cases "view_loop base (t * n) 1 view acc") auto
      from view_loop_result [OF v] obtain taken out1 where o: "view = taken @ view'" "acc1 = rev out1 @ acc" "length out1 = length taken" "v' = multiply_integers taken"
        "positive taken \<longrightarrow> (\<forall>i r. offset_at (zip view (out1 @ r)) i = (i mod v') * base + offset_at (zip view' r) (i div v'))" by auto
      have v': "v' = t * n" and rest: "(if dims \<noteq> [] then chunk_loop dims (snd (hd dims)) 1 1 view' acc1 else Some (view', acc1)) = Some ([], acc')"
        using Cons.prems(1) True v d by (auto simp: Let_def split: if_splits)
      have "positive taken" using positive_iff_numel [of taken] Cons.prems(5) o(1,4) v' tn by simp
      then have new: "offset_at (zip view (out1 @ r)) i = (i mod (t * n)) * base + offset_at (zip view' r) (i div (t * n))" for i r using o(5) v' by simp
      show ?thesis
      proof (cases "dims = []")
        case True
        then show ?thesis using rest o old new [of "[]"] by (intro exI [of _ out1]) auto
      next
        case False
        then have "\<exists>out. acc' = rev out @ acc1 \<and> length out = length view' \<and> (\<forall>i. (i mod 1) * snd (hd dims) + offset_at dims (i div 1) = offset_at (zip view' out) i)"
          using rest Cons.prems(4,5) o(1) by (intro Cons.IH) auto
        then obtain out where "acc' = rev out @ acc1" "length out = length view'" "\<forall>i. offset_at dims i = offset_at (zip view' out) i" by auto
        then show ?thesis using o old new [of out] by (intro exI [of _ "out1 @ out"]) auto
      qed
    next
      case False
      have "\<exists>out. acc' = rev out @ acc \<and> length out = length view \<and> (\<forall>i. (i mod (t * n)) * base + offset_at dims (i div (t * n)) = offset_at (zip view out) i)"
        using False Cons.prems d tn by (intro Cons.IH) (auto simp: Let_def)
      then show ?thesis using old by simp
    qed
  qed simp
  then show thesis using that by blast
qed

lemma resized_strides_length: "length (resized_strides newshape) = length newshape"
  by (induction newshape rule: resized_strides.induct) (simp_all add: Let_def)

lemma computeStride_sound:
  assumes "length oldstride = length oldshape" "nonnegative oldshape" "nonnegative newshape" "multiply_integers newshape = multiply_integers oldshape"
    "computeStride oldshape oldstride newshape = Some newstride"
  shows "length newstride = length newshape"
    and "0 \<le> i \<Longrightarrow> i < multiply_integers oldshape \<Longrightarrow> address newshape newstride i = address oldshape oldstride i"
proof -
  have "length newstride = length newshape \<and> (0 \<le> i \<longrightarrow> i < multiply_integers oldshape \<longrightarrow> address newshape newstride i = address oldshape oldstride i)"
  proof (cases "oldshape = []")
    case True
    have "newstride = replicate (length newshape) 1" using assms(5) True by (simp add: computeStride_def)
    moreover have "offset_at dims 0 = 0" for dims by (induction dims "0::int" rule: offset_at.induct) simp_all
    ultimately show ?thesis using True by (cases "i = 0") (auto simp: address_def)
  next
    case False
    show ?thesis
    proof (cases "multiply_integers oldshape = 0")
      case True
      then show ?thesis using assms(1,5) False by (auto simp: computeStride_def resized_strides_length split: if_splits)
    next
      case numel: False
      let ?dims = "rev (zip oldshape oldstride)"
      have c: "chunk_loop ?dims (last oldstride) 1 1 (rev newshape) [] = Some ([], newstride)"
        using assms(5) False numel by (auto simp: computeStride_def Let_def split: option.splits if_splits)
      have ne: "oldstride \<noteq> []" "?dims \<noteq> []" using False assms(1) by auto
      have h: "snd (hd ?dims) = last oldstride" using ne assms(1) by (simp add: hd_rev last_zip False)
      have pos: "positive (map fst ?dims)" using positive_iff_numel [OF assms(2)] numel rev_zip_fst [OF assms(1)] by simp
      obtain out where out: "newstride = rev out @ []" "length out = length (rev newshape)"
        "\<forall>i. (i mod 1) * last oldstride + offset_at ?dims (i div 1) = offset_at (zip (rev newshape) out) i"
        by (rule chunk_loop_sound [OF c ne(2) _ pos]) (use assms(3) h in auto)
      have "rev (zip newshape newstride) = zip (rev newshape) out" using out(1,2) by (simp add: zip_rev [symmetric])
      then show ?thesis using out by (simp add: address_def)
    qed
  qed
  then show "length newstride = length newshape"
    and "0 \<le> i \<Longrightarrow> i < multiply_integers oldshape \<Longrightarrow> address newshape newstride i = address oldshape oldstride i" by auto
qed

section \<open>A view is found whenever there is one\<close>

lemma offset_at_zero [simp]: "offset_at dims 0 = 0"
  by (induction dims "0::int" rule: offset_at.induct) simp_all

text \<open>The inner loop stops at \<open>t\<close> elements if some dimensions together have that many.\<close>

lemma view_loop_stops:
  "view_loop base t v view acc = (v', view', acc') \<Longrightarrow> view' \<noteq> [] \<Longrightarrow> \<not> v' < t \<and> hd view' \<noteq> 1"
  by (induction base t v view acc rule: view_loop.induct) (auto split: if_splits)

lemma view_loop_reaches:
  assumes "v * multiply_integers pre = t" "1 \<le> v" "positive pre"
  shows "fst (view_loop base t v (pre @ post) acc) = t"
  using assms
proof (induction pre arbitrary: v acc)
  case Nil
  then show ?case
  proof (induction post arbitrary: acc)
    case (Cons n post) then show ?case by simp
  qed simp
next
  case (Cons n pre)
  have n: "1 \<le> n" "1 \<le> multiply_integers pre" using Cons.prems(3) positive_numel by auto
  have step: "v < t \<or> n = 1"
  proof (rule ccontr)
    assume a: "\<not> (v < t \<or> n = 1)"
    then have "2 \<le> n * multiply_integers pre" using n mult_mono [of 2 n 1 "multiply_integers pre"] by simp
    then have "v * 2 \<le> v * (n * multiply_integers pre)" using Cons.prems(2) by (intro mult_left_mono) auto
    then have "v * 2 \<le> t" using Cons.prems(1) by simp
    then show False using a Cons.prems(2) by linarith
  qed
  have "1 \<le> v * n" using Cons.prems(2) n(1) by (metis mult_mono' mult_1 zero_le_one)
  then show ?case using Cons.IH [of "v * n" "v * base # acc"] Cons.prems(1,3) step by (simp add: mult.assoc)
qed

text \<open>Where \<open>t\<close> elements end in a shape: between two dimensions or inside one.\<close>

lemma boundary:
  assumes "positive view" "1 \<le> v" "v \<le> t" "t \<le> v * multiply_integers view"
  shows "(\<exists>pre post. view = pre @ post \<and> v * multiply_integers pre = t) \<or>
    (\<exists>pre m post. view = pre @ m # post \<and> v * multiply_integers pre < t \<and> t < v * multiply_integers pre * m)"
  using assms
proof (induction view arbitrary: v)
  case (Cons x view)
  show ?case
  proof (cases "v * x \<le> t")
    case True
    have "1 \<le> v * x" using Cons.prems(1,2) by (metis mult_mono' mult_1 zero_le_one positive_simps(2))
    with Cons.IH [of "v * x"] Cons.prems True consider
        pre post where "view = pre @ post" "v * x * multiply_integers pre = t"
      | pre m post where "view = pre @ m # post" "v * x * multiply_integers pre < t" "t < v * x * multiply_integers pre * m"
      by (auto simp: mult.assoc)
    then show ?thesis
    proof cases
      case 1 then have "x # view = (x # pre) @ post" "v * multiply_integers (x # pre) = t" by (simp_all add: mult.assoc)
      then show ?thesis by blast
    next
      case 2 then have "x # view = (x # pre) @ m # post" "v * multiply_integers (x # pre) < t" "t < v * multiply_integers (x # pre) * m" by (simp_all add: mult.assoc)
      then show ?thesis by blast
    qed
  next
    case False
    show ?thesis
    proof (cases "v = t")
      case True then show ?thesis by (intro disjI1 exI [of _ "[]"] exI [of _ "x # view"]) simp
    next
      case False
      then show ?thesis using \<open>\<not> v * x \<le> t\<close> Cons.prems by (intro disjI2 exI [of _ "[]"]) auto
    qed
  qed
qed auto

text \<open>If the offsets are those of \<open>t\<close> elements with stride \<open>base\<close>, a dimension that \<open>t\<close> cuts in two continues them.\<close>

lemma cut_dimension:
  assumes pos: "positive (pre @ m # post)" and r: "length r = length (pre @ m # post)"
    and cut: "multiply_integers pre < t" "t < multiply_integers pre * m"
    and off: "\<forall>i. 0 \<le> i \<and> i < t \<longrightarrow> offset_at (zip (pre @ m # post) r) i = i * base"
  shows "offset_at (zip (pre @ m # post) r) t = t * base"
proof -
  let ?P = "multiply_integers pre" and ?view = "pre @ m # post"
  obtain r1 rm r2 where r': "r = r1 @ rm # r2" "length r1 = length pre" "length r2 = length post"
    using that [of "take (length pre) r" "r ! length pre" "drop (Suc (length pre)) r"] r id_take_nth_drop [of "length pre" r] by simp
  have P: "1 \<le> ?P" using pos positive_numel by simp
  have f: "map fst (zip pre r1) = pre" using r'(2) by simp
  have at: "offset_at (zip ?view r) i = offset_at (zip pre r1) (i mod ?P) + i div ?P * rm" if "0 \<le> i" "i < ?P * m" for i
  proof -
    have d: "0 \<le> i div ?P" "i div ?P < m" using that P div_less_factor [of ?P i m] by (auto simp: pos_imp_zdiv_nonneg_iff)
    have "offset_at (zip pre r1) i = offset_at (zip pre r1) (i mod ?P)"
      using offset_at_mod [of "zip pre r1" "i mod ?P" "i div ?P"] pos f by (simp add: mod_div_mult_eq)
    moreover have "offset_at (zip ?view r) i = offset_at (zip pre r1) i + offset_at ((m, rm) # zip post r2) (i div ?P)"
      using r' pos f offset_at_append [of "zip pre r1" "(m, rm) # zip post r2" i] by simp
    ultimately show ?thesis using d by simp
  qed
  have "?P < ?P * m" using cut by linarith
  then have "rm = ?P * base" using at [of ?P] off P cut(1) by auto
  moreover have "offset_at (zip pre r1) (t mod ?P) = t mod ?P * base"
  proof -
    have b: "0 \<le> t mod ?P" "t mod ?P < ?P" using P by auto
    then have "offset_at (zip ?view r) (t mod ?P) = offset_at (zip pre r1) (t mod ?P)" using at [of "t mod ?P"] \<open>?P < ?P * m\<close> by simp
    then show ?thesis using off b cut(1) by simp
  qed
  moreover have "t mod ?P * base + t div ?P * (?P * base) = t * base" by (metis distrib_right mod_div_mult_eq mult.assoc)
  ultimately show ?thesis using at [of t] cut P by simp
qed

lemma chunk_boundary:
  assumes t: "1 \<le> t" and pos: "positive view" "positive (map fst dims)" and numel: "multiply_integers view = t * multiply_integers (map fst dims)"
    and r: "length r = length view"
    and same: "\<forall>i. 0 \<le> i \<and> i < multiply_integers view \<longrightarrow> (i mod t) * base + offset_at dims (i div t) = offset_at (zip view r) i"
    and ends: "dims = [] \<or> fst (hd dims) \<noteq> 1 \<and> snd (hd dims) \<noteq> t * base"
  obtains pre post where "view = pre @ post" "multiply_integers pre = t"
proof -
  have D: "1 \<le> multiply_integers (map fst dims)" using pos(2) positive_numel by simp
  have le: "t \<le> multiply_integers view" using numel t D by (metis mult_left_mono mult.right_neutral order_trans zero_le_one)
  have "\<not> (view = pre @ m # post \<and> multiply_integers pre < t \<and> t < multiply_integers pre * m)" for pre m post
  proof
    assume a: "view = pre @ m # post \<and> multiply_integers pre < t \<and> t < multiply_integers pre * m"
    have "1 \<le> multiply_integers post" "0 \<le> multiply_integers pre * m" using a pos(1) positive_numel t by auto
    then have "multiply_integers pre * m * 1 \<le> multiply_integers pre * m * multiply_integers post" by (intro mult_left_mono) auto
    then have lt: "t < multiply_integers view" using a by (simp add: mult.assoc)
    have "offset_at (zip view r) i = i * base" if "0 \<le> i" "i < t" for i using same that lt by (auto dest!: spec [of _ i])
    then have "offset_at (zip view r) t = t * base" using cut_dimension [of pre m post r t base] a pos(1) r by simp
    then have cont: "offset_at dims 1 = t * base" using same lt t by (auto dest!: spec [of _ t])
    have "dims \<noteq> []" using lt numel by auto
    then obtain n s rest where d: "dims = (n, s) # rest" by (cases dims) auto
    have "n \<noteq> 1" "1 \<le> n" using ends d pos(2) by auto
    then have "offset_at dims 1 = s" using d by simp
    then show False using cont ends d by simp
  qed
  then show thesis using boundary [OF pos(1), of 1 t] t le that by auto
qed

lemma chunk_loop_complete:
  assumes "dims \<noteq> []" "1 \<le> t" "positive (map fst dims)" "positive view" "fst (hd dims) = 1 \<or> snd (hd dims) = t * base"
    "multiply_integers view = t * multiply_integers (map fst dims)" "length r = length view"
    "\<forall>i. 0 \<le> i \<and> i < multiply_integers view \<longrightarrow> (i mod t) * base + offset_at dims (i div t) = offset_at (zip view r) i"
  shows "\<exists>acc'. chunk_loop dims base t 1 view acc = Some ([], acc')"
  using assms
proof (induction dims arbitrary: base t view acc r)
  case (Cons d dims)
  obtain n s where d: "d = (n, s)" by (cases d)
  have n: "1 \<le> n" "n = 1 \<or> s = t * base" using Cons.prems(3,5) d by auto
  have tn: "1 \<le> t * n" using Cons.prems(2) n(1) by (metis mult_mono' mult_1 zero_le_one)
  have nz: "t \<noteq> 0" "n \<noteq> 0" using Cons.prems(2) n(1) by auto
  have numel: "multiply_integers view = t * n * multiply_integers (map fst dims)" using Cons.prems(6) d by (simp add: mult.assoc)
  have same: "(i mod (t * n)) * base + offset_at dims (i div (t * n)) = offset_at (zip view r) i" if "0 \<le> i" "i < multiply_integers view" for i
    using Cons.prems(8) that chunk_step [OF Cons.prems(2) n] d by simp
  show ?case
  proof (cases "dims = [] \<or> fst (hd dims) \<noteq> 1 \<and> snd (hd dims) \<noteq> t * n * base")
    case True
    obtain pre post where pp: "view = pre @ post" "multiply_integers pre = t * n"
      by (rule chunk_boundary [OF tn Cons.prems(4) _ numel Cons.prems(7) _ True]) (use Cons.prems(3) same in auto)
    obtain v' view' acc1 where v: "view_loop base (t * n) 1 view acc = (v', view', acc1)" by (cases "view_loop base (t * n) 1 view acc") auto
    have v': "v' = t * n" using view_loop_reaches [of 1 pre "t * n" base post acc] pp Cons.prems(4) v by simp
    obtain taken where o: "view = taken @ view'" "multiply_integers taken = t * n" by (rule view_loop_result [OF v], rule that) (simp_all add: v')
    have rest: "multiply_integers view' = multiply_integers (map fst dims)" using numel o tn by auto
    have e: "chunk_loop (d # dims) base t 1 view acc = (if dims \<noteq> [] then chunk_loop dims (snd (hd dims)) 1 1 view' acc1 else Some (view', acc1))"
      using True v v' d by (auto simp: Let_def)
    show ?thesis
    proof (cases "dims = []")
      case True
      have "view' = []"
      proof (rule ccontr)
        assume ne: "view' \<noteq> []"
        then obtain x xs where x: "view' = x # xs" by (cases view') auto
        have "x \<noteq> 1" using view_loop_stops [OF v ne] x by simp
        then have "2 * 1 \<le> x * multiply_integers xs" using Cons.prems(4) o(1) x positive_numel [of xs] by (intro mult_mono) auto
        then show False using rest True x by simp
      qed
      then show ?thesis using e True by simp
    next
      case False
      let ?r = "drop (length taken) r"
      have f: "map fst (zip taken (take (length taken) r)) = taken" using Cons.prems(7) o(1) by simp
      have z: "zip view r = zip taken (take (length taken) r) @ zip view' ?r" using o(1) by (simp add: zip_append1)
      have "(j mod 1) * snd (hd dims) + offset_at dims (j div 1) = offset_at (zip view' ?r) j" if j: "0 \<le> j" "j < multiply_integers view'" for j
      proof -
        have "t * n * j < t * n * multiply_integers view'" using j(2) tn by (intro mult_strict_left_mono) auto
        then have "j * (t * n) < multiply_integers view" "0 \<le> j * (t * n)" using numel rest j(1) tn by (auto simp: mult.commute)
        moreover have "t * n \<noteq> 0" using tn by linarith
        then have "j * (t * n) div (t * n) = j" by (rule nonzero_mult_div_cancel_right)
        moreover have "j * (t * n) mod (t * n) = 0" by (rule mod_mult_self2_is_0)
        ultimately have "offset_at dims j = offset_at (zip view r) (j * (t * n))" using same [of "j * (t * n)"] by simp
        also have "\<dots> = offset_at (zip taken (take (length taken) r)) (j * (t * n)) + offset_at (zip view' ?r) j"
          unfolding z using offset_at_append [of "zip taken (take (length taken) r)" "zip view' ?r" "j * (t * n)"] f Cons.prems(4) o nz by simp
        also have "offset_at (zip taken (take (length taken) r)) (j * (t * n)) = 0"
          using offset_at_mod [of "zip taken (take (length taken) r)" 0 j] f Cons.prems(4) o by simp
        finally show ?thesis by simp
      qed
      then have "\<exists>acc'. chunk_loop dims (snd (hd dims)) 1 1 view' acc1 = Some ([], acc')"
        using False Cons.prems(3,4,7) o(1) rest by (intro Cons.IH [where r = ?r]) auto
      then show ?thesis using e False by simp
    qed
  next
    case False
    have "\<exists>acc'. chunk_loop dims base (t * n) 1 view acc = Some ([], acc')"
      using False Cons.prems(3,4,7) tn numel same by (intro Cons.IH [where r = r]) auto
    then show ?thesis using False d by (auto simp: Let_def)
  qed
qed simp

section \<open>Properties\<close>

text \<open>Two shapes with strides describe the same elements in the same row-major order.\<close>

definition same_elements :: "int list \<Rightarrow> int list \<Rightarrow> int list \<Rightarrow> int list \<Rightarrow> bool" where
  "same_elements oldshape oldstride newshape newstride \<longleftrightarrow> (\<forall>idx idx'. in_bounds oldshape idx \<and> in_bounds newshape idx' \<and>
     position newshape idx' = position oldshape idx \<longrightarrow> element_offset newstride idx' = element_offset oldstride idx)"

lemma same_elements_iff:
  assumes "length oldstride = length oldshape" "length newstride = length newshape" "nonnegative oldshape" "nonnegative newshape"
    "multiply_integers newshape = multiply_integers oldshape"
  shows "same_elements oldshape oldstride newshape newstride \<longleftrightarrow>
    (\<forall>i. 0 \<le> i \<and> i < multiply_integers oldshape \<longrightarrow> address newshape newstride i = address oldshape oldstride i)" (is "_ \<longleftrightarrow> ?A")
proof
  assume s: "same_elements oldshape oldstride newshape newstride"
  show ?A
  proof (intro allI impI)
    fix i assume i: "0 \<le> i \<and> i < multiply_integers oldshape"
    obtain idx where idx: "in_bounds oldshape idx" "position oldshape idx = i" by (rule position_surj [OF assms(3)]) (use i in auto)
    obtain idx' where idx': "in_bounds newshape idx'" "position newshape idx' = i" by (rule position_surj [OF assms(4)]) (use i assms(5) in auto)
    have "element_offset newstride idx' = element_offset oldstride idx" using s idx idx' by (simp add: same_elements_def)
    then show "address newshape newstride i = address oldshape oldstride i"
      using offset_of_index [OF idx(1) assms(1)] offset_of_index [OF idx'(1) assms(2)] idx(2) idx'(2) by simp
  qed
next
  assume a: ?A
  show "same_elements oldshape oldstride newshape newstride" unfolding same_elements_def
  proof (intro allI impI)
    fix idx idx' assume h: "in_bounds oldshape idx \<and> in_bounds newshape idx' \<and> position newshape idx' = position oldshape idx"
    then show "element_offset newstride idx' = element_offset oldstride idx"
      using a position_range [of oldshape idx] offset_of_index [of oldshape idx oldstride] offset_of_index [of newshape idx' newstride] assms(1,2) by auto
  qed
qed

lemma computeStride_complete:
  assumes "length oldstride = length oldshape" "nonnegative oldshape" "nonnegative newshape" "multiply_integers newshape = multiply_integers oldshape"
    and r: "length newstride = length newshape" "same_elements oldshape oldstride newshape newstride"
  shows "computeStride oldshape oldstride newshape \<noteq> None"
proof
  assume None: "computeStride oldshape oldstride newshape = None"
  then have ne: "oldshape \<noteq> []" "multiply_integers oldshape \<noteq> 0" by (auto simp: computeStride_def Let_def split: if_splits)
  let ?dims = "rev (zip oldshape oldstride)"
  have f: "map fst ?dims = rev oldshape" using assms(1) by (rule rev_zip_fst)
  have pos: "positive oldshape" "positive newshape" using ne assms positive_iff_numel by auto
  have "oldstride \<noteq> []" using ne(1) assms(1) by auto
  then have "snd (hd ?dims) = last oldstride" using ne(1) assms(1) by (simp add: hd_rev last_zip)
  moreover have "rev (zip newshape newstride) = zip (rev newshape) (rev newstride)" using r(1) by (simp add: zip_rev)
  ultimately have "\<exists>acc'. chunk_loop ?dims (last oldstride) 1 1 (rev newshape) [] = Some ([], acc')"
    using ne(1) assms(1,4) pos f r same_elements_iff [OF assms(1) r(1) assms(2-4)]
    by (intro chunk_loop_complete [where r = "rev newstride"]) (auto simp: address_def)
  then show False using None ne by (auto simp: computeStride_def Let_def)
qed

text \<open>C32: \<open>computeStride\<close> returns strides with which the new shape describes the elements of the
  tensor in the same order, and it gives up only if no strides do so.\<close>

theorem view_iff_possible:
  assumes "length oldstride = length oldshape" "nonnegative oldshape" "nonnegative newshape" "multiply_integers newshape = multiply_integers oldshape"
  shows "case computeStride oldshape oldstride newshape of
      Some newstride \<Rightarrow> length newstride = length newshape \<and> same_elements oldshape oldstride newshape newstride
    | None \<Rightarrow> \<not> (\<exists>newstride. length newstride = length newshape \<and> same_elements oldshape oldstride newshape newstride)"
proof (cases "computeStride oldshape oldstride newshape")
  case (Some newstride)
  note c = computeStride_sound [OF assms Some]
  show ?thesis using c same_elements_iff [OF assms(1) c(1) assms(2-4)] Some by simp
next
  case None
  then show ?thesis using computeStride_complete [OF assms] by auto
qed

text \<open>A transposed 2 by 3 matrix cannot be flattened; a slice of every second row of a 4 by 3 matrix can be split further.\<close>

theorem view_iff_possible_witness:
  "\<not> (\<exists>newstride. length newstride = 1 \<and> same_elements [3, 2] [1, 3] [6] newstride) \<and>
   computeStride [2, 3] [6, 1] [2, 1, 3] = Some [6, 3, 1] \<and> same_elements [2, 3] [6, 1] [2, 1, 3] [6, 3, 1]"
proof -
  have c: "computeStride [3, 2] [1, 3] [6] = None" "computeStride [2, 3] [6, 1] [2, 1, 3] = Some [6, 3, 1]"
    by (simp_all add: computeStride_def)
  show ?thesis using view_iff_possible [of "[1, 3]" "[3, 2]" "[6]"] view_iff_possible [of "[6, 1]" "[2, 3]" "[2, 1, 3]"] c by simp
qed

end
