(* ===== verification/TensorBroadcast.thy ===== *)
theory TensorBroadcast
  imports TensorShapes
begin

text \<open>
  Broadcasting (\<open>ATen/ExpandUtils.cpp\<close>, \<open>ATen/ExpandUtils.h\<close>): the common shape of two tensors and the strides of an
  expanded tensor. Shapes are aligned at their last dimension; \<open>offset\<close> counts dimensions from the end.
\<close>

definition from_end :: "'a list \<Rightarrow> nat \<Rightarrow> 'a" where
  "from_end xs offset = xs ! (length xs - 1 - offset)"

definition size_or_one :: "int list \<Rightarrow> nat \<Rightarrow> int" where
  "size_or_one a offset = (if offset < length a then from_end a offset else 1)"

definition broadcast_size :: "int list \<Rightarrow> int list \<Rightarrow> nat \<Rightarrow> int result" where
  "broadcast_size a b offset = (let sizeA = size_or_one a offset; sizeB = size_or_one b offset in
     if sizeA \<noteq> 1 \<and> sizeB \<noteq> 1 \<and> sizeA \<noteq> sizeB
     then Inl (CheckError ''The size of tensor a must match the size of tensor b at non-singleton dimension'')
     else Inr (if sizeA = 1 then sizeB else sizeA))"

definition infer_size :: "int list \<Rightarrow> int list \<Rightarrow> int list result" where
  "infer_size a b = bindE (mapE (broadcast_size a b) [0..<max (length a) (length b)]) (\<lambda>l. Inr (rev l))"

definition are_expandable :: "int list \<Rightarrow> int list \<Rightarrow> bool" where
  "are_expandable shape1 shape2 \<longleftrightarrow> (\<forall>offset \<in> set [0..<min (length shape1) (length shape2)].
     from_end shape1 offset = from_end shape2 offset \<or> from_end shape1 offset = 1 \<or> from_end shape2 offset = 1)"

definition expand_step :: "int list \<Rightarrow> int list \<Rightarrow> int list \<Rightarrow> int list \<times> int list \<Rightarrow> nat \<Rightarrow> (int list \<times> int list) result" where
  "expand_step tensor_sizes tensor_strides sizes expanded offset = (case expanded of (expandedSizes, expandedStrides) \<Rightarrow>
     let present = offset < length tensor_sizes;
         n = (if present then from_end tensor_sizes offset else 1);
         stride = (if present then from_end tensor_strides offset else hd expandedSizes * hd expandedStrides);
         targetSize = from_end sizes offset
     in bindE (if targetSize = -1
               then bindE (check present (CheckError ''The expanded size of the tensor isn't allowed in a leading, non-existing dimension'')) (\<lambda>_. Inr n)
               else Inr targetSize) (\<lambda>targetSize.
        if n \<noteq> targetSize
        then bindE (check (n = 1) (CheckError ''The expanded size of the tensor must match the existing size at non-singleton dimension'')) (\<lambda>_.
          Inr (targetSize # expandedSizes, 0 # expandedStrides))
        else Inr (n # expandedSizes, stride # expandedStrides)))"

definition inferExpandGeometry :: "int list \<Rightarrow> int list \<Rightarrow> int list \<Rightarrow> (int list \<times> int list) result" where
  "inferExpandGeometry tensor_sizes tensor_strides sizes =
     (if tensor_sizes = [] then Inr (sizes, replicate (length sizes) 0)
      else foldE (expand_step tensor_sizes tensor_strides sizes) ([], []) [0..<length sizes])"

section \<open>The common shape\<close>

text \<open>A shape can be expanded to another: every size is 1 or the same.\<close>

definition expandable :: "int list \<Rightarrow> int list \<Rightarrow> bool" where
  "expandable a c \<longleftrightarrow> length a \<le> length c \<and> (\<forall>k < length a. from_end a k = 1 \<or> from_end a k = from_end c k)"

lemma from_end_rev: "k < length xs \<Longrightarrow> from_end (rev xs) k = xs ! k"
  by (simp add: from_end_def rev_nth)

lemma expandable_sizes: "expandable a c \<longleftrightarrow> length a \<le> length c \<and> (\<forall>k < length c. size_or_one a k = 1 \<or> size_or_one a k = from_end c k)"
  by (auto simp: expandable_def size_or_one_def)

lemma mapE_Inr_iff: "(\<exists>l. mapE f xs = Inr l) \<longleftrightarrow> (\<forall>x \<in> set xs. \<exists>y. f x = Inr y)"
  by (induction xs) (auto simp: bindE_Inr_iff)

lemma broadcast_size_commute: "broadcast_size a b = broadcast_size b a"
  by (rule ext) (auto simp: broadcast_size_def Let_def)

lemma broadcast_size_Inr:
  "broadcast_size a b k = Inr c \<longleftrightarrow> (size_or_one a k = 1 \<or> size_or_one a k = c) \<and> (size_or_one b k = 1 \<or> size_or_one b k = c) \<and>
     (c = size_or_one a k \<or> c = size_or_one b k)"
  by (auto simp: broadcast_size_def Let_def)

lemma infer_size_Inr:
  assumes "infer_size a b = Inr c"
  shows "length c = max (length a) (length b)" "k < length c \<Longrightarrow> broadcast_size a b k = Inr (from_end c k)"
proof -
  obtain l where l: "mapE (broadcast_size a b) [0..<max (length a) (length b)] = Inr l" "c = rev l"
    using assms by (auto simp: infer_size_def bindE_Inr_iff)
  show len: "length c = max (length a) (length b)" using mapE_Inr_length [OF l(1)] l(2) by simp
  show "broadcast_size a b k = Inr (from_end c k)" if "k < length c"
    using mapE_Inr_nth [OF l(1), of k] l(2) len that by (simp add: from_end_rev)
qed

lemma infer_size_defined: "(\<exists>c. infer_size a b = Inr c) \<longleftrightarrow> (\<forall>k < max (length a) (length b). \<exists>c. broadcast_size a b k = Inr c)"
proof -
  have "(\<exists>c. infer_size a b = Inr c) \<longleftrightarrow> (\<exists>l. mapE (broadcast_size a b) [0..<max (length a) (length b)] = Inr l)"
    by (auto simp: infer_size_def bindE_Inr_iff)
  then show ?thesis by (auto simp: mapE_Inr_iff)
qed

text \<open>C34: broadcasting is symmetric; it returns the least shape to which both shapes can be
  expanded, and throws only if there is none, which is exactly when \<open>are_expandable\<close> is false.\<close>

theorem broadcast_least_upper_bound:
  "infer_size a b = infer_size b a \<and>
   (case infer_size a b of
      Inr c \<Rightarrow> are_expandable a b \<and> expandable a c \<and> expandable b c \<and> (\<forall>d. expandable a d \<and> expandable b d \<longrightarrow> expandable c d)
    | Inl _ \<Rightarrow> \<not> are_expandable a b \<and> (\<forall>d. \<not> (expandable a d \<and> expandable b d)))"
proof -
  have comm: "infer_size a b = infer_size b a" by (simp add: infer_size_def broadcast_size_commute [of a b] max.commute)
  let ?n = "max (length a) (length b)"
  have ae: "are_expandable a b \<longleftrightarrow> (\<forall>k < ?n. \<exists>c. broadcast_size a b k = Inr c)"
  proof -
    have "(\<exists>c. broadcast_size a b k = Inr c) \<longleftrightarrow> (k < length a \<and> k < length b \<longrightarrow> from_end a k = from_end b k \<or> from_end a k = 1 \<or> from_end b k = 1)" for k
      by (auto simp: broadcast_size_def size_or_one_def Let_def)
    then show ?thesis by (auto simp: are_expandable_def less_max_iff_disj)
  qed
  have ub: "\<exists>c. broadcast_size a b k = Inr c" if "expandable a d" "expandable b d" "k < ?n" for d k
  proof -
    have "k < length d" using that by (auto simp: expandable_def)
    then have "size_or_one a k = 1 \<or> size_or_one a k = from_end d k" "size_or_one b k = 1 \<or> size_or_one b k = from_end d k" using that by (auto simp: expandable_sizes)
    then show ?thesis by (auto simp: broadcast_size_def Let_def)
  qed
  show ?thesis
  proof (cases "infer_size a b")
    case (Inl e)
    then have no: "\<not> (\<forall>k < ?n. \<exists>c. broadcast_size a b k = Inr c)" using infer_size_defined [of a b] by auto
    then have "\<not> (expandable a d \<and> expandable b d)" for d using ub by blast
    moreover have "infer_size b a = Inl e" using comm Inl by simp
    ultimately show ?thesis using Inl no ae by simp
  next
    case (Inr c)
    note c = infer_size_Inr [OF Inr]
    have "are_expandable a b" using infer_size_defined [of a b] Inr ae by blast
    moreover have "expandable a c" "expandable b c" using c by (auto simp: expandable_sizes broadcast_size_Inr)
    moreover have "expandable c d" if d: "expandable a d" "expandable b d" for d
    proof -
      have len: "length c \<le> length d" using d c(1) by (auto simp: expandable_def)
      have "from_end c k = 1 \<or> from_end c k = from_end d k" if k: "k < length c" for k
      proof -
        have "from_end c k = size_or_one a k \<or> from_end c k = size_or_one b k" using c(2) [OF k] by (auto simp: broadcast_size_Inr)
        moreover have "size_or_one a k = 1 \<or> size_or_one a k = from_end d k" "size_or_one b k = 1 \<or> size_or_one b k = from_end d k"
          using d k len by (auto simp: expandable_sizes)
        ultimately show ?thesis by metis
      qed
      then show ?thesis using len by (simp add: expandable_def)
    qed
    moreover have "infer_size b a = Inr c" using comm Inr by simp
    ultimately show ?thesis using Inr by simp
  qed
qed

theorem broadcast_least_upper_bound_witness:
  "infer_size [3, 1] [5, 1, 4] = Inr [5, 3, 4] \<and> are_expandable [3, 1] [5, 1, 4] \<and> expandable [5, 3, 4] [2, 5, 3, 4] \<and>
   (\<forall>d. \<not> (expandable [2] d \<and> expandable [3] d))"
proof -
  have "infer_size [3, 1] [5, 1, 4] = Inr [5, 3, 4]" "\<exists>e. infer_size [2] [3] = Inl e"
    by (simp_all add: infer_size_def broadcast_size_def size_or_one_def from_end_def upt_rec)
  moreover have "expandable [3, 1] [2, 5, 3, 4]" "expandable [5, 1, 4] [2, 5, 3, 4]"
    by (auto simp: expandable_def from_end_def less_Suc_eq numeral_nat)
  ultimately show ?thesis using broadcast_least_upper_bound [of "[3, 1]" "[5, 1, 4]"] broadcast_least_upper_bound [of "[2]" "[3]"] by auto
qed

end
