(* ===== verification/StridedTensors.thy ===== *)
theory StridedTensors
  imports TensorStorage TensorDims TensorViews TensorBroadcast
begin

text \<open>
  The operations of \<open>ATen/native/TensorShape.cpp\<close> that return a view of a strided tensor. A tensor is its geometry in a storage:
  sizes, strides and the offset of the first element in elements, the item size and the size of the storage in bytes. A
  view has the storage of its source. Layouts other than strided, quantized tensors, dimension names and symbolic sizes
  are left out.
\<close>

record strided_tensor =
  t_sizes :: "int list"
  t_strides :: "int list"
  t_offset :: int   \<comment> \<open>\<open>storage_offset\<close>\<close>
  t_itemsize :: int
  t_nbytes :: int   \<comment> \<open>of the storage\<close>

definition t_dim :: "strided_tensor \<Rightarrow> int" where
  "t_dim self = int (length (t_sizes self))"

definition t_numel :: "strided_tensor \<Rightarrow> int" where
  "t_numel self = multiply_integers (t_sizes self)"

text \<open>\<open>self.size(d)\<close> and \<open>self.stride(d)\<close> for a dimension that is already wrapped, and \<open>size(d)\<close> with the wrapping.\<close>

definition size_of_dim :: "strided_tensor \<Rightarrow> int \<Rightarrow> int result" where
  "size_of_dim self d = bindE (maybe_wrap_dim d (t_dim self) False) (\<lambda>d. Inr (t_sizes self ! nat d))"

definition as_strided :: "strided_tensor \<Rightarrow> int list \<Rightarrow> int list \<Rightarrow> int option \<Rightarrow> strided_tensor result" where
  "as_strided self sizes strides storage_offset_opt = (let storage_offset = (case storage_offset_opt of Some off \<Rightarrow> off | None \<Rightarrow> t_offset self) in
     bindE (checkAsStridedArgs sizes strides storage_offset) (\<lambda>_.
     bindE (checkInBoundsForStorage sizes strides storage_offset (t_itemsize self) (t_nbytes self)) (\<lambda>_.
       Inr (self\<lparr> t_sizes := sizes, t_strides := strides, t_offset := storage_offset \<rparr>))))"

definition alias_with_sizes_and_strides :: "strided_tensor \<Rightarrow> int list \<Rightarrow> int list \<Rightarrow> strided_tensor" where
  "alias_with_sizes_and_strides self sizes strides = self\<lparr> t_sizes := sizes, t_strides := strides \<rparr>"

definition erase :: "nat \<Rightarrow> 'a list \<Rightarrow> 'a list" where
  "erase d xs = take d xs @ drop (Suc d) xs"

definition insert_at :: "nat \<Rightarrow> 'a \<Rightarrow> 'a list \<Rightarrow> 'a list" where
  "insert_at d x xs = take d xs @ x # drop d xs"

definition swap :: "nat \<Rightarrow> nat \<Rightarrow> 'a list \<Rightarrow> 'a list" where
  "swap i j xs = xs[i := xs ! j, j := xs ! i]"

section \<open>Selecting and slicing\<close>

definition select :: "strided_tensor \<Rightarrow> int \<Rightarrow> int \<Rightarrow> strided_tensor result" where
  "select self dm ix = (if t_dim self = 0 then Inl (IndexError ''select() cannot be applied to a 0-dim tensor.'')
     else bindE (maybe_wrap_dim dm (t_dim self) True) (\<lambda>dm. let d = nat dm; n = t_sizes self ! d in
       if n \<le> -1 - ix \<or> n \<le> ix then Inl (IndexError ''select(): index out of range'')
       else let ix = (if ix < 0 then ix + n else ix) in
         as_strided self (erase d (t_sizes self)) (erase d (t_strides self)) (Some (t_offset self + ix * t_strides self ! d))))"

definition INT64_MAX :: int where
  "INT64_MAX = 2 ^ 63 - 1"

definition slice :: "strided_tensor \<Rightarrow> int \<Rightarrow> int option \<Rightarrow> int option \<Rightarrow> int \<Rightarrow> strided_tensor result" where
  "slice self dm start_opt end_opt step = (if t_dim self = 0 then Inl (IndexError ''slice() cannot be applied to a 0-dim tensor.'')
     else bindE (maybe_wrap_dim dm (t_dim self) True) (\<lambda>dm. let d = nat dm; n = t_sizes self ! d;
         start_val = (case start_opt of Some v \<Rightarrow> v | None \<Rightarrow> 0);
         end_val = (case end_opt of Some v \<Rightarrow> v | None \<Rightarrow> INT64_MAX)
       in bindE (check (step > 0) (CheckError ''slice step must be positive'')) (\<lambda>_.
         let start_val = (if start_val < 0 then start_val + n else start_val);
             end_val = (if end_val < 0 then end_val + n else end_val);
             start_val = (if start_val < 0 then 0 else if start_val \<ge> n then n else start_val);
             end_val = (if end_val < start_val then start_val else if end_val \<ge> n then n else end_val);
             len = end_val - start_val
         in as_strided self ((t_sizes self)[d := (len + step - 1) div step]) ((t_strides self)[d := t_strides self ! d * step])
              (Some (t_offset self + start_val * t_strides self ! d)))))"

definition narrow :: "strided_tensor \<Rightarrow> int \<Rightarrow> int \<Rightarrow> int \<Rightarrow> strided_tensor result" where
  "narrow self dm start len =
     bindE (check (t_dim self > 0) (CheckError ''narrow() cannot be applied to a 0-dim tensor.'')) (\<lambda>_.
     bindE (check (len \<ge> 0) (CheckError ''narrow(): length must be non-negative.'')) (\<lambda>_.
     bindE (size_of_dim self dm) (\<lambda>cur_size.
     bindE (check (- cur_size \<le> start \<and> start \<le> cur_size) (IndexError ''start out of range'')) (\<lambda>_.
       let start = (if start < 0 then start + cur_size else start) in
       bindE (check (start \<le> cur_size - len) (CheckError ''start + length exceeds dimension size'')) (\<lambda>_.
         slice self dm (Some start) (Some (start + len)) 1)))))"

definition diagonal :: "strided_tensor \<Rightarrow> int \<Rightarrow> int \<Rightarrow> int \<Rightarrow> strided_tensor result" where
  "diagonal self off dim1 dim2 =
     bindE (maybe_wrap_dim dim1 (t_dim self) True) (\<lambda>dim1.
     bindE (maybe_wrap_dim dim2 (t_dim self) True) (\<lambda>dim2.
     bindE (check (dim1 \<noteq> dim2) (CheckError ''diagonal dimensions cannot be identical'')) (\<lambda>_.
       let d1 = nat dim1; d2 = nat dim2; sizes = t_sizes self; strides = t_strides self;
           diag_size = (if off \<ge> 0 then max (min (sizes ! d1) (sizes ! d2 - off)) 0 else max (min (sizes ! d1 + off) (sizes ! d2)) 0);
           storage_offset = (if diag_size = 0 then t_offset self
             else if off \<ge> 0 then t_offset self + off * strides ! d2 else t_offset self - off * strides ! d1);
           drop_both = (\<lambda>xs. erase (min d1 d2) (erase (max d1 d2) xs))
       in as_strided self (drop_both sizes @ [diag_size]) (drop_both strides @ [strides ! d1 + strides ! d2]) (Some storage_offset))))"

definition unfold :: "strided_tensor \<Rightarrow> int \<Rightarrow> int \<Rightarrow> int \<Rightarrow> strided_tensor result" where
  "unfold self dm sz step =
     bindE (maybe_wrap_dim dm (t_dim self) True) (\<lambda>dm. let d = nat dm; sizes = t_sizes self; strides = t_strides self;
         max_size = (if t_dim self = 0 then 1 else sizes ! d)
       in bindE (check (sz \<ge> 0) (CheckError ''size must be >= 0'')) (\<lambda>_.
          bindE (check (sz \<le> max_size) (CheckError ''maximum size for tensor'')) (\<lambda>_.
          bindE (check (step > 0) (CheckError ''step must be > 0'')) (\<lambda>_.
            let sizes = sizes @ [sz]; strides' = strides @ [if t_dim self = 0 then 1 else strides ! d] in
            if dm < t_dim self
            then as_strided self (sizes[d := (sizes ! d - sz) div step + 1]) (strides'[d := strides' ! d * step]) None
            else as_strided self sizes strides' None))))"

section \<open>Reordering dimensions\<close>

definition transpose :: "strided_tensor \<Rightarrow> int \<Rightarrow> int \<Rightarrow> strided_tensor result" where
  "transpose self dim0 dim1 =
     bindE (maybe_wrap_dim dim0 (t_dim self) True) (\<lambda>dim0.
     bindE (maybe_wrap_dim dim1 (t_dim self) True) (\<lambda>dim1.
       if dim0 = dim1 then Inr (alias_with_sizes_and_strides self (t_sizes self) (t_strides self))
       else as_strided self (swap (nat dim0) (nat dim1) (t_sizes self)) (swap (nat dim0) (nat dim1) (t_strides self)) None))"

definition permute_step :: "strided_tensor \<Rightarrow> bool list \<times> int list \<times> int list \<Rightarrow> int \<Rightarrow> (bool list \<times> int list \<times> int list) result" where
  "permute_step self s dm = (case s of (seen_dims, new_sizes, new_strides) \<Rightarrow>
     bindE (maybe_wrap_dim dm (t_dim self) True) (\<lambda>d.
     bindE (check (\<not> seen_dims ! nat d) (CheckError ''permute(): duplicate dims are not allowed.'')) (\<lambda>_.
       Inr (seen_dims[nat d := True], new_sizes @ [t_sizes self ! nat d], new_strides @ [t_strides self ! nat d]))))"

definition permute :: "strided_tensor \<Rightarrow> int list \<Rightarrow> strided_tensor result" where
  "permute self dims =
     bindE (check (t_dim self = int (length dims)) (CheckError ''number of dimensions in the tensor input does not match the length of the desired ordering'')) (\<lambda>_.
     bindE (foldE (permute_step self) (replicate (length (t_sizes self)) False, [], []) dims) (\<lambda>(_, new_sizes, new_strides).
       as_strided self new_sizes new_strides None))"

definition t_transpose :: "strided_tensor \<Rightarrow> strided_tensor result" where
  "t_transpose self = bindE (check (t_dim self \<le> 2) (CheckError ''t() expects a tensor with <= 2 dimensions'')) (\<lambda>_.
     transpose self 0 (if t_dim self < 2 then 0 else 1))"

definition numpy_T :: "strided_tensor \<Rightarrow> strided_tensor result" where
  "numpy_T self = permute self (map int (rev [0..<length (t_sizes self)]))"

section \<open>Dimensions of size 1\<close>

definition keep_dims :: "(nat \<Rightarrow> bool) \<Rightarrow> 'a list \<Rightarrow> 'a list" where
  "keep_dims keep xs = map (\<lambda>d. xs ! d) (filter keep [0..<length xs])"

definition squeeze :: "strided_tensor \<Rightarrow> strided_tensor result" where
  "squeeze self = (let keep = (\<lambda>d. t_sizes self ! d \<noteq> 1) in
     as_strided self (keep_dims keep (t_sizes self)) (keep_dims keep (t_strides self)) None)"

definition squeeze_dim :: "strided_tensor \<Rightarrow> int \<Rightarrow> strided_tensor result" where
  "squeeze_dim self dm =
     bindE (maybe_wrap_dim dm (t_dim self) True) (\<lambda>dm.
       if t_dim self = 0 \<or> t_sizes self ! nat dm \<noteq> 1 then as_strided self (t_sizes self) (t_strides self) None
       else let keep = (\<lambda>d. d \<noteq> nat dm \<or> t_sizes self ! nat dm \<noteq> 1) in
         as_strided self (keep_dims keep (t_sizes self)) (keep_dims keep (t_strides self)) None)"

definition squeeze_dims :: "strided_tensor \<Rightarrow> int list \<Rightarrow> strided_tensor result" where
  "squeeze_dims self dims =
     bindE (dim_list_to_bitset (Some dims) (length (t_sizes self))) (\<lambda>dim_mask.
       let keep = (\<lambda>d. \<not> dim_mask ! d \<or> t_sizes self ! d \<noteq> 1) in
       as_strided self (keep_dims keep (t_sizes self)) (keep_dims keep (t_strides self)) None)"

definition unsqueeze :: "strided_tensor \<Rightarrow> int \<Rightarrow> strided_tensor result" where
  "unsqueeze self dm =
     bindE (maybe_wrap_dim dm (t_dim self + 1) True) (\<lambda>dm. let d = nat dm;
         new_stride = (if dm \<ge> t_dim self then 1 else t_sizes self ! d * t_strides self ! d)
       in as_strided self (insert_at d 1 (t_sizes self)) (insert_at d new_stride (t_strides self)) None)"

definition expand :: "strided_tensor \<Rightarrow> int list \<Rightarrow> strided_tensor result" where
  "expand self sizes =
     bindE (check (length sizes \<ge> length (t_sizes self)) (CheckError ''the number of sizes provided must be greater or equal to the number of dimensions in the tensor'')) (\<lambda>_.
     bindE (inferExpandGeometry (t_sizes self) (t_strides self) sizes) (\<lambda>(expanded_sizes, expanded_strides).
       as_strided self expanded_sizes expanded_strides None))"

section \<open>Views and copies with another shape\<close>

definition view_impl :: "strided_tensor \<Rightarrow> int list \<Rightarrow> strided_tensor result" where
  "view_impl self sizes =
     bindE (infer_view_size sizes (t_numel self)) (\<lambda>inferred_size.
       case computeStride (t_sizes self) (t_strides self) inferred_size of
         None \<Rightarrow> Inl (CheckError ''view size is not compatible with input tensor's size and stride'')
       | Some stride \<Rightarrow> Inr (alias_with_sizes_and_strides self inferred_size stride))"

text \<open>The copy that \<open>clone(MemoryFormat::Contiguous)\<close> makes, in a storage of its own.\<close>

definition contiguous_clone :: "strided_tensor \<Rightarrow> strided_tensor" where
  "contiguous_clone self = self\<lparr> t_strides := defaultStrides (t_sizes self), t_offset := 0, t_nbytes := t_numel self * t_itemsize self \<rparr>"

datatype reshaped = Alias strided_tensor | Copied strided_tensor

definition reshape :: "strided_tensor \<Rightarrow> int list \<Rightarrow> reshaped result" where
  "reshape self proposed_shape =
     bindE (infer_view_size proposed_shape (t_numel self)) (\<lambda>shape.
       case computeStride (t_sizes self) (t_strides self) shape of
         Some stride \<Rightarrow> Inr (Alias (alias_with_sizes_and_strides self shape stride))
       | None \<Rightarrow> bindE (view_impl (contiguous_clone self) shape) (\<lambda>r. Inr (Copied r)))"

definition flatten :: "strided_tensor \<Rightarrow> int \<Rightarrow> int \<Rightarrow> reshaped result" where
  "flatten self start_dim end_dim =
     bindE (maybe_wrap_dim start_dim (t_dim self) True) (\<lambda>start_dim.
     bindE (maybe_wrap_dim end_dim (t_dim self) True) (\<lambda>end_dim.
     bindE (check (start_dim \<le> end_dim) (CheckError ''flatten() has invalid args: start_dim cannot come after end_dim'')) (\<lambda>_.
       if t_dim self = 0 then reshape self [1]
       else if start_dim = end_dim then Inr (Alias self)
       else let s = nat start_dim; e = nat end_dim; sizes = t_sizes self;
                slice_numel = multiply_integers (take (e - s + 1) (drop s sizes))
         in reshape self (take s sizes @ slice_numel # drop (e + 1) sizes))))"

definition unflatten :: "strided_tensor \<Rightarrow> int \<Rightarrow> int list \<Rightarrow> strided_tensor result" where
  "unflatten self dm sizes =
     bindE (maybe_wrap_dim dm (t_dim self) True) (\<lambda>dm.
     bindE (check (sizes \<noteq> []) (CheckError ''unflatten: sizes must be non-empty'')) (\<lambda>_.
     bindE (size_of_dim self dm) (\<lambda>n.
     bindE (infer_view_size sizes n) (\<lambda>inferred_size.
       view_impl self (take (nat dm) (t_sizes self) @ inferred_size @ drop (Suc (nat dm)) (t_sizes self))))))"

section \<open>Several views\<close>

definition unbind :: "strided_tensor \<Rightarrow> int \<Rightarrow> strided_tensor list result" where
  "unbind self dm =
     bindE (maybe_wrap_dim dm (t_dim self) True) (\<lambda>dm.
     bindE (size_of_dim self dm) (\<lambda>n. mapE (\<lambda>i. select self dm (int i)) [0..<nat n]))"

definition get_num_splits :: "strided_tensor \<Rightarrow> int \<Rightarrow> int \<Rightarrow> int result" where
  "get_num_splits self split_size dm =
     bindE (check (t_dim self \<noteq> 0) (CheckError ''split expects at least a 1-dimensional tensor'')) (\<lambda>_.
     bindE (check (split_size \<ge> 0) (CheckError ''split expects split_size be non-negative'')) (\<lambda>_.
     bindE (size_of_dim self dm) (\<lambda>dim_size.
     bindE (check (split_size > 0 \<or> dim_size = 0) (CheckError ''split_size can only be 0 if dimension size is 0'')) (\<lambda>_.
       Inr (if split_size \<noteq> 0 then max ((dim_size + split_size - 1) div split_size) 1 else 1)))))"

definition split_tensor :: "strided_tensor \<Rightarrow> int \<Rightarrow> int \<Rightarrow> strided_tensor list result" where
  "split_tensor self split_size dm =
     bindE (get_num_splits self split_size dm) (\<lambda>num_splits.
     bindE (size_of_dim self dm) (\<lambda>n. let last_split_size = split_size - (split_size * num_splits - n) in
       mapE (\<lambda>i. narrow self dm (int i * split_size) (if int i < num_splits - 1 then split_size else last_split_size)) [0..<nat num_splits]))"

fun split_loop :: "strided_tensor \<Rightarrow> int \<Rightarrow> int \<Rightarrow> int list \<Rightarrow> (int \<times> strided_tensor list) result" where
  "split_loop self dm start_idx [] = Inr (start_idx, [])"
| "split_loop self dm start_idx (len # split_sizes) =
     bindE (check (len \<ge> 0) (CheckError ''split_with_sizes expects split_sizes have only non-negative entries'')) (\<lambda>_.
     bindE (slice self dm (Some start_idx) (Some (start_idx + len)) 1) (\<lambda>s.
     bindE (split_loop self dm (start_idx + len) split_sizes) (\<lambda>(end_idx, splits). Inr (end_idx, s # splits))))"

definition split_with_sizes :: "strided_tensor \<Rightarrow> int list \<Rightarrow> int \<Rightarrow> strided_tensor list result" where
  "split_with_sizes self split_sizes dm =
     bindE (check (t_dim self \<noteq> 0) (CheckError ''split expects at least a 1-dimensional tensor'')) (\<lambda>_.
     bindE (size_of_dim self dm) (\<lambda>dim_size.
     bindE (split_loop self dm 0 split_sizes) (\<lambda>(start_idx, splits).
     bindE (check (start_idx = dim_size) (CheckError ''split_with_sizes expects split_sizes to sum exactly to'')) (\<lambda>_. Inr splits))))"

definition chunk :: "strided_tensor \<Rightarrow> int \<Rightarrow> int \<Rightarrow> strided_tensor list result" where
  "chunk self chunks dm =
     bindE (check (t_dim self > 0) (CheckError ''chunk expects at least a 1-dimensional tensor'')) (\<lambda>_.
     bindE (check (chunks > 0) (CheckError ''chunk expects `chunks` to be greater than 0'')) (\<lambda>_.
     bindE (size_of_dim self dm) (\<lambda>dim_size. let split_size = (dim_size + chunks - 1) div chunks in
       if split_size = 0 \<and> dim_size = 0
       then split_with_sizes self ((replicate (nat chunks) split_size)[nat (chunks - 1) := split_size - (split_size * chunks - dim_size)]) dm
       else split_tensor self split_size dm)))"

end
