(* ===== verification/StridedViews.thy ===== *)
theory StridedViews
  imports StridedTensors
begin

text \<open>
  Views stay within their source: every element of a view is an element of the tensor it was taken from, so that \<open>as_strided\<close>
  accepts the geometry that the operation has computed. What an operation has to provide for this is the locale
  \<open>view_geometry\<close>: new sizes, strides and offset, and for every index of the view the index of the same element in the source.
\<close>

section \<open>Elements of a tensor\<close>

definition representable :: "int list \<Rightarrow> int list \<Rightarrow> int \<Rightarrow> bool" where
  "representable sizes strides off \<longleftrightarrow> int64_nonneg sizes \<and> int64_nonneg strides \<and> 0 \<le> off \<and> off < 2 ^ 63"

definition tensor_ok :: "strided_tensor \<Rightarrow> bool" where
  "tensor_ok t \<longleftrightarrow> length (t_strides t) = length (t_sizes t) \<and> representable (t_sizes t) (t_strides t) (t_offset t) \<and>
     0 < t_itemsize t \<and> t_itemsize t < 2 ^ 63 \<and> t_nbytes t < 2 ^ 63 \<and> within_storage (t_sizes t) (t_strides t) (t_offset t) (t_itemsize t) (t_nbytes t)"

definition location :: "strided_tensor \<Rightarrow> int list \<Rightarrow> int" where
  "location t idx = t_offset t + element_offset (t_strides t) idx"

definition view_by :: "(int list \<Rightarrow> int list) \<Rightarrow> strided_tensor \<Rightarrow> strided_tensor \<Rightarrow> bool" where
  "view_by source t t' \<longleftrightarrow> t_itemsize t' = t_itemsize t \<and> t_nbytes t' = t_nbytes t \<and>
     (\<forall>idx. in_bounds (t_sizes t') idx \<longrightarrow> in_bounds (t_sizes t) (source idx) \<and> location t' idx = location t (source idx))"

lemma in_bounds_not_zero: "in_bounds sizes idx \<Longrightarrow> 0 \<notin> set sizes"
  using in_bounds_positive [of sizes idx] by (force simp: positive_def)

lemma as_strided_default: "as_strided t sizes strides None = as_strided t sizes strides (Some (t_offset t))"
  by (simp add: as_strided_def)

lemma as_strided_Inr:
  "as_strided t sizes strides (Some off) = Inr t' \<Longrightarrow> t_sizes t' = sizes \<and> t_strides t' = strides \<and> t_offset t' = off"
  by (auto simp: as_strided_def Let_def bindE_Inr_iff)

lemma as_strided_iff:
  assumes "tensor_ok t" "representable sizes strides off"
  shows "as_strided t sizes strides (Some off) = Inr t' \<longleftrightarrow> length strides = length sizes \<and>
    within_storage sizes strides off (t_itemsize t) (t_nbytes t) \<and> t' = t\<lparr> t_sizes := sizes, t_strides := strides, t_offset := off \<rparr>"
proof -
  have r: "int64_nonneg sizes" "int64_nonneg strides" "0 \<le> off" "off < 2 ^ 63" using assms(2) by (auto simp: representable_def)
  have "\<forall>val \<in> set strides. 0 \<le> val" using r(2) by (simp add: int64_nonneg_def)
  moreover have "checkInBoundsForStorage sizes strides off (t_itemsize t) (t_nbytes t) = Inr () \<longleftrightarrow> within_storage sizes strides off (t_itemsize t) (t_nbytes t)"
    if "length strides = length sizes" using checkInBounds_iff [OF that r] assms(1) by (simp add: tensor_ok_def)
  ultimately show ?thesis using r(3) by (cases "length sizes = length strides") (auto simp: as_strided_def checkAsStridedArgs_def bindE_Inr_iff)
qed

text \<open>A geometry whose elements are elements of a tensor lies within the storage of the tensor.\<close>

lemma within_storage_view:
  assumes "tensor_ok t" "length strides = length sizes" "nonnegative sizes"
    "\<forall>idx. in_bounds sizes idx \<longrightarrow> (\<exists>idx'. in_bounds (t_sizes t) idx' \<and> off + element_offset strides idx = location t idx')"
  shows "within_storage sizes strides off (t_itemsize t) (t_nbytes t)"
proof (cases "0 \<in> set sizes")
  case False
  have "positive sizes" using False assms(3) positive_iff_numel numel_zero_iff by blast
  then have last: "in_bounds sizes (last_index sizes)" "element_offset strides (last_index sizes) = extent sizes strides"
    using last_index_in_bounds last_index_offset [OF assms(2)] by auto
  obtain idx' where i: "in_bounds (t_sizes t) idx'" "off + extent sizes strides = location t idx'" using assms(4) last by metis
  have ok: "nonnegative (t_strides t)" "0 < t_itemsize t" "within_storage (t_sizes t) (t_strides t) (t_offset t) (t_itemsize t) (t_nbytes t)"
    using assms(1) int64_nonnegative by (auto simp: tensor_ok_def representable_def)
  have "location t idx' \<le> t_offset t + extent (t_sizes t) (t_strides t)" using offset_within_extent [OF i(1) ok(1)] by (simp add: location_def)
  then have "off + 1 + extent sizes strides \<le> t_offset t + 1 + extent (t_sizes t) (t_strides t)" using i(2) by linarith
  then have "(off + 1 + extent sizes strides) * t_itemsize t \<le> (t_offset t + 1 + extent (t_sizes t) (t_strides t)) * t_itemsize t" using ok(2) by (intro mult_right_mono) auto
  then show ?thesis using ok(3) in_bounds_not_zero [OF i(1)] by (auto simp: within_storage_def)
qed (simp add: within_storage_def)

lemma as_strided_view:
  assumes "tensor_ok t" "length strides = length sizes" "representable sizes strides off"
    "\<forall>idx. in_bounds sizes idx \<longrightarrow> in_bounds (t_sizes t) (source idx) \<and> off + element_offset strides idx = location t (source idx)"
  obtains t' where "as_strided t sizes strides (Some off) = Inr t'" "tensor_ok t'" "view_by source t t'" "t_sizes t' = sizes"
proof -
  let ?t' = "t\<lparr> t_sizes := sizes, t_strides := strides, t_offset := off \<rparr>"
  have "nonnegative sizes" using assms(3) int64_nonnegative by (simp add: representable_def)
  then have w: "within_storage sizes strides off (t_itemsize t) (t_nbytes t)" using assms(4) by (intro within_storage_view [OF assms(1,2)]) blast+
  show thesis
  proof (rule that)
    show "as_strided t sizes strides (Some off) = Inr ?t'" using as_strided_iff [OF assms(1,3)] assms(2) w by simp
    show "tensor_ok ?t'" using assms(1-3) w by (simp add: tensor_ok_def)
    show "view_by source t ?t'" using assms(4) by (simp add: view_by_def location_def)
    show "t_sizes ?t' = sizes" by simp
  qed
qed

section \<open>The contract of a view\<close>

locale view_geometry =
  fixes valid :: "int list \<Rightarrow> bool" and new_sizes :: "int list \<Rightarrow> int list" and new_strides :: "int list \<Rightarrow> int list \<Rightarrow> int list"
    and shift :: "int list \<Rightarrow> int list \<Rightarrow> int" and source :: "int list \<Rightarrow> int list \<Rightarrow> int list"
  assumes new_lengths: "valid sizes \<Longrightarrow> length strides = length sizes \<Longrightarrow> length (new_strides sizes strides) = length (new_sizes sizes)"
    and source_in_bounds: "valid sizes \<Longrightarrow> in_bounds (new_sizes sizes) idx \<Longrightarrow> in_bounds sizes (source sizes idx)"
    and source_offset: "valid sizes \<Longrightarrow> length strides = length sizes \<Longrightarrow> in_bounds (new_sizes sizes) idx \<Longrightarrow>
      shift sizes strides + element_offset (new_strides sizes strides) idx = element_offset strides (source sizes idx)"
begin

lemma as_strided_succeeds:
  assumes "tensor_ok t" "valid (t_sizes t)" "representable (new_sizes (t_sizes t)) (new_strides (t_sizes t) (t_strides t)) (t_offset t + shift (t_sizes t) (t_strides t))"
  obtains t' where "as_strided t (new_sizes (t_sizes t)) (new_strides (t_sizes t) (t_strides t)) (Some (t_offset t + shift (t_sizes t) (t_strides t))) = Inr t'"
    "tensor_ok t'" "view_by (source (t_sizes t)) t t'" "t_sizes t' = new_sizes (t_sizes t)"
proof (rule as_strided_view [OF assms(1) _ assms(3)])
  have len: "length (t_strides t) = length (t_sizes t)" using assms(1) by (simp add: tensor_ok_def)
  show "length (new_strides (t_sizes t) (t_strides t)) = length (new_sizes (t_sizes t))" using new_lengths [OF assms(2) len] .
  show "\<forall>idx. in_bounds (new_sizes (t_sizes t)) idx \<longrightarrow> in_bounds (t_sizes t) (source (t_sizes t) idx) \<and>
    t_offset t + shift (t_sizes t) (t_strides t) + element_offset (new_strides (t_sizes t) (t_strides t)) idx = location t (source (t_sizes t) idx)"
    using source_in_bounds [OF assms(2)] source_offset [OF assms(2) len] by (auto simp: location_def algebra_simps)
qed (rule that)

text \<open>If \<open>as_strided\<close> has accepted the new geometry, the result is a view.\<close>

lemma accepted_is_view:
  assumes "as_strided t (new_sizes (t_sizes t)) (new_strides (t_sizes t) (t_strides t)) (Some (t_offset t + shift (t_sizes t) (t_strides t))) = Inr t'"
    "tensor_ok t" "valid (t_sizes t)" "representable (t_sizes t') (t_strides t') (t_offset t')"
  shows "tensor_ok t' \<and> view_by (source (t_sizes t)) t t'"
proof -
  obtain t'' where "as_strided t (new_sizes (t_sizes t)) (new_strides (t_sizes t) (t_strides t)) (Some (t_offset t + shift (t_sizes t) (t_strides t))) = Inr t''"
    "tensor_ok t''" "view_by (source (t_sizes t)) t t''" "t_sizes t'' = new_sizes (t_sizes t)"
    by (rule as_strided_succeeds [OF assms(2,3)]) (use assms(4) as_strided_Inr [OF assms(1)] in simp)
  then show ?thesis using assms(1) by auto
qed

end

section \<open>Lists of dimensions\<close>

lemma in_bounds_nth: "in_bounds sizes idx \<longleftrightarrow> length idx = length sizes \<and> (\<forall>d < length sizes. 0 \<le> idx ! d \<and> idx ! d < sizes ! d)"
proof (induction sizes idx rule: in_bounds.induct)
  case (2 n sizes i idx)
  show ?case using 2 by (auto simp: less_Suc_eq_0_disj)
qed auto

lemma in_bounds_append: "length xs = length ix \<Longrightarrow> in_bounds (xs @ ys) (ix @ iy) \<longleftrightarrow> in_bounds xs ix \<and> in_bounds ys iy"
  by (induction xs ix rule: list_induct2) auto

lemma offset_append: "length xs = length ix \<Longrightarrow> element_offset (xs @ ys) (ix @ iy) = element_offset xs ix + element_offset ys iy"
  by (induction xs ix rule: list_induct2) auto

text \<open>Splitting a list at a dimension.\<close>

lemma split_at:
  assumes "d < length xs"
  obtains a x b where "xs = a @ x # b" "length a = d" "xs ! d = x"
  using that [of "take d xs" "xs ! d" "drop (Suc d) xs"] assms id_take_nth_drop [OF assms] by simp

lemma erase_append [simp]: "length a = d \<Longrightarrow> erase d (a @ x # b) = a @ b"
  by (simp add: erase_def)

lemma insert_at_append [simp]: "length a = d \<Longrightarrow> insert_at d x (a @ b) = a @ x # b"
  by (simp add: insert_at_def)

lemma split_same:
  assumes "length ys = length xs" "xs = a @ x # b"
  obtains a' y b' where "ys = a' @ y # b'" "length a' = length a" "length b' = length b" "ys ! length a = y"
proof -
  have "length a < length ys" using assms by simp
  then obtain a' y b' where y: "ys = a' @ y # b'" "length a' = length a" "ys ! length a = y" by (rule split_at)
  have "length a' + Suc (length b') = length a + Suc (length b)" using assms arg_cong [OF y(1), of length] by simp
  then show thesis using that [OF y(1,2) _ y(3)] y(2) by simp
qed

lemma split_index:
  assumes "length idx = length (a @ b)"
  obtains ia ib where "idx = ia @ ib" "length ia = length a" "length ib = length b"
  using that [of "take (length a) idx" "drop (length a) idx"] assms by simp

interpretation select_view: view_geometry "\<lambda>sizes. d < length sizes \<and> 0 \<le> i \<and> i < sizes ! d" "erase d" "\<lambda>_. erase d" "\<lambda>_ strides. i * strides ! d" "\<lambda>_. insert_at d i" for d i
proof
  fix sizes strides idx :: "int list" assume v: "d < length sizes \<and> 0 \<le> i \<and> i < sizes ! d"
  then obtain a n b where s: "sizes = a @ n # b" "length a = d" "sizes ! d = n" using split_at [of d sizes] by blast
  show "length (erase d strides) = length (erase d sizes)" if "length strides = length sizes" using that by (simp add: erase_def)
  assume "in_bounds (erase d sizes) idx"
  then have b: "in_bounds (a @ b) idx" using s by simp
  obtain ia ib where i: "idx = ia @ ib" "length ia = length a" "length ib = length b" by (rule split_index [OF in_bounds_length [OF b]])
  have bi: "in_bounds a ia" "in_bounds b ib" using b i in_bounds_append [of a ia b ib] by auto
  have ins: "insert_at d i idx = ia @ i # ib" using i s by simp
  show "in_bounds sizes (insert_at d i idx)" unfolding ins using s i(2) v bi by (simp add: in_bounds_append)
  assume "length strides = length sizes"
  then obtain a' s' b' where st: "strides = a' @ s' # b'" "length a' = length a" "length b' = length b" "strides ! length a = s'" using s(1) by (rule split_same)
  have "erase d strides = a' @ b'" using st s(2) by simp
  then show "i * strides ! d + element_offset (erase d strides) idx = element_offset strides (insert_at d i idx)"
    unfolding ins using i st s(2) by (simp add: offset_append)
qed

interpretation unsqueeze_view: view_geometry "\<lambda>sizes. d \<le> length sizes" "insert_at d 1" "\<lambda>sizes strides. insert_at d (x sizes strides) strides" "\<lambda>_ _. 0" "\<lambda>_. erase d" for d x
proof
  fix sizes strides idx :: "int list" assume v: "d \<le> length sizes"
  show "length (insert_at d (x sizes strides) strides) = length (insert_at d 1 sizes)" if "length strides = length sizes" using that by (simp add: insert_at_def)
  assume b: "in_bounds (insert_at d 1 sizes) idx"
  then have "length idx = Suc (length sizes)" using v by (auto simp: insert_at_def dest!: in_bounds_length)
  then have "d < length idx" using v by simp
  then obtain ia k ib where i: "idx = ia @ k # ib" "length ia = d" using split_at [of d idx] by blast
  have e: "in_bounds (take d sizes @ 1 # drop d sizes) (ia @ k # ib)" using b i by (simp add: insert_at_def)
  then have bi: "in_bounds (take d sizes) ia" "k = 0" "in_bounds (drop d sizes) ib" using v i(2) in_bounds_append [of "take d sizes" ia "1 # drop d sizes" "k # ib"] by auto
  show "in_bounds sizes (erase d idx)" using bi(1,3) v i in_bounds_append [of "take d sizes" ia "drop d sizes" ib] by simp
  assume l: "length strides = length sizes"
  have "element_offset (take d strides @ x sizes strides # drop d strides) (ia @ k # ib) = element_offset (take d strides) ia + element_offset (drop d strides) ib"
    using i(2) l v bi(2) offset_append [of "take d strides" ia "x sizes strides # drop d strides" "k # ib"] by simp
  also have "\<dots> = element_offset strides (ia @ ib)" using i(2) l v offset_append [of "take d strides" ia "drop d strides" ib] by simp
  finally show "0 + element_offset (insert_at d (x sizes strides) strides) idx = element_offset strides (erase d idx)" using i by (simp add: insert_at_def)
qed

lemma round_up_bound:
  fixes i len step :: int
  assumes "0 < step" "i < (len + step - 1) div step"
  shows "i * step < len"
proof -
  have "(i + 1) * step \<le> (len + step - 1) div step * step" using assms by (intro mult_right_mono) auto
  also have "\<dots> \<le> len + step - 1" using div_mult_mod_eq [of "len + step - 1" step] pos_mod_sign [OF assms(1), of "len + step - 1"] by linarith
  finally show ?thesis by (simp add: algebra_simps)
qed

interpretation slice_view: view_geometry "\<lambda>sizes. d < length sizes \<and> 0 \<le> start \<and> start + len \<le> sizes ! d \<and> 0 < step" "\<lambda>sizes. sizes[d := (len + step - 1) div step]"
  "\<lambda>_ strides. strides[d := strides ! d * step]" "\<lambda>_ strides. start * strides ! d" "\<lambda>_ idx. idx[d := start + idx ! d * step]" for d start len step
proof
  fix sizes strides idx :: "int list" assume v: "d < length sizes \<and> 0 \<le> start \<and> start + len \<le> sizes ! d \<and> 0 < step"
  then obtain a n b where s: "sizes = a @ n # b" "length a = d" "sizes ! d = n" using split_at [of d sizes] by blast
  show "length (strides[d := strides ! d * step]) = length (sizes[d := (len + step - 1) div step])" if "length strides = length sizes" using that by simp
  assume "in_bounds (sizes[d := (len + step - 1) div step]) idx"
  then have b: "in_bounds (a @ (len + step - 1) div step # b) idx" using s by (simp add: list_update_append)
  obtain ia i ib where i: "idx = ia @ i # ib" "length ia = length a" "length ib = length b"
    using split_same [OF in_bounds_length [OF b] refl] by blast
  have bi: "in_bounds a ia" "0 \<le> i" "i < (len + step - 1) div step" "in_bounds b ib" using b i in_bounds_append [of a ia "(len + step - 1) div step # b" "i # ib"] by auto
  have upd: "idx[d := start + idx ! d * step] = ia @ (start + i * step) # ib" using i s(2) by (simp add: list_update_append nth_append)
  have "i * step < len" using round_up_bound bi(3) v by blast
  then have "0 \<le> start + i * step" "start + i * step < n" using v s(3) bi(2) by auto
  then show "in_bounds sizes (idx[d := start + idx ! d * step])" unfolding upd using s(1) i(2) bi by (simp add: in_bounds_append)
  assume "length strides = length sizes"
  then obtain a' s' b' where st: "strides = a' @ s' # b'" "length a' = length a" "length b' = length b" "strides ! length a = s'" using s(1) by (rule split_same)
  then show "start * strides ! d + element_offset (strides[d := strides ! d * step]) idx = element_offset strides (idx[d := start + idx ! d * step])"
    unfolding upd using i s(2) by (simp add: offset_append list_update_append nth_append algebra_simps)
qed

text \<open>The dimensions in another order; \<open>p\<close> lists for every dimension of the view the dimension of the source.\<close>

lemma offset_sum: "length strides = length idx \<Longrightarrow> element_offset strides idx = (\<Sum>d < length idx. idx ! d * strides ! d)"
proof (induction strides idx rule: list_induct2)
  case (Cons s strides i idx)
  have "(\<Sum>d < Suc (length idx). (i # idx) ! d * (s # strides) ! d) = i * s + (\<Sum>d < length idx. idx ! d * strides ! d)"
    by (simp only: sum.lessThan_Suc_shift nth_Cons_0 nth_Cons_Suc)
  then show ?case using Cons by simp
qed simp

text \<open>The elements along one dimension.\<close>

lemma offset_unit:
  assumes "length strides = n" "d < n"
  shows "element_offset strides ((replicate n 0)[d := i]) = i * strides ! d"
proof -
  let ?idx = "(replicate n 0)[d := i]"
  have "element_offset strides ?idx = (\<Sum>j < n. ?idx ! j * strides ! j)" using offset_sum [of strides ?idx] assms(1) by simp
  also have "\<dots> = (\<Sum>j < n. if j = d then i * strides ! d else 0)" by (intro sum.cong) (auto simp: nth_list_update)
  also have "\<dots> = i * strides ! d" using assms(2) by simp
  finally show ?thesis .
qed

lemma in_bounds_unit:
  assumes "positive sizes" "d < length sizes" "0 \<le> i" "i < sizes ! d"
  shows "in_bounds sizes ((replicate (length sizes) 0)[d := i])"
proof -
  have "1 \<le> sizes ! j" if "j < length sizes" for j using assms(1) that by (simp add: positive_def)
  then show ?thesis using assms(2-4) by (force simp: in_bounds_nth nth_list_update)
qed

definition reorder :: "nat list \<Rightarrow> int list \<Rightarrow> int list" where
  "reorder p idx = map (\<lambda>d. the (map_of (zip p idx) d)) [0..<length p]"

lemma reorder_nth:
  assumes "distinct p" "length idx = length p" "k < length p" "p ! k < length p"
  shows "reorder p idx ! (p ! k) = idx ! k"
  using map_of_zip_nth [of p idx k] assms by (simp add: reorder_def)

interpretation permute_view: view_geometry "\<lambda>sizes. distinct p \<and> set p = {..<length sizes}" "\<lambda>sizes. map ((!) sizes) p" "\<lambda>_ strides. map ((!) strides) p" "\<lambda>_ _. 0"
  "\<lambda>_. reorder p" for p
proof
  fix sizes strides idx :: "int list" assume v: "distinct p \<and> set p = {..<length sizes}"
  have len: "length p = length sizes" using distinct_card [of p] v by simp
  have bij: "bij_betw ((!) p) {..<length sizes} {..<length sizes}" using v len by (intro bij_betw_nth) auto
  show "length (map ((!) strides) p) = length (map ((!) sizes) p)" by simp
  assume b: "in_bounds (map ((!) sizes) p) idx"
  then have l: "length idx = length p" using in_bounds_length [OF b] by simp
  have nth: "reorder p idx ! (p ! k) = idx ! k" "p ! k < length sizes" if "k < length sizes" for k
  proof -
    have "p ! k \<in> set p" using that len by simp
    then show "p ! k < length sizes" using v by simp
    then show "reorder p idx ! (p ! k) = idx ! k" using reorder_nth v l len that by simp
  qed
  have lr: "length (reorder p idx) = length sizes" by (simp add: reorder_def len)
  have "0 \<le> reorder p idx ! d \<and> reorder p idx ! d < sizes ! d" if "d < length sizes" for d
  proof -
    have "d \<in> set p" using v that by simp
    then obtain k where k: "k < length sizes" "p ! k = d" using len by (auto simp: in_set_conv_nth)
    have "0 \<le> idx ! k \<and> idx ! k < map ((!) sizes) p ! k" using b k(1) len unfolding in_bounds_nth by simp
    then show ?thesis using nth [of k] k len by simp
  qed
  then show "in_bounds sizes (reorder p idx)" using lr by (simp add: in_bounds_nth)
  assume ls: "length strides = length sizes"
  have "element_offset strides (reorder p idx) = (\<Sum>d < length sizes. reorder p idx ! d * strides ! d)" using offset_sum [of strides "reorder p idx"] lr ls by simp
  also have "\<dots> = (\<Sum>k < length sizes. reorder p idx ! (p ! k) * strides ! (p ! k))" by (rule sum.reindex_bij_betw [OF bij, symmetric])
  also have "\<dots> = (\<Sum>k < length sizes. idx ! k * map ((!) strides) p ! k)" using nth len by (intro sum.cong) auto
  also have "\<dots> = element_offset (map ((!) strides) p) idx" using offset_sum [of "map ((!) strides) p" idx] l len by simp
  finally show "0 + element_offset (map ((!) strides) p) idx = element_offset strides (reorder p idx)" by simp
qed

text \<open>Dimensions of size 1 left out; the index of the source has 0 in their place.\<close>

lemma keep_dims_simps [simp]:
  "keep_dims keep [] = []"
  "keep_dims keep (x # xs) = (if keep 0 then [x] else []) @ keep_dims (\<lambda>d. keep (Suc d)) xs"
proof -
  have "[0..<length (x # xs)] = 0 # map Suc [0..<length xs]" by (simp add: upt_conv_Cons map_Suc_upt del: upt_Suc)
  then show "keep_dims keep (x # xs) = (if keep 0 then [x] else []) @ keep_dims (\<lambda>d. keep (Suc d)) xs"
    by (simp add: keep_dims_def filter_map comp_def del: upt_Suc)
qed (simp add: keep_dims_def)

fun fill :: "(nat \<Rightarrow> bool) \<Rightarrow> int list \<Rightarrow> int list \<Rightarrow> int list" where
  "fill keep [] idx = []"
| "fill keep (n # sizes) idx = (if keep 0 then hd idx # fill (\<lambda>d. keep (Suc d)) sizes (tl idx) else 0 # fill (\<lambda>d. keep (Suc d)) sizes idx)"

lemma keep_dims_length: "length strides = length sizes \<Longrightarrow> length (keep_dims keep strides) = length (keep_dims keep sizes)"
  by (induction strides sizes arbitrary: keep rule: list_induct2) auto

lemma fill_in_bounds:
  "\<forall>d < length sizes. \<not> keep d \<longrightarrow> sizes ! d = 1 \<Longrightarrow> in_bounds (keep_dims keep sizes) idx \<Longrightarrow> in_bounds sizes (fill keep sizes idx)"
proof (induction keep sizes idx rule: fill.induct)
  case (1 keep idx) then show ?case by (cases idx) auto
next
  case (2 keep n sizes idx)
  have k: "\<forall>d < length sizes. \<not> keep (Suc d) \<longrightarrow> sizes ! d = 1" using 2(3) by force
  show ?case
  proof (cases "keep 0")
    case True
    then obtain i idx' where "idx = i # idx'" using 2(4) by (cases idx) auto
    then show ?thesis using 2(1) [OF True k] 2(4) True by simp
  next
    case False
    then have "n = 1" using 2(3) by force
    then show ?thesis using 2(2) [OF False k] 2(4) False by simp
  qed
qed

lemma fill_offset:
  assumes "length strides = length sizes" "length idx = length (keep_dims keep sizes)"
  shows "element_offset (keep_dims keep strides) idx = element_offset strides (fill keep sizes idx)"
  using assms
proof (induction strides sizes arbitrary: keep idx rule: list_induct2)
  case (Cons s strides n sizes)
  show ?case
  proof (cases "keep 0")
    case True
    then obtain i idx' where i: "idx = i # idx'" "length idx' = length (keep_dims (\<lambda>d. keep (Suc d)) sizes)" using Cons(3) by (cases idx) auto
    then show ?thesis using Cons(2) [OF i(2)] True by simp
  next
    case False
    then show ?thesis using Cons(2) [of idx "\<lambda>d. keep (Suc d)"] Cons(3) by simp
  qed
qed simp

interpretation squeeze_view: view_geometry "\<lambda>sizes. \<forall>d < length sizes. \<not> keep sizes d \<longrightarrow> sizes ! d = 1" "\<lambda>sizes. keep_dims (keep sizes) sizes"
  "\<lambda>sizes. keep_dims (keep sizes)" "\<lambda>_ _. 0" "\<lambda>sizes. fill (keep sizes) sizes" for keep
proof
  fix sizes strides idx :: "int list"
  show "length (keep_dims (keep sizes) strides) = length (keep_dims (keep sizes) sizes)" if "length strides = length sizes" using that by (rule keep_dims_length)
  assume "\<forall>d < length sizes. \<not> keep sizes d \<longrightarrow> sizes ! d = 1" and b: "in_bounds (keep_dims (keep sizes) sizes) idx"
  then show "in_bounds sizes (fill (keep sizes) sizes idx)" by (rule fill_in_bounds)
  assume "length strides = length sizes"
  then show "0 + element_offset (keep_dims (keep sizes) strides) idx = element_offset strides (fill (keep sizes) sizes idx)"
    using fill_offset in_bounds_length [OF b] by simp
qed

text \<open>The two dimensions of \<open>transpose\<close>.\<close>

lemma swap_permutes:
  assumes "i < n" "j < n"
  shows "distinct (swap i j [0..<n])" "set (swap i j [0..<n]) = {..<n}" "length xs = n \<Longrightarrow> map ((!) xs) (swap i j [0..<n]) = swap i j xs"
proof -
  show "distinct (swap i j [0..<n])" unfolding swap_def by (subst distinct_swap) (use assms in simp_all)
  have "set (swap i j [0..<n]) = set [0..<n]" unfolding swap_def by (rule set_swap) (use assms in simp_all)
  then show "set (swap i j [0..<n]) = {..<n}" by (simp add: atLeast0LessThan)
  show "map ((!) xs) (swap i j [0..<n]) = swap i j xs" if "length xs = n"
    using assms that by (auto simp: swap_def map_update map_nth)
qed

text \<open>Windows: dimension \<open>d\<close> of the view is the number of the window, the last one the place in it.\<close>

lemma window_bound:
  fixes i k n sz step :: int
  assumes "0 \<le> i" "i < (n - sz) div step + 1" "0 \<le> k" "k < sz" "0 < step"
  shows "0 \<le> i * step + k" "i * step + k < n"
proof -
  have "i * step \<le> (n - sz) div step * step" using assms by (intro mult_right_mono) auto
  also have "\<dots> \<le> n - sz" using div_mult_mod_eq [of "n - sz" step] pos_mod_sign [OF assms(5), of "n - sz"] by linarith
  finally show "i * step + k < n" using assms by linarith
  show "0 \<le> i * step + k" using assms by simp
qed

interpretation unfold_view: view_geometry "\<lambda>sizes. d < length sizes \<and> 0 < step" "\<lambda>sizes. (sizes @ [sz])[d := (sizes ! d - sz) div step + 1]"
  "\<lambda>_ strides. (strides @ [strides ! d])[d := strides ! d * step]" "\<lambda>_ _. 0" "\<lambda>_ idx. (butlast idx)[d := idx ! d * step + last idx]" for d sz step
proof
  fix sizes strides idx :: "int list" assume v: "d < length sizes \<and> 0 < step"
  then obtain a n b where s: "sizes = a @ n # b" "length a = d" "sizes ! d = n" using split_at [of d sizes] by blast
  let ?m = "(n - sz) div step + 1"
  show "length ((strides @ [strides ! d])[d := strides ! d * step]) = length ((sizes @ [sz])[d := (sizes ! d - sz) div step + 1])"
    if "length strides = length sizes" using that by simp
  assume "in_bounds ((sizes @ [sz])[d := (sizes ! d - sz) div step + 1]) idx"
  then have b: "in_bounds (a @ ?m # b @ [sz]) idx" using s by (simp add: list_update_append nth_append)
  obtain ia i ik where i: "idx = ia @ i # ik" "length ia = length a" "length ik = length (b @ [sz])"
    using split_same [OF in_bounds_length [OF b] refl] by blast
  obtain ib k where k: "ik = ib @ [k]" "length ib = length b" using i(3) by (cases ik rule: rev_cases) auto
  have bi: "in_bounds a ia" "0 \<le> i" "i < ?m" "in_bounds b ib" "0 \<le> k" "k < sz"
    using b i k in_bounds_append [of a ia "?m # b @ [sz]" "i # ib @ [k]"] in_bounds_append [of b ib "[sz]" "[k]"] by auto
  have src: "(butlast idx)[d := idx ! d * step + last idx] = ia @ (i * step + k) # ib"
    using i k s(2) by (simp add: butlast_append list_update_append nth_append)
  show "in_bounds sizes ((butlast idx)[d := idx ! d * step + last idx])"
    unfolding src using s(1) i(2) bi window_bound [OF bi(2,3,5,6)] v by (simp add: in_bounds_append)
  assume "length strides = length sizes"
  then obtain a' s' b' where st: "strides = a' @ s' # b'" "length a' = length a" "length b' = length b" "strides ! length a = s'" using s(1) by (rule split_same)
  have "(strides @ [strides ! d])[d := strides ! d * step] = a' @ (s' * step) # b' @ [s']" using st s(2) by (simp add: list_update_append nth_append)
  then show "0 + element_offset ((strides @ [strides ! d])[d := strides ! d * step]) idx = element_offset strides ((butlast idx)[d := idx ! d * step + last idx])"
    unfolding src using i k st by (simp add: offset_append algebra_simps)
qed

text \<open>A diagonal of two dimensions, which begins at \<open>o1\<close> in the first and \<open>o2\<close> in the second one.\<close>

interpretation diagonal_view: view_geometry "\<lambda>sizes. lo < hi \<and> hi < length sizes \<and> 0 \<le> o1 \<and> 0 \<le> o2 \<and> m \<le> sizes ! lo - o1 \<and> m \<le> sizes ! hi - o2"
  "\<lambda>sizes. erase lo (erase hi sizes) @ [m]" "\<lambda>_ strides. erase lo (erase hi strides) @ [strides ! lo + strides ! hi]"
  "\<lambda>_ strides. o1 * strides ! lo + o2 * strides ! hi" "\<lambda>_ idx. insert_at hi (last idx + o2) (insert_at lo (last idx + o1) (butlast idx))" for lo hi o1 o2 m
proof
  fix sizes strides idx :: "int list" assume v: "lo < hi \<and> hi < length sizes \<and> 0 \<le> o1 \<and> 0 \<le> o2 \<and> m \<le> sizes ! lo - o1 \<and> m \<le> sizes ! hi - o2"
  obtain ab n2 c where s2: "sizes = ab @ n2 # c" "length ab = hi" "sizes ! hi = n2" using split_at [of hi sizes] v by blast
  have "lo < length ab" using v s2(2) by simp
  then obtain a n1 b where s1: "ab = a @ n1 # b" "length a = lo" "ab ! lo = n1" by (rule split_at)
  have n1: "sizes ! lo = n1" using s1(1,2) s2(1) by (simp add: nth_append)
  have hi: "hi = Suc (length a + length b)" using s1 s2(2) by simp
  show "length (erase lo (erase hi strides) @ [strides ! lo + strides ! hi]) = length (erase lo (erase hi sizes) @ [m])"
    if "length strides = length sizes" using that by (simp add: erase_def)
  have e: "erase lo (erase hi (x @ p # y @ q # z)) = x @ y @ z" if "length x = length a" "length y = length b" for x y z :: "int list" and p q
  proof -
    have "erase hi ((x @ p # y) @ q # z) = (x @ p # y) @ z" using that hi by (intro erase_append) simp
    then show ?thesis using that s1(2) by simp
  qed
  assume "in_bounds (erase lo (erase hi sizes) @ [m]) idx"
  then have bd: "in_bounds ((a @ b @ c) @ [m]) idx" using e [of a b n1 n2 c] s1(1) s2(1) by simp
  obtain r k where r: "idx = r @ [k]" "length r = length (a @ b @ c)" using in_bounds_length [OF bd] by (cases idx rule: rev_cases) auto
  obtain ia bc where ia: "r = ia @ bc" "length ia = length a" "length bc = length (b @ c)" by (rule split_index [OF r(2)])
  obtain ib ic where ib: "bc = ib @ ic" "length ib = length b" "length ic = length c" by (rule split_index [OF ia(3)])
  have bi: "in_bounds a ia" "in_bounds b ib" "in_bounds c ic" "0 \<le> k" "k < m"
    using bd r ia ib in_bounds_append [of "a @ b @ c" r "[m]" "[k]"] in_bounds_append [of a ia "b @ c" "ib @ ic"] in_bounds_append [of b ib c ic] by auto
  have "insert_at lo (k + o1) r = (ia @ (k + o1) # ib) @ ic" using ia ib s1(2) by simp
  then have "insert_at hi (k + o2) (insert_at lo (k + o1) r) = (ia @ (k + o1) # ib) @ (k + o2) # ic"
    using ia(2) ib(2) hi by (simp only:) (rule insert_at_append, simp)
  then have src: "insert_at hi (last idx + o2) (insert_at lo (last idx + o1) (butlast idx)) = ia @ (k + o1) # ib @ (k + o2) # ic" using r(1) by simp
  have sz: "sizes = a @ n1 # b @ n2 # c" using s1(1) s2(1) by simp
  show "in_bounds sizes (insert_at hi (last idx + o2) (insert_at lo (last idx + o1) (butlast idx)))"
    unfolding src sz using ia(2) ib(2) bi v n1 s2(3) by (simp add: in_bounds_append)
  assume l: "length strides = length sizes"
  obtain ab' q c' where t2: "strides = ab' @ q # c'" "length ab' = length ab" "length c' = length c" "strides ! length ab = q" using l s2(1) by (rule split_same)
  obtain a' p b' where t1: "ab' = a' @ p # b'" "length a' = length a" "length b' = length b" "ab' ! length a = p" using t2(2) s1(1) by (rule split_same)
  have st: "strides = a' @ p # b' @ q # c'" using t1(1) t2(1) by simp
  have "strides ! lo = p" "strides ! hi = q" using t2(2,4) t1(2) st s1(2) s2(2) by auto
  moreover have "erase lo (erase hi strides) = a' @ b' @ c'" unfolding st using e [OF t1(2,3)] .
  ultimately show "o1 * strides ! lo + o2 * strides ! hi + element_offset (erase lo (erase hi strides) @ [strides ! lo + strides ! hi]) idx =
      element_offset strides (insert_at hi (last idx + o2) (insert_at lo (last idx + o1) (butlast idx)))"
    unfolding src st using r(1) ia ib t1(2,3) t2(3) by (simp add: offset_append algebra_simps)
qed

end
