(* ===== verification/ViewSafety.thy ===== *)
theory ViewSafety
  imports StridedViews
begin

text \<open>
  Every view operation of theory \<open>StridedTensors\<close> gives a view: the tensor that it returns lies within the storage, and each of its
  elements is an element of the tensor that it was applied to. The geometry of each operation is an instance of the locale
  \<open>view_geometry\<close>; \<open>expand\<close> and \<open>view\<close> are treated directly.
\<close>

section \<open>One operation\<close>

definition geometry_representable :: "strided_tensor \<Rightarrow> bool" where
  "geometry_representable t \<longleftrightarrow> representable (t_sizes t) (t_strides t) (t_offset t)"

definition view_of :: "strided_tensor \<Rightarrow> strided_tensor \<Rightarrow> bool" where
  "view_of t t' \<longleftrightarrow> t_itemsize t' = t_itemsize t \<and> t_nbytes t' = t_nbytes t \<and>
     (\<forall>idx. in_bounds (t_sizes t') idx \<longrightarrow> (\<exists>idx'. in_bounds (t_sizes t) idx' \<and> location t' idx = location t idx'))"

definition safe_view :: "strided_tensor \<Rightarrow> strided_tensor \<Rightarrow> bool" where
  "safe_view t t' \<longleftrightarrow> (geometry_representable t' \<longrightarrow> tensor_ok t' \<and> view_of t t')"

lemma view_by_of: "view_by source t t' \<Longrightarrow> view_of t t'"
  by (auto simp: view_by_def view_of_def)

lemma view_of_refl: "view_of t t"
  by (auto simp: view_of_def)

lemma view_of_trans: "view_of t t' \<Longrightarrow> view_of t' t'' \<Longrightarrow> view_of t t''"
  unfolding view_of_def by metis

lemma safe_viewI: "(geometry_representable t' \<Longrightarrow> tensor_ok t' \<and> view_by source t t') \<Longrightarrow> safe_view t t'"
  using view_by_of by (auto simp: safe_view_def)

lemma tensor_ok_lengths: "tensor_ok t \<Longrightarrow> length (t_strides t) = length (t_sizes t)"
  by (simp add: tensor_ok_def)

lemma tensor_ok_nonnegative: "tensor_ok t \<Longrightarrow> nonnegative (t_sizes t)" "tensor_ok t \<Longrightarrow> nonnegative (t_strides t)"
  using int64_nonnegative by (auto simp: tensor_ok_def representable_def)

lemma tensor_ok_element:
  assumes "tensor_ok t" "in_bounds (t_sizes t) idx"
  shows "0 \<le> location t idx \<and> (location t idx + 1) * t_itemsize t \<le> t_nbytes t"
proof -
  have ok: "0 < t_itemsize t" "0 \<le> t_offset t" "within_storage (t_sizes t) (t_strides t) (t_offset t) (t_itemsize t) (t_nbytes t)"
    using assms(1) by (auto simp: tensor_ok_def representable_def)
  note e = offset_within_extent [OF assms(2) tensor_ok_nonnegative(2) [OF assms(1)]]
  have "(location t idx + 1) * t_itemsize t \<le> (t_offset t + 1 + extent (t_sizes t) (t_strides t)) * t_itemsize t"
    using e ok(1) by (intro mult_right_mono) (auto simp: location_def)
  also have "\<dots> \<le> t_nbytes t" using ok(3) in_bounds_not_zero [OF assms(2)] by (simp add: within_storage_def)
  finally show ?thesis using e ok(2) by (simp add: location_def)
qed

lemma safe_view_refl: "tensor_ok t \<Longrightarrow> safe_view t t"
  by (simp add: safe_view_def view_of_refl)

lemma as_strided_is_safe:
  assumes "as_strided t sizes strides (Some off) = Inr t'" "tensor_ok t" "length strides = length sizes"
    "\<forall>idx. in_bounds sizes idx \<longrightarrow> in_bounds (t_sizes t) (source idx) \<and> off + element_offset strides idx = location t (source idx)"
  shows "safe_view t t'"
proof (rule safe_viewI)
  assume "geometry_representable t'"
  then have r: "representable sizes strides off" using as_strided_Inr [OF assms(1)] by (simp add: geometry_representable_def)
  obtain t'' where "as_strided t sizes strides (Some off) = Inr t''" "tensor_ok t''" "view_by source t t''" "t_sizes t'' = sizes"
    by (rule as_strided_view [OF assms(2,3) r assms(4)])
  then show "tensor_ok t' \<and> view_by source t t'" using assms(1) by simp
qed

context view_geometry
begin

lemma as_strided_safe:
  assumes "as_strided t (new_sizes (t_sizes t)) (new_strides (t_sizes t) (t_strides t)) (Some (t_offset t + shift (t_sizes t) (t_strides t))) = Inr t'"
    "tensor_ok t" "valid (t_sizes t)"
  shows "safe_view t t'"
  by (rule safe_viewI [where source = "source (t_sizes t)"]) (use accepted_is_view [OF assms] in \<open>simp add: geometry_representable_def\<close>)

end

lemma wrapped_dim:
  assumes "maybe_wrap_dim dm (t_dim t) True = Inr d" "t_dim t \<noteq> 0"
  shows "0 \<le> d" "nat d < length (t_sizes t)" "d < t_dim t"
  using maybe_wrap_dim_Inr [OF _ assms(1)] assms(2) by (auto simp: t_dim_def wrap_rank_def)

lemma select_safe:
  assumes "select t dm ix = Inr t'" "tensor_ok t"
  shows "safe_view t t'"
proof -
  obtain d where d: "t_dim t \<noteq> 0" "maybe_wrap_dim dm (t_dim t) True = Inr d" and n: "- t_sizes t ! nat d \<le> ix" "ix < t_sizes t ! nat d"
    and r: "as_strided t (erase (nat d) (t_sizes t)) (erase (nat d) (t_strides t))
      (Some (t_offset t + (if ix < 0 then ix + t_sizes t ! nat d else ix) * t_strides t ! nat d)) = Inr t'"
    using assms(1) by (auto simp: select_def bindE_Inr_iff Let_def split: if_splits)
  show ?thesis using select_view.as_strided_safe [OF r assms(2)] wrapped_dim [OF d(2,1)] n by simp
qed

lemma slice_Inr:
  assumes "slice t dm start_opt end_opt step = Inr t'" "tensor_ok t"
  obtains d start len where "t_dim t \<noteq> 0" "maybe_wrap_dim dm (t_dim t) True = Inr d" "0 < step" "0 \<le> start" "0 \<le> len" "start + len \<le> t_sizes t ! nat d"
    "as_strided t ((t_sizes t)[nat d := (len + step - 1) div step]) ((t_strides t)[nat d := t_strides t ! nat d * step])
       (Some (t_offset t + start * t_strides t ! nat d)) = Inr t'"
proof -
  have d0: "t_dim t \<noteq> 0"
  proof
    assume "t_dim t = 0"
    then show False using assms(1) by (simp add: slice_def)
  qed
  have "maybe_wrap_dim dm (t_dim t) True \<noteq> Inl e" for e
  proof
    assume "maybe_wrap_dim dm (t_dim t) True = Inl e"
    then show False using assms(1) d0 by (simp only: slice_def if_False bindE_simps sum.distinct)
  qed
  then obtain d where d1: "maybe_wrap_dim dm (t_dim t) True = Inr d" by (cases "maybe_wrap_dim dm (t_dim t) True") blast+
  have d2: "0 < step"
  proof (rule ccontr)
    assume "\<not> 0 < step"
    then show False using assms(1) d0 d1 by (simp add: slice_def)
  qed
  note d = d0 d1 d2
  let ?n = "t_sizes t ! nat d"
  define s where "s = (case start_opt of Some v \<Rightarrow> v | None \<Rightarrow> 0)"
  define e where "e = (case end_opt of Some v \<Rightarrow> v | None \<Rightarrow> INT64_MAX)"
  define s0 where "s0 = (if s < 0 then s + ?n else s)"
  define e0 where "e0 = (if e < 0 then e + ?n else e)"
  define s1 where "s1 = (if s0 < 0 then 0 else if s0 \<ge> ?n then ?n else s0)"
  define e1 where "e1 = (if e0 < s1 then s1 else if e0 \<ge> ?n then ?n else e0)"
  have "nat d < length (t_sizes t)" using wrapped_dim [OF d(2,1)] by simp
  then have n: "0 \<le> ?n" using tensor_ok_nonnegative(1) [OF assms(2)] by (simp add: nonnegative_def)
  have r: "as_strided t ((t_sizes t)[nat d := (e1 - s1 + step - 1) div step]) ((t_strides t)[nat d := t_strides t ! nat d * step])
       (Some (t_offset t + s1 * t_strides t ! nat d)) = Inr t'"
    using assms(1) d unfolding e1_def s1_def e0_def s0_def e_def s_def by (simp only: slice_def Let_def bindE_simps check_def if_True if_False simp_thms)
  have "0 \<le> s1" "s1 \<le> e1" "e1 \<le> ?n" using n unfolding e1_def s1_def by simp_all
  then show thesis by (intro that [OF d _ _ _ r]) simp_all
qed

lemma slice_safe:
  assumes "slice t dm start_opt end_opt step = Inr t'" "tensor_ok t"
  shows "safe_view t t'"
proof -
  obtain d start len where s: "t_dim t \<noteq> 0" "maybe_wrap_dim dm (t_dim t) True = Inr d" "0 < step" "0 \<le> start" "start + len \<le> t_sizes t ! nat d"
    "as_strided t ((t_sizes t)[nat d := (len + step - 1) div step]) ((t_strides t)[nat d := t_strides t ! nat d * step])
       (Some (t_offset t + start * t_strides t ! nat d)) = Inr t'" by (rule slice_Inr [OF assms])
  show ?thesis using slice_view.as_strided_safe [OF s(6) assms(2)] wrapped_dim [OF s(2,1)] s(3-5) by simp
qed

lemma narrow_safe: "narrow t dm start len = Inr t' \<Longrightarrow> tensor_ok t \<Longrightarrow> safe_view t t'"
  using slice_safe by (auto simp: narrow_def bindE_Inr_iff Let_def)

lemma unsqueeze_safe:
  assumes "unsqueeze t dm = Inr t'" "tensor_ok t"
  shows "safe_view t t'"
proof -
  let ?x = "\<lambda>d (sizes :: int list) strides. if d \<ge> length sizes then 1 else sizes ! d * strides ! d"
  obtain d where d: "maybe_wrap_dim dm (t_dim t + 1) True = Inr d"
    and r: "as_strided t (insert_at (nat d) 1 (t_sizes t)) (insert_at (nat d) (if d \<ge> t_dim t then 1 else t_sizes t ! nat d * t_strides t ! nat d) (t_strides t)) None = Inr t'"
    using assms(1) by (auto simp: unsqueeze_def bindE_Inr_iff Let_def)
  have v: "0 \<le> d" "nat d \<le> length (t_sizes t)" using maybe_wrap_dim_Inr [OF _ d] by (auto simp: t_dim_def wrap_rank_def split: if_splits)
  have "d \<ge> t_dim t \<longleftrightarrow> nat d \<ge> length (t_sizes t)" using v(1) by (auto simp: t_dim_def)
  then show ?thesis using unsqueeze_view.as_strided_safe [of t "nat d" "?x (nat d)" t'] r v(2) assms(2) by (simp add: as_strided_default)
qed

text \<open>The three operations that drop dimensions of size 1.\<close>

lemma keep_safe:
  assumes "as_strided t (keep_dims keep (t_sizes t)) (keep_dims keep (t_strides t)) None = Inr t'" "tensor_ok t"
    "\<forall>d < length (t_sizes t). \<not> keep d \<longrightarrow> t_sizes t ! d = 1"
  shows "safe_view t t'"
  using squeeze_view.as_strided_safe [of t "\<lambda>_. keep" t'] assms by (simp add: as_strided_default)

lemma as_strided_same:
  assumes "as_strided t (t_sizes t) (t_strides t) None = Inr t'" "tensor_ok t"
  shows "safe_view t t'"
proof -
  have "keep_dims (\<lambda>_. True) xs = xs" for xs :: "int list" by (induction xs) simp_all
  then show ?thesis using keep_safe [of t "\<lambda>_. True" t'] assms by simp
qed

lemma squeeze_safe: "squeeze t = Inr t' \<Longrightarrow> tensor_ok t \<Longrightarrow> safe_view t t'"
  using keep_safe [of t "\<lambda>d. t_sizes t ! d \<noteq> 1" t'] by (simp add: squeeze_def Let_def)

lemma squeeze_dim_safe: "squeeze_dim t dm = Inr t' \<Longrightarrow> tensor_ok t \<Longrightarrow> safe_view t t'"
  using as_strided_same keep_safe by (auto simp: squeeze_dim_def bindE_Inr_iff Let_def split: if_splits)

lemma squeeze_dims_safe: "squeeze_dims t dims = Inr t' \<Longrightarrow> tensor_ok t \<Longrightarrow> safe_view t t'"
  using keep_safe by (auto simp: squeeze_dims_def bindE_Inr_iff Let_def)

text \<open>The operations that put the dimensions in another order.\<close>

lemma permuted_safe:
  assumes "as_strided t (map ((!) (t_sizes t)) p) (map ((!) (t_strides t)) p) None = Inr t'" "tensor_ok t" "distinct p" "set p = {..<length (t_sizes t)}"
  shows "safe_view t t'"
  using permute_view.as_strided_safe [of t p t'] assms by (simp add: as_strided_default)

lemma transpose_safe:
  assumes "transpose t dim0 dim1 = Inr t'" "tensor_ok t"
  shows "safe_view t t'"
proof -
  obtain d0 d1 where d: "maybe_wrap_dim dim0 (t_dim t) True = Inr d0" "maybe_wrap_dim dim1 (t_dim t) True = Inr d1"
    and r: "if d0 = d1 then t' = t else as_strided t (swap (nat d0) (nat d1) (t_sizes t)) (swap (nat d0) (nat d1) (t_strides t)) None = Inr t'"
    using assms(1) by (auto simp: transpose_def bindE_Inr_iff alias_with_sizes_and_strides_def split: if_splits)
  show ?thesis
  proof (cases "d0 = d1")
    case True
    then show ?thesis using r assms(2) by (simp add: safe_view_refl)
  next
    case False
    have "t_dim t \<noteq> 0"
    proof
      assume "t_dim t = 0"
      then show False using maybe_wrap_dim_Inr [OF _ d(1)] maybe_wrap_dim_Inr [OF _ d(2)] False by (simp add: wrap_rank_def)
    qed
    then have b: "nat d0 < length (t_sizes t)" "nat d1 < length (t_sizes t)" using wrapped_dim [OF d(1)] wrapped_dim [OF d(2)] by auto
    show ?thesis
      by (rule permuted_safe [OF _ assms(2) swap_permutes(1,2) [OF b]]) (use r False swap_permutes(3) [OF b, of "t_sizes t"] swap_permutes(3) [OF b, of "t_strides t"] tensor_ok_lengths [OF assms(2)] in simp)
  qed
qed

lemma permute_loop:
  assumes "foldE (permute_step t) (seen, ns, nst) dims = Inr (seen', ns', nst')" "length seen = length (t_sizes t)" "t_dim t \<noteq> 0"
  shows "\<exists>p. length p = length dims \<and> distinct p \<and> (\<forall>d \<in> set p. d < length (t_sizes t) \<and> \<not> seen ! d) \<and>
    ns' = ns @ map ((!) (t_sizes t)) p \<and> nst' = nst @ map ((!) (t_strides t)) p"
  using assms
proof (induction dims arbitrary: seen ns nst)
  case (Cons dm dims)
  obtain d where d: "maybe_wrap_dim dm (t_dim t) True = Inr d" "\<not> seen ! nat d"
    "foldE (permute_step t) (seen[nat d := True], ns @ [t_sizes t ! nat d], nst @ [t_strides t ! nat d]) dims = Inr (seen', ns', nst')"
    using Cons.prems(1) by (auto simp: permute_step_def [of t "(seen, ns, nst)"] bindE_Inr_iff)
  have b: "nat d < length (t_sizes t)" using wrapped_dim [OF d(1) Cons.prems(3)] by simp
  obtain p where p: "length p = length dims" "distinct p" "\<forall>k \<in> set p. k < length (t_sizes t) \<and> \<not> seen[nat d := True] ! k"
    "ns' = (ns @ [t_sizes t ! nat d]) @ map ((!) (t_sizes t)) p" "nst' = (nst @ [t_strides t ! nat d]) @ map ((!) (t_strides t)) p"
    using Cons.IH [OF d(3)] Cons.prems(2,3) by auto
  have "nat d \<notin> set p" using p(3) b Cons.prems(2) by auto
  moreover have "\<forall>k \<in> set p. k < length (t_sizes t) \<and> \<not> seen ! k" using p(3) b Cons.prems(2) by (auto simp: nth_list_update split: if_splits)
  ultimately show ?case using p d(2) b by (intro exI [of _ "nat d # p"]) auto
qed auto

lemma permute_safe:
  assumes "permute t dims = Inr t'" "tensor_ok t"
  shows "safe_view t t'"
proof -
  obtain seen ns nst where r: "t_dim t = int (length dims)" "foldE (permute_step t) (replicate (length (t_sizes t)) False, [], []) dims = Inr (seen, ns, nst)"
    "as_strided t ns nst None = Inr t'" using assms(1) by (auto simp: permute_def bindE_Inr_iff)
  have "\<exists>p. length p = length dims \<and> distinct p \<and> (\<forall>d \<in> set p. d < length (t_sizes t)) \<and> ns = map ((!) (t_sizes t)) p \<and> nst = map ((!) (t_strides t)) p"
  proof (cases "t_dim t = 0")
    case True
    then show ?thesis using r by (auto intro: exI [of _ "[]"])
  next
    case False
    then show ?thesis using permute_loop [OF r(2)] by auto
  qed
  then obtain p where p: "length p = length dims" "distinct p" "set p \<subseteq> {..<length (t_sizes t)}" "ns = map ((!) (t_sizes t)) p" "nst = map ((!) (t_strides t)) p" by auto
  have "card (set p) = length (t_sizes t)" using distinct_card [OF p(2)] p(1) r(1) by (simp add: t_dim_def)
  then have "set p = {..<length (t_sizes t)}" using p(3) by (intro card_subset_eq) auto
  then show ?thesis using permuted_safe [OF _ assms(2) p(2)] r(3) p(4,5) by simp
qed

lemma t_transpose_safe: "t_transpose t = Inr t' \<Longrightarrow> tensor_ok t \<Longrightarrow> safe_view t t'"
  using transpose_safe by (auto simp: t_transpose_def bindE_Inr_iff)

lemma numpy_T_safe: "numpy_T t = Inr t' \<Longrightarrow> tensor_ok t \<Longrightarrow> safe_view t t'"
  using permute_safe by (auto simp: numpy_T_def)

text \<open>Windows and diagonals.\<close>

lemma unfold_safe:
  assumes "unfold t dm sz step = Inr t'" "tensor_ok t"
  shows "safe_view t t'"
proof -
  obtain d where d: "maybe_wrap_dim dm (t_dim t) True = Inr d" "0 < step" "0 \<le> sz" "sz \<le> (if t_dim t = 0 then 1 else t_sizes t ! nat d)"
    and r: "let sizes = t_sizes t @ [sz]; strides' = t_strides t @ [if t_dim t = 0 then 1 else t_strides t ! nat d] in
      (if d < t_dim t then as_strided t (sizes[nat d := (sizes ! nat d - sz) div step + 1]) (strides'[nat d := strides' ! nat d * step]) None
       else as_strided t sizes strides' None) = Inr t'"
    using assms(1) by (auto simp: unfold_def bindE_Inr_iff Let_def)
  note len = tensor_ok_lengths [OF assms(2)]
  show ?thesis
  proof (cases "t_dim t = 0")
    case True
    then have e: "t_sizes t = []" "t_strides t = []" "0 \<le> d" using len maybe_wrap_dim_Inr(1) [OF _ d(1)] by (auto simp: t_dim_def)
    then have a: "as_strided t [sz] [1] (Some (t_offset t)) = Inr t'" using r True by (simp add: as_strided_default)
    have "\<forall>idx. in_bounds [sz] idx \<longrightarrow> in_bounds (t_sizes t) [] \<and> t_offset t + element_offset [1] idx = location t []"
    proof (intro allI impI)
      fix idx assume b: "in_bounds [sz] idx"
      then obtain i where i: "idx = [i]" using in_bounds_length [OF b] by (auto simp: length_Suc_conv)
      then have "i = 0" using b d(4) True by simp
      then show "in_bounds (t_sizes t) [] \<and> t_offset t + element_offset [1] idx = location t []" using e i by (simp add: location_def)
    qed
    then show ?thesis using e by (intro as_strided_is_safe [OF a assms(2)]) auto
  next
    case False
    note w = wrapped_dim [OF d(1) False]
    then have "as_strided t ((t_sizes t @ [sz])[nat d := (t_sizes t ! nat d - sz) div step + 1])
        ((t_strides t @ [t_strides t ! nat d])[nat d := t_strides t ! nat d * step]) (Some (t_offset t + 0)) = Inr t'"
      using r False len by (simp add: Let_def nth_append as_strided_default)
    then show ?thesis using unfold_view.as_strided_safe [where t = t and d = "nat d" and sz = sz and step = step and t' = t'] assms(2) w(2) d(2) by simp
  qed
qed

lemma diagonal_safe:
  assumes "diagonal t off dim1 dim2 = Inr t'" "tensor_ok t"
  shows "safe_view t t'"
proof -
  obtain d1 d2 where d: "maybe_wrap_dim dim1 (t_dim t) True = Inr d1" "maybe_wrap_dim dim2 (t_dim t) True = Inr d2" "d1 \<noteq> d2"
    and r: "let d1 = nat d1; d2 = nat d2; sizes = t_sizes t; strides = t_strides t;
           diag_size = (if off \<ge> 0 then max (min (sizes ! d1) (sizes ! d2 - off)) 0 else max (min (sizes ! d1 + off) (sizes ! d2)) 0);
           storage_offset = (if diag_size = 0 then t_offset t
             else if off \<ge> 0 then t_offset t + off * strides ! d2 else t_offset t - off * strides ! d1);
           drop_both = (\<lambda>xs. erase (min d1 d2) (erase (max d1 d2) xs))
       in as_strided t (drop_both sizes @ [diag_size]) (drop_both strides @ [strides ! d1 + strides ! d2]) (Some storage_offset) = Inr t'"
    using assms(1) unfolding diagonal_def bindE_Inr_iff check_Inr_iff by (auto simp only: Let_def)
  have "t_dim t \<noteq> 0"
  proof
    assume "t_dim t = 0"
    then show False using maybe_wrap_dim_Inr [OF _ d(1)] maybe_wrap_dim_Inr [OF _ d(2)] d(3) by (simp add: wrap_rank_def)
  qed
  then have b: "nat d1 < length (t_sizes t)" "nat d2 < length (t_sizes t)" "nat d1 \<noteq> nat d2"
    using wrapped_dim [OF d(1)] wrapped_dim [OF d(2)] d(3) by auto
  let ?n1 = "t_sizes t ! nat d1" and ?n2 = "t_sizes t ! nat d2" and ?s1 = "t_strides t ! nat d1" and ?s2 = "t_strides t ! nat d2"
  have n: "0 \<le> ?n1" "0 \<le> ?n2" using tensor_ok_nonnegative(1) [OF assms(2)] b by (simp_all add: nonnegative_def)
  define m where "m = (if off \<ge> 0 then max (min ?n1 (?n2 - off)) 0 else max (min (?n1 + off) ?n2) 0)"
  define o1 where "o1 = (if m = 0 \<or> off \<ge> 0 then 0 else - off)"
  define o2 where "o2 = (if m = 0 \<or> \<not> off \<ge> 0 then 0 else off)"
  have o: "0 \<le> o1" "0 \<le> o2" "m \<le> ?n1 - o1" "m \<le> ?n2 - o2" using n by (auto simp: m_def o1_def o2_def min_def max_def split: if_splits)
  have shift: "(if m = 0 then t_offset t else if off \<ge> 0 then t_offset t + off * ?s2 else t_offset t - off * ?s1) = t_offset t + (o1 * ?s1 + o2 * ?s2)"
    by (auto simp: o1_def o2_def)
  have a: "as_strided t (erase (min (nat d1) (nat d2)) (erase (max (nat d1) (nat d2)) (t_sizes t)) @ [m])
      (erase (min (nat d1) (nat d2)) (erase (max (nat d1) (nat d2)) (t_strides t)) @ [?s1 + ?s2]) (Some (t_offset t + (o1 * ?s1 + o2 * ?s2))) = Inr t'"
    using r unfolding Let_def m_def [symmetric] shift .
  show ?thesis
  proof (cases "nat d1 < nat d2")
    case True
    then have "min (nat d1) (nat d2) = nat d1" "max (nat d1) (nat d2) = nat d2" by auto
    then show ?thesis
      using diagonal_view.as_strided_safe [where t = t and lo = "nat d1" and hi = "nat d2" and m = m and ?o1.0 = o1 and ?o2.0 = o2 and t' = t'] True a assms(2) b o
      by simp
  next
    case False
    then have "min (nat d1) (nat d2) = nat d2" "max (nat d1) (nat d2) = nat d1" "nat d2 < nat d1" using b(3) by auto
    then show ?thesis
      using diagonal_view.as_strided_safe [where t = t and lo = "nat d2" and hi = "nat d1" and m = m and ?o1.0 = o2 and ?o2.0 = o1 and t' = t'] a assms(2) b o
      by (simp add: add.commute)
  qed
qed

text \<open>A view with another shape: the positions in row-major order stay.\<close>

lemma reshaped_safe:
  assumes "tensor_ok t" "nonnegative shape" "multiply_integers shape = t_numel t" "computeStride (t_sizes t) (t_strides t) shape = Some stride"
  shows "safe_view t (alias_with_sizes_and_strides t shape stride)" (is "safe_view t ?t'")
proof -
  note ok = tensor_ok_lengths [OF assms(1)] tensor_ok_nonnegative(1) [OF assms(1)]
  note c = computeStride_sound [OF ok assms(2) _ assms(4)]
  have numel: "multiply_integers shape = multiply_integers (t_sizes t)" using assms(3) by (simp add: t_numel_def)
  have view: "\<exists>idx'. in_bounds (t_sizes t) idx' \<and> t_offset t + element_offset stride idx = location t idx'" if b: "in_bounds shape idx" for idx
  proof -
    let ?i = "position shape idx"
    have i: "0 \<le> ?i" "?i < multiply_integers (t_sizes t)" using position_range [OF b] numel by auto
    obtain idx' where s: "in_bounds (t_sizes t) idx'" "position (t_sizes t) idx' = ?i" by (rule position_surj [OF ok(2) i])
    have "element_offset stride idx = address shape stride ?i" using offset_of_index [OF b] c(1) numel by simp
    also have "\<dots> = address (t_sizes t) (t_strides t) ?i" using c(2) numel i by simp
    also have "\<dots> = element_offset (t_strides t) idx'" using offset_of_index [OF s(1) ok(1)] s(2) by simp
    finally show ?thesis using s(1) by (auto simp: location_def)
  qed
  have "tensor_ok ?t'" if "geometry_representable ?t'"
    using assms(1) that c(1) numel within_storage_view [OF assms(1) _ assms(2), of stride "t_offset t"] view
    by (simp add: tensor_ok_def geometry_representable_def alias_with_sizes_and_strides_def)
  moreover have "view_of t ?t'" using view by (simp add: view_of_def alias_with_sizes_and_strides_def location_def)
  ultimately show ?thesis by (simp add: safe_view_def)
qed

lemma numel_nonneg: "tensor_ok t \<Longrightarrow> 0 \<le> t_numel t"
  using nonnegative_numel tensor_ok_nonnegative(1) by (simp add: t_numel_def)

lemma view_impl_safe:
  assumes "view_impl t sizes = Inr t'" "tensor_ok t"
  shows "safe_view t t'"
proof -
  obtain shape stride where s: "infer_view_size sizes (t_numel t) = Inr shape" "computeStride (t_sizes t) (t_strides t) shape = Some stride"
    "t' = alias_with_sizes_and_strides t shape stride" using assms(1) by (auto simp: view_impl_def bindE_Inr_iff split: option.splits)
  show ?thesis unfolding s(3) using infer_view_size_Inr [OF numel_nonneg [OF assms(2)] s(1)] s(2) by (intro reshaped_safe [OF assms(2)]) auto
qed

lemma unflatten_safe: "unflatten t dm sizes = Inr t' \<Longrightarrow> tensor_ok t \<Longrightarrow> safe_view t t'"
  using view_impl_safe by (auto simp: unflatten_def bindE_Inr_iff)

section \<open>Expanding\<close>

text \<open>Dimension \<open>k\<close> from the end of an expanded tensor: the one of the tensor, or an element that is repeated.\<close>

definition expanded_dim :: "int list \<Rightarrow> int list \<Rightarrow> int \<Rightarrow> int \<Rightarrow> nat \<Rightarrow> bool" where
  "expanded_dim sizes strides n s k \<longleftrightarrow>
     (if k < length sizes then (n = from_end sizes k \<and> s = from_end strides k) \<or> (from_end sizes k = 1 \<and> s = 0) else n = 1 \<or> s = 0)"

lemma from_end_Cons: "from_end (x # xs) k = (if k = length xs then x else from_end xs k)" if "k \<le> length xs"
proof (cases "k = length xs")
  case False
  then have "length xs - k = Suc (length xs - 1 - k)" using that by simp
  then show ?thesis using False by (simp add: from_end_def)
qed (simp add: from_end_def)

lemma from_end_at: "length xs = m \<Longrightarrow> d < m \<Longrightarrow> from_end xs (m - 1 - d) = xs ! d"
  by (simp add: from_end_def)

lemma expand_loop:
  assumes "foldE (expand_step sizes strides target) (es, ss) [k..<m] = Inr (es', ss')" "length es = k" "length ss = k" "k \<le> m"
    "\<forall>j < k. expanded_dim sizes strides (from_end es j) (from_end ss j) j"
  shows "length es' = m \<and> length ss' = m \<and> (\<forall>j < m. expanded_dim sizes strides (from_end es' j) (from_end ss' j) j)"
  using assms
proof (induction "m - k" arbitrary: k es ss)
  case (Suc d)
  then have k: "[k..<m] = k # [Suc k..<m]" "d = m - Suc k" "Suc k \<le> m" by (auto simp: upt_conv_Cons)
  obtain n s where step: "expand_step sizes strides target (es, ss) k = Inr (n # es, s # ss)" "expanded_dim sizes strides n s k"
    and rest: "foldE (expand_step sizes strides target) (n # es, s # ss) [Suc k..<m] = Inr (es', ss')"
    using Suc.prems(1) unfolding k(1) by (auto simp: expand_step_def [of _ _ _ "(es, ss)"] bindE_Inr_iff Let_def expanded_dim_def split: if_splits)
  have "\<forall>j < Suc k. expanded_dim sizes strides (from_end (n # es) j) (from_end (s # ss) j) j"
    using step(2) Suc.prems(2,3,5) by (auto simp: from_end_Cons less_Suc_eq)
  then show ?case using Suc.hyps(1) [OF k(2) rest] Suc.prems(2,3) k(3) by simp
qed simp

lemma inferExpandGeometry_Inr:
  assumes "inferExpandGeometry sizes strides target = Inr (es, ss)"
  shows "length es = length target \<and> length ss = length target \<and> (\<forall>j < length target. expanded_dim sizes strides (from_end es j) (from_end ss j) j)"
proof (cases "sizes = []")
  case True
  then show ?thesis using assms by (auto simp: inferExpandGeometry_def expanded_dim_def from_end_def)
next
  case False
  then show ?thesis using assms expand_loop [of sizes strides target "[]" "[]" 0 "length target" es ss] by (simp add: inferExpandGeometry_def)
qed

lemma sum_split: "(\<Sum>d < a + b. f d) = (\<Sum>d < a. f d) + (\<Sum>d < b. f (a + d))" for f :: "nat \<Rightarrow> int"
  by (induction b) (simp_all add: add.assoc)

lemma expand_safe:
  assumes "expand t target = Inr t'" "tensor_ok t"
  shows "safe_view t t'"
proof -
  let ?n = "t_sizes t" and ?s = "t_strides t"
  obtain es ss where e: "length ?n \<le> length target" "inferExpandGeometry ?n ?s target = Inr (es, ss)" "as_strided t es ss (Some (t_offset t)) = Inr t'"
    using assms(1) by (auto simp: expand_def bindE_Inr_iff as_strided_default)
  note g = inferExpandGeometry_Inr [OF e(2)] and len = tensor_ok_lengths [OF assms(2)]
  define lead where "lead = length target - length ?n"
  define source where "source idx = map (\<lambda>d. if ?n ! d = 1 then 0 else idx ! (lead + d)) [0..<length ?n]" for idx :: "int list"
  have trail: "(es ! (lead + d) = ?n ! d \<and> ss ! (lead + d) = ?s ! d) \<or> (?n ! d = 1 \<and> ss ! (lead + d) = 0)" if "d < length ?n" for d
  proof -
    let ?k = "length target - 1 - (lead + d)"
    have k: "?k = length ?n - 1 - d" "lead + d < length target" "?k < length ?n" using that e(1) by (auto simp: lead_def)
    then have "expanded_dim ?n ?s (from_end es ?k) (from_end ss ?k) ?k" using g by simp
    moreover have "from_end es ?k = es ! (lead + d)" "from_end ss ?k = ss ! (lead + d)" using g k(2) from_end_at [of es _ "lead + d"] from_end_at [of ss _ "lead + d"] by simp_all
    moreover have "from_end ?n ?k = ?n ! d" "from_end ?s ?k = ?s ! d" unfolding k(1) using that len from_end_at [of ?n _ d] from_end_at [of ?s _ d] by simp_all
    ultimately show ?thesis using k(3) by (simp add: expanded_dim_def)
  qed
  have leading: "es ! d = 1 \<or> ss ! d = 0" if "d < lead" for d
  proof -
    let ?k = "length target - 1 - d"
    have k: "d < length target" "?k < length target" "\<not> ?k < length ?n" using that by (auto simp: lead_def)
    then have "expanded_dim ?n ?s (from_end es ?k) (from_end ss ?k) ?k" using g by simp
    moreover have "from_end es ?k = es ! d" "from_end ss ?k = ss ! d" using g k(1) from_end_at [of es _ d] from_end_at [of ss _ d] by simp_all
    ultimately show ?thesis using k(3) by (simp add: expanded_dim_def)
  qed
  have "in_bounds ?n (source idx) \<and> t_offset t + element_offset ss idx = location t (source idx)" if b: "in_bounds es idx" for idx
  proof -
    have l: "length idx = lead + length ?n" "lead + length ?n = length target" using in_bounds_length [OF b] g e(1) by (auto simp: lead_def)
    have bd: "0 \<le> idx ! d \<and> idx ! d < es ! d" if "d < lead + length ?n" for d using b that l g by (auto simp: in_bounds_nth)
    have src: "length (source idx) = length ?n" "\<And>d. d < length ?n \<Longrightarrow> source idx ! d = (if ?n ! d = 1 then 0 else idx ! (lead + d))" by (simp_all add: source_def)
    have in_b: "0 \<le> source idx ! d \<and> source idx ! d < ?n ! d" if "d < length ?n" for d using trail [OF that] bd [of "lead + d"] src(2) [OF that] that by auto
    have eq: "idx ! (lead + d) * ss ! (lead + d) = source idx ! d * ?s ! d" if "d < length ?n" for d using trail [OF that] bd [of "lead + d"] src(2) [OF that] that by auto
    have "element_offset ss idx = (\<Sum>d < lead + length ?n. idx ! d * ss ! d)" using offset_sum [of ss idx] g l by simp
    also have "\<dots> = (\<Sum>d < lead. idx ! d * ss ! d) + (\<Sum>d < length ?n. idx ! (lead + d) * ss ! (lead + d))" by (rule sum_split)
    also have "(\<Sum>d < lead. idx ! d * ss ! d) = 0"
    proof (rule sum.neutral, intro ballI)
      fix d assume "d \<in> {..<lead}"
      then show "idx ! d * ss ! d = 0" using leading [of d] bd [of d] by auto
    qed
    also have "(\<Sum>d < length ?n. idx ! (lead + d) * ss ! (lead + d)) = (\<Sum>d < length ?n. source idx ! d * ?s ! d)" using eq by (intro sum.cong) auto
    also have "\<dots> = element_offset ?s (source idx)" using offset_sum [of ?s "source idx"] src(1) len by simp
    finally show ?thesis using src(1) in_b by (simp add: in_bounds_nth location_def)
  qed
  then show ?thesis using g by (intro as_strided_is_safe [OF e(3) assms(2)]) auto
qed

section \<open>Chains of views\<close>

datatype view_request =
    Select int int | Slice int "int option" "int option" int | Narrow int int int | Diagonal int int int | Unfold int int int
  | Transpose int int | Permute "int list" | T_transpose | Numpy_T | Squeeze | SqueezeDim int | SqueezeDims "int list" | Unsqueeze int
  | Expand "int list" | View "int list" | Unflatten int "int list"

fun perform_view :: "view_request \<Rightarrow> strided_tensor \<Rightarrow> strided_tensor result" where
  "perform_view (Select dm ix) t = select t dm ix"
| "perform_view (Slice dm start end_opt step) t = slice t dm start end_opt step"
| "perform_view (Narrow dm start len) t = narrow t dm start len"
| "perform_view (Diagonal off dim1 dim2) t = diagonal t off dim1 dim2"
| "perform_view (Unfold dm sz step) t = unfold t dm sz step"
| "perform_view (Transpose dim0 dim1) t = transpose t dim0 dim1"
| "perform_view (Permute dims) t = permute t dims"
| "perform_view T_transpose t = t_transpose t"
| "perform_view Numpy_T t = numpy_T t"
| "perform_view Squeeze t = squeeze t"
| "perform_view (SqueezeDim dm) t = squeeze_dim t dm"
| "perform_view (SqueezeDims dims) t = squeeze_dims t dims"
| "perform_view (Unsqueeze dm) t = unsqueeze t dm"
| "perform_view (Expand sizes) t = expand t sizes"
| "perform_view (View sizes) t = view_impl t sizes"
| "perform_view (Unflatten dm sizes) t = unflatten t dm sizes"

lemmas view_operations_safe = select_safe slice_safe narrow_safe diagonal_safe unfold_safe transpose_safe permute_safe t_transpose_safe numpy_T_safe
  squeeze_safe squeeze_dim_safe squeeze_dims_safe unsqueeze_safe expand_safe view_impl_safe unflatten_safe

lemma perform_view_safe: "perform_view r t = Inr t' \<Longrightarrow> tensor_ok t \<Longrightarrow> safe_view t t'"
  by (cases r) (simp_all add: view_operations_safe)

text \<open>Tensors reached from a tensor by views, whose geometry does not overflow.\<close>

inductive views :: "strided_tensor \<Rightarrow> view_request list \<Rightarrow> strided_tensor \<Rightarrow> bool" where
  none: "views t [] t"
| one: "views t rs t' \<Longrightarrow> perform_view r t' = Inr t'' \<Longrightarrow> geometry_representable t'' \<Longrightarrow> views t (rs @ [r]) t''"

inductive_cases views_snoc: "views t (rs @ [r]) t''"

text \<open>C35: whatever views are taken one after the other, the result lies within the storage of the first
  tensor, which it shares, and every element of it is an element of the first tensor.\<close>

theorem views_stay_inside:
  assumes "views t rs t'" "tensor_ok t"
  shows "tensor_ok t' \<and> t_nbytes t' = t_nbytes t \<and> t_itemsize t' = t_itemsize t \<and>
    (\<forall>idx. in_bounds (t_sizes t') idx \<longrightarrow> (\<exists>idx'. in_bounds (t_sizes t) idx' \<and> location t' idx = location t idx') \<and>
       0 \<le> location t' idx \<and> (location t' idx + 1) * t_itemsize t \<le> t_nbytes t)"
proof -
  have "tensor_ok t' \<and> view_of t t'" using assms
  proof (induction rule: views.induct)
    case (one t rs t' r t'')
    then show ?case using perform_view_safe [of r t' t''] view_of_trans [of t t' t''] by (simp add: safe_view_def)
  qed (simp add: view_of_refl)
  then have v: "tensor_ok t'" "view_of t t'" by auto
  have "0 \<le> location t' idx \<and> (location t' idx + 1) * t_itemsize t' \<le> t_nbytes t'" if "in_bounds (t_sizes t') idx" for idx
    using tensor_ok_element [OF v(1) that] .
  then show ?thesis using v by (auto simp: view_of_def)
qed

text \<open>Every second row of a 4 by 3 matrix, transposed, and the windows of two columns of the result.\<close>

theorem views_stay_inside_witness:
  "\<exists>t'. views \<lparr> t_sizes = [4, 3], t_strides = [3, 1], t_offset = 0, t_itemsize = 4, t_nbytes = 48 \<rparr> [Slice 0 None None 2, Transpose 0 (-1), Unfold 1 2 1] t' \<and>
    t_sizes t' = [3, 1, 2] \<and> location t' [2, 0, 1] = 8 \<and> (location t' [2, 0, 1] + 1) * 4 \<le> 48"
proof -
  define t where "t = (\<lambda>sizes strides. \<lparr> t_sizes = sizes, t_strides = strides, t_offset = 0, t_itemsize = 4, t_nbytes = 48 \<rparr>)"
  have ok: "tensor_ok (t [4, 3] [3, 1])" "tensor_ok (t [2, 3] [6, 1])" "tensor_ok (t [3, 2] [1, 6])" "geometry_representable (t [3, 1, 2] [1, 6, 6])"
    by (simp_all add: t_def tensor_ok_def geometry_representable_def representable_def within_storage_def)
  have "perform_view (Slice 0 None None 2) (t [4, 3] [3, 1]) = as_strided (t [4, 3] [3, 1]) [2, 3] [6, 1] (Some 0)"
    by (simp add: t_def slice_def t_dim_def maybe_wrap_dim.simps INT64_MAX_def)
  also have "\<dots> = Inr (t [2, 3] [6, 1])" using ok(2) by (subst as_strided_iff [OF ok(1)]) (simp_all add: t_def tensor_ok_def)
  finally have v1: "views (t [4, 3] [3, 1]) [Slice 0 None None 2] (t [2, 3] [6, 1])"
    using ok(2) views.one [OF views.none, of "Slice 0 None None 2"] by (simp add: tensor_ok_def geometry_representable_def)
  have "perform_view (Transpose 0 (-1)) (t [2, 3] [6, 1]) = as_strided (t [2, 3] [6, 1]) [3, 2] [1, 6] (Some 0)"
    by (simp add: t_def transpose_def t_dim_def maybe_wrap_dim.simps swap_def as_strided_default)
  also have "\<dots> = Inr (t [3, 2] [1, 6])" using ok(3) by (subst as_strided_iff [OF ok(2)]) (simp_all add: t_def tensor_ok_def)
  finally have v2: "views (t [4, 3] [3, 1]) [Slice 0 None None 2, Transpose 0 (-1)] (t [3, 2] [1, 6])"
    using ok(3) views.one [OF v1, of "Transpose 0 (-1)"] by (simp add: tensor_ok_def geometry_representable_def)
  have "perform_view (Unfold 1 2 1) (t [3, 2] [1, 6]) = as_strided (t [3, 2] [1, 6]) [3, 1, 2] [1, 6, 6] (Some 0)"
    by (simp add: t_def unfold_def t_dim_def maybe_wrap_dim.simps as_strided_default)
  also have "\<dots> = Inr (t [3, 1, 2] [1, 6, 6])"
    using ok(4) by (subst as_strided_iff [OF ok(3)]) (simp_all add: t_def geometry_representable_def within_storage_def)
  finally have v3: "views (t [4, 3] [3, 1]) [Slice 0 None None 2, Transpose 0 (-1), Unfold 1 2 1] (t [3, 1, 2] [1, 6, 6])"
    using ok(4) views.one [OF v2, of "Unfold 1 2 1"] by simp
  have "(location (t [3, 1, 2] [1, 6, 6]) [2, 0, 1] + 1) * 4 \<le> 48" using views_stay_inside [OF v3 ok(1)] by (simp add: t_def)
  then show ?thesis using v3 by (intro exI [of _ "t [3, 1, 2] [1, 6, 6]"]) (simp add: t_def location_def)
qed

end
