(* ===== verification/TensorReshape.thy ===== *)
theory TensorReshape
  imports ViewSafety
begin

text \<open>
  \<open>reshape\<close> and \<open>flatten\<close>: a tensor gets another shape, as a view if the strides allow it and in a contiguous copy otherwise. The copy
  can always be given the new shape, so that \<open>reshape\<close> fails only if the shape does not fit.
\<close>

section \<open>Contiguous tensors\<close>

lemma defaultStrides_simps [simp]:
  "defaultStrides [] = []"
  "defaultStrides (n # sizes) = multiply_integers sizes # defaultStrides sizes"
proof -
  have "snd (foldr (\<lambda>n (strides, stride). (stride # strides, stride * n)) sizes ([], 1)) = multiply_integers sizes"
    by (induction sizes) (auto simp: split_beta mult.commute)
  then show "defaultStrides (n # sizes) = multiply_integers sizes # defaultStrides sizes" by (simp add: defaultStrides_def split_beta)
qed (simp add: defaultStrides_def)

lemma defaultStrides_length [simp]: "length (defaultStrides sizes) = length sizes"
  by (induction sizes) simp_all

text \<open>In a contiguous tensor the offset of an element is its position in row-major order.\<close>

lemma contiguous_offset: "in_bounds sizes idx \<Longrightarrow> element_offset (defaultStrides sizes) idx = position sizes idx"
  by (induction sizes idx rule: in_bounds.induct) simp_all

lemma contiguous_viewable:
  assumes "nonnegative oldshape" "nonnegative newshape" "multiply_integers newshape = multiply_integers oldshape"
  obtains stride where "computeStride oldshape (defaultStrides oldshape) newshape = Some stride"
proof -
  have "same_elements oldshape (defaultStrides oldshape) newshape (defaultStrides newshape)"
    by (auto simp: same_elements_def contiguous_offset)
  then show thesis using computeStride_complete [OF _ assms, of "defaultStrides oldshape" "defaultStrides newshape"] that by auto
qed

section \<open>Reshaping\<close>

fun reshaped_tensor :: "reshaped \<Rightarrow> strided_tensor" where
  "reshaped_tensor (Alias t) = t"
| "reshaped_tensor (Copied t) = t"

text \<open>
  What a reshaped tensor has to be: a view of the tensor with the elements at the same positions if there are strides for
  that, and otherwise a tensor over a storage of its own with the element at position \<open>i\<close> at offset \<open>i\<close>.
\<close>

definition reshape_spec :: "strided_tensor \<Rightarrow> int list \<Rightarrow> reshaped \<Rightarrow> bool" where
  "reshape_spec t shape r \<longleftrightarrow> t_sizes (reshaped_tensor r) = shape \<and> length (t_strides (reshaped_tensor r)) = length shape \<and>
     (if \<exists>stride. length stride = length shape \<and> same_elements (t_sizes t) (t_strides t) shape stride
      then r = Alias (t\<lparr> t_sizes := shape, t_strides := t_strides (reshaped_tensor r) \<rparr>) \<and> same_elements (t_sizes t) (t_strides t) shape (t_strides (reshaped_tensor r))
      else (\<exists>t'. r = Copied t' \<and> t_offset t' = 0 \<and> t_nbytes t' = t_numel t * t_itemsize t \<and>
        (\<forall>idx. in_bounds shape idx \<longrightarrow> location t' idx = position shape idx)))"

lemma infer_again:
  assumes "nonnegative shape"
  shows "infer_view_size shape (multiply_integers shape) = Inr shape"
proof -
  have "-1 \<notin> set shape" using assms by (auto simp: nonnegative_def)
  then show ?thesis using infer_known [of shape] assms by simp
qed

lemma reshape_meets_spec:
  assumes "tensor_ok t" "infer_view_size proposed (t_numel t) = Inr shape"
  obtains r where "reshape t proposed = Inr r" "reshape_spec t shape r"
proof -
  note ok = tensor_ok_lengths [OF assms(1)] tensor_ok_nonnegative(1) [OF assms(1)]
  have s: "nonnegative shape" "multiply_integers shape = multiply_integers (t_sizes t)"
    using infer_view_size_Inr [OF numel_nonneg [OF assms(1)] assms(2)] by (auto simp: t_numel_def)
  show thesis
  proof (cases "computeStride (t_sizes t) (t_strides t) shape")
    case (Some stride)
    note c = computeStride_sound [OF ok s Some]
    have "same_elements (t_sizes t) (t_strides t) shape stride" using c same_elements_iff [OF ok(1) c(1) ok(2) s] by simp
    then show thesis using c(1) Some assms(2)
      by (intro that [of "Alias (alias_with_sizes_and_strides t shape stride)"])
        (auto simp: reshape_def reshape_spec_def alias_with_sizes_and_strides_def)
  next
    case None
    then have no: "\<not> (\<exists>stride. length stride = length shape \<and> same_elements (t_sizes t) (t_strides t) shape stride)"
      using computeStride_complete [OF ok s] by blast
    obtain stride where c: "computeStride (t_sizes t) (defaultStrides (t_sizes t)) shape = Some stride" by (rule contiguous_viewable [OF ok(2) s])
    note cs = computeStride_sound [OF defaultStrides_length ok(2) s c]
    have same: "same_elements (t_sizes t) (defaultStrides (t_sizes t)) shape stride"
      using cs same_elements_iff [OF defaultStrides_length cs(1) ok(2) s] by simp
    have off: "element_offset stride idx = position shape idx" if b: "in_bounds shape idx" for idx
    proof -
      have "0 \<le> position shape idx" "position shape idx < multiply_integers (t_sizes t)" using position_range [OF b] s(2) by auto
      then obtain idx' where i: "in_bounds (t_sizes t) idx'" "position (t_sizes t) idx' = position shape idx" by (rule position_surj [OF ok(2)])
      then show ?thesis using same [unfolded same_elements_def, rule_format, of idx' idx] b contiguous_offset [OF i(1)] by simp
    qed
    let ?t' = "alias_with_sizes_and_strides (contiguous_clone t) shape stride"
    have "view_impl (contiguous_clone t) shape = Inr ?t'"
      using infer_again [OF s(1)] c s(2) by (simp add: view_impl_def contiguous_clone_def t_numel_def)
    then have "reshape t proposed = Inr (Copied ?t')" using assms(2) None by (simp add: reshape_def)
    then show thesis using no cs(1) off
      by (intro that [of "Copied ?t'"]) (auto simp: reshape_spec_def alias_with_sizes_and_strides_def contiguous_clone_def location_def)
  qed
qed

text \<open>\<open>flatten\<close> computes a shape that fits.\<close>

theorem flatten_succeeds:
  assumes "tensor_ok t" "maybe_wrap_dim start_dim (t_dim t) True = Inr s" "maybe_wrap_dim end_dim (t_dim t) True = Inr e" "s \<le> e"
  shows "\<exists>r. flatten t start_dim end_dim = Inr r \<and> multiply_integers (t_sizes (reshaped_tensor r)) = t_numel t"
proof -
  have total: "\<exists>r. reshape t shape = Inr r \<and> t_sizes (reshaped_tensor r) = shape" if s: "nonnegative shape" "multiply_integers shape = t_numel t" for shape
    by (rule reshape_meets_spec [OF assms(1), of shape shape]) (use infer_again [OF s(1)] s(2) in \<open>auto simp: reshape_spec_def\<close>)
  show ?thesis
  proof (cases "t_dim t = 0")
    case True
    then have "t_numel t = 1" by (simp add: t_dim_def t_numel_def)
    then show ?thesis using total [of "[1]"] assms(2-4) True by (auto simp: flatten_def)
  next
    case dim: False
    show ?thesis
    proof (cases "s = e")
      case True
      then show ?thesis using assms dim by (auto simp: flatten_def t_numel_def)
    next
      case False
      let ?sizes = "t_sizes t"
      let ?mid = "take (nat e - nat s + 1) (drop (nat s) ?sizes)" and ?post = "drop (nat e + 1) ?sizes"
      have w: "0 \<le> s" "nat e < length ?sizes" using wrapped_dim [OF assms(2) dim] wrapped_dim [OF assms(3) dim] by auto
      have "drop (nat e - nat s + 1) (drop (nat s) ?sizes) = ?post" using assms(4) w by (simp add: Suc_diff_le nat_mono)
      then have split: "?sizes = take (nat s) ?sizes @ ?mid @ ?post" by (metis append_take_drop_id)
      let ?shape = "take (nat s) ?sizes @ multiply_integers ?mid # ?post"
      have "nonnegative ?sizes" using tensor_ok_nonnegative(1) [OF assms(1)] .
      then have nn: "nonnegative (take (nat s) ?sizes)" "nonnegative ?mid" "nonnegative ?post" by (subst (asm) split, simp)+
      have "multiply_integers ?sizes = multiply_integers (take (nat s) ?sizes) * (multiply_integers ?mid * multiply_integers ?post)"
        by (subst split) (simp only: multiply_integers_simps)
      then have "multiply_integers ?shape = t_numel t" by (simp only: multiply_integers_simps t_numel_def)
      then show ?thesis using total [of ?shape] nn nonnegative_numel [OF nn(2)] assms(2-4) dim False by (auto simp: flatten_def Let_def)
    qed
  qed
qed



end
