(* ===== verification/TensorSplit.thy ===== *)
theory TensorSplit
  imports ViewSafety
begin

text \<open>
  \<open>narrow\<close>, \<open>select\<close> and the operations that take a tensor apart with them: \<open>split\<close>, \<open>chunk\<close> and \<open>unbind\<close>. On a tensor with elements
  they never run out of the storage, and the parts have every element exactly once.
\<close>

section \<open>One part\<close>

text \<open>The first elements along one dimension are in the storage, so that their offsets do not overflow.\<close>

lemma offset_along:
  assumes "tensor_ok t" "positive (t_sizes t)" "d < length (t_sizes t)" "0 \<le> i" "i < t_sizes t ! d"
  shows "0 \<le> t_offset t + i * t_strides t ! d" "t_offset t + i * t_strides t ! d < 2 ^ 63"
proof -
  let ?idx = "(replicate (length (t_sizes t)) 0)[d := i]"
  have b: "in_bounds (t_sizes t) ?idx" by (rule in_bounds_unit [OF assms(2-5)])
  have l: "location t ?idx = t_offset t + i * t_strides t ! d" using offset_unit [OF tensor_ok_lengths [OF assms(1)] assms(3)] by (simp add: location_def)
  have e: "0 \<le> location t ?idx" "(location t ?idx + 1) * t_itemsize t \<le> t_nbytes t" using tensor_ok_element [OF assms(1) b] by auto
  have i: "1 \<le> t_itemsize t" "t_nbytes t < 2 ^ 63" using assms(1) by (auto simp: tensor_ok_def)
  have "(location t ?idx + 1) * 1 \<le> (location t ?idx + 1) * t_itemsize t" using e(1) i(1) by (intro mult_left_mono) auto
  then have "location t ?idx + 1 \<le> t_nbytes t" using order_trans [OF _ e(2)] by simp
  then show "t_offset t + i * t_strides t ! d < 2 ^ 63" using i(2) l by linarith
  show "0 \<le> t_offset t + i * t_strides t ! d" using e(1) l by linarith
qed

lemma wrap_dim_agrees: "t_dim t \<noteq> 0 \<Longrightarrow> maybe_wrap_dim dm (t_dim t) False = maybe_wrap_dim dm (t_dim t) True"
  by (simp add: maybe_wrap_dim_cases t_dim_def wrap_rank_def)

lemma size_of_dim_Inr: "t_dim t \<noteq> 0 \<Longrightarrow> maybe_wrap_dim dm (t_dim t) True = Inr d \<Longrightarrow> size_of_dim t dm = Inr (t_sizes t ! nat d)"
  by (simp add: size_of_dim_def wrap_dim_agrees)

lemma int64_nonneg_update:
  assumes "int64_nonneg xs" "d < length xs" "0 \<le> x" "x \<le> xs ! d"
  shows "int64_nonneg (xs[d := x])"
proof -
  have "xs ! d < 2 ^ 63" using assms(1,2) by (simp add: int64_nonneg_def)
  then have "x < 2 ^ 63" using assms(4) by linarith
  then show ?thesis using assms(1,3) set_update_subset_insert [of xs d x] unfolding int64_nonneg_def by blast
qed

lemma positive_nth: "positive xs \<Longrightarrow> d < length xs \<Longrightarrow> 1 \<le> xs ! d"
  by (simp add: positive_def)

lemma narrow_part:
  assumes "tensor_ok t" "positive (t_sizes t)" "t_dim t \<noteq> 0" "maybe_wrap_dim dm (t_dim t) True = Inr d" "0 \<le> start" "0 < len" "start + len \<le> t_sizes t ! nat d"
  obtains t' where "narrow t dm start len = Inr t'" "tensor_ok t'" "view_by (\<lambda>idx. idx[nat d := start + idx ! nat d]) t t'" "t_sizes t' = (t_sizes t)[nat d := len]"
proof -
  have d: "nat d < length (t_sizes t)" using wrapped_dim [OF assms(4,3)] by simp
  have off: "0 \<le> t_offset t + start * t_strides t ! nat d" "t_offset t + start * t_strides t ! nat d < 2 ^ 63"
    using offset_along [OF assms(1,2) d assms(5)] assms(6,7) by auto
  have ok: "int64_nonneg (t_sizes t)" "int64_nonneg (t_strides t)" using assms(1) by (auto simp: tensor_ok_def representable_def)
  have "narrow t dm start len = slice t dm (Some start) (Some (start + len)) 1"
    using assms(3,5-7) size_of_dim_Inr [OF assms(3,4)] by (simp add: narrow_def t_dim_def)
  also have "\<dots> = as_strided t ((t_sizes t)[nat d := (len + 1 - 1) div 1]) ((t_strides t)[nat d := t_strides t ! nat d * 1]) (Some (t_offset t + start * t_strides t ! nat d))"
    using assms(3-7) by (simp add: slice_def Let_def)
  finally have n: "narrow t dm start len = \<dots>" .
  have r: "representable ((t_sizes t)[nat d := (len + 1 - 1) div 1]) ((t_strides t)[nat d := t_strides t ! nat d * 1]) (t_offset t + start * t_strides t ! nat d)"
    using int64_nonneg_update [OF ok(1) d, of len] ok(2) assms(5-7) off by (simp add: representable_def)
  obtain t' where "as_strided t ((t_sizes t)[nat d := (len + 1 - 1) div 1]) ((t_strides t)[nat d := t_strides t ! nat d * 1]) (Some (t_offset t + start * t_strides t ! nat d)) = Inr t'"
    "tensor_ok t'" "view_by (\<lambda>idx. idx[nat d := start + idx ! nat d * 1]) t t'" "t_sizes t' = (t_sizes t)[nat d := (len + 1 - 1) div 1]"
    by (rule slice_view.as_strided_succeeds [where start = start and len = len and step = 1, OF assms(1) _ r]) (use d assms(5,7) in auto)
  then show thesis using that n by simp
qed

section \<open>All parts\<close>

lemma in_bounds_dim:
  assumes "d < length sizes"
  shows "in_bounds (sizes[d := m]) idx \<longleftrightarrow> 0 \<le> idx ! d \<and> idx ! d < m \<and> in_bounds (sizes[d := 1]) (idx[d := 0])"
  using assms by (auto simp: in_bounds_nth nth_list_update)

text \<open>The number of parts of at most \<open>s\<close> elements.\<close>

lemma ceil_div:
  fixes n s :: int
  assumes "0 < s" "0 < n"
  defines "k \<equiv> (n + s - 1) div s"
  shows "1 \<le> k" "(k - 1) * s < n" "n \<le> k * s"
proof -
  have e: "k * s = n + s - 1 - (n + s - 1) mod s" unfolding k_def by (simp add: minus_mod_eq_div_mult [symmetric])
  have m: "0 \<le> (n + s - 1) mod s" "(n + s - 1) mod s < s" using assms(1) by auto
  show "(k - 1) * s < n" "n \<le> k * s" using e m by (auto simp: algebra_simps)
  have "s div s \<le> k" unfolding k_def using assms by (intro zdiv_mono1) auto
  then show "1 \<le> k" using assms(1) by simp
qed

definition part_length :: "int \<Rightarrow> int \<Rightarrow> int \<Rightarrow> nat \<Rightarrow> int" where
  "part_length n s parts k = (if int k < parts - 1 then s else s - (s * parts - n))"

lemma part_length_bounds:
  assumes "0 < s" "0 < n" "parts = (n + s - 1) div s" "int k < parts"
  shows "0 < part_length n s parts k" "part_length n s parts k \<le> s" "int k * s + part_length n s parts k \<le> n"
proof -
  note c = ceil_div [OF assms(1,2), folded assms(3)]
  have "(int k + 1) * s \<le> (parts - 1) * s" if "int k < parts - 1" using that assms(1) by (intro mult_right_mono) auto
  moreover have "int k = parts - 1" if "\<not> int k < parts - 1" using that assms(4) by simp
  ultimately show "0 < part_length n s parts k" "part_length n s parts k \<le> s" "int k * s + part_length n s parts k \<le> n"
    using c assms(1) by (auto simp: part_length_def algebra_simps)
qed

lemma split_parts:
  assumes "tensor_ok t" "positive (t_sizes t)" "t_dim t \<noteq> 0" "maybe_wrap_dim dm (t_dim t) True = Inr d" "0 < split_size"
  defines "n \<equiv> t_sizes t ! nat d"
  defines "parts \<equiv> (n + split_size - 1) div split_size"
  obtains ts where "split_tensor t split_size dm = Inr ts" "length ts = nat parts"
    "\<And>k. k < length ts \<Longrightarrow> tensor_ok (ts ! k) \<and> view_by (\<lambda>idx. idx[nat d := int k * split_size + idx ! nat d]) t (ts ! k) \<and>
       t_sizes (ts ! k) = (t_sizes t)[nat d := part_length n split_size parts k]"
proof -
  have d: "nat d < length (t_sizes t)" using wrapped_dim [OF assms(4,3)] by simp
  then have n: "0 < n" using positive_nth [OF assms(2)] unfolding n_def by force
  note c = ceil_div [OF assms(5) n, folded parts_def]
  let ?f = "\<lambda>k. narrow t dm (int k * split_size) (part_length n split_size parts k)"
  have part: "\<exists>t'. ?f k = Inr t' \<and> tensor_ok t' \<and> view_by (\<lambda>idx. idx[nat d := int k * split_size + idx ! nat d]) t t' \<and>
      t_sizes t' = (t_sizes t)[nat d := part_length n split_size parts k]" if "k < nat parts" for k
  proof -
    have "int k < parts" using that by simp
    note b = part_length_bounds [OF assms(5) n parts_def [THEN meta_eq_to_obj_eq] this]
    show ?thesis by (rule narrow_part [OF assms(1-4) _ b(1)]) (use b(3) assms(5) in \<open>auto simp: n_def\<close>)
  qed
  have "get_num_splits t split_size dm = Inr parts"
    using size_of_dim_Inr [OF assms(3,4)] assms(3,5) c(1) by (simp add: get_num_splits_def parts_def n_def)
  then have s: "split_tensor t split_size dm = mapE ?f [0..<nat parts]"
    using size_of_dim_Inr [OF assms(3,4)] by (simp add: split_tensor_def part_length_def n_def Let_def)
  obtain ts where ts: "mapE ?f [0..<nat parts] = Inr ts" using mapE_Inr_iff [of ?f "[0..<nat parts]"] part by fastforce
  have len: "length ts = nat parts" using mapE_Inr_length [OF ts] by simp
  show thesis
  proof (rule that [OF _ len])
    show "split_tensor t split_size dm = Inr ts" using s ts by simp
    show "tensor_ok (ts ! k) \<and> view_by (\<lambda>idx. idx[nat d := int k * split_size + idx ! nat d]) t (ts ! k) \<and>
       t_sizes (ts ! k) = (t_sizes t)[nat d := part_length n split_size parts k]" if "k < length ts" for k
      using mapE_Inr_nth [OF ts, of k] part [of k] that len by auto
  qed
qed

definition element_of_part :: "nat \<Rightarrow> int \<Rightarrow> nat \<times> int list \<Rightarrow> int list" where
  "element_of_part d split_size p = (case p of (k, idx) \<Rightarrow> idx[d := int k * split_size + idx ! d])"

lemma parts_bijection:
  assumes "d < length sizes" "0 < s" "0 < sizes ! d"
  defines "parts \<equiv> (sizes ! d + s - 1) div s"
  shows "bij_betw (element_of_part d s) {(k, idx). k < nat parts \<and> in_bounds (sizes[d := part_length (sizes ! d) s parts k]) idx} {idx. in_bounds sizes idx}"
proof -
  let ?n = "sizes ! d" and ?inv = "\<lambda>idx. (nat (idx ! d div s), idx[d := idx ! d mod s])"
  let ?len = "part_length ?n s parts"
  note c = ceil_div [OF assms(2,3), folded parts_def]
  have sizes: "in_bounds sizes idx \<longleftrightarrow> 0 \<le> idx ! d \<and> idx ! d < ?n \<and> in_bounds (sizes[d := 1]) (idx[d := 0])" for idx
    using in_bounds_dim [OF assms(1), of ?n idx] by simp
  have there: "in_bounds sizes (element_of_part d s (k, idx)) \<and> ?inv (element_of_part d s (k, idx)) = (k, idx)"
    if k: "k < nat parts" and b: "in_bounds (sizes[d := ?len k]) idx" for k idx
  proof -
    have kp: "int k < parts" using k by simp
    note l = part_length_bounds [OF assms(2,3) parts_def [THEN meta_eq_to_obj_eq] kp]
    have i: "0 \<le> idx ! d" "idx ! d < ?len k" "in_bounds (sizes[d := 1]) (idx[d := 0])" "d < length idx"
      using b in_bounds_dim [OF assms(1), of "?len k" idx] in_bounds_length [OF b] assms(1) by auto
    have "(int k * s + idx ! d) div s = int k" "(int k * s + idx ! d) mod s = idx ! d" using i(1,2) l(2) by auto
    then show ?thesis using i l(3) assms(2) sizes by (simp add: element_of_part_def)
  qed
  have hither: "nat (idx ! d div s) < nat parts \<and> in_bounds (sizes[d := ?len (nat (idx ! d div s))]) (idx[d := idx ! d mod s]) \<and>
    element_of_part d s (?inv idx) = idx" if b: "in_bounds sizes idx" for idx
  proof -
    have i: "0 \<le> idx ! d" "idx ! d < ?n" "in_bounds (sizes[d := 1]) (idx[d := 0])" "d < length idx" using b sizes in_bounds_length [OF b] assms(1) by auto
    have q: "0 \<le> idx ! d div s" "idx ! d div s < parts"
      using i(1,2) assms(2) c(3) div_less_factor [OF assms(2), of "idx ! d" parts] by (auto simp: pos_imp_zdiv_nonneg_iff mult.commute)
    have m: "0 \<le> idx ! d mod s" "idx ! d mod s < s" using assms(2) by simp_all
    have "idx ! d mod s < ?len (nat (idx ! d div s))"
    proof (cases "idx ! d div s < parts - 1")
      case False
      then have "idx ! d div s = parts - 1" using q by simp
      then have "idx ! d mod s = idx ! d - (parts - 1) * s" using minus_div_mult_eq_mod [of "idx ! d" s] by simp
      then show ?thesis using i(2) q(1) False by (simp add: part_length_def algebra_simps)
    qed (use q(1) m(2) in \<open>simp add: part_length_def\<close>)
    then have "in_bounds (sizes[d := ?len (nat (idx ! d div s))]) (idx[d := idx ! d mod s])" using i m by (subst in_bounds_dim [OF assms(1)]) simp
    then show ?thesis using i(4) q by (simp add: element_of_part_def)
  qed
  show ?thesis by (rule bij_betw_byWitness [where f' = ?inv]) (use there hither in auto)
qed

text \<open>C37: the parts of \<open>split\<close> share the storage of the tensor and have each of its elements exactly once.\<close>

theorem split_partitions:
  assumes "tensor_ok t" "positive (t_sizes t)" "t_dim t \<noteq> 0" "maybe_wrap_dim dm (t_dim t) True = Inr d" "0 < split_size"
  shows "\<exists>ts. split_tensor t split_size dm = Inr ts \<and>
    (\<forall>k idx. k < length ts \<and> in_bounds (t_sizes (ts ! k)) idx \<longrightarrow> location (ts ! k) idx = location t (element_of_part (nat d) split_size (k, idx))) \<and>
    bij_betw (element_of_part (nat d) split_size) {(k, idx). k < length ts \<and> in_bounds (t_sizes (ts ! k)) idx} {idx. in_bounds (t_sizes t) idx}"
proof -
  let ?n = "t_sizes t ! nat d"
  let ?parts = "(?n + split_size - 1) div split_size"
  have d: "nat d < length (t_sizes t)" using wrapped_dim [OF assms(4,3)] by simp
  then have n: "0 < ?n" using positive_nth [OF assms(2)] by force
  obtain ts where ts: "split_tensor t split_size dm = Inr ts" "length ts = nat ?parts"
    "\<And>k. k < length ts \<Longrightarrow> tensor_ok (ts ! k) \<and> view_by (\<lambda>idx. idx[nat d := int k * split_size + idx ! nat d]) t (ts ! k) \<and>
       t_sizes (ts ! k) = (t_sizes t)[nat d := part_length ?n split_size ?parts k]" by (rule split_parts [OF assms]) blast
  have "{(k, idx). k < length ts \<and> in_bounds (t_sizes (ts ! k)) idx} =
      {(k, idx). k < nat ?parts \<and> in_bounds ((t_sizes t)[nat d := part_length ?n split_size ?parts k]) idx}" using ts(2,3) by auto
  then have "bij_betw (element_of_part (nat d) split_size) {(k, idx). k < length ts \<and> in_bounds (t_sizes (ts ! k)) idx} {idx. in_bounds (t_sizes t) idx}"
    using parts_bijection [OF d assms(5) n] by simp
  moreover have "location (ts ! k) idx = location t (element_of_part (nat d) split_size (k, idx))" if "k < length ts" "in_bounds (t_sizes (ts ! k)) idx" for k idx
    using ts(3) [OF that(1)] that(2) by (simp add: view_by_def element_of_part_def)
  ultimately show ?thesis using ts(1) by blast
qed

theorem split_partitions_witness:
  "\<exists>ts. split_tensor \<lparr> t_sizes = [5, 2], t_strides = [2, 1], t_offset = 0, t_itemsize = 4, t_nbytes = 40 \<rparr> 2 0 = Inr ts \<and>
    bij_betw (element_of_part 0 2) {(k, idx). k < length ts \<and> in_bounds (t_sizes (ts ! k)) idx} {idx. in_bounds [5, 2] idx}"
proof -
  let ?t = "\<lparr> t_sizes = [5, 2], t_strides = [2, 1], t_offset = 0, t_itemsize = 4, t_nbytes = 40 \<rparr>"
  have "tensor_ok ?t" by (simp add: tensor_ok_def representable_def within_storage_def)
  moreover have "maybe_wrap_dim 0 (t_dim ?t) True = Inr 0" by (simp add: maybe_wrap_dim.simps t_dim_def)
  ultimately show ?thesis using split_partitions [of ?t 0 0 2] by (auto simp: t_dim_def)
qed

end
