(* ===== verification/TensorLayouts.thy ===== *)
theory TensorLayouts
  imports StridedViews "HOL-Library.Multiset"
begin

text \<open>
  The memory layout of a tensor: \<open>c10/core/Contiguity.h\<close>, \<open>c10/core/MemoryFormat.h\<close>, \<open>ATen/TensorGeometry.cpp\<close> and the flags that
  \<open>TensorImpl\<close> keeps (\<open>_refresh_contiguous\<close>). The flag \<open>is_non_overlapping_and_dense\<close> decides which operations may treat a
  tensor as one block of memory; it is shown to mean exactly that.
\<close>

section \<open>The tests\<close>

text \<open>The dimensions are passed in the order in which the loops visit them, as pairs of size and stride.\<close>

fun contiguous_loop :: "(int \<times> int) list \<Rightarrow> int \<Rightarrow> bool" where
  "contiguous_loop [] expected_stride \<longleftrightarrow> True"
| "contiguous_loop ((size_d, stride) # dims) expected_stride \<longleftrightarrow>
     (if size_d = 1 then contiguous_loop dims expected_stride
      else if stride \<noteq> expected_stride then False
      else contiguous_loop dims (expected_stride * size_d))"

definition dims_at :: "int list \<Rightarrow> int list \<Rightarrow> nat list \<Rightarrow> (int \<times> int) list" where
  "dims_at sizes strides ds = map (\<lambda>d. (sizes ! d, strides ! d)) ds"

definition compute_contiguous :: "int list \<Rightarrow> int list \<Rightarrow> int \<Rightarrow> bool" where
  "compute_contiguous sizes strides numel \<longleftrightarrow> numel = 0 \<or> contiguous_loop (dims_at sizes strides (rev [0..<length sizes])) 1"

fun geometry_loop :: "(int \<times> int) list \<Rightarrow> int \<Rightarrow> bool \<Rightarrow> bool" where
  "geometry_loop [] expected_stride contig_if_nonempty \<longleftrightarrow> contig_if_nonempty"
| "geometry_loop ((n, stride) # dims) expected_stride contig_if_nonempty \<longleftrightarrow>
     (if n = 0 then True
      else if contig_if_nonempty then geometry_loop dims (expected_stride * n) (\<not> (n \<noteq> 1 \<and> stride \<noteq> expected_stride))
      else geometry_loop dims expected_stride False)"

definition geometry_is_contiguous :: "int list \<Rightarrow> int list \<Rightarrow> bool" where
  "geometry_is_contiguous sizes strides \<longleftrightarrow> geometry_loop (dims_at sizes strides (rev [0..<length sizes])) 1 True"

definition compute_channels_last_contiguous_2d :: "int list \<Rightarrow> int list \<Rightarrow> bool" where
  "compute_channels_last_contiguous_2d sizes strides \<longleftrightarrow> (if length sizes = 4 then contiguous_loop (dims_at sizes strides [1, 3, 2, 0]) 1 else False)"

definition compute_channels_last_contiguous_3d :: "int list \<Rightarrow> int list \<Rightarrow> bool" where
  "compute_channels_last_contiguous_3d sizes strides \<longleftrightarrow> (if length sizes = 5 then contiguous_loop (dims_at sizes strides [1, 4, 3, 2, 0]) 1 else False)"

fun channels_last_loop :: "int list \<Rightarrow> int list \<Rightarrow> int \<Rightarrow> nat list \<Rightarrow> bool" where
  "channels_last_loop sizes strides mn [] \<longleftrightarrow> True"
| "channels_last_loop sizes strides mn (d # ds) \<longleftrightarrow>
     (if sizes ! d = 0 then False
      else if strides ! d < mn then False
      else if d = 0 \<and> mn = strides ! 1 then False
      else channels_last_loop sizes strides (if sizes ! d > 1 then strides ! d * sizes ! d else strides ! d) ds)"

definition is_channels_last_strides_2d :: "int list \<Rightarrow> int list \<Rightarrow> bool" where
  "is_channels_last_strides_2d sizes strides \<longleftrightarrow>
     (if length sizes = 4 then (if strides ! 1 = 0 then False else channels_last_loop sizes strides 0 [1, 3, 2, 0]) else False)"

definition is_channels_last_strides_3d :: "int list \<Rightarrow> int list \<Rightarrow> bool" where
  "is_channels_last_strides_3d sizes strides \<longleftrightarrow>
     (if length sizes = 5 then (if strides ! 1 = 0 then False else channels_last_loop sizes strides 0 [1, 4, 3, 2, 0]) else False)"

text \<open>The comparison that sorts the dimensions by stride, with sizes 0 and 1 at the end, and one outcome of sorting with it.\<close>

definition sorts_before :: "int list \<Rightarrow> int list \<Rightarrow> nat \<Rightarrow> nat \<Rightarrow> bool" where
  "sorts_before sizes strides a b \<longleftrightarrow> (if sizes ! a < 2 then False else if sizes ! b < 2 then True else strides ! a < strides ! b)"

definition sort_by_stride :: "int list \<Rightarrow> int list \<Rightarrow> nat list \<Rightarrow> nat list" where
  "sort_by_stride sizes strides perm = sort_key (\<lambda>d. strides ! d) (filter (\<lambda>d. \<not> sizes ! d < 2) perm) @ filter (\<lambda>d. sizes ! d < 2) perm"

fun dense_loop :: "(int \<times> int) list \<Rightarrow> int \<Rightarrow> bool" where
  "dense_loop [] require_stride \<longleftrightarrow> True"
| "dense_loop ((size_perm_i, stride) # dims) require_stride \<longleftrightarrow>
     (if size_perm_i < 2 then True else if stride \<noteq> require_stride then False else dense_loop dims (require_stride * size_perm_i))"

definition compute_non_overlapping_and_dense :: "int list \<Rightarrow> int list \<Rightarrow> bool" where
  "compute_non_overlapping_and_dense sizes strides \<longleftrightarrow>
     (if length sizes = 1 then sizes ! 0 < 2 \<or> strides ! 0 = 1
      else dense_loop (dims_at sizes strides (sort_by_stride sizes strides [0..<length sizes])) 1)"

section \<open>Dense tensors\<close>

text \<open>The elements of a tensor fill a block of memory without gaps and without overlap.\<close>

definition dense :: "int list \<Rightarrow> int list \<Rightarrow> bool" where
  "dense sizes strides \<longleftrightarrow> bij_betw (element_offset strides) {idx. in_bounds sizes idx} {0..<multiply_integers sizes}"

text \<open>The same above a block of \<open>p\<close> elements that is filled already.\<close>

definition fills :: "int \<Rightarrow> int list \<Rightarrow> int list \<Rightarrow> bool" where
  "fills p sizes strides \<longleftrightarrow>
     bij_betw (\<lambda>(v, idx). v + element_offset strides idx) ({0..<p} \<times> {idx. in_bounds sizes idx}) {0..<p * multiply_integers sizes}"

lemma dense_fills: "dense sizes strides \<longleftrightarrow> fills 1 sizes strides"
proof -
  have b: "bij_betw (\<lambda>idx. (0, idx)) {idx. in_bounds sizes idx} ({0..<1 :: int} \<times> {idx. in_bounds sizes idx})" by (auto simp: bij_betw_def inj_on_def)
  show ?thesis unfolding dense_def fills_def bij_betw_comp_iff [OF b] by (simp add: comp_def)
qed

lemma in_bounds_Nil [simp]: "in_bounds [] idx \<longleftrightarrow> idx = []"
  by (cases idx) auto

lemma fills_Nil: "fills p [] strides"
proof -
  have "bij_betw (\<lambda>(v, idx). v + element_offset strides idx) ({0..<p} \<times> {[]}) {0..<p}"
    by (rule bij_betw_byWitness [where f' = "\<lambda>v. (v, [])"]) auto
  then show ?thesis by (simp add: fills_def)
qed

text \<open>A dimension with the right stride makes the block larger, also one of size 1, whatever its stride is.\<close>

lemma fills_extend:
  assumes "1 \<le> p" "0 \<le> n" "n = 1 \<or> s = p"
  shows "fills p (n # sizes) (s # strides) \<longleftrightarrow> fills (p * n) sizes strides"
proof -
  let ?h = "\<lambda>(v, idx). (v + hd idx * p, tl idx)" and ?g = "\<lambda>(w, idx). (w mod p, w div p # idx)"
  let ?A = "{0..<p} \<times> {idx. in_bounds (n # sizes) idx}"
  have elem: "\<exists>v i js. x = (v, i # js) \<and> 0 \<le> v \<and> v < p \<and> 0 \<le> i \<and> i < n \<and> in_bounds sizes js" if "x \<in> ?A" for x :: "int \<times> int list"
    using that by (cases x; cases "snd x") auto
  have "bij_betw ?h ?A ({0..<p * n} \<times> {idx. in_bounds sizes idx})"
  proof (rule bij_betw_byWitness [where f' = ?g])
    show "\<forall>x \<in> ?A. ?g (?h x) = x"
    proof
      fix x assume "x \<in> ?A"
      then obtain v i js where "x = (v, i # js)" "0 \<le> v" "v < p" using elem by blast
      then show "?g (?h x) = x" by simp
    qed
    show "\<forall>x \<in> {0..<p * n} \<times> {idx. in_bounds sizes idx}. ?h (?g x) = x" by auto
    show "?h ` ?A \<subseteq> {0..<p * n} \<times> {idx. in_bounds sizes idx}"
    proof
      fix y assume "y \<in> ?h ` ?A"
      then obtain x where x: "x \<in> ?A" "y = ?h x" by blast
      then obtain v i js where i: "x = (v, i # js)" "0 \<le> v" "v < p" "0 \<le> i" "i < n" "in_bounds sizes js" using elem by blast
      have "(i + 1) * p \<le> n * p" using i(5) assms(1) by (intro mult_right_mono) auto
      then show "y \<in> {0..<p * n} \<times> {idx. in_bounds sizes idx}" using x(2) i assms(1) by (auto simp: algebra_simps)
    qed
    show "?g ` ({0..<p * n} \<times> {idx. in_bounds sizes idx}) \<subseteq> ?A"
      using assms(1) div_less_factor [of p] by (auto simp: pos_imp_zdiv_nonneg_iff)
  qed
  then have "fills (p * n) sizes strides \<longleftrightarrow> bij_betw ((\<lambda>(v, idx). v + element_offset strides idx) \<circ> ?h) ({0..<p} \<times> {idx. in_bounds (n # sizes) idx}) {0..<p * n * multiply_integers sizes}"
    unfolding fills_def by (rule bij_betw_comp_iff)
  also have "\<dots> \<longleftrightarrow> fills p (n # sizes) (s # strides)"
  proof -
    have "((\<lambda>(v, idx). v + element_offset strides idx) \<circ> ?h) x = (\<lambda>(v, idx). v + element_offset (s # strides) idx) x"
      if xA: "x \<in> ?A" for x
    proof -
      obtain v i idx where x: "x = (v, i # idx)" "0 \<le> i" "i < n" using elem [OF xA] by blast
      then have "i * p = i * s" using assms(3) by auto
      then show ?thesis using x(1) by simp
    qed
    then show ?thesis unfolding fills_def multiply_integers_simps mult.assoc [symmetric] by (intro bij_betw_cong) auto
  qed
  finally show ?thesis by simp
qed

text \<open>With a wrong stride two elements coincide or there is a gap, if the strides of the remaining dimensions are not smaller.\<close>

lemma offset_zero_or_ge:
  assumes "in_bounds sizes idx" "length strides = length sizes" "0 \<le> s" "\<forall>k < length sizes. 2 \<le> sizes ! k \<longrightarrow> s \<le> strides ! k"
  shows "element_offset strides idx = 0 \<or> s \<le> element_offset strides idx"
  using assms(1,2,4)
proof (induction sizes idx arbitrary: strides rule: in_bounds.induct)
  case (2 n sizes i idx)
  obtain r rs where r: "strides = r # rs" "length rs = length sizes" using 2(3) by (cases strides) auto
  have "\<forall>k < length sizes. 2 \<le> sizes ! k \<longrightarrow> s \<le> rs ! k" using 2(4) r by force
  then have rest: "element_offset rs idx = 0 \<or> s \<le> element_offset rs idx" using 2(1) [OF _ r(2)] 2(2) by simp
  show ?case
  proof (cases "i = 0")
    case False
    then have i: "1 \<le> i" "2 \<le> n" using 2(2) by auto
    then have "s \<le> r" using 2(4) r(1) by force
    then have "1 * s \<le> i * r" using i(1) assms(3) by (intro mult_mono) auto
    then show ?thesis using rest r assms(3) by auto
  qed (use rest r in simp)
qed auto

lemma zero_in_bounds: "positive sizes \<Longrightarrow> in_bounds sizes (replicate (length sizes) 0)"
  by (induction sizes) auto

lemma offset_zeros: "element_offset strides (replicate k 0) = 0"
  by (induction k arbitrary: strides) (auto elim: element_offset.elims, metis add.right_neutral element_offset.simps(1) element_offset.simps(2) list.exhaust mult_zero_left)

lemma fills_wrong:
  assumes "1 \<le> p" "2 \<le> n" "0 \<le> s" "s \<noteq> p" "positive sizes" "length strides = length sizes" "\<forall>k < length sizes. 2 \<le> sizes ! k \<longrightarrow> s \<le> strides ! k"
  shows "\<not> fills p (n # sizes) (s # strides)"
proof
  let ?f = "\<lambda>(v, idx). v + element_offset (s # strides) idx" and ?z = "replicate (length sizes) 0 :: int list"
  assume "fills p (n # sizes) (s # strides)"
  then have inj: "inj_on ?f ({0..<p} \<times> {idx. in_bounds (n # sizes) idx})" and img: "?f ` ({0..<p} \<times> {idx. in_bounds (n # sizes) idx}) = {0..<p * (n * multiply_integers sizes)}"
    by (auto simp: fills_def bij_betw_def)
  have z: "in_bounds sizes ?z" "element_offset strides ?z = 0" using zero_in_bounds [OF assms(5)] offset_zeros by auto
  show False
  proof (cases "s < p")
    case True
    have "?f (s, 0 # ?z) = ?f (0, 1 # ?z)" using z(2) by simp
    then have "(s, 0 # ?z) = (0, 1 # ?z)" using True assms(1-3) z(1) by (intro inj_onD [OF inj]) auto
    then show False by simp
  next
    case False
    have "1 \<le> multiply_integers sizes" using positive_numel [OF assms(5)] .
    then have "p * (2 * 1) \<le> p * (n * multiply_integers sizes)" using assms(1,2) by (intro mult_left_mono mult_mono) auto
    then have "p \<in> {0..<p * (n * multiply_integers sizes)}" using assms(1) by simp
    then have "p \<in> ?f ` ({0..<p} \<times> {idx. in_bounds (n # sizes) idx})" using img by simp
    then obtain v idx where v: "0 \<le> v" "v < p" "in_bounds (n # sizes) idx" "p = v + element_offset (s # strides) idx" by auto
    have "element_offset (s # strides) idx = 0 \<or> s \<le> element_offset (s # strides) idx"
      using assms(3,6,7) v(3) by (intro offset_zero_or_ge) (auto simp: nth_Cons split: nat.splits)
    then show False using v False assms(4) by auto
  qed
qed

section \<open>The order of the dimensions\<close>

text \<open>The order that sorting establishes: a size below 2 is last, and the strides of the others do not decrease.\<close>

definition stride_ordered :: "(int \<times> int) list \<Rightarrow> bool" where
  "stride_ordered dims \<longleftrightarrow> sorted_wrt (\<lambda>(n, s) (m, r). m < 2 \<or> (2 \<le> n \<and> s \<le> r)) dims"

lemma dense_loop_iff:
  assumes "stride_ordered dims" "positive (map fst dims)" "nonnegative (map snd dims)" "1 \<le> p"
  shows "dense_loop dims p \<longleftrightarrow> fills p (map fst dims) (map snd dims)"
  using assms
proof (induction dims p rule: dense_loop.induct)
  case (1 p) then show ?case by (simp add: fills_Nil)
next
  case (2 n s dims p)
  have ord: "stride_ordered dims" using 2(2) by (simp add: stride_ordered_def)
  show ?case
  proof (cases "n < 2")
    case True
    then have "n = 1" "\<forall>m \<in> set (map fst dims). m = 1" using 2(2,3) by (fastforce simp: stride_ordered_def positive_def)+
    moreover have "fills p ns ss" if "\<forall>m \<in> set ns. m = 1" "length ss = length ns" for ns ss
      using that
    proof (induction ns arbitrary: ss)
      case (Cons m ns) then show ?case using 2(5) by (cases ss) (auto simp: fills_extend)
    qed (simp add: fills_Nil)
    ultimately show ?thesis using True by simp
  next
    case n: False
    show ?thesis
    proof (cases "s = p")
      case True
      have "1 * 1 \<le> p * n" using n 2(5) by (intro mult_mono) auto
      then show ?thesis using 2(1) [OF n] True n 2(3-5) ord by (simp add: fills_extend)
    next
      case False
      have "\<forall>k < length dims. 2 \<le> map fst dims ! k \<longrightarrow> s \<le> map snd dims ! k"
        using 2(2) n by (fastforce simp: stride_ordered_def dest: nth_mem)
      then show ?thesis using fills_wrong [of p n s "map fst dims" "map snd dims"] n False 2(3-5) by simp
    qed
  qed
qed

text \<open>A loop that skips the sizes 1 finds dense tensors, in whatever order it visits the dimensions.\<close>

lemma contiguous_loop_fills:
  assumes "contiguous_loop dims p" "positive (map fst dims)" "1 \<le> p"
  shows "fills p (map fst dims) (map snd dims)"
  using assms
proof (induction dims p rule: contiguous_loop.induct)
  case (2 n s dims p)
  show ?case
  proof (cases "n = 1")
    case False
    have n: "1 \<le> n" "s = p" using 2(3,4) False by (auto split: if_splits)
    have "1 * 1 \<le> p * n" using n 2(5) by (intro mult_mono) auto
    then show ?thesis using 2 False n by (simp add: fills_extend)
  qed (use 2 in \<open>simp add: fills_extend\<close>)
qed (simp add: fills_Nil)

section \<open>Dimensions in another order\<close>

definition permutes_dims :: "nat list \<Rightarrow> nat \<Rightarrow> bool" where
  "permutes_dims p n \<longleftrightarrow> distinct p \<and> set p = {..<n}"

lemma permutes_dims_length: "permutes_dims p n \<Longrightarrow> length p = n"
  using distinct_card [of p] by (simp add: permutes_dims_def)

lemma permuted_numel:
  assumes "permutes_dims p (length sizes)"
  shows "multiply_integers (map ((!) sizes) p) = multiply_integers sizes"
proof -
  have mi: "multiply_integers xs = prod_mset (mset xs)" for xs by (induction xs) simp_all
  have "mset p = mset [0..<length sizes]" 
    using assms set_eq_iff_mset_eq_distinct [of p "[0..<length sizes]"] by (simp add: permutes_dims_def atLeast0LessThan)
  then have "image_mset ((!) sizes) (mset p) = image_mset ((!) sizes) (mset [0..<length sizes])" by simp
  then have "mset (map ((!) sizes) p) = mset (map ((!) sizes) [0..<length sizes])" by simp
  then show ?thesis unfolding mi by (simp only: map_nth)
qed

lemma permuted_positive: "permutes_dims p (length sizes) \<Longrightarrow> positive sizes \<Longrightarrow> positive (map ((!) sizes) p)"
  by (auto simp: positive_def permutes_dims_def)

lemma permuted_nonnegative: "permutes_dims p (length strides) \<Longrightarrow> nonnegative strides \<Longrightarrow> nonnegative (map ((!) strides) p)"
  by (auto simp: nonnegative_def permutes_dims_def)

lemma reorder_bijection:
  assumes "permutes_dims p (length sizes)"
  shows "bij_betw (reorder p) {idx. in_bounds (map ((!) sizes) p) idx} {idx. in_bounds sizes idx}"
proof -
  let ?n = "length sizes"
  note len = permutes_dims_length [OF assms]
  have p: "distinct p" "set p = {..<?n}" using assms by (auto simp: permutes_dims_def)
  have p_nth: "p ! k < ?n" if "k < ?n" for k using nth_mem [of k p] that len p(2) by auto
  have nth: "reorder p idx ! (p ! k) = idx ! k" if "length idx = ?n" "k < ?n" for idx k
    using reorder_nth [OF p(1)] that len p_nth by simp
  show ?thesis
  proof (rule bij_betw_byWitness [where f' = "\<lambda>idx. map ((!) idx) p"])
    show "\<forall>idx \<in> {idx. in_bounds (map ((!) sizes) p) idx}. map ((!) (reorder p idx)) p = idx"
    proof
      fix idx assume "idx \<in> {idx. in_bounds (map ((!) sizes) p) idx}"
      then have "length idx = ?n" using in_bounds_length [of "map ((!) sizes) p" idx] len by simp
      then show "map ((!) (reorder p idx)) p = idx" using nth len by (intro nth_equalityI) auto
    qed
    show "\<forall>idx \<in> {idx. in_bounds sizes idx}. reorder p (map ((!) idx) p) = idx"
    proof
      fix idx assume "idx \<in> {idx. in_bounds sizes idx}"
      then have l: "length idx = ?n" using in_bounds_length [of sizes idx] by simp
      show "reorder p (map ((!) idx) p) = idx"
      proof (rule nth_equalityI)
        show "length (reorder p (map ((!) idx) p)) = length idx" using l len by (simp add: reorder_def)
        fix d assume "d < length (reorder p (map ((!) idx) p))"
        then have "d \<in> set p" using p(2) len by (simp add: reorder_def)
        then obtain k where "k < ?n" "p ! k = d" using len by (auto simp: in_set_conv_nth)
        then show "reorder p (map ((!) idx) p) ! d = idx ! d" using nth [of "map ((!) idx) p" k] len by simp
      qed
    qed
    show "reorder p ` {idx. in_bounds (map ((!) sizes) p) idx} \<subseteq> {idx. in_bounds sizes idx}"
      using permute_view.source_in_bounds [of p sizes] p by auto
    show "(\<lambda>idx. map ((!) idx) p) ` {idx. in_bounds sizes idx} \<subseteq> {idx. in_bounds (map ((!) sizes) p) idx}"
      using p_nth len by (auto simp: in_bounds_nth)
  qed
qed

lemma dense_permuted:
  assumes "permutes_dims p (length sizes)" "length strides = length sizes"
  shows "dense (map ((!) sizes) p) (map ((!) strides) p) \<longleftrightarrow> dense sizes strides"
proof -
  let ?A = "{idx. in_bounds (map ((!) sizes) p) idx}"
  have "dense sizes strides \<longleftrightarrow> bij_betw (element_offset strides \<circ> reorder p) ?A {0..<multiply_integers sizes}"
    unfolding dense_def by (rule bij_betw_comp_iff [OF reorder_bijection [OF assms(1)]])
  also have "\<dots> \<longleftrightarrow> bij_betw (element_offset (map ((!) strides) p)) ?A {0..<multiply_integers sizes}"
    using permute_view.source_offset [of p sizes strides] assms by (intro bij_betw_cong) (auto simp: permutes_dims_def)
  finally show ?thesis unfolding dense_def permuted_numel [OF assms(1)] by simp
qed

lemma dims_at_simps [simp]: "map fst (dims_at sizes strides p) = map ((!) sizes) p" "map snd (dims_at sizes strides p) = map ((!) strides) p"
  by (simp_all add: dims_at_def)

text \<open>Whatever order sorting leaves that agrees with the comparison, the loop decides whether the tensor is dense.\<close>

lemma sorted_loop_dense:
  assumes "permutes_dims p (length sizes)" "length strides = length sizes" "positive sizes" "nonnegative strides"
    "sorted_wrt (\<lambda>a b. \<not> sorts_before sizes strides b a) p"
  shows "dense_loop (dims_at sizes strides p) 1 \<longleftrightarrow> dense sizes strides"
proof -
  have "stride_ordered (dims_at sizes strides p)" using assms(5)
    unfolding stride_ordered_def dims_at_def sorted_wrt_map by (rule sorted_wrt_mono_rel [rotated]) (auto simp: sorts_before_def split: if_splits)
  then have "dense_loop (dims_at sizes strides p) 1 \<longleftrightarrow> fills 1 (map ((!) sizes) p) (map ((!) strides) p)"
    using dense_loop_iff [of "dims_at sizes strides p" 1] permuted_positive [OF assms(1,3)] permuted_nonnegative [of p strides] assms(1,2,4) by simp
  then show ?thesis using dense_permuted [OF assms(1,2)] by (simp add: dense_fills)
qed

lemma sort_by_stride_sorts:
  "permutes_dims (sort_by_stride sizes strides [0..<n]) n" "sorted_wrt (\<lambda>a b. \<not> sorts_before sizes strides b a) (sort_by_stride sizes strides [0..<n])"
proof -
  show "permutes_dims (sort_by_stride sizes strides [0..<n]) n" by (auto simp: permutes_dims_def sort_by_stride_def)
  let ?big = "sort_key (\<lambda>d. strides ! d) (filter (\<lambda>d. \<not> sizes ! d < 2) [0..<n])"
  have "sorted_wrt (\<lambda>a b. strides ! a \<le> strides ! b) ?big" using sorted_sort_key [of "\<lambda>d. strides ! d"] by (simp add: sorted_wrt_map)
  then have "sorted_wrt (\<lambda>a b. \<not> sorts_before sizes strides b a) ?big" by (rule sorted_wrt_mono_rel [rotated]) (auto simp: sorts_before_def)
  moreover have "sorted_wrt (\<lambda>a b. \<not> sorts_before sizes strides b a) (filter (\<lambda>d. sizes ! d < 2) [0..<n])"
    by (rule sorted_wrt_mono_rel [of _ "\<lambda>a b. True"]) (auto simp: sorts_before_def sorted_wrt_iff_nth_less)
  ultimately show "sorted_wrt (\<lambda>a b. \<not> sorts_before sizes strides b a) (sort_by_stride sizes strides [0..<n])"
    by (auto simp: sort_by_stride_def sorted_wrt_append sorts_before_def)
qed

lemma non_overlapping_and_dense_iff:
  assumes "length strides = length sizes" "positive sizes" "nonnegative strides"
  shows "compute_non_overlapping_and_dense sizes strides \<longleftrightarrow> dense sizes strides"
proof -
  note loop = sorted_loop_dense [OF sort_by_stride_sorts(1) assms sort_by_stride_sorts(2)]
  show ?thesis
  proof (cases "length sizes = 1")
    case True
    then have "sort_by_stride sizes strides [0..<length sizes] = [0]" by (simp add: sort_by_stride_def)
    then show ?thesis using loop True by (auto simp: compute_non_overlapping_and_dense_def dims_at_def split: if_splits)
  next
    case False
    then show ?thesis using loop by (simp add: compute_non_overlapping_and_dense_def)
  qed
qed

lemma ordered_loop_dense:
  assumes "contiguous_loop (dims_at sizes strides p) 1" "permutes_dims p (length sizes)" "length strides = length sizes" "positive sizes"
  shows "dense sizes strides"
proof -
  have "fills 1 (map ((!) sizes) p) (map ((!) strides) p)"
    using contiguous_loop_fills [OF assms(1)] permuted_positive [OF assms(2,4)] by simp
  then show ?thesis using dense_permuted [OF assms(2,3)] by (simp add: dense_fills)
qed

end
