(* ===== verification/TensorOverlap.thy ===== *)
theory TensorOverlap
  imports TensorLayouts ViewSafety
begin

text \<open>
  The flags that a tensor caches about its layout (\<open>TensorImpl::_refresh_contiguous\<close>), the tests for overlap of
  \<open>ATen/MemoryOverlap.cpp\<close> that rely on them, and the dense strides that \<open>infer_dense_strides\<close> (\<open>ATen/ExpandUtils.cpp\<close>) gives a tensor.
\<close>

section \<open>Cached flags\<close>

record layout_flags =
  is_contiguous :: bool
  is_channels_last_contiguous :: bool
  is_channels_last_3d_contiguous :: bool
  is_channels_last :: bool
  is_channels_last_3d :: bool
  is_non_overlapping_and_dense :: bool

definition refresh_contiguous :: "int list \<Rightarrow> int list \<Rightarrow> int \<Rightarrow> layout_flags" where
  "refresh_contiguous sizes strides numel =
     (if length sizes = 4 then
        let contiguous = compute_contiguous sizes strides numel;
            channels_last_contiguous = compute_channels_last_contiguous_2d sizes strides
        in \<lparr> is_contiguous = contiguous, is_channels_last_contiguous = channels_last_contiguous, is_channels_last_3d_contiguous = False,
             is_channels_last = is_channels_last_strides_2d sizes strides, is_channels_last_3d = False,
             is_non_overlapping_and_dense = contiguous \<or> channels_last_contiguous \<or> compute_non_overlapping_and_dense sizes strides \<rparr>
      else if length sizes = 5 then
        let contiguous = compute_contiguous sizes strides numel;
            channels_last_contiguous = compute_channels_last_contiguous_2d sizes strides;
            channels_last_3d_contiguous = (\<not> channels_last_contiguous \<and> compute_channels_last_contiguous_3d sizes strides);
            channels_last = (\<not> channels_last_3d_contiguous \<and> is_channels_last_strides_2d sizes strides)
        in \<lparr> is_contiguous = contiguous, is_channels_last_contiguous = channels_last_contiguous, is_channels_last_3d_contiguous = channels_last_3d_contiguous,
             is_channels_last = channels_last, is_channels_last_3d = (\<not> channels_last \<and> is_channels_last_strides_3d sizes strides),
             is_non_overlapping_and_dense = contiguous \<or> channels_last_contiguous \<or> channels_last_3d_contiguous \<or> compute_non_overlapping_and_dense sizes strides \<rparr>
      else
        let contiguous = compute_contiguous sizes strides numel
        in \<lparr> is_contiguous = contiguous, is_channels_last_contiguous = False, is_channels_last_3d_contiguous = False,
             is_channels_last = False, is_channels_last_3d = False, is_non_overlapping_and_dense = contiguous \<or> compute_non_overlapping_and_dense sizes strides \<rparr>)"

text \<open>The elements lie in memory in row-major order.\<close>

definition row_major :: "int list \<Rightarrow> int list \<Rightarrow> bool" where
  "row_major sizes strides \<longleftrightarrow> (\<forall>idx. in_bounds sizes idx \<longrightarrow> element_offset strides idx = position sizes idx)"

lemma contiguous_loop_append:
  "contiguous_loop (dims @ [(n, s)]) e \<longleftrightarrow> contiguous_loop dims e \<and> (n = 1 \<or> s = e * multiply_integers (map fst dims))"
  by (induction dims e rule: contiguous_loop.induct) (auto simp: mult.assoc)

lemma row_major_Cons:
  assumes "positive (n # sizes)"
  shows "row_major (n # sizes) (s # strides) \<longleftrightarrow> row_major sizes strides \<and> (n = 1 \<or> s = multiply_integers sizes)"
proof
  assume r: "row_major (n # sizes) (s # strides)"
  have tail: "element_offset strides idx = position sizes idx" if "in_bounds sizes idx" for idx
    using r that assms unfolding row_major_def by (auto dest!: spec [of _ "0 # idx"])
  moreover have "s = multiply_integers sizes" if "n \<noteq> 1"
  proof -
    have z: "in_bounds sizes (replicate (length sizes) 0)" using zero_in_bounds assms by simp
    then have "in_bounds (n # sizes) (1 # replicate (length sizes) 0)" using that assms by simp
    then show ?thesis using r tail [OF z] unfolding row_major_def by fastforce
  qed
  ultimately show "row_major sizes strides \<and> (n = 1 \<or> s = multiply_integers sizes)" by (auto simp: row_major_def)
next
  assume r: "row_major sizes strides \<and> (n = 1 \<or> s = multiply_integers sizes)"
  show "row_major (n # sizes) (s # strides)" unfolding row_major_def
  proof (intro allI impI)
    fix idx assume b: "in_bounds (n # sizes) idx"
    then obtain i js where "idx = i # js" "0 \<le> i" "i < n" "in_bounds sizes js" by (cases idx) auto
    then show "element_offset (s # strides) idx = position (n # sizes) idx" using r by (auto simp: row_major_def)
  qed
qed

lemma contiguous_loop_row_major:
  assumes "length strides = length sizes" "positive sizes"
  shows "contiguous_loop (rev (zip sizes strides)) 1 \<longleftrightarrow> row_major sizes strides"
  using assms
proof (induction strides sizes rule: list_induct2)
  case (Cons s strides n sizes)
  have "multiply_integers (map fst (rev (zip sizes strides))) = multiply_integers sizes" using rev_zip_fst [of strides sizes] Cons(1) by simp
  then show ?case using Cons row_major_Cons [of n sizes s strides] by (simp add: contiguous_loop_append)
qed (simp add: row_major_def)

lemma dims_at_rev: "dims_at sizes strides (rev p) = rev (zip (map ((!) sizes) p) (map ((!) strides) p))"
  by (simp add: dims_at_def rev_map zip_map_map map_zip_map zip_same_conv_map)

lemma compute_contiguous_iff:
  assumes "length strides = length sizes" "positive sizes"
  shows "compute_contiguous sizes strides (multiply_integers sizes) \<longleftrightarrow> row_major sizes strides"
proof -
  have "multiply_integers sizes \<noteq> 0" using positive_numel [OF assms(2)] by simp
  moreover have "map ((!) sizes) [0..<length sizes] = sizes" "map ((!) strides) [0..<length sizes] = strides" using assms(1) map_nth [of strides] by (auto simp: map_nth)
  ultimately show ?thesis using contiguous_loop_row_major [OF assms] by (simp add: compute_contiguous_def dims_at_rev)
qed

lemma channels_last_iff:
  assumes "length strides = length sizes" "positive sizes" "permutes_dims p (length sizes)"
  shows "contiguous_loop (dims_at sizes strides (rev p)) 1 \<longleftrightarrow> row_major (map ((!) sizes) p) (map ((!) strides) p)"
  unfolding dims_at_rev using permuted_positive [OF assms(3,2)] by (intro contiguous_loop_row_major) simp_all

lemma permutes_rev: "permutes_dims (rev p) n \<longleftrightarrow> permutes_dims p n"
  by (simp add: permutes_dims_def)

lemma channels_last_orders: "permutes_dims [0, 2, 3, 1] 4" "permutes_dims [0, 2, 3, 4, 1] 5"
  by (auto simp: permutes_dims_def)

text \<open>The two functions that test for contiguity agree.\<close>

lemma geometry_loop_iff:
  assumes "nonnegative (map fst dims)"
  shows "geometry_loop dims e c \<longleftrightarrow> 0 \<in> fst ` set dims \<or> (c \<and> contiguous_loop dims e)"
  using assms by (induction dims e c rule: geometry_loop.induct) auto

theorem contiguity_tests_agree:
  assumes "nonnegative sizes"
  shows "geometry_is_contiguous sizes strides \<longleftrightarrow> compute_contiguous sizes strides (multiply_integers sizes)"
proof -
  let ?dims = "dims_at sizes strides (rev [0..<length sizes])"
  have "map fst ?dims = rev sizes" by (simp add: rev_map [symmetric] map_nth)
  moreover have "fst ` set ?dims = set (map fst ?dims)" by (simp only: set_map)
  ultimately show ?thesis using geometry_loop_iff [of ?dims 1 True] assms
    by (simp add: geometry_is_contiguous_def compute_contiguous_def numel_zero_iff del: dims_at_simps)
qed

lemma layout_flags_iff:
  assumes "length strides = length sizes" "positive sizes" "nonnegative strides"
  defines "f \<equiv> refresh_contiguous sizes strides (multiply_integers sizes)"
  shows "is_contiguous f \<longleftrightarrow> row_major sizes strides"
    and "is_channels_last_contiguous f \<longleftrightarrow> length sizes = 4 \<and> row_major (map ((!) sizes) [0, 2, 3, 1]) (map ((!) strides) [0, 2, 3, 1])"
    and "is_channels_last_3d_contiguous f \<longleftrightarrow> length sizes = 5 \<and> row_major (map ((!) sizes) [0, 2, 3, 4, 1]) (map ((!) strides) [0, 2, 3, 4, 1])"
    and dense_flag_iff: "is_non_overlapping_and_dense f \<longleftrightarrow> dense sizes strides"
proof -
  note c = compute_contiguous_iff [OF assms(1,2)] and nod = non_overlapping_and_dense_iff [OF assms(1-3)]
  have c2: "compute_channels_last_contiguous_2d sizes strides \<longleftrightarrow> length sizes = 4 \<and> row_major (map ((!) sizes) [0, 2, 3, 1]) (map ((!) strides) [0, 2, 3, 1])"
    using channels_last_iff [OF assms(1,2), of "[0, 2, 3, 1]"] channels_last_orders by (auto simp: compute_channels_last_contiguous_2d_def)
  have c3: "compute_channels_last_contiguous_3d sizes strides \<longleftrightarrow> length sizes = 5 \<and> row_major (map ((!) sizes) [0, 2, 3, 4, 1]) (map ((!) strides) [0, 2, 3, 4, 1])"
    using channels_last_iff [OF assms(1,2), of "[0, 2, 3, 4, 1]"] channels_last_orders by (auto simp: compute_channels_last_contiguous_3d_def)
  have numel: "multiply_integers sizes \<noteq> 0" using positive_numel [OF assms(2)] by simp
  have "dense sizes strides" if "compute_contiguous sizes strides (multiply_integers sizes)"
    using that numel ordered_loop_dense [OF _ _ assms(1,2), of "rev [0..<length sizes]"] by (simp add: compute_contiguous_def permutes_dims_def atLeast0LessThan)
  moreover have "dense sizes strides" if "compute_channels_last_contiguous_2d sizes strides"
    using that ordered_loop_dense [OF _ _ assms(1,2), of "[1, 3, 2, 0]"] permutes_rev [of "[0, 2, 3, 1]" 4] channels_last_orders
    by (auto simp: compute_channels_last_contiguous_2d_def split: if_splits)
  moreover have "dense sizes strides" if "compute_channels_last_contiguous_3d sizes strides"
    using that ordered_loop_dense [OF _ _ assms(1,2), of "[1, 4, 3, 2, 0]"] permutes_rev [of "[0, 2, 3, 4, 1]" 5] channels_last_orders
    by (auto simp: compute_channels_last_contiguous_3d_def split: if_splits)
  ultimately show "is_contiguous f \<longleftrightarrow> row_major sizes strides"
    and "is_channels_last_contiguous f \<longleftrightarrow> length sizes = 4 \<and> row_major (map ((!) sizes) [0, 2, 3, 1]) (map ((!) strides) [0, 2, 3, 1])"
    and "is_channels_last_3d_contiguous f \<longleftrightarrow> length sizes = 5 \<and> row_major (map ((!) sizes) [0, 2, 3, 4, 1]) (map ((!) strides) [0, 2, 3, 4, 1])"
    and "is_non_overlapping_and_dense f \<longleftrightarrow> dense sizes strides"
    unfolding f_def refresh_contiguous_def Let_def using c c2 c3 nod by auto
qed

text \<open>C38: for a tensor with elements, the cached flags say what they promise: contiguous means
  row-major order, channels-last contiguous means row-major order of the permuted dimensions, and non-overlapping and dense
  means that the elements fill a block of memory one to one, although it is found by short cuts.\<close>

theorem flags_describe_memory:
  assumes "length strides = length sizes" "positive sizes" "nonnegative strides"
  defines "f \<equiv> refresh_contiguous sizes strides (multiply_integers sizes)"
  shows "(is_contiguous f \<longleftrightarrow> row_major sizes strides) \<and>
    (is_channels_last_contiguous f \<longleftrightarrow> length sizes = 4 \<and> row_major (map ((!) sizes) [0, 2, 3, 1]) (map ((!) strides) [0, 2, 3, 1])) \<and>
    (is_channels_last_3d_contiguous f \<longleftrightarrow> length sizes = 5 \<and> row_major (map ((!) sizes) [0, 2, 3, 4, 1]) (map ((!) strides) [0, 2, 3, 4, 1])) \<and>
    (is_non_overlapping_and_dense f \<longleftrightarrow> dense sizes strides)"
  using layout_flags_iff [OF assms(1-3)] unfolding f_def by blast

theorem flags_describe_memory_witness:
  "is_non_overlapping_and_dense (refresh_contiguous [2, 3] [1, 2] 6) \<and> dense [2, 3] [1, 2] \<and> \<not> row_major [2, 3] [1, 2] \<and> \<not> dense [2, 3] [1, 1]"
proof -
  have "is_non_overlapping_and_dense (refresh_contiguous [2, 3] [1, 2] 6)" "\<not> is_contiguous (refresh_contiguous [2, 3] [1, 2] 6)"
    "\<not> is_non_overlapping_and_dense (refresh_contiguous [2, 3] [1, 1] 6)"
    by (simp_all add: refresh_contiguous_def compute_contiguous_def compute_non_overlapping_and_dense_def dims_at_def sort_by_stride_def)
  then show ?thesis using flags_describe_memory [of "[1, 2]" "[2, 3]"] flags_describe_memory [of "[1, 1]" "[2, 3]"] by simp
qed

section \<open>Overlap\<close>

datatype MemOverlap = OverlapNo | OverlapYes | OverlapTooHard

datatype MemOverlapStatus = StatusFull | StatusPartial | StatusNo | StatusTooHard

definition non_overlapping_and_dense :: "strided_tensor \<Rightarrow> bool" where
  "non_overlapping_and_dense t \<longleftrightarrow> is_non_overlapping_and_dense (refresh_contiguous (t_sizes t) (t_strides t) (t_numel t))"

definition has_internal_overlap :: "strided_tensor \<Rightarrow> MemOverlap" where
  "has_internal_overlap t =
     (if non_overlapping_and_dense t then OverlapNo
      else if \<exists>i \<in> set [0..<length (t_strides t)]. t_sizes t ! i > 1 \<and> t_strides t ! i = 0 then OverlapYes
      else OverlapTooHard)"

text \<open>
  \<open>same\<close> tells whether both are the same tensor object, \<open>alias\<close> whether they have the same storage. Addresses are
  relative to the first byte of that storage.
\<close>

definition get_overlap_status :: "bool \<Rightarrow> bool \<Rightarrow> strided_tensor \<Rightarrow> strided_tensor \<Rightarrow> MemOverlapStatus" where
  "get_overlap_status same alias a b =
     (if same then StatusFull
      else if t_numel a = 0 \<or> t_numel b = 0 then StatusNo
      else if \<not> non_overlapping_and_dense a \<or> \<not> non_overlapping_and_dense b then StatusTooHard
      else if alias then
        let a_begin = t_offset a * t_itemsize a; a_end = a_begin + t_numel a * t_itemsize a;
            b_begin = t_offset b * t_itemsize b; b_end = b_begin + t_numel b * t_itemsize b
        in if a_begin = b_begin \<and> a_end = b_end then (if t_strides a = t_strides b then StatusFull else StatusPartial)
           else if a_begin < b_end \<and> b_begin < a_end then StatusPartial
           else StatusNo
      else StatusNo)"

definition assert_no_internal_overlap :: "strided_tensor \<Rightarrow> unit result" where
  "assert_no_internal_overlap t = check (has_internal_overlap t \<noteq> OverlapYes)
     (CheckError ''unsupported operation: more than one element of the written-to tensor refers to a single memory location.'')"

definition assert_no_partial_overlap :: "bool \<Rightarrow> bool \<Rightarrow> strided_tensor \<Rightarrow> strided_tensor \<Rightarrow> unit result" where
  "assert_no_partial_overlap same alias a b = check (get_overlap_status same alias a b \<noteq> StatusPartial)
     (CheckError ''unsupported operation: some elements of the input tensor and the written-to tensor refer to a single memory location.'')"

definition assert_no_overlap :: "bool \<Rightarrow> bool \<Rightarrow> strided_tensor \<Rightarrow> strided_tensor \<Rightarrow> unit result" where
  "assert_no_overlap same alias a b = (let lap = get_overlap_status same alias a b in check (lap \<noteq> StatusPartial \<and> lap \<noteq> StatusFull)
     (CheckError ''unsupported operation: some elements of the input tensor and the written-to tensor refer to a single memory location.''))"

text \<open>The bytes of the elements of a tensor.\<close>

definition tensor_bytes :: "strided_tensor \<Rightarrow> int set" where
  "tensor_bytes t = {k. \<exists>idx. in_bounds (t_sizes t) idx \<and> location t idx * t_itemsize t \<le> k \<and> k < (location t idx + 1) * t_itemsize t}"

lemma empty_tensor_bytes:
  assumes "tensor_ok t" "t_numel t = 0"
  shows "tensor_bytes t = {}"
proof -
  have "0 \<in> set (t_sizes t)" using assms(2) by (simp add: t_numel_def numel_zero_iff)
  then show ?thesis using in_bounds_not_zero by (auto simp: tensor_bytes_def)
qed

lemma tensor_positive: "tensor_ok t \<Longrightarrow> t_numel t \<noteq> 0 \<Longrightarrow> positive (t_sizes t)"
  using positive_iff_numel tensor_ok_nonnegative(1) by (simp add: t_numel_def)

lemma dense_flag:
  assumes "tensor_ok t" "t_numel t \<noteq> 0"
  shows "non_overlapping_and_dense t \<longleftrightarrow> dense (t_sizes t) (t_strides t)"
proof -
  note ok = tensor_ok_lengths [OF assms(1)] tensor_positive [OF assms] tensor_ok_nonnegative(2) [OF assms(1)]
  show ?thesis using dense_flag_iff [OF ok] by (simp add: non_overlapping_and_dense_def t_numel_def)
qed

lemma dense_tensor_bytes:
  assumes "tensor_ok t" "dense (t_sizes t) (t_strides t)"
  shows "tensor_bytes t = {t_offset t * t_itemsize t..<t_offset t * t_itemsize t + t_numel t * t_itemsize t}"
proof -
  let ?it = "t_itemsize t"
  have it: "0 < ?it" using assms(1) by (simp add: tensor_ok_def)
  have img: "element_offset (t_strides t) ` {idx. in_bounds (t_sizes t) idx} = {0..<t_numel t}" using assms(2) by (simp add: dense_def bij_betw_def t_numel_def)
  have "tensor_bytes t = {k. \<exists>v \<in> element_offset (t_strides t) ` {idx. in_bounds (t_sizes t) idx}. (t_offset t + v) * ?it \<le> k \<and> k < (t_offset t + v + 1) * ?it}"
    by (auto simp: tensor_bytes_def location_def)
  also have "\<dots> = {k. \<exists>v \<in> {0..<t_numel t}. (t_offset t + v) * ?it \<le> k \<and> k < (t_offset t + v + 1) * ?it}" unfolding img ..
  also have "\<dots> = {t_offset t * ?it..<t_offset t * ?it + t_numel t * ?it}" (is "?L = ?R")
  proof (intro equalityI subsetI)
    fix k assume "k \<in> ?L"
    then obtain v where v: "0 \<le> v" "v < t_numel t" "(t_offset t + v) * ?it \<le> k" "k < (t_offset t + v + 1) * ?it" by auto
    have "t_offset t * ?it \<le> (t_offset t + v) * ?it" "(t_offset t + v + 1) * ?it \<le> (t_offset t + t_numel t) * ?it" using v(1,2) it by (auto intro!: mult_right_mono)
    then show "k \<in> ?R" using v(3,4) by (simp add: distrib_right)
  next
    fix k assume k: "k \<in> ?R"
    let ?v = "(k - t_offset t * ?it) div ?it"
    have m: "0 \<le> (k - t_offset t * ?it) mod ?it" "(k - t_offset t * ?it) mod ?it < ?it" "?v * ?it + (k - t_offset t * ?it) mod ?it = k - t_offset t * ?it" using it by simp_all
    have "0 \<le> ?v" "?v < t_numel t" using k it div_less_factor [OF it, of "k - t_offset t * ?it" "t_numel t"] by (auto simp: pos_imp_zdiv_nonneg_iff mult.commute)
    moreover have "(t_offset t + ?v) * ?it \<le> k" "k < (t_offset t + ?v + 1) * ?it" using m unfolding distrib_right by linarith+
    ultimately show "k \<in> ?L" by (auto intro!: bexI [of _ ?v])
  qed
  finally show ?thesis .
qed

text \<open>C39: the answers of \<open>get_overlap_status\<close> for different tensors over one storage are right: after
  \<open>StatusNo\<close> they have no byte in common, after \<open>StatusFull\<close> they have the same bytes, after \<open>StatusPartial\<close> some byte is shared.\<close>

theorem overlap_status_sound:
  assumes "tensor_ok a" "tensor_ok b"
  shows "case get_overlap_status False True a b of
      StatusNo \<Rightarrow> tensor_bytes a \<inter> tensor_bytes b = {}
    | StatusFull \<Rightarrow> tensor_bytes a = tensor_bytes b
    | StatusPartial \<Rightarrow> tensor_bytes a \<inter> tensor_bytes b \<noteq> {}
    | StatusTooHard \<Rightarrow> \<not> dense (t_sizes a) (t_strides a) \<or> \<not> dense (t_sizes b) (t_strides b)"
proof (cases "t_numel a = 0 \<or> t_numel b = 0")
  case True
  then show ?thesis using empty_tensor_bytes assms by (auto simp: get_overlap_status_def)
next
  case False
  note flags = dense_flag [OF assms(1)] dense_flag [OF assms(2)]
  show ?thesis
  proof (cases "dense (t_sizes a) (t_strides a) \<and> dense (t_sizes b) (t_strides b)")
    case nd: False
    then show ?thesis using flags False by (auto simp: get_overlap_status_def)
  next
    case d: True
    have n: "0 < t_numel a * t_itemsize a" "0 < t_numel b * t_itemsize b"
      using False numel_nonneg [OF assms(1)] numel_nonneg [OF assms(2)] assms by (auto simp: tensor_ok_def intro!: mult_pos_pos)
    note bytes = dense_tensor_bytes [OF assms(1)] dense_tensor_bytes [OF assms(2)]
    define x where "x = t_offset a * t_itemsize a"
    define y where "y = t_offset b * t_itemsize b"
    define l where "l = t_numel a * t_itemsize a"
    define m where "m = t_numel b * t_itemsize b"
    have ab: "tensor_bytes a = {x..<x + l}" "tensor_bytes b = {y..<y + m}" using bytes d by (simp_all add: x_def y_def l_def m_def)
    have s: "get_overlap_status False True a b =
      (if x = y \<and> x + l = y + m then (if t_strides a = t_strides b then StatusFull else StatusPartial)
       else if x < y + m \<and> y < x + l then StatusPartial else StatusNo)"
      using False flags d by (simp add: get_overlap_status_def x_def y_def l_def m_def Let_def)
    have "max x y \<in> {x..<x + l} \<inter> {y..<y + m}" if "x < y + m" "y < x + l" using that n by (auto simp: l_def m_def)
    moreover have "{x..<x + l} \<inter> {y..<y + m} = {}" if "\<not> (x < y + m \<and> y < x + l)" using that by auto
    moreover have "x \<in> {x..<x + l}" using n by (simp add: l_def)
    ultimately show ?thesis unfolding s ab by auto
  qed
qed

theorem overlap_status_sound_witness:
  "tensor_bytes \<lparr> t_sizes = [2, 2], t_strides = [2, 1], t_offset = 0, t_itemsize = 4, t_nbytes = 48 \<rparr> \<inter>
   tensor_bytes \<lparr> t_sizes = [4, 2], t_strides = [1, 4], t_offset = 4, t_itemsize = 4, t_nbytes = 48 \<rparr> = {}"
proof -
  let ?a = "\<lparr> t_sizes = [2, 2], t_strides = [2, 1], t_offset = 0, t_itemsize = 4, t_nbytes = 48 \<rparr>"
  let ?b = "\<lparr> t_sizes = [4, 2], t_strides = [1, 4], t_offset = 4, t_itemsize = 4, t_nbytes = 48 \<rparr>"
  have "tensor_ok ?a" "tensor_ok ?b" by (simp_all add: tensor_ok_def representable_def within_storage_def)
  moreover have "get_overlap_status False True ?a ?b = StatusNo"
    by (simp add: get_overlap_status_def non_overlapping_and_dense_def refresh_contiguous_def t_numel_def compute_contiguous_def
        compute_non_overlapping_and_dense_def dims_at_def sort_by_stride_def)
  ultimately show ?thesis using overlap_status_sound [of ?a ?b] by simp
qed

text \<open>Overlap within one tensor.\<close>

theorem internal_overlap_sound:
  assumes "tensor_ok t"
  shows "case has_internal_overlap t of
      OverlapNo \<Rightarrow> inj_on (location t) {idx. in_bounds (t_sizes t) idx}
    | OverlapYes \<Rightarrow> \<not> inj_on (location t) {idx. in_bounds (t_sizes t) idx}
    | OverlapTooHard \<Rightarrow> True"
proof (cases "t_numel t = 0")
  case True
  have "\<not> in_bounds (t_sizes t) idx" for idx using True in_bounds_not_zero by (auto simp: t_numel_def numel_zero_iff)
  moreover have "has_internal_overlap t = OverlapNo"
    using True by (simp add: has_internal_overlap_def non_overlapping_and_dense_def refresh_contiguous_def compute_contiguous_def Let_def)
  ultimately show ?thesis by (simp add: inj_on_def)
next
  case False
  note pos = tensor_positive [OF assms False] and len = tensor_ok_lengths [OF assms]
  show ?thesis
  proof (cases "has_internal_overlap t")
    case OverlapNo
    then have "dense (t_sizes t) (t_strides t)" using dense_flag [OF assms False] by (auto simp: has_internal_overlap_def split: if_splits)
    then show ?thesis using OverlapNo by (simp add: dense_def bij_betw_def inj_on_def location_def)
  next
    case OverlapYes
    then obtain d where d: "d < length (t_sizes t)" "1 < t_sizes t ! d" "t_strides t ! d = 0"
      using len by (auto simp: has_internal_overlap_def split: if_splits)
    let ?i = "\<lambda>i :: int. (replicate (length (t_sizes t)) 0)[d := i]"
    have "in_bounds (t_sizes t) (?i 0)" "in_bounds (t_sizes t) (?i 1)" using d by (auto intro!: in_bounds_unit [OF pos])
    moreover have "location t (?i 0) = location t (?i 1)" using offset_unit [OF len d(1)] d(3) by (simp add: location_def)
    moreover have "?i 0 \<noteq> ?i 1" using d(1) nth_list_update_eq [of d "replicate (length (t_sizes t)) (0 :: int)"] by (metis length_replicate zero_neq_one)
    ultimately show ?thesis using OverlapYes by (auto dest: inj_onD)
  qed simp
qed

end
