(* ===== verification/DenseStrides.thy ===== *)
theory DenseStrides
  imports TensorOverlap
begin

text \<open>
  \<open>infer_dense_strides\<close> (\<open>ATen/ExpandUtils.cpp\<close>): strides for a new tensor that keep the order of the dimensions of an existing one.
  The dimensions are sorted by an insertion sort whose comparison may be undecided, so that it is not an order; whatever it
  leaves, the result is dense.
\<close>

section \<open>The algorithm\<close>

definition should_swap :: "int list \<Rightarrow> int list \<Rightarrow> nat \<Rightarrow> nat \<Rightarrow> int" where
  "should_swap tensor_sizes tensor_strides dim0 dim1 = (let stride0 = tensor_strides ! dim0; stride1 = tensor_strides ! dim1 in
     if stride0 = 0 \<or> stride1 = 0 then 0
     else if stride0 < stride1 then -1
     else if stride0 > stride1 then 1
     else if tensor_sizes ! dim0 > tensor_sizes ! dim1 then 1
     else 0)"

text \<open>The inner loop over \<open>dim0 = i - 1, \<dots>, 0\<close>; the last argument is the number of rounds that remain.\<close>

fun insert_dim :: "(nat \<Rightarrow> nat \<Rightarrow> int) \<Rightarrow> nat list \<Rightarrow> nat \<Rightarrow> nat \<Rightarrow> nat list" where
  "insert_dim cmp perm dim1 0 = perm"
| "insert_dim cmp perm dim1 (Suc dim0) = (let comparison = cmp (perm ! dim0) (perm ! dim1) in
     if comparison > 0 then insert_dim cmp (swap dim0 dim1 perm) dim0 dim0
     else if comparison < 0 then perm
     else insert_dim cmp perm dim1 dim0)"

definition sort_dims :: "(nat \<Rightarrow> nat \<Rightarrow> int) \<Rightarrow> nat list \<Rightarrow> nat list" where
  "sort_dims cmp perm = foldl (\<lambda>perm i. insert_dim cmp perm i i) perm [1..<length perm]"

fun assign_strides :: "int list \<Rightarrow> nat list \<Rightarrow> int \<Rightarrow> int list \<Rightarrow> int list" where
  "assign_strides tensor_sizes [] curr_stride out_strides = out_strides"
| "assign_strides tensor_sizes (idx # perm) curr_stride out_strides =
     assign_strides tensor_sizes perm (if tensor_sizes ! idx > 1 then curr_stride * tensor_sizes ! idx else curr_stride) (out_strides[idx := curr_stride])"

definition infer_dense_strides :: "int list \<Rightarrow> int list \<Rightarrow> int list result" where
  "infer_dense_strides tensor_sizes tensor_strides =
     bindE (check (length tensor_sizes = length tensor_strides) (CheckError ''Input sizes and strides should have same size'')) (\<lambda>_.
       let ndim = length tensor_sizes in
       if ndim = 0 then Inr []
       else if ndim = 1 then Inr [1]
       else let perm = sort_dims (should_swap tensor_sizes tensor_strides) (rev [0..<ndim])
         in Inr (assign_strides tensor_sizes perm 1 (replicate ndim 0)))"

section \<open>The result is dense\<close>

lemma permutes_swap: "permutes_dims p n \<Longrightarrow> i < length p \<Longrightarrow> j < length p \<Longrightarrow> permutes_dims (swap i j p) n"
  by (simp add: permutes_dims_def swap_def)

lemma insert_dim_permutes:
  "permutes_dims p n \<Longrightarrow> dim1 < length p \<Longrightarrow> k \<le> dim1 \<Longrightarrow> permutes_dims (insert_dim cmp p dim1 k) n \<and> length (insert_dim cmp p dim1 k) = length p"
proof (induction cmp p dim1 k rule: insert_dim.induct)
  case (2 cmp p dim1 dim0)
  have s: "permutes_dims (swap dim0 dim1 p) n" "length (swap dim0 dim1 p) = length p" using permutes_swap [OF 2(3), of dim0 dim1] 2(4,5) by (simp_all add: swap_def)
  show ?case using 2(1) [OF refl _ s(1)] 2(2) [OF refl] 2(3-5) s(2) by (auto simp: Let_def)
qed simp

lemma sort_dims_permutes:
  assumes "permutes_dims p n"
  shows "permutes_dims (sort_dims cmp p) n"
proof -
  have "permutes_dims (foldl (\<lambda>perm i. insert_dim cmp perm i i) q is) n" if "permutes_dims q n" "\<forall>i \<in> set is. i < length q" for q "is"
    using that
  proof (induction "is" arbitrary: q)
    case (Cons i "is")
    then show ?case using insert_dim_permutes [of q n i i cmp] by simp
  qed simp
  then show ?thesis using assms by (simp add: sort_dims_def)
qed

lemma assign_strides_other: "d \<notin> set perm \<Longrightarrow> assign_strides sizes perm c out ! d = out ! d"
  by (induction sizes perm c out rule: assign_strides.induct) auto

lemma assign_strides_length: "length (assign_strides sizes perm c out) = length out"
  by (induction sizes perm c out rule: assign_strides.induct) auto

lemma assign_strides_contiguous:
  assumes "distinct perm" "\<forall>d \<in> set perm. d < length out \<and> 1 \<le> sizes ! d"
  shows "contiguous_loop (dims_at sizes (assign_strides sizes perm c out) perm) c"
  using assms
proof (induction sizes perm c out rule: assign_strides.induct)
  case (2 sizes d perm c out)
  let ?out = "assign_strides sizes (d # perm) c out"
  have "?out ! d = c" using assign_strides_other [of d perm] 2(2,3) by simp
  moreover have "contiguous_loop (dims_at sizes ?out perm) (if sizes ! d > 1 then c * sizes ! d else c)" using 2(1) 2(2,3) by simp
  moreover have "sizes ! d = 1 \<or> sizes ! d > 1" using 2(3) by force
  ultimately show ?case by (auto simp: dims_at_def)
qed (simp add: dims_at_def)

text \<open>Property: for every tensor with elements \<open>infer_dense_strides\<close> returns strides with which the shape fills a block of
  memory one to one, although its comparison of dimensions is not transitive.\<close>

theorem inferred_strides_dense:
  assumes "length strides = length sizes" "positive sizes"
  shows "\<exists>out. infer_dense_strides sizes strides = Inr out \<and> length out = length sizes \<and> dense sizes out"
proof -
  let ?n = "length sizes"
  consider "?n = 0" | "?n = 1" | "?n \<noteq> 0 \<and> ?n \<noteq> 1" by blast
  then show ?thesis
  proof cases
    case 1
    then show ?thesis using assms(1) by (simp add: infer_dense_strides_def dense_fills fills_Nil)
  next
    case 2
    then obtain n where n: "sizes = [n]" by (auto simp: length_Suc_conv)
    then have "fills 1 [n] [1]" using assms(2) by (simp add: fills_extend fills_Nil)
    then show ?thesis using assms(1) n by (simp add: infer_dense_strides_def dense_fills)
  next
    case 3
    let ?p = "sort_dims (should_swap sizes strides) (rev [0..<?n])"
    let ?out = "assign_strides sizes ?p 1 (replicate ?n 0)"
    have p: "permutes_dims ?p ?n" by (intro sort_dims_permutes) (auto simp: permutes_dims_def)
    have "\<forall>d \<in> set ?p. d < length (replicate ?n (0 :: int)) \<and> 1 \<le> sizes ! d" using p assms(2) by (auto simp: permutes_dims_def positive_def)
    then have "contiguous_loop (dims_at sizes ?out ?p) 1" using p by (intro assign_strides_contiguous) (auto simp: permutes_dims_def)
    then have "dense sizes ?out" using p assms(2) by (intro ordered_loop_dense [of _ _ ?p]) (auto simp: assign_strides_length)
    then show ?thesis using 3 assms(1) by (simp add: infer_dense_strides_def Let_def assign_strides_length)
  qed
qed

theorem inferred_strides_dense_witness:
  "infer_dense_strides [2, 3] [1, 4] = Inr [1, 2] \<and> dense [2, 3] [1, 2]"
proof -
  have "infer_dense_strides [2, 3] [1, 4] = Inr [1, 2]"
    by (simp add: infer_dense_strides_def sort_dims_def should_swap_def swap_def)
  then show ?thesis using inferred_strides_dense [of "[1, 4]" "[2, 3]"] by simp
qed

text \<open>
  The comment of the function says that the strides of a tensor that is dense already are returned unchanged. They are not if a
  dimension has size 1, whose stride is arbitrary.
\<close>

theorem dense_strides_changed:
  "dense [2, 1] [1, 7] \<and> infer_dense_strides [2, 1] [1, 7] = Inr [1, 2]"
proof -
  have "compute_non_overlapping_and_dense [2, 1] [1, 7]"
    by (simp add: compute_non_overlapping_and_dense_def dims_at_def sort_by_stride_def)
  then have "dense [2, 1] [1, 7]" using non_overlapping_and_dense_iff [of "[1, 7]" "[2, 1]"] by simp
  moreover have "infer_dense_strides [2, 1] [1, 7] = Inr [1, 2]"
    by (simp add: infer_dense_strides_def sort_dims_def should_swap_def swap_def)
  ultimately show ?thesis ..
qed

end
