(* ===== verification/PackedSizes.thy ===== *)
theory PackedSizes
  imports Prelude
begin

text \<open>
  \<open>c10/core/impl/SizesAndStrides.h\<close> and \<open>.cpp\<close>: the container in which a tensor keeps its sizes and strides. Up to five dimensions are
  stored in the object, more in a block of memory that the object owns; the two share their place in a union. Memory is
  explicit here: blocks with addresses, accesses that fail outside of a block, and contents that are arbitrary before they are written. An access outside of a block, through a dangling
  pointer or to the inactive member of the union, which C++ leaves undefined, is an error. Allocation succeeds, and \<open>realloc\<close> always moves the block, so
  that a use of the old address is noticed. The debug assertions (\<open>assert(idx < size())\<close>) are checks.
\<close>

section \<open>Memory\<close>

record memory =
  m_blocks :: "nat \<rightharpoonup> int list"
  m_next :: nat             \<comment> \<open>addresses from here on have not been used\<close>
  m_uninit :: "nat \<Rightarrow> int"    \<comment> \<open>what memory holds before it is written\<close>

definition mem_error :: "string \<Rightarrow> 'a result" where
  "mem_error e = Inl (InternalAssert e)"

definition uninit :: "memory \<Rightarrow> nat \<Rightarrow> int list" where
  "uninit h n = map (m_uninit h) [0..<n]"

definition malloc :: "memory \<Rightarrow> nat \<Rightarrow> nat \<times> memory" where
  "malloc h n = (m_next h, h\<lparr> m_blocks := (m_blocks h)(m_next h \<mapsto> uninit h n), m_next := Suc (m_next h) \<rparr>)"

text \<open>Freeing the null pointer does nothing.\<close>

fun mem_free :: "memory \<Rightarrow> nat option \<Rightarrow> memory result" where
  "mem_free h None = Inr h"
| "mem_free h (Some p) = (if m_blocks h p = None then mem_error ''free of memory that is not allocated'' else Inr (h\<lparr> m_blocks := (m_blocks h)(p := None) \<rparr>))"

definition mem_realloc :: "memory \<Rightarrow> nat \<Rightarrow> nat \<Rightarrow> (nat \<times> memory) result" where
  "mem_realloc h p n = (case m_blocks h p of
       None \<Rightarrow> mem_error ''realloc of memory that is not allocated''
     | Some blk \<Rightarrow> Inr (m_next h, h\<lparr> m_blocks := (m_blocks h)(p := None, m_next h \<mapsto> take n blk @ drop (length blk) (uninit h n)), m_next := Suc (m_next h) \<rparr>))"

definition mem_copy :: "int list \<Rightarrow> nat \<Rightarrow> int list \<Rightarrow> nat \<Rightarrow> nat \<Rightarrow> int list result" where
  "mem_copy dst i src j n = (if i + n \<le> length dst \<and> j + n \<le> length src
     then Inr (take i dst @ take n (drop j src) @ drop (i + n) dst) else mem_error ''access out of bounds'')"

definition mem_zero :: "int list \<Rightarrow> nat \<Rightarrow> nat \<Rightarrow> int list result" where
  "mem_zero dst i n = (if i + n \<le> length dst then Inr (take i dst @ replicate n 0 @ drop (i + n) dst) else mem_error ''access out of bounds'')"

section \<open>The container\<close>

definition MAX_INLINE_SIZE :: nat where
  "MAX_INLINE_SIZE = 5"

datatype ss_union = InlineStorage "int list" | OutOfLineStorage "nat option"

record SizesAndStrides =
  ss_size :: nat
  ss_storage :: ss_union

definition isInline :: "SizesAndStrides \<Rightarrow> bool" where
  "isInline s \<longleftrightarrow> ss_size s \<le> MAX_INLINE_SIZE"

fun storage_pointer :: "ss_union \<Rightarrow> nat option" where
  "storage_pointer (InlineStorage _) = None"
| "storage_pointer (OutOfLineStorage p) = p"

fun inline_storage :: "ss_union \<Rightarrow> int list result" where
  "inline_storage (InlineStorage slots) = Inr slots"
| "inline_storage (OutOfLineStorage _) = mem_error ''inactive member of a union''"

fun out_of_line_storage :: "memory \<Rightarrow> ss_union \<Rightarrow> (nat \<times> int list) result" where
  "out_of_line_storage h (OutOfLineStorage (Some p)) = (case m_blocks h p of Some blk \<Rightarrow> Inr (p, blk) | None \<Rightarrow> mem_error ''dangling pointer'')"
| "out_of_line_storage h _ = mem_error ''inactive member of a union''"

definition store_block :: "memory \<Rightarrow> nat \<Rightarrow> int list \<Rightarrow> memory" where
  "store_block h p blk = h\<lparr> m_blocks := (m_blocks h)(p \<mapsto> blk) \<rparr>"

definition default_SizesAndStrides :: SizesAndStrides where
  "default_SizesAndStrides = \<lparr> ss_size = 1, ss_storage = InlineStorage ((replicate (2 * MAX_INLINE_SIZE) 0)[0 := 0, MAX_INLINE_SIZE := 1]) \<rparr>"

definition destroy_SizesAndStrides :: "memory \<Rightarrow> SizesAndStrides \<Rightarrow> memory result" where
  "destroy_SizesAndStrides h s = (if \<not> isInline s then mem_free h (storage_pointer (ss_storage s)) else Inr h)"

text \<open>\<open>copyDataInline\<close> and \<open>copyDataOutline\<close>: the whole array, the whole block.\<close>

definition copyDataInline :: "SizesAndStrides \<Rightarrow> ss_union result" where
  "copyDataInline rhs = bindE (inline_storage (ss_storage rhs)) (\<lambda>slots. Inr (InlineStorage slots))"

definition copyDataOutline :: "memory \<Rightarrow> nat \<Rightarrow> SizesAndStrides \<Rightarrow> memory result" where
  "copyDataOutline h p rhs =
     bindE (out_of_line_storage h (ss_storage rhs)) (\<lambda>(_, src).
     case m_blocks h p of None \<Rightarrow> mem_error ''dangling pointer''
     | Some dst \<Rightarrow> bindE (mem_copy dst 0 src 0 (2 * ss_size rhs)) (\<lambda>dst. Inr (store_block h p dst)))"

definition copy_construct :: "memory \<Rightarrow> SizesAndStrides \<Rightarrow> (memory \<times> SizesAndStrides) result" where
  "copy_construct h rhs =
     (if isInline rhs then bindE (copyDataInline rhs) (\<lambda>st. Inr (h, \<lparr> ss_size = ss_size rhs, ss_storage = st \<rparr>))
      else case malloc h (2 * ss_size rhs) of (p, h) \<Rightarrow>
        bindE (copyDataOutline h p rhs) (\<lambda>h. Inr (h, \<lparr> ss_size = ss_size rhs, ss_storage = OutOfLineStorage (Some p) \<rparr>)))"

text \<open>
  Assignment to another object. The test \<open>this == &rhs\<close> compares the identities of the objects, which are the indices of theory \<open>PackedSizesRuns\<close>; \<open>ss_exec\<close> makes it before
  it calls one of the two assignments.
\<close>

definition assign_copy :: "memory \<Rightarrow> SizesAndStrides \<Rightarrow> SizesAndStrides \<Rightarrow> (memory \<times> SizesAndStrides) result" where
  "assign_copy h this rhs =
     (if isInline rhs then
        bindE (if \<not> isInline this then mem_free h (storage_pointer (ss_storage this)) else Inr h) (\<lambda>h.
        bindE (copyDataInline rhs) (\<lambda>st. Inr (h, \<lparr> ss_size = ss_size rhs, ss_storage = st \<rparr>)))
      else
        bindE (if isInline this then Inr (malloc h (2 * ss_size rhs))
               else bindE (out_of_line_storage h (ss_storage this)) (\<lambda>(p, _). mem_realloc h p (2 * ss_size rhs))) (\<lambda>(p, h).
        bindE (copyDataOutline h p rhs) (\<lambda>h. Inr (h, \<lparr> ss_size = ss_size rhs, ss_storage = OutOfLineStorage (Some p) \<rparr>))))"

text \<open>
  The object that was moved from has size 0. If it had a pointer, this is set to null; what its inline storage then holds
  is the null pointer and left-over bytes.
\<close>

definition moved_from :: "memory \<Rightarrow> ss_union \<Rightarrow> SizesAndStrides" where
  "moved_from h st = \<lparr> ss_size = 0, ss_storage = (case st of InlineStorage slots \<Rightarrow> InlineStorage slots | OutOfLineStorage _ \<Rightarrow> InlineStorage ((uninit h (2 * MAX_INLINE_SIZE))[0 := 0])) \<rparr>"

definition move_construct :: "memory \<Rightarrow> SizesAndStrides \<Rightarrow> (memory \<times> SizesAndStrides \<times> SizesAndStrides) result" where
  "move_construct h rhs =
     bindE (if isInline rhs then copyDataInline rhs else Inr (ss_storage rhs)) (\<lambda>st.
       Inr (h, \<lparr> ss_size = ss_size rhs, ss_storage = st \<rparr>, moved_from h (ss_storage rhs)))"

definition assign_move :: "memory \<Rightarrow> SizesAndStrides \<Rightarrow> SizesAndStrides \<Rightarrow> (memory \<times> SizesAndStrides \<times> SizesAndStrides) result" where
  "assign_move h this rhs =
     bindE (if \<not> isInline this then mem_free h (storage_pointer (ss_storage this)) else Inr h) (\<lambda>h.
     bindE (if isInline rhs then copyDataInline rhs else Inr (ss_storage rhs)) (\<lambda>st.
       Inr (h, \<lparr> ss_size = ss_size rhs, ss_storage = st \<rparr>, moved_from h (ss_storage rhs))))"

section \<open>Access\<close>

text \<open>The array that holds sizes and strides, and where the strides begin in it.\<close>

definition ss_array :: "memory \<Rightarrow> SizesAndStrides \<Rightarrow> int list result" where
  "ss_array h s = (if isInline s then inline_storage (ss_storage s) else bindE (out_of_line_storage h (ss_storage s)) (\<lambda>(_, blk). Inr blk))"

definition strides_start :: "SizesAndStrides \<Rightarrow> nat" where
  "strides_start s = (if isInline s then MAX_INLINE_SIZE else ss_size s)"

definition sizes_arrayref :: "memory \<Rightarrow> SizesAndStrides \<Rightarrow> int list result" where
  "sizes_arrayref h s = bindE (ss_array h s) (\<lambda>a. if ss_size s \<le> length a then Inr (take (ss_size s) a) else mem_error ''access out of bounds'')"

definition strides_arrayref :: "memory \<Rightarrow> SizesAndStrides \<Rightarrow> int list result" where
  "strides_arrayref h s = bindE (ss_array h s) (\<lambda>a. if strides_start s + ss_size s \<le> length a then Inr (take (ss_size s) (drop (strides_start s) a)) else mem_error ''access out of bounds'')"

definition write_array :: "memory \<Rightarrow> SizesAndStrides \<Rightarrow> nat \<Rightarrow> int list \<Rightarrow> (memory \<times> SizesAndStrides) result" where
  "write_array h s i xs =
     (if isInline s then bindE (inline_storage (ss_storage s)) (\<lambda>slots.
        bindE (mem_copy slots i xs 0 (length xs)) (\<lambda>slots. Inr (h, s\<lparr> ss_storage := InlineStorage slots \<rparr>)))
      else bindE (out_of_line_storage h (ss_storage s)) (\<lambda>(p, blk).
        bindE (mem_copy blk i xs 0 (length xs)) (\<lambda>blk. Inr (store_block h p blk, s))))"

definition resizeSlowPath :: "memory \<Rightarrow> SizesAndStrides \<Rightarrow> nat \<Rightarrow> nat \<Rightarrow> (memory \<times> SizesAndStrides) result" where
  "resizeSlowPath h s newSize oldSize =
     (if newSize \<le> MAX_INLINE_SIZE then
        bindE (out_of_line_storage h (ss_storage s)) (\<lambda>(p, tempStorage).
        bindE (mem_copy (uninit h (2 * MAX_INLINE_SIZE)) 0 tempStorage 0 MAX_INLINE_SIZE) (\<lambda>slots.
        bindE (mem_copy slots MAX_INLINE_SIZE tempStorage oldSize MAX_INLINE_SIZE) (\<lambda>slots.
        bindE (mem_free h (Some p)) (\<lambda>h. Inr (h, \<lparr> ss_size = newSize, ss_storage = InlineStorage slots \<rparr>)))))
      else if isInline s then
        bindE (inline_storage (ss_storage s)) (\<lambda>slots. case malloc h (2 * newSize) of (p, h) \<Rightarrow>
        bindE (mem_copy (the (m_blocks h p)) 0 slots 0 oldSize) (\<lambda>temp.
        bindE (if newSize > oldSize then mem_zero temp oldSize (newSize - oldSize) else Inr temp) (\<lambda>temp.
        bindE (mem_copy temp newSize slots MAX_INLINE_SIZE oldSize) (\<lambda>temp.
        bindE (if newSize > oldSize then mem_zero temp (newSize + oldSize) (newSize - oldSize) else Inr temp) (\<lambda>temp.
          Inr (store_block h p temp, \<lparr> ss_size = newSize, ss_storage = OutOfLineStorage (Some p) \<rparr>))))))
      else
        bindE (out_of_line_storage h (ss_storage s)) (\<lambda>(p, _).
        if oldSize < newSize then
          bindE (mem_realloc h p (2 * newSize)) (\<lambda>(p, h).
          bindE (mem_copy (the (m_blocks h p)) newSize (the (m_blocks h p)) oldSize (min oldSize newSize)) (\<lambda>blk.
          bindE (mem_zero blk oldSize (newSize - oldSize)) (\<lambda>blk.
          bindE (mem_zero blk (newSize + oldSize) (newSize - oldSize)) (\<lambda>blk.
            Inr (store_block h p blk, \<lparr> ss_size = newSize, ss_storage = OutOfLineStorage (Some p) \<rparr>)))))
        else
          bindE (mem_copy (the (m_blocks h p)) newSize (the (m_blocks h p)) oldSize (min oldSize newSize)) (\<lambda>blk.
          bindE (mem_realloc (store_block h p blk) p (2 * newSize)) (\<lambda>(p, h).
            Inr (h, \<lparr> ss_size = newSize, ss_storage = OutOfLineStorage (Some p) \<rparr>)))))"

definition ss_resize :: "memory \<Rightarrow> SizesAndStrides \<Rightarrow> nat \<Rightarrow> (memory \<times> SizesAndStrides) result" where
  "ss_resize h s newSize = (let oldSize = ss_size s in
     if newSize = oldSize then Inr (h, s)
     else if newSize \<le> MAX_INLINE_SIZE \<and> isInline s then
       bindE (inline_storage (ss_storage s)) (\<lambda>slots.
       bindE (if oldSize < newSize
              then bindE (mem_zero slots oldSize (newSize - oldSize)) (\<lambda>slots. mem_zero slots (MAX_INLINE_SIZE + oldSize) (newSize - oldSize))
              else Inr slots) (\<lambda>slots. Inr (h, \<lparr> ss_size = newSize, ss_storage = InlineStorage slots \<rparr>)))
     else resizeSlowPath h s newSize oldSize)"

definition ss_set_sizes :: "memory \<Rightarrow> SizesAndStrides \<Rightarrow> int list \<Rightarrow> (memory \<times> SizesAndStrides) result" where
  "ss_set_sizes h s newSizes = bindE (ss_resize h s (length newSizes)) (\<lambda>(h, s). write_array h s 0 newSizes)"

definition ss_set_strides :: "memory \<Rightarrow> SizesAndStrides \<Rightarrow> int list \<Rightarrow> (memory \<times> SizesAndStrides) result" where
  "ss_set_strides h s strides = bindE (check (length strides = ss_size s) (InternalAssert ''strides.size() == size()'')) (\<lambda>_. write_array h s (strides_start s) strides)"

text \<open>Writing through the references that \<open>size_at\<close> and \<open>stride_at\<close> return.\<close>

definition ss_store_size :: "memory \<Rightarrow> SizesAndStrides \<Rightarrow> nat \<Rightarrow> int \<Rightarrow> (memory \<times> SizesAndStrides) result" where
  "ss_store_size h s idx v = bindE (check (idx < ss_size s) (InternalAssert ''idx < size()'')) (\<lambda>_. write_array h s idx [v])"

definition ss_store_stride :: "memory \<Rightarrow> SizesAndStrides \<Rightarrow> nat \<Rightarrow> int \<Rightarrow> (memory \<times> SizesAndStrides) result" where
  "ss_store_stride h s idx v = bindE (check (idx < ss_size s) (InternalAssert ''idx < size()'')) (\<lambda>_. write_array h s (strides_start s + idx) [v])"

definition ss_equal :: "memory \<Rightarrow> SizesAndStrides \<Rightarrow> SizesAndStrides \<Rightarrow> bool result" where
  "ss_equal h s other =
     (if ss_size s \<noteq> ss_size other then Inr False
      else if isInline s then bindE (inline_storage (ss_storage s)) (\<lambda>a. bindE (inline_storage (ss_storage other)) (\<lambda>b. Inr (a = b)))
      else bindE (out_of_line_storage h (ss_storage s)) (\<lambda>(_, a). bindE (out_of_line_storage h (ss_storage other)) (\<lambda>(_, b).
        Inr (take (2 * ss_size s) a = take (2 * ss_size s) b))))"

end
