(* ===== verification/PackedSizesMemory.thy ===== *)
theory PackedSizesMemory
  imports PackedSizes
begin

text \<open>
  The container of theory \<open>PackedSizes\<close> represents a list of sizes and a list of strides. Every operation stays within the memory that its
  objects own, neither leaks nor frees it twice, and acts on the lists as one expects.
\<close>

section \<open>What an object represents\<close>

definition represents :: "memory \<Rightarrow> SizesAndStrides \<Rightarrow> int list \<Rightarrow> int list \<Rightarrow> bool" where
  "represents h s a b \<longleftrightarrow> length a = ss_size s \<and> length b = ss_size s \<and>
     (if isInline s then \<exists>x y. ss_storage s = InlineStorage (a @ x @ b @ y) \<and> length (a @ x) = MAX_INLINE_SIZE \<and> length (b @ y) = MAX_INLINE_SIZE
      else \<exists>p. ss_storage s = OutOfLineStorage (Some p) \<and> m_blocks h p = Some (a @ b))"

definition pointer :: "SizesAndStrides \<Rightarrow> nat option" where
  "pointer s = storage_pointer (ss_storage s)"

definition memory_ok :: "memory \<Rightarrow> bool" where
  "memory_ok h \<longleftrightarrow> (\<forall>q \<ge> m_next h. m_blocks h q = None)"

text \<open>An operation on one object, whose pointer was \<open>p\<close> and is \<open>p'\<close> afterwards, touches no memory of others.\<close>

definition memory_change :: "memory \<Rightarrow> nat option \<Rightarrow> memory \<Rightarrow> nat option \<Rightarrow> bool" where
  "memory_change h p h' p' \<longleftrightarrow> m_next h \<le> m_next h' \<and> memory_ok h' \<and>
     (\<forall>q. q < m_next h \<and> Some q \<noteq> p \<longrightarrow> m_blocks h' q = m_blocks h q) \<and>
     (\<forall>q. m_blocks h' q \<noteq> None \<longrightarrow> p' = Some q \<or> (Some q \<noteq> p \<and> m_blocks h q \<noteq> None)) \<and>
     (\<forall>q. p' = Some q \<longrightarrow> p = Some q \<or> m_next h \<le> q)"

lemma uninit_length [simp]: "length (uninit h n) = n"
  by (simp add: uninit_def)

lemma mem_copy_parts: "length v = n \<Longrightarrow> length y = n \<Longrightarrow> length u = i \<Longrightarrow> length x = j \<Longrightarrow> mem_copy (u @ v @ w) i (x @ y @ z) j n = Inr (u @ y @ w)"
  by (simp add: mem_copy_def)

lemma mem_zero_parts: "length v = n \<Longrightarrow> length u = i \<Longrightarrow> mem_zero (u @ v @ w) i n = Inr (u @ replicate n 0 @ w)"
  by (simp add: mem_zero_def)

lemma cut:
  assumes "n \<le> length xs"
  obtains u v where "xs = u @ v" "length u = n" "length v = length xs - n"
  using that [of "take n xs" "drop n xs"] assms by auto

lemma represents_inline:
  assumes "represents h s a b" "isInline s"
  obtains x y where "ss_storage s = InlineStorage (a @ x @ b @ y)" "length a = ss_size s" "length b = ss_size s" "length x = MAX_INLINE_SIZE - ss_size s" "length y = MAX_INLINE_SIZE - ss_size s"
  using assms by (auto simp: represents_def)

lemma represents_outline:
  assumes "represents h s a b" "\<not> isInline s"
  obtains p where "ss_storage s = OutOfLineStorage (Some p)" "pointer s = Some p" "m_blocks h p = Some (a @ b)" "length a = ss_size s" "length b = ss_size s"
  using assms by (auto simp: represents_def pointer_def)

lemma inline_pointer: "represents h s a b \<Longrightarrow> isInline s \<Longrightarrow> pointer s = None"
  by (auto simp: represents_def pointer_def)

lemma represents_intros:
  "n \<le> MAX_INLINE_SIZE \<Longrightarrow> length a = n \<Longrightarrow> length b = n \<Longrightarrow> length x = MAX_INLINE_SIZE - n \<Longrightarrow> length y = MAX_INLINE_SIZE - n \<Longrightarrow>
     represents h \<lparr> ss_size = n, ss_storage = InlineStorage (a @ x @ b @ y) \<rparr> a b"
  "\<not> n \<le> MAX_INLINE_SIZE \<Longrightarrow> length a = n \<Longrightarrow> length b = n \<Longrightarrow> m_blocks h p = Some (a @ b) \<Longrightarrow>
     represents h \<lparr> ss_size = n, ss_storage = OutOfLineStorage (Some p) \<rparr> a b"
  by (simp_all add: represents_def isInline_def) (rule exI [of _ x], rule exI [of _ y], simp)

text \<open>The representation determines what the accessors return.\<close>

lemma represents_arrays:
  assumes "represents h s a b"
  shows "sizes_arrayref h s = Inr a" "strides_arrayref h s = Inr b"
proof -
  show "sizes_arrayref h s = Inr a"
  proof (cases "isInline s")
    case True
    then show ?thesis using assms by (auto elim!: represents_inline simp: sizes_arrayref_def ss_array_def)
  next
    case False
    then show ?thesis using assms by (auto elim!: represents_outline simp: sizes_arrayref_def ss_array_def)
  qed
  show "strides_arrayref h s = Inr b"
  proof (cases "isInline s")
    case True
    obtain x y where r: "ss_storage s = InlineStorage (a @ x @ b @ y)" "length a = ss_size s" "length b = ss_size s" "length x = MAX_INLINE_SIZE - ss_size s"
      "length y = MAX_INLINE_SIZE - ss_size s" by (rule represents_inline [OF assms True])
    then have "length (a @ x) = MAX_INLINE_SIZE" using True by (simp add: isInline_def)
    then have "drop MAX_INLINE_SIZE ((a @ x) @ b @ y) = b @ y" by simp
    then show ?thesis using r True by (simp add: strides_arrayref_def ss_array_def strides_start_def)
  next
    case False
    then show ?thesis using assms by (auto elim!: represents_outline simp: strides_arrayref_def ss_array_def strides_start_def)
  qed
qed

section \<open>Changes of memory\<close>

lemma change_none: "memory_ok h \<Longrightarrow> memory_change h p h p"
  by (auto simp: memory_change_def)

lemma change_malloc: "memory_ok h \<Longrightarrow> malloc h n = (p, h') \<Longrightarrow> memory_change h None (store_block h' p blk) (Some p)"
  by (auto simp: memory_change_def malloc_def store_block_def memory_ok_def)

lemma change_free: "memory_ok h \<Longrightarrow> m_blocks h p = Some blk \<Longrightarrow> \<exists>h'. mem_free h (Some p) = Inr h' \<and> memory_change h (Some p) h' None"
  by (auto simp: memory_change_def memory_ok_def)

lemma change_store: "memory_ok h \<Longrightarrow> m_blocks h p = Some blk \<Longrightarrow> memory_change h (Some p) (store_block h p blk') (Some p)"
  by (auto simp: memory_change_def memory_ok_def store_block_def)

lemma change_realloc:
  "memory_ok h \<Longrightarrow> m_blocks h p = Some blk \<Longrightarrow>
   \<exists>h'. mem_realloc h p n = Inr (m_next h, h') \<and> m_blocks h' (m_next h) = Some (take n blk @ drop (length blk) (uninit h n)) \<and>
     (\<forall>blk'. memory_change h (Some p) (store_block h' (m_next h) blk') (Some (m_next h))) \<and> memory_change h (Some p) h' (Some (m_next h))"
  by (auto simp: memory_change_def memory_ok_def store_block_def mem_realloc_def)

section \<open>Resizing\<close>

definition resized :: "nat \<Rightarrow> int list \<Rightarrow> int list" where
  "resized n xs = take n xs @ replicate (n - length xs) 0"

lemma resized_length [simp]: "length (resized n xs) = n"
  by (simp add: resized_def)

lemma resized_grow: "length xs \<le> n \<Longrightarrow> resized n xs = xs @ replicate (n - length xs) 0"
  by (simp add: resized_def)

lemma resized_shrink: "n \<le> length xs \<Longrightarrow> resized n xs = take n xs"
  by (simp add: resized_def)

definition good_update :: "memory \<Rightarrow> SizesAndStrides \<Rightarrow> (memory \<times> SizesAndStrides) result \<Rightarrow> int list \<Rightarrow> int list \<Rightarrow> bool" where
  "good_update h s r a b \<longleftrightarrow> (\<exists>h' s'. r = Inr (h', s') \<and> represents h' s' a b \<and> memory_change h (pointer s) h' (pointer s'))"

lemma resize_inline:
  assumes "represents h s a b" "memory_ok h" "isInline s" "n \<le> MAX_INLINE_SIZE" "n \<noteq> ss_size s"
  shows "good_update h s (ss_resize h s n) (resized n a) (resized n b)"
proof -
  let ?m = "ss_size s"
  obtain x y where s: "ss_storage s = InlineStorage (a @ x @ b @ y)" "length a = ?m" "length b = ?m" "length x = MAX_INLINE_SIZE - ?m" "length y = MAX_INLINE_SIZE - ?m"
    by (rule represents_inline [OF assms(1,3)])
  have m: "?m \<le> MAX_INLINE_SIZE" using assms(3) by (simp add: isInline_def)
  have "\<exists>x' y'. ss_resize h s n = Inr (h, \<lparr> ss_size = n, ss_storage = InlineStorage (resized n a @ x' @ resized n b @ y') \<rparr>) \<and>
    length x' = MAX_INLINE_SIZE - n \<and> length y' = MAX_INLINE_SIZE - n"
  proof (cases "?m < n")
    case True
    let ?k = "n - ?m"
    obtain x1 x2 where x: "x = x1 @ x2" "length x1 = ?k" "length x2 = length x - ?k" by (rule cut [of ?k x]) (use s(4) assms(4) in simp)
    obtain y1 y2 where y: "y = y1 @ y2" "length y1 = ?k" "length y2 = length y - ?k" by (rule cut [of ?k y]) (use s(5) assms(4) in simp)
    have z1: "mem_zero (a @ x1 @ x2 @ b @ y) ?m ?k = Inr (a @ replicate ?k 0 @ x2 @ b @ y)" using mem_zero_parts [of x1 ?k a ?m "x2 @ b @ y"] x(2) s(2) by simp
    have l: "length (a @ replicate ?k (0 :: int) @ x2 @ b) = MAX_INLINE_SIZE + ?m" using s True x(3) assms(4) by simp
    have z2: "mem_zero ((a @ replicate ?k 0 @ x2 @ b) @ y1 @ y2) (MAX_INLINE_SIZE + ?m) ?k = Inr ((a @ replicate ?k 0 @ x2 @ b) @ replicate ?k 0 @ y2)"
      by (rule mem_zero_parts [OF y(2) l])
    have "ss_resize h s n = Inr (h, \<lparr> ss_size = n, ss_storage = InlineStorage (resized n a @ x2 @ resized n b @ y2) \<rparr>)"
      using True assms(3,4) s z1 z2 x(1) y(1) by (simp add: ss_resize_def Let_def resized_grow)
    then show ?thesis using x(3) y(3) s(4,5) True by auto
  next
    case False
    then have "a = take n a @ drop n a" "b = take n b @ drop n b" by auto
    then have "a @ x @ b @ y = resized n a @ (drop n a @ x) @ resized n b @ (drop n b @ y)"
      using False s(2,3) by (metis append.assoc linorder_not_less resized_shrink)
    then show ?thesis using False assms(3-5) s m by (intro exI [of _ "drop n a @ x"] exI [of _ "drop n b @ y"]) (simp add: ss_resize_def Let_def)
  qed
  then show ?thesis using represents_intros(1) [OF assms(4)] inline_pointer [OF assms(1,3)] change_none [OF assms(2), of None]
    unfolding good_update_def by (fastforce simp: pointer_def)
qed

lemma resize_to_inline:
  assumes "represents h s a b" "memory_ok h" "\<not> isInline s" "n \<le> MAX_INLINE_SIZE"
  shows "good_update h s (ss_resize h s n) (resized n a) (resized n b)"
proof -
  let ?m = "ss_size s" and ?k = MAX_INLINE_SIZE
  obtain p where s: "ss_storage s = OutOfLineStorage (Some p)" "pointer s = Some p" "m_blocks h p = Some (a @ b)" "length a = ?m" "length b = ?m"
    by (rule represents_outline [OF assms(1,3)])
  have m: "?k < ?m" using assms(3) by (simp add: isInline_def)
  obtain a1 a2 where a: "a = a1 @ a2" "length a1 = ?k" "length a2 = length a - ?k" by (rule cut [of ?k a]) (use m s(4) in simp)
  obtain b1 b2 where b: "b = b1 @ b2" "length b1 = ?k" "length b2 = length b - ?k" by (rule cut [of ?k b]) (use m s(5) in simp)
  obtain u v where u: "uninit h (2 * ?k) = u @ v" "length u = ?k" "length v = length (uninit h (2 * ?k)) - (?k)" by (rule cut [of ?k "uninit h (2 * ?k)"]) simp
  have v: "length v = ?k" using u(3) by simp
  have c1: "mem_copy (uninit h (2 * ?k)) 0 (a @ b) 0 ?k = Inr (a1 @ v)" using mem_copy_parts [of u ?k a1 "[]" 0 "[]" 0 v "a2 @ b"] u(1,2) a(1,2) by simp
  have c2: "mem_copy (a1 @ v) ?k (a @ b) ?m ?k = Inr (a1 @ b1)" using mem_copy_parts [of v ?k b1 a1 ?k a ?m "[]" b2] v a(2) b(1,2) s(4) by simp
  obtain h' where f: "mem_free h (Some p) = Inr h'" "memory_change h (Some p) h' None" using change_free [OF assms(2) s(3)] by auto
  have r: "ss_resize h s n = Inr (h', \<lparr> ss_size = n, ss_storage = InlineStorage (a1 @ b1) \<rparr>)"
    using assms(3,4) m s c1 c2 f(1) by (simp add: ss_resize_def Let_def resizeSlowPath_def)
  have e: "a1 @ b1 = resized n a @ drop n a1 @ resized n b @ drop n b1" using a(1,2) b(1,2) assms(4) by (simp add: resized_def)
  have "represents h' \<lparr> ss_size = n, ss_storage = InlineStorage (a1 @ b1) \<rparr> (resized n a) (resized n b)"
    unfolding e by (rule represents_intros(1) [OF assms(4)]) (use a(2) b(2) in auto)
  then show ?thesis using r f(2) s(2) unfolding good_update_def by (auto simp: pointer_def)
qed

lemma resize_to_outline:
  assumes "represents h s a b" "memory_ok h" "isInline s" "\<not> n \<le> MAX_INLINE_SIZE"
  shows "good_update h s (ss_resize h s n) (resized n a) (resized n b)"
proof -
  let ?m = "ss_size s"
  obtain x y where s: "ss_storage s = InlineStorage (a @ x @ b @ y)" "length a = ?m" "length b = ?m" "length x = MAX_INLINE_SIZE - ?m" "length y = MAX_INLINE_SIZE - ?m"
    by (rule represents_inline [OF assms(1,3)])
  have m: "?m < n" "?m \<le> MAX_INLINE_SIZE" using assms(3,4) by (auto simp: isInline_def)
  obtain p h1 where h1: "malloc h (2 * n) = (p, h1)" by (cases "malloc h (2 * n)")
  then have blk: "m_blocks h1 p = Some (uninit h (2 * n))" by (auto simp: malloc_def)
  obtain u1 r1 where u1: "uninit h (2 * n) = u1 @ r1" "length u1 = ?m" "length r1 = length (uninit h (2 * n)) - (?m)" by (rule cut [of ?m "uninit h (2 * n)"]) (use m in simp)
  obtain u2 r2 where u2: "r1 = u2 @ r2" "length u2 = n - ?m" "length r2 = length r1 - (n - ?m)" by (rule cut [of "n - ?m" r1]) (use m u1(3) in simp)
  obtain u3 u4 where u3: "r2 = u3 @ u4" "length u3 = ?m" "length u4 = length r2 - ?m" by (rule cut [of ?m r2]) (use m u1(3) u2(3) in simp)
  let ?z = "replicate (n - ?m) (0 :: int)"
  have c1: "mem_copy (uninit h (2 * n)) 0 (a @ x @ b @ y) 0 ?m = Inr (a @ u2 @ u3 @ u4)"
    using mem_copy_parts [of u1 ?m a "[]" 0 "[]" 0 r1 "x @ b @ y"] u1 u2(1) u3(1) s(2) by simp
  have c2: "mem_zero (a @ u2 @ u3 @ u4) ?m (n - ?m) = Inr (a @ ?z @ u3 @ u4)" by (rule mem_zero_parts [OF u2(2) s(2)])
  have c3: "mem_copy (a @ ?z @ u3 @ u4) n (a @ x @ b @ y) MAX_INLINE_SIZE ?m = Inr (a @ ?z @ b @ u4)"
    using mem_copy_parts [of u3 ?m b "a @ ?z" n "a @ x" MAX_INLINE_SIZE u4 y] u3(2) s m by simp
  have c4: "mem_zero (a @ ?z @ b @ u4) (n + ?m) (n - ?m) = Inr (a @ ?z @ b @ ?z)"
    using mem_zero_parts [of u4 "n - ?m" "a @ ?z @ b" "n + ?m" "[]"] u1(3) u2(3) u3(3) s m by simp
  have r: "ss_resize h s n = Inr (store_block h1 p (a @ ?z @ b @ ?z), \<lparr> ss_size = n, ss_storage = OutOfLineStorage (Some p) \<rparr>)"
    using assms(3,4) m s(1) h1 blk c1 c2 c3 c4 by (simp add: ss_resize_def Let_def resizeSlowPath_def)
  have e: "a @ ?z @ b @ ?z = resized n a @ resized n b" using s(2,3) m by (simp add: resized_def)
  show ?thesis unfolding good_update_def r e
    using represents_intros(2) [OF assms(4), of "resized n a" "resized n b"] change_malloc [OF assms(2) h1] inline_pointer [OF assms(1,3)]
    by (auto simp: pointer_def store_block_def)
qed

lemma resize_outline:
  assumes "represents h s a b" "memory_ok h" "\<not> isInline s" "\<not> n \<le> MAX_INLINE_SIZE" "n \<noteq> ss_size s"
  shows "good_update h s (ss_resize h s n) (resized n a) (resized n b)"
proof -
  let ?m = "ss_size s"
  obtain p where s: "ss_storage s = OutOfLineStorage (Some p)" "pointer s = Some p" "m_blocks h p = Some (a @ b)" "length a = ?m" "length b = ?m"
    by (rule represents_outline [OF assms(1,3)])
  show ?thesis
  proof (cases "?m < n")
    case True
    let ?z = "replicate (n - ?m) (0 :: int)"
    obtain h1 where h1: "mem_realloc h p (2 * n) = Inr (m_next h, h1)" "m_blocks h1 (m_next h) = Some (take (2 * n) (a @ b) @ drop (length (a @ b)) (uninit h (2 * n)))"
      "\<forall>blk. memory_change h (Some p) (store_block h1 (m_next h) blk) (Some (m_next h))" using change_realloc [OF assms(2) s(3)] by blast
    define w where "w = drop (2 * ?m) (uninit h (2 * n))"
    have w: "length w = 2 * (n - ?m)" "m_blocks h1 (m_next h) = Some (a @ b @ w)" using h1(2) s(4,5) True by (auto simp: w_def mult_2)
    obtain d r where d: "b @ w = d @ r" "length d = n - ?m" "length r = length (b @ w) - (n - ?m)" by (rule cut [of "n - ?m" "b @ w"]) (use w(1) s(5) in simp)
    have lr: "length r = n" using d(3) w(1) s(5) True by simp
    obtain r1 r2 where r: "r = r1 @ r2" "length r1 = ?m" "length r2 = length r - ?m" by (rule cut [of ?m r]) (use lr True in simp)
    have c1: "mem_copy (a @ b @ w) n (a @ b @ w) ?m ?m = Inr (a @ d @ b @ r2)"
      using mem_copy_parts [of r1 ?m b "a @ d" n a ?m r2 w] d(1,2) r(1,2) s(4,5) True by simp
    have c2: "mem_zero (a @ d @ b @ r2) ?m (n - ?m) = Inr (a @ ?z @ b @ r2)" by (rule mem_zero_parts [OF d(2) s(4)])
    have c3: "mem_zero (a @ ?z @ b @ r2) (n + ?m) (n - ?m) = Inr (a @ ?z @ b @ ?z)"
      using mem_zero_parts [of r2 "n - ?m" "a @ ?z @ b" "n + ?m" "[]"] r(3) lr s(4,5) True by simp
    have res: "ss_resize h s n = Inr (store_block h1 (m_next h) (a @ ?z @ b @ ?z), \<lparr> ss_size = n, ss_storage = OutOfLineStorage (Some (m_next h)) \<rparr>)"
      using assms(3,4) True s(1,3) h1(1) w(2) c1 c2 c3 by (simp add: ss_resize_def Let_def resizeSlowPath_def)
    have e: "a @ ?z @ b @ ?z = resized n a @ resized n b" using s(4,5) True by (simp add: resized_def)
    show ?thesis unfolding good_update_def res e
      using represents_intros(2) [OF assms(4), of "resized n a" "resized n b"] h1(3) s(2) by (auto simp: pointer_def store_block_def)
  next
    case False
    then have n: "n < ?m" using assms(5) by simp
    obtain a1 a2 where a: "a = a1 @ a2" "length a1 = n" "length a2 = length a - n" by (rule cut [of n a]) (use n s(4) in simp)
    obtain b1 b2 where b: "b = b1 @ b2" "length b1 = n" "length b2 = length b - n" by (rule cut [of n b]) (use n s(5) in simp)
    obtain d r where d: "a2 @ b = d @ r" "length d = n" "length r = length (a2 @ b) - (n)" by (rule cut [of n "a2 @ b"]) (use s(5) n in simp)
    have c: "mem_copy (a @ b) n (a @ b) ?m n = Inr (a1 @ b1 @ r)" using mem_copy_parts [of d n b1 a1 n a ?m r b2] d(1,2) a(1,2) b(1,2) s(4) by simp
    let ?h = "store_block h p (a1 @ b1 @ r)"
    have hb: "memory_ok ?h" "m_blocks ?h p = Some (a1 @ b1 @ r)" "m_next ?h = m_next h" using assms(2) s(3) by (auto simp: memory_ok_def store_block_def)
    obtain h1 where h1: "mem_realloc ?h p (2 * n) = Inr (m_next h, h1)" "m_blocks h1 (m_next h) = Some (take (2 * n) (a1 @ b1 @ r) @ drop (length (a1 @ b1 @ r)) (uninit ?h (2 * n)))"
      "memory_change ?h (Some p) h1 (Some (m_next h))" using change_realloc [OF hb(1,2), of "2 * n"] hb(3) by auto
    have "length (a1 @ b1 @ r) \<ge> 2 * n" using a(2) b(2) by simp
    then have blk: "m_blocks h1 (m_next h) = Some (a1 @ b1)" using h1(2) a(2) b(2) by (simp add: mult_2)
    have ch: "memory_change h (Some p) h1 (Some (m_next h))" using h1(3) s(3) hb(3) by (auto simp: memory_change_def store_block_def)
    have res: "ss_resize h s n = Inr (h1, \<lparr> ss_size = n, ss_storage = OutOfLineStorage (Some (m_next h)) \<rparr>)"
      using assms(3,4) n s(1,3) c h1(1) by (simp add: ss_resize_def Let_def resizeSlowPath_def)
    have e: "a1 @ b1 = resized n a @ resized n b" using a(1,2) b(1,2) n by (simp add: resized_def)
    show ?thesis unfolding good_update_def res
      using represents_intros(2) [OF assms(4), of "resized n a" "resized n b"] blk e ch s(2) by (auto simp: pointer_def)
  qed
qed

lemma resize_good:
  assumes "represents h s a b" "memory_ok h"
  shows "good_update h s (ss_resize h s n) (resized n a) (resized n b)"
proof (cases "n = ss_size s")
  case True
  have "resized n a = a" "resized n b = b" using assms(1) True by (auto simp: represents_def resized_def)
  then show ?thesis using assms change_none True by (auto simp: good_update_def ss_resize_def)
next
  case False
  then show ?thesis using resize_inline resize_to_inline resize_to_outline resize_outline assms by blast
qed

section \<open>Writing\<close>

lemma change_trans: "memory_change h p h1 p1 \<Longrightarrow> memory_change h1 p1 h2 p2 \<Longrightarrow> memory_change h p h2 p2"
  unfolding memory_change_def by (smt (verit) le_less_trans less_le_trans not_less order_trans)

lemma change_ok: "memory_change h p h' p' \<Longrightarrow> memory_ok h'"
  by (simp add: memory_change_def)

lemma good_updateE:
  assumes "good_update h s r a b"
  obtains h' s' where "r = Inr (h', s')" "represents h' s' a b" "memory_change h (pointer s) h' (pointer s')" "memory_ok h'"
  using assms change_ok by (auto simp: good_update_def)

text \<open>Overwriting a part of the array leaves an array that is cut in the same way.\<close>

lemma write_array_good:
  assumes "represents h s a b" "memory_ok h"
    and lens: "length a' = ss_size s" "length b' = ss_size s"
    and inl: "\<And>x y. isInline s \<Longrightarrow> length (a @ x) = MAX_INLINE_SIZE \<Longrightarrow> mem_copy (a @ x @ b @ y) i xs 0 (length xs) = Inr (a' @ x @ b' @ y)"
    and out: "\<not> isInline s \<Longrightarrow> mem_copy (a @ b) i xs 0 (length xs) = Inr (a' @ b')"
  shows "good_update h s (write_array h s i xs) a' b'"
proof (cases "isInline s")
  case True
  obtain x y where s: "ss_storage s = InlineStorage (a @ x @ b @ y)" "length a = ss_size s" "length b = ss_size s" "length x = MAX_INLINE_SIZE - ss_size s" "length y = MAX_INLINE_SIZE - ss_size s"
    by (rule represents_inline [OF assms(1) True])
  have "mem_copy (a @ x @ b @ y) i xs 0 (length xs) = Inr (a' @ x @ b' @ y)" using inl [OF True] s(2,4) True by (simp add: isInline_def)
  then have "write_array h s i xs = Inr (h, s\<lparr> ss_storage := InlineStorage (a' @ x @ b' @ y) \<rparr>)" using True s(1) by (simp add: write_array_def)
  moreover have "represents h (s\<lparr> ss_storage := InlineStorage (a' @ x @ b' @ y) \<rparr>) a' b'"
    using represents_intros(1) [of "ss_size s" a' b' x y h] lens s(4,5) True by (cases s) (simp add: isInline_def)
  ultimately show ?thesis using change_none [OF assms(2), of None] inline_pointer [OF assms(1) True] by (auto simp: good_update_def pointer_def)
next
  case False
  obtain p where s: "ss_storage s = OutOfLineStorage (Some p)" "pointer s = Some p" "m_blocks h p = Some (a @ b)" "length a = ss_size s" "length b = ss_size s"
    by (rule represents_outline [OF assms(1) False])
  have "write_array h s i xs = Inr (store_block h p (a' @ b'), s)" using False s out [OF False] by (simp add: write_array_def)
  moreover have "represents (store_block h p (a' @ b')) s a' b'" using lens s False by (auto simp: represents_def store_block_def)
  ultimately show ?thesis using change_store [OF assms(2) s(3)] s(2) by (auto simp: good_update_def)
qed

lemma write_sizes:
  assumes "represents h s a b" "memory_ok h" "length xs = ss_size s"
  shows "good_update h s (write_array h s 0 xs) xs b"
proof (rule write_array_good [OF assms(1,2,3)])
  have l: "length a = length xs" "length b = ss_size s" using assms(1,3) by (auto simp: represents_def)
  then show "length b = ss_size s" by simp
  show "mem_copy (a @ x @ b @ y) 0 xs 0 (length xs) = Inr (xs @ x @ b @ y)" for x y using mem_copy_parts [of a "length xs" xs "[]" 0 "[]" 0 "x @ b @ y" "[]"] l by simp
  show "mem_copy (a @ b) 0 xs 0 (length xs) = Inr (xs @ b)" using mem_copy_parts [of a "length xs" xs "[]" 0 "[]" 0 b "[]"] l by simp
qed

lemma write_strides:
  assumes "represents h s a b" "memory_ok h" "length xs = ss_size s"
  shows "good_update h s (write_array h s (strides_start s) xs) a xs"
proof (rule write_array_good [OF assms(1,2)])
  have l: "length b = length xs" "length a = ss_size s" using assms(1,3) by (auto simp: represents_def)
  then show "length a = ss_size s" "length xs = ss_size s" using assms(3) by auto
  show "mem_copy (a @ x @ b @ y) (strides_start s) xs 0 (length xs) = Inr (a @ x @ xs @ y)" if "isInline s" "length (a @ x) = MAX_INLINE_SIZE" for x y
    using mem_copy_parts [of b "length xs" xs "a @ x" "strides_start s" "[]" 0 y "[]"] l that by (simp add: strides_start_def)
  show "mem_copy (a @ b) (strides_start s) xs 0 (length xs) = Inr (a @ xs)" if "\<not> isInline s"
    using mem_copy_parts [of b "length xs" xs a "strides_start s" "[]" 0 "[]" "[]"] l that by (simp add: strides_start_def)
qed

lemma set_sizes_good:
  assumes "represents h s a b" "memory_ok h"
  shows "good_update h s (ss_set_sizes h s xs) xs (resized (length xs) b)"
proof -
  obtain h1 s1 where r: "ss_resize h s (length xs) = Inr (h1, s1)" "represents h1 s1 (resized (length xs) a) (resized (length xs) b)"
    "memory_change h (pointer s) h1 (pointer s1)" "memory_ok h1" by (rule good_updateE [OF resize_good [OF assms]])
  have "length xs = ss_size s1" using r(2) by (simp add: represents_def)
  then obtain h2 s2 where w: "write_array h1 s1 0 xs = Inr (h2, s2)" "represents h2 s2 xs (resized (length xs) b)" "memory_change h1 (pointer s1) h2 (pointer s2)" "memory_ok h2"
    using good_updateE [OF write_sizes [OF r(2,4)]] by blast
  show ?thesis using r(1) w(1,2) change_trans [OF r(3) w(3)] by (simp add: good_update_def ss_set_sizes_def)
qed

lemma set_strides_good:
  assumes "represents h s a b" "memory_ok h" "length xs = length a"
  shows "good_update h s (ss_set_strides h s xs) a xs"
proof -
  have "length xs = ss_size s" using assms(1,3) by (simp add: represents_def)
  then show ?thesis using write_strides [OF assms(1,2)] by (simp add: ss_set_strides_def)
qed

lemma mem_copy_one: "i < length u \<Longrightarrow> mem_copy (t @ u @ w) (length t + i) [v] 0 1 = Inr (t @ u[i := v] @ w)"
  by (simp add: mem_copy_def upd_conv_take_nth_drop)

lemma store_size_good:
  assumes "represents h s a b" "memory_ok h" "i < length a"
  shows "good_update h s (ss_store_size h s i v) (a[i := v]) b"
proof -
  have l: "length a = ss_size s" "length b = ss_size s" using assms(1) by (auto simp: represents_def)
  have "good_update h s (write_array h s i [v]) (a[i := v]) b"
    by (rule write_array_good [OF assms(1,2)]) (use l assms(3) mem_copy_one [of i a "[]"] in auto)
  then show ?thesis using l assms(3) by (simp add: ss_store_size_def)
qed

lemma store_stride_good:
  assumes "represents h s a b" "memory_ok h" "i < length a"
  shows "good_update h s (ss_store_stride h s i v) a (b[i := v])"
proof -
  have l: "length a = ss_size s" "length b = ss_size s" using assms(1) by (auto simp: represents_def)
  have "good_update h s (write_array h s (strides_start s + i) [v]) a (b[i := v])"
  proof (rule write_array_good [OF assms(1,2)])
    show "mem_copy (a @ x @ b @ y) (strides_start s + i) [v] 0 (length [v]) = Inr (a @ x @ b[i := v] @ y)" if "isInline s" "length (a @ x) = MAX_INLINE_SIZE" for x y
      using mem_copy_one [of i b "a @ x" y v] that l assms(3) by (simp add: strides_start_def)
    show "mem_copy (a @ b) (strides_start s + i) [v] 0 (length [v]) = Inr (a @ b[i := v])" if "\<not> isInline s"
      using mem_copy_one [of i b a "[]" v] that l assms(3) by (simp add: strides_start_def)
  qed (use l in auto)
  then show ?thesis using l assms(3) by (simp add: ss_store_stride_def)
qed

section \<open>Copying and moving\<close>

text \<open>An object does not notice changes of the memory of others.\<close>

lemma represents_inline_any: "represents h s a b \<Longrightarrow> isInline s \<Longrightarrow> represents h' s a b"
  by (simp only: represents_def if_True)

lemma record_eta: "\<lparr> ss_size = ss_size s, ss_storage = ss_storage s \<rparr> = s" for s :: SizesAndStrides
  by (cases s) simp

lemma represents_frame:
  assumes "represents h s a b" "memory_change h p h' p'" "pointer s = None \<or> pointer s \<noteq> p" "memory_ok h"
  shows "represents h' s a b"
proof (cases "isInline s")
  case True
  then show ?thesis using represents_inline_any [OF assms(1)] by simp
next
  case False
  obtain q where s: "ss_storage s = OutOfLineStorage (Some q)" "pointer s = Some q" "m_blocks h q = Some (a @ b)" "length a = ss_size s" "length b = ss_size s"
    by (rule represents_outline [OF assms(1) False])
  have "q < m_next h" using assms(4) s(3) by (auto simp: memory_ok_def not_le [symmetric])
  then have "m_blocks h' q = m_blocks h q" using assms(2,3) s(2) by (auto simp: memory_change_def)
  then show ?thesis using s False by (auto simp: represents_def)
qed

lemma copyDataOutline_good:
  assumes "represents h rhs a b" "\<not> isInline rhs" "m_blocks h p = Some dst" "length dst = 2 * ss_size rhs"
  shows "copyDataOutline h p rhs = Inr (store_block h p (a @ b))"
proof -
  obtain q where s: "ss_storage rhs = OutOfLineStorage (Some q)" "pointer rhs = Some q" "m_blocks h q = Some (a @ b)" "length a = ss_size rhs" "length b = ss_size rhs"
    by (rule represents_outline [OF assms(1,2)])
  have "mem_copy dst 0 (a @ b) 0 (2 * ss_size rhs) = Inr (a @ b)" using mem_copy_parts [of dst "2 * ss_size rhs" "a @ b" "[]" 0 "[]" 0 "[]" "[]"] s assms(4) by simp
  then show ?thesis using s assms(3) by (simp add: copyDataOutline_def)
qed

lemma represents_store:
  "\<not> n \<le> MAX_INLINE_SIZE \<Longrightarrow> length a = n \<Longrightarrow> length b = n \<Longrightarrow> represents (store_block h p (a @ b)) \<lparr> ss_size = n, ss_storage = OutOfLineStorage (Some p) \<rparr> a b"
  by (rule represents_intros(2)) (simp_all add: store_block_def)

lemma copyDataInline_good:
  assumes "represents h rhs a b" "isInline rhs"
  shows "copyDataInline rhs = Inr (ss_storage rhs)" "represents h' \<lparr> ss_size = ss_size rhs, ss_storage = ss_storage rhs \<rparr> a b"
proof -
  show "copyDataInline rhs = Inr (ss_storage rhs)" by (rule represents_inline [OF assms]) (simp add: copyDataInline_def)
  show "represents h' \<lparr> ss_size = ss_size rhs, ss_storage = ss_storage rhs \<rparr> a b" using represents_inline_any [OF assms] by (simp add: record_eta)
qed

definition good_new :: "memory \<Rightarrow> nat option \<Rightarrow> (memory \<times> SizesAndStrides) result \<Rightarrow> int list \<Rightarrow> int list \<Rightarrow> bool" where
  "good_new h p r a b \<longleftrightarrow> (\<exists>h' s'. r = Inr (h', s') \<and> represents h' s' a b \<and> memory_change h p h' (pointer s'))"

lemma copy_construct_good:
  assumes "represents h rhs a b" "memory_ok h"
  shows "good_new h None (copy_construct h rhs) a b"
proof (cases "isInline rhs")
  case True
  have "storage_pointer (ss_storage rhs) = None" using inline_pointer [OF assms(1) True] by (simp add: pointer_def)
  then show ?thesis using copyDataInline_good [OF assms(1) True] True change_none [OF assms(2), of None] by (auto simp: good_new_def copy_construct_def pointer_def)
next
  case False
  let ?n = "ss_size rhs"
  obtain p h1 where h1: "malloc h (2 * ?n) = (p, h1)" by (cases "malloc h (2 * ?n)")
  then have blk: "m_blocks h1 p = Some (uninit h (2 * ?n))" by (auto simp: malloc_def)
  have len: "length a = ?n" "length b = ?n" using assms(1) by (auto simp: represents_def)
  have "memory_change h None h1 (Some p)" using change_malloc [OF assms(2) h1, of "uninit h (2 * ?n)"] blk by (simp add: store_block_def map_upd_triv)
  then have "represents h1 rhs a b" using represents_frame [OF assms(1)] assms(2) by auto
  then have "copyDataOutline h1 p rhs = Inr (store_block h1 p (a @ b))" using copyDataOutline_good False blk by simp
  then show ?thesis using False h1 represents_store [of ?n a b h1 p] len change_malloc [OF assms(2) h1, of "a @ b"]
    by (auto simp: good_new_def copy_construct_def pointer_def isInline_def)
qed

lemma free_pointer:
  assumes "represents h s a b" "memory_ok h"
  obtains h' where "(if \<not> isInline s then mem_free h (storage_pointer (ss_storage s)) else Inr h) = Inr h'" "memory_change h (pointer s) h' None"
proof (cases "isInline s")
  case True
  then show thesis using that [of h] inline_pointer [OF assms(1)] change_none [OF assms(2), of None] by simp
next
  case False
  obtain p where "ss_storage s = OutOfLineStorage (Some p)" "pointer s = Some p" "m_blocks h p = Some (a @ b)" by (rule represents_outline [OF assms(1) False])
  then show thesis using that change_free [OF assms(2)] False by auto
qed

lemma assign_copy_good:
  assumes "represents h this c d" "represents h rhs a b" "memory_ok h" "pointer rhs = None \<or> pointer rhs \<noteq> pointer this"
  shows "good_update h this (assign_copy h this rhs) a b"
proof (cases "isInline rhs")
  case True
  obtain h' where f: "(if \<not> isInline this then mem_free h (storage_pointer (ss_storage this)) else Inr h) = Inr h'" "memory_change h (pointer this) h' None"
    by (rule free_pointer [OF assms(1,3)])
  have "storage_pointer (ss_storage rhs) = None" using inline_pointer [OF assms(2) True] by (simp add: pointer_def)
  then show ?thesis using True f copyDataInline_good(1) [OF assms(2) True] copyDataInline_good(2) [OF assms(2) True, of h'] by (simp add: good_update_def assign_copy_def pointer_def)
next
  case False
  let ?n = "ss_size rhs"
  have len: "length a = ?n" "length b = ?n" using assms(2) by (auto simp: represents_def)
  have "\<exists>p h1 dst. (if isInline this then Inr (malloc h (2 * ?n)) else bindE (out_of_line_storage h (ss_storage this)) (\<lambda>(p, _). mem_realloc h p (2 * ?n))) = Inr (p, h1) \<and>
      m_blocks h1 p = Some dst \<and> length dst = 2 * ?n \<and> memory_change h (pointer this) h1 (Some p) \<and> memory_change h (pointer this) (store_block h1 p (a @ b)) (Some p)"
  proof (cases "isInline this")
    case True
    obtain p h1 where h1: "malloc h (2 * ?n) = (p, h1)" by (cases "malloc h (2 * ?n)")
    then have blk: "m_blocks h1 p = Some (uninit h (2 * ?n))" by (auto simp: malloc_def)
    then have "memory_change h None h1 (Some p)" using change_malloc [OF assms(3) h1, of "uninit h (2 * ?n)"] by (simp add: store_block_def map_upd_triv)
    then show ?thesis using True h1 blk change_malloc [OF assms(3) h1] inline_pointer [OF assms(1) True] by auto
  next
    case out: False
    obtain p where s: "ss_storage this = OutOfLineStorage (Some p)" "pointer this = Some p" "m_blocks h p = Some (c @ d)" by (rule represents_outline [OF assms(1) out])
    show ?thesis using change_realloc [OF assms(3) s(3), of "2 * ?n"] out s by auto
  qed
  then obtain p h1 dst where g: "(if isInline this then Inr (malloc h (2 * ?n)) else bindE (out_of_line_storage h (ss_storage this)) (\<lambda>(p, _). mem_realloc h p (2 * ?n))) = Inr (p, h1)"
      "m_blocks h1 p = Some dst" "length dst = 2 * ?n" "memory_change h (pointer this) h1 (Some p)" "memory_change h (pointer this) (store_block h1 p (a @ b)) (Some p)" by blast
  have "represents h1 rhs a b" by (rule represents_frame [OF assms(2) g(4) assms(4,3)])
  then have "copyDataOutline h1 p rhs = Inr (store_block h1 p (a @ b))" using copyDataOutline_good False g(2,3) by simp
  then have "assign_copy h this rhs = Inr (store_block h1 p (a @ b), \<lparr> ss_size = ?n, ss_storage = OutOfLineStorage (Some p) \<rparr>)"
    using False g(1) by (simp add: assign_copy_def)
  then show ?thesis using g(5) represents_store [of ?n a b h1 p] len False by (auto simp: good_update_def pointer_def isInline_def)
qed

text \<open>What a move gives: the new owner has the lists and the pointer, the old one is empty.\<close>

lemma moved_from_good:
  assumes "represents h rhs a b"
  shows "represents h' (moved_from h'' (ss_storage rhs)) [] []" "pointer (moved_from h'' (ss_storage rhs)) = None"
proof -
  have "length slots = 2 * MAX_INLINE_SIZE \<Longrightarrow> represents h' \<lparr> ss_size = 0, ss_storage = InlineStorage slots \<rparr> [] []" for slots
    using represents_intros(1) [of 0 "[]" "[]" "take MAX_INLINE_SIZE slots" "drop MAX_INLINE_SIZE slots" h'] by simp
  moreover have "\<exists>slots. moved_from h'' (ss_storage rhs) = \<lparr> ss_size = 0, ss_storage = InlineStorage slots \<rparr> \<and> length slots = 2 * MAX_INLINE_SIZE"
  proof (cases "isInline rhs")
    case True
    then show ?thesis using assms by (auto simp: represents_def isInline_def moved_from_def)
  next
    case False
    then show ?thesis using assms by (auto simp: represents_def moved_from_def)
  qed
  ultimately show "represents h' (moved_from h'' (ss_storage rhs)) [] []" "pointer (moved_from h'' (ss_storage rhs)) = None" by (auto simp: pointer_def)
qed

lemma moved_to_good:
  assumes "represents h rhs a b"
  shows "(if isInline rhs then copyDataInline rhs else Inr (ss_storage rhs)) = Inr (ss_storage rhs)" "represents h \<lparr> ss_size = ss_size rhs, ss_storage = ss_storage rhs \<rparr> a b"
  using copyDataInline_good(1) [OF assms] assms by (simp_all add: record_eta)

end
