(* ===== verification/PackedSizesRuns.thy ===== *)
theory PackedSizesRuns
  imports PackedSizesMemory
begin

text \<open>
  Any number of objects of the container over one memory, which are constructed, copied, moved, written and destroyed in any order. Such
  a run behaves like one on plain pairs of lists.
\<close>

section \<open>Objects\<close>

datatype ss_op =
    Construct | CopyConstruct nat | MoveConstruct nat | Destroy nat | AssignCopy nat nat | AssignMove nat nat
  | Resize nat nat | SetSizes nat "int list" | SetStrides nat "int list" | StoreSize nat nat int | StoreStride nat nat int

definition live_object :: "'a option list \<Rightarrow> nat \<Rightarrow> 'a result" where
  "live_object objs i = (if i < length objs then (case objs ! i of Some s \<Rightarrow> Inr s | None \<Rightarrow> Inl (IndexError ''no such object'')) else Inl (IndexError ''no such object''))"

type_synonym ss_state = "memory \<times> SizesAndStrides option list"

definition put_object :: "SizesAndStrides option list \<Rightarrow> nat \<Rightarrow> memory \<times> SizesAndStrides \<Rightarrow> ss_state" where
  "put_object objs i r = (fst r, objs[i := Some (snd r)])"

definition update_object :: "ss_state \<Rightarrow> nat \<Rightarrow> (memory \<Rightarrow> SizesAndStrides \<Rightarrow> (memory \<times> SizesAndStrides) result) \<Rightarrow> ss_state result" where
  "update_object st i f = bindE (live_object (snd st) i) (\<lambda>s. bindE (f (fst st) s) (\<lambda>r. Inr (put_object (snd st) i r)))"

fun ss_exec :: "ss_state \<Rightarrow> ss_op \<Rightarrow> ss_state result" where
  "ss_exec (h, objs) Construct = Inr (h, objs @ [Some default_SizesAndStrides])"
| "ss_exec (h, objs) (CopyConstruct j) = bindE (live_object objs j) (\<lambda>rhs. bindE (copy_construct h rhs) (\<lambda>(h, s). Inr (h, objs @ [Some s])))"
| "ss_exec (h, objs) (MoveConstruct j) = bindE (live_object objs j) (\<lambda>rhs. bindE (move_construct h rhs) (\<lambda>(h, s, rhs). Inr (h, objs[j := Some rhs] @ [Some s])))"
| "ss_exec (h, objs) (Destroy i) = bindE (live_object objs i) (\<lambda>s. bindE (destroy_SizesAndStrides h s) (\<lambda>h. Inr (h, objs[i := None])))"
| "ss_exec (h, objs) (AssignCopy i j) = bindE (live_object objs i) (\<lambda>this. bindE (live_object objs j) (\<lambda>rhs.
     if i = j then Inr (h, objs) else bindE (assign_copy h this rhs) (\<lambda>r. Inr (put_object objs i r))))"
| "ss_exec (h, objs) (AssignMove i j) = bindE (live_object objs i) (\<lambda>this. bindE (live_object objs j) (\<lambda>rhs.
     if i = j then Inr (h, objs) else bindE (assign_move h this rhs) (\<lambda>(h, s, rhs). Inr (h, objs[i := Some s, j := Some rhs]))))"
| "ss_exec st (Resize i n) = update_object st i (\<lambda>h s. ss_resize h s n)"
| "ss_exec st (SetSizes i xs) = update_object st i (\<lambda>h s. ss_set_sizes h s xs)"
| "ss_exec st (SetStrides i xs) = update_object st i (\<lambda>h s. ss_set_strides h s xs)"
| "ss_exec st (StoreSize i k v) = update_object st i (\<lambda>h s. ss_store_size h s k v)"
| "ss_exec st (StoreStride i k v) = update_object st i (\<lambda>h s. ss_store_stride h s k v)"

section \<open>Pairs of lists\<close>

type_synonym lists = "int list \<times> int list"

definition update_lists :: "lists option list \<Rightarrow> nat \<Rightarrow> (lists \<Rightarrow> lists result) \<Rightarrow> lists option list result" where
  "update_lists xs i f = bindE (live_object xs i) (\<lambda>p. bindE (f p) (\<lambda>p. Inr (xs[i := Some p])))"

fun list_exec :: "lists option list \<Rightarrow> ss_op \<Rightarrow> lists option list result" where
  "list_exec xs Construct = Inr (xs @ [Some ([0], [1])])"
| "list_exec xs (CopyConstruct j) = bindE (live_object xs j) (\<lambda>p. Inr (xs @ [Some p]))"
| "list_exec xs (MoveConstruct j) = bindE (live_object xs j) (\<lambda>p. Inr (xs[j := Some ([], [])] @ [Some p]))"
| "list_exec xs (Destroy i) = bindE (live_object xs i) (\<lambda>_. Inr (xs[i := None]))"
| "list_exec xs (AssignCopy i j) = bindE (live_object xs i) (\<lambda>_. bindE (live_object xs j) (\<lambda>p. Inr (if i = j then xs else xs[i := Some p])))"
| "list_exec xs (AssignMove i j) = bindE (live_object xs i) (\<lambda>_. bindE (live_object xs j) (\<lambda>p. Inr (if i = j then xs else xs[i := Some p, j := Some ([], [])])))"
| "list_exec xs (Resize i n) = update_lists xs i (\<lambda>(a, b). Inr (resized n a, resized n b))"
| "list_exec xs (SetSizes i ys) = update_lists xs i (\<lambda>(a, b). Inr (ys, resized (length ys) b))"
| "list_exec xs (SetStrides i ys) = update_lists xs i (\<lambda>(a, b).
     bindE (check (length ys = length a) (InternalAssert ''strides.size() == size()'')) (\<lambda>_. Inr (a, ys)))"
| "list_exec xs (StoreSize i k v) = update_lists xs i (\<lambda>(a, b). bindE (check (k < length a) (InternalAssert ''idx < size()'')) (\<lambda>_. Inr (a[k := v], b)))"
| "list_exec xs (StoreStride i k v) = update_lists xs i (\<lambda>(a, b). bindE (check (k < length a) (InternalAssert ''idx < size()'')) (\<lambda>_. Inr (a, b[k := v])))"

section \<open>Ownership\<close>

fun object_pointer :: "SizesAndStrides option \<Rightarrow> nat option" where
  "object_pointer None = None"
| "object_pointer (Some s) = pointer s"

fun object_represents :: "memory \<Rightarrow> SizesAndStrides option \<Rightarrow> lists option \<Rightarrow> bool" where
  "object_represents h None None \<longleftrightarrow> True"
| "object_represents h (Some s) (Some (a, b)) \<longleftrightarrow> represents h s a b"
| "object_represents h _ _ \<longleftrightarrow> False"

text \<open>Every block of memory belongs to exactly one object.\<close>

definition owned :: "memory \<Rightarrow> SizesAndStrides option list \<Rightarrow> bool" where
  "owned h objs \<longleftrightarrow> memory_ok h \<and>
     (\<forall>i j q. i < length objs \<and> j < length objs \<and> object_pointer (objs ! i) = Some q \<and> object_pointer (objs ! j) = Some q \<longrightarrow> i = j) \<and>
     (\<forall>q. m_blocks h q \<noteq> None \<longrightarrow> (\<exists>i < length objs. object_pointer (objs ! i) = Some q))"

definition ss_related :: "ss_state \<Rightarrow> lists option list \<Rightarrow> bool" where
  "ss_related st xs \<longleftrightarrow> owned (fst st) (snd st) \<and> list_all2 (object_represents (fst st)) (snd st) xs"

lemma object_represents_frame:
  assumes "object_represents h ob x" "memory_change h p h' p'" "object_pointer ob = None \<or> object_pointer ob \<noteq> p" "memory_ok h"
  shows "object_represents h' ob x"
  using assms represents_frame by (cases "(h, ob, x)" rule: object_represents.cases) auto

lemma object_allocated:
  assumes "object_represents h ob x" "object_pointer ob = Some q"
  shows "m_blocks h q \<noteq> None"
proof (cases "(h, ob, x)" rule: object_represents.cases)
  case (2 h' s a b)
  then have r: "represents h s a b" "pointer s = Some q" using assms by auto
  have "\<not> isInline s" using inline_pointer [OF r(1)] r(2) by auto
  then show ?thesis using r by (auto elim: represents_outline)
qed (use assms in auto)

text \<open>One object changes together with its own memory.\<close>

lemma related_update:
  assumes "ss_related (h, objs) xs" "i < length objs" "memory_change h (object_pointer (objs ! i)) h' (object_pointer ob)" "object_represents h' ob x"
  shows "ss_related (h', objs[i := ob]) (xs[i := x])"
proof -
  note ch = assms(3) [unfolded memory_change_def]
  have own: "memory_ok h" "\<And>i j q. i < length objs \<Longrightarrow> j < length objs \<Longrightarrow> object_pointer (objs ! i) = Some q \<Longrightarrow> object_pointer (objs ! j) = Some q \<Longrightarrow> i = j"
    "\<And>q. m_blocks h q \<noteq> None \<Longrightarrow> \<exists>i < length objs. object_pointer (objs ! i) = Some q"
    and rel: "list_all2 (object_represents h) objs xs" using assms(1) by (auto simp: ss_related_def owned_def)
  have rep: "object_represents h (objs ! j) (xs ! j)" if "j < length objs" for j using rel that by (simp add: list_all2_nthD)
  have low: "q < m_next h" if "j < length objs" "object_pointer (objs ! j) = Some q" for j q
    using object_allocated [OF rep [OF that(1)] that(2)] own(1) by (auto simp: memory_ok_def not_le [symmetric])
  have other: "object_pointer (objs ! j) = None \<or> object_pointer (objs ! j) \<noteq> object_pointer (objs ! i)" if "j < length objs" "j \<noteq> i" for j
    using own(2) [OF that(1) assms(2)] that(2) by (cases "object_pointer (objs ! j)") auto
  have fresh: "object_pointer ob \<noteq> Some q" if "j < length objs" "j \<noteq> i" "object_pointer (objs ! j) = Some q" for j q
    using ch low [OF that(1,3)] other [OF that(1,2)] that(3) by fastforce
  have "object_represents h' (objs[i := ob] ! j) (xs[i := x] ! j)" if "j < length objs" for j
  proof (cases "j = i")
    case True
    then show ?thesis using assms(2,4) list_all2_lengthD [OF rel] by simp
  next
    case False
    then show ?thesis using object_represents_frame [OF rep [OF that] assms(3) other [OF that False] own(1)] by simp
  qed
  then have "list_all2 (object_represents h') (objs[i := ob]) (xs[i := x])" using list_all2_lengthD [OF rel] by (simp add: list_all2_conv_all_nth)
  moreover have "owned h' (objs[i := ob])" unfolding owned_def
  proof (intro conjI allI impI)
    show "memory_ok h'" using ch by simp
    fix j k q assume a: "j < length (objs[i := ob]) \<and> k < length (objs[i := ob]) \<and> object_pointer (objs[i := ob] ! j) = Some q \<and> object_pointer (objs[i := ob] ! k) = Some q"
    then show "j = k" using own(2) [of j k q] fresh [of j q] fresh [of k q] assms(2) by (auto simp: nth_list_update split: if_splits)
  next
    fix q assume q: "m_blocks h' q \<noteq> None"
    show "\<exists>k < length (objs[i := ob]). object_pointer (objs[i := ob] ! k) = Some q"
    proof (cases "object_pointer ob = Some q")
      case True
      then show ?thesis using assms(2) by (intro exI [of _ i]) simp
    next
      case False
      then have "m_blocks h q \<noteq> None" "Some q \<noteq> object_pointer (objs ! i)" using ch q by auto
      then obtain k where "k < length objs" "object_pointer (objs ! k) = Some q" "k \<noteq> i" using own(3) by metis
      then show ?thesis by (intro exI [of _ k]) simp
    qed
  qed
  ultimately show ?thesis by (simp add: ss_related_def)
qed

lemma related_append_none: "ss_related (h, objs) xs \<Longrightarrow> ss_related (h, objs @ [None]) (xs @ [None])"
  by (auto simp: ss_related_def owned_def nth_append less_Suc_eq intro!: list_all2_appendI split: if_splits)

lemma related_append:
  assumes "ss_related (h, objs) xs" "memory_change h None h' (object_pointer ob)" "object_represents h' ob x"
  shows "ss_related (h', objs @ [ob]) (xs @ [x])"
proof -
  have "length xs = length objs" using assms(1) list_all2_lengthD by (fastforce simp: ss_related_def)
  then show ?thesis using related_update [OF related_append_none [OF assms(1)], of "length objs" h' ob x] assms(2,3) by (simp add: list_update_append)
qed

text \<open>The pointer of one object is handed over to another one that has none.\<close>

lemma related_transfer:
  assumes "ss_related (h, objs) xs" "i < length objs" "j < length objs" "i \<noteq> j" "object_pointer (objs ! i) = None"
    "object_pointer ob = object_pointer (objs ! j)" "object_represents h ob x" "object_pointer ob' = None" "object_represents h ob' x'"
  shows "ss_related (h, objs[i := ob, j := ob']) (xs[i := x, j := x'])"
proof -
  have own: "memory_ok h" "\<And>i j q. i < length objs \<Longrightarrow> j < length objs \<Longrightarrow> object_pointer (objs ! i) = Some q \<Longrightarrow> object_pointer (objs ! j) = Some q \<Longrightarrow> i = j"
    "\<And>q. m_blocks h q \<noteq> None \<Longrightarrow> \<exists>i < length objs. object_pointer (objs ! i) = Some q"
    and rel: "list_all2 (object_represents h) objs xs" using assms(1) by (auto simp: ss_related_def owned_def)
  have "list_all2 (object_represents h) (objs[i := ob, j := ob']) (xs[i := x, j := x'])"
    using rel assms(7,9) by (intro list_all2_update_cong) auto
  moreover have "owned h (objs[i := ob, j := ob'])" unfolding owned_def
  proof (intro conjI allI impI)
    let ?new = "objs[i := ob, j := ob']" and ?from = "\<lambda>k. if k = i then j else k"
    have old: "k \<noteq> j \<and> ?from k < length objs \<and> object_pointer (objs ! ?from k) = Some q" if "k < length ?new" "object_pointer (?new ! k) = Some q" for k q
    proof -
      have "k \<noteq> j" using that assms(3,8) by auto
      then show ?thesis using that assms(2-6) by (cases "k = i") auto
    qed
    fix k l q assume a: "k < length ?new \<and> l < length ?new \<and> object_pointer (?new ! k) = Some q \<and> object_pointer (?new ! l) = Some q"
    then have "?from k = ?from l" using old [of k q] old [of l q] own(2) [of "?from k" "?from l" q] by blast
    then show "k = l" using old [of k q] old [of l q] a by (auto split: if_splits)
  next
    fix q assume "m_blocks h q \<noteq> None"
    then obtain k where k: "k < length objs" "object_pointer (objs ! k) = Some q" using own(3) by blast
    then have "k \<noteq> i" using assms(5) by auto
    show "\<exists>k < length (objs[i := ob, j := ob']). object_pointer (objs[i := ob, j := ob'] ! k) = Some q"
      using k assms(2-6) \<open>k \<noteq> i\<close> by (cases "k = j") (auto intro!: exI [of _ "if k = j then i else k"])
  qed (rule own(1))
  ultimately show ?thesis by (simp add: ss_related_def)
qed

section \<open>Every step\<close>

lemma related_length: "ss_related (h, objs) xs \<Longrightarrow> length xs = length objs"
  using list_all2_lengthD by (fastforce simp: ss_related_def)

lemma related_memory: "ss_related (h, objs) xs \<Longrightarrow> memory_ok h"
  by (simp add: ss_related_def owned_def)

text \<open>An object is alive in both worlds or in neither.\<close>

lemma related_live [consumes 1]:
  assumes "ss_related (h, objs) xs"
  obtains (gone) e where "live_object xs i = Inl e" "live_object objs i = Inl e"
  | (there) s a b where "live_object xs i = Inr (a, b)" "live_object objs i = Inr s" "i < length objs" "objs ! i = Some s" "represents h s a b"
proof (cases "i < length objs")
  case True
  then have "object_represents h (objs ! i) (xs ! i)" using assms by (auto simp: ss_related_def list_all2_nthD)
  then show thesis using that True related_length [OF assms] by (cases "(h, objs ! i, xs ! i)" rule: object_represents.cases) (auto simp: live_object_def)
next
  case False
  then show thesis using that(1) related_length [OF assms] by (simp add: live_object_def)
qed

lemma pointers_differ:
  assumes "ss_related (h, objs) xs" "i < length objs" "objs ! i = Some s" "j < length objs" "objs ! j = Some t" "i \<noteq> j"
  shows "pointer t = None \<or> pointer t \<noteq> pointer s"
proof (cases "pointer t")
  case (Some q)
  then have "pointer s \<noteq> Some q" using assms unfolding ss_related_def owned_def by (metis fst_conv snd_conv object_pointer.simps(2))
  then show ?thesis using Some by simp
qed simp

definition simulates :: "ss_state result \<Rightarrow> lists option list result \<Rightarrow> bool" where
  "simulates r r' \<longleftrightarrow> (case r' of Inl e \<Rightarrow> r = Inl e | Inr xs \<Rightarrow> (\<exists>st. r = Inr st \<and> ss_related st xs))"

text \<open>An operation on one object, if it does on the lists what \<open>g\<close> does.\<close>

lemma update_simulates:
  assumes "ss_related (h, objs) xs"
    and "\<And>s a b. represents h s a b \<Longrightarrow> memory_ok h \<Longrightarrow> (case g (a, b) of Inl e \<Rightarrow> f h s = Inl e | Inr (a', b') \<Rightarrow> good_update h s (f h s) a' b')"
  shows "simulates (update_object (h, objs) i f) (update_lists xs i g)"
  using assms(1)
proof (cases rule: related_live [where i = i])
  case (gone e)
  then show ?thesis by (simp add: simulates_def update_object_def update_lists_def)
next
  case (there s a b)
  note fg = assms(2) [OF there(5) related_memory [OF assms(1)]]
  show ?thesis
  proof (cases "g (a, b)")
    case (Inl e)
    then show ?thesis using fg there(1,2) by (simp add: simulates_def update_object_def update_lists_def)
  next
    case (Inr q)
    obtain a' b' where q: "q = (a', b')" by (cases q)
    then have "good_update h s (f h s) a' b'" using fg Inr by simp
    then obtain h' s' where u: "f h s = Inr (h', s')" "represents h' s' a' b'" "memory_change h (pointer s) h' (pointer s')" by (auto simp: good_update_def)
    then have "ss_related (h', objs[i := Some s']) (xs[i := Some (a', b')])" using related_update [OF assms(1) there(3), of h' "Some s'" "Some (a', b')"] there(4) by simp
    then show ?thesis using there(1,2) Inr q u(1) by (simp add: simulates_def update_object_def update_lists_def put_object_def)
  qed
qed

lemma default_represents: "represents h default_SizesAndStrides [0] [1]" "pointer default_SizesAndStrides = None"
proof -
  have "default_SizesAndStrides = \<lparr> ss_size = 1, ss_storage = InlineStorage ([0] @ replicate 4 0 @ [1] @ replicate 4 0) \<rparr>"
    by (simp add: default_SizesAndStrides_def MAX_INLINE_SIZE_def numeral_nat)
  then show "represents h default_SizesAndStrides [0] [1]" using represents_intros(1) [of 1 "[0]" "[1]" "replicate 4 0" "replicate 4 0" h] by (simp add: MAX_INLINE_SIZE_def)
qed (simp add: pointer_def default_SizesAndStrides_def)

lemma construct_simulates:
  assumes "ss_related (h, objs) xs"
  shows "simulates (ss_exec (h, objs) Construct) (list_exec xs Construct)"
  using related_append [OF assms, of h "Some default_SizesAndStrides" "Some ([0], [1])"] default_represents change_none [OF related_memory [OF assms], of None]
  by (simp add: simulates_def)

lemma copy_simulates:
  assumes "ss_related (h, objs) xs"
  shows "simulates (ss_exec (h, objs) (CopyConstruct j)) (list_exec xs (CopyConstruct j))"
  using assms
proof (cases rule: related_live [where i = j])
  case (gone e)
  then show ?thesis by (simp add: simulates_def)
next
  case (there s a b)
  obtain h' s' where c: "copy_construct h s = Inr (h', s')" "represents h' s' a b" "memory_change h None h' (pointer s')"
    using copy_construct_good [OF there(5) related_memory [OF assms]] by (auto simp: good_new_def)
  then show ?thesis using there(1,2) related_append [OF assms, of h' "Some s'" "Some (a, b)"] by (simp add: simulates_def)
qed

lemma move_simulates:
  assumes "ss_related (h, objs) xs"
  shows "simulates (ss_exec (h, objs) (MoveConstruct j)) (list_exec xs (MoveConstruct j))"
  using assms
proof (cases rule: related_live [where i = j])
  case (gone e)
  then show ?thesis by (simp add: simulates_def)
next
  case (there s a b)
  let ?to = "\<lparr> ss_size = ss_size s, ss_storage = ss_storage s \<rparr>" and ?from = "moved_from h (ss_storage s)"
  have "move_construct h s = Inr (h, ?to, ?from)" using moved_to_good(1) [OF there(5)] by (simp add: move_construct_def)
  moreover have "ss_related (h, (objs @ [None])[length objs := Some ?to, j := Some ?from]) ((xs @ [None])[length objs := Some (a, b), j := Some ([], [])])"
    by (rule related_transfer [OF related_append_none [OF assms]])
      (use there(3,4) moved_to_good(2) [OF there(5)] moved_from_good [OF there(5)] in \<open>auto simp: nth_append pointer_def\<close>)
  moreover have "(objs @ [None])[length objs := Some ?to, j := Some ?from] = objs[j := Some ?from] @ [Some ?to]"
    "(xs @ [None])[length objs := Some (a, b), j := Some ([], [])] = xs[j := Some ([], [])] @ [Some (a, b)]"
    using there(3) related_length [OF assms] by (simp_all add: list_update_append)
  ultimately show ?thesis using there(1,2) by (simp add: simulates_def)
qed

lemma destroy_simulates:
  assumes "ss_related (h, objs) xs"
  shows "simulates (ss_exec (h, objs) (Destroy i)) (list_exec xs (Destroy i))"
  using assms
proof (cases rule: related_live [where i = i])
  case (gone e)
  then show ?thesis by (simp add: simulates_def)
next
  case (there s a b)
  obtain h' where f: "destroy_SizesAndStrides h s = Inr h'" "memory_change h (pointer s) h' None"
    using free_pointer [OF there(5) related_memory [OF assms]] unfolding destroy_SizesAndStrides_def by blast
  then show ?thesis using there(1,2,4) related_update [OF assms there(3), of h' None None] by (simp add: simulates_def)
qed

lemma assign_copy_simulates:
  assumes "ss_related (h, objs) xs"
  shows "simulates (ss_exec (h, objs) (AssignCopy i j)) (list_exec xs (AssignCopy i j))"
  using assms
proof (cases rule: related_live [where i = i])
  case (gone e)
  then show ?thesis by (simp add: simulates_def)
next
  case i: (there s c d)
  show ?thesis using assms
  proof (cases rule: related_live [where i = j])
    case (gone e)
    then show ?thesis using i(1,2) by (simp add: simulates_def)
  next
    case j: (there t a b)
    show ?thesis
    proof (cases "i = j")
      case True
      then show ?thesis using i(1,2) j(1,2) assms by (simp add: simulates_def)
    next
      case False
      obtain h' s' where u: "assign_copy h s t = Inr (h', s')" "represents h' s' a b" "memory_change h (pointer s) h' (pointer s')"
        using assign_copy_good [OF i(5) j(5) related_memory [OF assms] pointers_differ [OF assms i(3,4) j(3,4) False]] by (auto simp: good_update_def)
      then have "ss_related (h', objs[i := Some s']) (xs[i := Some (a, b)])" using related_update [OF assms i(3), of h' "Some s'" "Some (a, b)"] i(4) by simp
      then show ?thesis using i(1,2) j(1,2) False u(1) by (simp add: simulates_def put_object_def)
    qed
  qed
qed

lemma assign_move_moves:
  assumes "ss_related (h, objs) xs" "i < length objs" "objs ! i = Some s" "j < length objs" "objs ! j = Some t" "i \<noteq> j" "represents h s c d" "represents h t a b"
  shows "\<exists>h' s' t'. assign_move h s t = Inr (h', s', t') \<and> ss_related (h', objs[i := Some s', j := Some t']) (xs[i := Some (a, b), j := Some ([], [])])"
proof -
  note ok = related_memory [OF assms(1)]
  obtain h' where f: "(if \<not> isInline s then mem_free h (storage_pointer (ss_storage s)) else Inr h) = Inr h'" "memory_change h (pointer s) h' None"
    by (rule free_pointer [OF assms(7) ok])
  let ?to = "\<lparr> ss_size = ss_size t, ss_storage = ss_storage t \<rparr>" and ?from = "moved_from h' (ss_storage t)"
  have t: "represents h' t a b" by (rule represents_frame [OF assms(8) f(2) pointers_differ [OF assms(1-6)] ok])
  have "ss_related (h', objs[i := None]) (xs[i := None])" using related_update [OF assms(1,2), of h' None None] f(2) assms(3) by simp
  then have "ss_related (h', (objs[i := None])[i := Some ?to, j := Some ?from]) ((xs[i := None])[i := Some (a, b), j := Some ([], [])])"
    by (rule related_transfer) (use assms(2,4-6) moved_to_good(2) [OF t] moved_from_good [OF t] in \<open>auto simp: pointer_def\<close>)
  moreover have "assign_move h s t = Inr (h', ?to, ?from)" using f(1) moved_to_good(1) [OF t] by (simp add: assign_move_def)
  ultimately show ?thesis by simp
qed

lemma assign_move_simulates:
  assumes "ss_related (h, objs) xs"
  shows "simulates (ss_exec (h, objs) (AssignMove i j)) (list_exec xs (AssignMove i j))"
  using assms
proof (cases rule: related_live [where i = i])
  case (gone e)
  then show ?thesis by (simp add: simulates_def)
next
  case i: (there s c d)
  show ?thesis using assms
  proof (cases rule: related_live [where i = j])
    case (gone e)
    then show ?thesis using i(1,2) by (simp add: simulates_def)
  next
    case j: (there t a b)
    then show ?thesis using assign_move_moves [OF assms i(3,4) j(3,4) _ i(5) j(5)] i(1,2) assms by (cases "i = j") (auto simp: simulates_def)
  qed
qed

lemma represents_size: "represents h s a b \<Longrightarrow> ss_size s = length a"
  by (simp add: represents_def)

lemma error_branches:
  assumes "represents h s a b"
  shows "length xs \<noteq> length a \<Longrightarrow> ss_set_strides h s xs = Inl (InternalAssert ''strides.size() == size()'')"
    "\<not> k < length a \<Longrightarrow> ss_store_size h s k v = Inl (InternalAssert ''idx < size()'')"
    "\<not> k < length a \<Longrightarrow> ss_store_stride h s k v = Inl (InternalAssert ''idx < size()'')"
  using represents_size [OF assms] by (simp_all add: ss_set_strides_def ss_store_size_def ss_store_stride_def bindE_check)

lemma exec_simulates:
  assumes "ss_related (h, objs) xs"
  shows "simulates (ss_exec (h, objs) oper) (list_exec xs oper)"
proof (cases oper)
  case (Resize i n)
  show ?thesis unfolding Resize ss_exec.simps list_exec.simps by (rule update_simulates [OF assms]) (simp add: resize_good)
next
  case (SetSizes i ys)
  show ?thesis unfolding SetSizes ss_exec.simps list_exec.simps by (rule update_simulates [OF assms]) (simp add: set_sizes_good)
next
  case (SetStrides i ys)
  show ?thesis unfolding SetStrides ss_exec.simps list_exec.simps
    by (rule update_simulates [OF assms]) (auto simp: set_strides_good bindE_check error_branches)
next
  case (StoreSize i k v)
  show ?thesis unfolding StoreSize ss_exec.simps list_exec.simps
    by (rule update_simulates [OF assms]) (auto simp: store_size_good bindE_check error_branches)
next
  case (StoreStride i k v)
  show ?thesis unfolding StoreStride ss_exec.simps list_exec.simps
    by (rule update_simulates [OF assms]) (auto simp: store_stride_good bindE_check error_branches)
qed (simp_all only: construct_simulates [OF assms] copy_simulates [OF assms] move_simulates [OF assms] destroy_simulates [OF assms]
    assign_copy_simulates [OF assms] assign_move_simulates [OF assms])

section \<open>Runs\<close>

definition no_memory :: "(nat \<Rightarrow> int) \<Rightarrow> memory" where
  "no_memory u = \<lparr> m_blocks = (\<lambda>_. None), m_next = 0, m_uninit = u \<rparr>"

lemma run_simulates:
  assumes "ss_related (h, objs) xs"
  shows "simulates (foldE ss_exec (h, objs) opers) (foldE list_exec xs opers)"
  using assms
proof (induction opers arbitrary: h objs xs)
  case (Cons oper opers)
  show ?case
  proof (cases "list_exec xs oper")
    case (Inl e)
    then show ?thesis using exec_simulates [OF Cons.prems, of oper] by (simp add: simulates_def)
  next
    case (Inr ys)
    then obtain h' objs' where "ss_exec (h, objs) oper = Inr (h', objs')" "ss_related (h', objs') ys"
      using exec_simulates [OF Cons.prems, of oper] by (auto simp: simulates_def)
    then show ?thesis using Inr Cons.IH by simp
  qed
qed (simp add: simulates_def)

lemma related_start: "ss_related (no_memory u, []) []"
  by (simp add: ss_related_def owned_def memory_ok_def no_memory_def)

text \<open>What the relation means to a reader of the objects.\<close>

definition read_object :: "memory \<Rightarrow> SizesAndStrides option \<Rightarrow> lists option result" where
  "read_object h ob = (case ob of None \<Rightarrow> Inr None | Some s \<Rightarrow> bindE (sizes_arrayref h s) (\<lambda>a. bindE (strides_arrayref h s) (\<lambda>b. Inr (Some (a, b)))))"

lemma related_reads:
  assumes "ss_related (h, objs) xs"
  shows "mapE (read_object h) objs = Inr xs"
proof -
  have "list_all2 (object_represents h) objs xs" using assms by (simp add: ss_related_def)
  then show ?thesis
  proof (induction rule: list_all2_induct)
    case (Cons ob objs x xs)
    then show ?case by (cases "(h, ob, x)" rule: object_represents.cases) (auto simp: read_object_def represents_arrays)
  qed simp
qed

text \<open>The objects with more than five dimensions, and no others, have one block each.\<close>

fun many_dims :: "lists option \<Rightarrow> bool" where
  "many_dims None \<longleftrightarrow> False"
| "many_dims (Some (a, b)) \<longleftrightarrow> MAX_INLINE_SIZE < length a"

lemma object_has_block:
  assumes "object_represents h ob x"
  shows "many_dims x \<longleftrightarrow> object_pointer ob \<noteq> None"
proof (cases "(h, ob, x)" rule: object_represents.cases)
  case (2 h' s a b)
  then have r: "represents h s a b" using assms by simp
  show ?thesis
  proof (cases "isInline s")
    case True
    then show ?thesis using 2 inline_pointer [OF r] represents_size [OF r] by (simp add: isInline_def)
  next
    case False
    obtain p where "pointer s = Some p" by (rule represents_outline [OF r False])
    then show ?thesis using 2 False represents_size [OF r] by (simp add: isInline_def)
  qed
qed (use assms in auto)

lemma related_blocks:
  assumes "ss_related (h, objs) xs"
  shows "bij_betw (\<lambda>i. the (object_pointer (objs ! i))) {i. i < length xs \<and> many_dims (xs ! i)} (dom (m_blocks h))"
proof -
  have rep: "object_represents h (objs ! i) (xs ! i)" if "i < length objs" for i using assms that by (auto simp: ss_related_def list_all2_nthD)
  have has: "\<exists>q. object_pointer (objs ! i) = Some q \<and> m_blocks h q \<noteq> None" if "i < length objs" "many_dims (xs ! i)" for i
    using object_has_block [OF rep [OF that(1)]] object_allocated [OF rep [OF that(1)]] that(2) by auto
  have "inj_on (\<lambda>i. the (object_pointer (objs ! i))) {i. i < length xs \<and> many_dims (xs ! i)}"
  proof (rule inj_onI, clarify)
    fix i j assume a: "the (object_pointer (objs ! i)) = the (object_pointer (objs ! j))" "i < length xs" "many_dims (xs ! i)" "j < length xs" "many_dims (xs ! j)"
    then obtain q where "object_pointer (objs ! i) = Some q" "object_pointer (objs ! j) = Some q" using has related_length [OF assms] by fastforce
    then show "i = j" using a(2,4) related_length [OF assms] assms by (auto simp: ss_related_def owned_def)
  qed
  moreover have "q \<in> (\<lambda>i. the (object_pointer (objs ! i))) ` {i. i < length xs \<and> many_dims (xs ! i)}" if "q \<in> dom (m_blocks h)" for q
  proof -
    have "\<exists>i < length objs. object_pointer (objs ! i) = Some q" using that assms unfolding ss_related_def owned_def dom_def by simp
    then obtain i where i: "i < length objs" "object_pointer (objs ! i) = Some q" by blast
    then have "many_dims (xs ! i)" using object_has_block [OF rep [OF i(1)]] by simp
    then show ?thesis using i related_length [OF assms] by (intro image_eqI [of _ _ i]) auto
  qed
  moreover have "the (object_pointer (objs ! i)) \<in> dom (m_blocks h)" if "i < length xs" "many_dims (xs ! i)" for i
    using has [of i] that related_length [OF assms] by auto
  ultimately show ?thesis unfolding bij_betw_def by blast
qed


section \<open>Comparison\<close>

text \<open>Objects that compare equal have the same sizes and strides. With more than five dimensions the converse holds too.\<close>

lemma equal_sound:
  assumes "represents h s a b" "represents h s' a' b'" "ss_equal h s s' = Inr True"
  shows "a = a' \<and> b = b'"
proof -
  have n: "ss_size s' = ss_size s" using assms(3) by (auto simp: ss_equal_def split: if_splits)
  show ?thesis
  proof (cases "isInline s")
    case True
    then have i: "isInline s'" using n by (simp add: isInline_def)
    obtain x y where s: "ss_storage s = InlineStorage (a @ x @ b @ y)" "length a = ss_size s" "length b = ss_size s" "length x = MAX_INLINE_SIZE - ss_size s"
      "length y = MAX_INLINE_SIZE - ss_size s" by (rule represents_inline [OF assms(1) True])
    obtain x' y' where s': "ss_storage s' = InlineStorage (a' @ x' @ b' @ y')" "length a' = ss_size s'" "length b' = ss_size s'" "length x' = MAX_INLINE_SIZE - ss_size s'"
      "length y' = MAX_INLINE_SIZE - ss_size s'" by (rule represents_inline [OF assms(2) i])
    have "a @ x @ b @ y = a' @ x' @ b' @ y'" using assms(3) s(1) s'(1) True n by (simp add: ss_equal_def)
    then show ?thesis using s(2-5) s'(2-5) n by simp
  next
    case False
    then have i: "\<not> isInline s'" using n by (simp add: isInline_def)
    show ?thesis using assms(3) False n by (rule_tac represents_outline [OF assms(1) False], rule_tac represents_outline [OF assms(2) i]) (simp add: ss_equal_def)
  qed
qed

lemma equal_complete:
  assumes "represents h s a b" "represents h s' a b" "\<not> isInline s"
  shows "ss_equal h s s' = Inr True"
proof -
  have n: "ss_size s' = ss_size s" using represents_size [OF assms(1)] represents_size [OF assms(2)] by simp
  then have "\<not> isInline s'" using assms(3) by (simp add: isInline_def)
  from represents_outline [OF assms(2) this] obtain q where "ss_storage s' = OutOfLineStorage (Some q)" "m_blocks h q = Some (a @ b)" by metis
  moreover from represents_outline [OF assms(1,3)] obtain p where "ss_storage s = OutOfLineStorage (Some p)" "m_blocks h p = Some (a @ b)" by metis
  ultimately show ?thesis using n assms(3) by (simp add: ss_equal_def)
qed

text \<open>
  Up to five dimensions it does not: \<open>operator==\<close> compares the whole inline array, also the entries beyond \<open>size()\<close>, which keep what a larger
  size left there.
\<close>

lemma equal_sees_leftovers:
  "bindE (foldE ss_exec (no_memory u, []) [Construct, SetSizes 0 [3, 4], Resize 0 1, Construct, SetSizes 1 [3]]) (\<lambda>(h, objs).
     bindE (live_object objs 0) (\<lambda>s. bindE (live_object objs 1) (\<lambda>t. bindE (ss_equal h s t) (\<lambda>eq. bindE (mapE (read_object h) objs) (\<lambda>xs. Inr (eq, xs))))))
   = Inr (False, [Some ([3], [1]), Some ([3], [1])])"
  by (simp add: no_memory_def update_object_def live_object_def put_object_def default_SizesAndStrides_def MAX_INLINE_SIZE_def ss_set_sizes_def ss_resize_def isInline_def write_array_def
      mem_copy_def mem_zero_def ss_equal_def read_object_def sizes_arrayref_def strides_arrayref_def strides_start_def ss_array_def numeral_nat)

end
