(* ===== verification/Spec2Isabelle.thy ===== *)
theory Spec2Isabelle
  imports OperatorRuns DispatchArguments DispatchNames HashStoreThreads PrefixStore FileStore TcpStore LayoutManagement GraphCleanup TensorReshape TensorSplit DenseStrides PackedSizesRuns
begin

text \<open>
  Verification of the core of the C++ engine of GoTorch.

  \<^bold>\<open>The program.\<close> GoTorch is a tensor library: Go bindings (\<open>gotorch.go\<close>, \<open>csrc/go_binding\<close>) over an engine in C++ (\<open>c10\<close>,
  \<open>aten\<close>, \<open>torch/csrc\<close>, \<open>torch/nativert\<close>). Five parts carry logic of their own and are modelled here.

  \<^item> \<^emph>\<open>Dispatch\<close>. Every call of an operator goes through a dispatcher. A tensor has a set of dispatch keys, a 64-bit
    word; an operator has a table with a kernel for every runtime key. The call takes the union of the key sets of its
    arguments, masks it, takes the highest key and runs the kernel in its slot. Kernels are registered by libraries
    that may come and go.
  \<^item> \<^emph>\<open>Rendezvous stores\<close> (\<open>torch/csrc/distributed/c10d\<close>). Processes of a distributed job find each other through a
    key-value store, in memory, in a shared file or behind a TCP server.
  \<^item> \<^emph>\<open>Computation graphs\<close> (\<open>torch/nativert/graph\<close>): an exported model as a list of nodes with values between them, and
    the rewriting of such graphs.
  \<^item> \<^emph>\<open>Memory planning\<close> (\<open>torch/nativert/executor\<close>): when a value of a graph dies, which values share storage, and where
    each tensor lies in one buffer that is reused from run to run. It reads the graphs of the previous part.
  \<^item> \<^emph>\<open>Tensor geometry\<close> (\<open>aten/src/ATen\<close>): a tensor is a shape with strides over a storage. Operations that select, slice,
    reorder, broadcast or reshape make a new geometry over the same storage and copy no elements; whether such a
    geometry exists and stays within the storage is decided by integer arithmetic on sizes and strides.

  \<^bold>\<open>Conventions.\<close> A C++ function that throws is a function into \<open>c10_error + 'a\<close> (theory \<open>Prelude\<close>, with \<open>bindE\<close>, \<open>check\<close>,
  \<open>mapE\<close>, \<open>foldE\<close>); where a throwing operation leaves a changed state behind, it returns the state beside the result.
  Machine integers are words where bits or wrap-around matter (key sets, bit sets, alignment, 64-bit counters of the
  stores) and naturals with explicit bounds elsewhere. Hash maps are association lists, so that their iteration
  order, which C++ leaves open, is a list that the theorems quantify over. Objects that a program holds pointers
  to (graph nodes and values, operators in the registry) have numbers as identities. Operations that run under a mutex
  or a file lock are one step; concurrency is the interleaving of such steps.

  \<^bold>\<open>Dispatch.\<close>
  \<^item> \<open>BitMath\<close>: \<open>c10/util/llvmMathExtras.h\<close>, with its bisection loops and what they compute.
  \<^item> \<open>DispatchKeys\<close>, \<open>DispatchNames\<close>: \<open>c10/core/DispatchKey.h\<close> and \<open>.cpp\<close>: the enumerations by their values, the
    classification of keys, printing and parsing and their round trip.
  \<^item> \<open>DispatchKeySets\<close>: \<open>c10/core/DispatchKeySet.h\<close>: the representation as functionality and backend bits, refinement of
    insertion, removal and membership, the highest key.
  \<^item> \<open>DispatchTable\<close>: the slot of a key set in the tables (offsets and masks computed at start-up) equals the slot of its
    highest key, and slots and runtime keys correspond one to one.
  \<^item> \<open>DispatchIteration\<close>: the iterator over a key set ends and visits every runtime key once. The loop over it has fuel
    \<open>keyset_fuel\<close> = 48 * 16 + 1: at most 48 functionality bits with at most 16 backend bits each, one step per key; the
    theorem states that this fuel gives a result for every set.
  \<^item> \<open>DispatchAlias\<close>: \<open>c10/core/DispatchKeySet.cpp\<close>: alias keys and the two ways to test membership in one.
  \<^item> \<open>OperatorEntries\<close>: the definitions of \<open>ATen/core/dispatch/OperatorEntry.cpp\<close> and of the masks of
    \<open>DispatchKeyExtractor.cpp\<close>. \<open>OperatorTables\<close> specifies the computed entry as the first of a list of candidates and
    relates the masks to the fallthrough kernels of the table; \<open>OperatorUpdates\<close> and \<open>OperatorRegistration\<close> show which entries
    an update refreshes and that this is enough, except for autograd entries that some updates forget
    (\<open>forgets_autograd\<close>); \<open>OperatorDispatch\<close> has the consequences for every reachable table, the behaviour of a call,
    and two registrations that leave the table stale.
  \<^item> \<open>DispatchArguments\<close>: the keys of a call from its C++ arguments and from the stack of a boxed call agree
    (\<open>DispatchKeyExtractor.h\<close>, \<open>c10/util/Bitset.h\<close>). The loop over the bits ends because each round clears one.
  \<^item> \<open>OperatorRegistry\<close>: \<open>ATen/core/dispatch/Dispatcher.cpp\<close>, the registry and its RAII handles. \<open>OperatorLifecycle\<close> has its
    invariant, a relation between the registry and the list of live handles, and shows that registrations preserve
    it; \<open>OperatorRuns\<close> does so for destructors and derives that handles can be destroyed in any order (locale
    \<open>raii_handles\<close>) and that calls of a well-updated registry run the right kernel. The comparison of function
    schemas (\<open>findSchemaDifferences\<close>) is a parameter about which nothing is assumed.

  \<^bold>\<open>Stores.\<close>
  \<^item> \<open>CppStrings\<close>: decimal conversion (\<open>std::to_string\<close>, \<open>std::stoll\<close>) and their round trip.
  \<^item> \<open>Stores\<close>: \<open>Store.cpp\<close>, the contract of a store as the locale \<open>kv_store\<close> (extended by \<open>kv_store_exact\<close>: operations leave
    nothing but their effect), the operations that the base class derives from it, and \<open>shared_store\<close> for several
    clients. The compare-and-swap loop of \<open>Store::append\<close> has fuel; without interference one round suffices, which is
    what the contract of the derived operation says.
  \<^item> \<open>HashStore\<close>, \<open>HashStoreThreads\<close>: the store in memory; every operation refines a map, queues are first-in first-out;
    threads that wait on the condition variable as a step relation, with the wakeups that are lost.
  \<^item> \<open>PrefixStore\<close>: a view of another store under a prefix is isolated and again a store.
  \<^item> \<open>FileStore\<close>: the log of records in a shared file, byte for byte; workers with caches of different age are
    linearizable, and the last one removes the file. Record lengths are 64-bit.
  \<^item> \<open>TcpDaemon\<close>, \<open>TcpWakeups\<close>, \<open>TcpStore\<close>: the server (\<open>TCPStoreBackend.cpp\<close>) as handlers over the bytes that a socket
    delivers, its bookkeeping of waiting clients, and the client (\<open>TCPStore.cpp\<close>) as the bytes it sends; the pair
    refines a map for any number of clients.

  \<^bold>\<open>Graphs and memory.\<close>
  \<^item> \<open>GraphSignatures\<close>: \<open>GraphSignature.cpp\<close>. \<open>NativeGraph\<close>, \<open>GraphOps\<close>, \<open>GraphRewrites\<close>, \<open>GraphCleanup\<close>: \<open>Graph.h\<close> and \<open>Graph.cpp\<close>:
    data, elementary operations and the well-formedness invariant \<open>graph_ok\<close>, rewriting, and dead node elimination,
    whose marking loop is a \<open>while_option\<close> that is shown to end.
  \<^item> \<open>LayoutAlgorithms\<close> (locale \<open>layout_algorithm\<close>: tensors that live at the same time get disjoint space),
    \<open>StorageGroups\<close>: the three planning algorithms.
  \<^item> \<open>AliasAnalysis\<close>, \<open>ExecutionPlanner\<close>: lifetimes of values, and when they are freed.
  \<^item> \<open>LayoutPlanning\<close>, \<open>LayoutManagement\<close>: selection of the planned values, plans that grow while frames run, and the
    placement of tensors in the buffer of a frame.

  \<^bold>\<open>Tensor geometry.\<close> Sizes, strides and offsets are unbounded integers, since the code does not guard their 64-bit
  arithmetic (theorems assume \<open>representable\<close> where a result could leave 64 bits); sizes of storages in bytes, where the
  code checks for overflow, are 64-bit words.
  \<^item> \<open>TensorShapes\<close>: elements of a shape by index and by their position in row-major order, and the offset of an element.
  \<^item> \<open>TensorDims\<close>: \<open>WrapDimMinimal.h\<close>, \<open>WrapDimUtils.h\<close>, \<open>WrapDimUtilsMulti.h\<close>, \<open>InferSize.h\<close>: negative dimensions and the size -1.
    A shape is accepted exactly if one and only one completion of it fits.
  \<^item> \<open>TensorViews\<close>: \<open>computeStride\<close> of \<open>TensorUtils.cpp\<close>, which finds strides for a new shape; it is shown sound and complete.
  \<^item> \<open>TensorStorage\<close>: \<open>safe_numerics.h\<close>, \<open>EmptyTensor.cpp\<close>, \<open>Resize.h\<close>: the number of bytes that a geometry needs is exact, or
    an overflow is reported.
  \<^item> \<open>TensorBroadcast\<close>: \<open>ExpandUtils.cpp\<close>; the common shape is a least upper bound in the order of expansion.
  \<^item> \<open>StridedTensors\<close>: the operations of \<open>native/TensorShape.cpp\<close>. \<open>StridedViews\<close> has the locale \<open>view_geometry\<close>, the contract
    of an operation that computes a geometry (where each element of the view is found in the source), and
    its interpretations for selection, slices, windows, diagonals, permutations and dropped or added dimensions.
    \<open>ViewSafety\<close> derives that every chain of views stays inside the tensor it began with, \<open>TensorReshape\<close> that
    \<open>reshape\<close> copies only when it must and fails only on shapes that do not fit, \<open>TensorSplit\<close> that the parts of a
    split have every element once.
  \<^item> \<open>TensorLayouts\<close>: \<open>Contiguity.h\<close>, \<open>MemoryFormat.h\<close>: the tests for contiguous, channels-last and dense layouts; a tensor is dense
    for the sorted loop over the strides exactly if its elements fill a block of memory one to one. \<open>TensorOverlap\<close>: the
    flags that a tensor caches (\<open>TensorImpl.h\<close>) and what \<open>MemoryOverlap.cpp\<close> concludes from them. \<open>DenseStrides\<close>:
    \<open>infer_dense_strides\<close>, with its insertion sort by a comparison that is not transitive.
  \<^item> \<open>PackedSizes\<close>: \<open>c10/core/impl/SizesAndStrides.h\<close> and \<open>.cpp\<close>, the container for sizes and strides, with explicit memory: blocks,
    \<open>malloc\<close>, \<open>realloc\<close> and \<open>free\<close>, accesses that fail outside of a block. \<open>PackedSizesMemory\<close> has what each operation does to the lists
    that an object represents and to memory; \<open>PackedSizesRuns\<close> concludes that programs over any number of objects refine the same
    programs over lists, without memory errors or leaks. Allocation is assumed to succeed.

  \<^bold>\<open>Not modelled.\<close> Tensor arithmetic and its kernels (ATen native operators, CUDA, MPS, XPU and vectorised code):
  floating point programs, mostly generated from tables. Of \<open>TensorShape.cpp\<close>, the operations that copy elements and the
  sparse, quantized, named and symbolic variants of the others. Autograd, TorchScript, dynamo, inductor and ONNX: compilers with
  their own semantics, each of the size of this whole development. Process groups and the libuv store backend: calls of
  NCCL, Gloo, MPI and libuv. Device allocators: they depend on device APIs. Python and Go bindings: glue. In the
  modelled files, printing, logging, tracing, timeouts as durations and failures of system calls are left out.
\<close>

end
